(* ===== verification/Prelude.thy ===== *)
theory Prelude
  imports Main "HOL-Library.Word"
begin

text \<open>
  Shared vocabulary of the development: the machine integers of \<open>CoreTypes.h\<close>, the ways a run of
  the program can be cut short (\<open>CRASH\<close>, \<open>ASSERT_CRASH\<close>, undefined behaviour of the C library), the
  result type that carries them, little-endian 16-bit fields as \<open>reinterpret_cast\<close> reads them from a
  byte buffer, \<open>memcpy\<close> inside one buffer, and the list facts that several components use.
\<close>

unbundle bit_operations_syntax

section \<open>Machine integers (CoreTypes.h)\<close>

type_synonym BYTE = "8 word"
type_synonym uint8 = "8 word"
type_synonym uint16 = "16 word"
type_synonym uint32 = "32 word"
type_synonym uint64 = "64 word"

text \<open>
  \<open>int32\<close> values are mathematical integers: signed overflow is undefined in C++, so each component
  that computes with them has an invariant that keeps them inside the \<open>int32\<close> range.
\<close>

type_synonym int32 = int

definition int32_range :: "int \<Rightarrow> bool" where
  "int32_range i \<longleftrightarrow> - (2 ^ 31) \<le> i \<and> i < 2 ^ 31"

section \<open>Faults and results\<close>

text \<open>
  \<open>CRASH(cause)\<close> writes through a null pointer, which ends the process; each cause of the source is
  a constructor. \<open>MemcpyOverlap\<close>, \<open>OutOfBounds\<close>, \<open>BadCast\<close> (a floating-point value outside the
  range of the integer type it is converted to, or a pointer cast to a class the object does not have) and \<open>SignedOverflow\<close>
  are undefined behaviour the model does not look behind, as is \<open>UseAfterFree\<close>; \<open>Uncaught\<close> is an exception nobody catches.
\<close>

datatype fault =
    AssertCrash
  | LockTimeout
  | InvalidUnlockOrder
  | MultipleUnlock
  | InvalidUnlock
  | DeadlockDetected
  | NullDeref
  | MemcpyOverlap
  | OutOfBounds
  | BadCast
  | SignedOverflow
  | Uncaught
  | UseAfterFree

type_synonym 'a res = "fault + 'a"

fun and_then :: "'a res \<Rightarrow> ('a \<Rightarrow> 'b res) \<Rightarrow> 'b res" where
  "and_then (Inl e) f = Inl e"
| "and_then (Inr x) f = f x"

definition assert_crash :: "bool \<Rightarrow> 'a res \<Rightarrow> 'a res" where
  "assert_crash b k = (if b then k else Inl AssertCrash)"

lemma assert_crash_simps [simp]:
  "assert_crash True k = k"
  "assert_crash False k = Inl AssertCrash"
  by (simp_all add: assert_crash_def)

lemma and_then_Inr_iff: "and_then m f = Inr y \<longleftrightarrow> (\<exists>x. m = Inr x \<and> f x = Inr y)"
  by (cases m) auto

lemma assert_crash_Inr_iff: "assert_crash b k = Inr y \<longleftrightarrow> b \<and> k = Inr y"
  by (simp add: assert_crash_def)

lemma and_then_split:
  "P (and_then m f) \<longleftrightarrow> (\<forall>e. m = Inl e \<longrightarrow> P (Inl e)) \<and> (\<forall>x. m = Inr x \<longrightarrow> P (f x))"
  by (cases m) auto

fun fold_res :: "('x \<Rightarrow> 's \<Rightarrow> 's res) \<Rightarrow> 'x list \<Rightarrow> 's \<Rightarrow> 's res" where
  "fold_res f [] s = Inr s"
| "fold_res f (x # xs) s = and_then (f x s) (fold_res f xs)"

lemma fold_res_append:
  "fold_res f (xs @ ys) s = and_then (fold_res f xs s) (fold_res f ys)"
  by (induction xs arbitrary: s) (auto split: and_then_split)

lemma fold_res_inv:
  assumes "\<And>x s s'. x \<in> set xs \<Longrightarrow> I s \<Longrightarrow> f x s = Inr s' \<Longrightarrow> I s'"
    and "I s" and "fold_res f xs s = Inr s'"
  shows "I s'"
  using assms
proof (induction xs arbitrary: s)
  case Nil
  then show ?case by simp
next
  case (Cons x xs)
  then obtain s1 where step: "f x s = Inr s1" and rest: "fold_res f xs s1 = Inr s'"
    by (auto simp: and_then_Inr_iff)
  have "I s1"
    by (rule Cons.prems(1) [OF _ Cons.prems(2) step]) simp
  show ?case
    by (rule Cons.IH [OF _ \<open>I s1\<close> rest]) (use Cons.prems(1) in auto)
qed

section \<open>Little-endian 16-bit fields\<close>

definition le16 :: "BYTE \<Rightarrow> BYTE \<Rightarrow> uint16" where
  "le16 lo hi = ucast lo OR push_bit 8 (ucast hi)"

definition le16_bytes :: "uint16 \<Rightarrow> BYTE list" where
  "le16_bytes w = [ucast w, ucast (drop_bit 8 w)]"

definition read_u16 :: "BYTE list \<Rightarrow> nat \<Rightarrow> uint16" where
  "read_u16 buf off = le16 (buf ! off) (buf ! Suc off)"

lemma length_le16_bytes [simp]: "length (le16_bytes w) = 2"
  by (simp add: le16_bytes_def)

lemma le16_roundtrip [simp]: "le16 (ucast w) (ucast (drop_bit 8 w)) = w"
proof (rule bit_word_eqI)
  fix n assume n: "n < LENGTH(16)"
  show "bit (le16 (ucast w) (ucast (drop_bit 8 w))) n = bit w n"
    using n by (auto simp: le16_def bit_simps)
qed

lemma le16_bytes_le16 [simp]: "le16_bytes (le16 lo hi) = [lo, hi]"
proof -
  have "ucast (le16 lo hi) = lo"
    by (rule bit_word_eqI) (auto simp: le16_def bit_simps)
  moreover have "ucast (drop_bit 8 (le16 lo hi)) = hi"
    by (rule bit_word_eqI) (auto simp: le16_def bit_simps dest: bit_imp_le_length)
  ultimately show ?thesis by (simp add: le16_bytes_def)
qed

lemma read_u16_le16_bytes [simp]: "read_u16 (le16_bytes w @ rest) 0 = w"
  by (simp add: read_u16_def le16_bytes_def)

lemma read_u16_append: "Suc off < length xs \<Longrightarrow> read_u16 (xs @ ys) off = read_u16 xs off"
  by (simp add: read_u16_def nth_append)

lemma read_u16_take: "Suc off < n \<Longrightarrow> n \<le> length xs \<Longrightarrow> read_u16 (take n xs) off = read_u16 xs off"
  by (simp add: read_u16_def)

lemma read_u16_drop: "n \<le> length xs \<Longrightarrow> read_u16 (drop n xs) off = read_u16 xs (n + off)"
  by (simp add: read_u16_def)

section \<open>Byte ranges of one buffer\<close>

text \<open>\<open>store dst src buf\<close> overwrites \<open>buf\<close> from index \<open>dst\<close> with the bytes \<open>src\<close>.\<close>

definition store :: "nat \<Rightarrow> 'a list \<Rightarrow> 'a list \<Rightarrow> 'a list" where
  "store dst src buf = take dst buf @ src @ drop (dst + length src) buf"

definition segment :: "nat \<Rightarrow> nat \<Rightarrow> 'a list \<Rightarrow> 'a list" where
  "segment off n buf = take n (drop off buf)"

lemma length_store [simp]: "dst + length src \<le> length buf \<Longrightarrow> length (store dst src buf) = length buf"
  by (simp add: store_def)

lemma length_segment [simp]: "off + n \<le> length buf \<Longrightarrow> length (segment off n buf) = n"
  by (simp add: segment_def)

lemma segment_0_right [simp]: "segment off 0 buf = []"
  by (simp add: segment_def)

lemma segment_store_same [simp]:
  "dst \<le> length buf \<Longrightarrow> segment dst (length src) (store dst src buf) = src"
  by (simp add: segment_def store_def)

lemma segment_store_before:
  "off + n \<le> dst \<Longrightarrow> dst \<le> length buf \<Longrightarrow> segment off n (store dst src buf) = segment off n buf"
  by (simp add: segment_def store_def drop_take)

lemma segment_store_after:
  assumes "dst + length src \<le> off" and "dst + length src \<le> length buf"
  shows "segment off n (store dst src buf) = segment off n buf"
proof -
  have "drop off (store dst src buf) = drop off buf"
    using assms by (simp add: store_def)
  then show ?thesis by (simp add: segment_def)
qed

lemma segment_append:
  "off + m + n \<le> length buf \<Longrightarrow> segment off (m + n) buf = segment off m buf @ segment (off + m) n buf"
  by (simp add: segment_def take_add add.commute)

lemma drop_segment: "k \<le> n \<Longrightarrow> drop k (segment off n buf) = segment (off + k) (n - k) buf"
  by (simp add: segment_def drop_take add.commute)

lemma take_segment: "k \<le> n \<Longrightarrow> take k (segment off n buf) = segment off k buf"
  by (simp add: segment_def min_absorb1)

text \<open>
  \<open>memcpy\<close> between two ranges of the same buffer. The C library leaves overlapping ranges
  undefined, so an overlap is a fault and not a move.
\<close>

definition ranges_overlap :: "nat \<Rightarrow> nat \<Rightarrow> nat \<Rightarrow> bool" where
  "ranges_overlap dst src n \<longleftrightarrow> 0 < n \<and> dst < src + n \<and> src < dst + n"

definition memcpy_within :: "nat \<Rightarrow> nat \<Rightarrow> nat \<Rightarrow> 'a list \<Rightarrow> 'a list res" where
  "memcpy_within dst src n buf =
     (if length buf < src + n \<or> length buf < dst + n then Inl OutOfBounds
      else if ranges_overlap dst src n then Inl MemcpyOverlap
      else Inr (store dst (segment src n buf) buf))"

end
