(* ===== verification/Recv_Buffer.thy ===== *)
theory Recv_Buffer
  imports Prelude
begin

text \<open>
  The receive buffer of \<open>ClientNetworkCore/RecvBuffer.h\<close> and \<open>RecvBuffer.cpp\<close>: a linear byte array with
  a read and a write cursor. The abstract value of a buffer is the byte string between the cursors
  (\<open>pending\<close>); \<open>OnWrite\<close> appends to it, \<open>OnRead\<close> drops a prefix and \<open>Clean\<close> moves it to the front of
  the array without changing it. The locale \<open>byte_queue\<close> is the contract the packet framing of a
  session relies on; the model of the code is interpreted in it.
\<close>

section \<open>State\<close>

definition BUFFER_COUNT :: int where
  "BUFFER_COUNT = 10"

record recv_buffer =
  capacity :: int32
  bufferSize :: int32
  readPos :: int32
  writePos :: int32
  rbuf :: "BYTE list"

definition RecvBuffer :: "int32 \<Rightarrow> recv_buffer" where
  "RecvBuffer bs =
     \<lparr>capacity = bs * BUFFER_COUNT, bufferSize = bs, readPos = 0, writePos = 0,
      rbuf = replicate (nat (bs * BUFFER_COUNT)) 0\<rparr>"

definition DataSize :: "recv_buffer \<Rightarrow> int32" where
  "DataSize rb = writePos rb - readPos rb"

definition FreeSize :: "recv_buffer \<Rightarrow> int32" where
  "FreeSize rb = capacity rb - writePos rb"

section \<open>Operations\<close>

definition OnRead :: "int32 \<Rightarrow> recv_buffer \<Rightarrow> bool \<times> recv_buffer" where
  "OnRead numOfBytes rb =
     (if numOfBytes > DataSize rb then (False, rb)
      else (True, rb\<lparr>readPos := readPos rb + numOfBytes\<rparr>))"

definition OnWrite :: "int32 \<Rightarrow> recv_buffer \<Rightarrow> bool \<times> recv_buffer" where
  "OnWrite numOfBytes rb =
     (if numOfBytes > FreeSize rb then (False, rb)
      else (True, rb\<lparr>writePos := writePos rb + numOfBytes\<rparr>))"

text \<open>
  \<open>Clean\<close>: the cursors are reset when no data is pending; otherwise the pending data is copied to
  the front when more than one buffer of free space remains. The copy is a \<open>memcpy\<close>, which is a
  fault of the model when source and destination overlap.
\<close>

definition Clean :: "recv_buffer \<Rightarrow> recv_buffer res" where
  "Clean rb =
     (let dataSize = DataSize rb in
      if dataSize = 0 then Inr (rb\<lparr>readPos := 0, writePos := 0\<rparr>)
      else if FreeSize rb > bufferSize rb then
        and_then (memcpy_within 0 (nat (readPos rb)) (nat dataSize) (rbuf rb))
          (\<lambda>b. Inr (rb\<lparr>rbuf := b, readPos := 0, writePos := dataSize\<rparr>))
      else Inr rb)"

text \<open>
  The socket writes the received bytes at \<open>WritePos()\<close>; it is handed \<open>FreeSize()\<close> bytes of room, so
  it never writes more (\<open>RegisterRecv\<close> of the sessions).
\<close>

definition socket_fill :: "BYTE list \<Rightarrow> recv_buffer \<Rightarrow> recv_buffer" where
  "socket_fill bytes rb = rb\<lparr>rbuf := store (nat (writePos rb)) bytes (rbuf rb)\<rparr>"

section \<open>Abstract value and invariant\<close>

definition pending :: "recv_buffer \<Rightarrow> BYTE list" where
  "pending rb = segment (nat (readPos rb)) (nat (DataSize rb)) (rbuf rb)"

definition rb_inv :: "recv_buffer \<Rightarrow> bool" where
  "rb_inv rb \<longleftrightarrow>
     0 \<le> readPos rb \<and> readPos rb \<le> writePos rb \<and> writePos rb \<le> capacity rb \<and>
     0 < bufferSize rb \<and> capacity rb = bufferSize rb * BUFFER_COUNT \<and>
     int (length (rbuf rb)) = capacity rb"

lemmas rb_size_defs = DataSize_def FreeSize_def

lemma rb_inv_new: "0 < bs \<Longrightarrow> rb_inv (RecvBuffer bs)"
  by (simp add: rb_inv_def RecvBuffer_def BUFFER_COUNT_def)

lemma pending_new [simp]: "pending (RecvBuffer bs) = []"
  by (simp add: pending_def RecvBuffer_def DataSize_def)

lemma rb_inv_bounds:
  assumes "rb_inv rb"
  shows "nat (readPos rb) + nat (DataSize rb) = nat (writePos rb)"
    and "nat (writePos rb) \<le> length (rbuf rb)"
    and "0 \<le> DataSize rb" and "0 \<le> FreeSize rb"
    and "nat (writePos rb) + nat (FreeSize rb) = length (rbuf rb)"
  using assms by (auto simp: rb_inv_def rb_size_defs)

lemma length_pending: "rb_inv rb \<Longrightarrow> int (length (pending rb)) = DataSize rb"
  using rb_inv_bounds [of rb] by (simp add: pending_def)

lemma OnRead_result:
  "OnRead n rb = (True, rb') \<longleftrightarrow> n \<le> DataSize rb \<and> rb' = rb\<lparr>readPos := readPos rb + n\<rparr>"
  "fst (OnRead n rb) \<longleftrightarrow> n \<le> DataSize rb"
  by (auto simp: OnRead_def)

lemma OnWrite_result:
  "OnWrite n rb = (True, rb') \<longleftrightarrow> n \<le> FreeSize rb \<and> rb' = rb\<lparr>writePos := writePos rb + n\<rparr>"
  "fst (OnWrite n rb) \<longleftrightarrow> n \<le> FreeSize rb"
  by (auto simp: OnWrite_def)

lemma OnRead_refines:
  assumes inv: "rb_inv rb" and n: "0 \<le> n" "n \<le> DataSize rb" and step: "OnRead n rb = (ok, rb')"
  shows "ok" and "rb_inv rb'" and "pending rb' = drop (nat n) (pending rb)"
    and "FreeSize rb' = FreeSize rb" and "bufferSize rb' = bufferSize rb"
proof -
  have rb': "ok" "rb' = rb\<lparr>readPos := readPos rb + n\<rparr>"
    using step n(2) by (auto simp: OnRead_def)
  then show "ok" "FreeSize rb' = FreeSize rb" "bufferSize rb' = bufferSize rb"
    by (simp_all add: FreeSize_def)
  show "rb_inv rb'" using inv n rb' by (auto simp: rb_inv_def DataSize_def)
  have "nat n \<le> nat (DataSize rb)" using n by simp
  moreover have "nat (DataSize rb') = nat (DataSize rb) - nat n"
    and "nat (readPos rb') = nat (readPos rb) + nat n"
    using inv n rb' by (auto simp: rb_inv_def DataSize_def)
  ultimately show "pending rb' = drop (nat n) (pending rb)"
    using rb' by (simp add: pending_def drop_segment)
qed

lemma fill_then_OnWrite:
  assumes inv: "rb_inv rb" and room: "int (length bytes) \<le> FreeSize rb"
    and step: "OnWrite (int (length bytes)) (socket_fill bytes rb) = (ok, rb')"
  shows "ok" and "rb_inv rb'" and "pending rb' = pending rb @ bytes"
    and "FreeSize rb' = FreeSize rb - int (length bytes)" and "bufferSize rb' = bufferSize rb"
proof -
  let ?f = "socket_fill bytes rb"
  have rb': "ok" "rb' = ?f\<lparr>writePos := writePos rb + int (length bytes)\<rparr>"
    using step room by (auto simp: OnWrite_def socket_fill_def FreeSize_def)
  then show "ok" "FreeSize rb' = FreeSize rb - int (length bytes)" "bufferSize rb' = bufferSize rb"
    by (simp_all add: socket_fill_def FreeSize_def)
  have w: "nat (writePos rb) + length bytes \<le> length (rbuf rb)"
    and rw: "nat (readPos rb) + nat (DataSize rb) = nat (writePos rb)"
    using inv room by (auto simp: rb_inv_def rb_size_defs)
  show "rb_inv rb'"
    using inv room w rb' by (auto simp: rb_inv_def socket_fill_def rb_size_defs)
  have "nat (DataSize rb') = nat (DataSize rb) + length bytes"
    using inv rb' by (auto simp: rb_inv_def socket_fill_def rb_size_defs)
  then have "pending rb' =
      segment (nat (readPos rb)) (nat (DataSize rb) + length bytes)
        (store (nat (writePos rb)) bytes (rbuf rb))"
    using rb' by (simp add: pending_def socket_fill_def)
  also have "\<dots> = pending rb @ bytes"
    using w rw by (simp add: segment_append segment_store_before pending_def)
  finally show "pending rb' = pending rb @ bytes" .
qed

lemma Clean_cases:
  assumes step: "Clean rb = Inr rb'" and nonneg: "0 \<le> DataSize rb"
  shows "(DataSize rb = 0 \<and> rb' = rb\<lparr>readPos := 0, writePos := 0\<rparr>) \<or> rb' = rb \<or>
    (\<exists>b. 0 < DataSize rb \<and>
      memcpy_within 0 (nat (readPos rb)) (nat (DataSize rb)) (rbuf rb) = Inr b \<and>
      rb' = rb\<lparr>rbuf := b, readPos := 0, writePos := DataSize rb\<rparr>)"
proof (cases "DataSize rb = 0 \<or> \<not> bufferSize rb < FreeSize rb")
  case True
  then show ?thesis using step by (auto simp: Clean_def Let_def split: if_splits)
next
  case False
  with step have "and_then (memcpy_within 0 (nat (readPos rb)) (nat (DataSize rb)) (rbuf rb))
      (\<lambda>b. Inr (rb\<lparr>rbuf := b, readPos := 0, writePos := DataSize rb\<rparr>)) = Inr rb'"
    by (simp add: Clean_def Let_def)
  with False nonneg show ?thesis by (simp add: and_then_Inr_iff) blast
qed

lemma Clean_keeps_pending:
  assumes inv: "rb_inv rb" and step: "Clean rb = Inr rb'"
  shows "rb_inv rb'" and "pending rb' = pending rb" and "bufferSize rb' = bufferSize rb"
    and "DataSize rb' = DataSize rb" and "FreeSize rb \<le> FreeSize rb'"
proof -
  have cs: "(DataSize rb = 0 \<and> rb' = rb\<lparr>readPos := 0, writePos := 0\<rparr>) \<or> rb' = rb \<or>
      (\<exists>b. 0 < DataSize rb \<and>
        memcpy_within 0 (nat (readPos rb)) (nat (DataSize rb)) (rbuf rb) = Inr b \<and>
        rb' = rb\<lparr>rbuf := b, readPos := 0, writePos := DataSize rb\<rparr>)"
    using step rb_inv_bounds(3) [OF inv] by (rule Clean_cases)
  have data: "DataSize rb' = DataSize rb" using cs by (auto simp: DataSize_def)
  have size: "bufferSize rb' = bufferSize rb" using cs by auto
  have free: "FreeSize rb \<le> FreeSize rb'"
    using cs inv by (auto simp: rb_inv_def rb_size_defs)
  have keep: "rb_inv rb' \<and> pending rb' = pending rb"
    using cs
  proof (elim disjE exE conjE)
    assume "DataSize rb = 0" and "rb' = rb\<lparr>readPos := 0, writePos := 0\<rparr>"
    then show ?thesis using inv by (auto simp: rb_inv_def rb_size_defs pending_def)
  next
    fix b
    assume copy: "0 < DataSize rb"
      "memcpy_within 0 (nat (readPos rb)) (nat (DataSize rb)) (rbuf rb) = Inr b"
      "rb' = rb\<lparr>rbuf := b, readPos := 0, writePos := DataSize rb\<rparr>"
    let ?n = "nat (DataSize rb)"
    have n: "?n = length (pending rb)"
      using length_pending [OF inv] by simp
    have b: "b = store 0 (pending rb) (rbuf rb)" and len: "?n \<le> length (rbuf rb)"
      using copy(2) by (auto simp: memcpy_within_def pending_def split: if_splits)
    have "length b = length (rbuf rb)" using len n by (simp add: b)
    then have "rb_inv rb'" using inv copy(3) by (auto simp: rb_inv_def rb_size_defs)
    moreover have "pending rb' = segment 0 (length (pending rb)) b"
      using copy(3) n by (simp add: pending_def DataSize_def)
    then have "pending rb' = pending rb" by (simp add: b)
    ultimately show ?thesis ..
  next
    assume "rb' = rb"
    then show ?thesis using inv by simp
  qed
  show "rb_inv rb'" "pending rb' = pending rb" "bufferSize rb' = bufferSize rb"
    "DataSize rb' = DataSize rb" "FreeSize rb \<le> FreeSize rb'"
    using keep size data free by (auto simp only:)
qed

text \<open>
  In a well-formed buffer the only way \<open>Clean\<close> fails is the overlapping \<open>memcpy\<close>: data is pending,
  more than one buffer of room is left, and the data is longer than the consumed prefix.
\<close>

definition clean_overlaps :: "recv_buffer \<Rightarrow> bool" where
  "clean_overlaps rb \<longleftrightarrow>
     0 < DataSize rb \<and> bufferSize rb < FreeSize rb \<and> readPos rb < DataSize rb"

lemma memcpy_within_in_range:
  assumes "src + n \<le> length buf" and "dst + n \<le> length buf"
  shows "memcpy_within dst src n buf =
    (if ranges_overlap dst src n then Inl MemcpyOverlap else Inr (store dst (segment src n buf) buf))"
  using assms by (simp add: memcpy_within_def)

lemma Clean_overlap:
  assumes inv: "rb_inv rb"
  shows "Clean rb = Inl e \<longleftrightarrow> e = MemcpyOverlap \<and> clean_overlaps rb"
proof (cases "DataSize rb = 0 \<or> FreeSize rb \<le> bufferSize rb")
  case True
  then show ?thesis by (auto simp: Clean_def clean_overlaps_def Let_def split: if_splits)
next
  case False
  have "memcpy_within 0 (nat (readPos rb)) (nat (DataSize rb)) (rbuf rb) =
      (if ranges_overlap 0 (nat (readPos rb)) (nat (DataSize rb)) then Inl MemcpyOverlap
       else Inr (store 0 (pending rb) (rbuf rb)))"
    unfolding pending_def
    by (rule memcpy_within_in_range) (use rb_inv_bounds(1,2) [OF inv] in auto)
  moreover have "ranges_overlap 0 (nat (readPos rb)) (nat (DataSize rb)) \<longleftrightarrow> clean_overlaps rb"
    using False rb_inv_bounds(3) [OF inv] inv
    by (auto simp: ranges_overlap_def clean_overlaps_def rb_inv_def)
  ultimately show ?thesis
    using False by (auto simp: Clean_def Let_def)
qed

section \<open>The queue contract\<close>

text \<open>
  What the packet framing needs from a receive buffer: bytes that fit are appended to the pending
  ones, bytes that do not fit are refused, and consuming a prefix of the pending bytes leaves the
  rest (or ends in a fault).
\<close>

locale byte_queue =
  fixes inv :: "'b \<Rightarrow> bool"
    and content :: "'b \<Rightarrow> BYTE list"
    and room :: "'b \<Rightarrow> nat"
    and push :: "BYTE list \<Rightarrow> 'b \<Rightarrow> 'b option"
    and consume :: "nat \<Rightarrow> 'b \<Rightarrow> 'b res"
  assumes push_fits: "inv b \<Longrightarrow> length xs \<le> room b \<Longrightarrow>
      \<exists>b'. push xs b = Some b' \<and> inv b' \<and> content b' = content b @ xs"
    and push_full: "inv b \<Longrightarrow> room b < length xs \<Longrightarrow> push xs b = None"
    and consume_drop: "inv b \<Longrightarrow> n \<le> length (content b) \<Longrightarrow> consume n b = Inr b' \<Longrightarrow>
      inv b' \<and> content b' = drop n (content b)"
begin

lemma push_Some_iff:
  "inv b \<Longrightarrow> push xs b = Some b' \<Longrightarrow> length xs \<le> room b \<and> inv b' \<and> content b' = content b @ xs"
  using push_fits [of b xs] push_full [of b xs] by (cases "length xs \<le> room b") auto

end

definition rb_room :: "recv_buffer \<Rightarrow> nat" where
  "rb_room rb = nat (FreeSize rb)"

text \<open>The received bytes are put at \<open>WritePos()\<close>, then \<open>OnWrite\<close> accounts for them.\<close>

definition rb_push :: "BYTE list \<Rightarrow> recv_buffer \<Rightarrow> recv_buffer option" where
  "rb_push bytes rb =
     (case OnWrite (int (length bytes)) (socket_fill bytes rb) of
        (True, rb') \<Rightarrow> Some rb' | (False, _) \<Rightarrow> None)"

text \<open>\<open>OnRead\<close> of the processed length followed by \<open>Clean\<close>; \<open>OnRead\<close> cannot refuse here.\<close>

definition rb_consume :: "nat \<Rightarrow> recv_buffer \<Rightarrow> recv_buffer res" where
  "rb_consume n rb = Clean (snd (OnRead (int n) rb))"

lemma FreeSize_socket_fill [simp]: "FreeSize (socket_fill bytes rb) = FreeSize rb"
  by (simp add: FreeSize_def socket_fill_def)

interpretation rbq: byte_queue rb_inv pending rb_room rb_push rb_consume
proof unfold_locales
  fix b :: recv_buffer and xs :: "BYTE list"
  assume inv: "rb_inv b" and room: "length xs \<le> rb_room b"
  then have fits: "int (length xs) \<le> FreeSize b"
    using rb_inv_bounds(4) [OF inv] by (simp add: rb_room_def)
  obtain ok b' where step: "OnWrite (int (length xs)) (socket_fill xs b) = (ok, b')" by fastforce
  from fill_then_OnWrite(1-3) [OF inv fits step] step
  show "\<exists>b'. rb_push xs b = Some b' \<and> rb_inv b' \<and> pending b' = pending b @ xs"
    by (simp add: rb_push_def)
next
  fix b :: recv_buffer and xs :: "BYTE list"
  assume "rb_inv b" and "rb_room b < length xs"
  then show "rb_push xs b = None"
    using rb_inv_bounds(4) [of b] by (simp add: rb_push_def OnWrite_def rb_room_def)
next
  fix b b' :: recv_buffer and n
  assume inv: "rb_inv b" and n: "n \<le> length (pending b)" and step: "rb_consume n b = Inr b'"
  have "int n \<le> DataSize b" using n length_pending [OF inv] by simp
  moreover obtain ok b1 where read: "OnRead (int n) b = (ok, b1)" by fastforce
  ultimately have b1: "rb_inv b1" "pending b1 = drop n (pending b)"
    using OnRead_refines(2,3) [OF inv _ _ read] by simp_all
  have "Clean b1 = Inr b'" using step read by (simp add: rb_consume_def)
  with b1 show "rb_inv b' \<and> pending b' = drop n (pending b)"
    using Clean_keeps_pending(1,2) by auto
qed

section \<open>Properties\<close>

text \<open>
  C34: On a well-formed receive buffer \<open>Clean\<close> either leaves a well-formed buffer with the same pending
  bytes and at least as much free space, or it is the undefined overlapping \<open>memcpy\<close>; the latter
  happens exactly when data is pending, more than one buffer size is free, and the data is longer
  than the prefix already read.
\<close>
theorem Clean_contract:
  assumes "rb_inv rb"
  shows "case Clean rb of
    Inl e \<Rightarrow> e = MemcpyOverlap \<and> 0 < DataSize rb \<and> bufferSize rb < FreeSize rb \<and> readPos rb < DataSize rb
  | Inr rb' \<Rightarrow> rb_inv rb' \<and> pending rb' = pending rb \<and> FreeSize rb \<le> FreeSize rb' \<and>
      \<not> (0 < DataSize rb \<and> bufferSize rb < FreeSize rb \<and> readPos rb < DataSize rb)"
proof (cases "Clean rb")
  case (Inl e)
  then show ?thesis using Clean_overlap [OF assms, of e] by (simp add: clean_overlaps_def)
next
  case (Inr rb')
  then show ?thesis
    using Clean_keeps_pending [OF assms Inr] Clean_overlap [OF assms, of MemcpyOverlap]
    by (auto simp: clean_overlaps_def)
qed

definition rb_sample :: recv_buffer where
  "rb_sample = \<lparr>capacity = 20, bufferSize = 2, readPos = 3, writePos = 5,
     rbuf = [1, 2, 3, 4, 5] @ replicate 15 0\<rparr>"

lemma rb_inv_sample: "rb_inv rb_sample"
  by (simp add: rb_inv_def rb_sample_def BUFFER_COUNT_def)

theorem Clean_contract_witness:
  "\<exists>rb'. Clean rb_sample = Inr rb' \<and> rb_inv rb' \<and> pending rb' = pending rb_sample \<and> pending rb' = [4, 5]"
proof -
  have "Clean rb_sample = Inr (rb_sample\<lparr>readPos := 0, writePos := 2, rbuf := [4, 5, 3, 4, 5] @ replicate 15 0\<rparr>)"
    by (simp add: Clean_def rb_sample_def DataSize_def FreeSize_def memcpy_within_def ranges_overlap_def
        store_def segment_def)
  moreover have "pending rb_sample = [4, 5]"
    by (simp add: rb_sample_def pending_def DataSize_def segment_def)
  ultimately show ?thesis using Clean_contract [OF rb_inv_sample] by auto
qed

end
