(* ===== verification/Framing.thy ===== *)
theory Framing
  imports Recv_Buffer
begin

text \<open>
  Cutting a received byte stream into packets: the two header structs of \<open>Session.h\<close> and the loop
  \<open>IsParsingPacket\<close>, which \<open>TcpSession\<close> (\<open>Session.cpp\<close>) and \<open>UdpReceiver\<close> (\<open>UdpReceiver.cpp\<close>) have in
  identical form, up to the header type and the callback. The loop hands every complete packet to
  \<open>OnRecv\<close> in order and returns the number of bytes it consumed; here it returns the list of packets
  handed over. The locale \<open>packet_stream\<close> proves, over any buffer that meets the contract
  \<open>byte_queue\<close>, that the packets delivered over a connection are those of the whole byte stream,
  however the network cuts it into chunks.
\<close>

section \<open>Packet headers (Session.h)\<close>

text \<open>The template argument \<open>HeaderType\<close> of the packet code.\<close>

datatype header_type = TcpPacketHeader | UdpPacketHeader

text \<open>\<open>uint16 size, id\<close> for TCP, and \<open>uint16 size, id, sequence\<close> for UDP, with no padding.\<close>

fun sizeof_header :: "header_type \<Rightarrow> nat" where
  "sizeof_header TcpPacketHeader = 4"
| "sizeof_header UdpPacketHeader = 6"

definition header_size :: "BYTE list \<Rightarrow> uint16" where
  "header_size buf = read_u16 buf 0"

definition header_id :: "BYTE list \<Rightarrow> uint16" where
  "header_id buf = read_u16 buf 2"

definition header_sequence :: "BYTE list \<Rightarrow> uint16" where
  "header_sequence buf = read_u16 buf 4"

lemma sizeof_header_pos [simp]: "0 < sizeof_header h" "sizeof_header h \<noteq> 0" "2 \<le> sizeof_header h"
  by (cases h; simp)+

section \<open>The parsing loop\<close>

text \<open>
  \<open>header\<close> points at \<open>buffer[processLen]\<close>; the loop stops when no complete header is left, when the
  packet is not complete, or when its size field is smaller than the header.
\<close>

function IsParsingPacket :: "header_type \<Rightarrow> BYTE list \<Rightarrow> nat \<Rightarrow> nat \<Rightarrow> BYTE list list \<times> nat" where
  "IsParsingPacket h buffer len processLen =
     (let dataSize = len - processLen in
      if dataSize < sizeof_header h then ([], processLen)
      else
        let size = unat (header_size (drop processLen buffer)) in
        if dataSize < size \<or> size < sizeof_header h then ([], processLen)
        else
          let (packets, n) = IsParsingPacket h buffer len (processLen + size)
          in (segment processLen size buffer # packets, n))"
  by pat_completeness auto
termination
proof (relation "measure (\<lambda>(h, buffer, len, processLen). len - processLen)", goal_cases)
  case 1
  then show ?case by simp
next
  case (2 h buffer len processLen x xa)
  then have "0 < xa" and "0 < len - processLen"
    using sizeof_header_pos(1) [of h] by linarith+
  with 2 show ?case by simp
qed

declare IsParsingPacket.simps [simp del]

text \<open>Both sessions call the loop on the whole pending data, from its start.\<close>

definition parse :: "header_type \<Rightarrow> BYTE list \<Rightarrow> BYTE list list \<times> nat" where
  "parse h buf = IsParsingPacket h buf (length buf) 0"

section \<open>Well-formed packets and the next packet of a stream\<close>

definition valid_packet :: "header_type \<Rightarrow> BYTE list \<Rightarrow> bool" where
  "valid_packet h p \<longleftrightarrow> sizeof_header h \<le> length p \<and> unat (header_size p) = length p"

definition packet_ready :: "header_type \<Rightarrow> BYTE list \<Rightarrow> bool" where
  "packet_ready h buf \<longleftrightarrow>
     sizeof_header h \<le> length buf \<and> sizeof_header h \<le> unat (header_size buf) \<and>
     unat (header_size buf) \<le> length buf"

text \<open>A size field too small for a header: the stream cannot be cut any further.\<close>

definition malformed_head :: "header_type \<Rightarrow> BYTE list \<Rightarrow> bool" where
  "malformed_head h buf \<longleftrightarrow>
     sizeof_header h \<le> length buf \<and> unat (header_size buf) < sizeof_header h"

abbreviation next_size :: "BYTE list \<Rightarrow> nat" where
  "next_size buf \<equiv> unat (header_size buf)"

lemma IsParsingPacket_shift:
  assumes "k \<le> length buffer"
  shows "IsParsingPacket h buffer (length buffer) (k + n) =
    map_prod id ((+) k) (IsParsingPacket h (drop k buffer) (length buffer - k) n)"
proof (induction "length buffer - (k + n)" arbitrary: n rule: less_induct)
  case less
  let ?d = "drop n (drop k buffer)"
  have dr: "drop (k + n) buffer = ?d" by (simp add: add.commute)
  have seg: "segment (k + n) s buffer = segment n s (drop k buffer)" for s
    by (simp add: segment_def add.commute)
  show ?case
  proof (cases "length buffer - (k + n) < sizeof_header h \<or>
      length buffer - (k + n) < next_size ?d \<or> next_size ?d < sizeof_header h")
    case True
    then show ?thesis
      by (subst (1 2) IsParsingPacket.simps) (auto simp: dr Let_def)
  next
    case False
    have step: "IsParsingPacket h buffer (length buffer) (k + (n + next_size ?d)) =
        map_prod id ((+) k) (IsParsingPacket h (drop k buffer) (length buffer - k) (n + next_size ?d))"
      by (rule less) (use False sizeof_header_pos(1) [of h] in linarith)
    show ?thesis
      using False step
      by (subst (1 2) IsParsingPacket.simps)
        (auto simp: dr seg Let_def add.assoc split: prod.splits)
  qed
qed

lemma parse_unfold:
  "parse h buf =
     (if packet_ready h buf then
        map_prod ((#) (take (next_size buf) buf)) ((+) (next_size buf))
          (parse h (drop (next_size buf) buf))
      else ([], 0))"
proof (cases "packet_ready h buf")
  case True
  obtain qs m where rest: "parse h (drop (next_size buf) buf) = (qs, m)" by fastforce
  with True have "IsParsingPacket h buf (length buf) (next_size buf) = (qs, next_size buf + m)"
    using IsParsingPacket_shift [of "next_size buf" buf h 0]
    by (simp add: parse_def packet_ready_def)
  with True rest show ?thesis
    unfolding parse_def [of h buf]
    by (subst IsParsingPacket.simps) (simp add: packet_ready_def Let_def segment_def)
next
  case False
  then show ?thesis
    unfolding parse_def [of h buf]
    by (subst IsParsingPacket.simps) (auto simp: packet_ready_def Let_def)
qed

lemma parse_stop: "\<not> packet_ready h buf \<Longrightarrow> parse h buf = ([], 0)"
  by (subst parse_unfold) simp

lemma parse_step:
  "packet_ready h buf \<Longrightarrow>
   parse h buf = map_prod ((#) (take (next_size buf) buf)) ((+) (next_size buf))
     (parse h (drop (next_size buf) buf))"
  by (subst parse_unfold) simp

lemma packet_ready_shrinks: "packet_ready h buf \<Longrightarrow> length (drop (next_size buf) buf) < length buf"
  using sizeof_header_pos(1) [of h] by (auto simp: packet_ready_def simp del: sizeof_header_pos)

lemma parse_induct [case_names stop step]:
  assumes "\<And>buf. \<not> packet_ready h buf \<Longrightarrow> P buf"
    and "\<And>buf. packet_ready h buf \<Longrightarrow> P (drop (next_size buf) buf) \<Longrightarrow> P buf"
  shows "P buf"
proof (induction buf rule: length_induct)
  case (1 buf)
  then show ?case
    using assms packet_ready_shrinks [of h buf] by (cases "packet_ready h buf") blast+
qed

section \<open>What the loop delivers\<close>

text \<open>The consumed bytes are exactly the delivered packets, each well formed.\<close>

lemma header_size_append: "2 \<le> length xs \<Longrightarrow> header_size (xs @ ys) = header_size xs"
  by (simp add: header_size_def read_u16_append)

lemma header_size_take: "2 \<le> n \<Longrightarrow> n \<le> length xs \<Longrightarrow> header_size (take n xs) = header_size xs"
  by (simp add: header_size_def read_u16_take)

lemma packet_ready_append: "packet_ready h xs \<Longrightarrow> packet_ready h (xs @ ys)"
  using sizeof_header_pos(3) [of h]
  by (auto simp: packet_ready_def header_size_append simp del: sizeof_header_pos)

lemma packet_ready_valid: "packet_ready h buf \<Longrightarrow> valid_packet h (take (next_size buf) buf)"
  using sizeof_header_pos(3) [of h]
  by (auto simp: packet_ready_def valid_packet_def header_size_take simp del: sizeof_header_pos)

lemma parse_sound:
  "parse h buf = (ps, n) \<Longrightarrow>
   n \<le> length buf \<and> concat ps = take n buf \<and> (\<forall>p \<in> set ps. valid_packet h p) \<and>
   \<not> packet_ready h (drop n buf)"
proof (induction buf arbitrary: ps n rule: parse_induct [of h])
  case (stop buf)
  then show ?case by (simp add: parse_stop)
next
  case (step buf)
  let ?s = "next_size buf"
  obtain qs m where rest: "parse h (drop ?s buf) = (qs, m)" by fastforce
  with step.prems step.hyps have eq: "ps = take ?s buf # qs" "n = ?s + m"
    by (simp_all add: parse_step)
  have s: "?s \<le> length buf" using step.hyps by (simp add: packet_ready_def)
  from step.IH [OF rest] show ?case
    using eq s step.hyps
    by (auto simp: take_add [of ?s m buf] packet_ready_valid add.commute [of m ?s] simp del: take_add)
qed

lemma valid_packet_ready:
  "valid_packet h p \<Longrightarrow> packet_ready h (p @ rest) \<and> next_size (p @ rest) = length p"
  using sizeof_header_pos(3) [of h]
  by (auto simp: valid_packet_def packet_ready_def header_size_append simp del: sizeof_header_pos)

lemma parse_complete:
  assumes "\<forall>p \<in> set ps. valid_packet h p" and "\<not> packet_ready h rest"
  shows "parse h (concat ps @ rest) = (ps, length (concat ps))"
  using assms(1)
proof (induction ps)
  case Nil
  then show ?case using assms(2) by (simp add: parse_stop)
next
  case (Cons p ps)
  then have "packet_ready h (p @ concat ps @ rest)" "next_size (p @ concat ps @ rest) = length p"
    using valid_packet_ready by auto
  with Cons show ?case by (simp add: parse_step)
qed

text \<open>
  Later bytes never change what was already delivered: parsing \<open>xs\<close> and then the unconsumed rest
  followed by \<open>ys\<close> is parsing \<open>xs @ ys\<close>.
\<close>

lemma parse_append:
  "parse h xs = (ps, n) \<Longrightarrow> parse h (drop n xs @ ys) = (qs, m) \<Longrightarrow>
   parse h (xs @ ys) = (ps @ qs, n + m)"
proof (induction xs arbitrary: ps n rule: parse_induct [of h])
  case (stop xs)
  then show ?case by (simp add: parse_stop)
next
  case (step xs)
  let ?s = "next_size xs"
  have s: "?s \<le> length xs" "2 \<le> length xs"
    using step.hyps sizeof_header_pos(3) [of h] by (auto simp: packet_ready_def simp del: sizeof_header_pos)
  obtain ps' n' where rest: "parse h (drop ?s xs) = (ps', n')" by fastforce
  with step.prems(1) step.hyps have eq: "ps = take ?s xs # ps'" "n = ?s + n'"
    by (simp_all add: parse_step)
  have "parse h (drop n' (drop ?s xs) @ ys) = (qs, m)"
    using step.prems(2) eq(2) by (simp add: add.commute)
  from step.IH [OF rest this] have IH: "parse h (drop ?s xs @ ys) = (ps' @ qs, n' + m)" .
  have "next_size (xs @ ys) = ?s" using s by (simp add: header_size_append)
  then show ?case
    using parse_step [OF packet_ready_append [OF step.hyps, of ys]] IH s eq by simp
qed

text \<open>A malformed head stays at the front for ever: whatever arrives, nothing more is delivered.\<close>

lemma parse_malformed:
  assumes "malformed_head h buf"
  shows "parse h (buf @ later) = ([], 0)"
proof (rule parse_stop)
  have "header_size (buf @ later) = header_size buf"
    using assms sizeof_header_pos(3) [of h]
    by (intro header_size_append) (auto simp: malformed_head_def simp del: sizeof_header_pos)
  then show "\<not> packet_ready h (buf @ later)"
    using assms by (simp add: malformed_head_def packet_ready_def)
qed

section \<open>Reassembly over a byte queue\<close>

text \<open>
  One \<open>ProcessRecv\<close>: append the chunk, parse what is pending, consume what was parsed. The chunk is
  refused (the \<open>OnWrite Overflow\<close> branch) when it does not fit.
\<close>

definition receive_chunk ::
  "header_type \<Rightarrow> ('b \<Rightarrow> BYTE list) \<Rightarrow> (BYTE list \<Rightarrow> 'b \<Rightarrow> 'b option) \<Rightarrow> (nat \<Rightarrow> 'b \<Rightarrow> 'b res) \<Rightarrow>
   BYTE list \<Rightarrow> 'b \<Rightarrow> (BYTE list list \<times> 'b res) option" where
  "receive_chunk h content push consume chunk b =
     (case push chunk b of
        None \<Rightarrow> None
      | Some b1 \<Rightarrow> let (packets, n) = parse h (content b1) in Some (packets, consume n b1))"

fun receive_stream ::
  "header_type \<Rightarrow> ('b \<Rightarrow> BYTE list) \<Rightarrow> (BYTE list \<Rightarrow> 'b \<Rightarrow> 'b option) \<Rightarrow> (nat \<Rightarrow> 'b \<Rightarrow> 'b res) \<Rightarrow>
   BYTE list list \<Rightarrow> 'b \<Rightarrow> (BYTE list list \<times> 'b) option" where
  "receive_stream h content push consume [] b = Some ([], b)"
| "receive_stream h content push consume (c # cs) b =
     (case receive_chunk h content push consume c b of
        Some (packets, Inr b1) \<Rightarrow>
          map_option (map_prod ((@) packets) id) (receive_stream h content push consume cs b1)
      | _ \<Rightarrow> None)"

locale packet_stream = byte_queue +
  fixes h :: header_type
begin

text \<open>
  Whatever the chunks are, the delivered packets are those of the concatenated stream and the queue
  is left with the unconsumed tail.
\<close>

lemma receive_stream_parse:
  assumes "inv b" and "receive_stream h content push consume cs b = Some (ps, b')"
    and "\<not> packet_ready h (content b)"
  shows "inv b' \<and> (\<exists>n. parse h (content b @ concat cs) = (ps, n) \<and>
    content b' = drop n (content b @ concat cs))"
  using assms
proof (induction cs arbitrary: b ps)
  case Nil
  then show ?case by (simp add: parse_stop)
next
  case (Cons c cs)
  obtain packets b1 qs where chunk: "receive_chunk h content push consume c b = Some (packets, Inr b1)"
    and rest: "receive_stream h content push consume cs b1 = Some (qs, b')" and ps: "ps = packets @ qs"
    using Cons.prems(2) by (auto split: option.splits sum.splits)
  obtain b0 n where b0: "push c b = Some b0" and parsed: "parse h (content b0) = (packets, n)"
    and used: "consume n b0 = Inr b1"
    using chunk by (auto simp: receive_chunk_def split: option.splits prod.splits)
  have inv0: "inv b0" and c0: "content b0 = content b @ c"
    using push_Some_iff [OF Cons.prems(1) b0] by auto
  have n: "n \<le> length (content b0)" and stop: "\<not> packet_ready h (drop n (content b0))"
    using parse_sound [OF parsed] by auto
  have inv1: "inv b1" and c1: "content b1 = drop n (content b0)"
    using consume_drop [OF inv0 n used] by auto
  from Cons.IH [OF inv1 rest] stop c1 obtain m where inv': "inv b'"
    and m: "parse h (drop n (content b0) @ concat cs) = (qs, m)"
    and c': "content b' = drop m (drop n (content b0) @ concat cs)"
    by auto
  from parse_append [OF parsed m] have "parse h (content b @ concat (c # cs)) = (ps, n + m)"
    by (simp add: c0 ps)
  moreover have "drop n (content b0) @ concat cs = drop n (content b0 @ concat cs)"
    using n by simp
  then have "content b' = drop (n + m) (content b @ concat (c # cs))"
    using c' by (simp only: drop_drop c0 append_assoc concat.simps add.commute)
  ultimately show ?case using inv' by blast
qed

end

interpretation rbs: packet_stream rb_inv pending rb_room rb_push rb_consume h for h
  by unfold_locales

section \<open>Properties\<close>

text \<open>
  The parsing loop is characterised by its result: it returns the packets \<open>ps\<close> and the count \<open>n\<close>
  exactly when the packets are well formed, their concatenation is the first \<open>n\<close> bytes, and no
  complete well-formed packet starts at byte \<open>n\<close>.
\<close>
theorem parse_characterised:
  "parse h buf = (ps, n) \<longleftrightarrow>
     n \<le> length buf \<and> concat ps = take n buf \<and> list_all (valid_packet h) ps \<and>
     \<not> packet_ready h (drop n buf)"
proof
  assume "parse h buf = (ps, n)"
  from parse_sound [OF this] show "n \<le> length buf \<and> concat ps = take n buf \<and>
      list_all (valid_packet h) ps \<and> \<not> packet_ready h (drop n buf)"
    by (simp add: list_all_iff)
next
  assume R: "n \<le> length buf \<and> concat ps = take n buf \<and> list_all (valid_packet h) ps \<and>
      \<not> packet_ready h (drop n buf)"
  then have "parse h (concat ps @ drop n buf) = (ps, length (concat ps))"
    by (intro parse_complete) (simp_all add: list_all_iff)
  with R show "parse h buf = (ps, n)" by simp
qed


definition sample_chunks :: "BYTE list list" where
  "sample_chunks = [[5, 0, 1, 0, 7, 4, 0], [2, 0, 4]]"


text \<open>
  A head whose size field is smaller than a header wedges the stream: nothing is delivered or
  consumed, whatever bytes arrive later.
\<close>
theorem malformed_head_wedges:
  assumes "malformed_head h buf"
  shows "parse h (buf @ later) = ([], 0) \<and> malformed_head h (buf @ later)"
proof -
  have "header_size (buf @ later) = header_size buf"
    using assms sizeof_header_pos(3) [of h]
    by (intro header_size_append) (auto simp: malformed_head_def simp del: sizeof_header_pos)
  then show ?thesis using assms parse_malformed [OF assms] by (simp add: malformed_head_def)
qed

theorem malformed_head_wedges_witness:
  "parse UdpPacketHeader ([3, 0, 1, 0, 0, 0] @ [6, 0, 1, 0, 0, 0]) = ([], 0)"
  by (rule malformed_head_wedges [THEN conjunct1])
    (simp add: malformed_head_def header_size_def read_u16_def le16_def)

end
