(* ===== verification/Send_Buffer.thy ===== *)
theory Send_Buffer
  imports Prelude "HOL-Library.AList"
begin

text \<open>
  Send buffers (\<open>ClientNetworkCore/SendBuffer.h\<close>, \<open>SendBuffer.cpp\<close>). A thread carves its outgoing
  packets from a 6000-byte chunk it holds in thread-local storage; a packet (\<open>SendBuffer\<close>) keeps a
  shared pointer to its chunk, and a chunk whose last pointer goes away is put back into the pool of
  the \<open>SendBufferManager\<close> and reused from its start. The state below holds the chunks, the chunk of
  each thread, the pool and the live buffers; the reference counts are the number of places that
  hold a chunk. The invariant shows that bytes of two live buffers never overlap and that a chunk is
  reused only when nobody can reach its old bytes.
\<close>

section \<open>SendBufferChunk\<close>

definition SEND_BUFFER_CHUNK_SIZE :: uint32 where
  "SEND_BUFFER_CHUNK_SIZE = 6000"

record send_buffer_chunk =
  chunk_open :: bool
  usedSize :: uint32

definition SendBufferChunk :: send_buffer_chunk where
  "SendBufferChunk = \<lparr>chunk_open = False, usedSize = 0\<rparr>"

definition chunk_Reset :: "send_buffer_chunk \<Rightarrow> send_buffer_chunk" where
  "chunk_Reset c = c\<lparr>chunk_open := False, usedSize := 0\<rparr>"

definition chunk_FreeSize :: "send_buffer_chunk \<Rightarrow> uint32" where
  "chunk_FreeSize c = SEND_BUFFER_CHUNK_SIZE - usedSize c"

text \<open>
  \<open>Open\<close> returns \<open>nullptr\<close> (\<open>None\<close>) when the chunk has too little room, and otherwise the offset of
  the carved range, \<open>Buffer() = &_buffer[_usedSize]\<close>.
\<close>

definition chunk_Open :: "uint32 \<Rightarrow> send_buffer_chunk \<Rightarrow> (nat option \<times> send_buffer_chunk) res" where
  "chunk_Open allocSize c =
     assert_crash (allocSize \<le> SEND_BUFFER_CHUNK_SIZE)
       (assert_crash (chunk_open c = False)
         (if allocSize > chunk_FreeSize c then Inr (None, c)
          else Inr (Some (unat (usedSize c)), c\<lparr>chunk_open := True\<rparr>)))"

definition chunk_Close :: "uint32 \<Rightarrow> send_buffer_chunk \<Rightarrow> send_buffer_chunk res" where
  "chunk_Close writeSz c =
     assert_crash (chunk_open c)
       (Inr (c\<lparr>chunk_open := False, usedSize := usedSize c + writeSz\<rparr>))"

section \<open>SendBuffer and SendBufferManager\<close>

text \<open>
  A buffer records its chunk (\<open>_owner\<close>), the offset its pointer has in that chunk, and its two
  sizes. \<open>closed\<close> is a ghost field: whether \<open>Close\<close> has run.
\<close>

record send_buffer =
  owner :: nat
  offset :: nat
  allocSize :: uint32
  writeSize :: uint32
  closed :: bool

record send_buffer_manager =
  chunks :: "nat \<Rightarrow> send_buffer_chunk"     \<comment> \<open>chunk objects by identity\<close>
  fresh_chunk :: nat                        \<comment> \<open>identities below have been allocated\<close>
  LSendBufferChunk :: "nat \<Rightarrow> nat option"  \<comment> \<open>by thread\<close>
  sendBufferChunks :: "nat list"            \<comment> \<open>the pool, back last\<close>
  live :: "(nat \<times> send_buffer) list"        \<comment> \<open>buffers somebody still points to, by handle\<close>
  threads :: "nat list"                     \<comment> \<open>the threads there are\<close>

definition SendBufferManager :: "nat list \<Rightarrow> send_buffer_manager" where
  "SendBufferManager ts =
     \<lparr>chunks = (\<lambda>_. SendBufferChunk), fresh_chunk = 0, LSendBufferChunk = (\<lambda>_. None),
      sendBufferChunks = [], live = [], threads = ts\<rparr>"

definition referenced :: "send_buffer_manager \<Rightarrow> nat \<Rightarrow> bool" where
  "referenced m k \<longleftrightarrow>
     (\<exists>t \<in> set (threads m). LSendBufferChunk m t = Some k) \<or> (\<exists>(i, b) \<in> set (live m). owner b = k)"

text \<open>The deleter \<open>PushGlobal\<close> runs when a chunk has lost its last pointer.\<close>

definition drop_chunk :: "nat \<Rightarrow> send_buffer_manager \<Rightarrow> send_buffer_manager" where
  "drop_chunk k m =
     (if referenced m k then m else m\<lparr>sendBufferChunks := sendBufferChunks m @ [k]\<rparr>)"

definition mgr_Pop :: "send_buffer_manager \<Rightarrow> nat \<times> send_buffer_manager" where
  "mgr_Pop m =
     (if sendBufferChunks m \<noteq> []
      then (last (sendBufferChunks m), m\<lparr>sendBufferChunks := butlast (sendBufferChunks m)\<rparr>)
      else (fresh_chunk m,
        m\<lparr>fresh_chunk := Suc (fresh_chunk m), chunks := (chunks m)(fresh_chunk m := SendBufferChunk)\<rparr>))"

text \<open>\<open>LSendBufferChunk = Pop(); LSendBufferChunk->Reset();\<close> and the old chunk loses a pointer.\<close>

definition swap_chunk :: "nat \<Rightarrow> send_buffer_manager \<Rightarrow> send_buffer_manager" where
  "swap_chunk t m =
     (let (k, m1) = mgr_Pop m;
          old = LSendBufferChunk m1 t;
          m2 = m1\<lparr>LSendBufferChunk := (LSendBufferChunk m1)(t := Some k)\<rparr>;
          m3 = (case old of None \<Rightarrow> m2 | Some o' \<Rightarrow> drop_chunk o' m2)
      in m3\<lparr>chunks := (chunks m3)(k := chunk_Reset (chunks m3 k))\<rparr>)"

definition thread_chunk :: "nat \<Rightarrow> send_buffer_manager \<Rightarrow> nat" where
  "thread_chunk t m = the (LSendBufferChunk m t)"

text \<open>\<open>SendBufferManager::Open\<close> on thread \<open>t\<close>; the new buffer gets the handle \<open>i\<close>.\<close>

definition mgr_Open ::
  "nat \<Rightarrow> nat \<Rightarrow> uint32 \<Rightarrow> send_buffer_manager \<Rightarrow> (send_buffer option \<times> send_buffer_manager) res" where
  "mgr_Open t i sz m =
     (let m1 = (if LSendBufferChunk m t = None then swap_chunk t m else m) in
      assert_crash (chunk_open (chunks m1 (thread_chunk t m1)) = False)
        (let m2 = (if chunk_FreeSize (chunks m1 (thread_chunk t m1)) < sz then swap_chunk t m1 else m1);
             k = thread_chunk t m2
         in and_then (chunk_Open sz (chunks m2 k))
              (\<lambda>(off, c). case off of
                 None \<Rightarrow> Inr (None, m2)
               | Some p \<Rightarrow>
                   let b = \<lparr>owner = k, offset = p, allocSize = sz, writeSize = 0, closed = False\<rparr>
                   in Inr (Some b, m2\<lparr>chunks := (chunks m2)(k := c), live := (i, b) # live m2\<rparr>))))"

text \<open>\<open>SendBuffer::Close\<close> of the live buffer with handle \<open>i\<close>.\<close>

definition buf_Close :: "nat \<Rightarrow> uint32 \<Rightarrow> send_buffer_manager \<Rightarrow> send_buffer_manager res" where
  "buf_Close i writeSz m =
     (case map_of (live m) i of
        None \<Rightarrow> Inl NullDeref
      | Some b \<Rightarrow>
          assert_crash (allocSize b \<ge> writeSz)
            (and_then (chunk_Close writeSz (chunks m (owner b)))
              (\<lambda>c. Inr (m\<lparr>chunks := (chunks m)(owner b := c),
                 live := AList.update i (b\<lparr>writeSize := writeSz, closed := True\<rparr>) (live m)\<rparr>))))"

text \<open>The last pointer to the buffer with handle \<open>i\<close> goes away.\<close>

definition buf_release :: "nat \<Rightarrow> send_buffer_manager \<Rightarrow> send_buffer_manager" where
  "buf_release i m =
     (case map_of (live m) i of
        None \<Rightarrow> m
      | Some b \<Rightarrow> drop_chunk (owner b) (m\<lparr>live := AList.delete i (live m)\<rparr>))"

section \<open>Invariant\<close>

definition region_end :: "send_buffer \<Rightarrow> nat" where
  "region_end b = offset b + unat (if closed b then writeSize b else allocSize b)"

definition disjoint_regions :: "send_buffer \<Rightarrow> send_buffer \<Rightarrow> bool" where
  "disjoint_regions b c \<longleftrightarrow> region_end b \<le> offset c \<or> region_end c \<le> offset b"

abbreviation "buf_at m i \<equiv> map_of (live m) i"

text \<open>Who points to which chunk: pooled chunks are reachable from nowhere else.\<close>

definition sm_refs :: "send_buffer_manager \<Rightarrow> bool" where
  "sm_refs m \<longleftrightarrow>
     distinct (map fst (live m)) \<and> distinct (sendBufferChunks m) \<and>
     (\<forall>k \<in> set (sendBufferChunks m). k < fresh_chunk m \<and> \<not> referenced m k) \<and>
     (\<forall>t k. LSendBufferChunk m t = Some k \<longrightarrow> t \<in> set (threads m) \<and> k < fresh_chunk m) \<and>
     (\<forall>t t' k. LSendBufferChunk m t = Some k \<longrightarrow> LSendBufferChunk m t' = Some k \<longrightarrow> t = t') \<and>
     (\<forall>i b. buf_at m i = Some b \<longrightarrow> owner b < fresh_chunk m)"

text \<open>Where the live buffers lie in their chunks.\<close>

definition sm_regions :: "send_buffer_manager \<Rightarrow> bool" where
  "sm_regions m \<longleftrightarrow>
     (\<forall>k. unat (usedSize (chunks m k)) \<le> 6000) \<and>
     (\<forall>i b. buf_at m i = Some b \<longrightarrow> closed b \<longrightarrow> region_end b \<le> unat (usedSize (chunks m (owner b)))) \<and>
     (\<forall>i b. buf_at m i = Some b \<longrightarrow> \<not> closed b \<longrightarrow>
        offset b = unat (usedSize (chunks m (owner b))) \<and> region_end b \<le> 6000 \<and>
        chunk_open (chunks m (owner b))) \<and>
     (\<forall>i j b c. buf_at m i = Some b \<longrightarrow> buf_at m j = Some c \<longrightarrow> i \<noteq> j \<longrightarrow> owner b = owner c \<longrightarrow>
        disjoint_regions b c \<and> (closed b \<or> closed c))"

definition sm_inv :: "send_buffer_manager \<Rightarrow> bool" where
  "sm_inv m \<longleftrightarrow> sm_refs m \<and> sm_regions m"

lemma sm_regionsD:
  assumes "sm_regions m"
  shows "unat (usedSize (chunks m k)) \<le> 6000"
    and "buf_at m i = Some b \<Longrightarrow> closed b \<Longrightarrow> region_end b \<le> unat (usedSize (chunks m (owner b)))"
    and "buf_at m i = Some b \<Longrightarrow> \<not> closed b \<Longrightarrow> offset b = unat (usedSize (chunks m (owner b)))"
    and "buf_at m i = Some b \<Longrightarrow> \<not> closed b \<Longrightarrow> region_end b \<le> 6000"
    and "buf_at m i = Some b \<Longrightarrow> \<not> closed b \<Longrightarrow> chunk_open (chunks m (owner b))"
    and "buf_at m i = Some b \<Longrightarrow> buf_at m j = Some c \<Longrightarrow> i \<noteq> j \<Longrightarrow> owner b = owner c \<Longrightarrow> disjoint_regions b c"
    and "buf_at m i = Some b \<Longrightarrow> buf_at m j = Some c \<Longrightarrow> i \<noteq> j \<Longrightarrow> owner b = owner c \<Longrightarrow> closed b \<or> closed c"
  using assms unfolding sm_regions_def by blast+

lemma sm_regionsI:
  assumes "\<And>k. unat (usedSize (chunks m k)) \<le> 6000"
    and "\<And>i b. buf_at m i = Some b \<Longrightarrow> closed b \<Longrightarrow> region_end b \<le> unat (usedSize (chunks m (owner b)))"
    and "\<And>i b. buf_at m i = Some b \<Longrightarrow> \<not> closed b \<Longrightarrow>
      offset b = unat (usedSize (chunks m (owner b))) \<and> region_end b \<le> 6000 \<and> chunk_open (chunks m (owner b))"
    and "\<And>i j b c. buf_at m i = Some b \<Longrightarrow> buf_at m j = Some c \<Longrightarrow> i \<noteq> j \<Longrightarrow> owner b = owner c \<Longrightarrow>
      disjoint_regions b c \<and> (closed b \<or> closed c)"
  shows "sm_regions m"
  using assms unfolding sm_regions_def by blast

lemma disjoint_regions_sym: "disjoint_regions b c \<longleftrightarrow> disjoint_regions c b"
  by (auto simp: disjoint_regions_def)

lemma sm_inv_init: "sm_inv (SendBufferManager ts)"
  by (simp add: sm_inv_def sm_refs_def sm_regions_def SendBufferManager_def SendBufferChunk_def)

lemma referenced_iff:
  assumes "distinct (map fst (live m))"
  shows "referenced m k \<longleftrightarrow>
    (\<exists>t \<in> set (threads m). LSendBufferChunk m t = Some k) \<or> (\<exists>i b. buf_at m i = Some b \<and> owner b = k)"
  using assms by (auto simp: referenced_def)

lemma sm_regions_cong:
  "live m' = live m \<Longrightarrow> chunks m' = chunks m \<Longrightarrow> sm_regions m' \<longleftrightarrow> sm_regions m"
  by (simp add: sm_regions_def)

lemma referenced_cong:
  "live m' = live m \<Longrightarrow> LSendBufferChunk m' = LSendBufferChunk m \<Longrightarrow> threads m' = threads m \<Longrightarrow>
   referenced m' k \<longleftrightarrow> referenced m k"
  by (simp add: referenced_def)

lemma drop_chunk_inv:
  assumes "sm_inv m" and "k < fresh_chunk m" and "k \<notin> set (sendBufferChunks m)"
  shows "sm_inv (drop_chunk k m)"
proof (cases "referenced m k")
  case True
  then show ?thesis using assms by (simp add: drop_chunk_def)
next
  case False
  let ?m = "m\<lparr>sendBufferChunks := sendBufferChunks m @ [k]\<rparr>"
  have ref: "referenced ?m j \<longleftrightarrow> referenced m j" for j by (simp add: referenced_def)
  have "sm_refs ?m" using assms False by (auto simp: sm_inv_def sm_refs_def ref)
  moreover have "sm_regions ?m \<longleftrightarrow> sm_regions m" by (rule sm_regions_cong) simp_all
  ultimately show ?thesis using assms False by (simp add: drop_chunk_def sm_inv_def)
qed

lemma drop_chunk_simps [simp]:
  "live (drop_chunk k m) = live m" "chunks (drop_chunk k m) = chunks m"
  "LSendBufferChunk (drop_chunk k m) = LSendBufferChunk m" "threads (drop_chunk k m) = threads m"
  "fresh_chunk (drop_chunk k m) = fresh_chunk m"
  by (simp_all add: drop_chunk_def)

lemma not_referenced_no_live:
  "sm_refs m \<Longrightarrow> \<not> referenced m k \<Longrightarrow> buf_at m i = Some b \<Longrightarrow> owner b \<noteq> k"
  by (auto simp: sm_refs_def referenced_iff)

lemma mgr_Pop_inv:
  assumes inv: "sm_inv m" and pop: "mgr_Pop m = (k, m1)"
  shows "sm_inv m1" and "k < fresh_chunk m1" and "\<not> referenced m1 k" and "k \<notin> set (sendBufferChunks m1)"
    and "live m1 = live m" and "LSendBufferChunk m1 = LSendBufferChunk m" and "threads m1 = threads m"
proof -
  have refs: "sm_refs m" and regions: "sm_regions m" using inv by (simp_all add: sm_inv_def)
  have "sm_inv m1 \<and> k < fresh_chunk m1 \<and> \<not> referenced m1 k \<and> k \<notin> set (sendBufferChunks m1) \<and>
    live m1 = live m \<and> LSendBufferChunk m1 = LSendBufferChunk m \<and> threads m1 = threads m"
  proof (cases "sendBufferChunks m = []")
    case False
    then obtain ks where ks: "sendBufferChunks m = ks @ [k]" and m1: "m1 = m\<lparr>sendBufferChunks := ks\<rparr>"
      using pop by (auto simp: mgr_Pop_def) (metis append_butlast_last_id)
    have ref: "referenced m1 j \<longleftrightarrow> referenced m j" for j by (simp add: referenced_def m1)
    have "sm_refs m1" using refs ks by (auto simp: sm_refs_def ref) (auto simp: m1)
    moreover have "sm_regions m1 \<longleftrightarrow> sm_regions m" by (rule sm_regions_cong) (simp_all add: m1)
    ultimately show ?thesis
      using regions refs ks by (auto simp: sm_inv_def sm_refs_def ref) (auto simp: m1)
  next
    case True
    let ?f = "fresh_chunk m"
    have k: "k = ?f" and m1: "m1 = m\<lparr>fresh_chunk := Suc ?f, chunks := (chunks m)(?f := SendBufferChunk)\<rparr>"
      using pop True by (auto simp: mgr_Pop_def)
    have ref: "referenced m1 j \<longleftrightarrow> referenced m j" for j by (simp add: referenced_def m1)
    have nref: "\<not> referenced m ?f" using refs by (fastforce simp: sm_refs_def referenced_iff)
    have own: "owner b < ?f" if "buf_at m i = Some b" for i b
      using refs that by (simp add: sm_refs_def)
    have "sm_refs m1" using refs True by (auto simp: sm_refs_def ref) (auto simp: m1 less_Suc_eq)
    moreover have "sm_regions m1"
      using regions own by (auto simp: sm_regions_def m1 SendBufferChunk_def) (metis less_irrefl)+
    ultimately show ?thesis using True nref by (simp add: sm_inv_def ref k) (simp add: m1)
  qed
  then show "sm_inv m1" "k < fresh_chunk m1" "\<not> referenced m1 k" "k \<notin> set (sendBufferChunks m1)"
    "live m1 = live m" "LSendBufferChunk m1 = LSendBufferChunk m" "threads m1 = threads m"
    by blast+
qed

text \<open>Giving an unreferenced chunk to a thread, and resetting a chunk no live buffer lies in.\<close>

lemma set_thread_chunk_inv:
  assumes inv: "sm_inv m" and t: "t \<in> set (threads m)"
    and k: "k < fresh_chunk m" "\<not> referenced m k" "k \<notin> set (sendBufferChunks m)"
  shows "sm_inv (m\<lparr>LSendBufferChunk := (LSendBufferChunk m)(t := Some k)\<rparr>)" (is "sm_inv ?m")
proof -
  have refs: "sm_refs m" using inv by (simp add: sm_inv_def)
  have ref: "referenced ?m j \<Longrightarrow> referenced m j \<or> j = k" for j
    by (auto simp: referenced_def split: if_splits)
  have nk: "LSendBufferChunk m t' \<noteq> Some k" for t'
    using refs k(2) by (auto simp: referenced_def sm_refs_def)
  have "sm_refs ?m"
    using refs t k nk ref by (fastforce simp: sm_refs_def split: if_splits)
  moreover have "sm_regions ?m \<longleftrightarrow> sm_regions m" by (rule sm_regions_cong) simp_all
  ultimately show ?thesis using inv by (simp add: sm_inv_def)
qed

lemma update_chunk_regions:
  assumes "sm_regions m" and "\<And>i b. buf_at m i = Some b \<Longrightarrow> owner b \<noteq> k" and "unat (usedSize c) \<le> 6000"
  shows "sm_regions (m\<lparr>chunks := (chunks m)(k := c)\<rparr>)"
  using assms by (auto simp: sm_regions_def)

lemma update_chunk_refs: "sm_refs (m\<lparr>chunks := f\<rparr>) \<longleftrightarrow> sm_refs m"
  by (simp add: sm_refs_def referenced_def)

lemma swap_chunk_inv:
  assumes inv: "sm_inv m" and t: "t \<in> set (threads m)"
  shows "sm_inv (swap_chunk t m)" and "live (swap_chunk t m) = live m"
    and "threads (swap_chunk t m) = threads m"
    and "\<exists>k. LSendBufferChunk (swap_chunk t m) t = Some k"
    and "chunk_open (chunks (swap_chunk t m) (thread_chunk t (swap_chunk t m))) = False"
    and "usedSize (chunks (swap_chunk t m) (thread_chunk t (swap_chunk t m))) = 0"
    and "buf_at m i = Some b \<Longrightarrow> owner b \<noteq> thread_chunk t (swap_chunk t m)"
proof -
  obtain k m1 where pop: "mgr_Pop m = (k, m1)" by fastforce
  note p = mgr_Pop_inv [OF inv pop]
  let ?m2 = "m1\<lparr>LSendBufferChunk := (LSendBufferChunk m1)(t := Some k)\<rparr>"
  let ?m3 = "case LSendBufferChunk m1 t of None \<Rightarrow> ?m2 | Some o' \<Rightarrow> drop_chunk o' ?m2"
  have t1: "t \<in> set (threads m1)" using t p(7) by simp
  have inv2: "sm_inv ?m2" by (rule set_thread_chunk_inv [OF p(1) t1 p(2-4)])
  have inv3: "sm_inv ?m3"
  proof (cases "LSendBufferChunk m1 t")
    case None
    then show ?thesis using inv2 by simp
  next
    case (Some o')
    then have "o' < fresh_chunk m1" and "referenced m1 o'"
      using p(1) t1 by (auto simp: sm_inv_def sm_refs_def referenced_def)
    then have "o' \<notin> set (sendBufferChunks m1)"
      using p(1) by (auto simp: sm_inv_def sm_refs_def)
    with \<open>o' < fresh_chunk m1\<close> have "sm_inv (drop_chunk o' ?m2)"
      by (intro drop_chunk_inv inv2) simp_all
    then show ?thesis using Some by simp
  qed
  have l3: "live ?m3 = live m" "threads ?m3 = threads m" "LSendBufferChunk ?m3 t = Some k"
    using p by (simp_all split: option.split)
  have sw: "swap_chunk t m = ?m3\<lparr>chunks := (chunks ?m3)(k := chunk_Reset (chunks ?m3 k))\<rparr>"
    by (simp add: swap_chunk_def pop Let_def)
  have nolive: "owner b \<noteq> k" if "buf_at m i = Some b" for i b
    using not_referenced_no_live [of m1 k i b] p that by (simp add: sm_inv_def)
  have "sm_regions (swap_chunk t m)"
    unfolding sw
    by (rule update_chunk_regions) (use inv3 nolive l3 in \<open>auto simp: sm_inv_def chunk_Reset_def\<close>)
  then show "sm_inv (swap_chunk t m)"
    using inv3 by (simp add: sm_inv_def sw update_chunk_refs)
  show "live (swap_chunk t m) = live m" "threads (swap_chunk t m) = threads m"
    "\<exists>k. LSendBufferChunk (swap_chunk t m) t = Some k"
    using l3 by (simp_all add: sw)
  have tc: "thread_chunk t (swap_chunk t m) = k" using l3 by (simp add: sw thread_chunk_def)
  show "chunk_open (chunks (swap_chunk t m) (thread_chunk t (swap_chunk t m))) = False"
    "usedSize (chunks (swap_chunk t m) (thread_chunk t (swap_chunk t m))) = 0"
    by (simp_all add: tc) (simp_all add: sw chunk_Reset_def)
  show "buf_at m i = Some b \<Longrightarrow> owner b \<noteq> thread_chunk t (swap_chunk t m)"
    using nolive tc by simp
qed

section \<open>Opening, closing and releasing a buffer\<close>

lemma unat_FreeSize: "unat (usedSize c) \<le> 6000 \<Longrightarrow> unat (chunk_FreeSize c) = 6000 - unat (usedSize c)"
  by (simp add: chunk_FreeSize_def SEND_BUFFER_CHUNK_SIZE_def unat_sub word_le_nat_alt)

lemma used_le: "sm_inv m \<Longrightarrow> unat (usedSize (chunks m k)) \<le> 6000"
  by (simp add: sm_inv_def sm_regions_def)

text \<open>
  \<open>ensure_chunk\<close> and \<open>ensure_room\<close> are the two conditional chunk changes at the start of
  \<open>SendBufferManager::Open\<close>.
\<close>

definition ensure_chunk :: "nat \<Rightarrow> send_buffer_manager \<Rightarrow> send_buffer_manager" where
  "ensure_chunk t m = (if LSendBufferChunk m t = None then swap_chunk t m else m)"

definition ensure_room :: "nat \<Rightarrow> uint32 \<Rightarrow> send_buffer_manager \<Rightarrow> send_buffer_manager" where
  "ensure_room t sz m =
     (if chunk_FreeSize (chunks m (thread_chunk t m)) < sz then swap_chunk t m else m)"

lemma ensure_chunk_props:
  assumes inv: "sm_inv m" and t: "t \<in> set (threads m)"
  shows "sm_inv (ensure_chunk t m)" and "live (ensure_chunk t m) = live m"
    and "threads (ensure_chunk t m) = threads m"
    and "\<exists>k. LSendBufferChunk (ensure_chunk t m) t = Some k"
  using swap_chunk_inv [OF inv t] inv by (auto simp: ensure_chunk_def)

lemma ensure_room_props:
  assumes inv: "sm_inv m" and t: "t \<in> set (threads m)" and some: "LSendBufferChunk m t = Some k0"
    and closed: "chunk_open (chunks m (thread_chunk t m)) = False" and sz: "sz \<le> SEND_BUFFER_CHUNK_SIZE"
  shows "sm_inv (ensure_room t sz m)" and "live (ensure_room t sz m) = live m"
    and "\<exists>k. LSendBufferChunk (ensure_room t sz m) t = Some k"
    and "threads (ensure_room t sz m) = threads m"
    and "chunk_open (chunks (ensure_room t sz m) (thread_chunk t (ensure_room t sz m))) = False"
    and "sz \<le> chunk_FreeSize (chunks (ensure_room t sz m) (thread_chunk t (ensure_room t sz m)))"
  using swap_chunk_inv [OF inv t] inv some closed sz
  by (auto simp: ensure_room_def chunk_FreeSize_def)

lemma mgr_Open_unfold:
  "mgr_Open t i sz m =
     (let m1 = ensure_chunk t m in
      assert_crash (chunk_open (chunks m1 (thread_chunk t m1)) = False)
        (let m2 = ensure_room t sz m1; k = thread_chunk t m2
         in and_then (chunk_Open sz (chunks m2 k))
              (\<lambda>(off, c). case off of
                 None \<Rightarrow> Inr (None, m2)
               | Some p \<Rightarrow>
                   let b = \<lparr>owner = k, offset = p, allocSize = sz, writeSize = 0, closed = False\<rparr>
                   in Inr (Some b, m2\<lparr>chunks := (chunks m2)(k := c), live := (i, b) # live m2\<rparr>))))"
  by (simp add: mgr_Open_def ensure_chunk_def ensure_room_def)

lemma carve_refs:
  assumes "sm_refs m" and "LSendBufferChunk m t = Some k" and "i \<notin> fst ` set (live m)" and "owner b = k"
  shows "sm_refs (m\<lparr>chunks := f, live := (i, b) # live m\<rparr>)"
proof -
  have t: "t \<in> set (threads m)" and k: "k < fresh_chunk m" using assms by (auto simp: sm_refs_def)
  have "referenced (m\<lparr>chunks := f, live := (i, b) # live m\<rparr>) j \<longleftrightarrow> referenced m j" for j
    using assms(2,4) t by (auto simp: referenced_def)
  then show ?thesis using assms k by (auto simp: sm_refs_def)
qed

lemma carve_regions:
  assumes reg: "sm_regions m" and closed: "chunk_open (chunks m k) = False"
    and room: "unat (usedSize (chunks m k)) + unat sz \<le> 6000"
    and b: "b = \<lparr>owner = k, offset = unat (usedSize (chunks m k)), allocSize = sz, writeSize = 0, closed = False\<rparr>"
  shows "sm_regions (m\<lparr>chunks := (chunks m)(k := (chunks m k)\<lparr>chunk_open := True\<rparr>), live := (i, b) # live m\<rparr>)"
proof -
  let ?m = "m\<lparr>chunks := (chunks m)(k := (chunks m k)\<lparr>chunk_open := True\<rparr>), live := (i, b) # live m\<rparr>"
  note D = sm_regionsD [OF reg]
  have closed_c: "closed c" if "buf_at m j = Some c" "owner c = k" for j c
    using D(5) [OF that(1)] that(2) closed by auto
  have dis: "disjoint_regions b c" if "buf_at m j = Some c" "owner c = k" for j c
    using D(2) [OF that(1) closed_c [OF that]] that(2) by (simp add: disjoint_regions_def b)
  have used: "usedSize (chunks ?m j) = usedSize (chunks m j)" for j by simp
  show ?thesis
  proof (rule sm_regionsI)
    fix j c assume c: "buf_at ?m j = Some c" "closed c"
    then have "buf_at m j = Some c" by (auto simp: b split: if_splits)
    from D(2) [OF this c(2)] show "region_end c \<le> unat (usedSize (chunks ?m (owner c)))" by auto
  next
    fix j c assume c: "buf_at ?m j = Some c" "\<not> closed c"
    show "offset c = unat (usedSize (chunks ?m (owner c))) \<and> region_end c \<le> 6000 \<and>
        chunk_open (chunks ?m (owner c))"
      using c D(3-5) [of j c] room by (auto simp: b region_end_def split: if_splits)
  next
    fix j j' c c' assume c: "buf_at ?m j = Some c" "buf_at ?m j' = Some c'" "j \<noteq> j'" "owner c = owner c'"
    show "disjoint_regions c c' \<and> (closed c \<or> closed c')"
    proof -
      have "j = i \<and> c = b \<or> buf_at m j = Some c" and "j' = i \<and> c' = b \<or> buf_at m j' = Some c'"
        using c(1,2) by (simp_all split: if_splits)
      moreover have "owner b = k" by (simp add: b)
      ultimately show ?thesis
        using c(3,4) D(6,7) [of j c j' c'] dis [of j c] dis [of j' c'] closed_c [of j c] closed_c [of j' c']
          disjoint_regions_sym by metis
    qed
  qed (use D(1) in simp)
qed

lemma mgr_Open_works:
  assumes inv: "sm_inv m" and t: "t \<in> set (threads m)" and i: "i \<notin> fst ` set (live m)"
    and sz: "sz \<le> SEND_BUFFER_CHUNK_SIZE"
    and closed: "\<And>k. LSendBufferChunk m t = Some k \<Longrightarrow> chunk_open (chunks m k) = False"
  shows "\<exists>b m'. mgr_Open t i sz m = Inr (Some b, m') \<and> sm_inv m' \<and> live m' = (i, b) # live m \<and>
    allocSize b = sz \<and> \<not> Send_Buffer.closed b \<and> region_end b \<le> 6000 \<and>
    LSendBufferChunk m' t = Some (owner b) \<and> threads m' = threads m"
proof -
  let ?m1 = "ensure_chunk t m"
  note p1 = ensure_chunk_props [OF inv t]
  obtain k0 where k0: "LSendBufferChunk ?m1 t = Some k0" using p1(4) by blast
  have c1: "chunk_open (chunks ?m1 (thread_chunk t ?m1)) = False"
    using swap_chunk_inv(5) [OF inv t] closed by (auto simp: ensure_chunk_def thread_chunk_def)
  have t1: "t \<in> set (threads ?m1)" using t p1 by simp
  let ?m2 = "ensure_room t sz ?m1"
  note p2 = ensure_room_props [OF p1(1) t1 k0 c1 sz]
  define k where "k = thread_chunk t ?m2"
  let ?b = "\<lparr>owner = k, offset = unat (usedSize (chunks ?m2 k)), allocSize = sz, writeSize = 0, closed = False\<rparr>"
  let ?m3 = "?m2\<lparr>chunks := (chunks ?m2)(k := (chunks ?m2 k)\<lparr>chunk_open := True\<rparr>), live := (i, ?b) # live ?m2\<rparr>"
  have open_ok: "mgr_Open t i sz m = Inr (Some ?b, ?m3)"
    using c1 p2(5,6) sz
    by (simp add: mgr_Open_unfold Let_def chunk_Open_def k_def [symmetric] not_less [symmetric])
  have lk: "LSendBufferChunk ?m2 t = Some k" using p2(3) by (auto simp: k_def thread_chunk_def)
  have room: "unat (usedSize (chunks ?m2 k)) + unat sz \<le> 6000"
    using p2(6) used_le [OF p2(1), of k] unat_FreeSize [of "chunks ?m2 k"]
    by (simp add: k_def [symmetric] word_le_nat_alt)
  have "sm_refs ?m3"
    using p2(1) lk i p1(2) p2(2) by (intro carve_refs [where t = t]) (auto simp: sm_inv_def)
  moreover have "sm_regions ?m3"
    using p2(1,5) room by (intro carve_regions) (auto simp: sm_inv_def k_def)
  ultimately have "sm_inv ?m3" by (simp add: sm_inv_def)
  moreover have "region_end ?b \<le> 6000" using room by (simp add: region_end_def)
  moreover have "LSendBufferChunk ?m3 t = Some (owner ?b)" "threads ?m3 = threads m"
    using lk p2(4) p1(3) by simp_all
  moreover have "live ?m3 = (i, ?b) # live m" using p1(2) p2(2) by simp
  ultimately show ?thesis using open_ok by (intro exI [of _ ?b] exI [of _ ?m3]) simp
qed

lemma mgr_Open_busy:
  assumes "LSendBufferChunk m t = Some k" and "chunk_open (chunks m k)"
  shows "mgr_Open t i sz m = Inl AssertCrash"
  using assms by (simp add: mgr_Open_def Let_def thread_chunk_def)

lemma mgr_Open_too_big:
  assumes "SEND_BUFFER_CHUNK_SIZE < sz"
  shows "mgr_Open t i sz m = Inl AssertCrash"
  using assms by (simp add: mgr_Open_unfold Let_def chunk_Open_def assert_crash_def not_le [symmetric])

lemma update_live_iff:
  "buf_at (m\<lparr>live := AList.update i b (live m)\<rparr>) j = (if j = i then Some b else buf_at m j)"
  by (simp add: update_conv')

lemma delete_live_iff:
  "buf_at (m\<lparr>live := AList.delete i (live m)\<rparr>) j = (if j = i then None else buf_at m j)"
  by (simp add: delete_conv')

lemma referenced_update:
  assumes d: "distinct (map fst (live m))" and b: "buf_at m i = Some b" and o: "owner b' = owner b"
  shows "referenced (m\<lparr>chunks := f, live := AList.update i b' (live m)\<rparr>) k \<longleftrightarrow> referenced m k"
proof -
  let ?m = "m\<lparr>chunks := f, live := AList.update i b' (live m)\<rparr>"
  have d': "distinct (map fst (live ?m))" using d by (simp add: distinct_update)
  have "(\<exists>j c. buf_at ?m j = Some c \<and> owner c = k) \<longleftrightarrow> (\<exists>j c. buf_at m j = Some c \<and> owner c = k)"
    using b o by (auto simp: update_conv' split: if_splits) (metis option.inject)
  then show ?thesis
    unfolding referenced_iff [OF d] referenced_iff [OF d'] by simp
qed

lemma buf_Close_works:
  assumes inv: "sm_inv m" and b: "buf_at m i = Some b" and op: "\<not> closed b" and w: "w \<le> allocSize b"
  shows "\<exists>m'. buf_Close i w m = Inr m' \<and> sm_inv m' \<and>
    buf_at m' = (buf_at m)(i \<mapsto> b\<lparr>writeSize := w, closed := True\<rparr>) \<and>
    chunk_open (chunks m' (owner b)) = False \<and>
    LSendBufferChunk m' = LSendBufferChunk m \<and> threads m' = threads m"
proof -
  let ?k = "owner b" and ?b' = "b\<lparr>writeSize := w, closed := True\<rparr>"
  let ?c = "(chunks m (owner b))\<lparr>chunk_open := False, usedSize := usedSize (chunks m (owner b)) + w\<rparr>"
  let ?m' = "m\<lparr>chunks := (chunks m)(?k := ?c), live := AList.update i ?b' (live m)\<rparr>"
  have refs: "sm_refs m" and reg: "sm_regions m" using inv by (simp_all add: sm_inv_def)
  have b_open: "offset b = unat (usedSize (chunks m ?k))" "region_end b \<le> 6000" "chunk_open (chunks m ?k)"
    using reg b op by (auto simp: sm_regions_def)
  have step: "buf_Close i w m = Inr ?m'"
    using b w b_open(3) by (simp add: buf_Close_def chunk_Close_def)
  have at: "buf_at ?m' = (buf_at m)(i \<mapsto> ?b')" by (simp add: update_conv' fun_eq_iff)
  have used: "unat (usedSize ?c) = unat (usedSize (chunks m ?k)) + unat w"
    using b_open(1,2) w op
    by (simp add: region_end_def word_le_nat_alt unat_word_ariths)
  have end': "region_end ?b' = unat (usedSize ?c)" "region_end ?b' \<le> region_end b"
    using used b_open(1) op w by (simp_all add: region_end_def word_le_nat_alt)
  have "sm_refs ?m'"
    using refs b unfolding sm_refs_def
    by (auto simp: referenced_update update_conv' distinct_update split: if_splits)
  moreover have "sm_regions ?m'"
  proof -
    note D = sm_regionsD [OF reg]
    have clos: "closed c" if "buf_at m j = Some c" "j \<noteq> i" "owner c = ?k" for j c
      using D(7) [OF b that(1)] that(2,3) op by auto
    have dis: "disjoint_regions ?b' c" if c: "buf_at m j = Some c" "j \<noteq> i" "owner c = ?k" for j c
      using D(2) [OF c(1) clos [OF c]] c(3) b_open(1) by (simp add: disjoint_regions_def)
    show ?thesis
    proof (rule sm_regionsI)
      fix k show "unat (usedSize (chunks ?m' k)) \<le> 6000"
        using end' b_open(2) D(1) by auto
    next
      fix j c assume c: "buf_at ?m' j = Some c" "closed c"
      have "unat (usedSize (chunks m ?k)) \<le> unat (usedSize ?c)" using used by simp
      then show "region_end c \<le> unat (usedSize (chunks ?m' (owner c)))"
        using c D(2) [of j c] end'(1) unfolding at by (auto split: if_splits)
    next
      fix j c assume c: "buf_at ?m' j = Some c" "\<not> closed c"
      then have c': "buf_at m j = Some c" "owner c \<noteq> ?k"
        using clos [of j c] unfolding at by (auto split: if_splits)
      show "offset c = unat (usedSize (chunks ?m' (owner c))) \<and> region_end c \<le> 6000 \<and>
          chunk_open (chunks ?m' (owner c))"
        using D(3-5) [OF c'(1) c(2)] c'(2) by simp
    next
      fix j j' c c' assume c: "buf_at ?m' j = Some c" "buf_at ?m' j' = Some c'" "j \<noteq> j'" "owner c = owner c'"
      show "disjoint_regions c c' \<and> (closed c \<or> closed c')"
        using c D(6,7) [of j c j' c'] dis [of j c] dis [of j' c']
        unfolding at by (auto simp: disjoint_regions_sym split: if_splits)
    qed
  qed
  ultimately have "sm_inv ?m'" by (simp add: sm_inv_def)
  moreover have "chunk_open (chunks ?m' ?k) = False" "LSendBufferChunk ?m' = LSendBufferChunk m"
    "threads ?m' = threads m" by simp_all
  ultimately show ?thesis using step at by blast
qed

lemma buf_release_inv:
  assumes inv: "sm_inv m"
  shows "sm_inv (buf_release i m)"
proof (cases "buf_at m i")
  case None
  then show ?thesis using inv by (simp add: buf_release_def)
next
  case (Some b)
  let ?m = "m\<lparr>live := AList.delete i (live m)\<rparr>"
  have refs: "sm_refs m" and reg: "sm_regions m" using inv by (simp_all add: sm_inv_def)
  then have d: "distinct (map fst (live m))" by (simp add: sm_refs_def)
  then have d': "distinct (map fst (live ?m))" by (simp add: distinct_delete)
  have at: "buf_at ?m j = Some c \<longleftrightarrow> j \<noteq> i \<and> buf_at m j = Some c" for j c
    by (simp add: delete_conv')
  have ref: "referenced ?m k \<Longrightarrow> referenced m k" for k
    unfolding referenced_iff [OF d] referenced_iff [OF d'] at by auto
  have "sm_refs ?m" using refs ref at d' unfolding sm_refs_def by auto
  moreover have "sm_regions ?m"
  proof (rule sm_regionsI)
    fix j j' c c' assume "buf_at ?m j = Some c" "buf_at ?m j' = Some c'" "j \<noteq> j'" "owner c = owner c'"
    then show "disjoint_regions c c' \<and> (closed c \<or> closed c')"
      unfolding at using sm_regionsD(6,7) [OF reg, of j c j' c'] by blast
  qed (use sm_regionsD(1-5) [OF reg] at in auto)
  ultimately have "sm_inv ?m" by (simp add: sm_inv_def)
  moreover have "owner b < fresh_chunk ?m" using refs Some by (simp add: sm_refs_def)
  moreover have "referenced m (owner b)" using Some by (auto simp: referenced_iff [OF d])
  then have "owner b \<notin> set (sendBufferChunks ?m)" using refs by (auto simp: sm_refs_def)
  ultimately have "sm_inv (drop_chunk (owner b) ?m)" by (rule drop_chunk_inv)
  then show ?thesis using Some by (simp add: buf_release_def)
qed

section \<open>All runs of the manager\<close>

text \<open>
  The threads open buffers, close the ones they opened and drop their pointers, in any order. As in
  the program, a buffer is closed once (\<open>MakeSendBufferImpl\<close> is the only caller of \<open>Close\<close>).
\<close>

inductive sm_step :: "send_buffer_manager \<Rightarrow> send_buffer_manager \<Rightarrow> bool" where
  step_open: "t \<in> set (threads m) \<Longrightarrow> i \<notin> fst ` set (live m) \<Longrightarrow> mgr_Open t i sz m = Inr (ob, m') \<Longrightarrow>
    sm_step m m'"
| step_close: "map_of (live m) i = Some b \<Longrightarrow> \<not> closed b \<Longrightarrow> buf_Close i w m = Inr m' \<Longrightarrow> sm_step m m'"
| step_release: "sm_step m (buf_release i m)"

inductive sm_reachable :: "nat list \<Rightarrow> send_buffer_manager \<Rightarrow> bool" for ts where
  reach_init: "sm_reachable ts (SendBufferManager ts)"
| reach_step: "sm_reachable ts m \<Longrightarrow> sm_step m m' \<Longrightarrow> sm_reachable ts m'"

lemma mgr_Open_inv:
  assumes inv: "sm_inv m" and t: "t \<in> set (threads m)" and i: "i \<notin> fst ` set (live m)"
    and step: "mgr_Open t i sz m = Inr (ob, m')"
  shows "sm_inv m'" and "\<exists>b. ob = Some b"
proof -
  have sz: "sz \<le> SEND_BUFFER_CHUNK_SIZE"
    using step mgr_Open_too_big [of sz t i m] by (cases "sz \<le> SEND_BUFFER_CHUNK_SIZE") auto
  have "chunk_open (chunks m k) = False" if "LSendBufferChunk m t = Some k" for k
    using step mgr_Open_busy [OF that, of i sz] by auto
  from mgr_Open_works [OF inv t i sz this] step show "sm_inv m'" "\<exists>b. ob = Some b" by auto
qed

lemma buf_Close_inv:
  assumes inv: "sm_inv m" and b: "buf_at m i = Some b" "\<not> closed b" and step: "buf_Close i w m = Inr m'"
  shows "sm_inv m'"
proof -
  have "w \<le> allocSize b" using step b by (auto simp: buf_Close_def assert_crash_Inr_iff)
  from buf_Close_works [OF inv b this] step show ?thesis by auto
qed

lemma sm_step_inv: "sm_step m m' \<Longrightarrow> sm_inv m \<Longrightarrow> sm_inv m'"
  by (induction rule: sm_step.induct) (auto intro: mgr_Open_inv buf_Close_inv buf_release_inv)

lemma sm_reachable_inv: "sm_reachable ts m \<Longrightarrow> sm_inv m"
  by (induction rule: sm_reachable.induct) (auto intro: sm_inv_init sm_step_inv)

section \<open>Properties\<close>

text \<open>
  C19: In every run of the threads' opens, closes and releases, two live send buffers of one chunk never
  overlap, lie inside the chunk's 6000 bytes, and at most one of them is still open.
\<close>
theorem send_buffers_disjoint:
  assumes "sm_reachable ts m" and "map_of (live m) i = Some b" and "map_of (live m) j = Some c"
    and "i \<noteq> j" and "owner b = owner c"
  shows "(region_end b \<le> offset c \<or> region_end c \<le> offset b) \<and>
    region_end b \<le> 6000 \<and> (closed b \<or> closed c)"
proof -
  have reg: "sm_regions m" using sm_reachable_inv [OF assms(1)] by (simp add: sm_inv_def)
  note D = sm_regionsD [OF reg]
  have "region_end b \<le> 6000"
    using D(1) [of "owner b"] D(2) [OF assms(2)] D(4) [OF assms(2)] by (cases "closed b") auto
  then show ?thesis
    using D(6) [OF assms(2-5)] D(7) [OF assms(2-5)] by (simp add: disjoint_regions_def)
qed

text \<open>
  In every run, a chunk in the manager's pool is reachable from no thread and from no live
  buffer, so reusing it from its start overwrites nobody's bytes; the pool has no duplicates.
\<close>
theorem pooled_chunks_unreachable:
  assumes "sm_reachable ts m" and "k \<in> set (sendBufferChunks m)"
  shows "\<not> referenced m k \<and> distinct (sendBufferChunks m) \<and> k < fresh_chunk m"
  using sm_reachable_inv [OF assms(1)] assms(2) by (auto simp: sm_inv_def sm_refs_def)

text \<open>
  A thread whose chunk is not open can always open a buffer of up to 6000 bytes and close it with
  any length up to that size; afterwards it can open the next one. Opening while the chunk is open,
  or asking for more than a chunk, crashes.
\<close>
theorem open_close_cycle:
  assumes "sm_reachable ts m" and "t \<in> set (threads m)" and "i \<notin> fst ` set (live m)"
    and "\<forall>k. LSendBufferChunk m t = Some k \<longrightarrow> chunk_open (chunks m k) = False" and "w \<le> sz"
  shows "if sz \<le> SEND_BUFFER_CHUNK_SIZE
    then \<exists>b m1 m2 k. mgr_Open t i sz m = Inr (Some b, m1) \<and> buf_Close i w m1 = Inr m2 \<and>
        map_of (live m2) i = Some (b\<lparr>writeSize := w, closed := True\<rparr>) \<and>
        LSendBufferChunk m2 t = Some k \<and> chunk_open (chunks m2 k) = False
    else mgr_Open t i sz m = Inl AssertCrash"
proof (cases "sz \<le> SEND_BUFFER_CHUNK_SIZE")
  case sz: True
  from mgr_Open_works [OF sm_reachable_inv [OF assms(1)] assms(2,3) sz] assms(4)
  obtain b m1 where b: "mgr_Open t i sz m = Inr (Some b, m1)" "sm_inv m1" "live m1 = (i, b) # live m"
    "allocSize b = sz" "\<not> Send_Buffer.closed b" "LSendBufferChunk m1 t = Some (owner b)"
    by auto
  have "map_of (live m1) i = Some b" using b(3) by simp
  from buf_Close_works [OF b(2) this b(5)] assms(5) b
  have "\<exists>b m1 m2 k. mgr_Open t i sz m = Inr (Some b, m1) \<and> buf_Close i w m1 = Inr m2 \<and>
      map_of (live m2) i = Some (b\<lparr>writeSize := w, closed := True\<rparr>) \<and>
      LSendBufferChunk m2 t = Some k \<and> chunk_open (chunks m2 k) = False"
    by fastforce
  then show ?thesis using sz by simp
next
  case False
  then show ?thesis using mgr_Open_too_big by simp
qed

subsection \<open>Scripted runs\<close>

datatype sm_op = Op_Open nat nat uint32 | Op_Close nat uint32 | Op_Release nat

fun sm_exec :: "sm_op \<Rightarrow> send_buffer_manager \<Rightarrow> send_buffer_manager res" where
  "sm_exec (Op_Open t i sz) m =
     (if t \<in> set (threads m) \<and> i \<notin> fst ` set (live m)
      then and_then (mgr_Open t i sz m) (\<lambda>(_, m'). Inr m') else Inr m)"
| "sm_exec (Op_Close i w) m =
     (case map_of (live m) i of
        Some b \<Rightarrow> if \<not> closed b then buf_Close i w m else Inr m
      | None \<Rightarrow> Inr m)"
| "sm_exec (Op_Release i) m = Inr (buf_release i m)"

lemma sm_exec_reachable: "sm_exec op m = Inr m' \<Longrightarrow> sm_reachable ts m \<Longrightarrow> sm_reachable ts m'"
  by (cases op)
    (auto simp: and_then_Inr_iff intro: reach_step step_open step_close step_release
      split: if_splits option.splits)

lemma sm_run_reachable:
  "fold_res sm_exec ops (SendBufferManager ts) = Inr m \<Longrightarrow> sm_reachable ts m"
  by (rule fold_res_inv [where I = "sm_reachable ts" and xs = ops and f = sm_exec])
    (auto intro: sm_exec_reachable reach_init)

definition sample_ops :: "sm_op list" where
  "sample_ops = [Op_Open 0 7 4096, Op_Close 7 100, Op_Open 0 8 2000]"

definition sample_reuse_ops :: "sm_op list" where
  "sample_reuse_ops = [Op_Open 0 7 4096, Op_Close 7 4096, Op_Open 0 8 2000, Op_Release 7]"

lemmas sm_eval = mgr_Open_def SendBufferManager_def swap_chunk_def mgr_Pop_def thread_chunk_def
  chunk_Reset_def SendBufferChunk_def chunk_FreeSize_def SEND_BUFFER_CHUNK_SIZE_def chunk_Open_def
  buf_Close_def chunk_Close_def drop_chunk_def referenced_def buf_release_def Let_def

lemma sample_ops_result:
  "\<exists>m. fold_res sm_exec sample_ops (SendBufferManager [0]) = Inr m \<and>
     map_of (live m) 7 = Some \<lparr>owner = 0, offset = 0, allocSize = 4096, writeSize = 100, closed = True\<rparr> \<and>
     map_of (live m) 8 = Some \<lparr>owner = 0, offset = 100, allocSize = 2000, writeSize = 0, closed = False\<rparr>"
  by (simp add: sample_ops_def sm_eval)

lemma sample_reuse_result:
  "\<exists>m. fold_res sm_exec sample_reuse_ops (SendBufferManager [0]) = Inr m \<and> sendBufferChunks m = [0]"
  by (simp add: sample_reuse_ops_def sm_eval)

theorem send_buffers_disjoint_witness:
  "\<exists>m b c. sm_reachable [0] m \<and> map_of (live m) 7 = Some b \<and> map_of (live m) 8 = Some c \<and>
     (region_end b \<le> offset c \<or> region_end c \<le> offset b)"
proof -
  obtain m where m: "fold_res sm_exec sample_ops (SendBufferManager [0]) = Inr m"
    "map_of (live m) 7 = Some \<lparr>owner = 0, offset = 0, allocSize = 4096, writeSize = 100, closed = True\<rparr>"
    "map_of (live m) 8 = Some \<lparr>owner = 0, offset = 100, allocSize = 2000, writeSize = 0, closed = False\<rparr>"
    using sample_ops_result by auto
  note r = sm_run_reachable [OF m(1)]
  from send_buffers_disjoint [OF r m(2,3)] r m show ?thesis by auto
qed

theorem pooled_chunks_unreachable_witness:
  "\<exists>m. sm_reachable [0] m \<and> 0 \<in> set (sendBufferChunks m) \<and> \<not> referenced m 0"
proof -
  obtain m where m: "fold_res sm_exec sample_reuse_ops (SendBufferManager [0]) = Inr m" "sendBufferChunks m = [0]"
    using sample_reuse_result by auto
  note r = sm_run_reachable [OF m(1)]
  from pooled_chunks_unreachable [OF r, of 0] r m(2) show ?thesis by auto
qed

theorem open_close_cycle_witness:
  "\<exists>b m1 m2. mgr_Open 0 7 4096 (SendBufferManager [0]) = Inr (Some b, m1) \<and> buf_Close 7 100 m1 = Inr m2"
proof -
  have "\<forall>k. LSendBufferChunk (SendBufferManager [0]) 0 = Some k \<longrightarrow> chunk_open (chunks (SendBufferManager [0]) k) = False"
    by (simp add: SendBufferManager_def)
  from open_close_cycle [OF reach_init _ _ this, of 7 100 4096] show ?thesis
    by (auto simp: SendBufferManager_def SEND_BUFFER_CHUNK_SIZE_def)
qed

end
