(* ===== verification/Float_Model.thy ===== *)
theory Float_Model
  imports Complex_Main "HOL-Library.Log_Nat"
begin

text \<open>
  The floating-point types of the code. A finite \<open>float\<close> or \<open>double\<close> is the rational number it
  denotes, and every arithmetic operation is the exact rational operation followed by the rounding
  of IEEE 754 (to nearest, ties to even) to 24 or 53 significant bits, with gradual underflow.
  Infinities and NaN are not represented: the components that use these types work with world
  coordinates, angles and seconds, far from the overflow threshold, and the rounding here is the
  IEEE one for every result below that threshold.
\<close>

type_synonym fp = rat

section \<open>Rounding\<close>

definition round_half_even :: "rat \<Rightarrow> int" where
  "round_half_even x =
     (let f = \<lfloor>x\<rfloor>; r = x - of_int f in
      if r < 1 / 2 then f else if 1 / 2 < r then f + 1 else if even f then f else f + 1)"

text \<open>The exponent of the leading bit of a positive rational, from the bit lengths of its parts.\<close>

definition ilog2 :: "rat \<Rightarrow> int" where
  "ilog2 x =
     (let (n, d) = quotient_of x;
          k = int (floorlog 2 (nat n)) - int (floorlog 2 (nat d))
      in if power_int 2 k \<le> x then k else k - 1)"

definition fp_exponent :: "nat \<Rightarrow> int \<Rightarrow> rat \<Rightarrow> int" where
  "fp_exponent p emin x = max (ilog2 \<bar>x\<bar> - (int p - 1)) emin"

definition fp_round :: "nat \<Rightarrow> int \<Rightarrow> rat \<Rightarrow> fp" where
  "fp_round p emin x =
     (if x = 0 then 0
      else let q = power_int 2 (fp_exponent p emin x) in of_int (round_half_even (x / q)) * q)"

definition f32 :: "rat \<Rightarrow> fp" where
  "f32 = fp_round 24 (-149)"

definition f64 :: "rat \<Rightarrow> fp" where
  "f64 = fp_round 53 (-1074)"

section \<open>Elementary facts\<close>

lemma round_half_even_of_int [simp]: "round_half_even (of_int i) = i"
  by (simp add: round_half_even_def)

lemma round_half_even_bounds: "\<bar>of_int (round_half_even x) - x\<bar> \<le> 1 / 2"
  using floor_correct [of x] by (auto simp: round_half_even_def Let_def abs_le_iff)

lemma round_half_even_mono: "x \<le> y \<Longrightarrow> round_half_even x \<le> round_half_even y"
proof -
  assume "x \<le> y"
  then have "\<lfloor>x\<rfloor> \<le> \<lfloor>y\<rfloor>" by (rule floor_mono)
  moreover have "round_half_even x \<in> {\<lfloor>x\<rfloor>, \<lfloor>x\<rfloor> + 1}" "round_half_even y \<in> {\<lfloor>y\<rfloor>, \<lfloor>y\<rfloor> + 1}"
    by (auto simp: round_half_even_def Let_def)
  moreover have "round_half_even x \<le> round_half_even y" if "\<lfloor>x\<rfloor> = \<lfloor>y\<rfloor>"
    using that \<open>x \<le> y\<close> by (auto simp: round_half_even_def Let_def)
  ultimately show ?thesis by fastforce
qed

lemma ilog2_bounds:
  assumes "0 < x"
  shows "power_int 2 (ilog2 x) \<le> x" and "x < power_int 2 (ilog2 x + 1)"
proof -
  obtain n d where q: "quotient_of x = (n, d)" by fastforce
  then have x: "x = of_int n / of_int d" and d: "0 < d"
    by (simp_all add: quotient_of_div quotient_of_denom_pos)
  then have n: "0 < n" using assms by (simp add: zero_less_divide_iff)
  let ?a = "floorlog 2 (nat n)" and ?b = "floorlog 2 (nat d)"
  have na: "2 ^ (?a - 1) \<le> nat n" "nat n < 2 ^ ?a" "0 < ?a"
    using floorlog_bounds [of "nat n" 2] n by (auto simp: floorlog_def)
  have db: "2 ^ (?b - 1) \<le> nat d" "nat d < 2 ^ ?b" "0 < ?b"
    using floorlog_bounds [of "nat d" 2] d by (auto simp: floorlog_def)
  have lift: "of_nat (2 ^ k) = (2 :: rat) ^ k" for k by simp
  have nr: "(2 :: rat) ^ (?a - 1) \<le> of_int n" "of_int n < (2 :: rat) ^ ?a"
    using na n by (metis (no_types, lifting) lift of_nat_le_iff of_nat_nat of_nat_less_iff less_imp_le of_int_of_nat_eq)+
  have dr: "(2 :: rat) ^ (?b - 1) \<le> of_int d" "of_int d < (2 :: rat) ^ ?b"
    using db d by (metis (no_types, lifting) lift of_nat_le_iff of_nat_nat of_nat_less_iff less_imp_le of_int_of_nat_eq)+
  define k where "k = int ?a - int ?b"
  have p1: "power_int 2 (k - 1) = (2 :: rat) ^ (?a - 1) / 2 ^ ?b"
  proof -
    have "k - 1 = int (?a - 1) - int ?b" using na(3) by (simp add: k_def)
    then show ?thesis by (simp add: power_int_diff)
  qed
  have p2: "power_int 2 (k + 1) = (2 :: rat) ^ ?a / 2 ^ (?b - 1)"
  proof -
    have "k + 1 = int ?a - int (?b - 1)" using db(3) by (simp add: k_def)
    then show ?thesis by (simp add: power_int_diff)
  qed
  have low: "power_int 2 (k - 1) \<le> x"
    unfolding p1 x using nr(1) dr(2) d n by (intro frac_le) (auto intro: less_imp_le)
  have high: "x < power_int 2 (k + 1)"
    unfolding p2 x using nr(2) dr(1) d n by (intro frac_less) auto
  have "ilog2 x = (if power_int 2 k \<le> x then k else k - 1)"
    by (simp add: ilog2_def q k_def)
  with low high show "power_int 2 (ilog2 x) \<le> x" "x < power_int 2 (ilog2 x + 1)"
    by (auto split: if_splits)
qed

text \<open>Half a unit in the last place, in relative and absolute form.\<close>

lemma fp_round_0 [simp]: "fp_round p emin 0 = 0"
  by (simp add: fp_round_def)

lemma fp_round_error_q:
  assumes "x \<noteq> 0"
  shows "\<bar>fp_round p emin x - x\<bar> \<le> power_int 2 (fp_exponent p emin x) / 2"
proof -
  let ?q = "power_int 2 (fp_exponent p emin x) :: rat"
  have q: "0 < ?q" by simp
  have "fp_round p emin x - x = (of_int (round_half_even (x / ?q)) - x / ?q) * ?q"
    using assms q by (simp add: fp_round_def Let_def field_simps)
  then have "\<bar>fp_round p emin x - x\<bar> = \<bar>of_int (round_half_even (x / ?q)) - x / ?q\<bar> * ?q"
    using q by (simp add: abs_mult)
  also have "\<dots> \<le> (1 / 2) * ?q"
    using round_half_even_bounds [of "x / ?q"] q by (intro mult_right_mono) auto
  finally show ?thesis by simp
qed

lemma fp_exponent_le:
  assumes "\<bar>x\<bar> < power_int 2 k" and "x \<noteq> 0" and "emin \<le> k - int p"
  shows "fp_exponent p emin x \<le> k - int p"
proof -
  have "power_int 2 (ilog2 \<bar>x\<bar>) < (power_int 2 k :: rat)"
    using ilog2_bounds(1) [of "\<bar>x\<bar>"] assms(1,2) by simp
  then have "ilog2 \<bar>x\<bar> < k"
    using power_int_increasing [of k "ilog2 \<bar>x\<bar>" "2 :: rat"] by fastforce
  then show ?thesis using assms(3) by (simp add: fp_exponent_def)
qed

text \<open>A bound on the magnitude bounds the rounding error.\<close>

lemma fp_round_error:
  assumes "\<bar>x\<bar> < power_int 2 k" and "emin \<le> k - int p"
  shows "\<bar>fp_round p emin x - x\<bar> \<le> power_int 2 (k - int p - 1)"
proof (cases "x = 0")
  case False
  have "power_int 2 (fp_exponent p emin x) \<le> (power_int 2 (k - int p) :: rat)"
    using fp_exponent_le [OF assms(1) False assms(2)] by (intro power_int_increasing) auto
  with fp_round_error_q [OF False, of p emin]
  have "\<bar>fp_round p emin x - x\<bar> \<le> power_int 2 (k - int p) / 2" by linarith
  also have "\<dots> = power_int 2 (k - int p - 1)" by (simp add: power_int_diff)
  finally show ?thesis .
qed simp

text \<open>Rounding does not change a number that has few enough significant bits.\<close>

lemma fp_exact_general:
  assumes "x = of_int m * power_int 2 e" and "\<bar>m\<bar> < 2 ^ p" and "emin \<le> e"
  shows "fp_round p emin x = x"
proof (cases "x = 0")
  case False
  have "\<bar>of_int m\<bar> < (2 ^ p :: rat)"
    using assms(2) by (metis of_int_abs of_int_less_iff of_int_numeral of_int_power)
  then have "\<bar>x\<bar> < power_int 2 (int p + e)"
    unfolding assms(1) by (simp add: abs_mult power_int_add)
  then have "fp_exponent p emin x \<le> int p + e - int p"
    using False assms(3) by (intro fp_exponent_le) auto
  then have le: "fp_exponent p emin x \<le> e" by simp
  define E where "E = fp_exponent p emin x"
  define d where "d = nat (e - E)"
  have e: "e = E + int d" using le by (simp add: d_def E_def)
  have x: "x = of_int (m * 2 ^ d) * power_int 2 E"
    unfolding assms(1) e by (simp add: power_int_add)
  then have "x / power_int 2 E = of_int (m * 2 ^ d)" by simp
  then have "fp_round p emin x = of_int (m * 2 ^ d) * power_int 2 E"
    using False by (simp add: fp_round_def Let_def E_def [symmetric] del: of_int_mult)
  then show ?thesis using x by simp
qed simp

definition representable :: "nat \<Rightarrow> int \<Rightarrow> rat \<Rightarrow> bool" where
  "representable p emin x \<longleftrightarrow> (\<exists>m e. x = of_int m * power_int 2 e \<and> \<bar>m\<bar> < 2 ^ p \<and> emin \<le> e)"

lemma fp_exact: "representable p emin x \<Longrightarrow> fp_round p emin x = x"
  unfolding representable_def using fp_exact_general by blast

lemma fp_fixed_representable:
  assumes "fp_round p emin x = x"
  shows "representable p emin x"
proof (cases "x = 0")
  case True
  then show ?thesis unfolding representable_def by (intro exI [of _ 0] exI [of _ emin]) simp
next
  case False
  define e where "e = fp_exponent p emin x"
  define k where "k = round_half_even (x / power_int 2 e)"
  have x: "x = of_int k * power_int 2 e" using assms False by (simp add: fp_round_def e_def k_def Let_def)
  have "\<bar>x\<bar> < power_int 2 (ilog2 \<bar>x\<bar> + 1)" using ilog2_bounds(2) [of "\<bar>x\<bar>"] False by simp
  also have "\<dots> \<le> power_int 2 (int p + e)" by (rule power_int_increasing) (simp_all add: e_def fp_exponent_def)
  also have "\<dots> = 2 ^ p * power_int 2 e" by (simp add: power_int_add)
  finally have "\<bar>of_int k\<bar> * power_int 2 e < 2 ^ p * (power_int 2 e :: rat)" by (subst (asm) x) (simp add: abs_mult)
  then have "(\<bar>of_int k\<bar> :: rat) < 2 ^ p" by simp
  then have "(of_int \<bar>k\<bar> :: rat) < of_int (2 ^ p)" by simp
  then have "\<bar>k\<bar> < 2 ^ p" by (simp only: of_int_less_iff)
  moreover have "emin \<le> e" by (simp add: e_def fp_exponent_def)
  ultimately show ?thesis using x unfolding representable_def by blast
qed

text \<open>A float times a power of two is a float.\<close>

lemma f32_times_128: "f32 x = x \<Longrightarrow> f32 (x * 128) = x * 128"
proof -
  assume "f32 x = x"
  then obtain m e where x: "x = of_int m * power_int 2 e" "\<bar>m\<bar> < 2 ^ 24" "- 149 \<le> e"
    using fp_fixed_representable [of 24 "- 149" x] by (auto simp: f32_def representable_def)
  have "x * 128 = of_int m * power_int 2 (e + 7)" by (simp add: x(1) power_int_add)
  then show ?thesis unfolding f32_def using x(2,3) by (intro fp_exact_general [where m = m and e = "e + 7"]) simp_all
qed

lemma f32_of_int [simp]: "\<bar>i\<bar> < 2 ^ 24 \<Longrightarrow> f32 (of_int i) = of_int i"
  unfolding f32_def by (rule fp_exact_general [where m = i and e = 0]) auto

lemma f64_of_int [simp]: "\<bar>i\<bar> < 2 ^ 53 \<Longrightarrow> f64 (of_int i) = of_int i"
  unfolding f64_def by (rule fp_exact_general [where m = i and e = 0]) auto

lemma f32_numerals [simp]: "f32 0 = 0" "f32 1 = 1" "f64 0 = 0" "f64 1 = 1"
  using f32_of_int [of 1] f64_of_int [of 1] by (simp_all add: f32_def f64_def)

text \<open>A single value is rounded by giving the binade it lies in.\<close>

lemma ilog2_unique:
  assumes "power_int 2 k \<le> x" and "x < power_int 2 (k + 1)"
  shows "ilog2 x = k"
proof -
  have "(0 :: rat) < power_int 2 k" by simp
  then have pos: "0 < x" using assms(1) by linarith
  have "power_int 2 (ilog2 x) < (power_int 2 (k + 1) :: rat)" "power_int 2 k < (power_int 2 (ilog2 x + 1) :: rat)"
    using ilog2_bounds [OF pos] assms by linarith+
  then have "\<not> k + 1 \<le> ilog2 x" "\<not> ilog2 x + 1 \<le> k"
    using power_int_increasing [of _ _ "2 :: rat"] by (meson not_le one_le_numeral)+
  then show ?thesis by linarith
qed

lemma fp_round_in_binade:
  assumes "power_int 2 k \<le> \<bar>x\<bar>" and "\<bar>x\<bar> < power_int 2 (k + 1)" and "emin \<le> k - (int p - 1)"
  shows "fp_round p emin x =
    of_int (round_half_even (x / power_int 2 (k - (int p - 1)))) * power_int 2 (k - (int p - 1))"
proof -
  have "(0 :: rat) < power_int 2 k" by simp
  then have "0 < \<bar>x\<bar>" using assms(1) by linarith
  then have "x \<noteq> 0" by simp
  moreover have "fp_exponent p emin x = k - (int p - 1)"
    using ilog2_unique [OF assms(1,2)] assms(3) by (simp add: fp_exponent_def)
  ultimately show ?thesis by (simp add: fp_round_def Let_def)
qed

lemma f32_tenth_bounds: "0 < f32 (1 / 10)" "f32 (1 / 10) < 1 / 5"
proof -
  have "\<bar>f32 (1 / 10) - 1 / 10\<bar> \<le> power_int 2 (-3 - int 24 - 1)"
    unfolding f32_def by (rule fp_round_error) (simp_all add: power_int_minus field_simps)
  also have "\<dots> \<le> (1 / 100 :: rat)" by (simp add: power_int_minus field_simps)
  finally show "0 < f32 (1 / 10)" "f32 (1 / 10) < 1 / 5" by linarith+
qed

text \<open>Conversion to an integer type cuts the fraction off, towards zero.\<close>

definition fp_trunc :: "fp \<Rightarrow> int" where
  "fp_trunc x = (if 0 \<le> x then \<lfloor>x\<rfloor> else \<lceil>x\<rceil>)"

lemma fp_trunc_of_int [simp]: "fp_trunc (of_int i) = i"
  by (simp add: fp_trunc_def)

lemma fp_trunc_nonneg: "0 \<le> x \<Longrightarrow> of_int (fp_trunc x) \<le> x \<and> x < of_int (fp_trunc x) + 1"
  by (simp add: fp_trunc_def) linarith

lemma fp_trunc_error: "\<bar>of_int (fp_trunc x) - x\<bar> < 1"
  by (auto simp: fp_trunc_def abs_less_iff; linarith)

lemma fp_trunc_eqI: "of_int i \<le> x \<Longrightarrow> x < of_int i + 1 \<Longrightarrow> 0 \<le> i \<Longrightarrow> fp_trunc x = i"
  by (auto simp: fp_trunc_def floor_eq_iff)

lemma fp_trunc_small: "\<bar>x\<bar> < 1 \<Longrightarrow> fp_trunc x = 0"
  by (auto simp: fp_trunc_def abs_less_iff floor_eq_iff ceiling_eq_iff)

text \<open>Absolute rounding errors of \<open>float\<close> by the size of the result.\<close>

lemma f32_error: "\<bar>x\<bar> < power_int 2 k \<Longrightarrow> -125 \<le> k \<Longrightarrow> \<bar>f32 x - x\<bar> \<le> power_int 2 (k - 25)"
  using fp_round_error [of x k "-149" 24] by (simp add: f32_def)

lemma f32_error_1: "\<bar>x\<bar> < 2 \<Longrightarrow> \<bar>f32 x - x\<bar> \<le> 1 / 16777216"
  using f32_error [of x 1] by (simp add: power_int_def power_one_over)

lemma f32_error_3: "\<bar>x\<bar> < 8 \<Longrightarrow> \<bar>f32 x - x\<bar> \<le> 1 / 4194304"
  using f32_error [of x 3] by (simp add: power_int_def power_one_over)

lemma f32_error_17: "\<bar>x\<bar> < 131072 \<Longrightarrow> \<bar>f32 x - x\<bar> \<le> 1 / 256"
  using f32_error [of x 17] by (simp add: power_int_def power_one_over)

lemma f32_error_13: "\<bar>x\<bar> < 8192 \<Longrightarrow> \<bar>f32 x - x\<bar> \<le> 1 / 4096"
  using f32_error [of x 13] by (simp add: power_int_def power_one_over)

lemma f32_error_16: "\<bar>x\<bar> < 65536 \<Longrightarrow> \<bar>f32 x - x\<bar> \<le> 1 / 512"
  using f32_error [of x 16] by (simp add: power_int_def power_one_over)

section \<open>Monotonicity\<close>

lemma round_half_even_minus: "round_half_even (- x) = - round_half_even x"
proof -
  have "\<lfloor>- x\<rfloor> = (if x = of_int \<lfloor>x\<rfloor> then - \<lfloor>x\<rfloor> else - \<lfloor>x\<rfloor> - 1)"
    by (auto simp: floor_eq_iff) linarith+
  then show ?thesis by (auto simp: round_half_even_def Let_def)
qed

lemma fp_round_minus: "fp_round p emin (- x) = - fp_round p emin x"
  by (simp add: fp_round_def fp_exponent_def Let_def round_half_even_minus)

lemma fp_round_nonneg: "0 \<le> x \<Longrightarrow> 0 \<le> fp_round p emin x"
proof -
  assume x: "0 \<le> x"
  have "round_half_even 0 \<le> round_half_even (x / q)" if "0 < q" for q :: rat
    using x that by (intro round_half_even_mono) simp
  then show ?thesis by (simp add: fp_round_def Let_def round_half_even_def)
qed

text \<open>A result never leaves the binade of its argument, except to its upper end.\<close>

lemma fp_round_binade:
  assumes "0 < x" and "emin \<le> ilog2 x - (int p - 1)" and "0 < p"
  shows "power_int 2 (ilog2 x) \<le> fp_round p emin x" and "fp_round p emin x \<le> power_int 2 (ilog2 x + 1)"
proof -
  define e where "e = ilog2 x - (int p - 1)"
  define q where "q = (power_int 2 e :: rat)"
  have q: "0 < q" by (simp add: q_def)
  have "fp_exponent p emin x = e" using assms by (simp add: fp_exponent_def e_def)
  then have r: "fp_round p emin x = of_int (round_half_even (x / q)) * q"
    using assms(1) by (simp add: fp_round_def Let_def q_def)
  have lo: "power_int 2 (ilog2 x) = of_int (2 ^ (p - 1)) * q" and hi: "power_int 2 (ilog2 x + 1) = of_int (2 ^ p) * q"
    using assms(3) unfolding q_def e_def by (simp_all add: power_int_diff power_int_add of_nat_diff flip: power_int_of_nat)
  note b = ilog2_bounds [OF assms(1)]
  have "of_int (2 ^ (p - 1)) \<le> x / q" "x / q \<le> of_int (2 ^ p)"
    using b q unfolding lo hi by (simp_all add: pos_le_divide_eq pos_divide_le_eq del: of_int_power)
  then have "2 ^ (p - 1) \<le> round_half_even (x / q)" "round_half_even (x / q) \<le> 2 ^ p"
    using round_half_even_mono round_half_even_of_int by metis+
  then show "power_int 2 (ilog2 x) \<le> fp_round p emin x" "fp_round p emin x \<le> power_int 2 (ilog2 x + 1)"
    unfolding r lo hi using q by (simp_all only: mult_le_cancel_right of_int_le_iff) simp_all
qed

lemma ilog2_mono: "0 < x \<Longrightarrow> x \<le> y \<Longrightarrow> ilog2 x \<le> ilog2 y"
proof (rule ccontr)
  assume xy: "0 < x" "x \<le> y" and "\<not> ilog2 x \<le> ilog2 y"
  then have "power_int 2 (ilog2 y + 1) \<le> (power_int 2 (ilog2 x) :: rat)" by (intro power_int_increasing) auto
  moreover have "y < power_int 2 (ilog2 y + 1)" "power_int 2 (ilog2 x) \<le> x" using xy ilog2_bounds [of x] ilog2_bounds [of y] by auto
  ultimately show False using xy by linarith
qed

lemma fp_round_mono_pos:
  assumes "0 < x" and "x \<le> y" and "0 < p"
  shows "fp_round p emin x \<le> fp_round p emin y"
proof -
  have y: "0 < y" using assms by simp
  note le = ilog2_mono [OF assms(1,2)]
  show ?thesis
  proof (cases "fp_exponent p emin x = fp_exponent p emin y")
    case True
    define q where "q = (power_int 2 (fp_exponent p emin y) :: rat)"
    have "0 < q" by (simp add: q_def)
    then have "round_half_even (x / q) \<le> round_half_even (y / q)"
      using assms(2) by (intro round_half_even_mono divide_right_mono) simp_all
    then have "of_int (round_half_even (x / q)) * q \<le> of_int (round_half_even (y / q)) * q"
      using \<open>0 < q\<close> by (intro mult_right_mono) simp_all
    then show ?thesis using assms(1) y True by (simp add: fp_round_def Let_def q_def)
  next
    case False
    define k where "k = max (ilog2 x - (int p - 1)) emin"
    have lt: "ilog2 x < ilog2 y" "emin < ilog2 y - (int p - 1)" using False le assms(1) y
      by (auto simp: fp_exponent_def max_def split: if_splits)
    have "fp_round p emin x \<le> power_int 2 (ilog2 y)"
    proof (cases "emin \<le> ilog2 x - (int p - 1)")
      case True
      have "power_int 2 (ilog2 x + 1) \<le> (power_int 2 (ilog2 y) :: rat)" using lt by (intro power_int_increasing) auto
      then show ?thesis using fp_round_binade(2) [OF assms(1) True assms(3)] by linarith
    next
      case sub: False
      define q where "q = (power_int 2 emin :: rat)"
      have q: "0 < q" by (simp add: q_def)
      have r: "fp_round p emin x = of_int (round_half_even (x / q)) * q"
        using assms(1) sub by (simp add: fp_round_def Let_def q_def fp_exponent_def max_def)
      define d where "d = nat (ilog2 y - emin)"
      have d: "power_int 2 (ilog2 y) = of_int (2 ^ d) * q"
      proof -
        have "ilog2 y = int d + emin" using lt assms(3) by (simp add: d_def)
        then show ?thesis by (simp add: q_def power_int_add)
      qed
      have "x < power_int 2 (ilog2 x + 1)" by (rule ilog2_bounds(2) [OF assms(1)])
      also have "\<dots> \<le> power_int 2 (ilog2 y)" using lt by (intro power_int_increasing) auto
      finally have "x / q \<le> of_int (2 ^ d)" using q unfolding d by (simp add: pos_divide_le_eq del: of_int_power)
      then have "round_half_even (x / q) \<le> 2 ^ d" using round_half_even_mono round_half_even_of_int by metis
      then have "(of_int (round_half_even (x / q)) :: rat) \<le> of_int (2 ^ d)" by (subst of_int_le_iff)
      then have "of_int (round_half_even (x / q)) * q \<le> of_int (2 ^ d) * q"
        using q by (intro mult_right_mono) simp_all
      then show ?thesis by (simp only: r d)
    qed
    moreover have "power_int 2 (ilog2 y) \<le> fp_round p emin y"
      using lt by (intro fp_round_binade(1) [OF y _ assms(3)]) simp
    ultimately show ?thesis by linarith
  qed
qed

lemma fp_round_mono:
  assumes "x \<le> y" and "0 < p"
  shows "fp_round p emin x \<le> fp_round p emin y"
proof -
  consider "0 < x" | "x \<le> 0" "0 \<le> y" | "y < 0" by linarith
  then show ?thesis
  proof cases
    case 1
    then show ?thesis using assms by (intro fp_round_mono_pos)
  next
    case 2
    then have "0 \<le> fp_round p emin (- x)" "0 \<le> fp_round p emin y" by (intro fp_round_nonneg, simp)+
    then show ?thesis by (simp add: fp_round_minus)
  next
    case 3
    then have "fp_round p emin (- y) \<le> fp_round p emin (- x)" using assms by (intro fp_round_mono_pos) simp_all
    then show ?thesis by (simp add: fp_round_minus)
  qed
qed

lemma f32_mono: "x \<le> y \<Longrightarrow> f32 x \<le> f32 y"
  unfolding f32_def by (rule fp_round_mono) simp_all

lemma f64_mono: "x \<le> y \<Longrightarrow> f64 x \<le> f64 y"
  unfolding f64_def by (rule fp_round_mono) simp_all

lemma f64_nonneg: "0 \<le> x \<Longrightarrow> 0 \<le> f64 x"
  unfolding f64_def by (rule fp_round_nonneg)

lemma f64_error: "\<bar>x\<bar> < power_int 2 k \<Longrightarrow> -1021 \<le> k \<Longrightarrow> \<bar>f64 x - x\<bar> \<le> power_int 2 (k - 54)"
  using fp_round_error [of x k "-1074" 53] by (simp add: f64_def)

lemma f64_error_24: "\<bar>x\<bar> < 16777216 \<Longrightarrow> \<bar>f64 x - x\<bar> \<le> 1 / 1073741824"
  using f64_error [of x 24] by (simp add: power_int_def power_one_over)

end
