(* ===== verification/Reliable_Udp.thy ===== *)
theory Reliable_Udp
  imports Framing Float_Model "HOL-Library.AList"
begin

text \<open>
  \<open>ReliableUdpSession\<close> (\<open>ClientNetworkCore/Session.h\<close>, \<open>Session.cpp\<close>): sequence numbers, the table of
  packets that wait for an acknowledgement, the receive history (a bit per residue modulo 1024), the
  acknowledgement bitfield, and the resend pass \<open>Update\<close>. A send buffer is a shared object: the
  pending table holds pointers to it, and \<open>SendReliable\<close> writes the sequence number into its header,
  so the buffers' bytes are a store indexed by buffer identity.
\<close>

section \<open>State\<close>

record pending_packet =
  pkt_buffer :: nat
  pkt_sequence :: uint16
  pkt_timestamp :: fp
  retryCount :: uint32

record reliable_udp =
  udp_connected :: bool
  socket_open :: bool                                 \<comment> \<open>of the service's UDP socket\<close>
  pendingAckMap :: "(uint16 \<times> pending_packet) list"  \<comment> \<open>in the map's iteration order\<close>
  receiveHistory :: "bool list"
  latestSeq :: uint16
  sendSeq :: uint16
  resendIntervalMs :: fp
  buffer_bytes :: "nat \<Rightarrow> BYTE list"                \<comment> \<open>the bytes of each send buffer\<close>
  datagrams :: "BYTE list list"                       \<comment> \<open>handed to \<open>async_send_to\<close>, oldest first\<close>

definition HISTORY_SIZE :: nat where
  "HISTORY_SIZE = 1024"

definition ReliableUdpSession :: "bool \<Rightarrow> (nat \<Rightarrow> BYTE list) \<Rightarrow> reliable_udp" where
  "ReliableUdpSession is_open bytes =
     \<lparr>udp_connected = False, socket_open = is_open, pendingAckMap = [],
      receiveHistory = replicate HISTORY_SIZE False, latestSeq = 0, sendSeq = 1,
      resendIntervalMs = f32 (1 / 10), buffer_bytes = bytes, datagrams = []\<rparr>"

section \<open>Sequence numbers\<close>

text \<open>\<open>static_cast<int16>(a - b) > 0\<close>: the difference modulo \<open>2 ^ 16\<close>, read as a signed number.\<close>

definition IsSeqGreater :: "uint16 \<Rightarrow> uint16 \<Rightarrow> bool" where
  "IsSeqGreater a b \<longleftrightarrow> 0 < sint (a - b)"

definition history_index :: "uint16 \<Rightarrow> nat" where
  "history_index seq = unat seq mod HISTORY_SIZE"

definition CheckAndRecordReceiveHistory :: "uint16 \<Rightarrow> reliable_udp \<Rightarrow> bool \<times> reliable_udp" where
  "CheckAndRecordReceiveHistory seq s =
     (if \<not> IsSeqGreater seq (latestSeq s - 1024) then (False, s)
      else if receiveHistory s ! history_index seq then (False, s)
      else (True, s\<lparr>receiveHistory := (receiveHistory s)[history_index seq := True],
                    latestSeq := (if IsSeqGreater seq (latestSeq s) then seq else latestSeq s)\<rparr>))"

text \<open>The loop over \<open>i = 1 .. 32\<close>; \<open>1 << (i - 1)\<close> is bit \<open>i - 1\<close> of the 32-bit field.\<close>

fun ack_bits :: "uint16 \<Rightarrow> bool list \<Rightarrow> nat list \<Rightarrow> uint32 \<Rightarrow> uint32" where
  "ack_bits latest hist [] bitfield = bitfield"
| "ack_bits latest hist (i # is) bitfield =
     (let seq = latest - of_nat i in
      if \<not> IsSeqGreater latest seq then ack_bits latest hist is bitfield
      else if hist ! history_index seq
           then ack_bits latest hist is (bitfield OR push_bit (i - 1) 1)
           else ack_bits latest hist is bitfield)"

definition GenerateAckBitfield :: "uint16 \<Rightarrow> reliable_udp \<Rightarrow> uint32" where
  "GenerateAckBitfield latest s = ack_bits latest (receiveHistory s) [1..<33] 0"

section \<open>Sending and acknowledging\<close>

definition RegisterSend :: "nat \<Rightarrow> reliable_udp \<Rightarrow> reliable_udp" where
  "RegisterSend b s =
     (if \<not> socket_open s then s else s\<lparr>datagrams := datagrams s @ [buffer_bytes s b]\<rparr>)"

definition Send :: "nat \<Rightarrow> reliable_udp \<Rightarrow> reliable_udp" where
  "Send b s = RegisterSend b s"

text \<open>\<open>header->sequence = seq\<close>: the two bytes at offset 4.\<close>

definition write_sequence :: "uint16 \<Rightarrow> BYTE list \<Rightarrow> BYTE list" where
  "write_sequence seq bytes = store 4 (le16_bytes seq) bytes"

definition SendReliable :: "nat \<Rightarrow> fp \<Rightarrow> reliable_udp \<Rightarrow> reliable_udp" where
  "SendReliable b timestamp s =
     (let seq = sendSeq s;
          pkt = \<lparr>pkt_buffer = b, pkt_sequence = seq, pkt_timestamp = timestamp, retryCount = 0\<rparr>
      in Send b (s\<lparr>sendSeq := seq + 1,
                   buffer_bytes := (buffer_bytes s)(b := write_sequence seq (buffer_bytes s b)),
                   pendingAckMap := AList.update seq pkt (pendingAckMap s)\<rparr>))"

fun ack_loop :: "uint16 \<Rightarrow> uint32 \<Rightarrow> nat list \<Rightarrow> (uint16 \<times> pending_packet) list \<Rightarrow> (uint16 \<times> pending_packet) list" where
  "ack_loop latest bitfield [] m = m"
| "ack_loop latest bitfield (i # is) m =
     (let ackSeq = latest - of_nat i in
      ack_loop latest bitfield is
        (if i = 0 \<or> bitfield AND push_bit (i - 1) 1 \<noteq> 0
         then (case map_of m ackSeq of None \<Rightarrow> m | Some _ \<Rightarrow> AList.delete ackSeq m)
         else m))"

definition HandleAck :: "uint16 \<Rightarrow> uint32 \<Rightarrow> reliable_udp \<Rightarrow> reliable_udp" where
  "HandleAck latest bitfield s =
     s\<lparr>pendingAckMap := ack_loop latest bitfield [0..<33] (pendingAckMap s)\<rparr>"

text \<open>\<open>Disconnect\<close> only clears the flag (the rest of it is commented out in the source).\<close>

definition Disconnect :: "reliable_udp \<Rightarrow> reliable_udp" where
  "Disconnect s = (if \<not> udp_connected s then s else s\<lparr>udp_connected := False\<rparr>)"

definition ProcessSend :: "int32 \<Rightarrow> reliable_udp \<Rightarrow> reliable_udp" where
  "ProcessSend numOfBytes s = (if numOfBytes = 0 then Disconnect s else s)"

section \<open>The resend pass\<close>

text \<open>\<open>float elapsed = serverTime - pkt.timestamp\<close>: a \<open>double\<close> subtraction narrowed to \<open>float\<close>.\<close>

definition elapsed :: "fp \<Rightarrow> pending_packet \<Rightarrow> fp" where
  "elapsed serverTime pkt = f32 (f64 (serverTime - pkt_timestamp pkt))"

definition is_due :: "fp \<Rightarrow> fp \<Rightarrow> pending_packet \<Rightarrow> bool" where
  "is_due interval serverTime pkt \<longleftrightarrow> interval \<le> elapsed serverTime pkt"

text \<open>
  The first loop refreshes every due entry, collects its key, and disconnects on the way when an
  entry has been retried more than five times.
\<close>

fun scan_pending ::
  "fp \<Rightarrow> fp \<Rightarrow> (uint16 \<times> pending_packet) list \<Rightarrow> (uint16 \<times> pending_packet) list \<times> uint16 list \<times> bool" where
  "scan_pending interval serverTime [] = ([], [], False)"
| "scan_pending interval serverTime ((seq, pkt) # m) =
     (let due = is_due interval serverTime pkt;
          pkt' = (if due then pkt\<lparr>pkt_timestamp := serverTime, retryCount := retryCount pkt + 1\<rparr> else pkt);
          (m', resend, give_up) = scan_pending interval serverTime m
      in ((seq, pkt') # m', (if due then seq # resend else resend), retryCount pkt' > 5 \<or> give_up))"

fun resend_all :: "fp \<Rightarrow> uint16 list \<Rightarrow> reliable_udp \<Rightarrow> reliable_udp" where
  "resend_all serverTime [] s = s"
| "resend_all serverTime (seq # seqs) s =
     resend_all serverTime seqs
       (case map_of (pendingAckMap s) seq of
          None \<Rightarrow> s
        | Some pkt \<Rightarrow> SendReliable (pkt_buffer pkt) serverTime s)"

definition Update :: "fp \<Rightarrow> reliable_udp \<Rightarrow> reliable_udp" where
  "Update serverTime s =
     (let (m, resend, give_up) = scan_pending (resendIntervalMs s) serverTime (pendingAckMap s);
          s1 = s\<lparr>pendingAckMap := m\<rparr>;
          s2 = (if give_up then Disconnect s1 else s1)
      in resend_all serverTime resend s2)"

section \<open>The receive history\<close>

definition history_wf :: "reliable_udp \<Rightarrow> bool" where
  "history_wf s \<longleftrightarrow> length (receiveHistory s) = HISTORY_SIZE"

definition recorded :: "reliable_udp \<Rightarrow> uint16 \<Rightarrow> bool" where
  "recorded s seq \<longleftrightarrow> receiveHistory s ! history_index seq"

text \<open>A run of received sequence numbers, with the verdict on each.\<close>

fun receive_all :: "uint16 list \<Rightarrow> reliable_udp \<Rightarrow> bool list \<times> reliable_udp" where
  "receive_all [] s = ([], s)"
| "receive_all (q # qs) s =
     (let (ok, s1) = CheckAndRecordReceiveHistory q s; (oks, s2) = receive_all qs s1 in (ok # oks, s2))"

definition free_slots :: "reliable_udp \<Rightarrow> nat" where
  "free_slots s = length (filter Not (receiveHistory s))"

lemma history_index_less [simp]: "history_index seq < HISTORY_SIZE"
  by (simp add: history_index_def HISTORY_SIZE_def)

lemma history_wf_new [simp]: "history_wf (ReliableUdpSession op bytes)"
  by (simp add: history_wf_def ReliableUdpSession_def)

lemma free_slots_new [simp]: "free_slots (ReliableUdpSession op bytes) = HISTORY_SIZE"
  by (simp add: free_slots_def ReliableUdpSession_def)

lemma filter_Not_set:
  "k < length bs \<Longrightarrow> \<not> bs ! k \<Longrightarrow> Suc (length (filter Not (bs[k := True]))) = length (filter Not bs)"
proof (induction bs arbitrary: k)
  case Nil
  then show ?case by simp
next
  case (Cons b bs)
  then show ?case by (cases k) auto
qed

lemma CheckAndRecord_cases:
  assumes "CheckAndRecordReceiveHistory seq s = (ok, s')" and "history_wf s"
  shows "history_wf s'" and "\<not> ok \<Longrightarrow> s' = s"
    and "ok \<Longrightarrow> \<not> recorded s seq \<and> recorded s' seq \<and> Suc (free_slots s') = free_slots s"
    and "recorded s q \<Longrightarrow> recorded s' q"
  using assms filter_Not_set [of "history_index seq" "receiveHistory s"]
  by (auto simp: CheckAndRecordReceiveHistory_def history_wf_def recorded_def free_slots_def
      nth_list_update split: if_splits)

lemma receive_all_slots:
  "receive_all qs s = (oks, s') \<Longrightarrow> history_wf s \<Longrightarrow>
   history_wf s' \<and> length (filter id oks) + free_slots s' = free_slots s"
proof (induction qs arbitrary: s oks)
  case Nil
  then show ?case by simp
next
  case (Cons q qs)
  obtain ok s1 where one: "CheckAndRecordReceiveHistory q s = (ok, s1)" by fastforce
  obtain oks1 where rest: "receive_all qs s1 = (oks1, s')" and oks: "oks = ok # oks1"
    using Cons.prems(1) one by (auto split: prod.splits)
  note c = CheckAndRecord_cases [OF one Cons.prems(2)]
  from Cons.IH [OF rest c(1)] show ?case
    using c(2,3) oks by (cases ok) auto
qed

lemma receive_all_keeps_recorded:
  "receive_all qs s = (oks, s') \<Longrightarrow> history_wf s \<Longrightarrow> recorded s q \<Longrightarrow> recorded s' q"
proof (induction qs arbitrary: s oks)
  case Nil
  then show ?case by simp
next
  case (Cons q' qs)
  obtain ok s1 where one: "CheckAndRecordReceiveHistory q' s = (ok, s1)" by fastforce
  then obtain oks1 where "receive_all qs s1 = (oks1, s')"
    using Cons.prems(1) by (auto split: prod.splits)
  then show ?case
    using Cons.IH CheckAndRecord_cases(1,4) [OF one Cons.prems(2)] Cons.prems(3) by blast
qed

lemma recorded_rejected:
  "recorded s q \<Longrightarrow> CheckAndRecordReceiveHistory q s = (False, s)"
  by (simp add: CheckAndRecordReceiveHistory_def recorded_def)

lemma no_slots_rejects:
  assumes "history_wf s" and "free_slots s = 0"
  shows "CheckAndRecordReceiveHistory q s = (False, s)"
proof (rule recorded_rejected)
  have "\<forall>b \<in> set (receiveHistory s). b"
    using assms(2) by (simp add: free_slots_def filter_empty_conv)
  then show "recorded s q"
    using assms(1) nth_mem [of "history_index q" "receiveHistory s"]
    by (auto simp: recorded_def history_wf_def)
qed

section \<open>The acknowledgement bitfield\<close>

lemma sint_small: "0 < i \<Longrightarrow> i < 2 ^ 15 \<Longrightarrow> 0 < sint (of_nat i :: uint16)"
proof -
  assume "0 < i" "i < 2 ^ 15"
  then have "sint (of_nat i :: uint16) = int i"
    by (simp add: signed_of_nat signed_take_bit_int_eq_self_iff)
  then show ?thesis using \<open>0 < i\<close> by simp
qed

lemma IsSeqGreater_back: "0 < i \<Longrightarrow> i < 2 ^ 15 \<Longrightarrow> IsSeqGreater a (a - of_nat i)"
  by (simp add: IsSeqGreater_def sint_small)

lemma bit_ack_bits:
  assumes "\<forall>i \<in> set is. 0 < i \<and> i \<le> 32" and "n < 32"
  shows "bit (ack_bits latest hist is bf) n \<longleftrightarrow>
    bit bf n \<or> (Suc n \<in> set is \<and> hist ! history_index (latest - of_nat (Suc n)))"
  using assms
proof (induction "is" arbitrary: bf)
  case Nil
  then show ?case by simp
next
  case (Cons i "is")
  have "IsSeqGreater latest (latest - of_nat i)"
    by (rule IsSeqGreater_back) (use Cons.prems(1) in auto)
  moreover have "bit (push_bit (i - 1) 1 :: uint32) n \<longleftrightarrow> i = Suc n"
    using Cons.prems by (auto simp: bit_simps)
  moreover have "i \<noteq> 0" using Cons.prems(1) by simp
  ultimately show ?case
    using Cons by (auto simp: Let_def bit_or_iff)
qed

lemma bit_GenerateAckBitfield:
  "n < 32 \<Longrightarrow> bit (GenerateAckBitfield latest s) n \<longleftrightarrow> recorded s (latest - of_nat (Suc n))"
  unfolding GenerateAckBitfield_def recorded_def
  by (subst bit_ack_bits) auto

lemma and_push_bit_iff:
  "k < 32 \<Longrightarrow> (w :: uint32) AND push_bit k 1 \<noteq> 0 \<longleftrightarrow> bit w k"
proof -
  assume k: "k < 32"
  have "(w AND push_bit k 1 \<noteq> 0) = (\<exists>n. bit (w AND push_bit k 1) n)"
    by (metis bit_0_eq bit_eq_iff bot_apply bot_bool_def)
  also have "\<dots> \<longleftrightarrow> bit w k" using k by (auto simp: bit_simps)
  finally show ?thesis .
qed

text \<open>The sequence numbers an acknowledgement names: the latest, and \<open>latest - (n + 1)\<close> for each set bit \<open>n\<close>.\<close>

definition acked :: "uint16 \<Rightarrow> uint32 \<Rightarrow> uint16 \<Rightarrow> bool" where
  "acked latest bitfield q \<longleftrightarrow> q = latest \<or> (\<exists>n \<in> {..<32}. bit bitfield n \<and> q = latest - of_nat (Suc n))"

lemma map_of_ack_loop:
  assumes "\<forall>i \<in> set is. i \<le> 32"
  shows "map_of (ack_loop latest bf is m) q =
    (if \<exists>i \<in> set is. (i = 0 \<or> bit bf (i - 1)) \<and> q = latest - of_nat i then None else map_of m q)"
  using assms
proof (induction "is" arbitrary: m)
  case Nil
  then show ?case by simp
next
  case (Cons i "is")
  have hit: "(i = 0 \<or> bf AND push_bit (i - 1) 1 \<noteq> 0) \<longleftrightarrow> (i = 0 \<or> bit bf (i - 1))"
    using Cons.prems and_push_bit_iff [of "i - 1" bf] by (cases i) auto
  show ?case
    using Cons unfolding ack_loop.simps Let_def hit
    by (auto simp: delete_conv' split: option.splits)
qed

lemma HandleAck_lookup:
  "map_of (pendingAckMap (HandleAck latest bf s)) q =
     (if acked latest bf q then None else map_of (pendingAckMap s) q)"
proof -
  have "(\<exists>i \<in> set [0..<33]. (i = 0 \<or> bit bf (i - 1)) \<and> q = latest - of_nat i) \<longleftrightarrow> acked latest bf q"
  proof
    assume "\<exists>i \<in> set [0..<33]. (i = 0 \<or> bit bf (i - 1)) \<and> q = latest - of_nat i"
    then obtain i where i: "i < 33" "i = 0 \<or> bit bf (i - 1)" "q = latest - of_nat i"
      by (auto simp: atLeast0LessThan)
    then show "acked latest bf q"
      unfolding acked_def by (cases i) (auto intro!: bexI [of _ "i - 1"])
  next
    assume "acked latest bf q"
    then show "\<exists>i \<in> set [0..<33]. (i = 0 \<or> bit bf (i - 1)) \<and> q = latest - of_nat i"
      unfolding acked_def
    proof (elim disjE bexE conjE)
      assume "q = latest" then show ?thesis by (intro bexI [of _ 0]) auto
    next
      fix n assume "n \<in> {..<32}" "bit bf n" "q = latest - of_nat (Suc n)"
      then show ?thesis by (intro bexI [of _ "Suc n"]) auto
    qed
  qed
  then show ?thesis
    unfolding HandleAck_def by (simp add: map_of_ack_loop)
qed

section \<open>The acknowledgement channel\<close>

text \<open>
  The receiver's half of the protocol (which packets it has seen, what it reports) against the
  sender's half (which packets it still waits for). The laws are what each side promises about the
  bitfield; the lemma is what the round trip of an acknowledgement achieves.
\<close>

locale ack_channel =
  fixes seen :: "'r \<Rightarrow> uint16 \<Rightarrow> bool"
    and report :: "uint16 \<Rightarrow> 'r \<Rightarrow> uint32"
    and waiting :: "'s \<Rightarrow> uint16 \<Rightarrow> bool"
    and apply_ack :: "uint16 \<Rightarrow> uint32 \<Rightarrow> 's \<Rightarrow> 's"
  assumes report_bit: "n < 32 \<Longrightarrow> bit (report l r) n \<longleftrightarrow> seen r (l - of_nat (Suc n))"
    and apply_ack_waiting: "waiting (apply_ack l bf s) q \<longleftrightarrow> waiting s q \<and> \<not> acked l bf q"
begin

lemma ack_round_trip:
  "waiting (apply_ack l (report l r) s) q \<longleftrightarrow>
   waiting s q \<and> q \<noteq> l \<and> (\<forall>n < 32. q = l - of_nat (Suc n) \<longrightarrow> \<not> seen r q)"
  by (auto simp: apply_ack_waiting acked_def report_bit)

lemma unseen_keeps_waiting:
  "waiting s q \<Longrightarrow> \<not> seen r q \<Longrightarrow> q \<noteq> l \<Longrightarrow> waiting (apply_ack l (report l r) s) q"
  unfolding ack_round_trip by blast

lemma outside_window_keeps_waiting:
  assumes "waiting s q" and "32 < unat (l - q)"
  shows "waiting (apply_ack l bf s) q"
proof -
  have "q \<noteq> l - of_nat (Suc n)" if "n < 32" for n
  proof
    assume "q = l - of_nat (Suc n)"
    then have "unat (l - q) = Suc n" using that by (simp add: unat_of_nat del: of_nat_Suc)
    then show False using assms(2) that by simp
  qed
  moreover have "q \<noteq> l" using assms(2) by auto
  ultimately show ?thesis using assms(1) by (auto simp: apply_ack_waiting acked_def)
qed

end

definition outstanding :: "reliable_udp \<Rightarrow> uint16 \<Rightarrow> bool" where
  "outstanding s q \<longleftrightarrow> map_of (pendingAckMap s) q \<noteq> None"

interpretation ack: ack_channel recorded GenerateAckBitfield outstanding HandleAck
  by unfold_locales (auto simp: bit_GenerateAckBitfield outstanding_def HandleAck_lookup)

section \<open>Reliable sends\<close>

lemma header_sequence_write:
  "6 \<le> length bytes \<Longrightarrow> header_sequence (write_sequence seq bytes) = seq"
  by (simp add: header_sequence_def write_sequence_def store_def read_u16_def nth_append le16_bytes_def)

lemma length_write_sequence: "6 \<le> length bytes \<Longrightarrow> length (write_sequence seq bytes) = length bytes"
  by (simp add: write_sequence_def)

lemma RegisterSend_simps [simp]:
  "pendingAckMap (RegisterSend b s) = pendingAckMap s" "sendSeq (RegisterSend b s) = sendSeq s"
  "socket_open (RegisterSend b s) = socket_open s" "buffer_bytes (RegisterSend b s) = buffer_bytes s"
  "udp_connected (RegisterSend b s) = udp_connected s"
  "resendIntervalMs (RegisterSend b s) = resendIntervalMs s"
  "datagrams (RegisterSend b s) = datagrams s @ (if socket_open s then [buffer_bytes s b] else [])"
  by (simp_all add: RegisterSend_def)

lemma SendReliable_simps [simp]:
  "sendSeq (SendReliable b t s) = sendSeq s + 1"
  "socket_open (SendReliable b t s) = socket_open s"
  "udp_connected (SendReliable b t s) = udp_connected s"
  "resendIntervalMs (SendReliable b t s) = resendIntervalMs s"
  "buffer_bytes (SendReliable b t s) = (buffer_bytes s)(b := write_sequence (sendSeq s) (buffer_bytes s b))"
  "datagrams (SendReliable b t s) =
     datagrams s @ (if socket_open s then [write_sequence (sendSeq s) (buffer_bytes s b)] else [])"
  "map_of (pendingAckMap (SendReliable b t s)) =
     (map_of (pendingAckMap s))(sendSeq s \<mapsto>
        \<lparr>pkt_buffer = b, pkt_sequence = sendSeq s, pkt_timestamp = t, retryCount = 0\<rparr>)"
  by (simp_all add: SendReliable_def Send_def Let_def update_conv')

text \<open>A run of reliable sends, each a buffer and a time stamp.\<close>

fun send_all :: "(nat \<times> fp) list \<Rightarrow> reliable_udp \<Rightarrow> reliable_udp" where
  "send_all [] s = s"
| "send_all ((b, t) # ps) s = send_all ps (SendReliable b t s)"

text \<open>The \<open>n\<close> sequence numbers from \<open>q\<close> on.\<close>

definition seqs_from :: "uint16 \<Rightarrow> nat \<Rightarrow> uint16 list" where
  "seqs_from q n = map (\<lambda>i. q + of_nat i) [0..<n]"

lemma seqs_from_0 [simp]: "seqs_from q 0 = []"
  by (simp add: seqs_from_def)

lemma seqs_from_Suc: "seqs_from q (Suc n) = q # seqs_from (q + 1) n"
  by (simp add: seqs_from_def upt_conv_Cons map_Suc_upt [symmetric] add.assoc del: upt_Suc)

lemma length_seqs_from [simp]: "length (seqs_from q n) = n"
  by (simp add: seqs_from_def)

lemma distinct_seqs_from:
  assumes "n \<le> 2 ^ 16"
  shows "distinct (seqs_from q n)"
proof -
  have "inj_on (\<lambda>i. q + of_nat i) (set [0..<n])"
  proof (rule inj_onI)
    fix i j assume "i \<in> set [0..<n]" "j \<in> set [0..<n]" "q + of_nat i = q + of_nat j"
    then have eq: "(of_nat i :: uint16) = of_nat j" and lt: "i < 2 ^ 16" "j < 2 ^ 16"
      using assms by auto
    have "unat (of_nat i :: uint16) = i" and "unat (of_nat j :: uint16) = j"
      using lt by (simp_all add: unat_of_nat)
    with eq show "i = j" by metis
  qed
  then show ?thesis by (simp add: seqs_from_def distinct_map)
qed

lemma send_all_sendSeq: "sendSeq (send_all ps s) = sendSeq s + of_nat (length ps)"
  by (induction ps s rule: send_all.induct) (simp_all add: add.assoc)

lemma send_all_outstanding:
  "outstanding (send_all ps s) q \<longleftrightarrow> outstanding s q \<or> q \<in> set (seqs_from (sendSeq s) (length ps))"
  by (induction ps s rule: send_all.induct) (auto simp: seqs_from_Suc outstanding_def)

lemma send_all_datagrams:
  assumes "socket_open s" and "\<forall>(b, t) \<in> set ps. 6 \<le> length (buffer_bytes s b)"
  shows "\<exists>ds. datagrams (send_all ps s) = datagrams s @ ds \<and>
    map header_sequence ds = seqs_from (sendSeq s) (length ps)"
  using assms
proof (induction ps s rule: send_all.induct)
  case (1 s)
  then show ?case by simp
next
  case (2 b t ps s)
  have "\<forall>(b', t') \<in> set ps. 6 \<le> length (buffer_bytes (SendReliable b t s) b')"
    using 2(3) by (auto simp: length_write_sequence)
  then obtain ds where "datagrams (send_all ps (SendReliable b t s)) = datagrams (SendReliable b t s) @ ds"
    "map header_sequence ds = seqs_from (sendSeq s + 1) (length ps)"
    using 2 by auto
  then show ?case
    using 2(2,3) by (simp add: seqs_from_Suc header_sequence_write)
qed

section \<open>The resend pass keeps every old entry\<close>

definition due_keys :: "fp \<Rightarrow> reliable_udp \<Rightarrow> uint16 list" where
  "due_keys serverTime s =
     map fst (filter (\<lambda>(q, pkt). is_due (resendIntervalMs s) serverTime pkt) (pendingAckMap s))"

definition refresh :: "fp \<Rightarrow> fp \<Rightarrow> pending_packet \<Rightarrow> pending_packet" where
  "refresh interval serverTime pkt =
     (if is_due interval serverTime pkt
      then pkt\<lparr>pkt_timestamp := serverTime, retryCount := retryCount pkt + 1\<rparr> else pkt)"

lemma scan_pending_eq:
  "scan_pending iv t m =
     (map (\<lambda>(q, pkt). (q, refresh iv t pkt)) m,
      map fst (filter (\<lambda>(q, pkt). is_due iv t pkt) m),
      \<exists>(q, pkt) \<in> set m. retryCount (refresh iv t pkt) > 5)"
  by (induction m) (auto simp: refresh_def)

lemma map_of_refresh:
  "map_of (map (\<lambda>(q, pkt). (q, refresh iv t pkt)) m) q = map_option (refresh iv t) (map_of m q)"
  by (induction m) auto

lemma Disconnect_simps [simp]:
  "pendingAckMap (Disconnect s) = pendingAckMap s" "sendSeq (Disconnect s) = sendSeq s"
  "socket_open (Disconnect s) = socket_open s" "buffer_bytes (Disconnect s) = buffer_bytes s"
  "datagrams (Disconnect s) = datagrams s" "resendIntervalMs (Disconnect s) = resendIntervalMs s"
  "\<not> udp_connected (Disconnect s)"
  by (simp_all add: Disconnect_def)

lemma resend_all_props:
  assumes "\<forall>k \<in> set ks. outstanding s k"
  shows "outstanding (resend_all t ks s) q \<longleftrightarrow> outstanding s q \<or> q \<in> set (seqs_from (sendSeq s) (length ks))"
    and "sendSeq (resend_all t ks s) = sendSeq s + of_nat (length ks)"
    and "udp_connected (resend_all t ks s) = udp_connected s"
    and "q \<notin> set (seqs_from (sendSeq s) (length ks)) \<Longrightarrow>
      map_of (pendingAckMap (resend_all t ks s)) q = map_of (pendingAckMap s) q"
  using assms
proof (induction ks arbitrary: s)
  case Nil
  { case 1 then show ?case by simp }
  { case 2 then show ?case by simp }
  { case 3 then show ?case by simp }
  { case 4 then show ?case by simp }
next
  case (Cons k ks)
  have step: "\<exists>b. resend_all t (k # ks) s = resend_all t ks (SendReliable b t s)"
    if "\<forall>k' \<in> set (k # ks). outstanding s k'" for s
    using that by (auto simp: outstanding_def)
  have keep: "\<forall>k' \<in> set ks. outstanding (SendReliable b t s) k'"
    if "\<forall>k' \<in> set (k # ks). outstanding s k'" for b s
    using that by (auto simp: outstanding_def)
  { case 1
    then obtain b where b: "resend_all t (k # ks) s = resend_all t ks (SendReliable b t s)"
      using step by blast
    show ?case unfolding b Cons.IH(1) [OF keep [OF 1]] by (auto simp: outstanding_def seqs_from_Suc) }
  { case 2
    then obtain b where b: "resend_all t (k # ks) s = resend_all t ks (SendReliable b t s)"
      using step by blast
    show ?case unfolding b Cons.IH(2) [OF keep [OF 2]] by (simp add: add.assoc) }
  { case 3
    then obtain b where b: "resend_all t (k # ks) s = resend_all t ks (SendReliable b t s)"
      using step by blast
    show ?case unfolding b Cons.IH(3) [OF keep [OF 3]] by simp }
  { case 4
    then obtain b where b: "resend_all t (k # ks) s = resend_all t ks (SendReliable b t s)"
      using step by blast
    have q: "q \<notin> set (seqs_from (sendSeq (SendReliable b t s)) (length ks))" "q \<noteq> sendSeq s"
      using 4(1) by (auto simp: seqs_from_Suc)
    show ?case unfolding b Cons.IH(4) [OF q(1) keep [OF 4(2)]] using q(2) by simp }
qed

definition after_scan :: "fp \<Rightarrow> reliable_udp \<Rightarrow> reliable_udp" where
  "after_scan t s =
     (let s1 = s\<lparr>pendingAckMap :=
        map (\<lambda>(q, pkt). (q, refresh (resendIntervalMs s) t pkt)) (pendingAckMap s)\<rparr>
      in if \<exists>(q, pkt) \<in> set (pendingAckMap s). retryCount (refresh (resendIntervalMs s) t pkt) > 5
         then Disconnect s1 else s1)"

lemma Update_eq: "Update t s = resend_all t (due_keys t s) (after_scan t s)"
  by (simp add: Update_def scan_pending_eq after_scan_def due_keys_def Let_def)

lemma after_scan_simps [simp]:
  "sendSeq (after_scan t s) = sendSeq s" "resendIntervalMs (after_scan t s) = resendIntervalMs s"
  "map_of (pendingAckMap (after_scan t s)) q =
     map_option (refresh (resendIntervalMs s) t) (map_of (pendingAckMap s) q)"
  by (simp_all add: after_scan_def Let_def map_of_refresh)

lemma outstanding_after_scan [simp]: "outstanding (after_scan t s) q \<longleftrightarrow> outstanding s q"
  by (simp add: outstanding_def)

lemma due_keys_outstanding: "k \<in> set (due_keys t s) \<Longrightarrow> outstanding s k"
  by (auto simp: due_keys_def outstanding_def weak_map_of_SomeI)

lemma Update_outstanding:
  "outstanding (Update t s) q \<longleftrightarrow>
   outstanding s q \<or> q \<in> set (seqs_from (sendSeq s) (length (due_keys t s)))"
  unfolding Update_eq
  by (subst resend_all_props(1)) (auto dest: due_keys_outstanding)

lemma Update_old_entry:
  assumes "map_of (pendingAckMap s) q = Some pkt"
    and "q \<notin> set (seqs_from (sendSeq s) (length (due_keys t s)))"
  shows "map_of (pendingAckMap (Update t s)) q = Some (refresh (resendIntervalMs s) t pkt)"
  unfolding Update_eq
  by (subst resend_all_props(4)) (use assms due_keys_outstanding in auto)

lemma Update_gives_up:
  assumes "map_of (pendingAckMap s) q = Some pkt" and "retryCount (refresh (resendIntervalMs s) t pkt) > 5"
  shows "\<not> udp_connected (Update t s)"
proof -
  have "(q, pkt) \<in> set (pendingAckMap s)" using assms(1) by (rule map_of_SomeD)
  then have "\<not> udp_connected (after_scan t s)"
    using assms(2) unfolding after_scan_def Let_def by (auto simp del: Disconnect_simps(1-6))
  then show ?thesis
    unfolding Update_eq by (subst resend_all_props(3)) (auto dest: due_keys_outstanding)
qed

section \<open>Properties\<close>

text \<open>
  C27: A session accepts at most 1024 packets in its whole life, whatever is received: the history has a
  bit per residue modulo 1024 and no operation clears one. When 1024 packets have been accepted, every
  further packet is rejected.
\<close>
theorem history_accepts_at_most_1024:
  assumes "receive_all qs (ReliableUdpSession is_open bytes) = (oks, s)"
  shows "length (filter id oks) \<le> 1024 \<and>
    (length (filter id oks) = 1024 \<longrightarrow> CheckAndRecordReceiveHistory q s = (False, s))"
proof -
  from receive_all_slots [OF assms history_wf_new]
  have s: "history_wf s" "length (filter id oks) + free_slots s = 1024"
    by (simp_all add: HISTORY_SIZE_def)
  then show ?thesis using no_slots_rejects [OF s(1)] by auto
qed

definition seq_sample :: "uint16 list" where
  "seq_sample = [1, 2, 2, 4, 1]"

theorem history_accepts_at_most_1024_witness:
  "\<exists>oks s. receive_all seq_sample (ReliableUdpSession True (\<lambda>_. [])) = (oks, s) \<and>
     length (filter id oks) \<le> 1024"
proof -
  obtain oks s where "receive_all seq_sample (ReliableUdpSession True (\<lambda>_. [])) = (oks, s)" by fastforce
  from this history_accepts_at_most_1024 [OF this] show ?thesis by blast
qed

text \<open>
  No packet is accepted twice: after a sequence number has been accepted, it (and every number
  with the same residue modulo 1024) is rejected however many packets come in between.
\<close>
theorem accepted_never_again:
  assumes "CheckAndRecordReceiveHistory q s = (True, s1)" and "history_wf s"
    and "receive_all qs s1 = (oks, s2)" and "unat q' mod 1024 = unat q mod 1024"
  shows "CheckAndRecordReceiveHistory q' s2 = (False, s2)"
proof (rule recorded_rejected)
  note c = CheckAndRecord_cases [OF assms(1,2)]
  have "recorded s2 q" using receive_all_keeps_recorded [OF assms(3) c(1)] c(3) by simp
  then show "recorded s2 q'"
    using assms(4) by (simp add: recorded_def history_index_def HISTORY_SIZE_def)
qed

theorem accepted_never_again_witness:
  "\<exists>s1 s2. CheckAndRecordReceiveHistory 3 (ReliableUdpSession True (\<lambda>_. [])) = (True, s1) \<and>
     receive_all [5, 4] s1 = ([True, True], s2) \<and> CheckAndRecordReceiveHistory 1027 s2 = (False, s2)"
proof -
  let ?s = "ReliableUdpSession True (\<lambda>_. [])"
  define hist where "hist = replicate 1024 False"
  have h: "length hist = 1024" "\<not> hist ! 3" "\<not> hist ! 4" "\<not> hist ! 5" by (simp_all add: hist_def)
  have s0: "receiveHistory ?s = hist" "latestSeq ?s = 0"
    by (simp_all add: ReliableUdpSession_def HISTORY_SIZE_def hist_def)
  define s1 where "s1 = snd (CheckAndRecordReceiveHistory 3 ?s)"
  define s2 where "s2 = snd (receive_all [5, 4] s1)"
  have a: "CheckAndRecordReceiveHistory 3 ?s = (True, s1)"
    using h s0 by (simp add: s1_def CheckAndRecordReceiveHistory_def history_index_def HISTORY_SIZE_def
        IsSeqGreater_def)
  have l1: "receiveHistory s1 = hist[3 := True]" "latestSeq s1 = 3"
    using h s0 by (simp_all add: s1_def CheckAndRecordReceiveHistory_def history_index_def HISTORY_SIZE_def
        IsSeqGreater_def)
  have b: "receive_all [5, 4] s1 = ([True, True], s2)"
    using h l1 by (simp add: s2_def CheckAndRecordReceiveHistory_def history_index_def HISTORY_SIZE_def
        IsSeqGreater_def)
  have "CheckAndRecordReceiveHistory 1027 s2 = (False, s2)"
    by (rule accepted_never_again [OF a history_wf_new b]) simp
  with a b show ?thesis by blast
qed

text \<open>
  C28: The acknowledgement round trip: when the sender applies the acknowledgement the receiver builds
  for its packet \<open>l\<close>, the packets still waiting are exactly those that waited before, are not \<open>l\<close>,
  and are not among the 32 numbers before \<open>l\<close> that the receiver has recorded.
\<close>
theorem ack_round_trip_exact:
  "outstanding (HandleAck l (GenerateAckBitfield l r) s) q \<longleftrightarrow>
     outstanding s q \<and> q \<noteq> l \<and> \<not> (\<exists>n < 32. q = l - of_nat (Suc n) \<and> recorded r q)"
  unfolding ack.ack_round_trip by auto

text \<open>
  Reliable sends of a fresh session are numbered 1, 2, 3, ... on the wire, with no number used twice
  before 65536 sends, and each stays in the table of unacknowledged packets.
\<close>
theorem reliable_sends_numbered:
  assumes s: "s = send_all ps (ReliableUdpSession True bytes)"
    and "\<forall>(b, t) \<in> set ps. 6 \<le> length (bytes b)" and "length ps \<le> 2 ^ 16"
  shows "map header_sequence (datagrams s) = map (\<lambda>i. 1 + of_nat i) [0..<length ps] \<and>
    distinct (map header_sequence (datagrams s)) \<and>
    (outstanding s q \<longleftrightarrow> q \<in> set (map header_sequence (datagrams s)))"
proof -
  let ?s0 = "ReliableUdpSession True bytes"
  have init: "socket_open ?s0" "buffer_bytes ?s0 = bytes" "sendSeq ?s0 = 1" "datagrams ?s0 = []"
    "\<not> outstanding ?s0 q"
    by (simp_all add: ReliableUdpSession_def outstanding_def)
  from send_all_datagrams [of ?s0 ps] assms(2) init
  have d: "map header_sequence (datagrams s) = seqs_from 1 (length ps)"
    unfolding s by (auto simp: case_prod_beta)
  have "outstanding s q \<longleftrightarrow> q \<in> set (map header_sequence (datagrams s))"
    unfolding d unfolding s send_all_outstanding using init by simp
  with d distinct_seqs_from [OF assms(3)] show ?thesis by (simp add: seqs_from_def)
qed

theorem reliable_sends_numbered_witness:
  "map header_sequence (datagrams (send_all [(0, 0), (1, 0), (0, 0)] (ReliableUdpSession True (\<lambda>_. replicate 6 0))))
     = [1, 2, 3]"
proof -
  have "map header_sequence (datagrams (send_all [(0, 0), (1, 0), (0, 0)] (ReliableUdpSession True (\<lambda>_. replicate 6 0))))
     = map (\<lambda>i. 1 + of_nat i) [0..<length [(0 :: nat, 0 :: fp), (1, 0), (0, 0)]]"
    by (rule reliable_sends_numbered [OF refl, THEN conjunct1]) auto
  also have "\<dots> = [1, 2, 3]" by (simp add: upt_rec)
  finally show ?thesis .
qed

text \<open>
  The resend pass never removes an entry from the table: what was waiting still waits, and one new
  entry under a fresh sequence number is added for each packet that is due.
\<close>
theorem Update_only_grows:
  "outstanding (Update t s) q \<longleftrightarrow>
     outstanding s q \<or> (\<exists>i < length (due_keys t s). q = sendSeq s + of_nat i)"
  unfolding Update_outstanding by (auto simp: seqs_from_def)

text \<open>
  A packet the pass has found due five times before is given up on the sixth: its entry survives the
  passes with its retry count, even though every copy is sent, and acknowledged, under another number.
\<close>
theorem Update_disconnects_after_five_retries:
  assumes "map_of (pendingAckMap s) q = Some pkt" and "is_due (resendIntervalMs s) t pkt"
    and "retryCount pkt = of_nat n" and "n \<le> 5"
    and "\<not> (\<exists>i < length (due_keys t s). q = sendSeq s + of_nat i)"
  shows "map_of (pendingAckMap (Update t s)) q =
      Some (pkt\<lparr>pkt_timestamp := t, retryCount := of_nat (Suc n)\<rparr>) \<and>
    (n = 5 \<longrightarrow> \<not> udp_connected (Update t s))"
proof -
  have "q \<notin> set (seqs_from (sendSeq s) (length (due_keys t s)))"
    using assms(5) by (auto simp: seqs_from_def)
  from Update_old_entry [OF assms(1) this] assms(2,3)
  have "map_of (pendingAckMap (Update t s)) q = Some (pkt\<lparr>pkt_timestamp := t, retryCount := of_nat (Suc n)\<rparr>)"
    by (simp add: refresh_def add.commute)
  moreover have "retryCount (refresh (resendIntervalMs s) t pkt) > 5" if "n = 5"
    using assms(2,3) that by (simp add: refresh_def)
  ultimately show ?thesis using Update_gives_up [OF assms(1)] by blast
qed

definition late_session :: reliable_udp where
  "late_session = (ReliableUdpSession True (\<lambda>_. replicate 6 0))
     \<lparr>udp_connected := True, sendSeq := 9, pendingAckMap :=
        [(3, \<lparr>pkt_buffer = 0, pkt_sequence = 3, pkt_timestamp = 0, retryCount = 5\<rparr>)]\<rparr>"

theorem Update_disconnects_after_five_retries_witness:
  "udp_connected late_session \<and> \<not> udp_connected (Update 1 late_session)"
proof -
  have due: "is_due (resendIntervalMs late_session) 1 \<lparr>pkt_buffer = 0, pkt_sequence = 3, pkt_timestamp = 0, retryCount = 5\<rparr>"
    using f32_tenth_bounds by (simp add: is_due_def elapsed_def late_session_def ReliableUdpSession_def)
  have "length (due_keys 1 late_session) \<le> 1"
    by (simp add: due_keys_def late_session_def)
  then have "i < length (due_keys 1 late_session) \<Longrightarrow> i = 0" for i by simp
  moreover have "sendSeq late_session = 9" by (simp add: late_session_def)
  ultimately have fresh: "\<not> (\<exists>i < length (due_keys 1 late_session). 3 = sendSeq late_session + of_nat i)"
    by fastforce
  have "\<not> udp_connected (Update 1 late_session)"
    using Update_disconnects_after_five_retries [OF _ due, where q = 3 and n = 5] fresh
    by (simp add: late_session_def)
  then show ?thesis by (simp add: late_session_def)
qed

end
