(* ===== verification/Tcp_Session.thy ===== *)
theory Tcp_Session
  imports Framing
begin

text \<open>
  \<open>TcpSession\<close> (\<open>ClientNetworkCore/Session.h\<close>, \<open>Session.cpp\<close>). A send buffer is the list of bytes
  between its start and its write size; a session's operations that call \<open>boost::asio\<close> leave an
  outstanding operation in the state, which a later step completes with success or an error. The
  virtual callbacks a subclass overrides (\<open>OnConnected\<close>, \<open>OnRecv\<close>, \<open>OnDisconnected\<close>; \<open>OnSend\<close> does
  nothing in the client) are parameters: they act on the application state \<open>app\<close> and return the
  buffers they pass to \<open>Send\<close>. Handlers are atomic, except that \<open>Send\<close> called from another
  thread is cut between its critical section and its call of \<open>RegisterSend\<close>, where the lock is not
  held.
\<close>

section \<open>State\<close>

record 'a tcp_session =
  connected :: bool
  socket_is_open :: bool
  remote_port :: nat
  sendRegistered :: bool
  sendQueue :: "BYTE list list"
  currentSendBuffers :: "BYTE list list"
  recvBuffer :: recv_buffer
  in_service :: bool                       \<comment> \<open>member of the service's \<open>_tcpSessions\<close>\<close>
  service_count :: int32                   \<comment> \<open>the service's \<open>_tcpSessionCount\<close>\<close>
  app :: 'a
  connecting :: bool                       \<comment> \<open>an \<open>async_connect\<close> is outstanding\<close>
  writes :: "BYTE list list list"          \<comment> \<open>the outstanding \<open>async_write\<close>s\<close>
  receiving :: nat                         \<comment> \<open>the number of outstanding \<open>async_receive\<close>s\<close>
  registering :: nat                       \<comment> \<open>threads between \<open>Send\<close>'s lock and its \<open>RegisterSend\<close>\<close>
  wire :: "BYTE list"                      \<comment> \<open>ghost: bytes of completed writes\<close>
  accepted :: "BYTE list list"             \<comment> \<open>ghost: buffers \<open>Send\<close> put into the queue\<close>
  write_failed :: bool                     \<comment> \<open>ghost: some write has failed\<close>
  received :: "BYTE list"                  \<comment> \<open>ghost: bytes the socket has received\<close>
  delivered :: "BYTE list list"            \<comment> \<open>ghost: packets handed to \<open>OnRecv\<close>\<close>

definition TCP_BUFFER_SIZE :: int32 where
  "TCP_BUFFER_SIZE = 0x10000"

definition TcpSession :: "nat \<Rightarrow> 'a \<Rightarrow> 'a tcp_session" where
  "TcpSession port a =
     \<lparr>connected = False, socket_is_open = False, remote_port = port, sendRegistered = False,
      sendQueue = [], currentSendBuffers = [], recvBuffer = RecvBuffer TCP_BUFFER_SIZE,
      in_service = False, service_count = 0, app = a, connecting = False, writes = [], receiving = 0,
      registering = 0, wire = [], accepted = [], write_failed = False, received = [], delivered = []\<rparr>"

section \<open>Sending\<close>

definition tcp_RegisterSend :: "'a tcp_session \<Rightarrow> 'a tcp_session" where
  "tcp_RegisterSend s =
     (if connected s = False \<or> socket_is_open s = False then s
      else if sendQueue s = [] then s\<lparr>currentSendBuffers := []\<rparr>
      else let buffers = filter (\<lambda>b. b \<noteq> []) (sendQueue s)
           in s\<lparr>currentSendBuffers := buffers, sendQueue := [], writes := writes s @ [buffers]\<rparr>)"

text \<open>The critical section of \<open>Send\<close>; the result tells whether the caller must register the send.\<close>

definition tcp_Send_enqueue :: "BYTE list \<Rightarrow> 'a tcp_session \<Rightarrow> bool \<times> 'a tcp_session" where
  "tcp_Send_enqueue b s =
     (if connected s = False then (False, s)
      else (sendRegistered s = False,
            s\<lparr>sendQueue := sendQueue s @ [b], sendRegistered := True, accepted := accepted s @ [b]\<rparr>))"

definition tcp_Send :: "BYTE list \<Rightarrow> 'a tcp_session \<Rightarrow> 'a tcp_session" where
  "tcp_Send b s =
     (let (registerSend, s1) = tcp_Send_enqueue b s
      in if registerSend then tcp_RegisterSend s1 else s1)"

fun tcp_Send_all :: "BYTE list list \<Rightarrow> 'a tcp_session \<Rightarrow> 'a tcp_session" where
  "tcp_Send_all [] s = s"
| "tcp_Send_all (b # bs) s = tcp_Send_all bs (tcp_Send b s)"

section \<open>Connecting and disconnecting\<close>

definition ReleaseTcpSession :: "'a tcp_session \<Rightarrow> 'a tcp_session res" where
  "ReleaseTcpSession s =
     assert_crash (in_service s) (Inr (s\<lparr>in_service := False, service_count := service_count s - 1\<rparr>))"

definition AddTcpSession :: "'a tcp_session \<Rightarrow> 'a tcp_session" where
  "AddTcpSession s = s\<lparr>service_count := service_count s + 1, in_service := True\<rparr>"

definition tcp_ProcessDisconnect :: "('a \<Rightarrow> 'a) \<Rightarrow> 'a tcp_session \<Rightarrow> 'a tcp_session res" where
  "tcp_ProcessDisconnect on_disconnected s =
     and_then (ReleaseTcpSession (s\<lparr>connected := False, app := on_disconnected (app s)\<rparr>))
       (\<lambda>s. Inr (s\<lparr>sendQueue := [], currentSendBuffers := [], sendRegistered := False\<rparr>))"

text \<open>\<open>close_ok\<close> is what \<open>_socket.close(ec)\<close> reports; the cancelled operations stay outstanding.\<close>

definition tcp_RegisterDisconnect ::
  "('a \<Rightarrow> 'a) \<Rightarrow> bool \<Rightarrow> 'a tcp_session \<Rightarrow> 'a tcp_session res" where
  "tcp_RegisterDisconnect on_disconnected close_ok s =
     (if socket_is_open s
      then let s1 = s\<lparr>socket_is_open := False\<rparr>
           in if close_ok then tcp_ProcessDisconnect on_disconnected s1 else Inr s1
      else Inr s)"

definition tcp_Disconnect :: "('a \<Rightarrow> 'a) \<Rightarrow> bool \<Rightarrow> 'a tcp_session \<Rightarrow> 'a tcp_session res" where
  "tcp_Disconnect on_disconnected close_ok s =
     (if connected s = False then Inr s
      else tcp_RegisterDisconnect on_disconnected close_ok (s\<lparr>connected := False\<rparr>))"

definition tcp_RegisterConnect :: "'a tcp_session \<Rightarrow> 'a tcp_session" where
  "tcp_RegisterConnect s =
     (let s1 = s\<lparr>socket_is_open := True\<rparr>
      in if remote_port s1 = 0 then s1 else s1\<lparr>connecting := True\<rparr>)"

definition tcp_Connect :: "'a tcp_session \<Rightarrow> 'a tcp_session" where
  "tcp_Connect s = tcp_RegisterConnect s"

definition tcp_RegisterRecv :: "'a tcp_session \<Rightarrow> 'a tcp_session" where
  "tcp_RegisterRecv s =
     (if \<not> connected s \<or> \<not> socket_is_open s then s else s\<lparr>receiving := Suc (receiving s)\<rparr>)"

definition tcp_ProcessConnect :: "('a \<Rightarrow> BYTE list list \<times> 'a) \<Rightarrow> 'a tcp_session \<Rightarrow> 'a tcp_session" where
  "tcp_ProcessConnect on_connected s =
     (let s1 = AddTcpSession (s\<lparr>connected := True\<rparr>);
          (out, a) = on_connected (app s1)
      in tcp_RegisterRecv (tcp_Send_all out (s1\<lparr>app := a\<rparr>)))"

section \<open>Completions\<close>

definition tcp_ProcessSend :: "('a \<Rightarrow> 'a) \<Rightarrow> bool \<Rightarrow> nat \<Rightarrow> 'a tcp_session \<Rightarrow> 'a tcp_session res" where
  "tcp_ProcessSend on_disconnected close_ok numOfBytes s =
     (if numOfBytes = 0 then tcp_Disconnect on_disconnected close_ok s
      else if sendQueue s = [] then Inr (s\<lparr>sendRegistered := False\<rparr>)
      else Inr (tcp_RegisterSend s))"

text \<open>The handler of \<open>async_write\<close> for the outstanding write \<open>bufs\<close>, on success and on error.\<close>

definition write_succeeded ::
  "('a \<Rightarrow> 'a) \<Rightarrow> bool \<Rightarrow> BYTE list list \<Rightarrow> 'a tcp_session \<Rightarrow> 'a tcp_session res" where
  "write_succeeded on_disconnected close_ok bufs s =
     tcp_ProcessSend on_disconnected close_ok (length (concat bufs))
       (s\<lparr>writes := remove1 bufs (writes s), wire := wire s @ concat bufs\<rparr>)"

definition write_error :: "BYTE list list \<Rightarrow> nat \<Rightarrow> 'a tcp_session \<Rightarrow> 'a tcp_session" where
  "write_error bufs sent s =
     s\<lparr>writes := remove1 bufs (writes s), wire := wire s @ take sent (concat bufs), write_failed := True,
       sendQueue := sendQueue s @ currentSendBuffers s, currentSendBuffers := []\<rparr>"

fun deliver_all ::
  "(BYTE list \<Rightarrow> 'a \<Rightarrow> BYTE list list \<times> 'a) \<Rightarrow> BYTE list list \<Rightarrow> 'a tcp_session \<Rightarrow> 'a tcp_session" where
  "deliver_all on_recv [] s = s"
| "deliver_all on_recv (p # ps) s =
     (let (out, a) = on_recv p (app s)
      in deliver_all on_recv ps (tcp_Send_all out (s\<lparr>app := a, delivered := delivered s @ [p]\<rparr>)))"

definition tcp_ProcessRecv ::
  "(BYTE list \<Rightarrow> 'a \<Rightarrow> BYTE list list \<times> 'a) \<Rightarrow> ('a \<Rightarrow> 'a) \<Rightarrow> bool \<Rightarrow> nat \<Rightarrow> 'a tcp_session \<Rightarrow> 'a tcp_session res"
  where
  "tcp_ProcessRecv on_recv on_disconnected close_ok numOfBytes s =
     (if numOfBytes = 0 then tcp_Disconnect on_disconnected close_ok s
      else case OnWrite (int numOfBytes) (recvBuffer s) of
          (False, rb) \<Rightarrow> tcp_Disconnect on_disconnected close_ok s
        | (True, rb) \<Rightarrow>
            (let dataSize = DataSize rb;
                 (packets, processLen) = parse TcpPacketHeader (pending rb);
                 s1 = deliver_all on_recv packets (s\<lparr>recvBuffer := rb\<rparr>);
                 (read_ok, rb1) = OnRead (int processLen) rb
             in if dataSize < int processLen \<or> \<not> read_ok then tcp_Disconnect on_disconnected close_ok s1
                else and_then (Clean rb1) (\<lambda>rb2. Inr (tcp_RegisterRecv (s1\<lparr>recvBuffer := rb2\<rparr>)))))"

text \<open>The handler of \<open>async_receive\<close>: the socket has put \<open>bytes\<close> at \<open>WritePos()\<close>.\<close>

definition recv_succeeded ::
  "(BYTE list \<Rightarrow> 'a \<Rightarrow> BYTE list list \<times> 'a) \<Rightarrow> ('a \<Rightarrow> 'a) \<Rightarrow> bool \<Rightarrow> BYTE list \<Rightarrow> 'a tcp_session \<Rightarrow> 'a tcp_session res"
  where
  "recv_succeeded on_recv on_disconnected close_ok bytes s =
     tcp_ProcessRecv on_recv on_disconnected close_ok (length bytes)
       (s\<lparr>receiving := receiving s - 1, recvBuffer := socket_fill bytes (recvBuffer s),
          received := received s @ bytes\<rparr>)"

definition recv_error :: "('a \<Rightarrow> 'a) \<Rightarrow> bool \<Rightarrow> 'a tcp_session \<Rightarrow> 'a tcp_session res" where
  "recv_error on_disconnected close_ok s =
     tcp_Disconnect on_disconnected close_ok (s\<lparr>receiving := receiving s - 1\<rparr>)"

definition connect_done :: "('a \<Rightarrow> BYTE list list \<times> 'a) \<Rightarrow> bool \<Rightarrow> 'a tcp_session \<Rightarrow> 'a tcp_session" where
  "connect_done on_connected ok s =
     (let s1 = s\<lparr>connecting := False\<rparr> in if ok then tcp_ProcessConnect on_connected s1 else s1)"

section \<open>Runs\<close>

text \<open>
  What can happen to a session after \<open>Connect\<close>: the connect attempt ends; a thread queues a buffer
  and later registers the send; a write or a receive ends, well or badly; somebody disconnects. A
  receive never yields more bytes than the room it was given.
\<close>

inductive tcp_step ::
  "('a \<Rightarrow> BYTE list list \<times> 'a) \<Rightarrow> (BYTE list \<Rightarrow> 'a \<Rightarrow> BYTE list list \<times> 'a) \<Rightarrow> ('a \<Rightarrow> 'a) \<Rightarrow>
   'a tcp_session \<Rightarrow> 'a tcp_session \<Rightarrow> bool" for oc orv od where
  step_connect_done: "connecting s \<Longrightarrow> tcp_step oc orv od s (connect_done oc ok s)"
| step_enqueue: "tcp_Send_enqueue b s = (r, s1) \<Longrightarrow>
    tcp_step oc orv od s (if r then s1\<lparr>registering := Suc (registering s1)\<rparr> else s1)"
| step_register: "0 < registering s \<Longrightarrow>
    tcp_step oc orv od s (tcp_RegisterSend (s\<lparr>registering := registering s - 1\<rparr>))"
| step_write_ok: "bufs \<in> set (writes s) \<Longrightarrow> write_succeeded od close_ok bufs s = Inr s' \<Longrightarrow>
    tcp_step oc orv od s s'"
| step_write_error: "bufs \<in> set (writes s) \<Longrightarrow> tcp_step oc orv od s (write_error bufs sent s)"
| step_recv_ok: "0 < receiving s \<Longrightarrow> int (length bytes) \<le> FreeSize (recvBuffer s) \<Longrightarrow>
    recv_succeeded orv od close_ok bytes s = Inr s' \<Longrightarrow> tcp_step oc orv od s s'"
| step_recv_error: "0 < receiving s \<Longrightarrow> recv_error od close_ok s = Inr s' \<Longrightarrow> tcp_step oc orv od s s'"
| step_disconnect: "tcp_Disconnect od close_ok s = Inr s' \<Longrightarrow> tcp_step oc orv od s s'"

inductive tcp_reachable ::
  "('a \<Rightarrow> BYTE list list \<times> 'a) \<Rightarrow> (BYTE list \<Rightarrow> 'a \<Rightarrow> BYTE list list \<times> 'a) \<Rightarrow> ('a \<Rightarrow> 'a) \<Rightarrow>
   'a tcp_session \<Rightarrow> 'a tcp_session \<Rightarrow> bool" for oc orv od s0 where
  tcp_init: "tcp_reachable oc orv od s0 s0"
| tcp_next: "tcp_reachable oc orv od s0 s \<Longrightarrow> tcp_step oc orv od s s' \<Longrightarrow> tcp_reachable oc orv od s0 s'"

section \<open>The sending side\<close>

text \<open>
  While the session is connected, the flag \<open>_sendRegistered\<close> stands for one token: one thread about
  to register a send, or one outstanding write, never both. A failed write loses the token and
  leaves the flag set.
\<close>

definition send_ok :: "'a tcp_session \<Rightarrow> bool" where
  "send_ok s \<longleftrightarrow>
     connected s \<and> socket_is_open s \<and> in_service s \<and>
     length (writes s) + registering s = (if sendRegistered s \<and> \<not> write_failed s then 1 else 0) \<and>
     (write_failed s \<longrightarrow> sendRegistered s) \<and> (sendQueue s \<noteq> [] \<longrightarrow> sendRegistered s) \<and>
     (0 < registering s \<longrightarrow> sendQueue s \<noteq> []) \<and>
     (\<forall>w \<in> set (writes s). w = currentSendBuffers s) \<and>
     (\<not> write_failed s \<longrightarrow>
        concat (accepted s) = wire s @ concat (concat (writes s)) @ concat (sendQueue s))"

definition fresh_session :: "'a tcp_session \<Rightarrow> bool" where
  "fresh_session s \<longleftrightarrow>
     \<not> connected s \<and> socket_is_open s \<and> \<not> in_service s \<and> writes s = [] \<and> registering s = 0 \<and>
     \<not> write_failed s \<and> \<not> sendRegistered s \<and> sendQueue s = [] \<and> accepted s = [] \<and> wire s = [] \<and>
     receiving s = 0"

definition tcp_send_inv :: "'a tcp_session \<Rightarrow> bool" where
  "tcp_send_inv s \<longleftrightarrow>
     (connected s \<longrightarrow> send_ok s \<and> \<not> connecting s) \<and> (connecting s \<longrightarrow> fresh_session s) \<and>
     service_count s = (if in_service s then 1 else 0)"

lemma concat_nonempty: "concat (filter (\<lambda>b. b \<noteq> []) bs) = concat bs"
  by (induction bs) auto

lemma single_write: "length ws + r = (if b then 1 else 0) \<Longrightarrow> w \<in> set ws \<Longrightarrow> ws = [w] \<and> r = 0 \<and> b"
  by (cases ws) (auto split: if_splits)

lemma RegisterSend_ok:
  assumes "connected s" "socket_is_open s" "in_service s" "sendQueue s \<noteq> []" "writes s = []"
    "registering s = 0" "sendRegistered s" "\<not> write_failed s"
    "concat (accepted s) = wire s @ concat (sendQueue s)"
  shows "send_ok (tcp_RegisterSend s)"
  using assms by (simp add: send_ok_def tcp_RegisterSend_def Let_def concat_nonempty)

lemma RegisterSend_frame [simp]:
  "connected (tcp_RegisterSend s) = connected s" "connecting (tcp_RegisterSend s) = connecting s"
  "service_count (tcp_RegisterSend s) = service_count s" "in_service (tcp_RegisterSend s) = in_service s"
  "recvBuffer (tcp_RegisterSend s) = recvBuffer s" "received (tcp_RegisterSend s) = received s"
  "delivered (tcp_RegisterSend s) = delivered s" "receiving (tcp_RegisterSend s) = receiving s"
  by (simp_all add: tcp_RegisterSend_def Let_def)

lemma Send_frame [simp]:
  "connected (tcp_Send b s) = connected s" "connecting (tcp_Send b s) = connecting s"
  "service_count (tcp_Send b s) = service_count s" "in_service (tcp_Send b s) = in_service s"
  "recvBuffer (tcp_Send b s) = recvBuffer s" "received (tcp_Send b s) = received s"
  "delivered (tcp_Send b s) = delivered s" "receiving (tcp_Send b s) = receiving s"
  by (simp_all add: tcp_Send_def tcp_Send_enqueue_def)

lemma Send_not_connected: "\<not> connected s \<Longrightarrow> tcp_Send b s = s"
  by (simp add: tcp_Send_def tcp_Send_enqueue_def)

lemma Send_ok:
  assumes "send_ok s"
  shows "send_ok (tcp_Send b s)"
proof (cases "sendRegistered s")
  case True
  then show ?thesis using assms by (simp add: tcp_Send_def tcp_Send_enqueue_def send_ok_def)
next
  case False
  then show ?thesis
    using assms unfolding tcp_Send_def tcp_Send_enqueue_def
    by (auto simp: send_ok_def [of s] intro!: RegisterSend_ok)
qed

lemma Send_inv: "tcp_send_inv s \<Longrightarrow> tcp_send_inv (tcp_Send b s)"
  by (cases "connected s") (auto simp: tcp_send_inv_def Send_ok Send_not_connected)

lemma Send_all_inv: "tcp_send_inv s \<Longrightarrow> tcp_send_inv (tcp_Send_all bs s)"
  by (induction bs s rule: tcp_Send_all.induct) (simp_all add: Send_inv)

lemma Send_all_frame [simp]:
  "connected (tcp_Send_all bs s) = connected s" "connecting (tcp_Send_all bs s) = connecting s"
  "recvBuffer (tcp_Send_all bs s) = recvBuffer s" "received (tcp_Send_all bs s) = received s"
  "delivered (tcp_Send_all bs s) = delivered s" "receiving (tcp_Send_all bs s) = receiving s"
  by (induction bs s rule: tcp_Send_all.induct) simp_all

text \<open>Fields the sending side does not look at.\<close>

lemma tcp_send_inv_frame [simp]:
  "tcp_send_inv (s\<lparr>app := a\<rparr>) \<longleftrightarrow> tcp_send_inv s"
  "tcp_send_inv (s\<lparr>delivered := d\<rparr>) \<longleftrightarrow> tcp_send_inv s"
  "tcp_send_inv (s\<lparr>received := r\<rparr>) \<longleftrightarrow> tcp_send_inv s"
  "tcp_send_inv (s\<lparr>recvBuffer := rb\<rparr>) \<longleftrightarrow> tcp_send_inv s"
  by (simp_all add: tcp_send_inv_def send_ok_def fresh_session_def)

lemma tcp_send_inv_receiving:
  "tcp_send_inv s \<Longrightarrow> receiving s = 0 \<longrightarrow> n = 0 \<or> connected s \<Longrightarrow> tcp_send_inv (s\<lparr>receiving := n\<rparr>)"
  by (auto simp: tcp_send_inv_def send_ok_def fresh_session_def)

lemma RegisterRecv_inv: "tcp_send_inv s \<Longrightarrow> tcp_send_inv (tcp_RegisterRecv s)"
  by (auto simp: tcp_RegisterRecv_def intro: tcp_send_inv_receiving)

lemma tcp_Disconnect_offline: "\<not> connected s \<Longrightarrow> tcp_Disconnect od close_ok s = Inr s"
  by (simp add: tcp_Disconnect_def)

lemma tcp_Disconnect_online:
  assumes "connected s" and "in_service s" and "service_count s = 1"
  shows "\<exists>s'. tcp_Disconnect od close_ok s = Inr s' \<and> \<not> connected s' \<and> connecting s' = connecting s \<and>
    service_count s' = (if in_service s' then 1 else 0) \<and> recvBuffer s' = recvBuffer s \<and>
    received s' = received s \<and> delivered s' = delivered s \<and> receiving s' = receiving s \<and> wire s' = wire s"
  using assms
  by (cases "socket_is_open s"; cases close_ok)
    (simp_all add: tcp_Disconnect_def tcp_RegisterDisconnect_def tcp_ProcessDisconnect_def
      ReleaseTcpSession_def Let_def)

lemma tcp_Disconnect_frame:
  assumes "tcp_Disconnect od close_ok s = Inr s'"
  shows "recvBuffer s' = recvBuffer s" "received s' = received s" "delivered s' = delivered s"
    "receiving s' = receiving s" "connecting s' = connecting s" "wire s' = wire s" "writes s' = writes s"
    "registering s' = registering s" "connected s' \<Longrightarrow> s' = s"
  using assms
  by (cases "connected s"; cases "socket_is_open s"; cases close_ok; cases "in_service s";
      auto simp: tcp_Disconnect_def tcp_RegisterDisconnect_def tcp_ProcessDisconnect_def
        ReleaseTcpSession_def Let_def)+

lemma tcp_Disconnect_cases:
  assumes "tcp_send_inv s" and "tcp_Disconnect od close_ok s = r"
  shows "\<exists>s'. r = Inr s' \<and> (s' = s \<or> connected s \<and> \<not> connected s' \<and> \<not> connecting s' \<and>
    service_count s' = (if in_service s' then 1 else 0)) \<and> recvBuffer s' = recvBuffer s \<and>
    received s' = received s \<and> delivered s' = delivered s \<and> receiving s' = receiving s \<and> wire s' = wire s"
proof (cases "connected s")
  case False
  then show ?thesis using assms(2) tcp_Disconnect_offline by auto
next
  case True
  then have "in_service s" "service_count s = 1" "\<not> connecting s"
    using assms(1) by (auto simp: tcp_send_inv_def send_ok_def)
  from tcp_Disconnect_online [OF True this(1,2), of od close_ok] this(3) assms(2) True
  show ?thesis by blast
qed

lemma tcp_Disconnect_inv:
  assumes "tcp_send_inv s" and "tcp_Disconnect od close_ok s = Inr s'"
  shows "tcp_send_inv s'"
  using tcp_Disconnect_cases [OF assms] assms(1) unfolding tcp_send_inv_def by blast

lemma enqueue_inv:
  assumes inv: "tcp_send_inv s" and step: "tcp_Send_enqueue b s = (r, s1)"
  shows "tcp_send_inv (if r then s1\<lparr>registering := Suc (registering s1)\<rparr> else s1)"
proof (cases "connected s")
  case False
  then show ?thesis using assms by (auto simp: tcp_Send_enqueue_def)
next
  case True
  then have ok: "send_ok s" using inv by (simp add: tcp_send_inv_def)
  have s1: "r = (\<not> sendRegistered s)"
    "s1 = s\<lparr>sendQueue := sendQueue s @ [b], sendRegistered := True, accepted := accepted s @ [b]\<rparr>"
    using step True by (auto simp: tcp_Send_enqueue_def)
  have "send_ok (if r then s1\<lparr>registering := Suc (registering s1)\<rparr> else s1)"
  proof (cases "sendRegistered s")
    case True
    then show ?thesis using ok s1 by (simp add: send_ok_def)
  next
    case False
    then have "writes s = []" "registering s = 0" "\<not> write_failed s" using ok by (auto simp: send_ok_def)
    then show ?thesis using ok s1 False by (simp add: send_ok_def)
  qed
  then show ?thesis using inv s1 True by (auto simp: tcp_send_inv_def)
qed

lemma register_inv:
  assumes inv: "tcp_send_inv s" and r: "0 < registering s"
  shows "tcp_send_inv (tcp_RegisterSend (s\<lparr>registering := registering s - 1\<rparr>))"
proof (cases "connected s")
  case False
  then show ?thesis
    using assms by (auto simp: tcp_RegisterSend_def tcp_send_inv_def fresh_session_def)
next
  case True
  then have ok: "send_ok s" using inv by (simp add: tcp_send_inv_def)
  then have "writes s = []" "registering s = 1" "sendRegistered s" "\<not> write_failed s"
    using r by (cases "writes s"; auto simp: send_ok_def split: if_splits)+
  then have "send_ok (tcp_RegisterSend (s\<lparr>registering := registering s - 1\<rparr>))"
    using ok by (intro RegisterSend_ok) (auto simp: send_ok_def)
  then show ?thesis using inv True by (simp add: tcp_send_inv_def)
qed

lemma write_succeeded_inv:
  assumes inv: "tcp_send_inv s" and w: "bufs \<in> set (writes s)"
    and step: "write_succeeded od close_ok bufs s = Inr s'"
  shows "tcp_send_inv s'"
proof (cases "connected s")
  case False
  then have "tcp_send_inv (s\<lparr>writes := remove1 bufs (writes s), wire := wire s @ concat bufs\<rparr>)"
    and "\<not> connecting s"
    using inv w by (auto simp: tcp_send_inv_def fresh_session_def)
  with False show ?thesis
    using step by (auto simp: write_succeeded_def tcp_ProcessSend_def tcp_RegisterSend_def
        tcp_Disconnect_offline tcp_send_inv_def split: if_splits)
next
  case True
  then have ok: "send_ok s" and nc: "\<not> connecting s" and cnt: "service_count s = (if in_service s then 1 else 0)"
    using inv by (auto simp: tcp_send_inv_def)
  have one: "writes s = [bufs] \<and> registering s = 0 \<and> (sendRegistered s \<and> \<not> write_failed s)"
    using ok w by (intro single_write) (auto simp: send_ok_def)
  let ?s = "s\<lparr>writes := remove1 bufs (writes s), wire := wire s @ concat bufs\<rparr>"
  show ?thesis
  proof (cases "length (concat bufs) = 0")
    case True
    then have "tcp_Disconnect od close_ok ?s = Inr s'"
      using step by (simp add: write_succeeded_def tcp_ProcessSend_def)
    moreover have "connected ?s" "in_service ?s" "service_count ?s = 1"
      using ok cnt by (simp_all add: send_ok_def)
    ultimately have "\<not> connected s'" "\<not> connecting s'" "service_count s' = (if in_service s' then 1 else 0)"
      using tcp_Disconnect_online [of ?s od close_ok] nc by auto
    then show ?thesis by (simp add: tcp_send_inv_def)
  next
    case False
    show ?thesis
    proof (cases "sendQueue s = []")
      case True
      then have "s' = ?s\<lparr>sendRegistered := False\<rparr>"
        using step False by (auto simp: write_succeeded_def tcp_ProcessSend_def split: if_splits)
      then show ?thesis
        using ok one nc cnt True by (auto simp: tcp_send_inv_def send_ok_def)
    next
      case q: False
      then have s': "s' = tcp_RegisterSend ?s"
        using step False by (auto simp: write_succeeded_def tcp_ProcessSend_def split: if_splits)
      have "send_ok s'"
        unfolding s' using ok one q by (intro RegisterSend_ok) (auto simp: send_ok_def)
      then show ?thesis using nc cnt s' by (simp add: tcp_send_inv_def)
    qed
  qed
qed

lemma write_error_inv:
  assumes inv: "tcp_send_inv s" and w: "bufs \<in> set (writes s)"
  shows "tcp_send_inv (write_error bufs sent s)"
proof (cases "connected s")
  case False
  then show ?thesis using inv w by (auto simp: write_error_def tcp_send_inv_def fresh_session_def)
next
  case True
  then have ok: "send_ok s" using inv by (simp add: tcp_send_inv_def)
  have "writes s = [bufs] \<and> registering s = 0 \<and> (sendRegistered s \<and> \<not> write_failed s)"
    using ok w by (intro single_write) (auto simp: send_ok_def)
  then show ?thesis
    using inv ok True by (auto simp: write_error_def tcp_send_inv_def send_ok_def)
qed

lemma connect_done_inv:
  assumes inv: "tcp_send_inv s" and c: "connecting s"
  shows "tcp_send_inv (connect_done oc ok s)"
proof -
  have f: "fresh_session s" and cnt: "service_count s = 0"
    using inv c by (auto simp: tcp_send_inv_def fresh_session_def)
  have base: "tcp_send_inv (s\<lparr>connecting := False, connected := True, service_count := 1, in_service := True\<rparr>)"
    using f by (simp add: tcp_send_inv_def send_ok_def fresh_session_def)
  obtain out a where oc: "oc (app s) = (out, a)" by fastforce
  show ?thesis
  proof (cases ok)
    case True
    then have "connect_done oc ok s = tcp_RegisterRecv (tcp_Send_all out
        ((s\<lparr>connecting := False, connected := True, service_count := 1, in_service := True\<rparr>)\<lparr>app := a\<rparr>))"
      using oc cnt by (simp add: connect_done_def tcp_ProcessConnect_def AddTcpSession_def Let_def)
    then show ?thesis
      using base by (simp add: RegisterRecv_inv Send_all_inv del: tcp_session.simps)
  next
    case False
    then show ?thesis
      using f cnt by (simp add: connect_done_def tcp_send_inv_def fresh_session_def)
  qed
qed

section \<open>The receiving side\<close>

text \<open>The packets delivered so far are those of the bytes received so far, and the rest is pending.\<close>

definition tcp_recv_inv :: "'a tcp_session \<Rightarrow> bool" where
  "tcp_recv_inv s \<longleftrightarrow>
     rb_inv (recvBuffer s) \<and> receiving s \<le> 1 \<and> (connecting s \<longrightarrow> receiving s = 0) \<and>
     (\<exists>n \<le> length (received s). parse TcpPacketHeader (received s) = (delivered s, n) \<and>
        pending (recvBuffer s) = drop n (received s))"

lemma deliver_all_frame [simp]:
  "connected (deliver_all orv ps s) = connected s" "connecting (deliver_all orv ps s) = connecting s"
  "recvBuffer (deliver_all orv ps s) = recvBuffer s" "received (deliver_all orv ps s) = received s"
  "receiving (deliver_all orv ps s) = receiving s" "delivered (deliver_all orv ps s) = delivered s @ ps"
  by (induction orv ps s rule: deliver_all.induct) (simp_all add: case_prod_beta Let_def)

lemma deliver_all_send_inv: "tcp_send_inv s \<Longrightarrow> tcp_send_inv (deliver_all orv ps s)"
proof (induction orv ps s rule: deliver_all.induct)
  case (2 orv p ps s)
  obtain out a where "orv p (app s) = (out, a)" by fastforce
  with 2 show ?case
    using Send_all_inv [of "(s\<lparr>app := a\<rparr>)\<lparr>delivered := delivered s @ [p]\<rparr>" out]
    by (simp del: tcp_session.update_convs)
qed simp

lemma store_Nil [simp]: "store k [] buf = buf"
  by (simp add: store_def)

lemma socket_fill_Nil [simp]: "socket_fill [] rb = rb"
  by (simp add: socket_fill_def)

text \<open>The state after a receive, when the bytes fit into the room that was offered.\<close>

definition recv_outcome ::
  "(BYTE list \<Rightarrow> 'a \<Rightarrow> BYTE list list \<times> 'a) \<Rightarrow> BYTE list \<Rightarrow> BYTE list list \<Rightarrow> recv_buffer \<Rightarrow> recv_buffer \<Rightarrow>
   'a tcp_session \<Rightarrow> 'a tcp_session" where
  "recv_outcome orv bytes packets rb rb2 s =
     tcp_RegisterRecv ((deliver_all orv packets (s\<lparr>receiving := receiving s - 1,
       received := received s @ bytes, recvBuffer := rb\<rparr>))\<lparr>recvBuffer := rb2\<rparr>)"

lemma recv_succeeded_result:
  assumes inv: "rb_inv (recvBuffer s)" and fits: "int (length bytes) \<le> FreeSize (recvBuffer s)"
    and bytes: "bytes \<noteq> []"
  shows "\<exists>rb rb1 packets n. rb_inv rb1 \<and>
      parse TcpPacketHeader (pending (recvBuffer s) @ bytes) = (packets, n) \<and>
      n \<le> length (pending (recvBuffer s) @ bytes) \<and>
      pending rb1 = drop n (pending (recvBuffer s) @ bytes) \<and>
      recv_succeeded orv od close_ok bytes s =
        and_then (Clean rb1) (\<lambda>rb2. Inr (recv_outcome orv bytes packets rb rb2 s))"
proof -
  let ?s = "s\<lparr>receiving := receiving s - 1, recvBuffer := socket_fill bytes (recvBuffer s),
          received := received s @ bytes\<rparr>"
  obtain ok rb where w: "OnWrite (int (length bytes)) (socket_fill bytes (recvBuffer s)) = (ok, rb)"
    by fastforce
  note f = fill_then_OnWrite [OF inv fits w]
  obtain packets n where p: "parse TcpPacketHeader (pending rb) = (packets, n)" by fastforce
  have n: "n \<le> length (pending rb)" using parse_sound [OF p] by simp
  then have nd: "int n \<le> DataSize rb" using length_pending [OF f(2)] by simp
  obtain ok1 rb1 where r: "OnRead (int n) rb = (ok1, rb1)" by fastforce
  note g = OnRead_refines [OF f(2) _ nd r]
  have same: "?s\<lparr>recvBuffer := rb\<rparr> = s\<lparr>receiving := receiving s - 1, received := received s @ bytes, recvBuffer := rb\<rparr>"
    by simp
  have "recv_succeeded orv od close_ok bytes s =
      and_then (Clean rb1) (\<lambda>rb2. Inr (recv_outcome orv bytes packets rb rb2 s))"
    using bytes w f(1) p r g(1) nd
    unfolding recv_succeeded_def tcp_ProcessRecv_def recv_outcome_def same [symmetric] by (simp add: Let_def)
  moreover have "pending rb1 = drop n (pending (recvBuffer s) @ bytes)" using g(3) f(3) by simp
  moreover have "rb_inv rb1" using g(2) by simp
  ultimately show ?thesis using p n unfolding f(3) by blast
qed

lemma RegisterRecv_fields [simp]:
  "recvBuffer (tcp_RegisterRecv s) = recvBuffer s" "received (tcp_RegisterRecv s) = received s"
  "delivered (tcp_RegisterRecv s) = delivered s" "connecting (tcp_RegisterRecv s) = connecting s"
  "connected (tcp_RegisterRecv s) = connected s" "receiving (tcp_RegisterRecv s) \<le> Suc (receiving s)"
  "wire (tcp_RegisterRecv s) = wire s" "writes (tcp_RegisterRecv s) = writes s"
  "registering (tcp_RegisterRecv s) = registering s" "sendRegistered (tcp_RegisterRecv s) = sendRegistered s"
  "write_failed (tcp_RegisterRecv s) = write_failed s"
  by (simp_all add: tcp_RegisterRecv_def)

lemma recv_outcome_fields [simp]:
  "recvBuffer (recv_outcome orv bytes packets rb rb2 s) = rb2"
  "received (recv_outcome orv bytes packets rb rb2 s) = received s @ bytes"
  "delivered (recv_outcome orv bytes packets rb rb2 s) = delivered s @ packets"
  "connecting (recv_outcome orv bytes packets rb rb2 s) = connecting s"
  "receiving (recv_outcome orv bytes packets rb rb2 s) \<le> Suc (receiving s - 1)"
  by (simp_all add: recv_outcome_def) (simp add: tcp_RegisterRecv_def)

lemma recv_outcome_send_inv:
  assumes "tcp_send_inv s" and "0 < receiving s"
  shows "tcp_send_inv (recv_outcome orv bytes packets rb rb2 s)"
proof -
  have "tcp_send_inv (s\<lparr>receiving := receiving s - 1\<rparr>)"
    using assms(1) by (rule tcp_send_inv_receiving) (use assms(2) in auto)
  then have "tcp_send_inv ((s\<lparr>receiving := receiving s - 1\<rparr>)\<lparr>received := received s @ bytes\<rparr>\<lparr>recvBuffer := rb\<rparr>)"
    by (simp only: tcp_send_inv_frame)
  then show ?thesis
    unfolding recv_outcome_def by (intro RegisterRecv_inv) (simp add: deliver_all_send_inv)
qed

lemma recv_succeeded_empty:
  "recv_succeeded orv od close_ok [] s = tcp_Disconnect od close_ok (s\<lparr>receiving := receiving s - 1\<rparr>)"
  by (simp add: recv_succeeded_def tcp_ProcessRecv_def)

lemma recv_error_inv:
  assumes inv: "tcp_send_inv s" "tcp_recv_inv s" and r: "0 < receiving s"
    and step: "tcp_Disconnect od close_ok (s\<lparr>receiving := receiving s - 1\<rparr>) = Inr s'"
  shows "tcp_send_inv s'" and "tcp_recv_inv s'"
proof -
  have i: "tcp_send_inv (s\<lparr>receiving := receiving s - 1\<rparr>)"
    using inv(1) by (rule tcp_send_inv_receiving) (use r in auto)
  show "tcp_send_inv s'" by (rule tcp_Disconnect_inv [OF i step])
  have "\<not> connecting s" using inv(2) r by (auto simp: tcp_recv_inv_def)
  with tcp_Disconnect_cases [OF i step] inv(2) show "tcp_recv_inv s'"
    by (auto simp: tcp_recv_inv_def)
qed

lemma recv_succeeded_inv:
  assumes inv: "tcp_send_inv s" "tcp_recv_inv s" and r: "0 < receiving s"
    and fits: "int (length bytes) \<le> FreeSize (recvBuffer s)"
    and step: "recv_succeeded orv od close_ok bytes s = Inr s'"
  shows "tcp_send_inv s'" and "tcp_recv_inv s'"
proof -
  have "tcp_send_inv s' \<and> tcp_recv_inv s'"
  proof (cases "bytes = []")
    case True
    then show ?thesis
      using step recv_error_inv [OF inv r] by (simp add: recv_succeeded_empty)
  next
    case False
    have rb: "rb_inv (recvBuffer s)" and r1: "receiving s \<le> 1" and nc: "\<not> connecting s"
      using inv(2) r by (auto simp: tcp_recv_inv_def)
    obtain k where k: "k \<le> length (received s)" "parse TcpPacketHeader (received s) = (delivered s, k)"
      "pending (recvBuffer s) = drop k (received s)"
      using inv(2) by (auto simp: tcp_recv_inv_def)
    obtain rb0 rb1 packets n where p: "rb_inv rb1"
      "parse TcpPacketHeader (pending (recvBuffer s) @ bytes) = (packets, n)"
      "n \<le> length (pending (recvBuffer s) @ bytes)"
      "pending rb1 = drop n (pending (recvBuffer s) @ bytes)"
      and out: "recv_succeeded orv od close_ok bytes s =
        and_then (Clean rb1) (\<lambda>rb2. Inr (recv_outcome orv bytes packets rb0 rb2 s))"
      using recv_succeeded_result [OF rb fits False] by blast
    obtain rb2 where c: "Clean rb1 = Inr rb2" and s': "s' = recv_outcome orv bytes packets rb0 rb2 s"
      using step unfolding out and_then_Inr_iff by blast
    note keep = Clean_keeps_pending [OF p(1) c]
    have "parse TcpPacketHeader (received s @ bytes) = (delivered s @ packets, k + n)"
      by (rule parse_append [OF k(2)]) (use p(2) k(3) in simp)
    moreover have "drop k (received s @ bytes) = drop k (received s) @ bytes" using k(1) by simp
    then have "pending rb2 = drop (k + n) (received s @ bytes)"
      using keep(2) p(4) k(3) by (metis add.commute drop_drop)
    moreover have "k + n \<le> length (received s @ bytes)" using p(3) k by simp
    moreover have "receiving s' \<le> 1"
      using recv_outcome_fields(5) [of orv bytes packets rb0 rb2 s] r1 unfolding s' by linarith
    ultimately have "tcp_recv_inv s'"
      using keep(1) nc unfolding tcp_recv_inv_def s' recv_outcome_fields by blast
    then show ?thesis using recv_outcome_send_inv [OF inv(1) r] s' by simp
  qed
  then show "tcp_send_inv s'" "tcp_recv_inv s'" by simp_all
qed

lemma connect_done_recv_inv:
  assumes "tcp_recv_inv s" and "connecting s"
  shows "tcp_recv_inv (connect_done oc ok s)"
proof -
  obtain out a where "oc (app s) = (out, a)" by fastforce
  then have f: "recvBuffer (connect_done oc ok s) = recvBuffer s" "received (connect_done oc ok s) = received s"
    "delivered (connect_done oc ok s) = delivered s" "receiving (connect_done oc ok s) \<le> Suc (receiving s)"
    "\<not> connecting (connect_done oc ok s)"
    by (simp_all add: connect_done_def tcp_ProcessConnect_def AddTcpSession_def tcp_RegisterRecv_def Let_def)
  then show ?thesis using assms by (auto simp: tcp_recv_inv_def)
qed

lemma tcp_recv_inv_cong:
  "recvBuffer s' = recvBuffer s \<Longrightarrow> received s' = received s \<Longrightarrow> delivered s' = delivered s \<Longrightarrow>
   receiving s' = receiving s \<Longrightarrow> connecting s' \<Longrightarrow> connecting s \<Longrightarrow> tcp_recv_inv s \<Longrightarrow> tcp_recv_inv s'"
  by (simp add: tcp_recv_inv_def)

lemma tcp_recv_inv_same:
  assumes "tcp_recv_inv s" and "recvBuffer s' = recvBuffer s" "received s' = received s"
    "delivered s' = delivered s" "receiving s' = receiving s" "connecting s' \<longrightarrow> connecting s"
  shows "tcp_recv_inv s'"
  using assms by (auto simp: tcp_recv_inv_def)

lemma tcp_Disconnect_recv_inv:
  assumes "tcp_send_inv s" "tcp_recv_inv s" and step: "tcp_Disconnect od close_ok s = Inr s'"
  shows "tcp_recv_inv s'"
  by (rule tcp_recv_inv_same [OF assms(2)]) (use tcp_Disconnect_frame [OF step] in simp_all)

lemma write_succeeded_recv_inv:
  assumes "tcp_recv_inv s" and "write_succeeded od close_ok bufs s = Inr s'"
  shows "tcp_recv_inv s'"
  using assms(1)
  by (rule tcp_recv_inv_same)
    (use assms(2) in \<open>auto simp: write_succeeded_def tcp_ProcessSend_def dest: tcp_Disconnect_frame
      split: if_splits\<close>)

definition tcp_inv :: "'a tcp_session \<Rightarrow> bool" where
  "tcp_inv s \<longleftrightarrow> tcp_send_inv s \<and> tcp_recv_inv s"

lemma tcp_step_inv: "tcp_step oc orv od s s' \<Longrightarrow> tcp_inv s \<Longrightarrow> tcp_inv s'"
proof (induction rule: tcp_step.induct)
  case (step_connect_done s ok)
  then show ?case by (simp add: tcp_inv_def connect_done_inv connect_done_recv_inv)
next
  case (step_enqueue b s r s1)
  have f: "recvBuffer s1 = recvBuffer s" "received s1 = received s" "delivered s1 = delivered s"
    "receiving s1 = receiving s" "connecting s1 = connecting s"
    using step_enqueue(1) by (cases "connected s"; simp add: tcp_Send_enqueue_def; fastforce)+
  have "tcp_recv_inv (if r then s1\<lparr>registering := Suc (registering s1)\<rparr> else s1)"
    by (rule tcp_recv_inv_same [of s]) (use step_enqueue(2) f in \<open>simp_all add: tcp_inv_def\<close>)
  with step_enqueue enqueue_inv show ?case unfolding tcp_inv_def by blast
next
  case (step_register s)
  then have "tcp_recv_inv (tcp_RegisterSend (s\<lparr>registering := registering s - 1\<rparr>))"
    by - (rule tcp_recv_inv_same [of s], auto simp: tcp_inv_def)
  with step_register show ?case using register_inv unfolding tcp_inv_def by blast
next
  case (step_write_ok bufs s close_ok s')
  then show ?case using write_succeeded_inv write_succeeded_recv_inv unfolding tcp_inv_def by blast
next
  case (step_write_error bufs s sent)
  then have "tcp_recv_inv (write_error bufs sent s)"
    by - (rule tcp_recv_inv_same [of s], auto simp: tcp_inv_def write_error_def)
  with step_write_error show ?case by (simp add: tcp_inv_def write_error_inv)
next
  case (step_recv_ok s bytes close_ok s')
  then show ?case using recv_succeeded_inv unfolding tcp_inv_def by blast
next
  case (step_recv_error s close_ok s')
  then show ?case using recv_error_inv unfolding tcp_inv_def recv_error_def by blast
next
  case (step_disconnect close_ok s s')
  then show ?case using tcp_Disconnect_inv tcp_Disconnect_recv_inv unfolding tcp_inv_def by blast
qed

lemma tcp_inv_init: "tcp_inv (tcp_Connect (TcpSession port a))"
proof -
  have "rb_inv (RecvBuffer TCP_BUFFER_SIZE)" by (rule rb_inv_new) (simp add: TCP_BUFFER_SIZE_def)
  moreover have "parse TcpPacketHeader [] = ([], 0)" by (rule parse_stop) (simp add: packet_ready_def)
  ultimately show ?thesis
    by (simp add: tcp_inv_def tcp_send_inv_def tcp_recv_inv_def fresh_session_def tcp_Connect_def
        tcp_RegisterConnect_def TcpSession_def Let_def)
qed

lemma tcp_reachable_inv: "tcp_reachable oc orv od s0 s \<Longrightarrow> tcp_inv s0 \<Longrightarrow> tcp_inv s"
  by (induction rule: tcp_reachable.induct) (auto intro: tcp_step_inv)

lemmas tcp_session_inv = tcp_reachable_inv [OF _ tcp_inv_init]

section \<open>After a failed write\<close>

text \<open>No token is left: nothing is outstanding, and the flag keeps every later \<open>Send\<close> from registering.\<close>

definition send_dead :: "'a tcp_session \<Rightarrow> bool" where
  "send_dead s \<longleftrightarrow> writes s = [] \<and> registering s = 0 \<and> \<not> connecting s \<and> (connected s \<longrightarrow> sendRegistered s)"

lemma dead_Send: "send_dead s \<Longrightarrow> send_dead (tcp_Send b s) \<and> wire (tcp_Send b s) = wire s"
  by (auto simp: send_dead_def tcp_Send_def tcp_Send_enqueue_def)

lemma dead_Send_all: "send_dead s \<Longrightarrow> send_dead (tcp_Send_all bs s) \<and> wire (tcp_Send_all bs s) = wire s"
  by (induction bs s rule: tcp_Send_all.induct) (auto simp: dead_Send)

lemma dead_deliver_all:
  "send_dead s \<Longrightarrow> send_dead (deliver_all orv ps s) \<and> wire (deliver_all orv ps s) = wire s"
proof (induction orv ps s rule: deliver_all.induct)
  case (2 orv p ps s)
  obtain out a where o: "orv p (app s) = (out, a)" by fastforce
  have "send_dead (s\<lparr>app := a, delivered := delivered s @ [p]\<rparr>)" using 2(2) by (simp add: send_dead_def)
  from dead_Send_all [OF this, of out] 2(1) [OF o [symmetric] refl] o show ?case by simp
qed simp

lemma dead_Disconnect:
  assumes "send_dead s" "tcp_Disconnect od close_ok s = Inr s'"
  shows "send_dead s' \<and> wire s' = wire s"
  using assms(1) tcp_Disconnect_frame [OF assms(2)] by (auto simp: send_dead_def)

lemma dead_recv_outcome:
  assumes "send_dead s"
  shows "send_dead (recv_outcome orv bytes packets rb rb2 s) \<and> wire (recv_outcome orv bytes packets rb rb2 s) = wire s"
proof -
  have "send_dead (s\<lparr>receiving := receiving s - 1, received := received s @ bytes, recvBuffer := rb\<rparr>)"
    using assms by (simp add: send_dead_def)
  from dead_deliver_all [OF this, of orv packets] show ?thesis
    by (simp add: recv_outcome_def send_dead_def)
qed

lemma dead_step:
  assumes "tcp_step oc orv od s s'" and "send_dead s" and "tcp_inv s"
  shows "send_dead s' \<and> wire s' = wire s"
  using assms
proof (induction rule: tcp_step.induct)
  case (step_connect_done s ok)
  then show ?case by (simp add: send_dead_def)
next
  case (step_enqueue b s r s1)
  then show ?case by (auto simp: send_dead_def tcp_Send_enqueue_def split: if_splits)
next
  case (step_register s)
  then show ?case by (simp add: send_dead_def)
next
  case (step_write_ok bufs s close_ok s')
  then show ?case by (simp add: send_dead_def)
next
  case (step_write_error bufs s sent)
  then show ?case by (simp add: send_dead_def)
next
  case (step_recv_ok s bytes close_ok s')
  show ?case
  proof (cases "bytes = []")
    case True
    have "send_dead (s\<lparr>receiving := receiving s - 1\<rparr>)" using step_recv_ok by (simp add: send_dead_def)
    from dead_Disconnect [OF this] step_recv_ok(3) True show ?thesis by (simp add: recv_succeeded_empty)
  next
    case False
    have "rb_inv (recvBuffer s)" using step_recv_ok by (simp add: tcp_inv_def tcp_recv_inv_def)
    from recv_succeeded_result [OF this step_recv_ok(2) False, of orv od close_ok]
    obtain packets rb rb1 where out: "recv_succeeded orv od close_ok bytes s =
        and_then (Clean rb1) (\<lambda>rb2. Inr (recv_outcome orv bytes packets rb rb2 s))"
      by blast
    obtain rb2 where "s' = recv_outcome orv bytes packets rb rb2 s"
      using step_recv_ok(3) unfolding out and_then_Inr_iff by blast
    then show ?thesis using dead_recv_outcome step_recv_ok by blast
  qed
next
  case (step_recv_error s close_ok s')
  have "send_dead (s\<lparr>receiving := receiving s - 1\<rparr>)" using step_recv_error by (simp add: send_dead_def)
  from dead_Disconnect [OF this] step_recv_error show ?case by (simp add: recv_error_def)
next
  case (step_disconnect close_ok s s')
  then show ?case using dead_Disconnect by blast
qed

lemma dead_reachable:
  "tcp_reachable oc orv od s s' \<Longrightarrow> send_dead s \<Longrightarrow> tcp_inv s \<Longrightarrow> send_dead s' \<and> wire s' = wire s"
proof (induction rule: tcp_reachable.induct)
  case tcp_init
  then show ?case by simp
next
  case (tcp_next s1 s')
  then show ?case using dead_step [OF tcp_next(2)] tcp_reachable_inv [OF tcp_next(1)] by simp
qed

section \<open>Properties\<close>

text \<open>
  C6: In every run of a session, while it is connected: at most one \<open>async_write\<close> is outstanding, its
  buffers are exactly those kept alive in \<open>_currentSendBuffers\<close>, and no buffer that waits in the queue
  is forgotten: unless a write has failed, a write is outstanding or a thread is about to start one.
\<close>
theorem single_outstanding_write:
  assumes "tcp_reachable oc orv od (tcp_Connect (TcpSession port a)) s" and "connected s"
  shows "length (writes s) + registering s \<le> 1 \<and>
    (\<forall>w. w \<in> set (writes s) \<longrightarrow> w = currentSendBuffers s) \<and>
    (sendQueue s \<noteq> [] \<and> \<not> write_failed s \<longrightarrow> length (writes s) + registering s = 1)"
  using tcp_session_inv [OF assms(1)] assms(2)
  by (auto simp: tcp_inv_def tcp_send_inv_def send_ok_def)

text \<open>
  As long as no write fails and the session stays connected, the bytes on the wire, then those of
  the outstanding write, then those still queued are the buffers given to \<open>Send\<close>, in order: nothing is
  lost, repeated or reordered.
\<close>
theorem sends_are_fifo:
  assumes "tcp_reachable oc orv od (tcp_Connect (TcpSession port a)) s" and "connected s"
    and "\<not> write_failed s"
  shows "concat (accepted s) = wire s @ concat (concat (writes s)) @ concat (sendQueue s)"
  using tcp_session_inv [OF assms(1)] assms(2,3)
  by (simp add: tcp_inv_def tcp_send_inv_def send_ok_def)

text \<open>
  In every run the packets handed to \<open>OnRecv\<close> are those of the received byte stream, and what has
  not been delivered yet is pending in the receive buffer.
\<close>
theorem session_delivers_stream:
  assumes "tcp_reachable oc orv od (tcp_Connect (TcpSession port a)) s"
  shows "\<exists>n. parse TcpPacketHeader (received s) = (delivered s, n) \<and>
    pending (recvBuffer s) = drop n (received s)"
  using tcp_session_inv [OF assms] by (auto simp: tcp_inv_def tcp_recv_inv_def)

text \<open>
  A failed write is never retried: from the moment a write of a connected session has failed, no
  further byte goes to the wire, whatever is sent and whatever happens.
\<close>
theorem failed_write_ends_sending:
  assumes "tcp_reachable oc orv od (tcp_Connect (TcpSession port a)) s" and "connected s"
    and "write_failed s" and "tcp_reachable oc orv od s s'"
  shows "wire s' = wire s \<and> writes s' = []"
proof -
  have inv: "tcp_inv s" by (rule tcp_session_inv [OF assms(1)])
  then have "send_dead s"
    using assms(2,3) by (auto simp: tcp_inv_def tcp_send_inv_def send_ok_def send_dead_def)
  from dead_reachable [OF assms(4) this inv] show ?thesis by (simp add: send_dead_def)
qed

text \<open>
  No handler of a reachable session ends in an assertion failure: releasing the session from the
  service always finds it, and the only fault left is the overlapping copy of \<open>Clean\<close>.
\<close>
theorem session_faults:
  assumes "tcp_reachable oc orv od (tcp_Connect (TcpSession port a)) s"
    and "int (length bytes) \<le> FreeSize (recvBuffer s)" and "0 < receiving s"
  shows "(\<exists>s'. tcp_Disconnect od close_ok s = Inr s') \<and> (\<exists>s'. recv_error od close_ok s = Inr s') \<and>
    (\<forall>e. recv_succeeded orv od close_ok bytes s = Inl e \<longrightarrow> e = MemcpyOverlap)"
proof -
  have inv: "tcp_send_inv s" "tcp_recv_inv s"
    using tcp_session_inv [OF assms(1)] by (simp_all add: tcp_inv_def)
  have i: "tcp_send_inv (s\<lparr>receiving := receiving s - 1\<rparr>)"
    using inv(1) by (rule tcp_send_inv_receiving) (use assms(3) in auto)
  have d: "\<exists>s'. tcp_Disconnect od close_ok s = Inr s'"
    and e: "\<exists>s'. tcp_Disconnect od close_ok (s\<lparr>receiving := receiving s - 1\<rparr>) = Inr s'"
    using tcp_Disconnect_cases [OF inv(1) refl] tcp_Disconnect_cases [OF i refl] by blast+
  have "e = MemcpyOverlap" if step: "recv_succeeded orv od close_ok bytes s = Inl e" for e
  proof (cases "bytes = []")
    case True
    then show ?thesis using step e by (simp add: recv_succeeded_empty)
  next
    case False
    have "rb_inv (recvBuffer s)" using inv(2) by (simp add: tcp_recv_inv_def)
    from recv_succeeded_result [OF this assms(2) False, of orv od close_ok] step
    obtain rb1 where "rb_inv rb1" "Clean rb1 = Inl e"
      by (auto split: and_then_split) (metis and_then.simps(2) sum.exhaust sum.distinct(1) sum.inject(1) and_then.simps(1))
    then show ?thesis using Clean_overlap by blast
  qed
  with d e show ?thesis by (simp add: recv_error_def)
qed

subsection \<open>A concrete run\<close>

definition echo_callback :: "BYTE list \<Rightarrow> unit \<Rightarrow> BYTE list list \<times> unit" where
  "echo_callback p a = ([p], a)"

definition login_callback :: "unit \<Rightarrow> BYTE list list \<times> unit" where
  "login_callback a = ([[4, 0, 232, 3]], a)"

abbreviation "run_of \<equiv> tcp_reachable login_callback echo_callback id (tcp_Connect (TcpSession 7777 ()))"

definition after_connect :: "unit tcp_session" where
  "after_connect = connect_done login_callback True (tcp_Connect (TcpSession 7777 ()))"

definition after_failure :: "unit tcp_session" where
  "after_failure = write_error [[4, 0, 232, 3]] 0 after_connect"

lemma after_connect_reachable: "run_of after_connect"
  unfolding after_connect_def
  by (rule tcp_next [OF tcp_init step_connect_done])
    (simp add: tcp_Connect_def tcp_RegisterConnect_def TcpSession_def)

lemma after_connect_values:
  "connected after_connect" "sendQueue after_connect = []" "writes after_connect = [[[4, 0, 232, 3]]]"
  "\<not> write_failed after_connect" "receiving after_connect = 1"
  "FreeSize (recvBuffer after_connect) = 655360" "received after_connect = []"
  by (simp_all add: after_connect_def connect_done_def tcp_ProcessConnect_def login_callback_def
      AddTcpSession_def tcp_Send_def tcp_Send_enqueue_def tcp_RegisterSend_def tcp_RegisterRecv_def
      tcp_Connect_def tcp_RegisterConnect_def TcpSession_def FreeSize_def RecvBuffer_def BUFFER_COUNT_def
      TCP_BUFFER_SIZE_def Let_def)

lemma after_failure_reachable: "run_of after_failure"
  unfolding after_failure_def
  by (rule tcp_next [OF after_connect_reachable step_write_error]) (simp add: after_connect_values)

theorem single_outstanding_write_witness:
  "connected after_connect \<and> length (writes after_connect) + registering after_connect \<le> 1"
  using single_outstanding_write [OF after_connect_reachable] after_connect_values by simp

theorem sends_are_fifo_witness:
  "concat (accepted after_connect) = wire after_connect @ [4, 0, 232, 3]"
  using sends_are_fifo [OF after_connect_reachable] after_connect_values by simp

theorem session_delivers_stream_witness:
  "\<exists>n. parse TcpPacketHeader [] = (delivered after_connect, n)"
  using session_delivers_stream [OF after_connect_reachable] after_connect_values(7) by auto

theorem failed_write_ends_sending_witness:
  "let s' = snd (tcp_Send_enqueue [4, 0, 233, 3] after_failure)
   in sendQueue s' = [[4, 0, 232, 3], [4, 0, 233, 3]] \<and> wire s' = [] \<and> writes s' = []"
proof -
  define s' where "s' = snd (tcp_Send_enqueue [4, 0, 233, 3] after_failure)"
  have v: "connected after_failure" "write_failed after_failure" "wire after_failure = []"
    "tcp_Send_enqueue [4, 0, 233, 3] after_failure = (False, s')" "sendQueue s' = [[4, 0, 232, 3], [4, 0, 233, 3]]"
    using after_connect_values(1)
    by (simp_all add: s'_def after_failure_def write_error_def after_connect_def connect_done_def tcp_ProcessConnect_def
        login_callback_def AddTcpSession_def tcp_Send_def tcp_Send_enqueue_def tcp_RegisterSend_def
        tcp_RegisterRecv_def tcp_Connect_def tcp_RegisterConnect_def TcpSession_def Let_def)
  have "tcp_step login_callback echo_callback id after_failure s'"
    using step_enqueue [OF v(4)] by simp
  then have "tcp_reachable login_callback echo_callback id after_failure s'" by (rule tcp_next [OF tcp_init])
  from failed_write_ends_sending [OF after_failure_reachable v(1,2) this] v(3,5)
  show ?thesis by (simp add: s'_def)
qed

theorem session_faults_witness:
  "\<exists>s'. tcp_Disconnect id True after_connect = Inr s'"
  using session_faults [OF after_connect_reachable, of "[]" True] after_connect_values by simp

end
