(* ===== verification/Rw_Lock.thy ===== *)
theory Rw_Lock
  imports Prelude
begin

text \<open>
  The reader-writer spin lock of \<open>ClientNetworkCore/Lock.h\<close> and \<open>Lock.cpp\<close>, with the guards that
  take and release it. The state is the 32-bit flag and the write count of one lock, and for every
  thread where it is inside an operation and the stack of its live guards. A step is one access to
  shared memory of one thread, so the threads interleave between the load of the flag, the
  compare-and-exchange, the update of the (not atomic) write count and the store. The destructors of
  the guards release in the order of the stack. A guard counts as held from the access that takes
  the lock to the access that gives it back.
\<close>

section \<open>The flag\<close>

definition WRITE_THREAD_MASK :: uint32 where
  "WRITE_THREAD_MASK = 0xFFFF0000"

definition READ_COUNT_MASK :: uint32 where
  "READ_COUNT_MASK = 0x0000FFFF"

definition EMPTY_FLAG :: uint32 where
  "EMPTY_FLAG = 0"

definition lock_thread_id :: "uint32 \<Rightarrow> uint32" where
  "lock_thread_id flag = drop_bit 16 (flag AND WRITE_THREAD_MASK)"

definition read_count :: "uint32 \<Rightarrow> uint32" where
  "read_count flag = flag AND READ_COUNT_MASK"

definition desired_flag :: "uint32 \<Rightarrow> uint32" where
  "desired_flag tid = push_bit 16 tid AND WRITE_THREAD_MASK"

section \<open>State\<close>

datatype guard = R | W

text \<open>Where a thread is: between operations, or after the access named by the constructor.\<close>

datatype pc =
    Idle
  | WReenter          \<comment> \<open>\<open>WriteLock\<close> found itself the owner\<close>
  | WSpin             \<comment> \<open>\<open>WriteLock\<close> is in its loop\<close>
  | WTaken            \<comment> \<open>its exchange succeeded, the count is not yet incremented\<close>
  | UDec              \<comment> \<open>\<open>WriteUnlock\<close> has checked the read count\<close>
  | UStore            \<comment> \<open>its decrement gave zero, the flag is not yet cleared\<close>
  | RReenter          \<comment> \<open>\<open>ReadLock\<close> found itself the owner\<close>
  | RSpin             \<comment> \<open>\<open>ReadLock\<close> is in its loop\<close>
  | RLoaded uint32    \<comment> \<open>\<open>ReadLock\<close> has computed its expected value\<close>

record lock_state =
  lockFlag :: uint32
  writeCount :: uint16
  at :: "uint32 \<Rightarrow> pc"
  held :: "uint32 \<Rightarrow> guard list"        \<comment> \<open>innermost guard first\<close>
  crashed :: "fault option"

definition Lock :: lock_state where
  "Lock = \<lparr>lockFlag = EMPTY_FLAG, writeCount = 0, at = (\<lambda>_. Idle), held = (\<lambda>_. []), crashed = None\<rparr>"

definition goto :: "uint32 \<Rightarrow> pc \<Rightarrow> lock_state \<Rightarrow> lock_state" where
  "goto t p s = s\<lparr>at := (at s)(t := p)\<rparr>"

definition take_guard :: "uint32 \<Rightarrow> guard \<Rightarrow> lock_state \<Rightarrow> lock_state" where
  "take_guard t g s = s\<lparr>held := (held s)(t := g # held s t)\<rparr>"

definition drop_guard :: "uint32 \<Rightarrow> lock_state \<Rightarrow> lock_state" where
  "drop_guard t s = s\<lparr>held := (held s)(t := tl (held s t))\<rparr>"

definition crash :: "fault \<Rightarrow> lock_state \<Rightarrow> lock_state" where
  "crash f s = s\<lparr>crashed := Some f\<rparr>"

section \<open>WriteLock\<close>

definition WriteLock_enter :: "uint32 \<Rightarrow> lock_state \<Rightarrow> lock_state" where
  "WriteLock_enter t s = goto t (if lock_thread_id (lockFlag s) = t then WReenter else WSpin) s"

definition WriteLock_reenter :: "uint32 \<Rightarrow> lock_state \<Rightarrow> lock_state" where
  "WriteLock_reenter t s = goto t Idle (take_guard t W (s\<lparr>writeCount := writeCount s + 1\<rparr>))"

definition WriteLock_exchange :: "uint32 \<Rightarrow> lock_state \<Rightarrow> lock_state" where
  "WriteLock_exchange t s =
     (if lockFlag s = EMPTY_FLAG
      then goto t WTaken (take_guard t W (s\<lparr>lockFlag := desired_flag t\<rparr>)) else s)"

definition WriteLock_count :: "uint32 \<Rightarrow> lock_state \<Rightarrow> lock_state" where
  "WriteLock_count t s = goto t Idle (s\<lparr>writeCount := writeCount s + 1\<rparr>)"

section \<open>WriteUnlock\<close>

definition WriteUnlock_check :: "uint32 \<Rightarrow> lock_state \<Rightarrow> lock_state" where
  "WriteUnlock_check t s =
     (if read_count (lockFlag s) \<noteq> 0 then crash InvalidUnlockOrder s else goto t UDec s)"

definition WriteUnlock_decrement :: "uint32 \<Rightarrow> lock_state \<Rightarrow> lock_state" where
  "WriteUnlock_decrement t s =
     (let s1 = s\<lparr>writeCount := writeCount s - 1\<rparr>
      in if writeCount s1 = 0 then goto t UStore s1 else goto t Idle (drop_guard t s1))"

definition WriteUnlock_store :: "uint32 \<Rightarrow> lock_state \<Rightarrow> lock_state" where
  "WriteUnlock_store t s = goto t Idle (drop_guard t (s\<lparr>lockFlag := EMPTY_FLAG\<rparr>))"

section \<open>ReadLock\<close>

definition ReadLock_enter :: "uint32 \<Rightarrow> lock_state \<Rightarrow> lock_state" where
  "ReadLock_enter t s = goto t (if lock_thread_id (lockFlag s) = t then RReenter else RSpin) s"

definition ReadLock_reenter :: "uint32 \<Rightarrow> lock_state \<Rightarrow> lock_state" where
  "ReadLock_reenter t s = goto t Idle (take_guard t R (s\<lparr>lockFlag := lockFlag s + 1\<rparr>))"

definition ReadLock_load :: "uint32 \<Rightarrow> lock_state \<Rightarrow> lock_state" where
  "ReadLock_load t s = goto t (RLoaded (read_count (lockFlag s))) s"

definition ReadLock_exchange :: "uint32 \<Rightarrow> uint32 \<Rightarrow> lock_state \<Rightarrow> lock_state" where
  "ReadLock_exchange t expected s =
     (if lockFlag s = expected
      then goto t Idle (take_guard t R (s\<lparr>lockFlag := expected + 1\<rparr>)) else goto t RSpin s)"

section \<open>ReadUnlock\<close>

definition ReadUnlock :: "uint32 \<Rightarrow> lock_state \<Rightarrow> lock_state" where
  "ReadUnlock t s =
     (let s1 = s\<lparr>lockFlag := lockFlag s - 1\<rparr>
      in if read_count (lockFlag s) = 0 then crash MultipleUnlock s1 else drop_guard t s1)"

section \<open>Interleaved steps\<close>

inductive lock_step :: "uint32 set \<Rightarrow> lock_state \<Rightarrow> lock_state \<Rightarrow> bool" for T where
  s_write_enter: "at s t = Idle \<Longrightarrow> t \<in> T \<Longrightarrow> lock_step T s (WriteLock_enter t s)"
| s_write_reenter: "at s t = WReenter \<Longrightarrow> t \<in> T \<Longrightarrow> lock_step T s (WriteLock_reenter t s)"
| s_write_exchange: "at s t = WSpin \<Longrightarrow> t \<in> T \<Longrightarrow> lock_step T s (WriteLock_exchange t s)"
| s_write_timeout: "at s t = WSpin \<Longrightarrow> t \<in> T \<Longrightarrow> lock_step T s (crash LockTimeout s)"
| s_write_count: "at s t = WTaken \<Longrightarrow> t \<in> T \<Longrightarrow> lock_step T s (WriteLock_count t s)"
| s_unlock_check: "at s t = Idle \<Longrightarrow> t \<in> T \<Longrightarrow> held s t = W # gs \<Longrightarrow> lock_step T s (WriteUnlock_check t s)"
| s_unlock_dec: "at s t = UDec \<Longrightarrow> t \<in> T \<Longrightarrow> lock_step T s (WriteUnlock_decrement t s)"
| s_unlock_store: "at s t = UStore \<Longrightarrow> t \<in> T \<Longrightarrow> lock_step T s (WriteUnlock_store t s)"
| s_read_enter: "at s t = Idle \<Longrightarrow> t \<in> T \<Longrightarrow> lock_step T s (ReadLock_enter t s)"
| s_read_reenter: "at s t = RReenter \<Longrightarrow> t \<in> T \<Longrightarrow> lock_step T s (ReadLock_reenter t s)"
| s_read_load: "at s t = RSpin \<Longrightarrow> t \<in> T \<Longrightarrow> lock_step T s (ReadLock_load t s)"
| s_read_exchange: "at s t = RLoaded e \<Longrightarrow> t \<in> T \<Longrightarrow> lock_step T s (ReadLock_exchange t e s)"
| s_read_timeout: "at s t = RSpin \<Longrightarrow> t \<in> T \<Longrightarrow> lock_step T s (crash LockTimeout s)"
| s_read_unlock: "at s t = Idle \<Longrightarrow> t \<in> T \<Longrightarrow> held s t = R # gs \<Longrightarrow> lock_step T s (ReadUnlock t s)"

text \<open>
  Runs from the fresh lock until a crash. The flag has 16 bits for the reader count and the write
  count is a \<open>uint16\<close>: the runs considered never have more than \<open>0xFFFF\<close> live guards.
\<close>

definition live_guards :: "uint32 set \<Rightarrow> lock_state \<Rightarrow> nat" where
  "live_guards T s = (\<Sum>t\<in>T. length (held s t))"

inductive lock_reachable :: "uint32 set \<Rightarrow> lock_state \<Rightarrow> bool" for T where
  lock_init: "lock_reachable T Lock"
| lock_next: "lock_reachable T s \<Longrightarrow> crashed s = None \<Longrightarrow> lock_step T s s' \<Longrightarrow>
    live_guards T s' \<le> 0xFFFF \<Longrightarrow> lock_reachable T s'"

text \<open>The threads there are: \<open>InitTLS\<close> numbers them from 1, and the flag has 16 bits for the owner.\<close>

definition thread_ids :: "uint32 set \<Rightarrow> bool" where
  "thread_ids T \<longleftrightarrow> (\<forall>t \<in> T. 0 < t \<and> t < 0x10000)"

section \<open>The flag as a pair of numbers\<close>

lemma mask_16: "(0x0000FFFF :: uint32) = mask 16"
  by (simp add: mask_eq_exp_minus_1)

lemma unat_read_count: "unat (read_count f) = unat f mod 65536"
proof -
  have "read_count f = take_bit 16 f"
    unfolding read_count_def READ_COUNT_MASK_def mask_16 by (simp add: take_bit_eq_mask)
  then show ?thesis by (simp only: unsigned_take_bit_eq) (simp add: take_bit_eq_mod)
qed

lemma bit_high_mask: "bit (0xFFFF0000 :: uint32) n \<longleftrightarrow> 16 \<le> n \<and> n < 32"
proof -
  have "(0xFFFF0000 :: uint32) = push_bit 16 (mask 16)" by (simp add: mask_eq_exp_minus_1)
  then show ?thesis by (simp only: bit_push_bit_iff bit_mask_iff) auto
qed

lemma unat_lock_thread_id: "unat (lock_thread_id f) = unat f div 65536"
proof -
  have "lock_thread_id f = drop_bit 16 f"
    unfolding lock_thread_id_def WRITE_THREAD_MASK_def
    by (rule bit_word_eqI, simp only: bit_drop_bit_eq bit_and_iff bit_high_mask o_def)
      (auto dest: bit_imp_le_length)
  then have "unat (lock_thread_id f) = drop_bit 16 (take_bit 32 (unat f))"
    by (simp only: unsigned_drop_bit_eq) simp
  moreover have "unat f < 2 ^ 32" using unsigned_less [of f] by simp
  ultimately show ?thesis by (simp add: drop_bit_eq_div take_bit_eq_mod)
qed

lemma unat_desired_flag:
  assumes "t < 0x10000"
  shows "unat (desired_flag t) = unat t * 65536"
proof -
  have t: "unat t < 65536" using assms by (simp add: word_less_nat_alt)
  have "desired_flag t = push_bit 16 t"
    unfolding desired_flag_def WRITE_THREAD_MASK_def
    by (rule bit_word_eqI, simp only: bit_push_bit_iff bit_and_iff bit_high_mask)
      (auto dest: bit_imp_le_length)
  then have "unat (desired_flag t) = take_bit 32 (push_bit 16 (unat t))"
    by (simp only: unsigned_push_bit_eq) simp
  then show ?thesis using t by (simp add: push_bit_eq_mult take_bit_eq_mod)
qed

definition flag_is :: "uint32 \<Rightarrow> uint32 \<Rightarrow> nat \<Rightarrow> bool" where
  "flag_is flag owner n \<longleftrightarrow> unat flag = unat owner * 65536 + n"

lemma flag_is_parts:
  assumes "flag_is f t n" and "n < 65536"
  shows "lock_thread_id f = t" and "unat (read_count f) = n" and "read_count f = 0 \<longleftrightarrow> n = 0"
proof -
  show "lock_thread_id f = t"
    using assms by (intro word_unat_eq_iff [THEN iffD2]) (simp add: unat_lock_thread_id flag_is_def)
  show n: "unat (read_count f) = n" using assms by (simp add: unat_read_count flag_is_def)
  show "read_count f = 0 \<longleftrightarrow> n = 0" using n by (metis unat_0 unat_eq_zero)
qed

lemma flag_is_add:
  assumes "flag_is f t n" and "t < 0x10000" and "Suc n < 65536"
  shows "flag_is (f + 1) t (Suc n)"
proof -
  have "unat t \<le> 65535" using assms(2) by (simp add: word_less_nat_alt)
  then have "unat f + 1 < 2 ^ 32" using assms by (simp add: flag_is_def)
  then have "unat (f + 1) = unat f + 1" by (simp add: unat_word_ariths)
  then show ?thesis using assms by (simp add: flag_is_def)
qed

lemma flag_is_sub:
  assumes "flag_is f t (Suc n)"
  shows "flag_is (f - 1) t n"
proof -
  have "1 \<le> f" using assms by (simp add: flag_is_def word_le_nat_alt)
  then have "unat (f - 1) = unat f - 1" by (simp add: unat_sub)
  then show ?thesis using assms by (simp add: flag_is_def)
qed

lemma flag_is_empty: "flag_is EMPTY_FLAG 0 0"
  by (simp add: flag_is_def EMPTY_FLAG_def)

lemma flag_is_desired: "t < 0x10000 \<Longrightarrow> flag_is (desired_flag t) t 0"
  by (simp add: flag_is_def unat_desired_flag)

lemma flag_is_0: "flag_is f 0 n \<Longrightarrow> unat f = n"
  by (simp add: flag_is_def)

section \<open>Invariant\<close>

text \<open>Places in the code only the owner of the lock can be at.\<close>

fun owner_pc :: "pc \<Rightarrow> bool" where
  "owner_pc WReenter = True"
| "owner_pc WTaken = True"
| "owner_pc UDec = True"
| "owner_pc UStore = True"
| "owner_pc RReenter = True"
| "owner_pc _ = False"

text \<open>What the place in the code says about the stack, and how far the write count lags behind it.\<close>

fun pc_ok :: "pc \<Rightarrow> guard list \<Rightarrow> bool" where
  "pc_ok WTaken gs \<longleftrightarrow> gs = [W]"
| "pc_ok UDec gs \<longleftrightarrow> gs \<noteq> [] \<and> R \<notin> set gs"
| "pc_ok UStore gs \<longleftrightarrow> gs = [W]"
| "pc_ok _ gs \<longleftrightarrow> True"

fun uncounted :: "pc \<Rightarrow> nat" where
  "uncounted WTaken = 1"
| "uncounted UStore = 1"
| "uncounted _ = 0"

definition owned_by :: "uint32 set \<Rightarrow> uint32 \<Rightarrow> lock_state \<Rightarrow> bool" where
  "owned_by T w s \<longleftrightarrow>
     w \<in> T \<and> flag_is (lockFlag s) w (count_list (held s w) R) \<and> W \<in> set (held s w) \<and>
     (\<forall>t \<in> T. t \<noteq> w \<longrightarrow> held s t = [] \<and> \<not> owner_pc (at s t)) \<and>
     writeCount s = of_nat (count_list (held s w) W - uncounted (at s w)) \<and> pc_ok (at s w) (held s w)"

definition not_owned :: "uint32 set \<Rightarrow> lock_state \<Rightarrow> bool" where
  "not_owned T s \<longleftrightarrow>
     flag_is (lockFlag s) 0 (live_guards T s) \<and> writeCount s = 0 \<and>
     (\<forall>t \<in> T. W \<notin> set (held s t) \<and> \<not> owner_pc (at s t))"

definition lock_inv :: "uint32 set \<Rightarrow> lock_state \<Rightarrow> bool" where
  "lock_inv T s \<longleftrightarrow>
     live_guards T s \<le> 0xFFFF \<and> (\<forall>t \<in> T. \<forall>e. at s t = RLoaded e \<longrightarrow> unat e < 65536) \<and>
     (not_owned T s \<or> (\<exists>w. owned_by T w s))"

lemma live_guards_upd:
  assumes "finite T" and "t \<in> T"
  shows "(\<Sum>x\<in>T. length ((h(t := gs)) x)) + length (h t) = (\<Sum>x\<in>T. length (h x)) + length gs"
proof -
  have "(\<Sum>x\<in>T - {t}. length ((h(t := gs)) x)) = (\<Sum>x\<in>T - {t}. length (h x))"
    by (rule sum.cong) auto
  then show ?thesis
    using sum.remove [OF assms, of "\<lambda>x. length ((h(t := gs)) x)"] sum.remove [OF assms, of "\<lambda>x. length (h x)"]
    by simp
qed

lemma live_guards_take:
  assumes "finite T" and "t \<in> T"
  shows "live_guards T (take_guard t g s) = Suc (live_guards T s)"
  using live_guards_upd [OF assms, of "held s" "g # held s t"] by (simp add: live_guards_def take_guard_def)

lemma live_guards_drop:
  assumes "finite T" and "t \<in> T" and "held s t = g # gs"
  shows "Suc (live_guards T (drop_guard t s)) = live_guards T s"
  using live_guards_upd [OF assms(1,2), of "held s" gs] assms(3) by (simp add: live_guards_def drop_guard_def)

lemma live_guards_simps [simp]:
  "live_guards T (goto t p s) = live_guards T s"
  "live_guards T (s\<lparr>lockFlag := f\<rparr>) = live_guards T s"
  "live_guards T (s\<lparr>writeCount := c\<rparr>) = live_guards T s"
  "live_guards T (crash x s) = live_guards T s"
  by (simp_all add: live_guards_def goto_def crash_def)

lemma guards_le_live: "finite T \<Longrightarrow> t \<in> T \<Longrightarrow> length (held s t) \<le> live_guards T s"
  unfolding live_guards_def by (rule member_le_sum) auto

lemma count_guards: "count_list gs R + count_list gs W = length gs"
proof (induction gs)
  case (Cons g gs)
  then show ?case by (cases g) auto
qed simp

lemma count_R_0: "R \<notin> set gs \<longleftrightarrow> count_list gs R = 0"
  by (simp add: count_list_0_iff)

lemma only_writes: "R \<notin> set gs \<Longrightarrow> count_list gs W = length gs"
  using count_guards [of gs] by (simp add: count_R_0)

lemma drop_guard_held [simp]: "held (drop_guard t s) = (held s)(t := tl (held s t))"
  by (simp add: drop_guard_def)

lemma take_guard_held [simp]: "held (take_guard t g s) = (held s)(t := g # held s t)"
  by (simp add: take_guard_def)

lemma goto_fields [simp]:
  "lockFlag (goto t p s) = lockFlag s" "writeCount (goto t p s) = writeCount s" "held (goto t p s) = held s"
  "at (goto t p s) = (at s)(t := p)" "crashed (goto t p s) = crashed s"
  by (simp_all add: goto_def)

lemma guard_fields [simp]:
  "lockFlag (take_guard t g s) = lockFlag s" "writeCount (take_guard t g s) = writeCount s"
  "at (take_guard t g s) = at s" "crashed (take_guard t g s) = crashed s"
  "lockFlag (drop_guard t s) = lockFlag s" "writeCount (drop_guard t s) = writeCount s"
  "at (drop_guard t s) = at s" "crashed (drop_guard t s) = crashed s"
  by (simp_all add: take_guard_def drop_guard_def)

lemma crash_fields [simp]:
  "lockFlag (crash f s) = lockFlag s" "writeCount (crash f s) = writeCount s" "held (crash f s) = held s"
  "at (crash f s) = at s" "crashed (crash f s) = Some f"
  by (simp_all add: crash_def)

text \<open>Consequences of the invariant for the thread that takes a step.\<close>

lemma owned_unique: "owned_by T w s \<Longrightarrow> t \<in> T \<Longrightarrow> owner_pc (at s t) \<or> held s t \<noteq> [] \<Longrightarrow> t = w"
  by (auto simp: owned_by_def)

lemma not_ownedD: "not_owned T s \<Longrightarrow> t \<in> T \<Longrightarrow> W \<notin> set (held s t) \<and> \<not> owner_pc (at s t)"
  by (simp add: not_owned_def)

lemma owner_is:
  assumes inv: "lock_inv T s" and T: "finite T" "thread_ids T" and t: "t \<in> T"
  shows "lock_thread_id (lockFlag s) = t \<longleftrightarrow> owned_by T t s"
    and "owner_pc (at s t) \<Longrightarrow> owned_by T t s"
    and "W \<in> set (held s t) \<Longrightarrow> owned_by T t s"
    and "unat (lockFlag s) < 65536 \<Longrightarrow> not_owned T s"
proof -
  have t0: "0 < t" using T(2) t by (auto simp: thread_ids_def)
  have id: "lock_thread_id (lockFlag s) = w" if "owned_by T w s" for w
  proof (rule flag_is_parts(1))
    show "flag_is (lockFlag s) w (count_list (held s w) R)" using that by (simp add: owned_by_def)
    have "count_list (held s w) R \<le> live_guards T s"
      using guards_le_live [OF T(1), of w s] count_guards [of "held s w"] that by (simp add: owned_by_def)
    then show "count_list (held s w) R < 65536" using inv by (simp add: lock_inv_def)
  qed
  have id0: "lock_thread_id (lockFlag s) = 0" if "not_owned T s"
    using that inv by (intro flag_is_parts(1)) (auto simp: not_owned_def lock_inv_def)
  show "lock_thread_id (lockFlag s) = t \<longleftrightarrow> owned_by T t s"
    using id id0 inv t0 by (auto simp: lock_inv_def)
  have cases: "not_owned T s \<or> (\<exists>w. owned_by T w s)" using inv by (simp add: lock_inv_def)
  show "owned_by T t s" if "owner_pc (at s t)"
    using cases not_ownedD [OF _ t] owned_unique [OF _ t] that by metis
  show "owned_by T t s" if "W \<in> set (held s t)"
    using cases not_ownedD [OF _ t] owned_unique [OF _ t] that by (metis empty_iff empty_set)
  show "not_owned T s" if lt: "unat (lockFlag s) < 65536"
  proof -
    have "lock_thread_id (lockFlag s) = 0"
      using lt unat_lock_thread_id [of "lockFlag s"] by (simp add: unat_eq_zero)
    moreover have "w \<noteq> 0" if "owned_by T w s" for w
      using that T(2) by (auto simp: owned_by_def thread_ids_def)
    ultimately show ?thesis using inv id by (auto simp: lock_inv_def)
  qed
qed

lemma not_owned_goto:
  "not_owned T s \<Longrightarrow> \<not> owner_pc p \<Longrightarrow> not_owned T (goto t p s)"
  by (simp add: not_owned_def)

lemma owned_goto_other:
  "owned_by T w s \<Longrightarrow> t \<noteq> w \<Longrightarrow> \<not> owner_pc p \<Longrightarrow> owned_by T w (goto t p s)"
  by (simp add: owned_by_def)

lemma owned_goto_self:
  "owned_by T t s \<Longrightarrow> pc_ok p (held s t) \<Longrightarrow> uncounted p = uncounted (at s t) \<Longrightarrow> owned_by T t (goto t p s)"
  by (simp add: owned_by_def)

text \<open>A thread moves to a place that claims nothing.\<close>

lemma lock_inv_goto:
  assumes inv: "lock_inv T s" and p: "\<not> owner_pc p" "\<And>gs. pc_ok p gs" "uncounted p = 0"
    and old: "uncounted (at s t) = 0" and e: "\<And>e. p = RLoaded e \<Longrightarrow> unat e < 65536"
  shows "lock_inv T (goto t p s)"
proof -
  have "not_owned T (goto t p s) \<or> (\<exists>w. owned_by T w (goto t p s))"
    using inv p old not_owned_goto [of T s p t] owned_goto_other [of T _ s t p] owned_goto_self [of T t s p]
    unfolding lock_inv_def by metis
  then show ?thesis using inv e by (simp add: lock_inv_def)
qed

section \<open>Every step keeps the invariant\<close>

lemma lock_inv_crash: "lock_inv T (crash f s) \<longleftrightarrow> lock_inv T s"
  by (simp add: lock_inv_def not_owned_def owned_by_def)

lemma lock_inv_ownedI:
  "owned_by T w s \<Longrightarrow> live_guards T s \<le> 0xFFFF \<Longrightarrow> (\<And>t e. t \<in> T \<Longrightarrow> at s t = RLoaded e \<Longrightarrow> unat e < 65536) \<Longrightarrow>
   lock_inv T s"
  by (auto simp: lock_inv_def)

lemma lock_inv_loaded: "lock_inv T s \<Longrightarrow> t \<in> T \<Longrightarrow> at s t = RLoaded e \<Longrightarrow> unat e < 65536"
  by (auto simp: lock_inv_def)

lemma t_range: "thread_ids T \<Longrightarrow> t \<in> T \<Longrightarrow> 0 < t" "thread_ids T \<Longrightarrow> t \<in> T \<Longrightarrow> t < 0x10000"
  by (auto simp: thread_ids_def)

lemma write_enter_inv:
  assumes inv: "lock_inv T s" and T: "finite T" "thread_ids T" and t: "t \<in> T"
    and idle: "at s t = Idle"
  shows "lock_inv T (WriteLock_enter t s)"
proof (cases "lock_thread_id (lockFlag s) = t")
  case False
  then show ?thesis using inv idle by (auto simp: WriteLock_enter_def intro!: lock_inv_goto)
next
  case True
  have "owned_by T t (goto t WReenter s)"
    using owner_is(1) [OF inv T t] True idle by (intro owned_goto_self) auto
  then show ?thesis
    using True inv by (auto simp: WriteLock_enter_def lock_inv_def)
qed

lemma read_enter_inv:
  assumes inv: "lock_inv T s" and T: "finite T" "thread_ids T" and t: "t \<in> T"
    and idle: "at s t = Idle"
  shows "lock_inv T (ReadLock_enter t s)"
proof (cases "lock_thread_id (lockFlag s) = t")
  case False
  then show ?thesis using inv idle by (auto simp: ReadLock_enter_def intro!: lock_inv_goto)
next
  case True
  have "owned_by T t (goto t RReenter s)"
    using owner_is(1) [OF inv T t] True idle by (intro owned_goto_self) auto
  then show ?thesis
    using True inv by (auto simp: ReadLock_enter_def lock_inv_def)
qed

lemma write_reenter_inv:
  assumes inv: "lock_inv T s" and T: "finite T" "thread_ids T" and t: "t \<in> T"
    and pc: "at s t = WReenter"
    and few: "live_guards T (WriteLock_reenter t s) \<le> 0xFFFF"
  shows "lock_inv T (WriteLock_reenter t s)"
proof -
  have own: "owned_by T t s" using owner_is(2) [OF inv T t] pc by simp
  have "owned_by T t (WriteLock_reenter t s)"
    using own pc by (simp add: owned_by_def WriteLock_reenter_def add.commute)
  then show ?thesis
    using few inv by (auto simp: WriteLock_reenter_def intro!: lock_inv_ownedI dest: lock_inv_loaded split: if_splits)
qed

lemma write_exchange_inv:
  assumes inv: "lock_inv T s" and T: "finite T" "thread_ids T" and t: "t \<in> T"
    and pc: "at s t = WSpin"
    and few: "live_guards T (WriteLock_exchange t s) \<le> 0xFFFF"
  shows "lock_inv T (WriteLock_exchange t s)"
proof (cases "lockFlag s = EMPTY_FLAG")
  case False
  then show ?thesis using inv by (simp add: WriteLock_exchange_def)
next
  case True
  then have "not_owned T s" by (intro owner_is(4) [OF inv T t]) (simp add: EMPTY_FLAG_def)
  then have "live_guards T s = 0" "writeCount s = 0" and quiet: "\<And>u. u \<in> T \<Longrightarrow> \<not> owner_pc (at s u)"
    using True by (auto simp: not_owned_def flag_is_def EMPTY_FLAG_def)
  then have none: "held s u = []" if "u \<in> T" for u
    using guards_le_live [OF T(1) that, of s] by simp
  have "owned_by T t (WriteLock_exchange t s)"
    using True none quiet t \<open>writeCount s = 0\<close> flag_is_desired [OF t_range(2) [OF T(2) t]]
    by (simp add: owned_by_def WriteLock_exchange_def)
  then show ?thesis
    using few inv True
    by (auto simp: WriteLock_exchange_def intro!: lock_inv_ownedI dest: lock_inv_loaded split: if_splits)
qed

lemma write_count_inv:
  assumes inv: "lock_inv T s" and T: "finite T" "thread_ids T" and t: "t \<in> T"
    and pc: "at s t = WTaken"
  shows "lock_inv T (WriteLock_count t s)"
proof -
  have own: "owned_by T t s" using owner_is(2) [OF inv T t] pc by simp
  then have "held s t = [W]" "writeCount s = 0" using pc by (auto simp: owned_by_def)
  then have "owned_by T t (WriteLock_count t s)"
    using own pc by (simp add: owned_by_def WriteLock_count_def)
  then show ?thesis
    using inv by (auto simp: WriteLock_count_def lock_inv_def split: if_splits)
qed

lemma unlock_check_inv:
  assumes inv: "lock_inv T s" and T: "finite T" "thread_ids T" and t: "t \<in> T"
    and pc: "at s t = Idle" and hd: "held s t = W # gs"
  shows "lock_inv T (WriteUnlock_check t s)"
proof (cases "read_count (lockFlag s) = 0")
  case False
  then show ?thesis using inv by (simp add: WriteUnlock_check_def lock_inv_crash)
next
  case True
  have own: "owned_by T t s" using owner_is(3) [OF inv T t] hd by simp
  have "count_list (held s t) R \<le> live_guards T s"
    using guards_le_live [OF T(1) t, of s] count_guards [of "held s t"] by simp
  then have "count_list (held s t) R < 65536" using inv by (simp add: lock_inv_def)
  moreover have "flag_is (lockFlag s) t (count_list (held s t) R)" using own by (simp add: owned_by_def)
  ultimately have "R \<notin> set (held s t)" using True flag_is_parts(3) by (simp add: count_R_0)
  then have "owned_by T t (goto t UDec s)" using own pc hd by (intro owned_goto_self) auto
  then show ?thesis
    using True inv by (auto simp: WriteUnlock_check_def lock_inv_def split: if_splits)
qed

lemma unlock_dec_inv:
  assumes inv: "lock_inv T s" and T: "finite T" "thread_ids T" and t: "t \<in> T"
    and pc: "at s t = UDec"
  shows "lock_inv T (WriteUnlock_decrement t s)"
proof -
  have own: "owned_by T t s" using owner_is(2) [OF inv T t] pc by simp
  have gs0: "held s t \<noteq> []" "R \<notin> set (held s t)" using own pc by (auto simp: owned_by_def)
  define n where "n = length (held s t)"
  have n: "0 < n" "n \<le> 65535"
    using gs0(1) guards_le_live [OF T(1) t, of s] inv by (auto simp: n_def lock_inv_def)
  have wc: "writeCount s = of_nat n"
    using own pc only_writes [OF gs0(2)] by (simp add: owned_by_def n_def)
  then have dec: "writeCount s - 1 = of_nat (n - 1)" using n(1) by (simp add: of_nat_diff)
  have zero: "writeCount s - 1 = 0 \<longleftrightarrow> n = 1"
  proof -
    have "unat (of_nat (n - 1) :: uint16) = n - 1" using n(2) by (simp add: unat_of_nat)
    then show ?thesis using n(1) unfolding dec by (metis One_nat_def Suc_pred diff_self_eq_0 unat_0 unat_eq_zero)
  qed
  obtain gs where gs: "held s t = W # gs" "R \<notin> set gs"
    using gs0 by (cases "held s t") (auto, metis guard.exhaust)
  have cnt: "count_list gs W = length gs" "count_list gs R = 0"
    using only_writes [OF gs(2)] gs(2) by (simp_all add: count_R_0)
  have flag: "flag_is (lockFlag s) t 0"
    using own gs0(2) by (simp add: owned_by_def count_R_0)
  have others: "t \<in> T" "\<forall>u \<in> T. u \<noteq> t \<longrightarrow> held s u = [] \<and> \<not> owner_pc (at s u)"
    using own by (simp_all add: owned_by_def)
  show ?thesis
  proof (cases "n = 1")
    case True
    then have step: "WriteUnlock_decrement t s = goto t UStore (s\<lparr>writeCount := 0\<rparr>)"
      using zero by (simp add: WriteUnlock_decrement_def)
    have "gs = []" using True gs by (simp add: n_def)
    then have "owned_by T t (goto t UStore (s\<lparr>writeCount := 0\<rparr>))"
      using others gs flag by (simp add: owned_by_def)
    then show ?thesis
      unfolding step by (rule lock_inv_ownedI) (use inv in \<open>auto simp: lock_inv_def split: if_splits\<close>)
  next
    case False
    then have step: "WriteUnlock_decrement t s = goto t Idle (drop_guard t (s\<lparr>writeCount := of_nat (n - 1)\<rparr>))"
      using zero dec by (simp add: WriteUnlock_decrement_def)
    have "gs \<noteq> []" using False gs n(1) by (auto simp: n_def)
    then have "W \<in> set gs" using gs(2) by (cases gs) (auto, metis guard.exhaust)
    then have "owned_by T t (goto t Idle (drop_guard t (s\<lparr>writeCount := of_nat (n - 1)\<rparr>)))"
      using others gs(1) flag cnt by (simp add: owned_by_def n_def)
    moreover have "live_guards T (drop_guard t (s\<lparr>writeCount := of_nat (n - 1)\<rparr>)) \<le> 0xFFFF"
      using live_guards_drop [OF T(1) t, of "s\<lparr>writeCount := of_nat (n - 1)\<rparr>" W gs] gs inv
      by (simp add: lock_inv_def)
    ultimately show ?thesis
      unfolding step by (intro lock_inv_ownedI) (use inv in \<open>auto simp: lock_inv_def split: if_splits\<close>)
  qed
qed

lemma unlock_store_inv:
  assumes inv: "lock_inv T s" and T: "finite T" "thread_ids T" and t: "t \<in> T"
    and pc: "at s t = UStore"
  shows "lock_inv T (WriteUnlock_store t s)"
proof -
  have own: "owned_by T t s" using owner_is(2) [OF inv T t] pc by simp
  then have one: "held s t = [W]" "writeCount s = 0" and others: "\<forall>u \<in> T. u \<noteq> t \<longrightarrow> held s u = [] \<and> \<not> owner_pc (at s u)"
    using pc by (auto simp: owned_by_def)
  let ?s = "WriteUnlock_store t s"
  have none: "held ?s u = [] \<and> \<not> owner_pc (at ?s u)" if "u \<in> T" for u
    using one others that by (simp add: WriteUnlock_store_def)
  then have "live_guards T ?s = 0" by (simp add: live_guards_def)
  moreover from this none have "not_owned T ?s"
    using one flag_is_empty by (simp add: not_owned_def WriteUnlock_store_def)
  ultimately show ?thesis
    using inv by (auto simp: lock_inv_def WriteUnlock_store_def split: if_splits)
qed

lemma read_reenter_inv:
  assumes inv: "lock_inv T s" and T: "finite T" "thread_ids T" and t: "t \<in> T"
    and pc: "at s t = RReenter" and few: "live_guards T (ReadLock_reenter t s) \<le> 0xFFFF"
  shows "lock_inv T (ReadLock_reenter t s)"
proof -
  have own: "owned_by T t s" using owner_is(2) [OF inv T t] pc by simp
  have "count_list (held s t) R \<le> length (held s t)" using count_guards [of "held s t"] by linarith
  also have "\<dots> < 65535"
    using guards_le_live [OF T(1) t, of "ReadLock_reenter t s"] few by (simp add: ReadLock_reenter_def)
  finally have "flag_is (lockFlag s + 1) t (Suc (count_list (held s t) R))"
    using own t_range [OF T(2) t] by (intro flag_is_add) (auto simp: owned_by_def)
  then have "owned_by T t (ReadLock_reenter t s)"
    using own pc by (simp add: owned_by_def ReadLock_reenter_def)
  then show ?thesis
    using few inv by (auto simp: ReadLock_reenter_def intro!: lock_inv_ownedI dest: lock_inv_loaded split: if_splits)
qed

lemma read_load_inv:
  assumes inv: "lock_inv T s" and pc: "at s t = RSpin"
  shows "lock_inv T (ReadLock_load t s)"
  using inv pc unat_read_count [of "lockFlag s"]
  by (auto simp: ReadLock_load_def intro!: lock_inv_goto)

lemma read_exchange_inv:
  assumes inv: "lock_inv T s" and T: "finite T" "thread_ids T" and t: "t \<in> T"
    and pc: "at s t = RLoaded e" and few: "live_guards T (ReadLock_exchange t e s) \<le> 0xFFFF"
  shows "lock_inv T (ReadLock_exchange t e s)"
proof (cases "lockFlag s = e")
  case False
  then show ?thesis using inv pc by (auto simp: ReadLock_exchange_def intro!: lock_inv_goto)
next
  case True
  let ?s = "goto t Idle (take_guard t R (s\<lparr>lockFlag := e + 1\<rparr>))"
  have "unat (lockFlag s) < 65536" using lock_inv_loaded [OF inv t pc] True by simp
  then have free: "not_owned T s" by (rule owner_is(4) [OF inv T t])
  have step: "ReadLock_exchange t e s = ?s" using True by (simp add: ReadLock_exchange_def)
  have live: "live_guards T ?s = Suc (live_guards T s)"
    using live_guards_take [OF T(1) t, of R "s\<lparr>lockFlag := e + 1\<rparr>"] by simp
  have "flag_is (e + 1) 0 (Suc (live_guards T s))"
    using free True few live unfolding step by (intro flag_is_add) (auto simp: not_owned_def)
  then have "not_owned T ?s" using free unfolding not_owned_def live by auto
  then show ?thesis
    using few inv unfolding step by (auto simp: lock_inv_def split: if_splits)
qed

lemma read_unlock_inv:
  assumes inv: "lock_inv T s" and T: "finite T" "thread_ids T" and t: "t \<in> T"
    and pc: "at s t = Idle" and hd: "held s t = R # gs"
  shows "lock_inv T (ReadUnlock t s)" and "crashed (ReadUnlock t s) = crashed s"
proof -
  let ?s1 = "s\<lparr>lockFlag := lockFlag s - 1\<rparr>"
  let ?s = "drop_guard t ?s1"
  have live: "Suc (live_guards T ?s) = live_guards T s"
    using live_guards_drop [OF T(1) t, of ?s1 R gs] hd by simp
  have step: "lock_inv T ?s \<and> read_count (lockFlag s) \<noteq> 0"
  proof (cases "not_owned T s")
    case True
    then have f: "flag_is (lockFlag s) 0 (Suc (live_guards T ?s))" using live by (simp add: not_owned_def)
    have "Suc (live_guards T ?s) < 65536" using inv live by (simp add: lock_inv_def)
    then have "read_count (lockFlag s) \<noteq> 0" using flag_is_parts(3) [OF f] by simp
    moreover have "not_owned T ?s"
      using True flag_is_sub [OF f] hd unfolding not_owned_def by (auto split: if_splits)
    ultimately show ?thesis using inv live by (auto simp: lock_inv_def)
  next
    case False
    then obtain w where "owned_by T w s" using inv by (auto simp: lock_inv_def)
    then have own: "owned_by T t s" using owned_unique [of T w s t] t hd by auto
    then have f: "flag_is (lockFlag s) t (Suc (count_list gs R))" using hd by (simp add: owned_by_def)
    have "Suc (count_list gs R) \<le> live_guards T s"
      using guards_le_live [OF T(1) t, of s] count_guards [of gs] hd by simp
    then have "Suc (count_list gs R) < 65536" using inv by (simp add: lock_inv_def)
    then have "read_count (lockFlag s) \<noteq> 0" using flag_is_parts(3) [OF f] by simp
    moreover have "owned_by T t ?s" using own pc hd flag_is_sub [OF f] by (simp add: owned_by_def)
    ultimately show ?thesis using inv live by (auto simp: lock_inv_def)
  qed
  then have "ReadUnlock t s = ?s" by (simp add: ReadUnlock_def)
  with step show "lock_inv T (ReadUnlock t s)" "crashed (ReadUnlock t s) = crashed s" by simp_all
qed

lemma lock_step_inv:
  assumes step: "lock_step T s s'" and inv: "lock_inv T s" and T: "finite T" "thread_ids T"
    and few: "live_guards T s' \<le> 0xFFFF"
  shows "lock_inv T s'"
  using step
proof cases
  case (s_write_enter t)
  then show ?thesis using write_enter_inv [OF inv T] by blast
next
  case (s_write_reenter t)
  then show ?thesis using write_reenter_inv [OF inv T] few by blast
next
  case (s_write_exchange t)
  then show ?thesis using write_exchange_inv [OF inv T] few by blast
next
  case (s_write_count t)
  then show ?thesis using write_count_inv [OF inv T] by blast
next
  case (s_unlock_check t gs)
  then show ?thesis using unlock_check_inv [OF inv T] by blast
next
  case (s_unlock_dec t)
  then show ?thesis using unlock_dec_inv [OF inv T] by blast
next
  case (s_unlock_store t)
  then show ?thesis using unlock_store_inv [OF inv T] by blast
next
  case (s_read_enter t)
  then show ?thesis using read_enter_inv [OF inv T] by blast
next
  case (s_read_reenter t)
  then show ?thesis using read_reenter_inv [OF inv T] few by blast
next
  case (s_read_load t)
  then show ?thesis using read_load_inv [OF inv] by blast
next
  case (s_read_exchange t e)
  then show ?thesis using read_exchange_inv [OF inv T] few by blast
next
  case (s_read_unlock t gs)
  then show ?thesis using read_unlock_inv(1) [OF inv T] by blast
qed (use inv in \<open>simp_all add: lock_inv_crash\<close>)

lemma lock_inv_init: "lock_inv T Lock"
proof -
  have "live_guards T Lock = 0" by (simp add: live_guards_def Lock_def)
  moreover have "not_owned T Lock"
    using flag_is_empty calculation by (simp add: not_owned_def Lock_def)
  ultimately show ?thesis by (simp add: lock_inv_def Lock_def)
qed

lemma lock_reachable_inv: "lock_reachable T s \<Longrightarrow> finite T \<Longrightarrow> thread_ids T \<Longrightarrow> lock_inv T s"
  by (induction rule: lock_reachable.induct) (auto intro: lock_inv_init lock_step_inv)

section \<open>Properties\<close>

text \<open>
  C4: Mutual exclusion: in every interleaving, when a thread holds the lock for writing, no other thread
  holds it for reading or writing, and the flag names that thread.
\<close>
theorem writer_excludes_others:
  assumes "lock_reachable T s" and "finite T" and "thread_ids T" and "t \<in> T" and "u \<in> T" and "t \<noteq> u"
    and "W \<in> set (held s t)"
  shows "held s u = [] \<and> lock_thread_id (lockFlag s) = t"
proof -
  have inv: "lock_inv T s" using assms(1-3) by (rule lock_reachable_inv)
  have own: "owned_by T t s" using owner_is(3) [OF inv assms(2-4)] assms(7) by simp
  then show ?thesis
    using owned_unique [OF own assms(5)] owner_is(1) [OF inv assms(2-4)] assms(6) by blast
qed

text \<open>
  When every guard has been released and no thread is inside an operation, the lock is as it was
  created: free, with a zero count.
\<close>
theorem lock_returns_to_free:
  assumes "lock_reachable T s" and "finite T" and "thread_ids T"
    and "\<forall>t \<in> T. held s t = []"
  shows "lockFlag s = EMPTY_FLAG \<and> writeCount s = 0"
proof -
  have inv: "lock_inv T s" using assms(1-3) by (rule lock_reachable_inv)
  have "\<not> owned_by T w s" for w using assms(4) by (auto simp: owned_by_def)
  then have "not_owned T s" using inv by (auto simp: lock_inv_def)
  moreover have "live_guards T s = 0" using assms(4) by (simp add: live_guards_def)
  ultimately show ?thesis by (simp add: not_owned_def flag_is_def EMPTY_FLAG_def unat_eq_zero)
qed

text \<open>
  The faults of a run: besides a timeout, the only one is \<open>INVALID_UNLOCK_ORDER\<close>, and a thread that
  releases its innermost write guard gets it exactly when it holds a read guard further out, that is,
  when it has nested write, read and write guards and releases them in the right order.
\<close>
theorem lock_faults:
  assumes "lock_reachable T s" and "finite T" and "thread_ids T" and "crashed s = None"
  shows "(lock_step T s s' \<and> crashed s' = Some f \<longrightarrow> f = LockTimeout \<or> f = InvalidUnlockOrder) \<and>
    (t \<in> T \<and> at s t = Idle \<and> held s t = W # gs \<longrightarrow>
       (crashed (WriteUnlock_check t s) = Some InvalidUnlockOrder \<longleftrightarrow> R \<in> set gs))"
proof (intro conjI impI)
  have inv: "lock_inv T s" using assms(1-3) by (rule lock_reachable_inv)
  assume st: "lock_step T s s' \<and> crashed s' = Some f"
  then have "lock_step T s s'" "crashed s' = Some f" by simp_all
  then show "f = LockTimeout \<or> f = InvalidUnlockOrder"
  proof cases
    case (s_read_unlock u gs')
    then show ?thesis using read_unlock_inv(2) [OF inv assms(2,3), of u gs'] assms(4) \<open>crashed s' = Some f\<close> by simp
  qed (use assms(4) \<open>crashed s' = Some f\<close> in \<open>auto simp: WriteLock_enter_def WriteLock_reenter_def
      WriteLock_exchange_def WriteLock_count_def WriteUnlock_check_def WriteUnlock_decrement_def
      WriteUnlock_store_def ReadLock_enter_def ReadLock_reenter_def ReadLock_load_def
      ReadLock_exchange_def Let_def split: if_splits\<close>)
next
  have inv: "lock_inv T s" using assms(1-3) by (rule lock_reachable_inv)
  assume st: "t \<in> T \<and> at s t = Idle \<and> held s t = W # gs"
  then have own: "owned_by T t s" using owner_is(3) [OF inv assms(2,3)] by simp
  have "count_list (held s t) R \<le> live_guards T s"
    using guards_le_live [OF assms(2), of t s] count_guards [of "held s t"] st by simp
  then have "count_list (held s t) R < 65536" using inv by (simp add: lock_inv_def)
  moreover have "flag_is (lockFlag s) t (count_list (held s t) R)" using own by (simp add: owned_by_def)
  ultimately have "read_count (lockFlag s) = 0 \<longleftrightarrow> R \<notin> set gs"
    using flag_is_parts(3) st by (simp add: count_R_0)
  then show "crashed (WriteUnlock_check t s) = Some InvalidUnlockOrder \<longleftrightarrow> R \<in> set gs"
    using assms(4) by (auto simp: WriteUnlock_check_def)
qed

text \<open>
  A thread that holds the lock for reading and asks for it for writing never gets it: every exchange
  it tries leaves the state unchanged, until the timeout crashes the program.
\<close>
theorem upgrade_never_succeeds:
  assumes "lock_reachable T s" and "finite T" and "thread_ids T" and "t \<in> T"
    and "R \<in> set (held s t)" and "at s t = WSpin"
  shows "WriteLock_exchange t s = s"
proof -
  have inv: "lock_inv T s" using assms(1-3) by (rule lock_reachable_inv)
  have "0 < length (held s t)" using assms(5) by auto
  then have "0 < live_guards T s" using guards_le_live [OF assms(2,4), of s] by linarith
  have "lockFlag s \<noteq> EMPTY_FLAG"
  proof
    assume e: "lockFlag s = EMPTY_FLAG"
    then have "not_owned T s" by (intro owner_is(4) [OF inv assms(2-4)]) (simp add: EMPTY_FLAG_def)
    with e \<open>0 < live_guards T s\<close> show False by (simp add: not_owned_def flag_is_def EMPTY_FLAG_def)
  qed
  then show ?thesis by (simp add: WriteLock_exchange_def)
qed

subsection \<open>Scripted runs\<close>

datatype lock_action = A_write | A_read | A_unlock | A_go

fun lock_exec :: "uint32 \<Rightarrow> lock_action \<Rightarrow> lock_state \<Rightarrow> lock_state" where
  "lock_exec t a s =
     (if crashed s \<noteq> None then s
      else case at s t of
          Idle \<Rightarrow> (case a of
              A_write \<Rightarrow> WriteLock_enter t s
            | A_read \<Rightarrow> ReadLock_enter t s
            | A_unlock \<Rightarrow> (case held s t of
                [] \<Rightarrow> s | W # _ \<Rightarrow> WriteUnlock_check t s | R # _ \<Rightarrow> ReadUnlock t s)
            | A_go \<Rightarrow> s)
        | WReenter \<Rightarrow> WriteLock_reenter t s
        | WSpin \<Rightarrow> WriteLock_exchange t s
        | WTaken \<Rightarrow> WriteLock_count t s
        | UDec \<Rightarrow> WriteUnlock_decrement t s
        | UStore \<Rightarrow> WriteUnlock_store t s
        | RReenter \<Rightarrow> ReadLock_reenter t s
        | RSpin \<Rightarrow> ReadLock_load t s
        | RLoaded e \<Rightarrow> ReadLock_exchange t e s)"

declare lock_exec.simps [simp del]

definition lock_run :: "(uint32 \<times> lock_action) list \<Rightarrow> lock_state \<Rightarrow> lock_state" where
  "lock_run script s = foldl (\<lambda>s (t, a). lock_exec t a s) s script"

lemma lock_exec_step:
  "t \<in> T \<Longrightarrow> lock_exec t a s = s \<or> crashed s = None \<and> lock_step T s (lock_exec t a s)"
  by (auto simp: lock_exec.simps intro: lock_step.intros split: pc.splits lock_action.splits list.splits guard.splits)

lemma live_guards_exec:
  assumes "finite T" and "t \<in> T"
  shows "live_guards T (lock_exec t a s) \<le> Suc (live_guards T s)"
proof -
  have take: "live_guards T (take_guard t g s') = Suc (live_guards T s')" for g s'
    using live_guards_take [OF assms] by simp
  have drop: "live_guards T (drop_guard t s') \<le> Suc (live_guards T s')" for s'
  proof (cases "held s' t")
    case Nil
    then have "held (drop_guard t s') = held s'" by (simp add: fun_eq_iff)
    then show ?thesis by (simp add: live_guards_def)
  next
    case (Cons g gs)
    then show ?thesis using live_guards_drop [OF assms Cons] by simp
  qed
  show ?thesis
    using drop [of "s\<lparr>lockFlag := lockFlag s - 1\<rparr>"] drop [of "s\<lparr>writeCount := writeCount s - 1\<rparr>"]
      drop [of "s\<lparr>lockFlag := EMPTY_FLAG\<rparr>"]
    by (simp add: lock_exec.simps WriteLock_enter_def WriteLock_reenter_def WriteLock_exchange_def
        WriteLock_count_def WriteUnlock_check_def WriteUnlock_decrement_def WriteUnlock_store_def
        ReadLock_enter_def ReadLock_reenter_def ReadLock_load_def ReadLock_exchange_def ReadUnlock_def
        Let_def take split: pc.splits lock_action.splits list.splits guard.splits)
qed

lemma lock_run_reachable_from:
  "lock_reachable T s \<Longrightarrow> finite T \<Longrightarrow> \<forall>(t, a) \<in> set script. t \<in> T \<Longrightarrow>
   live_guards T s + length script \<le> 0xFFFF \<Longrightarrow> lock_reachable T (lock_run script s)"
proof (induction script arbitrary: s)
  case Nil
  then show ?case by (simp add: lock_run_def)
next
  case (Cons x script)
  obtain t a where x: "x = (t, a)" by fastforce
  then have t: "t \<in> T" using Cons.prems(3) by simp
  have live: "live_guards T (lock_exec t a s) \<le> Suc (live_guards T s)"
    using live_guards_exec [OF Cons.prems(2) t] .
  have "lock_reachable T (lock_exec t a s)"
    using lock_exec_step [OF t, of a s] Cons.prems(1,4) live by (auto intro: lock_next)
  from Cons.IH [OF this Cons.prems(2)] Cons.prems(3,4) live x show ?case by (simp add: lock_run_def)
qed

lemma lock_run_reachable:
  "finite T \<Longrightarrow> \<forall>(t, a) \<in> set script. t \<in> T \<Longrightarrow> length script \<le> 0xFFFF \<Longrightarrow> lock_reachable T (lock_run script Lock)"
  by (rule lock_run_reachable_from [OF lock_init]) (simp_all add: live_guards_def Lock_def)

text \<open>Thread 1 takes a write, a read and a write guard in that order while thread 2 spins.\<close>

definition nested_script :: "(uint32 \<times> lock_action) list" where
  "nested_script = [(1, A_write), (1, A_go), (2, A_write), (1, A_go), (1, A_read), (1, A_go), (2, A_go),
     (1, A_write), (1, A_go)]"

text \<open>Thread 1 takes a read guard and then wants to write.\<close>

definition upgrade_script :: "(uint32 \<times> lock_action) list" where
  "upgrade_script = [(1, A_read), (1, A_go), (1, A_go), (1, A_write)]"

lemma two_threads: "finite {1, 2 :: uint32}" "thread_ids {1, 2}"
  by (simp_all add: thread_ids_def)

lemmas lock_eval = lock_run_def lock_exec.simps WriteLock_enter_def WriteLock_reenter_def
  WriteLock_exchange_def WriteLock_count_def WriteUnlock_check_def WriteUnlock_decrement_def
  WriteUnlock_store_def ReadLock_enter_def ReadLock_reenter_def ReadLock_load_def ReadLock_exchange_def
  ReadUnlock_def Lock_def EMPTY_FLAG_def desired_flag_def lock_thread_id_def read_count_def
  WRITE_THREAD_MASK_def READ_COUNT_MASK_def

lemma nested_values:
  "held (lock_run nested_script Lock) 1 = [W, R, W]" "at (lock_run nested_script Lock) 1 = Idle"
  "crashed (lock_run nested_script Lock) = None"
  by (simp_all add: nested_script_def lock_eval)

lemma upgrade_values:
  "held (lock_run upgrade_script Lock) 1 = [R]" "at (lock_run upgrade_script Lock) 1 = WSpin"
  by (simp_all add: upgrade_script_def lock_eval)

lemma nested_reachable: "lock_reachable {1, 2} (lock_run nested_script Lock)"
  by (rule lock_run_reachable) (simp_all add: nested_script_def)

lemma upgrade_reachable: "lock_reachable {1, 2} (lock_run upgrade_script Lock)"
  by (rule lock_run_reachable) (simp_all add: upgrade_script_def)

theorem writer_excludes_others_witness:
  "held (lock_run nested_script Lock) 2 = [] \<and> lock_thread_id (lockFlag (lock_run nested_script Lock)) = 1"
  by (rule writer_excludes_others [OF nested_reachable two_threads]) (simp_all add: nested_values)

theorem lock_returns_to_free_witness:
  "lockFlag (lock_run [(1, A_read), (1, A_go), (1, A_go), (1, A_unlock)] Lock) = EMPTY_FLAG"
proof -
  have "lock_reachable {1, 2} (lock_run [(1, A_read), (1, A_go), (1, A_go), (1, A_unlock)] Lock)"
    by (rule lock_run_reachable) simp_all
  from lock_returns_to_free [OF this two_threads] show ?thesis by (simp add: lock_eval)
qed

theorem lock_faults_witness:
  "crashed (WriteUnlock_check 1 (lock_run nested_script Lock)) = Some InvalidUnlockOrder"
  using lock_faults [OF nested_reachable two_threads nested_values(3), of _ _ 1 "[R, W]"]
    nested_values(1,2) by simp

theorem upgrade_never_succeeds_witness:
  "WriteLock_exchange 1 (lock_run upgrade_script Lock) = lock_run upgrade_script Lock"
  by (rule upgrade_never_succeeds [OF upgrade_reachable two_threads]) (simp_all add: upgrade_values)

end
