(* ===== verification/Deadlock_Profiler.thy ===== *)
theory Deadlock_Profiler
  imports Prelude
begin

text \<open>
  \<open>DeadLockProfiler\<close> (\<open>ClientNetworkCore/DeadLockProfiler.h\<close>, \<open>DeadLockProfiler.cpp\<close>): every lock has a
  number, the history records an edge from the lock on top of a thread's stack to the one taken next,
  and a new edge triggers a depth-first search of the whole graph that crashes the program when it
  meets a back edge. The main theorem is that the search crashes exactly when the graph has a cycle.
  The search is given fuel, since its recursion follows the graph; one unit more than the number of
  locks is enough.
\<close>

section \<open>State\<close>

record profiler =
  nameToId :: "string list"                \<comment> \<open>the id of a name is its position\<close>
  lockHistory :: "nat \<Rightarrow> nat list"          \<comment> \<open>ascending, as a \<open>std::set\<close> iterates\<close>
  lockStack :: "nat \<Rightarrow> nat list"            \<comment> \<open>\<open>LLockStack\<close> by thread, top first\<close>

record dfs_state =
  discoveredOrder :: "nat \<Rightarrow> nat option"    \<comment> \<open>\<open>None\<close> for the \<open>-1\<close> of the code\<close>
  discoveredCount :: nat
  finished :: "nat set"
  parent :: "nat \<Rightarrow> nat option"

definition DeadLockProfiler :: profiler where
  "DeadLockProfiler = \<lparr>nameToId = [], lockHistory = (\<lambda>_. []), lockStack = (\<lambda>_. [])\<rparr>"

definition dfs_init :: dfs_state where
  "dfs_init = \<lparr>discoveredOrder = (\<lambda>_. None), discoveredCount = 0, finished = {}, parent = (\<lambda>_. None)\<rparr>"

section \<open>The search\<close>

definition discover :: "nat \<Rightarrow> dfs_state \<Rightarrow> dfs_state" where
  "discover here s =
     s\<lparr>discoveredOrder := (discoveredOrder s)(here \<mapsto> discoveredCount s),
       discoveredCount := Suc (discoveredCount s)\<rparr>"

definition finish :: "nat \<Rightarrow> dfs_state \<Rightarrow> dfs_state" where
  "finish here s = s\<lparr>finished := insert here (finished s)\<rparr>"

definition discovered_before :: "dfs_state \<Rightarrow> nat \<Rightarrow> nat \<Rightarrow> bool" where
  "discovered_before s here there = (the (discoveredOrder s here) < the (discoveredOrder s there))"

text \<open>\<open>Dfs\<close> and its loop over the successors; \<open>None\<close> when the fuel runs out.\<close>

fun Dfs :: "nat \<Rightarrow> (nat \<Rightarrow> nat list) \<Rightarrow> nat \<Rightarrow> dfs_state \<Rightarrow> dfs_state res option"
  and dfs_next :: "nat \<Rightarrow> (nat \<Rightarrow> nat list) \<Rightarrow> nat \<Rightarrow> nat list \<Rightarrow> dfs_state \<Rightarrow> dfs_state res option" where
  "Dfs 0 G here s = None"
| "Dfs (Suc fuel) G here s =
     (if discoveredOrder s here \<noteq> None then Some (Inr s)
      else case dfs_next fuel G here (G here) (discover here s) of
          Some (Inr s') \<Rightarrow> Some (Inr (finish here s'))
        | r \<Rightarrow> r)"
| "dfs_next fuel G here [] s = Some (Inr s)"
| "dfs_next fuel G here (there # ts) s =
     (if discoveredOrder s there = None
      then case Dfs fuel G there (s\<lparr>parent := (parent s)(there \<mapsto> here)\<rparr>) of
          Some (Inr s') \<Rightarrow> dfs_next fuel G here ts s'
        | r \<Rightarrow> r
      else if discovered_before s here there then dfs_next fuel G here ts s
      else if there \<notin> finished s then Some (Inl DeadlockDetected)
      else dfs_next fuel G here ts s)"

fun check_from :: "nat \<Rightarrow> (nat \<Rightarrow> nat list) \<Rightarrow> nat list \<Rightarrow> dfs_state \<Rightarrow> dfs_state res option" where
  "check_from fuel G [] s = Some (Inr s)"
| "check_from fuel G (v # vs) s =
     (case Dfs fuel G v s of Some (Inr s') \<Rightarrow> check_from fuel G vs s' | r \<Rightarrow> r)"

definition CheckCycle :: "nat \<Rightarrow> (nat \<Rightarrow> nat list) \<Rightarrow> dfs_state res option" where
  "CheckCycle lockCount G = check_from (Suc lockCount) G [0..<lockCount] dfs_init"

section \<open>PushLock and PopLock\<close>

fun find_id :: "string \<Rightarrow> string list \<Rightarrow> nat option" where
  "find_id name [] = None"
| "find_id name (x # xs) = (if x = name then Some 0 else map_option Suc (find_id name xs))"

definition lock_id :: "string \<Rightarrow> profiler \<Rightarrow> nat \<times> profiler" where
  "lock_id name p =
     (case find_id name (nameToId p) of
        None \<Rightarrow> (length (nameToId p), p\<lparr>nameToId := nameToId p @ [name]\<rparr>)
      | Some i \<Rightarrow> (i, p))"

definition push_stack :: "nat \<Rightarrow> nat \<Rightarrow> profiler \<Rightarrow> profiler" where
  "push_stack t i p = p\<lparr>lockStack := (lockStack p)(t := i # lockStack p t)\<rparr>"

definition add_edge :: "nat \<Rightarrow> nat \<Rightarrow> profiler \<Rightarrow> profiler" where
  "add_edge prev i p = p\<lparr>lockHistory := (lockHistory p)(prev := insort i (lockHistory p prev))\<rparr>"

definition PushLock :: "nat \<Rightarrow> string \<Rightarrow> profiler \<Rightarrow> profiler res option" where
  "PushLock t name p =
     (let (i, p1) = lock_id name p
      in case lockStack p1 t of
          [] \<Rightarrow> Some (Inr (push_stack t i p1))
        | prev # _ \<Rightarrow>
            if i \<noteq> prev \<and> i \<notin> set (lockHistory p1 prev)
            then let p2 = add_edge prev i p1
                 in case CheckCycle (length (nameToId p2)) (lockHistory p2) of
                     None \<Rightarrow> None
                   | Some (Inl e) \<Rightarrow> Some (Inl e)
                   | Some (Inr _) \<Rightarrow> Some (Inr (push_stack t i p2))
            else Some (Inr (push_stack t i p1)))"

text \<open>\<open>_nameToId[name]\<close> of an unknown name would create it with id 0.\<close>

definition PopLock :: "nat \<Rightarrow> string \<Rightarrow> profiler \<Rightarrow> profiler res" where
  "PopLock t name p =
     (case lockStack p t of
        [] \<Rightarrow> Inl MultipleUnlock
      | cur # rest \<Rightarrow>
          if cur \<noteq> (case find_id name (nameToId p) of None \<Rightarrow> 0 | Some i \<Rightarrow> i) then Inl InvalidUnlock
          else Inr (p\<lparr>lockStack := (lockStack p)(t := rest)\<rparr>))"

section \<open>Correctness of the search\<close>

definition edges :: "(nat \<Rightarrow> nat list) \<Rightarrow> (nat \<times> nat) set" where
  "edges G = {(u, v). v \<in> set (G u)}"

definition graph_wf :: "nat \<Rightarrow> (nat \<Rightarrow> nat list) \<Rightarrow> bool" where
  "graph_wf n G \<longleftrightarrow> (\<forall>u. set (G u) \<subseteq> {..<n})"

abbreviation seen :: "dfs_state \<Rightarrow> nat set" where
  "seen s \<equiv> dom (discoveredOrder s)"

definition active :: "dfs_state \<Rightarrow> nat set" where
  "active s = seen s - finished s"

text \<open>Finished nodes only lead to finished nodes and lie on no cycle.\<close>

definition dfs_wf :: "nat \<Rightarrow> (nat \<Rightarrow> nat list) \<Rightarrow> dfs_state \<Rightarrow> bool" where
  "dfs_wf n G s \<longleftrightarrow>
     seen s \<subseteq> {..<n} \<and> finished s \<subseteq> seen s \<and>
     (\<forall>v i. discoveredOrder s v = Some i \<longrightarrow> i < discoveredCount s) \<and>
     (\<forall>v \<in> finished s. set (G v) \<subseteq> finished s \<and> (v, v) \<notin> (edges G)\<^sup>+)"

definition extends :: "dfs_state \<Rightarrow> dfs_state \<Rightarrow> bool" where
  "extends s s' \<longleftrightarrow> active s' = active s \<and> (\<forall>v \<in> seen s. discoveredOrder s' v = discoveredOrder s v)"

lemma extends_refl: "extends s s"
  by (simp add: extends_def)

lemma extends_seen: "extends s s' \<Longrightarrow> seen s \<subseteq> seen s'"
  unfolding extends_def dom_def by auto

lemma extends_trans: "extends s s' \<Longrightarrow> extends s' s'' \<Longrightarrow> extends s s''"
  using extends_seen [of s s'] unfolding extends_def by (metis subset_iff)

lemma extends_finished:
  assumes "extends s s'" and "finished s \<subseteq> seen s"
  shows "finished s \<subseteq> finished s'"
proof
  fix v assume v: "v \<in> finished s"
  then have "v \<in> seen s'" using extends_seen [OF assms(1)] assms(2) by blast
  moreover have "v \<notin> active s'" using assms(1) v by (auto simp: extends_def active_def)
  ultimately show "v \<in> finished s'" by (simp add: active_def)
qed

lemma closed_path:
  assumes "(u, v) \<in> (edges G)\<^sup>+" and "u \<in> F" and "\<forall>x \<in> F. set (G x) \<subseteq> F"
  shows "v \<in> F"
  using assms by (induction rule: trancl_induct) (auto simp: edges_def)

lemma fewer_unseen:
  assumes "seen s \<subseteq> seen s'" and "card ({..<n} - seen s) < k"
  shows "card ({..<n} - seen s') < k"
proof -
  have "card ({..<n} - seen s') \<le> card ({..<n} - seen s)" using assms(1) by (intro card_mono) auto
  then show ?thesis using assms(2) by simp
qed

lemma parent_irrelevant [simp]:
  "dfs_wf n G (s\<lparr>parent := q\<rparr>) \<longleftrightarrow> dfs_wf n G s" "active (s\<lparr>parent := q\<rparr>) = active s"
  "extends s (s\<lparr>parent := q\<rparr>)" "extends (s\<lparr>parent := q\<rparr>) s' \<longleftrightarrow> extends s s'"
  by (simp_all add: dfs_wf_def active_def extends_def)

definition reach_here :: "(nat \<Rightarrow> nat list) \<Rightarrow> nat \<Rightarrow> dfs_state \<Rightarrow> bool" where
  "reach_here G here s \<longleftrightarrow> (\<forall>v \<in> active s. (v, here) \<in> (edges G)\<^sup>*)"

text \<open>\<open>here\<close> is the active node discovered last.\<close>

definition newest :: "nat \<Rightarrow> dfs_state \<Rightarrow> bool" where
  "newest here s \<longleftrightarrow>
     here \<in> active s \<and> (\<forall>v \<in> active s. the (discoveredOrder s v) \<le> the (discoveredOrder s here))"

lemma newest_extends: "extends s s' \<Longrightarrow> newest here s \<Longrightarrow> newest here s'"
  unfolding newest_def extends_def active_def by auto

lemma reach_here_extends: "extends s s' \<Longrightarrow> reach_here G here s \<Longrightarrow> reach_here G here s'"
  by (simp add: reach_here_def extends_def)

definition cyclic :: "(nat \<Rightarrow> nat list) \<Rightarrow> bool" where
  "cyclic G \<longleftrightarrow> (\<exists>v. (v, v) \<in> (edges G)\<^sup>+)"

lemma discover_props:
  assumes wf: "dfs_wf n G s" and here: "here < n" "discoveredOrder s here = None"
    and reach: "reach_here G here s"
  shows "dfs_wf n G (discover here s)" and "reach_here G here (discover here s)"
    and "newest here (discover here s)" and "active (discover here s) = insert here (active s)"
    and "seen (discover here s) = insert here (seen s)"
    and "\<forall>v \<in> seen s. discoveredOrder (discover here s) v = discoveredOrder s v"
proof -
  have nf: "here \<notin> finished s" using wf here(2) by (auto simp: dfs_wf_def)
  show seen: "seen (discover here s) = insert here (seen s)" by (simp add: discover_def)
  show act: "active (discover here s) = insert here (active s)"
    using nf seen by (auto simp: active_def discover_def)
  show "dfs_wf n G (discover here s)"
    using wf here seen unfolding dfs_wf_def by (auto simp: discover_def less_Suc_eq)
  show "reach_here G here (discover here s)" using reach act by (simp add: reach_here_def)
  show "\<forall>v \<in> seen s. discoveredOrder (discover here s) v = discoveredOrder s v"
    using here(2) by (auto simp: discover_def)
  have "the (discoveredOrder s v) < discoveredCount s" if "v \<in> active s" for v
    using wf that by (auto simp: dfs_wf_def active_def)
  then show "newest here (discover here s)"
    using act unfolding newest_def by (auto simp: discover_def less_imp_le)
qed

lemma finish_props:
  assumes wf: "dfs_wf n G s'" and succ: "set (G here) \<subseteq> finished s'" and act: "active s' = insert here A" "here \<notin> A"
  shows "dfs_wf n G (finish here s')" and "active (finish here s') = A"
    and "discoveredOrder (finish here s') = discoveredOrder s'"
proof -
  have here: "here \<in> seen s'" "here \<notin> finished s'" using act(1) by (auto simp: active_def)
  show "active (finish here s') = A" using act here by (auto simp: active_def finish_def)
  show "discoveredOrder (finish here s') = discoveredOrder s'" by (simp add: finish_def)
  have closed: "\<forall>x \<in> finished s'. set (G x) \<subseteq> finished s'" using wf by (simp add: dfs_wf_def)
  have "(here, here) \<notin> (edges G)\<^sup>+"
  proof
    assume "(here, here) \<in> (edges G)\<^sup>+"
    then obtain x where x: "(here, x) \<in> edges G" "(x, here) \<in> (edges G)\<^sup>*" by (meson tranclD)
    then have "x \<in> finished s'" using succ by (auto simp: edges_def)
    then have "here \<in> finished s'"
      using x(2) closed_path [OF _ _ closed, of x here] by (auto simp: rtrancl_eq_or_trancl)
    then show False using here by simp
  qed
  then show "dfs_wf n G (finish here s')"
    using wf succ here unfolding dfs_wf_def by (auto simp: finish_def)
qed

lemma search_correct:
  shows "graph_wf n G \<Longrightarrow> here < n \<Longrightarrow> dfs_wf n G s \<Longrightarrow> reach_here G here s \<Longrightarrow> card ({..<n} - seen s) < fuel \<Longrightarrow>
      (Dfs fuel G here s = Some (Inl DeadlockDetected) \<and> cyclic G) \<or>
      (\<exists>s'. Dfs fuel G here s = Some (Inr s') \<and> dfs_wf n G s' \<and> extends s s' \<and> here \<in> seen s')"
    and "graph_wf n G \<Longrightarrow> dfs_wf n G s \<Longrightarrow> reach_here G here s \<Longrightarrow> newest here s \<Longrightarrow> set ts \<subseteq> set (G here) \<Longrightarrow>
      card ({..<n} - seen s) < fuel \<Longrightarrow>
      (dfs_next fuel G here ts s = Some (Inl DeadlockDetected) \<and> cyclic G) \<or>
      (\<exists>s'. dfs_next fuel G here ts s = Some (Inr s') \<and> dfs_wf n G s' \<and> extends s s' \<and>
        set ts \<subseteq> finished s')"
proof (induction fuel G here s and fuel G here ts s rule: Dfs_dfs_next.induct)
  case (1 G here s)
  then show ?case by simp
next
  case (2 fuel G here s)
  show ?case
  proof (cases "discoveredOrder s here")
    case (Some i)
    then show ?thesis using 2(4) by (auto simp: extends_refl)
  next
    case None
    let ?d = "discover here s"
    note d = discover_props [OF 2(4) 2(3) None 2(5)]
    have "here \<in> {..<n} - seen s" using 2(3) None by auto
    then have "card ({..<n} - seen ?d) < card ({..<n} - seen s)"
      unfolding d(5) by (intro psubset_card_mono) auto
    then have fuel: "card ({..<n} - seen ?d) < fuel" using 2(6) by linarith
    have hn: "here \<notin> active s" using None by (auto simp: active_def)
    from 2(1) [OF _ 2(2) d(1-3) _ fuel] None
    consider "dfs_next fuel G here (G here) ?d = Some (Inl DeadlockDetected)" "cyclic G"
      | s' where "dfs_next fuel G here (G here) ?d = Some (Inr s')" "dfs_wf n G s'" "extends ?d s'"
        "set (G here) \<subseteq> finished s'"
      by auto
    then show ?thesis
    proof cases
      case 1
      then show ?thesis using None by simp
    next
      case (2 s')
      have act: "active s' = insert here (active s)" using 2(3) d(4) by (simp add: extends_def)
      note f = finish_props [OF 2(2,4) act hn]
      have "discoveredOrder s' v = discoveredOrder s v" if "v \<in> seen s" for v
        using 2(3) d(5,6) that by (simp add: extends_def)
      then have "extends s (finish here s')" using f(2,3) by (simp add: extends_def)
      moreover have "here \<in> seen (finish here s')" using act f(3) by (auto simp: active_def)
      ultimately show ?thesis using None 2(1) f(1) by simp
    qed
  qed
next
  case (3 fuel G here s)
  then show ?case by (simp add: extends_refl)
next
  case (4 fuel G here there ts s)
  have edge: "(here, there) \<in> edges G" using 4(9) by (auto simp: edges_def)
  have lt: "there < n" using 4(5) 4(9) unfolding graph_wf_def by fastforce
  have sub: "set ts \<subseteq> set (G here)" using 4(9) by simp
  have fin: "finished s \<subseteq> seen s" using 4(6) by (simp add: dfs_wf_def)
  show ?case
  proof (cases "discoveredOrder s there = None")
    case True
    let ?p = "s\<lparr>parent := (parent s)(there \<mapsto> here)\<rparr>"
    have "reach_here G there ?p"
      using 4(7) edge by (auto simp: reach_here_def intro: rtrancl_into_rtrancl)
    from 4(1) [OF True 4(5) lt _ this] 4(6,10)
    consider "Dfs fuel G there ?p = Some (Inl DeadlockDetected)" "cyclic G"
      | s' where "Dfs fuel G there ?p = Some (Inr s')" "dfs_wf n G s'" "extends s s'" "there \<in> seen s'"
      by auto
    then show ?thesis
    proof cases
      case 1
      then show ?thesis using True by simp
    next
      case (2 s')
      have "there \<notin> active s'" using True 2(3) by (auto simp: extends_def active_def)
      then have tf: "there \<in> finished s'" using 2(4) by (simp add: active_def)
      from 4(2) [OF True 2(1) refl 4(5) 2(2) reach_here_extends [OF 2(3) 4(7)] newest_extends [OF 2(3) 4(8)] sub
          fewer_unseen [OF extends_seen [OF 2(3)] 4(10)]]
      consider "dfs_next fuel G here ts s' = Some (Inl DeadlockDetected)" "cyclic G"
        | s'' where "dfs_next fuel G here ts s' = Some (Inr s'')" "dfs_wf n G s''" "extends s' s''"
          "set ts \<subseteq> finished s''"
        by auto
      then show ?thesis
      proof cases
        case 1
        then show ?thesis using True 2(1) by simp
      next
        case (2 s'')
        have "finished s' \<subseteq> seen s'" using \<open>dfs_wf n G s'\<close> by (simp add: dfs_wf_def)
        then have "there \<in> finished s''" using extends_finished [OF 2(3)] tf by auto
        then show ?thesis
          using True \<open>Dfs fuel G there ?p = Some (Inr s')\<close> 2 extends_trans [OF \<open>extends s s'\<close> 2(3)] by simp
      qed
    qed
  next
    case False
    then have seen: "there \<in> seen s" by auto
    show ?thesis
    proof (cases "there \<in> finished s")
      case True
      have "dfs_next fuel G here (there # ts) s = dfs_next fuel G here ts s"
        by (subst dfs_next.simps(2)) (simp only: False True if_False if_cancel not_True_eq_False)
      moreover have "there \<in> finished s'" if "extends s s'" for s'
        using extends_finished [OF that fin] True by auto
      moreover have "(dfs_next fuel G here ts s = Some (Inl DeadlockDetected) \<and> cyclic G) \<or>
        (\<exists>s'. dfs_next fuel G here ts s = Some (Inr s') \<and> dfs_wf n G s' \<and> extends s s' \<and> set ts \<subseteq> finished s')"
        using 4(3) [OF False _ 4(5-8) sub 4(10)] 4(4) [OF False _ _ 4(5-8) sub 4(10)] True by blast
      ultimately show ?thesis by auto
    next
      case nf: False
      then have act: "there \<in> active s" using seen by (simp add: active_def)
      then have "\<not> discovered_before s here there"
        using 4(8) by (auto simp: newest_def discovered_before_def)
      then have "dfs_next fuel G here (there # ts) s = Some (Inl DeadlockDetected)"
        by (subst dfs_next.simps(2)) (simp only: False nf if_False if_True not_False_eq_True)
      moreover have "(there, here) \<in> (edges G)\<^sup>*" using 4(7) act by (simp add: reach_here_def)
      then have "cyclic G" using edge unfolding cyclic_def by (meson rtrancl_into_trancl2)
      ultimately show ?thesis by simp
    qed
  qed
qed

lemma check_from_correct:
  assumes "graph_wf n G"
  shows "set vs \<subseteq> {..<n} \<Longrightarrow> dfs_wf n G s \<Longrightarrow> active s = {} \<Longrightarrow> n < fuel \<Longrightarrow>
    (check_from fuel G vs s = Some (Inl DeadlockDetected) \<and> cyclic G) \<or>
    (\<exists>s'. check_from fuel G vs s = Some (Inr s') \<and> dfs_wf n G s' \<and> extends s s' \<and> set vs \<subseteq> seen s')"
proof (induction vs arbitrary: s)
  case Nil
  then show ?case by (simp add: extends_refl)
next
  case (Cons v vs)
  have "card ({..<n} - seen s) \<le> card {..<n}" by (rule card_mono) auto
  then have fuel: "card ({..<n} - seen s) < fuel" using Cons.prems(4) by simp
  have "reach_here G v s" using Cons.prems(3) by (simp add: reach_here_def)
  from search_correct(1) [OF assms _ Cons.prems(2) this fuel] Cons.prems(1)
  consider "Dfs fuel G v s = Some (Inl DeadlockDetected)" "cyclic G"
    | s' where "Dfs fuel G v s = Some (Inr s')" "dfs_wf n G s'" "extends s s'" "v \<in> seen s'"
    by auto
  then show ?case
  proof cases
    case 1
    then show ?thesis by simp
  next
    case (2 s')
    have "active s' = {}" using 2(3) Cons.prems(3) by (simp add: extends_def)
    from Cons.IH [OF _ 2(2) this Cons.prems(4)] Cons.prems(1)
    consider "check_from fuel G vs s' = Some (Inl DeadlockDetected)" "cyclic G"
      | s'' where "check_from fuel G vs s' = Some (Inr s'')" "dfs_wf n G s''" "extends s' s''" "set vs \<subseteq> seen s''"
      by auto
    then show ?thesis
    proof cases
      case 1
      then show ?thesis using 2(1) by simp
    next
      case (2 s'')
      have "v \<in> seen s''" using extends_seen [OF 2(3)] \<open>v \<in> seen s'\<close> by blast
      then show ?thesis
        using 2 \<open>Dfs fuel G v s = Some (Inr s')\<close> extends_trans [OF \<open>extends s s'\<close> 2(3)] by simp
    qed
  qed
qed

lemma CheckCycle_result:
  assumes G: "graph_wf n G" and closed: "\<forall>u. G u \<noteq> [] \<longrightarrow> u < n"
  shows "(CheckCycle n G = Some (Inl DeadlockDetected) \<and> cyclic G) \<or>
    (\<exists>s. CheckCycle n G = Some (Inr s) \<and> \<not> cyclic G)"
proof -
  have init: "dfs_wf n G dfs_init" "active dfs_init = {}"
    by (simp_all add: dfs_wf_def dfs_init_def active_def)
  from check_from_correct [OF G _ init, of "[0..<n]" "Suc n"]
  consider "CheckCycle n G = Some (Inl DeadlockDetected)" "cyclic G"
    | s where "CheckCycle n G = Some (Inr s)" "dfs_wf n G s" "extends dfs_init s" "{..<n} \<subseteq> seen s"
    unfolding CheckCycle_def by (auto simp: atLeast0LessThan)
  then show ?thesis
  proof cases
    case (2 s)
    have "active s = {}" using 2(3) init(2) by (simp add: extends_def)
    then have fin: "{..<n} \<subseteq> finished s" using 2(4) by (auto simp: active_def)
    have "(v, v) \<notin> (edges G)\<^sup>+" for v
    proof
      assume v: "(v, v) \<in> (edges G)\<^sup>+"
      then obtain x where "(v, x) \<in> edges G" by (meson tranclD)
      then have "G v \<noteq> []" by (auto simp: edges_def)
      then have "v < n" using closed by blast
      then show False using v fin 2(2) by (auto simp: dfs_wf_def)
    qed
    then show ?thesis using 2(1) by (simp add: cyclic_def)
  qed simp
qed

section \<open>Every run of the profiler\<close>

text \<open>The history only mentions numbered locks, and it has no cycle as long as the program runs.\<close>

definition profiler_inv :: "profiler \<Rightarrow> bool" where
  "profiler_inv p \<longleftrightarrow>
     distinct (nameToId p) \<and> graph_wf (length (nameToId p)) (lockHistory p) \<and>
     (\<forall>u. lockHistory p u \<noteq> [] \<longrightarrow> u < length (nameToId p)) \<and>
     (\<forall>t. set (lockStack p t) \<subseteq> {..<length (nameToId p)}) \<and> \<not> cyclic (lockHistory p)"

lemma find_id_Some: "find_id name xs = Some i \<Longrightarrow> i < length xs \<and> xs ! i = name"
  by (induction xs arbitrary: i) (auto split: if_splits)

lemma find_id_None: "find_id name xs = None \<longleftrightarrow> name \<notin> set xs"
  by (induction xs) auto

lemma find_id_append: "find_id name xs = Some i \<Longrightarrow> find_id name (xs @ ys) = Some i"
  by (induction xs arbitrary: i) (auto split: if_splits)

lemma find_id_new: "name \<notin> set xs \<Longrightarrow> find_id name (xs @ [name]) = Some (length xs)"
  by (induction xs) auto

lemma lock_id_props:
  assumes inv: "profiler_inv p" and l: "lock_id name p = (i, p1)"
  shows "profiler_inv p1" and "i < length (nameToId p1)" and "find_id name (nameToId p1) = Some i"
    and "lockHistory p1 = lockHistory p" and "lockStack p1 = lockStack p"
proof -
  have "profiler_inv p1 \<and> i < length (nameToId p1) \<and> find_id name (nameToId p1) = Some i \<and>
      lockHistory p1 = lockHistory p \<and> lockStack p1 = lockStack p"
  proof (cases "find_id name (nameToId p)")
    case (Some k)
    then show ?thesis using l inv find_id_Some [OF Some] by (simp add: lock_id_def)
  next
    case None
    then have new: "name \<notin> set (nameToId p)" by (simp add: find_id_None)
    have p1: "p1 = p\<lparr>nameToId := nameToId p @ [name]\<rparr>" "i = length (nameToId p)"
      using l None by (simp_all add: lock_id_def)
    have "{..<length (nameToId p)} \<subseteq> {..<Suc (length (nameToId p))}" by auto
    then have "A \<subseteq> {..<length (nameToId p)} \<Longrightarrow> A \<subseteq> {..<Suc (length (nameToId p))}" for A
      by (rule subset_trans [rotated])
    then have "profiler_inv p1"
      using inv new unfolding profiler_inv_def graph_wf_def p1(1) by (simp add: less_Suc_eq)
    then show ?thesis using p1 find_id_new [OF new] by simp
  qed
  then show "profiler_inv p1" "i < length (nameToId p1)" "find_id name (nameToId p1) = Some i"
    "lockHistory p1 = lockHistory p" "lockStack p1 = lockStack p" by simp_all
qed

lemma push_stack_inv:
  "profiler_inv p \<Longrightarrow> i < length (nameToId p) \<Longrightarrow> profiler_inv (push_stack t i p)"
  by (auto simp: profiler_inv_def push_stack_def)

lemma edges_add_edge: "edges (lockHistory (add_edge u v p)) = insert (u, v) (edges (lockHistory p))"
  by (auto simp: edges_def add_edge_def set_insort_key split: if_splits)

lemma cyclic_add_edge:
  assumes "\<not> cyclic (lockHistory p)" and "u \<noteq> v"
  shows "cyclic (lockHistory (add_edge u v p)) \<longleftrightarrow> (v, u) \<in> (edges (lockHistory p))\<^sup>+"
  using assms unfolding cyclic_def edges_add_edge
  by (auto simp: trancl_insert rtrancl_eq_or_trancl intro: trancl_trans)

lemma PushLock_result:
  assumes inv: "profiler_inv p" and l: "lock_id name p = (i, p1)"
  shows "case lockStack p t of
      [] \<Rightarrow> PushLock t name p = Some (Inr (push_stack t i p1)) \<and> profiler_inv (push_stack t i p1)
    | prev # rest \<Rightarrow>
        if i \<noteq> prev \<and> (i, prev) \<in> (edges (lockHistory p))\<^sup>+
        then PushLock t name p = Some (Inl DeadlockDetected)
        else \<exists>p'. PushLock t name p = Some (Inr p') \<and> profiler_inv p' \<and>
          lockStack p' = (lockStack p)(t := i # lockStack p t)"
proof (cases "lockStack p t")
  case Nil
  then show ?thesis
    using l lock_id_props [OF inv l] push_stack_inv by (simp add: PushLock_def)
next
  case (Cons prev rest)
  note q = lock_id_props [OF inv l]
  have acyc: "\<not> cyclic (lockHistory p1)" using q(1) by (simp add: profiler_inv_def)
  have prev: "prev < length (nameToId p1)"
    using q(1,5) Cons unfolding profiler_inv_def by (metis lessThan_iff list.set_intros(1) subsetD)
  show ?thesis
  proof (cases "i \<noteq> prev \<and> i \<notin> set (lockHistory p1 prev)")
    case True
    let ?p2 = "add_edge prev i p1"
    have G: "graph_wf (length (nameToId ?p2)) (lockHistory ?p2)"
      "\<forall>u. lockHistory ?p2 u \<noteq> [] \<longrightarrow> u < length (nameToId ?p2)"
      using q(1,2) prev by (auto simp: profiler_inv_def graph_wf_def add_edge_def set_insort_key)
    have cyc: "cyclic (lockHistory ?p2) \<longleftrightarrow> (i, prev) \<in> (edges (lockHistory p))\<^sup>+"
      using cyclic_add_edge [OF acyc, of prev i] True q(4) by auto
    have push: "PushLock t name p = (case CheckCycle (length (nameToId ?p2)) (lockHistory ?p2) of
                     None \<Rightarrow> None
                   | Some (Inl e) \<Rightarrow> Some (Inl e)
                   | Some (Inr _) \<Rightarrow> Some (Inr (push_stack t i ?p2)))"
      using True l Cons q(5) unfolding PushLock_def Let_def by simp
    from CheckCycle_result [OF G] show ?thesis
    proof (elim disjE exE conjE)
      assume "CheckCycle (length (nameToId ?p2)) (lockHistory ?p2) = Some (Inl DeadlockDetected)"
        and "cyclic (lockHistory ?p2)"
      then show ?thesis using push cyc True Cons by simp
    next
      fix s
      assume c: "CheckCycle (length (nameToId ?p2)) (lockHistory ?p2) = Some (Inr s)"
        "\<not> cyclic (lockHistory ?p2)"
      have "profiler_inv ?p2" using q(1) G c(2) unfolding profiler_inv_def by (simp add: add_edge_def)
      then have "profiler_inv (push_stack t i ?p2)"
        using q(2) by (intro push_stack_inv) (simp_all add: add_edge_def)
      then show ?thesis using push c cyc Cons q(5) by (simp add: push_stack_def add_edge_def)
    qed
  next
    case False
    have "\<not> (i \<noteq> prev \<and> (i, prev) \<in> (edges (lockHistory p))\<^sup>+)"
    proof
      assume a: "i \<noteq> prev \<and> (i, prev) \<in> (edges (lockHistory p))\<^sup>+"
      then have "(prev, i) \<in> edges (lockHistory p)" using False q(4) by (auto simp: edges_def)
      then have "(prev, prev) \<in> (edges (lockHistory p))\<^sup>+" using a by (meson trancl_into_trancl2)
      then show False using acyc q(4) by (auto simp: cyclic_def)
    qed
    moreover have "PushLock t name p = Some (Inr (push_stack t i p1))"
      using False l Cons q(5) by (auto simp: PushLock_def)
    ultimately show ?thesis
      using push_stack_inv [OF q(1,2), of t] q(5) Cons by (auto simp: push_stack_def)
  qed
qed

text \<open>\<open>PopLock\<close> fails on an empty stack or when another lock is on top; otherwise it pops.\<close>

lemma PopLock_top:
  assumes "profiler_inv p" and "lockStack p t = i # rest" and "nameToId p ! i = name"
  shows "PopLock t name p = Inr (p\<lparr>lockStack := (lockStack p)(t := rest)\<rparr>)"
proof -
  have i: "i < length (nameToId p)"
    using assms(1,2) unfolding profiler_inv_def by (metis lessThan_iff list.set_intros(1) subsetD)
  have "find_id name (nameToId p) = Some i"
  proof (cases "find_id name (nameToId p)")
    case None
    then show ?thesis using i assms(3) by (auto simp: find_id_None)
  next
    case (Some k)
    then show ?thesis
      using find_id_Some [OF Some] i assms(1,3) by (auto simp: profiler_inv_def nth_eq_iff_index_eq)
  qed
  then show ?thesis using assms(2) by (simp add: PopLock_def)
qed

lemma PopLock_inv: "profiler_inv p \<Longrightarrow> PopLock t name p = Inr p' \<Longrightarrow> profiler_inv p'"
proof -
  assume inv: "profiler_inv p" and "PopLock t name p = Inr p'"
  then obtain i rest where "lockStack p t = i # rest" and p': "p' = p\<lparr>lockStack := (lockStack p)(t := rest)\<rparr>"
    by (auto simp: PopLock_def split: list.splits if_splits)
  then have "set (lockStack p' u) \<subseteq> set (lockStack p u)" for u by auto
  moreover have "set (lockStack p u) \<subseteq> {..<length (nameToId p)}" for u
    using inv by (simp add: profiler_inv_def)
  ultimately have "\<forall>u. set (lockStack p' u) \<subseteq> {..<length (nameToId p)}" by (meson subset_trans)
  then show "profiler_inv p'" using inv unfolding profiler_inv_def by (simp add: p')
qed

datatype profiler_op = P_Push nat string | P_Pop nat string

fun profiler_exec :: "profiler_op \<Rightarrow> profiler \<Rightarrow> profiler res option" where
  "profiler_exec (P_Push t name) p = PushLock t name p"
| "profiler_exec (P_Pop t name) p = Some (PopLock t name p)"

fun profiler_run :: "profiler_op list \<Rightarrow> profiler \<Rightarrow> profiler res option" where
  "profiler_run [] p = Some (Inr p)"
| "profiler_run (op # ops) p =
     (case profiler_exec op p of Some (Inr p') \<Rightarrow> profiler_run ops p' | r \<Rightarrow> r)"

lemma profiler_inv_init: "profiler_inv DeadLockProfiler"
  by (simp add: profiler_inv_def DeadLockProfiler_def graph_wf_def cyclic_def edges_def trancl_empty)

lemma PushLock_cases:
  assumes "profiler_inv p"
  shows "PushLock t name p = Some (Inl DeadlockDetected) \<or> (\<exists>p'. PushLock t name p = Some (Inr p') \<and> profiler_inv p')"
proof -
  obtain i p1 where l: "lock_id name p = (i, p1)" by fastforce
  show ?thesis
    using PushLock_result [OF assms l, of t] by (cases "lockStack p t") (auto split: if_splits)
qed

lemma profiler_run_inv:
  "profiler_inv p \<Longrightarrow> \<exists>r. profiler_run ops p = Some r \<and> (\<forall>p'. r = Inr p' \<longrightarrow> profiler_inv p')"
proof (induction ops arbitrary: p)
  case Nil
  then show ?case by simp
next
  case (Cons op ops)
  show ?case
  proof (cases op)
    case (P_Push t name)
    then show ?thesis using PushLock_cases [OF Cons.prems, of t name] Cons.IH by auto
  next
    case (P_Pop t name)
    then show ?thesis
      using PopLock_inv [OF Cons.prems, of t name] Cons.IH by (cases "PopLock t name p") auto
  qed
qed

section \<open>Properties\<close>

text \<open>
  C16: The depth-first search always ends, and it reports a deadlock exactly when the graph of recorded
  lock orders has a cycle.
\<close>
theorem CheckCycle_correct:
  assumes "graph_wf n G" and "\<forall>u. G u \<noteq> [] \<longrightarrow> u < n"
  shows "CheckCycle n G \<noteq> None \<and>
    (CheckCycle n G = Some (Inl DeadlockDetected) \<longleftrightarrow> (\<exists>v. (v, v) \<in> (edges G)\<^sup>+))"
  using CheckCycle_result [OF assms] by (auto simp: cyclic_def)

text \<open>
  In every run of the program's locks, taking a lock is reported as a deadlock exactly when the lock
  on top of the thread's stack can already be reached from it in the recorded order; otherwise the
  lock is pushed on the thread's stack and the recorded order stays free of cycles.
\<close>
theorem PushLock_reports_cycles:
  assumes "profiler_run ops DeadLockProfiler = Some (Inr p)" and "lock_id name p = (i, p1)"
    and "lockStack p t = prev # rest"
  shows "if i \<noteq> prev \<and> (i, prev) \<in> (edges (lockHistory p))\<^sup>+
    then PushLock t name p = Some (Inl DeadlockDetected)
    else \<exists>p'. PushLock t name p = Some (Inr p') \<and> lockStack p' = (lockStack p)(t := i # prev # rest) \<and>
      \<not> cyclic (lockHistory p')"
proof -
  have inv: "profiler_inv p" using profiler_run_inv [OF profiler_inv_init, of ops] assms(1) by auto
  show ?thesis
    using PushLock_result [OF inv assms(2), of t] assms(3) by (auto simp: profiler_inv_def)
qed

definition lock_order_ops :: "profiler_op list" where
  "lock_order_ops = [P_Push 0 ''Session'', P_Push 0 ''Service'', P_Pop 0 ''Service'', P_Pop 0 ''Session'',
     P_Push 1 ''Service'']"

theorem CheckCycle_correct_witness:
  "CheckCycle 2 ((\<lambda>_. [])(0 := [1], 1 := [0])) = Some (Inl DeadlockDetected)"
proof -
  let ?G = "(\<lambda>_ :: nat. [])(0 := [1 :: nat], 1 := [0])"
  have "(0, 1) \<in> edges ?G" "(1, 0) \<in> edges ?G" by (simp_all add: edges_def)
  then have "(0, 0) \<in> (edges ?G)\<^sup>+" by (meson trancl.simps)
  moreover have "graph_wf 2 ?G" "\<forall>u. ?G u \<noteq> [] \<longrightarrow> u < 2" by (auto simp: graph_wf_def)
  ultimately show ?thesis using CheckCycle_correct [of 2 ?G] by blast
qed

theorem PushLock_reports_cycles_witness:
  "\<exists>p. profiler_run lock_order_ops DeadLockProfiler = Some (Inr p) \<and>
     PushLock 1 ''Session'' p = Some (Inl DeadlockDetected)"
proof -
  define p where "p = \<lparr>nameToId = [''Session'', ''Service''], lockHistory = (\<lambda>_. [])(0 := [1 :: nat]),
    lockStack = (\<lambda>_. [])(0 := [], 1 := [1 :: nat])\<rparr>"
  have "profiler_run lock_order_ops DeadLockProfiler = Some (Inr p)"
    by (simp add: lock_order_ops_def DeadLockProfiler_def PushLock_def PopLock_def lock_id_def push_stack_def
        add_edge_def CheckCycle_def dfs_init_def discover_def finish_def discovered_before_def p_def numeral_2_eq_2)
  moreover have "(0, 1) \<in> edges (lockHistory p)" by (simp add: edges_def p_def)
  then have "(0, 1) \<in> (edges (lockHistory p))\<^sup>+" by blast
  ultimately show ?thesis
    using PushLock_reports_cycles [of lock_order_ops p "''Session''" 0 p 1 1 "[]"]
    by (simp add: p_def lock_id_def)
qed

end
