(* ===== verification/Memory_Pools.thy ===== *)
theory Memory_Pools
  imports Prelude
begin

text \<open>
  The allocators of \<open>ClientNetworkCore\<close>: the table of pools that \<open>Memory::Memory\<close> builds
  (\<open>Memory.cpp\<close>), the pool itself (\<open>MemoryPool.cpp\<close>), the page allocator \<open>StompAllocator\<close>
  (\<open>Allocator.cpp\<close>) and the header in front of every block. \<open>_STOMP\<close> is defined in \<open>CoreTypes.h\<close>, so
  the build takes the page allocator; both branches are modelled, the flag being an argument. The
  operating system's allocator is a parameter: the address it returns.
\<close>

section \<open>The pool table\<close>

definition MAX_ALLOC_SIZE :: nat where
  "MAX_ALLOC_SIZE = 4096"

definition POOL_COUNT :: nat where
  "POOL_COUNT = 1024 div 32 + 1024 div 128 + 2048 div 256"

record pool_table =
  pools :: "nat list"                      \<comment> \<open>the block size of each pool\<close>
  poolTable :: "nat \<Rightarrow> nat option"         \<comment> \<open>\<open>None\<close>: the entry was never written\<close>
  tableIndex :: nat

text \<open>\<open>while (tableIndex <= size) _poolTable[tableIndex++] = pool\<close>\<close>

function fill_table :: "nat \<Rightarrow> nat \<Rightarrow> pool_table \<Rightarrow> pool_table" where
  "fill_table sz pool m =
     (if tableIndex m \<le> sz
      then fill_table sz pool
        (m\<lparr>poolTable := (poolTable m)(tableIndex m := Some pool), tableIndex := Suc (tableIndex m)\<rparr>)
      else m)"
  by pat_completeness auto
termination
  by (relation "measure (\<lambda>(sz, pool, m). Suc sz - tableIndex m)") auto

declare fill_table.simps [simp del]

definition add_pool :: "nat \<Rightarrow> pool_table \<Rightarrow> pool_table" where
  "add_pool sz m = fill_table sz (length (pools m)) (m\<lparr>pools := pools m @ [sz]\<rparr>)"

text \<open>\<open>for (; size <= limit; size += increment)\<close>\<close>

function pool_loop :: "nat \<Rightarrow> nat \<Rightarrow> nat \<Rightarrow> pool_table \<Rightarrow> nat \<times> pool_table" where
  "pool_loop limit increment sz m =
     (if sz \<le> limit \<and> 0 < increment
      then pool_loop limit increment (sz + increment) (add_pool sz m) else (sz, m))"
  by pat_completeness auto
termination
  by (relation "measure (\<lambda>(limit, increment, sz, m). Suc limit - sz)") auto

declare pool_loop.simps [simp del]

definition Memory :: pool_table where
  "Memory =
     (let m0 = \<lparr>pools = [], poolTable = (\<lambda>_. None), tableIndex = 0\<rparr>;
          (size1, m1) = pool_loop 1024 32 32 m0;
          (size2, m2) = pool_loop 2048 128 size1 m1;
          (size3, m3) = pool_loop 4096 256 size2 m2
      in m3)"

text \<open>Every written entry names the smallest pool that is large enough.\<close>

definition best_pool :: "nat list \<Rightarrow> nat \<Rightarrow> nat \<Rightarrow> bool" where
  "best_pool ps i k \<longleftrightarrow> k < length ps \<and> i \<le> ps ! k \<and> (\<forall>j < k. ps ! j < i)"

definition table_inv :: "pool_table \<Rightarrow> bool" where
  "table_inv m \<longleftrightarrow>
     (\<forall>p \<in> set (pools m). p < tableIndex m) \<and>
     (\<forall>i < tableIndex m. \<exists>k. poolTable m i = Some k \<and> best_pool (pools m) i k) \<and>
     (\<forall>i \<ge> tableIndex m. poolTable m i = None)"

lemma fill_table_result:
  "fill_table sz pool m = m\<lparr>poolTable := (\<lambda>i. if tableIndex m \<le> i \<and> i \<le> sz then Some pool else poolTable m i),
     tableIndex := max (tableIndex m) (Suc sz)\<rparr>"
proof (induction sz pool m rule: fill_table.induct)
  case (1 sz pool m)
  show ?case
  proof (cases "tableIndex m \<le> sz")
    case True
    then show ?thesis using 1
      by (subst fill_table.simps) (auto intro!: pool_table.equality)
  next
    case False
    then have "(\<lambda>i. if tableIndex m \<le> i \<and> i \<le> sz then Some pool else poolTable m i) = poolTable m"
      by (intro ext) auto
    with False show ?thesis by (subst fill_table.simps) simp
  qed
qed

lemma add_pool_inv:
  assumes inv: "table_inv m" and sz: "tableIndex m \<le> sz"
  shows "table_inv (add_pool sz m)" and "pools (add_pool sz m) = pools m @ [sz]"
    and "tableIndex (add_pool sz m) = Suc sz"
proof -
  show p: "pools (add_pool sz m) = pools m @ [sz]" and t: "tableIndex (add_pool sz m) = Suc sz"
    using sz by (simp_all add: add_pool_def fill_table_result)
  have old: "best_pool (pools m @ [sz]) i k" if "best_pool (pools m) i k" for i k
    using that by (auto simp: best_pool_def nth_append)
  have new: "best_pool (pools m @ [sz]) i (length (pools m))" if "tableIndex m \<le> i" "i \<le> sz" for i
    using inv that by (auto simp: best_pool_def nth_append table_inv_def)
      (meson le_trans less_le_trans nth_mem)
  have tab: "poolTable (add_pool sz m) i =
      (if tableIndex m \<le> i \<and> i \<le> sz then Some (length (pools m)) else poolTable m i)" for i
    by (simp add: add_pool_def fill_table_result)
  show "table_inv (add_pool sz m)"
    unfolding table_inv_def p t
  proof (intro conjI allI impI)
    show "\<forall>q \<in> set (pools m @ [sz]). q < Suc sz"
      using inv sz by (auto simp: table_inv_def)
    fix i
    show "\<exists>k. poolTable (add_pool sz m) i = Some k \<and> best_pool (pools m @ [sz]) i k" if "i < Suc sz"
    proof (cases "tableIndex m \<le> i")
      case True
      then show ?thesis using that new tab by simp
    next
      case False
      then obtain k where "poolTable m i = Some k" "best_pool (pools m) i k"
        using inv unfolding table_inv_def by (meson not_le)
      then show ?thesis using False old tab by simp
    qed
    show "poolTable (add_pool sz m) i = None" if "Suc sz \<le> i"
      using that inv sz tab by (simp add: table_inv_def)
  qed
qed

lemma pool_loop_inv:
  "table_inv m \<Longrightarrow> tableIndex m \<le> sz \<Longrightarrow> pool_loop limit inc sz m = (sz', m') \<Longrightarrow>
   table_inv m' \<and> tableIndex m' \<le> sz'"
proof (induction limit inc sz m rule: pool_loop.induct)
  case (1 limit inc sz m)
  show ?case
  proof (cases "sz \<le> limit \<and> 0 < inc")
    case True
    note a = add_pool_inv [OF 1(2,3)]
    have "pool_loop limit inc (sz + inc) (add_pool sz m) = (sz', m')"
      using True 1(4) by (subst (asm) pool_loop.simps) simp
    then show ?thesis using 1(1) [OF True a(1)] a(3) True by simp
  next
    case False
    then show ?thesis using 1(2-4) by (subst (asm) pool_loop.simps) auto
  qed
qed

text \<open>The sizes alone are computed by running the loops on them.\<close>

function loop_sizes :: "nat \<Rightarrow> nat \<Rightarrow> nat \<Rightarrow> nat list" where
  "loop_sizes limit inc sz =
     (if sz \<le> limit \<and> 0 < inc then sz # loop_sizes limit inc (sz + inc) else [])"
  by pat_completeness auto
termination
  by (relation "measure (\<lambda>(limit, inc, sz). Suc limit - sz)") auto

declare loop_sizes.simps [simp del]

lemma pool_loop_sizes:
  "table_inv m \<Longrightarrow> tableIndex m \<le> sz \<Longrightarrow> pool_loop limit inc sz m = (sz', m') \<Longrightarrow>
   pools m' = pools m @ loop_sizes limit inc sz \<and>
   sz' = (if loop_sizes limit inc sz = [] then sz else last (loop_sizes limit inc sz) + inc) \<and>
   tableIndex m' = (if loop_sizes limit inc sz = [] then tableIndex m else Suc (last (loop_sizes limit inc sz)))"
proof (induction limit inc sz m rule: pool_loop.induct)
  case (1 limit inc sz m)
  show ?case
  proof (cases "sz \<le> limit \<and> 0 < inc")
    case True
    note a = add_pool_inv [OF 1(2,3)]
    have run: "pool_loop limit inc (sz + inc) (add_pool sz m) = (sz', m')"
      using True 1(4) by (subst (asm) pool_loop.simps) simp
    from 1(1) [OF True a(1) _ run] a(2,3) True show ?thesis
      by (subst (1 2 3 4 5) loop_sizes.simps) auto
  next
    case False
    then have "loop_sizes limit inc sz = []" by (simp add: loop_sizes.simps)
    then show ?thesis using False 1(4) by (subst (asm) pool_loop.simps) auto
  qed
qed

lemma loop_sizes_values:
  "loop_sizes 1024 32 32 = [32, 64, 96, 128, 160, 192, 224, 256, 288, 320, 352, 384, 416, 448, 480, 512,
     544, 576, 608, 640, 672, 704, 736, 768, 800, 832, 864, 896, 928, 960, 992, 1024]"
  "loop_sizes 2048 128 1056 = [1056, 1184, 1312, 1440, 1568, 1696, 1824, 1952]"
  "loop_sizes 4096 256 2080 = [2080, 2336, 2592, 2848, 3104, 3360, 3616, 3872]"
  by (simp_all add: loop_sizes.simps)

lemma Memory_facts:
  "table_inv Memory" "length (pools Memory) = POOL_COUNT" "tableIndex Memory = 3873"
  "last (pools Memory) = 3872"
proof -
  let ?m0 = "\<lparr>pools = [], poolTable = (\<lambda>_. None), tableIndex = 0\<rparr>"
  obtain s1 m1 where l1: "pool_loop 1024 32 32 ?m0 = (s1, m1)" by fastforce
  obtain s2 m2 where l2: "pool_loop 2048 128 s1 m1 = (s2, m2)" by fastforce
  obtain s3 m3 where l3: "pool_loop 4096 256 s2 m2 = (s3, m3)" by fastforce
  have mem: "Memory = m3" by (simp add: Memory_def l1 l2 l3)
  have i0: "table_inv ?m0" "tableIndex ?m0 \<le> 32" by (simp_all add: table_inv_def)
  note i1 = pool_loop_inv [OF i0 l1] pool_loop_sizes [OF i0 l1]
  then have s1: "s1 = 1056" "table_inv m1" "tableIndex m1 \<le> s1" by (simp_all add: loop_sizes_values)
  note i2 = pool_loop_inv [OF s1(2,3) l2] pool_loop_sizes [OF s1(2,3) l2]
  then have s2: "s2 = 2080" "table_inv m2" "tableIndex m2 \<le> s2" by (simp_all add: s1(1) loop_sizes_values)
  note i3 = pool_loop_inv [OF s2(2,3) l3] pool_loop_sizes [OF s2(2,3) l3]
  show "table_inv Memory" "length (pools Memory) = POOL_COUNT" "tableIndex Memory = 3873"
    "last (pools Memory) = 3872"
    using i1(2) i2(2) i3 unfolding mem s1(1) s2(1) POOL_COUNT_def
    by (simp_all add: loop_sizes_values)
qed

section \<open>StompAllocator\<close>

definition PAGE_SIZE :: int where
  "PAGE_SIZE = 0x1000"

definition stomp_pages :: "int32 \<Rightarrow> int" where
  "stomp_pages sz = (sz + PAGE_SIZE - 1) div PAGE_SIZE"

text \<open>\<open>base\<close> is what \<open>VirtualAlloc\<close> returns for \<open>stomp_pages sz\<close> pages.\<close>

definition stomp_Alloc :: "int \<Rightarrow> int32 \<Rightarrow> int" where
  "stomp_Alloc base sz = base + (stomp_pages sz * PAGE_SIZE - sz)"

text \<open>The address handed to \<open>VirtualFree\<close>.\<close>

definition stomp_Release :: "int \<Rightarrow> int" where
  "stomp_Release ptr = ptr - ptr mod PAGE_SIZE"

lemma stomp_offset:
  assumes "0 < sz"
  shows "0 \<le> stomp_pages sz * PAGE_SIZE - sz" and "stomp_pages sz * PAGE_SIZE - sz < PAGE_SIZE"
proof -
  have "stomp_pages sz * PAGE_SIZE = (sz + PAGE_SIZE - 1) - (sz + PAGE_SIZE - 1) mod PAGE_SIZE"
    by (simp add: stomp_pages_def minus_mod_eq_div_mult [symmetric])
  moreover have "0 \<le> (sz + PAGE_SIZE - 1) mod PAGE_SIZE" "(sz + PAGE_SIZE - 1) mod PAGE_SIZE < PAGE_SIZE"
    by (simp_all add: PAGE_SIZE_def)
  ultimately show "0 \<le> stomp_pages sz * PAGE_SIZE - sz" "stomp_pages sz * PAGE_SIZE - sz < PAGE_SIZE"
    by linarith+
qed

lemma stomp_released_base:
  assumes "0 < sz" and "base mod PAGE_SIZE = 0"
  shows "stomp_Release (stomp_Alloc base sz) = base"
proof -
  have "stomp_Alloc base sz mod PAGE_SIZE = (stomp_pages sz * PAGE_SIZE - sz) mod PAGE_SIZE"
    using assms(2) unfolding stomp_Alloc_def by (metis add_0 mod_add_left_eq)
  also have "\<dots> = stomp_pages sz * PAGE_SIZE - sz" using stomp_offset [OF assms(1)] by (rule mod_pos_pos_trivial)
  finally show ?thesis by (simp add: stomp_Release_def stomp_Alloc_def)
qed

section \<open>MemoryHeader\<close>

text \<open>
  A list entry of 16 bytes, aligned to 16, followed by the \<open>int32\<close> \<open>allocSize\<close>: 32 bytes. A block is
  known by the address of its header.
\<close>

definition sizeof_MemoryHeader :: int where
  "sizeof_MemoryHeader = 32"

definition AttachHeader :: "int \<Rightarrow> int32 \<Rightarrow> (int \<Rightarrow> int32) \<Rightarrow> int \<times> (int \<Rightarrow> int32)" where
  "AttachHeader header sz allocSizes = (header + sizeof_MemoryHeader, allocSizes(header := sz))"

definition DetachHeader :: "int \<Rightarrow> int" where
  "DetachHeader ptr = ptr - sizeof_MemoryHeader"

section \<open>MemoryPool\<close>

text \<open>The interlocked list as a stack of header addresses; each operation of it is atomic.\<close>

record memory_pool =
  slist :: "int list"
  blockSize :: int32
  useCount :: int32
  reserveCount :: int32

definition MemoryPool :: "int32 \<Rightarrow> memory_pool" where
  "MemoryPool sz = \<lparr>slist = [], blockSize = sz, useCount = 0, reserveCount = 0\<rparr>"

definition pool_Push :: "int \<Rightarrow> memory_pool \<times> (int \<Rightarrow> int32) \<Rightarrow> memory_pool \<times> (int \<Rightarrow> int32)" where
  "pool_Push ptr s =
     (let (p, allocSizes) = s
      in (p\<lparr>slist := ptr # slist p, useCount := useCount p - 1, reserveCount := reserveCount p + 1\<rparr>,
          allocSizes(ptr := 0)))"

text \<open>\<open>fresh\<close> is what \<open>_aligned_malloc\<close> returns when the list is empty.\<close>

definition pool_Pop ::
  "int \<Rightarrow> memory_pool \<times> (int \<Rightarrow> int32) \<Rightarrow> (int \<times> memory_pool \<times> (int \<Rightarrow> int32)) res" where
  "pool_Pop fresh s =
     (let (p, allocSizes) = s
      in case slist p of
          [] \<Rightarrow> Inr (fresh, p\<lparr>useCount := useCount p + 1\<rparr>, allocSizes)
        | memory # rest \<Rightarrow>
            assert_crash (allocSizes memory = 0)
              (Inr (memory, p\<lparr>slist := rest, reserveCount := reserveCount p - 1, useCount := useCount p + 1\<rparr>,
                 allocSizes)))"

section \<open>Memory::Allocate and Memory::Release\<close>

record heap =
  pool_states :: "nat \<Rightarrow> memory_pool"      \<comment> \<open>by index in \<open>_pools\<close>\<close>
  headers :: "int \<Rightarrow> int32"                \<comment> \<open>the \<open>allocSize\<close> field at a header address\<close>
  freed :: "int list"                      \<comment> \<open>addresses given back to the operating system\<close>

text \<open>\<open>fresh\<close> is the address the operating system returns, should it be asked.\<close>

definition Allocate :: "bool \<Rightarrow> int \<Rightarrow> int32 \<Rightarrow> heap \<Rightarrow> (int \<times> heap) res" where
  "Allocate stomp fresh sz h =
     (let allocSize = sz + sizeof_MemoryHeader
      in if stomp
         then (let (ptr, hs) = AttachHeader (stomp_Alloc fresh allocSize) allocSize (headers h)
               in Inr (ptr, h\<lparr>headers := hs\<rparr>))
         else if int MAX_ALLOC_SIZE < allocSize
         then (let (ptr, hs) = AttachHeader fresh allocSize (headers h) in Inr (ptr, h\<lparr>headers := hs\<rparr>))
         else case poolTable Memory (nat allocSize) of
             None \<Rightarrow> Inl NullDeref
           | Some k \<Rightarrow>
               and_then (pool_Pop fresh (pool_states h k, headers h))
                 (\<lambda>(header, p, hs). let (ptr, hs') = AttachHeader header allocSize hs
                    in Inr (ptr, h\<lparr>pool_states := (pool_states h)(k := p), headers := hs'\<rparr>)))"

definition Release :: "bool \<Rightarrow> int \<Rightarrow> heap \<Rightarrow> heap res" where
  "Release stomp ptr h =
     (let header = DetachHeader ptr; allocSize = headers h header
      in assert_crash (0 < allocSize)
        (if stomp then Inr (h\<lparr>freed := freed h @ [stomp_Release header]\<rparr>)
         else if int MAX_ALLOC_SIZE < allocSize then Inr (h\<lparr>freed := freed h @ [header]\<rparr>)
         else case poolTable Memory (nat allocSize) of
             None \<Rightarrow> Inl NullDeref
           | Some k \<Rightarrow>
               (let (p, hs) = pool_Push header (pool_states h k, headers h)
                in Inr (h\<lparr>pool_states := (pool_states h)(k := p), headers := hs\<rparr>))))"

section \<open>Properties\<close>

text \<open>
  C32: The table of \<open>Memory::Memory\<close> is only filled up to entry 3872: up to there each entry names the
  smallest pool whose blocks are large enough, and the entries 3873 to 4096, which \<open>Allocate\<close> also
  reads, are never written. The number of pools is \<open>POOL_COUNT\<close>.
\<close>
theorem pool_table_covers:
  "(if i \<le> 3872
    then \<exists>k. poolTable Memory i = Some k \<and> k < length (pools Memory) \<and> i \<le> pools Memory ! k \<and>
      (\<forall>j. j < k \<longrightarrow> pools Memory ! j < i)
    else poolTable Memory i = None) \<and>
   length (pools Memory) = POOL_COUNT"
  using Memory_facts(1-3) by (auto simp: table_inv_def best_pool_def)

theorem pool_table_covers_witness:
  "poolTable Memory 4000 = None \<and> (\<exists>k. poolTable Memory 100 = Some k \<and> 100 \<le> pools Memory ! k)"
proof -
  have "(100 :: nat) \<le> 3872" and over: "\<not> (4000 :: nat) \<le> 3872" by simp_all
  then show ?thesis using pool_table_covers [of 100] pool_table_covers [of 4000] by (auto split: if_splits)
qed

text \<open>
  A stomp block ends exactly at the end of its pages, starts inside the first of them, and releasing
  it frees the address the operating system returned, for every positive size and every page-aligned
  base.
\<close>
theorem stomp_round_trip:
  assumes "0 < sz" and "base mod PAGE_SIZE = 0"
  shows "stomp_Alloc base sz + sz = base + stomp_pages sz * PAGE_SIZE \<and>
    base \<le> stomp_Alloc base sz \<and> stomp_Alloc base sz < base + PAGE_SIZE \<and>
    stomp_Release (stomp_Alloc base sz) = base"
proof -
  show ?thesis using stomp_offset [OF assms(1)] stomp_released_base [OF assms] by (simp add: stomp_Alloc_def)
qed

theorem stomp_round_trip_witness:
  "stomp_Release (stomp_Alloc 0x10000 5000) = 0x10000"
  by (rule stomp_round_trip [THEN conjunct2, THEN conjunct2, THEN conjunct2]) (simp_all add: PAGE_SIZE_def)

text \<open>
  In the build that takes the pools, a block released and allocated again with the same size comes
  back at the same address, and the pool's counters return to what they were; a request of 3841 to 4064
  bytes dereferences an entry that was never written.
\<close>
theorem pool_reuses_block:
  assumes "0 \<le> sz" and "sz + sizeof_MemoryHeader \<le> 4096"
    and "headers h (DetachHeader ptr) = sz + sizeof_MemoryHeader"
  shows "if sz + sizeof_MemoryHeader \<le> 3872
    then \<exists>h1 h2. Release False ptr h = Inr h1 \<and> Allocate False fresh sz h1 = Inr (ptr, h2) \<and>
      pool_states h2 = pool_states h \<and> headers h2 = headers h
    else Allocate False fresh sz h = Inl NullDeref \<and> Release False ptr h = Inl NullDeref"
proof (cases "sz + sizeof_MemoryHeader \<le> 3872")
  case True
  then have "nat (sz + sizeof_MemoryHeader) < tableIndex Memory"
    using assms(1) Memory_facts(3) by (simp add: sizeof_MemoryHeader_def)
  then obtain k where k: "poolTable Memory (nat (sz + sizeof_MemoryHeader)) = Some k"
    using Memory_facts(1) unfolding table_inv_def by blast
  let ?hd = "DetachHeader ptr" and ?n = "sz + sizeof_MemoryHeader"
  let ?p = "(pool_states h k)\<lparr>slist := ?hd # slist (pool_states h k), useCount := useCount (pool_states h k) - 1,
      reserveCount := reserveCount (pool_states h k) + 1\<rparr>"
  let ?h1 = "h\<lparr>pool_states := (pool_states h)(k := ?p), headers := (headers h)(?hd := 0)\<rparr>"
  have pos: "0 < ?n" "\<not> int MAX_ALLOC_SIZE < ?n"
    using assms(1,2) by (simp_all add: sizeof_MemoryHeader_def MAX_ALLOC_SIZE_def)
  have r: "Release False ptr h = Inr ?h1"
    using k assms(3) pos by (simp add: Release_def pool_Push_def Let_def)
  have "\<exists>h2. Allocate False fresh sz ?h1 = Inr (ptr, h2) \<and> pool_states h2 = pool_states h \<and> headers h2 = headers h"
    using k pos assms(3)
    by (simp add: Allocate_def pool_Pop_def AttachHeader_def DetachHeader_def Let_def fun_upd_idem)
  with r True show ?thesis by auto
next
  case False
  then have "tableIndex Memory \<le> nat (sz + sizeof_MemoryHeader)"
    unfolding Memory_facts(3) by linarith
  then have "poolTable Memory (nat (sz + sizeof_MemoryHeader)) = None"
    using Memory_facts(1) unfolding table_inv_def by blast
  moreover have "0 < sz + sizeof_MemoryHeader" "\<not> int MAX_ALLOC_SIZE < sz + sizeof_MemoryHeader"
    using assms(1,2) by (simp_all add: sizeof_MemoryHeader_def MAX_ALLOC_SIZE_def)
  ultimately show ?thesis
    using False assms(3) by (simp add: Allocate_def Release_def Let_def)
qed

definition heap_sample :: heap where
  "heap_sample = \<lparr>pool_states = (\<lambda>k. MemoryPool (int (pools Memory ! k))), headers = (\<lambda>_. 0)(64 := 132), freed = []\<rparr>"

theorem pool_reuses_block_witness:
  "\<exists>h1 h2. Release False 96 heap_sample = Inr h1 \<and> Allocate False 4096 100 h1 = Inr (96, h2)"
  using pool_reuses_block [of 100 heap_sample 96 4096]
  by (auto simp: sizeof_MemoryHeader_def heap_sample_def DetachHeader_def)

section \<open>The allocators over it\<close>

definition PoolAllocator_Alloc :: "bool \<Rightarrow> int \<Rightarrow> int32 \<Rightarrow> heap \<Rightarrow> (int \<times> heap) res" where
  "PoolAllocator_Alloc stomp fresh sz h = Allocate stomp fresh sz h"

definition PoolAllocator_Release :: "bool \<Rightarrow> int \<Rightarrow> heap \<Rightarrow> heap res" where
  "PoolAllocator_Release stomp ptr h = Release stomp ptr h"

text \<open>\<open>static_cast<int32>(count * sizeof(T))\<close> of a 64-bit product.\<close>

definition stl_size :: "uint64 \<Rightarrow> uint64 \<Rightarrow> int32" where
  "stl_size sizeof_T n = sint (ucast (n * sizeof_T) :: uint32)"

definition StlAllocator_allocate :: "bool \<Rightarrow> int \<Rightarrow> uint64 \<Rightarrow> uint64 \<Rightarrow> heap \<Rightarrow> (int \<times> heap) res" where
  "StlAllocator_allocate stomp fresh sizeof_T n h = PoolAllocator_Alloc stomp fresh (stl_size sizeof_T n) h"

definition StlAllocator_deallocate :: "bool \<Rightarrow> int \<Rightarrow> uint64 \<Rightarrow> heap \<Rightarrow> heap res" where
  "StlAllocator_deallocate stomp ptr n h = PoolAllocator_Release stomp ptr h"

text \<open>
  A container gets room for its elements below two gigabytes, and too little from there on: the size handed to the
  pool is the exact product when that is below \<open>2 ^ 31\<close>, and otherwise smaller than the product (zero or negative at times), while the
  container goes on to use all of it.
\<close>
theorem stl_size_truncates:
  assumes "uint n * uint sizeof_T < 2 ^ 64"
  shows "if uint n * uint sizeof_T < 2 ^ 31 then stl_size sizeof_T n = uint n * uint sizeof_T
    else stl_size sizeof_T n < uint n * uint sizeof_T"
proof -
  let ?p = "uint n * uint sizeof_T"
  have "0 \<le> ?p" by simp
  have p: "uint (n * sizeof_T) = ?p" using assms by (simp add: uint_word_ariths)
  then have u: "uint (ucast (n * sizeof_T) :: uint32) = ?p mod 2 ^ 32"
    by (simp add: unsigned_ucast_eq take_bit_eq_mod)
  show ?thesis
  proof (cases "?p < 2 ^ 31")
    case True
    then have "uint (ucast (n * sizeof_T) :: uint32) = ?p" using u \<open>0 \<le> ?p\<close> by simp
    then have "stl_size sizeof_T n = signed_take_bit 31 ?p" unfolding stl_size_def by (simp add: sint_uint)
    also have "\<dots> = ?p"
    proof (rule signed_take_bit_int_eq_self)
      show "- (2 ^ 31) \<le> ?p" by (rule order_trans [OF _ \<open>0 \<le> ?p\<close>]) simp
    qed (use True in simp)
    finally show ?thesis using True by simp
  next
    case False
    have "stl_size sizeof_T n < 2 ^ 31" unfolding stl_size_def using sint_less [of "ucast (n * sizeof_T) :: uint32"] by simp
    then show ?thesis using False by simp
  qed
qed

theorem stl_size_truncates_witness: "stl_size 8 100 = 800 \<and> stl_size 8 268435456 < 2147483648"
  using stl_size_truncates [of 100 8] stl_size_truncates [of 268435456 8] by simp

section \<open>ObjectPool\<close>

text \<open>The pool of one class; construction and destruction of the object leave the memory of the pool alone.\<close>

record object_pool =
  s_allocSize :: int32
  s_pool :: memory_pool
  op_headers :: "int \<Rightarrow> int32"
  op_freed :: "int list"       \<comment> \<open>handed to \<open>VirtualFree\<close>\<close>

definition ObjectPool :: "int32 \<Rightarrow> object_pool" where
  "ObjectPool sizeof_Type =
     \<lparr>s_allocSize = sizeof_Type + sizeof_MemoryHeader, s_pool = MemoryPool (sizeof_Type + sizeof_MemoryHeader),
      op_headers = (\<lambda>_. 0), op_freed = []\<rparr>"

definition ObjectPool_Pop :: "bool \<Rightarrow> int \<Rightarrow> object_pool \<Rightarrow> (int \<times> object_pool) res" where
  "ObjectPool_Pop stomp fresh s =
     (if stomp then
        (let (memory, hs) = AttachHeader (stomp_Alloc fresh (s_allocSize s)) (s_allocSize s) (op_headers s)
         in Inr (memory, s\<lparr>op_headers := hs\<rparr>))
      else and_then (pool_Pop fresh (s_pool s, op_headers s)) (\<lambda>(header, p, hs).
        let (memory, hs') = AttachHeader header (s_allocSize s) hs in Inr (memory, s\<lparr>s_pool := p, op_headers := hs'\<rparr>)))"

definition ObjectPool_Push :: "bool \<Rightarrow> int \<Rightarrow> object_pool \<Rightarrow> object_pool" where
  "ObjectPool_Push stomp obj s =
     (if stomp then s\<lparr>op_freed := op_freed s @ [stomp_Release (DetachHeader obj)]\<rparr>
      else (let (p, hs) = pool_Push (DetachHeader obj) (s_pool s, op_headers s) in s\<lparr>s_pool := p, op_headers := hs\<rparr>))"

text \<open>The headers of the pooled blocks are marked free.\<close>

definition op_inv :: "object_pool \<Rightarrow> bool" where
  "op_inv s \<longleftrightarrow> distinct (slist (s_pool s)) \<and> (\<forall>m \<in> set (slist (s_pool s)). op_headers s m = 0)"

lemma ObjectPool_Push_inv:
  "op_inv s \<Longrightarrow> DetachHeader obj \<notin> set (slist (s_pool s)) \<Longrightarrow> op_inv (ObjectPool_Push False obj s)"
  by (auto simp: op_inv_def ObjectPool_Push_def pool_Push_def)

text \<open>
  An object pool gives its memory back, and gives it out again. With the stomp allocator, which the build uses,
  \<open>Push\<close> frees the pages \<open>Pop\<close> got, for every positive object size; without it \<open>Pop\<close> never fails on the assertion over pooled
  blocks, and the object released last is the next one given out, with the pool and its counters as before.
\<close>
theorem object_pool_round_trip:
  assumes "0 < s_allocSize s" and "fresh mod PAGE_SIZE = 0" and "op_inv s"
  shows "(\<exists>obj s1. ObjectPool_Pop True fresh s = Inr (obj, s1) \<and> op_freed (ObjectPool_Push True obj s1) = op_freed s @ [fresh]) \<and>
    (\<exists>obj s1. ObjectPool_Pop False fresh s = Inr (obj, s1) \<and>
      (\<exists>s2. ObjectPool_Pop False fresh' (ObjectPool_Push False obj s1) = Inr (obj, s2) \<and> s_pool s2 = s_pool s1))"
proof
  have "stomp_Release (stomp_Alloc fresh (s_allocSize s)) = fresh"
    by (rule stomp_released_base [OF assms(1,2)])
  then show "\<exists>obj s1. ObjectPool_Pop True fresh s = Inr (obj, s1) \<and> op_freed (ObjectPool_Push True obj s1) = op_freed s @ [fresh]"
    by (simp add: ObjectPool_Pop_def ObjectPool_Push_def AttachHeader_def DetachHeader_def)
  show "\<exists>obj s1. ObjectPool_Pop False fresh s = Inr (obj, s1) \<and>
      (\<exists>s2. ObjectPool_Pop False fresh' (ObjectPool_Push False obj s1) = Inr (obj, s2) \<and> s_pool s2 = s_pool s1)"
  proof (cases "slist (s_pool s)")
    case Nil
    then show ?thesis
      by (simp add: ObjectPool_Pop_def ObjectPool_Push_def pool_Pop_def pool_Push_def AttachHeader_def DetachHeader_def)
  next
    case (Cons m rest)
    then have "op_headers s m = 0" using assms(3) by (simp add: op_inv_def)
    then show ?thesis using Cons
      by (simp add: ObjectPool_Pop_def ObjectPool_Push_def pool_Pop_def pool_Push_def AttachHeader_def DetachHeader_def)
  qed
qed

theorem object_pool_round_trip_witness:
  "\<exists>obj s1. ObjectPool_Pop True 0x10000 (ObjectPool 40) = Inr (obj, s1) \<and> op_freed (ObjectPool_Push True obj s1) = [0x10000]"
  using object_pool_round_trip [of "ObjectPool 40" "0x10000"]
  by (auto simp: ObjectPool_def sizeof_MemoryHeader_def PAGE_SIZE_def op_inv_def MemoryPool_def)

end
