(* ===== verification/Job_Queue.thy ===== *)
theory Job_Queue
  imports Prelude
begin

text \<open>
  Jobs: the locked queue (\<open>LockQueue.h\<close>), the global queue (\<open>GlobalQueue.cpp\<close>) and the job queue
  (\<open>JobQueue.h\<close>, \<open>JobQueue.cpp\<close>) of \<open>ClientNetworkCore\<close>. Any number of threads push jobs on one job
  queue; whoever raises the job count from zero either runs the queue itself or leaves it in the
  global queue for another thread. A step is one atomic access of one thread: the \<open>fetch_add\<close>, the
  locked push, one job's run, the \<open>fetch_sub\<close>. The invariant is that the right to run the queue is one
  token, so jobs run one at a time, in the order in which they were pushed, and none is forgotten.
\<close>

section \<open>LockQueue\<close>

text \<open>Items are pointers: \<open>None\<close> is the null pointer, which \<open>Pop\<close> also returns on an empty queue.\<close>

type_synonym 'a lock_queue = "'a option list"

definition lq_Push :: "'a option \<Rightarrow> 'a lock_queue \<Rightarrow> 'a lock_queue" where
  "lq_Push job q = q @ [job]"

definition lq_Pop :: "'a lock_queue \<Rightarrow> 'a option \<times> 'a lock_queue" where
  "lq_Pop q = (case q of [] \<Rightarrow> (None, []) | x # xs \<Rightarrow> (x, xs))"

text \<open>\<open>while (T item = Pop()) items.push_back(item)\<close>\<close>

function lq_PopAll :: "'a lock_queue \<Rightarrow> 'a list \<times> 'a lock_queue" where
  "lq_PopAll q =
     (case lq_Pop q of
        (None, q') \<Rightarrow> ([], q')
      | (Some x, q') \<Rightarrow> (let (xs, q'') = lq_PopAll q' in (x # xs, q'')))"
  by pat_completeness auto
termination
  by (relation "measure length") (auto simp: lq_Pop_def split: list.splits)

declare lq_PopAll.simps [simp del]

definition lq_Clear :: "'a lock_queue \<Rightarrow> 'a lock_queue" where
  "lq_Clear q = []"

text \<open>The contract of a queue of pointers, and what its clients get from it.\<close>

locale pointer_fifo =
  fixes items :: "'q \<Rightarrow> 'a option list"
    and push :: "'a option \<Rightarrow> 'q \<Rightarrow> 'q"
    and pop :: "'q \<Rightarrow> 'a option \<times> 'q"
    and popall :: "'q \<Rightarrow> 'a list \<times> 'q"
  assumes items_push: "items (push x q) = items q @ [x]"
    and pop_empty: "items q = [] \<Longrightarrow> fst (pop q) = None \<and> items (snd (pop q)) = []"
    and pop_first: "items q = x # xs \<Longrightarrow> fst (pop q) = x \<and> items (snd (pop q)) = xs"
    and popall_run: "popall q = (case pop q of (None, q') \<Rightarrow> ([], q')
      | (Some x, q') \<Rightarrow> (x # fst (popall q'), snd (popall q')))"
begin

text \<open>Without null pointers inside, \<open>PopAll\<close> empties the queue in order.\<close>

lemma popall_drains: "items q = map Some xs \<Longrightarrow> fst (popall q) = xs \<and> items (snd (popall q)) = []"
proof (induction xs arbitrary: q)
  case Nil
  then show ?case using pop_empty [of q] by (subst (1 2) popall_run) (auto split: prod.splits)
next
  case (Cons x xs)
  then have "fst (pop q) = Some x" "items (snd (pop q)) = map Some xs"
    using pop_first [of q "Some x" "map Some xs"] by auto
  then show ?case using Cons.IH [of "snd (pop q)"] by (subst (1 2) popall_run) (auto split: prod.splits)
qed

lemma pop_after_push: "items q = map Some xs \<Longrightarrow> fst (pop (push (Some y) q)) = Some (hd (xs @ [y]))"
  using pop_first [of "push (Some y) q"] by (cases xs) (auto simp: items_push)

end

interpretation lq: pointer_fifo "\<lambda>q. q" lq_Push lq_Pop lq_PopAll
proof unfold_locales
  fix q :: "'a lock_queue"
  show "lq_PopAll q = (case lq_Pop q of (None, q') \<Rightarrow> ([], q')
      | (Some x, q') \<Rightarrow> (x # fst (lq_PopAll q'), snd (lq_PopAll q')))"
    by (subst lq_PopAll.simps) (auto simp: case_prod_beta split: prod.splits option.splits)
qed (auto simp: lq_Push_def lq_Pop_def)

section \<open>State of a job queue and its threads\<close>

text \<open>Where a thread is; calls nest, because a job may push jobs.\<close>

datatype 'j frame =
    Added 'j int bool       \<comment> \<open>\<open>Push\<close> after the \<open>fetch_add\<close>: job, previous count, whether it must not execute\<close>
  | ToGlobal                \<comment> \<open>about to push the queue on the global queue\<close>
  | Popping                 \<comment> \<open>\<open>Execute\<close> at the top of its loop\<close>
  | Running "'j list" nat   \<comment> \<open>the jobs still to run, and how many were popped\<close>
  | Decide                  \<comment> \<open>\<open>Execute\<close> after a \<open>fetch_sub\<close> that left work\<close>

record 'j job_queue =
  jobs :: "'j lock_queue"
  jobCount :: int
  global_entries :: nat                  \<comment> \<open>how often the queue stands in the global queue\<close>
  frames :: "nat \<Rightarrow> 'j frame list"       \<comment> \<open>by thread, innermost call first\<close>
  current :: "nat \<Rightarrow> bool"               \<comment> \<open>\<open>LCurrentJobQueue\<close> is this queue\<close>
  executed :: "'j list"                  \<comment> \<open>ghost: the jobs that have run\<close>
  pushed :: "'j list"                    \<comment> \<open>ghost: the jobs pushed, in the order of the locked pushes\<close>

definition JobQueue :: "'j job_queue" where
  "JobQueue = \<lparr>jobs = [], jobCount = 0, global_entries = 0, frames = (\<lambda>_. []), current = (\<lambda>_. False),
     executed = [], pushed = []\<rparr>"

definition set_frames :: "nat \<Rightarrow> 'j frame list \<Rightarrow> 'j job_queue \<Rightarrow> 'j job_queue" where
  "set_frames t fs s = s\<lparr>frames := (frames s)(t := fs)\<rparr>"

definition set_current :: "nat \<Rightarrow> bool \<Rightarrow> 'j job_queue \<Rightarrow> 'j job_queue" where
  "set_current t b s = s\<lparr>current := (current s)(t := b)\<rparr>"

section \<open>Push\<close>

text \<open>\<open>only\<close>: \<open>pushOnly\<close>, or the thread is executing another job queue.\<close>

definition Push_count :: "nat \<Rightarrow> 'j \<Rightarrow> bool \<Rightarrow> 'j job_queue \<Rightarrow> 'j job_queue" where
  "Push_count t j only s =
     set_frames t (Added j (jobCount s) only # frames s t) (s\<lparr>jobCount := jobCount s + 1\<rparr>)"

definition Push_job :: "nat \<Rightarrow> 'j \<Rightarrow> int \<Rightarrow> bool \<Rightarrow> 'j frame list \<Rightarrow> 'j job_queue \<Rightarrow> 'j job_queue" where
  "Push_job t j prevCount only rest s =
     (let s1 = s\<lparr>jobs := lq_Push (Some j) (jobs s), pushed := pushed s @ [j]\<rparr>
      in if prevCount = 0
         then if current s1 t = False \<and> only = False
              then set_frames t (Popping # rest) (set_current t True s1)
              else set_frames t (ToGlobal # rest) s1
         else set_frames t rest s1)"

definition GlobalQueue_Push :: "nat \<Rightarrow> 'j frame list \<Rightarrow> 'j job_queue \<Rightarrow> 'j job_queue" where
  "GlobalQueue_Push t rest s = set_frames t rest (s\<lparr>global_entries := Suc (global_entries s)\<rparr>)"

text \<open>\<open>DoGlobalQueueWork\<close>: \<open>Pop\<close> returns this queue, and the thread executes it.\<close>

definition GlobalQueue_Pop :: "nat \<Rightarrow> 'j job_queue \<Rightarrow> 'j job_queue" where
  "GlobalQueue_Pop t s =
     set_frames t [Popping] (set_current t True (s\<lparr>global_entries := global_entries s - 1\<rparr>))"

section \<open>Execute\<close>

definition Execute_popall :: "nat \<Rightarrow> 'j frame list \<Rightarrow> 'j job_queue \<Rightarrow> 'j job_queue" where
  "Execute_popall t rest s =
     (let (js, q) = lq_PopAll (jobs s) in set_frames t (Running js (length js) # rest) (s\<lparr>jobs := q\<rparr>))"

definition Execute_job :: "nat \<Rightarrow> 'j \<Rightarrow> 'j list \<Rightarrow> nat \<Rightarrow> 'j frame list \<Rightarrow> 'j job_queue \<Rightarrow> 'j job_queue" where
  "Execute_job t j js n rest s = set_frames t (Running js n # rest) (s\<lparr>executed := executed s @ [j]\<rparr>)"

definition Execute_subtract :: "nat \<Rightarrow> nat \<Rightarrow> 'j frame list \<Rightarrow> 'j job_queue \<Rightarrow> 'j job_queue" where
  "Execute_subtract t n rest s =
     (let s1 = s\<lparr>jobCount := jobCount s - int n\<rparr>
      in if jobCount s = int n then set_frames t rest (set_current t False s1)
         else set_frames t (Decide # rest) s1)"

definition Execute_decide :: "nat \<Rightarrow> bool \<Rightarrow> 'j frame list \<Rightarrow> 'j job_queue \<Rightarrow> 'j job_queue" where
  "Execute_decide t time_up rest s =
     (if time_up then set_frames t (ToGlobal # rest) (set_current t False s)
      else set_frames t (Popping # rest) s)"

section \<open>Interleaved steps\<close>

inductive jq_step :: "nat list \<Rightarrow> 'j job_queue \<Rightarrow> 'j job_queue \<Rightarrow> bool" for ts where
  jq_push: "t \<in> set ts \<Longrightarrow> frames s t = [] \<or> (\<exists>js n rest. frames s t = Running js n # rest) \<Longrightarrow>
    jq_step ts s (Push_count t j only s)"
| jq_added: "t \<in> set ts \<Longrightarrow> frames s t = Added j prev only # rest \<Longrightarrow>
    jq_step ts s (Push_job t j prev only rest s)"
| jq_global: "t \<in> set ts \<Longrightarrow> frames s t = ToGlobal # rest \<Longrightarrow> jq_step ts s (GlobalQueue_Push t rest s)"
| jq_take: "t \<in> set ts \<Longrightarrow> frames s t = [] \<Longrightarrow> 0 < global_entries s \<Longrightarrow> jq_step ts s (GlobalQueue_Pop t s)"
| jq_popall: "t \<in> set ts \<Longrightarrow> frames s t = Popping # rest \<Longrightarrow> jq_step ts s (Execute_popall t rest s)"
| jq_job: "t \<in> set ts \<Longrightarrow> frames s t = Running (j # js) n # rest \<Longrightarrow>
    jq_step ts s (Execute_job t j js n rest s)"
| jq_subtract: "t \<in> set ts \<Longrightarrow> frames s t = Running [] n # rest \<Longrightarrow>
    jq_step ts s (Execute_subtract t n rest s)"
| jq_decide: "t \<in> set ts \<Longrightarrow> frames s t = Decide # rest \<Longrightarrow>
    jq_step ts s (Execute_decide t time_up rest s)"

inductive jq_reachable :: "nat list \<Rightarrow> 'j job_queue \<Rightarrow> bool" for ts where
  jq_init: "jq_reachable ts JobQueue"
| jq_next: "jq_reachable ts s \<Longrightarrow> jq_step ts s s' \<Longrightarrow> jq_reachable ts s'"

section \<open>The token\<close>

text \<open>The right to run the queue, and the jobs a frame accounts for in the job count.\<close>

fun weight :: "'j frame \<Rightarrow> nat" where
  "weight (Added j prev only) = (if prev = 0 then 1 else 0)"
| "weight _ = 1"

fun counted :: "'j frame \<Rightarrow> nat" where
  "counted (Added j prev only) = 1"
| "counted (Running js n) = n"
| "counted _ = 0"

definition total :: "('j frame \<Rightarrow> nat) \<Rightarrow> nat list \<Rightarrow> 'j job_queue \<Rightarrow> nat" where
  "total f ts s = sum_list (map (\<lambda>t. sum_list (map f (frames s t))) ts)"

definition tokens :: "nat list \<Rightarrow> 'j job_queue \<Rightarrow> nat" where
  "tokens ts s = global_entries s + total weight ts s"

definition is_running :: "'j frame \<Rightarrow> bool" where
  "is_running f \<longleftrightarrow> (\<exists>js n. f = Running js n)"

definition fifo_ok :: "nat list \<Rightarrow> 'j job_queue \<Rightarrow> bool" where
  "fifo_ok ts s \<longleftrightarrow>
     (\<forall>t \<in> set ts. \<forall>js n. Running js n \<in> set (frames s t) \<longrightarrow> pushed s = executed s @ js @ map the (jobs s)) \<and>
     ((\<forall>t \<in> set ts. \<forall>f \<in> set (frames s t). \<not> is_running f) \<longrightarrow> pushed s = executed s @ map the (jobs s))"

definition jq_inv :: "nat list \<Rightarrow> 'j job_queue \<Rightarrow> bool" where
  "jq_inv ts s \<longleftrightarrow>
     jobCount s = int (length (jobs s)) + int (total counted ts s) \<and>
     tokens ts s = (if jobCount s = 0 then 0 else 1) \<and> None \<notin> set (jobs s) \<and> fifo_ok ts s"

lemma total_set_frames:
  assumes "distinct ts" and "t \<in> set ts"
  shows "total f ts (set_frames t fs s) + sum_list (map f (frames s t)) = total f ts s + sum_list (map f fs)"
  using assms
proof (induction ts)
  case Nil
  then show ?case by simp
next
  case (Cons u ts)
  show ?case
  proof (cases "u = t")
    case True
    have "t \<notin> set ts" using True Cons.prems(1) by auto
    then have "map (\<lambda>x. sum_list (map f (frames (set_frames t fs s) x))) ts = map (\<lambda>x. sum_list (map f (frames s x))) ts"
      by (intro map_cong) (auto simp: set_frames_def)
    then have "total f ts (set_frames t fs s) = total f ts s" by (simp only: total_def)
    then show ?thesis using True by (simp add: total_def) (simp add: set_frames_def)
  next
    case False
    then show ?thesis using Cons by (simp add: total_def set_frames_def)
  qed
qed

lemma total_fields [simp]:
  "total f ts (s\<lparr>jobs := a\<rparr>) = total f ts s" "total f ts (s\<lparr>jobCount := b\<rparr>) = total f ts s"
  "total f ts (s\<lparr>global_entries := c\<rparr>) = total f ts s" "total f ts (s\<lparr>executed := e\<rparr>) = total f ts s"
  "total f ts (s\<lparr>pushed := p\<rparr>) = total f ts s" "total f ts (set_current t x s) = total f ts s"
  by (simp_all add: total_def set_current_def)

lemma weight_le_total: "t \<in> set ts \<Longrightarrow> sum_list (map f (frames s t)) \<le> total f ts s"
  unfolding total_def by (rule member_le_sum_list) auto

lemma total_ge_two:
  assumes "t \<in> set ts" "u \<in> set ts" "t \<noteq> u"
  shows "sum_list (map f (frames s t)) + sum_list (map f (frames s u)) \<le> total f ts s"
  using assms
proof (induction ts)
  case Nil
  then show ?case by simp
next
  case (Cons x ts)
  have "sum_list (map f (frames s y)) \<le> sum_list (map (\<lambda>t. sum_list (map f (frames s t))) ts)" if "y \<in> set ts" for y
    using that by (intro member_le_sum_list) auto
  then show ?case using Cons by (auto simp: total_def)
qed

text \<open>When a thread's innermost frame carries the token, no other frame does.\<close>

lemma token_unique:
  assumes tok: "tokens ts s \<le> 1" and t: "t \<in> set ts" and fr: "frames s t = f # rest" and w: "weight f = 1"
  shows "global_entries s = 0" and "\<forall>g \<in> set rest. weight g = 0"
    and "\<forall>u \<in> set ts. u \<noteq> t \<longrightarrow> (\<forall>g \<in> set (frames s u). weight g = 0)"
    and "tokens ts s = 1"
proof -
  have le: "weight f + sum_list (map weight rest) \<le> total weight ts s"
    using weight_le_total [OF t, of weight s] fr by simp
  then show "global_entries s = 0" "tokens ts s = 1" using tok w by (simp_all add: tokens_def)
  have "sum_list (map weight rest) = 0" using le tok w unfolding tokens_def by linarith
  then show "\<forall>g \<in> set rest. weight g = 0" by simp
  show "\<forall>u \<in> set ts. u \<noteq> t \<longrightarrow> (\<forall>g \<in> set (frames s u). weight g = 0)"
  proof (intro ballI impI)
    fix u g assume u: "u \<in> set ts" "u \<noteq> t" and g: "g \<in> set (frames s u)"
    have "sum_list (map weight (frames s u)) = 0"
      using total_ge_two [OF t u(1), of weight s] u(2) tok w
      unfolding tokens_def fr list.map sum_list.Cons by linarith
    then show "weight g = 0" using g by simp
  qed
qed

lemma running_weight: "is_running f \<Longrightarrow> weight f = 1"
  by (auto simp: is_running_def)

lemma frame_fields [simp]:
  "jobs (set_frames t fs s) = jobs s" "jobCount (set_frames t fs s) = jobCount s"
  "global_entries (set_frames t fs s) = global_entries s" "executed (set_frames t fs s) = executed s"
  "pushed (set_frames t fs s) = pushed s" "frames (set_frames t fs s) = (frames s)(t := fs)"
  "jobs (set_current t b s) = jobs s" "jobCount (set_current t b s) = jobCount s"
  "global_entries (set_current t b s) = global_entries s" "executed (set_current t b s) = executed s"
  "pushed (set_current t b s) = pushed s" "frames (set_current t b s) = frames s"
  by (simp_all add: set_frames_def set_current_def)

text \<open>Replacing the innermost frames of one thread by others that are not running.\<close>

lemma fifo_ok_quiet:
  assumes "fifo_ok ts s" and "frames s t = old @ rest" and "frames s' = (frames s)(t := new @ rest)"
    and "\<forall>f \<in> set old \<union> set new. \<not> is_running f"
    and "pushed s' = pushed s @ js" and "executed s' = executed s" and "map the (jobs s') = map the (jobs s) @ js"
  shows "fifo_ok ts s'"
proof -
  have run: "Running ks n \<in> set (frames s' u) \<longleftrightarrow> Running ks n \<in> set (frames s u)" for ks n u
    using assms(2-4) by (auto simp: is_running_def)
  have any: "(\<forall>f \<in> set (frames s' u). \<not> is_running f) \<longleftrightarrow> (\<forall>f \<in> set (frames s u). \<not> is_running f)" for u
    using assms(2-4) by auto
  show ?thesis
    using assms(1) unfolding fifo_ok_def run any assms(5-7) by auto
qed

text \<open>The thread that runs the queue is the only one, so its remaining jobs come next.\<close>

lemma fifo_ok_runner:
  assumes "fifo_ok ts s" and "t \<in> set ts" and "frames s t = Running js n # rest"
  shows "pushed s = executed s @ js @ map the (jobs s)"
  using assms unfolding fifo_ok_def by (metis list.set_intros(1))

lemma fifo_ok_idle:
  assumes "fifo_ok ts s" and "\<forall>g \<in> set (frames s t). \<not> is_running g"
    and "\<forall>u \<in> set ts. u \<noteq> t \<longrightarrow> (\<forall>g \<in> set (frames s u). \<not> is_running g)"
  shows "pushed s = executed s @ map the (jobs s)"
proof -
  have "\<forall>u \<in> set ts. \<forall>g \<in> set (frames s u). \<not> is_running g" using assms(2,3) by metis
  then show ?thesis using assms(1) by (simp add: fifo_ok_def)
qed

lemma fifo_okI_alone:
  assumes "\<forall>u \<in> set ts. u \<noteq> t \<longrightarrow> (\<forall>g \<in> set (frames s u). \<not> is_running g)"
    and "\<forall>g \<in> set rest. \<not> is_running g" and "frames s t = f # rest \<or> frames s t = rest" and "t \<in> set ts"
    and "frames s t = f # rest \<Longrightarrow> is_running f \<Longrightarrow> \<exists>js n. f = Running js n \<and> pushed s = executed s @ js @ map the (jobs s)"
    and "frames s t = rest \<or> \<not> is_running f \<Longrightarrow> pushed s = executed s @ map the (jobs s)"
  shows "fifo_ok ts s"
  unfolding fifo_ok_def
proof (intro conjI ballI allI impI)
  fix u js n assume u: "u \<in> set ts" "Running js n \<in> set (frames s u)"
  have r: "is_running (Running js n)" by (simp add: is_running_def)
  then have "u = t" using assms(1) u by blast
  then have f: "frames s t = f # rest" "f = Running js n" using assms(2,3) u(2) r by auto
  then show "pushed s = executed s @ js @ map the (jobs s)" using assms(5) r by auto
next
  assume none: "\<forall>u \<in> set ts. \<forall>f \<in> set (frames s u). \<not> is_running f"
  then show "pushed s = executed s @ map the (jobs s)"
    using assms(3,4,6) by fastforce
qed

lemma jq_inv_facts:
  assumes "jq_inv ts s"
  shows "tokens ts s \<le> 1" and "0 \<le> jobCount s" and "jobCount s = 0 \<longleftrightarrow> tokens ts s = 0"
  using assms by (auto simp: jq_inv_def split: if_splits)

lemma jq_invI:
  assumes "jobCount s = int (length (jobs s)) + int (total counted ts s)"
    and "tokens ts s = (if jobCount s = 0 then 0 else 1)" and "None \<notin> set (jobs s)" and "fifo_ok ts s"
  shows "jq_inv ts s"
  using assms by (simp add: jq_inv_def)

lemma Push_count_inv:
  assumes inv: "jq_inv ts s" and d: "distinct ts" and t: "t \<in> set ts"
  shows "jq_inv ts (Push_count t j only s)"
proof (rule jq_invI)
  let ?s = "Push_count t j only s"
  let ?fs = "Added j (jobCount s) only # frames s t"
  have tot: "total f ts ?s = total f ts s + f (Added j (jobCount s) only)" for f
    using total_set_frames [OF d t, of f ?fs "s\<lparr>jobCount := jobCount s + 1\<rparr>"] by (simp add: Push_count_def)
  show "jobCount ?s = int (length (jobs ?s)) + int (total counted ts ?s)"
    using inv unfolding tot by (simp add: jq_inv_def Push_count_def)
  show "tokens ts ?s = (if jobCount ?s = 0 then 0 else 1)"
    using inv jq_inv_facts(2) [OF inv] unfolding tokens_def tot by (simp add: jq_inv_def Push_count_def tokens_def)
  show "None \<notin> set (jobs ?s)" using inv by (simp add: jq_inv_def Push_count_def)
  show "fifo_ok ts ?s"
  proof (rule fifo_ok_quiet [of ts s t "[]" "frames s t" ?s "[Added j (jobCount s) only]" "[]"])
    show "fifo_ok ts s" using inv by (simp add: jq_inv_def)
  qed (simp_all add: Push_count_def is_running_def)
qed

lemma Push_job_inv:
  fixes s :: "'a job_queue"
  assumes inv: "jq_inv ts s" and d: "distinct ts" and t: "t \<in> set ts" and fr: "frames s t = Added j prev only # rest"
  shows "jq_inv ts (Push_job t j prev only rest s)"
proof (rule jq_invI)
  let ?s = "Push_job t j prev only rest s"
  define new :: "'a frame list" where "new = (if prev = 0 then if current s t = False \<and> only = False then [Popping] else [ToGlobal] else [])"
  have s': "jobs ?s = jobs s @ [Some j]" "jobCount ?s = jobCount s" "global_entries ?s = global_entries s"
    "pushed ?s = pushed s @ [j]" "executed ?s = executed s" "frames ?s = (frames s)(t := new @ rest)"
    by (simp_all add: Push_job_def lq_Push_def new_def Let_def)
  have tot: "total f ts ?s + f (Added j prev only) = total f ts s + sum_list (map f new)" for f
    using total_set_frames [OF d t, of f "new @ rest" s] fr
    by (simp add: total_def s' set_frames_def)
  have w: "sum_list (map weight new) = weight (Added j prev only)" "sum_list (map counted new) = 0"
    by (simp_all add: new_def)
  show "jobCount ?s = int (length (jobs ?s)) + int (total counted ts ?s)"
    using inv tot [of counted] w(2) by (simp add: jq_inv_def s')
  show "tokens ts ?s = (if jobCount ?s = 0 then 0 else 1)"
    using inv tot [of weight] w(1) by (simp add: jq_inv_def tokens_def s')
  show "None \<notin> set (jobs ?s)" using inv by (simp add: jq_inv_def s')
  show "fifo_ok ts ?s"
  proof (rule fifo_ok_quiet [of ts s t "[Added j prev only]" rest ?s new "[j]"])
    show "fifo_ok ts s" using inv by (simp add: jq_inv_def)
  qed (simp_all add: s' fr is_running_def new_def)
qed

text \<open>Steps that only move the token between a frame and the global queue.\<close>

lemma move_token_inv:
  assumes inv: "jq_inv ts s" and d: "distinct ts" and t: "t \<in> set ts" and fr: "frames s t = old @ rest"
    and s': "jobs s' = jobs s" "jobCount s' = jobCount s" "pushed s' = pushed s" "executed s' = executed s"
      "frames s' = (frames s)(t := new @ rest)"
    and quiet: "\<forall>f \<in> set old \<union> set new. \<not> is_running f \<and> counted f = 0"
    and tok: "global_entries s' + sum_list (map weight new) = global_entries s + sum_list (map weight old)"
  shows "jq_inv ts s'"
proof (rule jq_invI)
  have tot: "total f ts s' + sum_list (map f old) = total f ts s + sum_list (map f new)" for f
    using total_set_frames [OF d t, of f "new @ rest" s] fr by (simp add: total_def s' set_frames_def)
  have c: "sum_list (map counted old) = 0" "sum_list (map counted new) = 0" using quiet by simp_all
  show "jobCount s' = int (length (jobs s')) + int (total counted ts s')"
    using inv tot [of counted] c by (simp add: jq_inv_def s')
  show "tokens ts s' = (if jobCount s' = 0 then 0 else 1)"
  proof -
    have "tokens ts s' = tokens ts s" using tot [of weight] tok by (simp add: tokens_def)
    then show ?thesis using inv unfolding jq_inv_def s'(2) by argo
  qed
  show "None \<notin> set (jobs s')" using inv by (simp add: jq_inv_def s')
  show "fifo_ok ts s'"
  proof (rule fifo_ok_quiet [of ts s t old rest s' new "[]"])
    show "fifo_ok ts s" using inv by (simp add: jq_inv_def)
  qed (use quiet in \<open>simp_all add: s' fr\<close>)
qed

lemma GlobalQueue_Push_inv:
  assumes "jq_inv ts s" "distinct ts" "t \<in> set ts" "frames s t = ToGlobal # rest"
  shows "jq_inv ts (GlobalQueue_Push t rest s)"
  by (rule move_token_inv [of ts s t "[ToGlobal]" rest _ "[]"])
    (use assms in \<open>simp_all add: GlobalQueue_Push_def is_running_def\<close>)

lemma GlobalQueue_Pop_inv:
  assumes "jq_inv ts s" "distinct ts" "t \<in> set ts" "frames s t = []" "0 < global_entries s"
  shows "jq_inv ts (GlobalQueue_Pop t s)"
  by (rule move_token_inv [of ts s t "[]" "[]" _ "[Popping]"])
    (use assms in \<open>simp_all add: GlobalQueue_Pop_def is_running_def\<close>)

lemma Execute_decide_inv:
  assumes "jq_inv ts s" "distinct ts" "t \<in> set ts" "frames s t = Decide # rest"
  shows "jq_inv ts (Execute_decide t time_up rest s)"
  by (rule move_token_inv [of ts s t "[Decide]" rest _ "[if time_up then ToGlobal else Popping]"])
    (use assms in \<open>simp_all add: Execute_decide_def is_running_def\<close>)

text \<open>Steps of the thread that holds the token.\<close>

lemma holder_alone:
  assumes inv: "jq_inv ts s" and t: "t \<in> set ts" and fr: "frames s t = f # rest" and w: "weight f = 1"
  shows "global_entries s = 0" and "\<forall>g \<in> set rest. \<not> is_running g"
    and "\<forall>u \<in> set ts. u \<noteq> t \<longrightarrow> (\<forall>g \<in> set (frames s u). \<not> is_running g)" and "0 < jobCount s"
proof -
  note u = token_unique [OF jq_inv_facts(1) [OF inv] t fr w]
  show "global_entries s = 0" by (rule u(1))
  show "\<forall>g \<in> set rest. \<not> is_running g" using u(2) running_weight by fastforce
  show "\<forall>u \<in> set ts. u \<noteq> t \<longrightarrow> (\<forall>g \<in> set (frames s u). \<not> is_running g)" using u(3) running_weight by fastforce
  show "0 < jobCount s" using u(4) jq_inv_facts(2,3) [OF inv] by linarith
qed

lemma map_Some_the: "None \<notin> set q \<Longrightarrow> map Some (map the q) = q"
  by (induction q) auto

lemma Execute_popall_inv:
  assumes inv: "jq_inv ts s" and d: "distinct ts" and t: "t \<in> set ts" and fr: "frames s t = Popping # rest"
  shows "jq_inv ts (Execute_popall t rest s)"
proof (rule jq_invI)
  let ?s = "Execute_popall t rest s"
  let ?js = "map the (jobs s)"
  have "None \<notin> set (jobs s)" using inv by (simp add: jq_inv_def)
  then have "jobs s = map Some ?js" by (rule map_Some_the [symmetric])
  from lq.popall_drains [OF this] have pop: "lq_PopAll (jobs s) = (?js, [])" by (simp add: prod_eq_iff)
  have s': "jobs ?s = []" "jobCount ?s = jobCount s" "global_entries ?s = global_entries s"
    "pushed ?s = pushed s" "executed ?s = executed s"
    "frames ?s = (frames s)(t := Running ?js (length (jobs s)) # rest)"
    by (simp_all add: Execute_popall_def pop)
  have tot: "total f ts ?s + f Popping = total f ts s + f (Running ?js (length (jobs s)))" for f
    using total_set_frames [OF d t, of f "Running ?js (length (jobs s)) # rest" s] fr
    by (simp add: total_def s' set_frames_def)
  have alone: "\<forall>g \<in> set rest. \<not> is_running g"
    "\<forall>u \<in> set ts. u \<noteq> t \<longrightarrow> (\<forall>g \<in> set (frames s u). \<not> is_running g)"
    using holder_alone [OF inv t fr] by simp_all
  show "jobCount ?s = int (length (jobs ?s)) + int (total counted ts ?s)"
    using inv tot [of counted] by (simp add: jq_inv_def s')
  show "tokens ts ?s = (if jobCount ?s = 0 then 0 else 1)"
    using inv tot [of weight] by (simp add: jq_inv_def tokens_def s')
  show "None \<notin> set (jobs ?s)" by (simp add: s')
  have "pushed s = executed s @ ?js"
  proof (rule fifo_ok_idle)
    show "fifo_ok ts s" using inv by (simp add: jq_inv_def)
    show "\<forall>g \<in> set (frames s t). \<not> is_running g" using fr alone(1) by (simp add: is_running_def)
  qed (rule alone(2))
  then show "fifo_ok ts ?s"
    using alone t by (intro fifo_okI_alone [of ts t ?s rest "Running ?js (length (jobs s))"])
      (auto simp: s' is_running_def)
qed

lemma Execute_job_inv:
  assumes inv: "jq_inv ts s" and d: "distinct ts" and t: "t \<in> set ts" and fr: "frames s t = Running (j # js) n # rest"
  shows "jq_inv ts (Execute_job t j js n rest s)"
proof (rule jq_invI)
  let ?s = "Execute_job t j js n rest s"
  have s': "jobs ?s = jobs s" "jobCount ?s = jobCount s" "global_entries ?s = global_entries s"
    "pushed ?s = pushed s" "executed ?s = executed s @ [j]" "frames ?s = (frames s)(t := Running js n # rest)"
    by (simp_all add: Execute_job_def)
  have tot: "total f ts ?s + f (Running (j # js) n) = total f ts s + f (Running js n)" for f
    using total_set_frames [OF d t, of f "Running js n # rest" s] fr by (simp add: total_def s' set_frames_def)
  have alone: "\<forall>g \<in> set rest. \<not> is_running g"
    "\<forall>u \<in> set ts. u \<noteq> t \<longrightarrow> (\<forall>g \<in> set (frames s u). \<not> is_running g)"
    using holder_alone [OF inv t fr] by simp_all
  show "jobCount ?s = int (length (jobs ?s)) + int (total counted ts ?s)"
    using inv tot [of counted] by (simp add: jq_inv_def s')
  show "tokens ts ?s = (if jobCount ?s = 0 then 0 else 1)"
    using inv tot [of weight] by (simp add: jq_inv_def tokens_def s')
  show "None \<notin> set (jobs ?s)" using inv by (simp add: jq_inv_def s')
  have "pushed s = executed s @ (j # js) @ map the (jobs s)"
    using inv fr t by (intro fifo_ok_runner) (simp_all add: jq_inv_def)
  then show "fifo_ok ts ?s"
    using alone t by (intro fifo_okI_alone [of ts t ?s rest "Running js n"]) (auto simp: s' is_running_def)
qed

lemma Execute_subtract_inv:
  fixes s :: "'a job_queue"
  assumes inv: "jq_inv ts s" and d: "distinct ts" and t: "t \<in> set ts" and fr: "frames s t = Running [] n # rest"
  shows "jq_inv ts (Execute_subtract t n rest s)"
proof (rule jq_invI)
  let ?s = "Execute_subtract t n rest s"
  define new :: "'a frame list" where "new = (if jobCount s = int n then [] else [Decide])"
  have s': "jobs ?s = jobs s" "jobCount ?s = jobCount s - int n" "global_entries ?s = global_entries s"
    "pushed ?s = pushed s" "executed ?s = executed s" "frames ?s = (frames s)(t := new @ rest)"
    by (simp_all add: Execute_subtract_def new_def Let_def)
  have tot: "total f ts ?s + f (Running [] n) = total f ts s + sum_list (map f new)" for f
    using total_set_frames [OF d t, of f "new @ rest" s] fr by (simp add: total_def s' set_frames_def)
  note h = holder_alone [OF inv t fr]
  have alone: "\<forall>g \<in> set rest. \<not> is_running g"
    "\<forall>u \<in> set ts. u \<noteq> t \<longrightarrow> (\<forall>g \<in> set (frames s u). \<not> is_running g)"
    using h by simp_all
  have c: "sum_list (map counted new) = 0" by (simp add: new_def)
  show "jobCount ?s = int (length (jobs ?s)) + int (total counted ts ?s)"
    using inv tot [of counted] c by (simp add: jq_inv_def s')
  have tok: "tokens ts s = 1" using inv h(4) by (simp add: jq_inv_def)
  show "tokens ts ?s = (if jobCount ?s = 0 then 0 else 1)"
    using tok tot [of weight] by (auto simp: tokens_def s' new_def)
  show "None \<notin> set (jobs ?s)" using inv by (simp add: jq_inv_def s')
  have p: "pushed s = executed s @ map the (jobs s)"
    using fifo_ok_runner [of ts s t "[]" n rest] inv fr t by (simp add: jq_inv_def)
  show "fifo_ok ts ?s"
    using alone t p by (intro fifo_okI_alone [of ts t ?s rest Decide]) (auto simp: s' is_running_def new_def)
qed

lemma jq_step_inv: "jq_step ts s s' \<Longrightarrow> jq_inv ts s \<Longrightarrow> distinct ts \<Longrightarrow> jq_inv ts s'"
  by (induction rule: jq_step.induct)
    (auto intro: Push_count_inv Push_job_inv GlobalQueue_Push_inv GlobalQueue_Pop_inv Execute_popall_inv
      Execute_job_inv Execute_subtract_inv Execute_decide_inv)

lemma jq_inv_init: "jq_inv ts JobQueue"
  by (simp add: jq_inv_def tokens_def total_def fifo_ok_def JobQueue_def)

lemma jq_reachable_inv: "jq_reachable ts s \<Longrightarrow> distinct ts \<Longrightarrow> jq_inv ts s"
  by (induction rule: jq_reachable.induct) (auto intro: jq_inv_init jq_step_inv)

section \<open>Scripted runs\<close>

text \<open>What a thread does next: push a job, take the queue from the global queue, or go on.\<close>

datatype 'j jq_choice = Do_push 'j bool | Do_take | Do_next bool

fun jq_do :: "nat list \<Rightarrow> nat \<times> 'j jq_choice \<Rightarrow> 'j job_queue \<Rightarrow> 'j job_queue option" where
  "jq_do ts (t, Do_push j only) s =
     (if t \<in> set ts then
        (case frames s t of
           [] \<Rightarrow> Some (Push_count t j only s)
         | Running js n # rest \<Rightarrow> Some (Push_count t j only s)
         | _ \<Rightarrow> None)
      else None)"
| "jq_do ts (t, Do_take) s =
     (if t \<in> set ts \<and> frames s t = [] \<and> 0 < global_entries s then Some (GlobalQueue_Pop t s) else None)"
| "jq_do ts (t, Do_next time_up) s =
     (if t \<in> set ts then
        (case frames s t of
           [] \<Rightarrow> None
         | Added j prev only # rest \<Rightarrow> Some (Push_job t j prev only rest s)
         | ToGlobal # rest \<Rightarrow> Some (GlobalQueue_Push t rest s)
         | Popping # rest \<Rightarrow> Some (Execute_popall t rest s)
         | Running [] n # rest \<Rightarrow> Some (Execute_subtract t n rest s)
         | Running (j # js) n # rest \<Rightarrow> Some (Execute_job t j js n rest s)
         | Decide # rest \<Rightarrow> Some (Execute_decide t time_up rest s))
      else None)"

fun jq_script :: "nat list \<Rightarrow> (nat \<times> 'j jq_choice) list \<Rightarrow> 'j job_queue \<Rightarrow> 'j job_queue option" where
  "jq_script ts [] s = Some s"
| "jq_script ts (c # cs) s = (case jq_do ts c s of None \<Rightarrow> None | Some s' \<Rightarrow> jq_script ts cs s')"

lemma jq_do_step: "jq_do ts c s = Some s' \<Longrightarrow> jq_step ts s s'"
  by (induction ts c s rule: jq_do.induct)
    (auto intro: jq_step.intros split: if_splits list.splits frame.splits)

lemma jq_script_reachable:
  "jq_reachable ts s \<Longrightarrow> jq_script ts cs s = Some s' \<Longrightarrow> jq_reachable ts s'"
proof (induction cs arbitrary: s)
  case (Cons c cs)
  from Cons.prems(2) obtain s1 where s1: "jq_do ts c s = Some s1" "jq_script ts cs s1 = Some s'"
    by (auto split: option.splits)
  show ?case by (rule Cons.IH [OF jq_next [OF Cons.prems(1) jq_do_step [OF s1(1)]] s1(2)])
qed simp

section \<open>What the job queue guarantees\<close>

text \<open>A thread holds the queue from the moment it is bound to run it or to hand it on.\<close>

definition holds_queue :: "'j job_queue \<Rightarrow> nat \<Rightarrow> bool" where
  "holds_queue s t \<longleftrightarrow> (\<exists>f \<in> set (frames s t). weight f = 1)"

lemma weight_cases: "weight f = 0 \<or> weight f = 1"
  by (cases f) auto

lemma total_pos:
  "total f ts s \<noteq> 0 \<longleftrightarrow> (\<exists>t \<in> set ts. \<exists>g \<in> set (frames s t). f g \<noteq> 0)"
  by (auto simp: total_def sum_list_eq_0_iff)

lemma holder_unique:
  assumes "tokens ts s \<le> 1" and "t \<in> set ts" and "holds_queue s t"
  shows "global_entries s = 0" and "\<forall>u \<in> set ts. holds_queue s u \<longrightarrow> u = t"
proof -
  from assms(3) obtain f where f: "f \<in> set (frames s t)" "weight f = 1" by (auto simp: holds_queue_def)
  have one: "weight f \<le> sum_list (map weight (frames s u))" if "f \<in> set (frames s u)" for u f
    using that by (intro member_le_sum_list) auto
  have tot: "sum_list (map weight (frames s t)) \<le> total weight ts s"
    using assms(2) unfolding total_def by (intro member_le_sum_list) auto
  show "global_entries s = 0" using assms(1) one [OF f(1)] f(2) tot by (simp add: tokens_def)
  show "\<forall>u \<in> set ts. holds_queue s u \<longrightarrow> u = t"
  proof (intro ballI impI)
    fix u assume u: "u \<in> set ts" "holds_queue s u"
    then obtain g where g: "g \<in> set (frames s u)" "weight g = 1" by (auto simp: holds_queue_def)
    show "u = t"
    proof (rule ccontr)
      assume "u \<noteq> t"
      then have "sum_list (map weight (frames s t)) + sum_list (map weight (frames s u)) \<le> total weight ts s"
        using total_ge_two [OF assms(2) u(1)] by blast
      then show False using one [OF f(1)] one [OF g(1)] f(2) g(2) assms(1) by (simp add: tokens_def)
    qed
  qed
qed

text \<open>
  C10: mutual exclusion and no lost wake-up. In every reachable interleaving at most one thread holds the
  queue, the global queue holds it at most once and never while a thread does, and as long as a job is
  queued somebody holds it or will find it in the global queue.
\<close>
theorem one_holder_while_jobs_wait:
  assumes "jq_reachable ts s" and "distinct ts"
  shows "(\<forall>t \<in> set ts. \<forall>u \<in> set ts. holds_queue s t \<longrightarrow> holds_queue s u \<longrightarrow> u = t) \<and>
    (\<forall>t \<in> set ts. holds_queue s t \<longrightarrow> global_entries s = 0) \<and> global_entries s \<le> 1 \<and>
    (jobs s \<noteq> [] \<longrightarrow> global_entries s = 1 \<or> (\<exists>t \<in> set ts. holds_queue s t))"
proof -
  have inv: "jq_inv ts s" by (rule jq_reachable_inv [OF assms])
  note le = jq_inv_facts(1) [OF inv]
  have "global_entries s \<le> 1" using le by (simp add: tokens_def)
  moreover have "global_entries s = 1 \<or> (\<exists>t \<in> set ts. holds_queue s t)" if "jobs s \<noteq> []"
  proof -
    have "0 < jobCount s" using inv that by (cases "jobs s") (auto simp: jq_inv_def)
    then have "tokens ts s = 1" using inv by (simp add: jq_inv_def)
    then have "global_entries s = 1 \<or> total weight ts s \<noteq> 0" by (auto simp: tokens_def)
    then show ?thesis using weight_cases unfolding total_pos holds_queue_def by (metis zero_neq_one)
  qed
  ultimately show ?thesis using holder_unique [OF le] by metis
qed

text \<open>Two threads: while thread 0 runs its first job, thread 1 pushes a second one.\<close>

definition demo_pushes :: "(nat \<times> nat jq_choice) list" where
  "demo_pushes = [(0, Do_push 7 False), (0, Do_next False), (0, Do_next False), (1, Do_push 8 False), (1, Do_next False)]"

definition demo_runs :: "(nat \<times> nat jq_choice) list" where
  "demo_runs = demo_pushes @ map (\<lambda>_. (0, Do_next False)) [0..<6]"

lemma one_holder_while_jobs_wait_witness:
  "jq_script [0, 1] demo_pushes JobQueue \<noteq> None \<and> jobs (the (jq_script [0, 1] demo_pushes JobQueue)) \<noteq> [] \<and>
   (\<exists>t \<in> {0, 1}. holds_queue (the (jq_script [0, 1] demo_pushes JobQueue)) t)"
proof -
  let ?s = "the (jq_script [0, 1] demo_pushes JobQueue)"
  have some: "jq_script [0, 1] demo_pushes JobQueue \<noteq> None" "jobs ?s \<noteq> []" "global_entries ?s = 0" by code_simp+
  then have "jq_reachable [0, 1] ?s" by (intro jq_script_reachable [OF jq_init, of _ demo_pushes]) simp
  from one_holder_while_jobs_wait [OF this] some show ?thesis by auto
qed

lemma executed_prefix:
  assumes "jq_inv ts s"
  shows "\<exists>rest. pushed s = executed s @ rest"
proof (cases "\<forall>t \<in> set ts. \<forall>f \<in> set (frames s t). \<not> is_running f")
  case True
  then show ?thesis using assms by (auto simp: jq_inv_def fifo_ok_def)
next
  case False
  then obtain t js n where "t \<in> set ts" "Running js n \<in> set (frames s t)" by (auto simp: is_running_def)
  then show ?thesis using assms unfolding jq_inv_def fifo_ok_def by blast
qed

lemma all_ran:
  assumes inv: "jq_inv ts s" and q: "\<forall>t \<in> set ts. frames s t = []" "global_entries s = 0"
  shows "executed s = pushed s" and "jobCount s = 0"
proof -
  have "total f ts s = 0" for f using q(1) by (simp add: total_def)
  then have "tokens ts s = 0" "total counted ts s = 0" using q(2) by (simp_all add: tokens_def)
  then have "jobCount s = 0 \<and> jobs s = []" using inv jq_inv_facts(3) [OF inv] by (simp add: jq_inv_def)
  then show "executed s = pushed s" "jobCount s = 0" using inv q(1) by (simp_all add: jq_inv_def fifo_ok_def)
qed

text \<open>
  Jobs run in the order in which they were pushed, each once. At every moment the executed jobs are
  a prefix of the pushed ones, and when no call is active and the global queue is empty all of them have run.
\<close>
theorem jobs_run_in_push_order:
  assumes "jq_reachable ts s" and "distinct ts"
  shows "(\<exists>rest. pushed s = executed s @ rest) \<and>
    ((\<forall>t \<in> set ts. frames s t = []) \<and> global_entries s = 0 \<longrightarrow> executed s = pushed s \<and> jobCount s = 0)"
  using executed_prefix [OF jq_reachable_inv [OF assms]] all_ran [OF jq_reachable_inv [OF assms]] by blast

lemma jobs_run_in_push_order_witness:
  "executed (the (jq_script [0, 1] demo_runs JobQueue)) = [7, 8] \<and>
   executed (the (jq_script [0, 1] demo_runs JobQueue)) = pushed (the (jq_script [0, 1] demo_runs JobQueue))"
proof -
  let ?s = "the (jq_script [0, 1] demo_runs JobQueue)"
  have some: "jq_script [0, 1] demo_runs JobQueue \<noteq> None" "executed ?s = [7, 8]" "global_entries ?s = 0"
    "frames ?s 0 = []" "frames ?s 1 = []" by code_simp+
  then have "jq_reachable [0, 1] ?s" by (intro jq_script_reachable [OF jq_init, of _ demo_runs]) simp
  from jobs_run_in_push_order [OF this] some show ?thesis by simp
qed

text \<open>A thread that takes the queue runs the popped jobs one by one.\<close>

lemma run_popped_jobs:
  assumes "t \<in> set ts" and "frames s t = Running js n # rest"
  shows "(jq_step ts)\<^sup>*\<^sup>* s (set_frames t (Running [] n # rest) (s\<lparr>executed := executed s @ js\<rparr>))"
  using assms(2)
proof (induction js arbitrary: s)
  case Nil
  then have "set_frames t (Running [] n # rest) (s\<lparr>executed := executed s @ []\<rparr>) = s"
    by (simp add: set_frames_def fun_upd_idem)
  then show ?case by (metis rtranclp.rtrancl_refl)
next
  case (Cons j js)
  let ?s = "Execute_job t j js n rest s"
  have "jq_step ts s ?s" by (rule jq_job [OF assms(1) Cons.prems])
  moreover have "(jq_step ts)\<^sup>*\<^sup>* ?s (set_frames t (Running [] n # rest) (?s\<lparr>executed := executed ?s @ js\<rparr>))"
    by (rule Cons.IH) (simp add: Execute_job_def set_frames_def)
  moreover have "set_frames t (Running [] n # rest) (?s\<lparr>executed := executed ?s @ js\<rparr>) =
    set_frames t (Running [] n # rest) (s\<lparr>executed := executed s @ j # js\<rparr>)"
    by (simp add: Execute_job_def set_frames_def)
  ultimately show ?case by (metis converse_rtranclp_into_rtranclp)
qed

text \<open>
  A queue left in the global queue is drained by any idle thread that takes it. When no call is
  active, the steps \<open>DoGlobalQueueWork\<close>, \<open>PopAll\<close>, the jobs and the \<open>fetch_sub\<close> of one thread lead to a
  state in which every pushed job has run, nothing is queued and the count is zero.
\<close>
theorem DoGlobalQueueWork_drains:
  assumes "jq_reachable ts s" and "distinct ts" and "t \<in> set ts"
    and "\<forall>u \<in> set ts. frames s u = []" and "0 < global_entries s"
  shows "\<exists>s'. (jq_step ts)\<^sup>*\<^sup>* s s' \<and> executed s' = pushed s \<and> pushed s' = pushed s \<and> jobs s' = [] \<and>
    jobCount s' = 0 \<and> global_entries s' = 0 \<and> frames s' = frames s"
proof -
  have inv: "jq_inv ts s" by (rule jq_reachable_inv [OF assms(1,2)])
  let ?js = "map the (jobs s)"
  have fr: "frames s t = []" using assms(3,4) by simp
  have "global_entries s = 1" using jq_inv_facts(1) [OF inv] assms(5) by (simp add: tokens_def)
  have "total counted ts s = 0" using assms(4) by (simp add: total_def)
  then have count: "jobCount s = int (length (jobs s))" using inv by (simp add: jq_inv_def)
  have fifo: "pushed s = executed s @ ?js" using inv assms(4) by (simp add: jq_inv_def fifo_ok_def)
  have "None \<notin> set (jobs s)" using inv by (simp add: jq_inv_def)
  then have "jobs s = map Some ?js" by (rule map_Some_the [symmetric])
  from lq.popall_drains [OF this] have pop: "lq_PopAll (jobs s) = (?js, [])" by (simp add: prod_eq_iff)
  define s1 where "s1 = GlobalQueue_Pop t s"
  define s2 where "s2 = Execute_popall t [] s1"
  define s3 where "s3 = set_frames t (Running [] (length (jobs s)) # []) (s2\<lparr>executed := executed s2 @ ?js\<rparr>)"
  define s4 where "s4 = Execute_subtract t (length (jobs s)) [] s3"
  have 1: "jq_step ts s s1" unfolding s1_def by (rule jq_take [OF assms(3) fr assms(5)])
  have 2: "jq_step ts s1 s2" unfolding s2_def
    by (rule jq_popall [OF assms(3)]) (simp add: s1_def GlobalQueue_Pop_def set_frames_def)
  have f2: "frames s2 t = Running ?js (length (jobs s)) # []"
    by (simp add: s2_def s1_def Execute_popall_def GlobalQueue_Pop_def set_frames_def set_current_def pop)
  have 3: "(jq_step ts)\<^sup>*\<^sup>* s2 s3" unfolding s3_def by (rule run_popped_jobs [OF assms(3) f2])
  have 4: "jq_step ts s3 s4" unfolding s4_def
    by (rule jq_subtract [OF assms(3)]) (simp add: s3_def set_frames_def)
  have fin: "executed s4 = pushed s" "pushed s4 = pushed s" "jobs s4 = []" "jobCount s4 = 0" "global_entries s4 = 0"
    "frames s4 = frames s"
    using fifo count fr \<open>global_entries s = 1\<close>
    by (simp_all add: s4_def s3_def s2_def s1_def Execute_subtract_def Execute_popall_def GlobalQueue_Pop_def
        set_frames_def set_current_def pop fun_upd_idem)
  have "(jq_step ts)\<^sup>*\<^sup>* s s4" using 1 2 3 4 by (meson converse_rtranclp_into_rtranclp rtranclp.rtrancl_into_rtrancl)
  then show ?thesis using fin by blast
qed

definition demo_handed_over :: "(nat \<times> nat jq_choice) list" where
  "demo_handed_over = [(0, Do_push 7 True), (0, Do_next False), (0, Do_next False)]"

lemma DoGlobalQueueWork_drains_witness:
  "\<exists>s'. (jq_step [0, 1])\<^sup>*\<^sup>* (the (jq_script [0, 1] demo_handed_over JobQueue)) s' \<and> executed s' = [7]"
proof -
  let ?s = "the (jq_script [0, 1] demo_handed_over JobQueue)"
  have some: "jq_script [0, 1] demo_handed_over JobQueue \<noteq> None" "pushed ?s = [7]" "0 < global_entries ?s"
    "frames ?s 0 = []" "frames ?s 1 = []" by code_simp+
  then have "jq_reachable [0, 1] ?s" by (intro jq_script_reachable [OF jq_init, of _ demo_handed_over]) simp
  from DoGlobalQueueWork_drains [OF this, of 1] some show ?thesis by auto
qed

section \<open>ClearJobs\<close>

text \<open>\<open>_jobs.Clear()\<close>: the job count keeps counting the jobs that were thrown away.\<close>

definition ClearJobs :: "'j job_queue \<Rightarrow> 'j job_queue" where
  "ClearJobs s = s\<lparr>jobs := lq_Clear (jobs s)\<rparr>"

text \<open>
  Clearing a queue that counts jobs makes its runner spin. Wherever \<open>ClearJobs\<close> leaves the count
  non-zero, a full pass of the loop of \<open>Execute\<close> (pop everything, subtract, look at the clock) comes back to
  the very same state, so the loop ends only by its time limit and the queue goes back to the global queue.
\<close>
theorem ClearJobs_spins:
  assumes "frames s t = Popping # rest" and "jobCount s \<noteq> 0"
  shows "(let s0 = ClearJobs s; s1 = Execute_subtract t 0 rest (Execute_popall t rest s0)
    in Execute_popall t rest s0 = set_frames t (Running [] 0 # rest) s0 \<and>
       Execute_decide t False rest s1 = s0 \<and> global_entries (GlobalQueue_Push t rest (Execute_decide t True rest s1)) =
       Suc (global_entries s))"
proof -
  have pop: "lq_PopAll [] = ([], [])" by (simp add: lq_PopAll.simps lq_Pop_def)
  show ?thesis
    using assms by (simp add: Let_def ClearJobs_def lq_Clear_def Execute_popall_def pop Execute_subtract_def
        Execute_decide_def GlobalQueue_Push_def set_frames_def set_current_def fun_upd_idem)
qed

definition demo_taken :: "(nat \<times> nat jq_choice) list" where
  "demo_taken = demo_handed_over @ [(1, Do_take)]"

lemma ClearJobs_spins_witness:
  "let s0 = ClearJobs (the (jq_script [0, 1] demo_taken JobQueue))
   in jobCount s0 = 1 \<and> jobs s0 = [] \<and> Execute_decide 1 False [] (Execute_subtract 1 0 [] (Execute_popall 1 [] s0)) = s0"
proof -
  let ?s = "the (jq_script [0, 1] demo_taken JobQueue)"
  have s: "frames ?s 1 = [Popping]" "jobCount ?s \<noteq> 0" "jobCount (ClearJobs ?s) = 1" "jobs (ClearJobs ?s) = []" by code_simp+
  show ?thesis using ClearJobs_spins [OF s(1,2)] s(3,4) unfolding Let_def by blast
qed

end
