(* ===== verification/Job_Timer.thy ===== *)
theory Job_Timer
  imports Prelude "HOL-Library.Multiset"
begin

text \<open>
  Timed jobs (\<open>JobTimer.h\<close>, \<open>JobTimer.cpp\<close> of \<open>ClientNetworkCore\<close>). A job is reserved for the tick
  \<open>GetTickCount64() + tickAfter\<close>, a 64-bit sum, and kept in a \<open>std::priority_queue\<close> whose top is the item
  with the smallest tick; worker threads call \<open>Distribute\<close> and an atomic flag lets one of them in. The
  order of items with equal ticks is left open by the standard library: the contract \<open>tick_queue\<close> says
  only that the top is a smallest item, and every lemma about the loop of \<open>Distribute\<close> rests on that.
\<close>

section \<open>Items and the priority queue\<close>

text \<open>\<open>JobData\<close>: the weak pointer to the owning job queue, and the job.\<close>

record 'j job_data =
  owner :: nat
  job :: 'j

record 'j timer_item =
  executeTick :: "64 word"
  jobData :: "'j job_data"

text \<open>The queue as the list of its items, in the order in which they were pushed.\<close>

type_synonym 'j tick_list = "'j timer_item list"

definition pq_push :: "'j timer_item \<Rightarrow> 'j tick_list \<Rightarrow> 'j tick_list" where
  "pq_push x q = q @ [x]"

fun pq_top :: "'j tick_list \<Rightarrow> 'j timer_item option" where
  "pq_top [] = None"
| "pq_top (x # xs) =
     (case pq_top xs of None \<Rightarrow> Some x
      | Some y \<Rightarrow> if executeTick x \<le> executeTick y then Some x else Some y)"

definition pq_pop :: "'j tick_list \<Rightarrow> 'j tick_list" where
  "pq_pop q = (case pq_top q of None \<Rightarrow> q | Some x \<Rightarrow> remove1 x q)"

lemma pq_top_None [simp]: "pq_top q = None \<longleftrightarrow> q = []"
  by (cases q) (auto split: option.splits)

lemma pq_top_least:
  "pq_top q = Some x \<Longrightarrow> x \<in> set q \<and> (\<forall>y \<in> set q. executeTick x \<le> executeTick y)"
proof (induction q arbitrary: x)
  case (Cons a q)
  show ?case
  proof (cases "pq_top q")
    case None
    then show ?thesis using Cons.prems by simp
  next
    case (Some y)
    then show ?thesis using Cons.prems Cons.IH [OF Some] by (auto split: if_splits)
  qed
qed simp

lemma pq_pop_shorter: "pq_top q = Some x \<Longrightarrow> length (pq_pop q) < length q"
proof -
  assume top: "pq_top q = Some x"
  then have "x \<in> set q" using pq_top_least by blast
  moreover from this have "0 < length q" by (rule length_pos_if_in_set)
  ultimately show ?thesis using top by (simp add: pq_pop_def length_remove1)
qed

text \<open>The loop of \<open>Distribute\<close> over the queue: take items while the top is due.\<close>

function take_due :: "64 word \<Rightarrow> 'j tick_list \<Rightarrow> 'j timer_item list \<times> 'j tick_list" where
  "take_due now q =
     (case pq_top q of
        None \<Rightarrow> ([], q)
      | Some x \<Rightarrow>
          if now < executeTick x then ([], q)
          else (let (xs, q') = take_due now (pq_pop q) in (x # xs, q')))"
  by pat_completeness auto
termination
proof (relation "measure (\<lambda>(now, q). length q)")
qed (simp_all add: pq_pop_shorter)

declare take_due.simps [simp del]

section \<open>The contract of the priority queue\<close>

locale tick_queue =
  fixes bag :: "'q \<Rightarrow> 'j timer_item multiset"
    and qpush :: "'j timer_item \<Rightarrow> 'q \<Rightarrow> 'q"
    and qtop :: "'q \<Rightarrow> 'j timer_item option"
    and qpop :: "'q \<Rightarrow> 'q"
    and qdue :: "64 word \<Rightarrow> 'q \<Rightarrow> 'j timer_item list \<times> 'q"
  assumes bag_push: "bag (qpush x q) = add_mset x (bag q)"
    and top_empty: "qtop q = None \<longleftrightarrow> bag q = {#}"
    and top_least: "qtop q = Some x \<Longrightarrow> x \<in># bag q \<and> (\<forall>y \<in># bag q. executeTick x \<le> executeTick y)"
    and bag_pop: "qtop q = Some x \<Longrightarrow> bag (qpop q) = bag q - {#x#}"
    and due_run: "qdue now q = (case qtop q of None \<Rightarrow> ([], q)
      | Some x \<Rightarrow> if now < executeTick x then ([], q)
          else (x # fst (qdue now (qpop q)), snd (qdue now (qpop q))))"
begin

text \<open>The loop takes the due items, all of them, in the order of their ticks, and leaves the others.\<close>

lemma due_bags:
  "mset (fst (qdue now q)) = filter_mset (\<lambda>x. executeTick x \<le> now) (bag q) \<and>
   bag (snd (qdue now q)) = filter_mset (\<lambda>x. now < executeTick x) (bag q)"
proof (induction "size (bag q)" arbitrary: q rule: less_induct)
  case less
  show ?case
  proof (cases "qtop q")
    case None
    then show ?thesis using top_empty [of q] by (subst (1 2) due_run) simp
  next
    case (Some x)
    note least = top_least [OF Some]
    show ?thesis
    proof (cases "now < executeTick x")
      case True
      have "filter_mset (\<lambda>x. executeTick x \<le> now) (bag q) = {#}"
        using least True by (auto simp: filter_mset_eq_mempty_iff)
      moreover have "filter_mset (\<lambda>x. now < executeTick x) (bag q) = bag q"
        using least True by (intro filter_mset_eq_conv [THEN iffD2]) auto
      ultimately show ?thesis using Some True by (subst (1 2) due_run) simp
    next
      case False
      have in_bag: "bag q = add_mset x (bag (qpop q))" using least bag_pop [OF Some] by simp
      then have "size (bag (qpop q)) < size (bag q)" by simp
      note IH = less.hyps [OF this]
      show ?thesis using Some False IH by (subst (1 2) due_run) (simp add: in_bag)
    qed
  qed
qed

lemma due_sorted: "sorted (map executeTick (fst (qdue now q)))"
proof (induction "size (bag q)" arbitrary: q rule: less_induct)
  case less
  show ?case
  proof (cases "qtop q")
    case None
    then show ?thesis by (subst due_run) simp
  next
    case (Some x)
    show ?thesis
    proof (cases "now < executeTick x")
      case True
      then show ?thesis using Some by (subst due_run) simp
    next
      case False
      note least = top_least [OF Some]
      have in_bag: "bag q = add_mset x (bag (qpop q))" using least bag_pop [OF Some] by simp
      then have IH: "sorted (map executeTick (fst (qdue now (qpop q))))" by (intro less.hyps) simp
      have "set_mset (mset (fst (qdue now (qpop q)))) \<subseteq> set_mset (bag (qpop q))"
        using due_bags [of now "qpop q"] by (metis multiset_filter_subset set_mset_mono)
      then have "\<forall>y \<in> set (fst (qdue now (qpop q))). executeTick x \<le> executeTick y"
        using least in_bag by auto
      then show ?thesis using Some False IH by (subst due_run) simp
    qed
  qed
qed

end

interpretation tq: tick_queue mset pq_push pq_top pq_pop take_due
proof unfold_locales
  fix now :: "64 word" and q :: "'j tick_list"
  show "take_due now q = (case pq_top q of None \<Rightarrow> ([], q)
      | Some x \<Rightarrow> if now < executeTick x then ([], q)
          else (x # fst (take_due now (pq_pop q)), snd (take_due now (pq_pop q))))"
    by (subst take_due.simps) (auto simp: case_prod_beta split: option.splits)
qed (auto simp: pq_push_def pq_pop_def dest: pq_top_least)

section \<open>JobTimer\<close>

text \<open>
  Where a thread is inside \<open>Distribute\<close>: outside, past the \<open>exchange\<close>, or handing out the items it took.
\<close>

datatype 'j dist_phase = Outside | Entered | Handing "'j timer_item list"

record 'j job_timer =
  items :: "'j tick_list"
  distributing :: bool
  phase :: "nat \<Rightarrow> 'j dist_phase"            \<comment> \<open>by thread\<close>
  pushes :: "(nat \<times> 'j) list"                \<comment> \<open>the calls \<open>owner->Push(job)\<close>, oldest first\<close>
  reserved :: "'j timer_item list"            \<comment> \<open>ghost: every item ever reserved\<close>
  released :: "'j timer_item list"            \<comment> \<open>the items whose job data went back to the object pool\<close>

definition JobTimer :: "'j job_timer" where
  "JobTimer = \<lparr>items = [], distributing = False, phase = (\<lambda>_. Outside), pushes = [], reserved = [], released = []\<rparr>"

text \<open>\<open>Reserve\<close>; \<open>tick\<close> is what \<open>GetTickCount64\<close> returns.\<close>

definition Reserve :: "64 word \<Rightarrow> 64 word \<Rightarrow> nat \<Rightarrow> 'j \<Rightarrow> 'j job_timer \<Rightarrow> 'j job_timer" where
  "Reserve tick tickAfter own j s =
     (let item = \<lparr>executeTick = tick + tickAfter, jobData = \<lparr>owner = own, job = j\<rparr>\<rparr>
      in s\<lparr>items := pq_push item (items s), reserved := reserved s @ [item]\<rparr>)"

definition Distribute_enter :: "nat \<Rightarrow> 'j job_timer \<Rightarrow> 'j job_timer" where
  "Distribute_enter t s =
     (if distributing s then s else s\<lparr>distributing := True, phase := (phase s)(t := Entered)\<rparr>)"

definition Distribute_take :: "nat \<Rightarrow> 64 word \<Rightarrow> 'j job_timer \<Rightarrow> 'j job_timer" where
  "Distribute_take t now s =
     (let (xs, q) = take_due now (items s) in s\<lparr>items := q, phase := (phase s)(t := Handing xs)\<rparr>)"

text \<open>\<open>alive\<close>: \<open>owner.lock()\<close> finds the job queue.\<close>

definition Distribute_hand :: "nat \<Rightarrow> bool \<Rightarrow> 'j timer_item \<Rightarrow> 'j timer_item list \<Rightarrow> 'j job_timer \<Rightarrow> 'j job_timer" where
  "Distribute_hand t alive x xs s =
     s\<lparr>pushes := (if alive then pushes s @ [(owner (jobData x), job (jobData x))] else pushes s),
       released := released s @ [x], phase := (phase s)(t := Handing xs)\<rparr>"

definition Distribute_leave :: "nat \<Rightarrow> 'j job_timer \<Rightarrow> 'j job_timer" where
  "Distribute_leave t s = s\<lparr>distributing := False, phase := (phase s)(t := Outside)\<rparr>"

text \<open>A whole call of \<open>Distribute\<close> that meets no other thread.\<close>

fun hand_all :: "nat \<Rightarrow> (nat \<Rightarrow> bool) \<Rightarrow> 'j timer_item list \<Rightarrow> 'j job_timer \<Rightarrow> 'j job_timer" where
  "hand_all t alive [] s = s"
| "hand_all t alive (x # xs) s = hand_all t alive xs (Distribute_hand t (alive (owner (jobData x))) x xs s)"

definition Distribute :: "nat \<Rightarrow> (nat \<Rightarrow> bool) \<Rightarrow> 64 word \<Rightarrow> 'j job_timer \<Rightarrow> 'j job_timer" where
  "Distribute t alive now s =
     (if distributing s then s
      else (let s1 = Distribute_take t now (Distribute_enter t s)
            in Distribute_leave t (hand_all t alive (fst (take_due now (items s))) s1)))"

function Clear_items :: "'j job_timer \<Rightarrow> 'j job_timer" where
  "Clear_items s =
     (case pq_top (items s) of
        None \<Rightarrow> s
      | Some x \<Rightarrow> Clear_items (s\<lparr>released := released s @ [x], items := pq_pop (items s)\<rparr>))"
  by pat_completeness auto
termination
  by (relation "measure (length \<circ> items)") (simp_all add: pq_pop_shorter)

declare Clear_items.simps [simp del]

section \<open>Interleaved steps\<close>

inductive timer_step :: "'j job_timer \<Rightarrow> 'j job_timer \<Rightarrow> bool" where
  ts_reserve: "timer_step s (Reserve tick tickAfter own j s)"
| ts_enter: "phase s t = Outside \<Longrightarrow> timer_step s (Distribute_enter t s)"
| ts_take: "phase s t = Entered \<Longrightarrow> timer_step s (Distribute_take t now s)"
| ts_hand: "phase s t = Handing (x # xs) \<Longrightarrow> timer_step s (Distribute_hand t alive x xs s)"
| ts_leave: "phase s t = Handing [] \<Longrightarrow> timer_step s (Distribute_leave t s)"
| ts_clear: "timer_step s (Clear_items s)"

inductive timer_reachable :: "'j job_timer \<Rightarrow> bool" where
  timer_init: "timer_reachable JobTimer"
| timer_next: "timer_reachable s \<Longrightarrow> timer_step s s' \<Longrightarrow> timer_reachable s'"

text \<open>The items a thread still has in hand.\<close>

fun in_hand :: "'j dist_phase \<Rightarrow> 'j timer_item list" where
  "in_hand (Handing xs) = xs"
| "in_hand _ = []"

definition timer_inv :: "'j job_timer \<Rightarrow> bool" where
  "timer_inv s \<longleftrightarrow>
     (if distributing s
      then \<exists>t. phase s t \<noteq> Outside \<and> (\<forall>u. u \<noteq> t \<longrightarrow> phase s u = Outside) \<and>
             mset (reserved s) = mset (released s) + mset (in_hand (phase s t)) + mset (items s)
      else (\<forall>u. phase s u = Outside) \<and> mset (reserved s) = mset (released s) + mset (items s))"

lemma take_due_mset: "mset (fst (take_due now q)) + mset (snd (take_due now q)) = mset q"
proof -
  have "mset q = filter_mset (\<lambda>x. executeTick x \<le> now) (mset q) + filter_mset (\<lambda>x. \<not> executeTick x \<le> now) (mset q)"
    by (rule multiset_partition)
  then show ?thesis using tq.due_bags [of now q] by (metis (no_types, lifting) filter_mset_cong not_le)
qed

lemma Clear_items_fields:
  "items (Clear_items s) = [] \<and> distributing (Clear_items s) = distributing s \<and> phase (Clear_items s) = phase s \<and>
   reserved (Clear_items s) = reserved s \<and> pushes (Clear_items s) = pushes s \<and>
   mset (released (Clear_items s)) = mset (released s) + mset (items s)"
proof (induction s rule: Clear_items.induct)
  case (1 s)
  show ?case
  proof (cases "pq_top (items s)")
    case None
    then show ?thesis by (simp add: Clear_items.simps)
  next
    case (Some x)
    then have "x \<in> set (items s)" using pq_top_least by blast
    then have "mset (items s) = add_mset x (mset (pq_pop (items s)))" using Some by (simp add: pq_pop_def)
    moreover have "Clear_items s = Clear_items (s\<lparr>released := released s @ [x], items := pq_pop (items s)\<rparr>)"
      using Some by (subst Clear_items.simps) simp
    ultimately show ?thesis using "1.IH" [OF Some] by simp
  qed
qed

lemma timer_inv_idle:
  "timer_inv s \<Longrightarrow> \<not> distributing s \<Longrightarrow> (\<forall>u. phase s u = Outside) \<and> mset (reserved s) = mset (released s) + mset (items s)"
  by (simp add: timer_inv_def)

lemma timer_inv_busy:
  assumes "timer_inv s" and "phase s t \<noteq> Outside"
  shows "distributing s" and "\<forall>u. u \<noteq> t \<longrightarrow> phase s u = Outside"
    and "mset (reserved s) = mset (released s) + mset (in_hand (phase s t)) + mset (items s)"
proof -
  show d: "distributing s" using assms by (auto simp: timer_inv_def split: if_splits)
  with assms(1) obtain r where r: "\<forall>u. u \<noteq> r \<longrightarrow> phase s u = Outside"
    "mset (reserved s) = mset (released s) + mset (in_hand (phase s r)) + mset (items s)"
    by (auto simp: timer_inv_def)
  have "t = r" using r(1) assms(2) by blast
  then show "\<forall>u. u \<noteq> t \<longrightarrow> phase s u = Outside"
    "mset (reserved s) = mset (released s) + mset (in_hand (phase s t)) + mset (items s)" using r by simp_all
qed

lemma timer_inv_busyI:
  assumes "distributing s" and "phase s t \<noteq> Outside" and "\<forall>u. u \<noteq> t \<longrightarrow> phase s u = Outside"
    and "mset (reserved s) = mset (released s) + mset (in_hand (phase s t)) + mset (items s)"
  shows "timer_inv s"
  using assms by (auto simp: timer_inv_def)

lemma Reserve_inv: "timer_inv s \<Longrightarrow> timer_inv (Reserve tick tickAfter own j s)"
  by (auto simp: timer_inv_def Reserve_def pq_push_def Let_def)

lemma Distribute_enter_inv: "timer_inv s \<Longrightarrow> phase s t = Outside \<Longrightarrow> timer_inv (Distribute_enter t s)"
  by (auto simp: timer_inv_def Distribute_enter_def)

lemma Distribute_take_inv:
  assumes "timer_inv s" and "phase s t = Entered"
  shows "timer_inv (Distribute_take t now s)"
proof -
  have ne: "phase s t \<noteq> Outside" using assms(2) by simp
  note b = timer_inv_busy [OF assms(1) ne]
  have "timer_inv (s\<lparr>items := snd (take_due now (items s)), phase := (phase s)(t := Handing (fst (take_due now (items s))))\<rparr>)"
    using b take_due_mset [of now "items s"] assms(2)
    by (intro timer_inv_busyI [where t = t]) (auto simp: union_assoc)
  then show ?thesis by (simp add: Distribute_take_def case_prod_beta Let_def)
qed

lemma Distribute_hand_inv:
  assumes "timer_inv s" and "phase s t = Handing (x # xs)"
  shows "timer_inv (Distribute_hand t alive x xs s)"
proof -
  have ne: "phase s t \<noteq> Outside" using assms(2) by simp
  note b = timer_inv_busy [OF assms(1) ne]
  show ?thesis using b assms(2) by (intro timer_inv_busyI [where t = t]) (auto simp: Distribute_hand_def)
qed

lemma Distribute_leave_inv:
  assumes "timer_inv s" and "phase s t = Handing []"
  shows "timer_inv (Distribute_leave t s)"
proof -
  have ne: "phase s t \<noteq> Outside" using assms(2) by simp
  note b = timer_inv_busy [OF assms(1) ne]
  show ?thesis using b assms(2) by (auto simp: timer_inv_def Distribute_leave_def)
qed

lemma Clear_items_inv: "timer_inv s \<Longrightarrow> timer_inv (Clear_items s)"
proof -
  assume inv: "timer_inv s"
  have c: "distributing (Clear_items s) = distributing s" "phase (Clear_items s) = phase s"
    "items (Clear_items s) = []" "reserved (Clear_items s) = reserved s"
    "mset (released (Clear_items s)) = mset (released s) + mset (items s)"
    using Clear_items_fields [of s] by blast+
  have "mset (released s) + mset (items s) + h + mset [] = mset (released s) + h + mset (items s)" for h
    by (simp add: ac_simps)
  moreover have "mset (released s) + mset (items s) + mset [] = mset (released s) + mset (items s)" by simp
  ultimately show ?thesis using inv unfolding timer_inv_def c by (simp only:)
qed

lemma timer_step_inv: "timer_step s s' \<Longrightarrow> timer_inv s \<Longrightarrow> timer_inv s'"
  by (induction rule: timer_step.induct)
    (simp_all add: Reserve_inv Distribute_enter_inv Distribute_take_inv Distribute_hand_inv Distribute_leave_inv
      Clear_items_inv)

lemma timer_reachable_inv: "timer_reachable s \<Longrightarrow> timer_inv s"
proof (induction rule: timer_reachable.induct)
  case timer_init
  then show ?case by (simp add: timer_inv_def JobTimer_def)
qed (rule timer_step_inv)

section \<open>What the timer guarantees\<close>

text \<open>
  Every reserved job is handed out at most once and none is lost. In every reachable interleaving
  of reservations, distributions and clears at most one thread is inside \<open>Distribute\<close>, and the reserved
  items are exactly those whose job data went back to the pool, those the distributing thread has in
  hand and those still queued, counted with multiplicity.
\<close>
theorem no_reserved_job_lost:
  assumes "timer_reachable s"
  shows "(\<forall>t u. phase s t \<noteq> Outside \<longrightarrow> phase s u \<noteq> Outside \<longrightarrow> t = u) \<and>
    (distributing s \<longleftrightarrow> (\<exists>t. phase s t \<noteq> Outside)) \<and>
    (\<forall>t. phase s t \<noteq> Outside \<longrightarrow>
      mset (reserved s) = mset (released s) + mset (in_hand (phase s t)) + mset (items s)) \<and>
    (\<not> distributing s \<longrightarrow> mset (reserved s) = mset (released s) + mset (items s))"
proof -
  have inv: "timer_inv s" by (rule timer_reachable_inv [OF assms])
  have "distributing s \<longleftrightarrow> (\<exists>t. phase s t \<noteq> Outside)"
    using inv unfolding timer_inv_def by (cases "distributing s") auto
  then show ?thesis using timer_inv_busy [OF inv] timer_inv_idle [OF inv] by metis
qed

text \<open>Two reservations, then thread 3 starts to distribute at tick 105.\<close>

definition demo_timer :: "nat job_timer" where
  "demo_timer = Distribute_take 3 105 (Distribute_enter 3 (Reserve 100 2 1 8 (Reserve 100 50 0 7 JobTimer)))"

lemma demo_timer_reachable: "timer_reachable demo_timer"
proof -
  let ?s = "Reserve 100 2 1 8 (Reserve 100 50 0 (7 :: nat) JobTimer)"
  have "timer_reachable ?s" by (rule timer_next [OF timer_next [OF timer_init ts_reserve] ts_reserve])
  moreover have "phase ?s 3 = Outside" by (simp add: Reserve_def JobTimer_def Let_def)
  ultimately have "timer_reachable (Distribute_enter 3 ?s)" by (rule timer_next [OF _ ts_enter])
  moreover have "phase (Distribute_enter 3 ?s) 3 = Entered"
    by (simp add: Distribute_enter_def Reserve_def JobTimer_def Let_def)
  ultimately show ?thesis unfolding demo_timer_def by (rule timer_next [OF _ ts_take])
qed

lemma no_reserved_job_lost_witness:
  "map (job \<circ> jobData) (in_hand (phase demo_timer 3)) = [8] \<and> length (items demo_timer) = 1 \<and>
   mset (reserved demo_timer) = mset (released demo_timer) + mset (in_hand (phase demo_timer 3)) + mset (items demo_timer)"
proof -
  have "map (job \<circ> jobData) (in_hand (phase demo_timer 3)) = [8]" "length (items demo_timer) = 1"
    "phase demo_timer 3 \<noteq> Outside" by code_simp+
  then show ?thesis using no_reserved_job_lost [OF demo_timer_reachable] by blast
qed

lemma hand_all_fields:
  "items (hand_all t alive xs s) = items s" "reserved (hand_all t alive xs s) = reserved s"
  "pushes (hand_all t alive xs s) =
     pushes s @ map (\<lambda>x. (owner (jobData x), job (jobData x))) (filter (\<lambda>x. alive (owner (jobData x))) xs)"
  "released (hand_all t alive xs s) = released s @ xs"
  by (induction xs arbitrary: s) (simp_all add: Distribute_hand_def)

lemma take_due_stable:
  assumes "\<forall>x \<in> set q. now < executeTick x"
  shows "take_due now q = ([], q)"
proof (cases "pq_top q")
  case None
  then show ?thesis by (simp add: take_due.simps)
next
  case (Some x)
  then have "now < executeTick x" using assms pq_top_least by blast
  then show ?thesis using Some by (simp add: take_due.simps)
qed

text \<open>
  One call of \<open>Distribute\<close> hands out exactly the due jobs, the earliest first. The pushes are the jobs of a
  list of items in ascending tick order that holds every queued item with a tick of at most \<open>now\<close> (with
  multiplicity), less those whose queue is gone; what stays queued is exactly the items of a later tick;
  the flag is clear again.
\<close>
theorem Distribute_hands_out_due:
  assumes "\<not> distributing s"
  shows "\<exists>due. sorted (map executeTick due) \<and>
    mset due = filter_mset (\<lambda>x. executeTick x \<le> now) (mset (items s)) \<and>
    pushes (Distribute t alive now s) =
      pushes s @ map (\<lambda>x. (owner (jobData x), job (jobData x))) (filter (\<lambda>x. alive (owner (jobData x))) due) \<and>
    mset (items (Distribute t alive now s)) = filter_mset (\<lambda>x. now < executeTick x) (mset (items s)) \<and>
    released (Distribute t alive now s) = released s @ due \<and> \<not> distributing (Distribute t alive now s)"
proof -
  let ?due = "fst (take_due now (items s))"
  have d: "Distribute t alive now s = Distribute_leave t (hand_all t alive ?due (Distribute_take t now (Distribute_enter t s)))"
    using assms by (simp add: Distribute_def Let_def)
  have e: "items (Distribute_enter t s) = items s" "pushes (Distribute_enter t s) = pushes s"
    "released (Distribute_enter t s) = released s"
    using assms by (simp_all add: Distribute_enter_def)
  show ?thesis
  proof (intro exI conjI)
    show "sorted (map executeTick ?due)" by (rule tq.due_sorted)
    show "mset ?due = filter_mset (\<lambda>x. executeTick x \<le> now) (mset (items s))" using tq.due_bags by blast
    show "pushes (Distribute t alive now s) =
        pushes s @ map (\<lambda>x. (owner (jobData x), job (jobData x))) (filter (\<lambda>x. alive (owner (jobData x))) ?due)"
      unfolding d by (simp add: Distribute_leave_def hand_all_fields Distribute_take_def case_prod_beta Let_def e)
    show "mset (items (Distribute t alive now s)) = filter_mset (\<lambda>x. now < executeTick x) (mset (items s))"
      unfolding d using tq.due_bags [of now "items s"]
      by (simp add: Distribute_leave_def hand_all_fields Distribute_take_def case_prod_beta Let_def e)
    show "released (Distribute t alive now s) = released s @ ?due"
      unfolding d by (simp add: Distribute_leave_def hand_all_fields Distribute_take_def case_prod_beta Let_def e)
    show "\<not> distributing (Distribute t alive now s)" unfolding d by (simp add: Distribute_leave_def)
  qed
qed

lemma Distribute_hands_out_due_witness:
  "\<not> distributing (Reserve 100 2 1 8 (Reserve 100 50 0 (7 :: nat) JobTimer)) \<and>
   (\<exists>due. mset due = filter_mset (\<lambda>x. executeTick x \<le> 105) (mset (items (Reserve 100 2 1 8 (Reserve 100 50 0 (7 :: nat) JobTimer)))) \<and>
     pushes (Distribute 0 (\<lambda>_. True) 105 (Reserve 100 2 1 8 (Reserve 100 50 0 7 JobTimer))) =
       map (\<lambda>x. (owner (jobData x), job (jobData x))) due) \<and>
   pushes (Distribute 0 (\<lambda>_. True) 105 (Reserve 100 2 1 8 (Reserve 100 50 0 (7 :: nat) JobTimer))) = [(1, 8)]"
proof -
  let ?s = "Reserve 100 2 1 8 (Reserve 100 50 0 (7 :: nat) JobTimer)"
  have s: "\<not> distributing ?s" "pushes ?s = []" by (simp_all add: Reserve_def JobTimer_def Let_def)
  have "pushes (Distribute 0 (\<lambda>_. True) 105 ?s) = [(1, 8)]" by code_simp
  then show ?thesis using Distribute_hands_out_due [OF s(1), of 105 0 "\<lambda>_. True"] s by auto
qed

text \<open>
  The tick of a reservation is a 64-bit sum. While the sum does not wrap, the item stays queued by every
  distribution before its time and is due from then on; when the sum wraps, a delay of at least
  \<open>2 ^ 64 - tick\<close> ticks, the item is due at once, at the very tick at which it was reserved.
\<close>
theorem Reserve_due_time:
  assumes "item \<in> set (items (Reserve tick tickAfter own j JobTimer))"
  shows "if unat tick + unat tickAfter < 2 ^ 64
    then \<forall>now. now < executeTick item \<longleftrightarrow> unat now < unat tick + unat tickAfter
    else \<not> tick < executeTick item"
proof -
  have item: "executeTick item = tick + tickAfter"
    using assms by (simp add: Reserve_def JobTimer_def pq_push_def Let_def)
  show ?thesis
  proof (cases "unat tick + unat tickAfter < 2 ^ 64")
    case True
    then have "unat (tick + tickAfter) = unat tick + unat tickAfter" by (simp add: unat_plus_simple [THEN iffD1] no_olen_add_nat)
    then show ?thesis using True item by (simp add: word_less_nat_alt)
  next
    case False
    then have "unat (tick + tickAfter) = unat tick + unat tickAfter - 2 ^ 64"
      by (simp add: unat_plus_if')
    moreover have "unat tickAfter < 2 ^ 64" using unsigned_less [of tickAfter] by simp
    ultimately have "unat (tick + tickAfter) \<le> unat tick" by linarith
    then show ?thesis using False item by (simp add: word_less_nat_alt)
  qed
qed

lemma Reserve_due_time_witness:
  "\<not> (1000 :: 64 word) < executeTick (hd (items (Reserve 1000 (- 1) 0 () JobTimer)))"
proof -
  let ?i = "hd (items (Reserve 1000 (- 1 :: 64 word) 0 () JobTimer))"
  have i: "?i \<in> set (items (Reserve 1000 (- 1) 0 () JobTimer))"
    by (simp add: Reserve_def JobTimer_def pq_push_def Let_def)
  have "unat (- 1 :: 64 word) = 2 ^ 64 - 1" by (simp add: unsigned_minus_1_eq_mask mask_eq_exp_minus_1)
  then have over: "\<not> unat (1000 :: 64 word) + unat (- 1 :: 64 word) < 2 ^ 64" by simp
  show ?thesis using Reserve_due_time [OF i] over by argo
qed

end
