(* ===== verification/Game_Values.thy ===== *)
theory Game_Values
  imports Prelude Float_Model
begin

text \<open>
  Constants and small helpers of the client: \<open>Values.h\<close>, \<open>Utils.h\<close> and \<open>IdManager.cpp\<close> of
  \<open>DummyClient\<close>. A literal is rounded to the type it is stored in, as the compiler does.
\<close>

section \<open>Constants (Values.h)\<close>

definition WINDOW_SIZE_X :: fp where "WINDOW_SIZE_X = 800"
definition WINDOW_SIZE_Y :: fp where "WINDOW_SIZE_Y = 600"
definition WINDOW_CENTER_X :: fp where "WINDOW_CENTER_X = f32 (WINDOW_SIZE_X / 2)"
definition WINDOW_CENTER_Y :: fp where "WINDOW_CENTER_Y = f32 (WINDOW_SIZE_Y / 2)"

definition LOGIC_TICK_RATE :: fp where "LOGIC_TICK_RATE = 30"
definition LOGIC_TICK_INTERVAL :: fp where "LOGIC_TICK_INTERVAL = f64 (1 / LOGIC_TICK_RATE)"
definition SYNC_TIME_INTERVAL :: fp where "SYNC_TIME_INTERVAL = 5"

definition WORLD_RANGE_MAX :: int where "WORLD_RANGE_MAX = 2048"
definition WORLD_RANGE_MIN :: int where "WORLD_RANGE_MIN = - 2048"

definition MIN_INTERPOLATION_DELAY :: fp where "MIN_INTERPOLATION_DELAY = f64 (4 / 100)"
definition MAX_INTERPOLATION_DELAY :: fp where "MAX_INTERPOLATION_DELAY = f64 (8 / 100)"

text \<open>\<open>std::numbers::pi_v<float>\<close> is the float nearest to pi.\<close>

definition PI :: fp where "PI = 13176795 / 4194304"
definition DEG2RAD :: fp where "DEG2RAD = f32 (PI / 180)"

definition SMOOTH_THRESHOLD :: fp where "SMOOTH_THRESHOLD = f32 (7 / 10)"
definition SMOOTH_FACTOR :: fp where "SMOOTH_FACTOR = 1 / 2"

definition POSITION_RESOLUTION :: fp where
  "POSITION_RESOLUTION = f32 (f32 (of_int (WORLD_RANGE_MAX - WORLD_RANGE_MIN)) / 65535)"

definition HALF_RES :: fp where "HALF_RES = f32 (POSITION_RESOLUTION * (1 / 2))"

text \<open>The value in world units: the comment in the source gives 0.01526, the code 0.03125.\<close>

lemma POSITION_RESOLUTION_error: "\<bar>POSITION_RESOLUTION - 4096 / 65535\<bar> \<le> 1 / 16777216"
  unfolding POSITION_RESOLUTION_def WORLD_RANGE_MAX_def WORLD_RANGE_MIN_def
  using f32_error_1 [of "4096 / 65535"] f32_of_int [of 4096] by simp

lemma HALF_RES_error: "\<bar>HALF_RES - 2048 / 65535\<bar> \<le> 1 / 8000000"
proof -
  note p = POSITION_RESOLUTION_error
  then have "\<bar>POSITION_RESOLUTION * (1 / 2)\<bar> < 2" unfolding abs_le_iff abs_less_iff by linarith
  from f32_error_1 [OF this] have "\<bar>HALF_RES - POSITION_RESOLUTION * (1 / 2)\<bar> \<le> 1 / 16777216"
    by (simp add: HALF_RES_def)
  with p show ?thesis unfolding abs_le_iff by linarith
qed

section \<open>Interpolation helpers (Utils.h)\<close>

text \<open>\<open>Lerp\<close> on \<open>float\<close>: \<open>a * (1.0f - t) + b * t\<close>.\<close>

definition Lerp :: "fp \<Rightarrow> fp \<Rightarrow> fp \<Rightarrow> fp" where
  "Lerp a b t = f32 (f32 (a * f32 (1 - t)) + f32 (b * t))"

text \<open>\<open>fmodf\<close> is exact: the remainder of the division truncated towards zero.\<close>

definition fmodf :: "fp \<Rightarrow> fp \<Rightarrow> fp" where
  "fmodf x y = x - of_int (fp_trunc (x / y)) * y"

definition LerpAngle :: "fp \<Rightarrow> fp \<Rightarrow> fp \<Rightarrow> fp" where
  "LerpAngle a b t =
     (let diff = f32 (fmodf (f32 (f32 (b - a) + f32 (PI * 3))) (f32 (PI * 2)) - PI)
      in f32 (a + f32 (diff * t)))"

text \<open>\<open>std::clamp\<close>\<close>

definition clamp_fp :: "fp \<Rightarrow> fp \<Rightarrow> fp \<Rightarrow> fp" where
  "clamp_fp x lo hi = (if x < lo then lo else if hi < x then hi else x)"

lemma clamp_fp_bounds: "lo \<le> hi \<Longrightarrow> lo \<le> clamp_fp x lo hi \<and> clamp_fp x lo hi \<le> hi"
  by (simp add: clamp_fp_def)

section \<open>Actor ids (IdManager.cpp)\<close>

text \<open>The enum has six names, but the cast admits every four-bit value.\<close>

definition GetActorType :: "uint32 \<Rightarrow> uint8" where
  "GetActorType actorId = ucast (drop_bit 28 actorId)"

definition GetActorInstanceId :: "uint32 \<Rightarrow> uint32" where
  "GetActorInstanceId actorId = actorId AND 0x0FFFFFFF"

definition ActorTypePrefix_Player :: uint8 where "ActorTypePrefix_Player = 1"
definition ActorTypePrefix_Monster :: uint8 where "ActorTypePrefix_Monster = 2"
definition ActorTypePrefix_Floor :: uint8 where "ActorTypePrefix_Floor = 3"
definition ActorTypePrefix_Projectile :: uint8 where "ActorTypePrefix_Projectile = 4"

text \<open>Type and instance number determine the id.\<close>

lemma GetActorInstanceId_mask: "GetActorInstanceId i = take_bit 28 i"
proof -
  have "(0x0FFFFFFF :: 32 word) = mask 28" by (simp add: mask_eq_exp_minus_1)
  then show ?thesis by (simp only: GetActorInstanceId_def take_bit_eq_mask)
qed

lemma actor_id_split: "push_bit 28 (ucast (GetActorType i)) OR GetActorInstanceId i = i"
  unfolding GetActorInstanceId_mask GetActorType_def
  by (rule bit_word_eqI) (auto simp: bit_simps)

lemma actor_id_eq_iff:
  "i = j \<longleftrightarrow> GetActorType i = GetActorType j \<and> GetActorInstanceId i = GetActorInstanceId j"
  by (metis actor_id_split)

lemma actor_type_small: "GetActorType i < 16"
proof -
  have "unat i < 2 ^ 32" using unsigned_less [of i] by simp
  then have "drop_bit 28 (unat i) < 16" by (simp add: drop_bit_eq_div)
  then have "unat (drop_bit 28 i) < 16" by (simp only: unat_drop_bit_eq)
  then have "unat (GetActorType i) < 16" by (simp add: GetActorType_def unsigned_ucast_eq take_bit_nat_eq_self)
  then show ?thesis by (simp add: word_less_nat_alt)
qed

end
