(* ===== verification/Transform_Compressor.thy ===== *)
theory Transform_Compressor
  imports Game_Values
begin

text \<open>
  \<open>TransformCompressor.cpp\<close>: positions, rotations, velocities and the move speed as 16-bit fields of one
  packet word. Converting a floating-point value outside the range of the integer type is undefined, so the
  packing functions return a result. What the receiver decodes is compared with what was packed.
\<close>

section \<open>Conversions to 16-bit integers\<close>

definition cast_u16 :: "fp \<Rightarrow> uint16 res" where
  "cast_u16 x = (let i = fp_trunc x in if 0 \<le> i \<and> i \<le> 65535 then Inr (word_of_int i) else Inl BadCast)"

definition cast_i16 :: "fp \<Rightarrow> uint16 res" where
  "cast_i16 x = (let i = fp_trunc x in if - 32768 \<le> i \<and> i \<le> 32767 then Inr (word_of_int i) else Inl BadCast)"

text \<open>An unsigned or a signed 16-bit value as a \<open>float\<close>; both are exact.\<close>

definition float_of_u16 :: "uint16 \<Rightarrow> fp" where "float_of_u16 w = f32 (of_int (uint w))"
definition float_of_i16 :: "uint16 \<Rightarrow> fp" where "float_of_i16 w = f32 (of_int (sint w))"

section \<open>Positions\<close>

definition CompressPosition :: "fp \<Rightarrow> uint16 res" where
  "CompressPosition v =
     (let normalized = f32 (f32 (v - of_int WORLD_RANGE_MIN) / of_int (WORLD_RANGE_MAX - WORLD_RANGE_MIN));
          clamped = max 0 (min 1 normalized)
      in cast_u16 (f32 (clamped * 65535)))"

definition ExpandPosition :: "uint16 \<Rightarrow> fp" where
  "ExpandPosition packed =
     (let normalized = f32 (float_of_u16 packed / 65535)
      in f32 (f32 (f32 (normalized * of_int (WORLD_RANGE_MAX - WORLD_RANGE_MIN)) + of_int WORLD_RANGE_MIN) + HALF_RES))"

definition pack_fields :: "uint16 \<Rightarrow> uint16 \<Rightarrow> uint16 \<Rightarrow> uint16 \<Rightarrow> uint64" where
  "pack_fields a b c d =
     push_bit 48 (ucast a) OR push_bit 32 (ucast b) OR push_bit 16 (ucast c) OR ucast d"

text \<open>The 16-bit field that starts at a bit.\<close>

definition field16 :: "nat \<Rightarrow> uint64 \<Rightarrow> uint16" where
  "field16 off packed = ucast (drop_bit off packed AND 0xFFFF)"

definition PackPosition :: "fp \<Rightarrow> fp \<Rightarrow> fp \<Rightarrow> uint64 res" where
  "PackPosition px py pz =
     and_then (CompressPosition px) (\<lambda>px16.
     and_then (cast_u16 (f32 (py * 128))) (\<lambda>py16.
     and_then (CompressPosition pz) (\<lambda>pz16. Inr (pack_fields px16 py16 pz16 0))))"

definition UnPackPosition :: "uint64 \<Rightarrow> fp \<times> fp \<times> fp" where
  "UnPackPosition packed =
     (ExpandPosition (field16 48 packed), f32 (float_of_i16 (field16 32 packed) / 128),
      ExpandPosition (field16 16 packed))"

section \<open>Rotations\<close>

definition PackRotation :: "fp \<Rightarrow> fp \<Rightarrow> uint32 res" where
  "PackRotation yaw pitch =
     and_then (cast_u16 (f32 (f32 (f32 (yaw + PI) / f32 (2 * PI)) * 65535))) (\<lambda>yaw16.
     and_then (cast_u16 (f32 (f32 (f32 (pitch + f32 (PI / 2)) / PI) * 65535))) (\<lambda>pitch16.
     Inr (push_bit 16 (ucast yaw16) OR ucast pitch16)))"

definition UnPackRotation :: "uint32 \<Rightarrow> fp \<times> fp" where
  "UnPackRotation packed =
     (let yaw16 = ucast (drop_bit 16 packed AND 0xFFFF) :: uint16; pitch16 = ucast (packed AND 0xFFFF) :: uint16
      in (f32 (f32 (f32 (float_of_u16 yaw16 / 65535) * f32 (2 * PI)) - PI),
          f32 (f32 (f32 (float_of_u16 pitch16 / 65535) * PI) - f32 (PI / 2))))"

section \<open>Velocities and the move speed\<close>

definition PackVelocityAndSpeed :: "fp \<Rightarrow> fp \<Rightarrow> fp \<Rightarrow> fp \<Rightarrow> uint64 res" where
  "PackVelocityAndSpeed vx vy vz moveSpeed =
     and_then (cast_i16 (f32 (vx * 100))) (\<lambda>vx16.
     and_then (cast_i16 (f32 (vy * 100))) (\<lambda>vy16.
     and_then (cast_i16 (f32 (vz * 100))) (\<lambda>vz16.
     and_then (cast_i16 (f32 (moveSpeed * 100))) (\<lambda>speed16.
     Inr (pack_fields vx16 vy16 vz16 speed16)))))"

definition UnpackVelocityAndSpeed :: "uint64 \<Rightarrow> fp \<times> fp \<times> fp \<times> fp" where
  "UnpackVelocityAndSpeed packed =
     (f32 (float_of_i16 (field16 48 packed) / 100), f32 (float_of_i16 (field16 32 packed) / 100),
      f32 (float_of_i16 (field16 16 packed) / 100), f32 (float_of_i16 (field16 0 packed) / 100))"

section \<open>Fields\<close>

lemma field16_take_bit: "field16 off packed = ucast (drop_bit off packed)"
proof -
  have m: "(0xFFFF :: 64 word) = mask 16" by (simp add: mask_eq_exp_minus_1)
  show ?thesis unfolding field16_def m
    by (intro bit_word_eqI) (auto simp: bit_simps)
qed

lemma field16_pack [simp]:
  "field16 48 (pack_fields a b c d) = a" "field16 32 (pack_fields a b c d) = b"
  "field16 16 (pack_fields a b c d) = c" "field16 0 (pack_fields a b c d) = d"
  unfolding field16_take_bit pack_fields_def
  by (rule bit_word_eqI, auto simp: bit_simps dest: bit_imp_le_length)+

text \<open>Packing four fields loses nothing.\<close>

lemma pack_fields_inject:
  "pack_fields a b c d = pack_fields a' b' c' d' \<longleftrightarrow> a = a' \<and> b = b' \<and> c = c' \<and> d = d'"
  by (metis field16_pack)

lemma rotation_fields [simp]:
  "ucast (drop_bit 16 (push_bit 16 (ucast (a :: uint16)) OR ucast (b :: uint16) :: uint32) AND 0xFFFF) = a"
  "ucast ((push_bit 16 (ucast (a :: uint16)) OR ucast (b :: uint16) :: uint32) AND 0xFFFF) = b"
proof -
  have m: "(0xFFFF :: 32 word) = mask 16" by (simp add: mask_eq_exp_minus_1)
  show "ucast (drop_bit 16 (push_bit 16 (ucast a) OR ucast b :: uint32) AND 0xFFFF) = a"
    "ucast ((push_bit 16 (ucast a) OR ucast b :: uint32) AND 0xFFFF) = b"
    unfolding m by (rule bit_word_eqI, auto simp: bit_simps dest: bit_imp_le_length)+
qed

lemma float_of_u16 [simp]: "float_of_u16 w = of_int (uint w)"
proof -
  have "0 \<le> uint w \<and> uint w < 2 ^ 16" using uint_lt2p [of w] by simp
  then show ?thesis unfolding float_of_u16_def by (intro f32_of_int) simp
qed

lemma float_of_i16 [simp]: "float_of_i16 w = of_int (sint w)"
proof -
  have "- (2 ^ 15) \<le> sint w \<and> sint w < 2 ^ 15" using sint_greater_eq [of w] sint_less [of w] by simp
  then show ?thesis unfolding float_of_i16_def by (intro f32_of_int) (simp add: abs_less_iff)
qed

lemma uint_word_of_int_16: "0 \<le> i \<Longrightarrow> i \<le> 65535 \<Longrightarrow> uint (word_of_int i :: uint16) = i"
  by (simp add: unsigned_of_int take_bit_int_eq_self)

lemma sint_word_of_int_16: "- 32768 \<le> i \<Longrightarrow> i \<le> 32767 \<Longrightarrow> sint (word_of_int i :: uint16) = i"
  by (simp add: signed_of_int signed_take_bit_int_eq_self)

section \<open>Error analysis of positions\<close>

text \<open>The number that is cut to an integer, and the position as the receiver computes it.\<close>

definition scaled_position :: "fp \<Rightarrow> fp" where
  "scaled_position v = f32 (max 0 (min 1 (f32 (f32 (v + 2048) / 4096))) * 65535)"

lemma CompressPosition_scaled: "CompressPosition v = cast_u16 (scaled_position v)"
  by (simp add: CompressPosition_def scaled_position_def WORLD_RANGE_MIN_def WORLD_RANGE_MAX_def Let_def)

lemma clamp_bounds: "(0 :: fp) \<le> max 0 (min 1 x)" "max 0 (min 1 x) \<le> (1 :: fp)"
  by auto

lemma scaled_position_bounds: "- 1 / 512 \<le> scaled_position v" "scaled_position v \<le> 65535 + 1 / 512"
proof -
  define c where "c = max (0 :: fp) (min 1 (f32 (f32 (v + 2048) / 4096)))"
  have c: "0 \<le> c" "c \<le> 1" unfolding c_def by (rule clamp_bounds)+
  then have "\<bar>c * 65535\<bar> < 65536" by simp
  from f32_error_16 [OF this] have "\<bar>scaled_position v - c * 65535\<bar> \<le> 1 / 512"
    by (simp add: scaled_position_def c_def)
  with c show "- 1 / 512 \<le> scaled_position v" "scaled_position v \<le> 65535 + 1 / 512"
    unfolding abs_le_iff by linarith+
qed

lemma scaled_position_trunc: "0 \<le> fp_trunc (scaled_position v)" "fp_trunc (scaled_position v) \<le> 65535"
proof -
  note b = scaled_position_bounds [of v]
  show "0 \<le> fp_trunc (scaled_position v)"
  proof (cases "0 \<le> scaled_position v")
    case False
    then have "\<bar>scaled_position v\<bar> < 1" using b by simp
    then show ?thesis by (simp add: fp_trunc_small)
  qed (simp add: fp_trunc_def)
  show "fp_trunc (scaled_position v) \<le> 65535"
  proof (cases "0 \<le> scaled_position v")
    case True
    then have "of_int (fp_trunc (scaled_position v)) \<le> scaled_position v" using fp_trunc_nonneg by blast
    then have "of_int (fp_trunc (scaled_position v)) < (of_int 65536 :: rat)" using b(2) by simp
    then have "fp_trunc (scaled_position v) < 65536" by (subst (asm) of_int_less_iff)
    then show ?thesis by simp
  next
    case False
    then have "fp_trunc (scaled_position v) = 0" using b by (intro fp_trunc_small) simp
    then show ?thesis by simp
  qed
qed

text \<open>A position is always packed, whatever its value.\<close>

lemma CompressPosition_total:
  "CompressPosition v = Inr (word_of_int (fp_trunc (scaled_position v)))"
  unfolding CompressPosition_scaled cast_u16_def using scaled_position_trunc [of v] by (simp add: Let_def)

lemma of_uint_bounds: "0 \<le> (of_int (uint (w :: uint16)) :: rat)" "(of_int (uint w) :: rat) \<le> 65535"
proof -
  have "uint w < 2 ^ 16" using uint_lt2p [of w] by simp
  then have "(of_int (uint w) :: rat) \<le> of_int 65535" by (subst of_int_le_iff) simp
  then show "(of_int (uint w) :: rat) \<le> 65535" by simp
  show "0 \<le> (of_int (uint w) :: rat)" by (simp del: of_int_uint)
qed

lemma ExpandPosition_error: "\<bar>ExpandPosition w - of_int (uint w) * (4096 / 65535) - 2048 / 65535 + 2048\<bar> \<le> 1 / 1000"
proof -
  define u where "u = (of_int (uint w) :: rat)"
  have w: "0 \<le> u" "u \<le> 65535" unfolding u_def by (rule of_uint_bounds)+
  define n where "n = f32 (u / 65535)"
  define a where "a = f32 (n * 4096)"
  define b where "b = f32 (a + of_int (- 2048))"
  have n: "\<bar>n - u / 65535\<bar> \<le> 1 / 16777216"
    unfolding n_def using w by (intro f32_error_1) simp
  have "\<bar>n * 4096\<bar> < 8192" using n w unfolding abs_le_iff abs_less_iff by linarith
  then have a: "\<bar>a - n * 4096\<bar> \<le> 1 / 4096" unfolding a_def by (rule f32_error_13)
  have "\<bar>a + of_int (- 2048)\<bar> < 8192" using n a w unfolding abs_le_iff abs_less_iff by simp
  then have b: "\<bar>b - (a + of_int (- 2048))\<bar> \<le> 1 / 4096" unfolding b_def by (rule f32_error_13)
  note h = HALF_RES_error
  have "\<bar>b + HALF_RES\<bar> < 8192" using n a b h w unfolding abs_le_iff abs_less_iff by simp
  then have c: "\<bar>f32 (b + HALF_RES) - (b + HALF_RES)\<bar> \<le> 1 / 4096" by (rule f32_error_13)
  have e: "ExpandPosition w = f32 (b + HALF_RES)"
    by (simp add: ExpandPosition_def b_def a_def n_def WORLD_RANGE_MAX_def WORLD_RANGE_MIN_def u_def)
  show ?thesis using n a b c h unfolding e u_def [symmetric] by linarith
qed

lemma clamp_closer:
  assumes "0 \<le> y"
  shows "\<bar>max 0 (min 1 x) - min 1 y\<bar> \<le> \<bar>x - (y :: fp)\<bar>"
  using assms by (auto simp: max_def min_def abs_if)

lemma scaled_position_error:
  assumes "- 2048 \<le> v" and "v \<le> 2049"
  shows "\<bar>scaled_position v - min 1 ((v + 2048) / 4096) * 65535\<bar> \<le> 1 / 100"
proof -
  define a where "a = f32 (v + 2048)"
  define x where "x = f32 (a / 4096)"
  define c where "c = max 0 (min 1 x)"
  define y where "y = (v + 2048) / 4096"
  have a: "\<bar>a - (v + 2048)\<bar> \<le> 1 / 4096" unfolding a_def by (rule f32_error_13) (use assms in simp)
  have "\<bar>a / 4096\<bar> < 2" using a assms unfolding abs_le_iff abs_less_iff by simp
  then have x: "\<bar>x - a / 4096\<bar> \<le> 1 / 16777216" unfolding x_def by (rule f32_error_1)
  have xy: "\<bar>x - y\<bar> \<le> 1 / 8388608" using a x unfolding abs_le_iff y_def by (simp add: field_simps)
  have c: "\<bar>c - min 1 y\<bar> \<le> 1 / 8388608"
    using clamp_closer [of y x] xy assms(1) unfolding c_def y_def by (simp add: field_simps)
  have "0 \<le> c" "c \<le> 1" unfolding c_def by (rule clamp_bounds)+
  then have "\<bar>c * 65535\<bar> < 65536" by simp
  from f32_error_16 [OF this] have s: "\<bar>scaled_position v - c * 65535\<bar> \<le> 1 / 512"
    by (simp add: scaled_position_def c_def x_def a_def)
  show ?thesis using s c unfolding abs_le_iff y_def [symmetric] by simp
qed

text \<open>
  A position inside the world comes back within one thirtieth of a unit (half the resolution of 1/16,
  plus rounding), in spite of four roundings on each side: packing never fails there, and the decoded
  coordinate differs from the packed one by less than 1/30.
\<close>
lemma position_decodes_within_resolution:
  assumes "- 2048 \<le> v" and "v \<le> 2048"
  shows "\<exists>w. CompressPosition v = Inr w \<and> \<bar>ExpandPosition w - v\<bar> < 1 / 30"
proof -
  define s where "s = scaled_position v"
  define i where "i = fp_trunc s"
  define w where "w = (word_of_int i :: uint16)"
  have comp: "CompressPosition v = Inr w" by (simp add: CompressPosition_total w_def i_def s_def)
  have i: "0 \<le> i" "i \<le> 65535" using scaled_position_trunc [of v] by (simp_all add: i_def s_def)
  then have u: "uint w = i" unfolding w_def by (rule uint_word_of_int_16)
  have "min 1 ((v + 2048) / 4096) = (v + 2048) / 4096" using assms by simp
  then have err: "\<bar>s - (v + 2048) / 4096 * 65535\<bar> \<le> 1 / 100"
    using scaled_position_error [of v] assms by (simp add: s_def)
  have cut: "s - 1 < of_int i" "of_int i \<le> s + 1 / 512"
  proof -
    show "s - 1 < of_int i" using fp_trunc_error [of s] unfolding i_def abs_less_iff by linarith
    show "of_int i \<le> s + 1 / 512"
    proof (cases "0 \<le> s")
      case True
      then show ?thesis using fp_trunc_nonneg [OF True] by (simp add: i_def)
    next
      case False
      moreover have "- 1 / 512 \<le> s" unfolding s_def by (rule scaled_position_bounds(1))
      ultimately have "i = 0" unfolding i_def by (intro fp_trunc_small) simp
      then show ?thesis using \<open>- 1 / 512 \<le> s\<close> by simp
    qed
  qed
  have "\<bar>ExpandPosition w - v\<bar> < 1 / 30"
    using ExpandPosition_error [of w] err cut unfolding u abs_le_iff abs_less_iff by (simp add: field_simps)
  then show ?thesis using comp by blast
qed

text \<open>
  The decoded positions are fixed points. Packing what \<open>ExpandPosition\<close> made of any of the 65536 codes
  gives that code back, so a position that was sent once is not moved by being sent again.
\<close>
lemma CompressPosition_ExpandPosition: "CompressPosition (ExpandPosition w) = Inr w"
proof -
  let ?v = "ExpandPosition w"
  define u where "u = (of_int (uint w) :: rat)"
  have e: "\<bar>?v - u * (4096 / 65535) - 2048 / 65535 + 2048\<bar> \<le> 1 / 1000" unfolding u_def by (rule ExpandPosition_error)
  have u: "0 \<le> u" "u \<le> 65535" unfolding u_def by (rule of_uint_bounds)+
  have v: "- 2048 \<le> ?v" "?v \<le> 2049" using e u by linarith+
  have "fp_trunc (scaled_position ?v) = uint w"
  proof (cases "uint w = 65535")
    case True
    define a where "a = f32 (?v + 2048)"
    have a: "\<bar>a - (?v + 2048)\<bar> \<le> 1 / 4096" unfolding a_def by (rule f32_error_13) (use v in simp)
    have "\<bar>a / 4096\<bar> < 2" using a v unfolding abs_le_iff abs_less_iff by simp
    from f32_error_1 [OF this] have "1 \<le> f32 (a / 4096)"
      using a e True unfolding abs_le_iff u_def by (simp add: field_simps)
    then have "scaled_position ?v = f32 (of_int 65535)" by (simp add: scaled_position_def a_def)
    then show ?thesis using True f32_of_int [of 65535] by (simp del: of_int_numeral)
  next
    case False
    have "uint w < 2 ^ 16" using uint_lt2p [of w] by simp
    with False have "uint w \<le> 65534" by simp
    then have "u \<le> of_int 65534" unfolding u_def by (subst of_int_le_iff)
    then have le: "u \<le> 65534" by simp
    have y: "min 1 ((?v + 2048) / 4096) = (?v + 2048) / 4096" using e le unfolding abs_le_iff by (simp add: field_simps)
    have "\<bar>scaled_position ?v - (?v + 2048) / 4096 * 65535\<bar> \<le> 1 / 100"
      using scaled_position_error [OF v] unfolding y .
    then have "u \<le> scaled_position ?v" "scaled_position ?v < u + 1"
      using e le u unfolding abs_le_iff by (simp_all add: field_simps)
    then show ?thesis unfolding u_def by (intro fp_trunc_eqI) simp_all
  qed
  then show ?thesis by (simp add: CompressPosition_total)
qed

section \<open>Heights\<close>

lemma f32_128th: "\<bar>i\<bar> < 2 ^ 24 \<Longrightarrow> f32 (of_int i / 128) = of_int i / 128"
  unfolding f32_def by (rule fp_exact_general [where m = i and e = "-7"]) (simp_all add: power_int_def power_one_over)

lemma sint_word_of_int_high: "32768 \<le> i \<Longrightarrow> i \<le> 65535 \<Longrightarrow> sint (word_of_int i :: uint16) = i - 65536"
proof -
  assume i: "32768 \<le> i" "i \<le> 65535"
  have "(word_of_int i :: uint16) = word_of_int (i - 65536)" by (rule word_of_int_eq_iff [THEN iffD2]) (simp add: take_bit_eq_mod)
  then have "sint (word_of_int i :: uint16) = sint (word_of_int (i - 65536) :: uint16)" by (rule arg_cong)
  also have "\<dots> = i - 65536" by (rule sint_word_of_int_16) (use i in simp_all)
  finally show ?thesis .
qed

lemma UnPackPosition_fields:
  "UnPackPosition p = (ExpandPosition (field16 48 p), of_int (sint (field16 32 p)) / 128, ExpandPosition (field16 16 p))"
proof -
  have "\<bar>sint (field16 32 p)\<bar> < 2 ^ 24"
    using sint_greater_eq [of "field16 32 p"] sint_less [of "field16 32 p"] by (simp add: abs_less_iff)
  then have "f32 (of_int (sint (field16 32 p)) / 128) = of_int (sint (field16 32 p)) / 128" by (rule f32_128th)
  then show ?thesis by (simp add: UnPackPosition_def del: of_int_sint)
qed

lemma PackPosition_height:
  assumes "CompressPosition px = Inr a" and "CompressPosition pz = Inr c" and "t = fp_trunc (f32 (py * 128))"
    and "0 \<le> t" and "t \<le> 65535"
  shows "PackPosition px py pz = Inr (pack_fields a (word_of_int t) c 0) \<and>
    UnPackPosition (pack_fields a (word_of_int t) c 0) =
      (ExpandPosition a, of_int t / 128 - (if t \<le> 32767 then 0 else 512), ExpandPosition c)"
proof
  show "PackPosition px py pz = Inr (pack_fields a (word_of_int t) c 0)"
    using assms(3-5) by (simp add: PackPosition_def assms(1,2) cast_u16_def Let_def)
  have s: "sint (word_of_int t :: uint16) = t - (if t \<le> 32767 then 0 else 65536)"
    using assms(4,5) sint_word_of_int_16 [of t] sint_word_of_int_high [of t] by simp
  show "UnPackPosition (pack_fields a (word_of_int t) c 0) =
      (ExpandPosition a, of_int t / 128 - (if t \<le> 32767 then 0 else 512), ExpandPosition c)"
    unfolding UnPackPosition_fields field16_pack s by (simp add: field_simps)
qed

text \<open>
  What happens to a height. It is sent as \<open>t = trunc (128 y)\<close> in an unsigned field and read back as a
  signed one: up to \<open>t = 32767\<close> the receiver gets \<open>t / 128\<close>; from 32768 on, a height of 256 and more,
  it gets \<open>t / 128 - 512\<close>, below the ground; and a negative \<open>t\<close>, or one above 65535, has no defined encoding.
\<close>
theorem height_decodes:
  "let t = fp_trunc (f32 (py * 128))
   in if t < 0 \<or> 65535 < t then PackPosition px py pz = Inl BadCast
      else \<exists>p. PackPosition px py pz = Inr p \<and>
        fst (snd (UnPackPosition p)) = of_int t / 128 - (if t \<le> 32767 then 0 else 512)"
proof -
  define t where "t = fp_trunc (f32 (py * 128))"
  obtain a c where ac: "CompressPosition px = Inr a" "CompressPosition pz = Inr c"
    using CompressPosition_total by blast
  have "if t < 0 \<or> 65535 < t then PackPosition px py pz = Inl BadCast
      else \<exists>p. PackPosition px py pz = Inr p \<and>
        fst (snd (UnPackPosition p)) = of_int t / 128 - (if t \<le> 32767 then 0 else 512)"
  proof (cases "0 \<le> t \<and> t \<le> 65535")
    case False
    then show ?thesis by (auto simp: PackPosition_def ac cast_u16_def t_def [symmetric] Let_def)
  next
    case True
    with PackPosition_height [OF ac t_def] show ?thesis by auto
  qed
  then show ?thesis unfolding Let_def t_def .
qed

text \<open>
  C31: What becomes of a position on the wire. In the world's square, packing is defined for every height that a
  \<open>float\<close> can have between \<open>- 1 / 128\<close> and 512, both exclusive, and for no other: beyond, the conversion is undefined. The
  receiver gets both horizontal coordinates within one thirtieth of a unit (half the resolution of 1/16, plus rounding), and
  the height within 1/128, but a height from 256 on arrives 512 lower.
\<close>
theorem position_decodes:
  assumes "- 2048 \<le> x" and "x \<le> 2048" and "- 2048 \<le> z" and "z \<le> 2048" and "f32 y = y"
  shows "if - 1 / 128 < y \<and> y < 512
    then \<exists>p x' y' z'. PackPosition x y z = Inr p \<and> UnPackPosition p = (x', y', z') \<and>
      \<bar>x' - x\<bar> < 1 / 30 \<and> \<bar>y' - (if y < 256 then y else y - 512)\<bar> < 1 / 128 \<and> \<bar>z' - z\<bar> < 1 / 30
    else PackPosition x y z = Inl BadCast"
proof -
  obtain a where a: "CompressPosition x = Inr a" "\<bar>ExpandPosition a - x\<bar> < 1 / 30"
    using position_decodes_within_resolution [OF assms(1,2)] by blast
  obtain c where c: "CompressPosition z = Inr c" "\<bar>ExpandPosition c - z\<bar> < 1 / 30"
    using position_decodes_within_resolution [OF assms(3,4)] by blast
  define t where "t = fp_trunc (y * 128)"
  have h: "f32 (y * 128) = y * 128" using assms(5) by (rule f32_times_128)
  have t: "t = fp_trunc (f32 (y * 128))" by (simp add: t_def h)
  have e: "\<bar>of_int t - y * 128\<bar> < 1" unfolding t_def by (rule fp_trunc_error)
  have range: "0 \<le> t \<and> t \<le> 65535 \<longleftrightarrow> - 1 / 128 < y \<and> y < 512" and low: "t \<le> 32767 \<longleftrightarrow> y < 256"
    by (auto simp: t_def fp_trunc_def floor_le_iff le_floor_iff less_ceiling_iff ceiling_le_iff zero_le_ceiling)
  show ?thesis
  proof (cases "- 1 / 128 < y \<and> y < 512")
    case True
    then have r: "0 \<le> t" "t \<le> 65535" using range by blast+
    have "\<bar>of_int t / 128 - (if t \<le> 32767 then 0 else 512) - (if y < 256 then y else y - 512)\<bar> < 1 / 128"
      using e low by (cases "y < 256") (simp_all add: abs_less_iff field_simps)
    moreover note PackPosition_height [OF a(1) c(1) t r]
    ultimately show ?thesis using a(2) c(2) True by (simp only: if_True simp_thms) blast
  next
    case False
    then have "\<not> (0 \<le> t \<and> t \<le> 65535)" using range by blast
    then have "cast_u16 (f32 (y * 128)) = Inl BadCast" by (auto simp: cast_u16_def Let_def t)
    then show ?thesis using False by (simp add: PackPosition_def a(1))
  qed
qed

lemma position_decodes_witness:
  "(\<exists>p x' y' z'. PackPosition (1025 / 4) (3 / 2) (- 7) = Inr p \<and> UnPackPosition p = (x', y', z') \<and>
     \<bar>x' - 1025 / 4\<bar> < 1 / 30 \<and> \<bar>y' - 3 / 2\<bar> < 1 / 128 \<and> \<bar>z' - - 7\<bar> < 1 / 30) \<and>
   (\<exists>p x' y' z'. PackPosition 0 300 0 = Inr p \<and> UnPackPosition p = (x', y', z') \<and> \<bar>y' - - 212\<bar> < 1 / 128) \<and>
   PackPosition 0 (- 1) 0 = Inl BadCast"
proof (intro conjI)
  have f: "f32 (3 / 2) = 3 / 2" "f32 300 = 300" "f32 (- 1) = - 1"
    using f32_of_int [of 300] f32_of_int [of "- 1"]
    by (simp_all add: f32_def fp_exact_general [where m = 3 and e = "- 1"] power_int_def)
  show "\<exists>p x' y' z'. PackPosition (1025 / 4) (3 / 2) (- 7) = Inr p \<and> UnPackPosition p = (x', y', z') \<and>
      \<bar>x' - 1025 / 4\<bar> < 1 / 30 \<and> \<bar>y' - 3 / 2\<bar> < 1 / 128 \<and> \<bar>z' - - 7\<bar> < 1 / 30"
    using position_decodes [of "1025 / 4" "- 7" "3 / 2"] f by simp
  show "\<exists>p x' y' z'. PackPosition 0 300 0 = Inr p \<and> UnPackPosition p = (x', y', z') \<and> \<bar>y' - - 212\<bar> < 1 / 128"
    using position_decodes [of 0 0 300] f by auto
  show "PackPosition 0 (- 1) 0 = Inl BadCast" using position_decodes [of 0 0 "- 1"] f by simp
qed

lemma pack_fields_clear: "pack_fields (field16 48 p) (field16 32 p) (field16 16 p) 0 = p AND NOT (mask 16)"
  unfolding field16_take_bit pack_fields_def
proof (rule bit_word_eqI)
  fix n assume n: "n < LENGTH(64)"
  consider "n < 16" | "16 \<le> n" "n < 32" | "32 \<le> n" "n < 48" | "48 \<le> n" by linarith
  then show "bit ((push_bit 48 (ucast (ucast (drop_bit 48 p) :: uint16)) OR push_bit 32 (ucast (ucast (drop_bit 32 p) :: uint16)) OR
      push_bit 16 (ucast (ucast (drop_bit 16 p) :: uint16)) OR ucast (0 :: uint16)) :: uint64) n = bit (p AND NOT (mask 16)) n"
    using n by cases (auto simp: bit_simps)
qed

lemma word_of_int_sint: "0 \<le> sint w \<Longrightarrow> word_of_int (sint w) = (w :: uint16)"
  by simp

text \<open>
  Unpacking and packing again gives the same 48 bits, whatever they are, unless the height field is
  negative when read as signed; then the height cannot be packed.
\<close>
theorem position_repacked:
  "case UnPackPosition p of (x, y, z) \<Rightarrow>
     PackPosition x y z = (if sint (field16 32 p) < 0 then Inl BadCast else Inr (p AND NOT (mask 16)))"
proof -
  let ?i = "sint (field16 32 p)"
  have i: "- (2 ^ 15) \<le> ?i" "?i < 2 ^ 15" using sint_greater_eq [of "field16 32 p"] sint_less [of "field16 32 p"] by simp_all
  then have "f32 (of_int ?i) = of_int ?i" by (intro f32_of_int) (simp add: abs_less_iff)
  then have "fp_trunc (f32 (of_int ?i / 128 * 128)) = ?i" by (simp del: of_int_sint)
  then have "cast_u16 (f32 (of_int ?i / 128 * 128)) = (if ?i < 0 then Inl BadCast else Inr (field16 32 p))"
    using i by (simp add: cast_u16_def Let_def)
  then show ?thesis
    by (simp add: UnPackPosition_fields PackPosition_def CompressPosition_ExpandPosition pack_fields_clear del: of_int_sint)
qed

section \<open>Velocities\<close>

lemma velocity_component:
  assumes "\<bar>v\<bar> \<le> 327"
  shows "\<exists>w. cast_i16 (f32 (v * 100)) = Inr w \<and> \<bar>f32 (float_of_i16 w / 100) - v\<bar> \<le> 11 / 1000"
proof -
  define s where "s = f32 (v * 100)"
  define i where "i = fp_trunc s"
  define t where "t = (of_int i :: rat)"
  have s: "\<bar>s - v * 100\<bar> \<le> 1 / 512" unfolding s_def by (rule f32_error_16) (use assms in simp)
  have ti: "\<bar>t - s\<bar> < 1" unfolding t_def i_def by (rule fp_trunc_error)
  have "- 32702 < t" "t < 32702" using s ti assms by linarith+
  then have "of_int (- 32702) < (of_int i :: rat)" "(of_int i :: rat) < of_int 32702" by (simp_all add: t_def)
  then have i: "- 32702 < i" "i < 32702" by (simp_all only: of_int_less_iff)
  define w where "w = (word_of_int i :: uint16)"
  have w: "sint w = i" unfolding w_def using i by (intro sint_word_of_int_16) simp_all
  have "\<bar>f32 (t / 100) - t / 100\<bar> \<le> 1 / 4096" by (rule f32_error_13) (use \<open>- 32702 < t\<close> \<open>t < 32702\<close> in \<open>simp add: abs_less_iff\<close>)
  then have "\<bar>f32 (t / 100) - v\<bar> \<le> 11 / 1000" using s ti by linarith
  moreover have "cast_i16 s = Inr w" using i by (simp add: cast_i16_def w_def i_def Let_def)
  moreover have "float_of_i16 w = t" by (simp add: w t_def del: of_int_sint)
  ultimately show ?thesis unfolding s_def by auto
qed

text \<open>
  Velocities and the move speed survive within 11/1000. When every component is at most 327 in
  magnitude the packing is defined and each decoded component is within 11/1000 of the packed one, also the
  negative ones, although the four numbers travel as unsigned fields of one 64-bit word.
\<close>
theorem velocity_decodes:
  assumes "\<bar>vx\<bar> \<le> 327" and "\<bar>vy\<bar> \<le> 327" and "\<bar>vz\<bar> \<le> 327" and "\<bar>sp\<bar> \<le> 327"
  shows "\<exists>p. PackVelocityAndSpeed vx vy vz sp = Inr p \<and>
    (case UnpackVelocityAndSpeed p of (x, y, z, s) \<Rightarrow>
       \<bar>x - vx\<bar> \<le> 11 / 1000 \<and> \<bar>y - vy\<bar> \<le> 11 / 1000 \<and> \<bar>z - vz\<bar> \<le> 11 / 1000 \<and> \<bar>s - sp\<bar> \<le> 11 / 1000)"
proof -
  obtain a where a: "cast_i16 (f32 (vx * 100)) = Inr a" "\<bar>f32 (float_of_i16 a / 100) - vx\<bar> \<le> 11 / 1000"
    using velocity_component [OF assms(1)] by blast
  obtain b where b: "cast_i16 (f32 (vy * 100)) = Inr b" "\<bar>f32 (float_of_i16 b / 100) - vy\<bar> \<le> 11 / 1000"
    using velocity_component [OF assms(2)] by blast
  obtain c where c: "cast_i16 (f32 (vz * 100)) = Inr c" "\<bar>f32 (float_of_i16 c / 100) - vz\<bar> \<le> 11 / 1000"
    using velocity_component [OF assms(3)] by blast
  obtain d where d: "cast_i16 (f32 (sp * 100)) = Inr d" "\<bar>f32 (float_of_i16 d / 100) - sp\<bar> \<le> 11 / 1000"
    using velocity_component [OF assms(4)] by blast
  have "PackVelocityAndSpeed vx vy vz sp = Inr (pack_fields a b c d)"
    by (simp add: PackVelocityAndSpeed_def a(1) b(1) c(1) d(1))
  then show ?thesis using a(2) b(2) c(2) d(2) unfolding UnpackVelocityAndSpeed_def by auto
qed

lemma velocity_decodes_witness:
  "\<exists>p. PackVelocityAndSpeed (- 5 / 2) 0 3 (7 / 2) = Inr p \<and>
    (case UnpackVelocityAndSpeed p of (x, y, z, s) \<Rightarrow>
       \<bar>x - (- 5 / 2)\<bar> \<le> 11 / 1000 \<and> \<bar>y - 0\<bar> \<le> 11 / 1000 \<and> \<bar>z - 3\<bar> \<le> 11 / 1000 \<and> \<bar>s - 7 / 2\<bar> \<le> 11 / 1000)"
  by (rule velocity_decodes) simp_all

section \<open>Angles\<close>

lemma PI_bounds: "3141592 / 1000000 \<le> PI" "PI \<le> 3141593 / 1000000"
  by (simp_all add: PI_def)

lemma f32_2PI [simp]: "f32 (2 * PI) = 2 * PI"
  unfolding f32_def PI_def
  by (rule fp_exact_general [where m = 13176795 and e = "-21"]) (simp_all add: power_int_def power_one_over)

lemma f32_half_PI [simp]: "f32 (PI / 2) = PI / 2"
  unfolding f32_def PI_def
  by (rule fp_exact_general [where m = 13176795 and e = "-23"]) (simp_all add: power_int_def power_one_over)

text \<open>An angle \<open>x\<close> in a range of length \<open>r\<close>, one or two pi, and the sum the code computes.\<close>

definition scaled_angle :: "fp \<Rightarrow> fp \<Rightarrow> fp" where
  "scaled_angle r x = f32 (f32 (f32 x / r) * 65535)"

lemma scaled_angle_error:
  assumes "3141592 / 1000000 \<le> r" and "0 \<le> x" and "x \<le> r" and "r \<le> 6283186 / 1000000"
  shows "\<bar>scaled_angle r x - x / r * 65535\<bar> \<le> 1 / 80"
proof -
  define a where "a = f32 x"
  define b where "b = f32 (a / r)"
  have r: "0 < r" using assms(1) by simp
  have a: "\<bar>a - x\<bar> \<le> 1 / 4194304" unfolding a_def by (rule f32_error_3) (use assms in simp)
  have "\<bar>a / r - x / r\<bar> = \<bar>a - x\<bar> / r" using r by (simp add: abs_divide diff_divide_distrib [symmetric])
  also have "\<dots> \<le> (1 / 4194304) / (3141592 / 1000000)" by (rule frac_le) (use a assms in auto)
  also have "\<dots> \<le> 1 / 13000000" by simp
  finally have ar: "\<bar>a / r - x / r\<bar> \<le> 1 / 13000000" .
  have xr: "0 \<le> x / r" "x / r \<le> 1" using assms r by simp_all
  have "\<bar>a / r\<bar> < 2" using ar xr by linarith
  then have b: "\<bar>b - a / r\<bar> \<le> 1 / 16777216" unfolding b_def by (rule f32_error_1)
  have "\<bar>b * 65535\<bar> < 65536" using ar b xr by linarith
  from f32_error_16 [OF this] have s: "\<bar>scaled_angle r x - b * 65535\<bar> \<le> 1 / 512"
    by (simp add: scaled_angle_def a_def b_def)
  show ?thesis using s b ar by linarith
qed

lemma angle_cast:
  assumes "3141592 / 1000000 \<le> r" and "0 \<le> x" and "x \<le> r" and "r \<le> 6283186 / 1000000"
  shows "\<exists>w. cast_u16 (scaled_angle r x) = Inr w \<and> \<bar>of_int (uint w) / 65535 * r - x\<bar> \<le> 98 / 1000000"
proof -
  define s where "s = scaled_angle r x"
  define i where "i = fp_trunc s"
  define u where "u = (of_int i :: rat)"
  have s: "\<bar>s - x / r * 65535\<bar> \<le> 1 / 80" unfolding s_def by (rule scaled_angle_error [OF assms])
  have r: "0 < r" using assms(1) by simp
  have xr: "0 \<le> x / r" "x / r \<le> 1" using assms r by simp_all
  have cut: "s - 1 < u" "u \<le> s + 1 / 80" "0 \<le> i"
  proof -
    show "s - 1 < u" using fp_trunc_error [of s] unfolding i_def u_def by linarith
    have "u \<le> s + 1 / 80 \<and> 0 \<le> i"
    proof (cases "0 \<le> s")
      case True
      then have "u \<le> s" using fp_trunc_nonneg [OF True] unfolding u_def i_def by blast
      moreover have "0 \<le> i" using True by (simp add: i_def fp_trunc_def)
      ultimately show ?thesis by linarith
    next
      case False
      then have "- 1 / 80 \<le> s" using s xr by linarith
      then have "i = 0" using False unfolding i_def by (intro fp_trunc_small) simp
      then show ?thesis using \<open>- 1 / 80 \<le> s\<close> by (simp add: u_def)
    qed
    then show "u \<le> s + 1 / 80" "0 \<le> i" by blast+
  qed
  have "u < 65536" using cut s xr by linarith
  then have "(of_int i :: rat) < of_int 65536" by (simp add: u_def)
  then have hi: "i \<le> 65535" by (simp only: of_int_less_iff) 
  define w where "w = (word_of_int i :: uint16)"
  have w: "uint w = i" unfolding w_def using cut(3) hi by (rule uint_word_of_int_16)
  have "\<bar>u - x / r * 65535\<bar> \<le> 1 + 1 / 80" using cut s by linarith
  then have "\<bar>u / 65535 - x / r\<bar> \<le> 81 / 80 / 65535" by (simp add: abs_le_iff field_simps)
  then have "\<bar>u / 65535 - x / r\<bar> * r \<le> (81 / 80 / 65535) * r" using r by (intro mult_right_mono) simp_all
  also have "\<dots> \<le> (81 / 80 / 65535) * (6283186 / 1000000)" using assms(4) by (intro mult_left_mono) simp_all
  also have "\<dots> \<le> 98 / 1000000" by simp
  also have "\<bar>u / 65535 - x / r\<bar> * r = \<bar>u / 65535 * r - x\<bar>"
  proof -
    have "(u / 65535 - x / r) * r = u / 65535 * r - x" using r by (simp add: left_diff_distrib)
    then show ?thesis using r by (metis abs_mult abs_of_pos)
  qed
  finally have "\<bar>u / 65535 * r - x\<bar> \<le> 98 / 1000000" .
  moreover have "cast_u16 s = Inr w" using cut(3) hi by (simp add: cast_u16_def w_def i_def Let_def)
  ultimately show ?thesis unfolding u_def s_def w [symmetric] by blast
qed

lemma angle_decode_error:
  assumes "3141592 / 1000000 \<le> r" and "r \<le> 6283186 / 1000000" and "0 \<le> h" and "h \<le> r" and "r - h \<le> 3141593 / 1000000"
    and "h \<le> 3141593 / 1000000"
  shows "\<bar>f32 (f32 (f32 (of_int (uint (w :: uint16)) / 65535) * r) - h) - (of_int (uint w) / 65535 * r - h)\<bar> \<le> 1 / 1000000"
proof -
  define u where "u = (of_int (uint w) / 65535 :: rat)"
  have u: "0 \<le> u" "u \<le> 1" using of_uint_bounds [of w] unfolding u_def by (simp_all del: of_int_uint)
  define n where "n = f32 u"
  define m where "m = f32 (n * r)"
  have r: "0 \<le> r" using assms(1) by simp
  have n: "\<bar>n - u\<bar> \<le> 1 / 16777216" unfolding n_def by (rule f32_error_1) (use u in simp)
  have "\<bar>n * r - u * r\<bar> = \<bar>n - u\<bar> * r" using r by (simp add: abs_mult flip: left_diff_distrib)
  also have "\<dots> \<le> (1 / 16777216) * (6283186 / 1000000)" using n assms(2) r by (intro mult_mono) simp_all
  also have "\<dots> \<le> 4 / 10000000" by simp
  finally have nr: "\<bar>n * r - u * r\<bar> \<le> 4 / 10000000" .
  have ur: "0 \<le> u * r" "u * r \<le> r" using u r by (simp_all add: mult_left_le_one_le)
  have "\<bar>n * r\<bar> < 8" using nr ur assms(2) by linarith
  then have m: "\<bar>m - n * r\<bar> \<le> 1 / 4194304" unfolding m_def by (rule f32_error_3)
  have "\<bar>m - h\<bar> < 8" using m nr ur assms by linarith
  then have "\<bar>f32 (m - h) - (m - h)\<bar> \<le> 1 / 4194304" by (rule f32_error_3)
  then show ?thesis using m nr unfolding u_def [symmetric] n_def [symmetric] m_def [symmetric] by linarith
qed

lemma PackRotation_scaled:
  "PackRotation yaw pitch =
     and_then (cast_u16 (scaled_angle (2 * PI) (yaw + PI))) (\<lambda>yaw16.
     and_then (cast_u16 (scaled_angle PI (pitch + PI / 2))) (\<lambda>pitch16.
     Inr (push_bit 16 (ucast yaw16) OR ucast pitch16)))"
  by (simp add: PackRotation_def scaled_angle_def)

lemma PackRotation_total:
  assumes "- PI \<le> yaw" and "yaw \<le> PI" and "- (PI / 2) \<le> pitch" and "pitch \<le> PI / 2"
  shows "\<exists>p. PackRotation yaw pitch = Inr p"
proof -
  note P = PI_bounds
  obtain a where "cast_u16 (scaled_angle (2 * PI) (yaw + PI)) = Inr a"
    using angle_cast [of "2 * PI" "yaw + PI"] assms P by auto
  moreover obtain b where "cast_u16 (scaled_angle PI (pitch + PI / 2)) = Inr b"
    using angle_cast [of PI "pitch + PI / 2"] assms P by auto
  ultimately show ?thesis by (simp add: PackRotation_scaled)
qed

text \<open>
  An orientation survives within a ten-thousandth of a radian: for a yaw in \<open>[-PI, PI]\<close> and a pitch in
  \<open>[-PI/2, PI/2]\<close> the packing is defined and both decoded angles are within 1/10000 of the packed ones.
\<close>
theorem rotation_decodes:
  assumes "- PI \<le> yaw" and "yaw \<le> PI" and "- (PI / 2) \<le> pitch" and "pitch \<le> PI / 2"
  shows "\<exists>p. PackRotation yaw pitch = Inr p \<and>
    \<bar>fst (UnPackRotation p) - yaw\<bar> \<le> 1 / 10000 \<and> \<bar>snd (UnPackRotation p) - pitch\<bar> \<le> 1 / 10000"
proof -
  note P = PI_bounds
  have "\<exists>w. cast_u16 (scaled_angle (2 * PI) (yaw + PI)) = Inr w \<and>
    \<bar>of_int (uint w) / 65535 * (2 * PI) - (yaw + PI)\<bar> \<le> 98 / 1000000"
    by (rule angle_cast) (use assms P in simp_all)
  then obtain a where a: "cast_u16 (scaled_angle (2 * PI) (yaw + PI)) = Inr a"
    "\<bar>of_int (uint a) / 65535 * (2 * PI) - (yaw + PI)\<bar> \<le> 98 / 1000000" by blast
  have "\<exists>w. cast_u16 (scaled_angle PI (pitch + PI / 2)) = Inr w \<and>
    \<bar>of_int (uint w) / 65535 * PI - (pitch + PI / 2)\<bar> \<le> 98 / 1000000"
    by (rule angle_cast) (use assms P in simp_all)
  then obtain b where b: "cast_u16 (scaled_angle PI (pitch + PI / 2)) = Inr b"
    "\<bar>of_int (uint b) / 65535 * PI - (pitch + PI / 2)\<bar> \<le> 98 / 1000000" by blast
  define p where "p = (push_bit 16 (ucast a) OR ucast b :: uint32)"
  have pack: "PackRotation yaw pitch = Inr p" by (simp add: PackRotation_scaled a(1) b(1) p_def)
  have un: "UnPackRotation p =
      (f32 (f32 (f32 (of_int (uint a) / 65535) * (2 * PI)) - PI), f32 (f32 (f32 (of_int (uint b) / 65535) * PI) - PI / 2))"
    unfolding UnPackRotation_def p_def Let_def rotation_fields float_of_u16 f32_2PI f32_half_PI by (rule refl)
  have "\<bar>f32 (f32 (f32 (of_int (uint a) / 65535) * (2 * PI)) - PI) - (of_int (uint a) / 65535 * (2 * PI) - PI)\<bar> \<le> 1 / 1000000"
    by (rule angle_decode_error) (use P in simp_all)
  moreover have "\<bar>f32 (f32 (f32 (of_int (uint b) / 65535) * PI) - PI / 2) - (of_int (uint b) / 65535 * PI - PI / 2)\<bar> \<le> 1 / 1000000"
    by (rule angle_decode_error) (use P in simp_all)
  ultimately have "\<bar>fst (UnPackRotation p) - yaw\<bar> \<le> 1 / 10000 \<and> \<bar>snd (UnPackRotation p) - pitch\<bar> \<le> 1 / 10000"
    using a(2) b(2) unfolding un fst_conv snd_conv by linarith
  with pack show ?thesis by blast
qed

lemma rotation_decodes_witness:
  "\<exists>p. PackRotation (- 3) 1 = Inr p \<and>
    \<bar>fst (UnPackRotation p) - (- 3)\<bar> \<le> 1 / 10000 \<and> \<bar>snd (UnPackRotation p) - 1\<bar> \<le> 1 / 10000"
  by (rule rotation_decodes) (simp_all add: PI_def)

text \<open>
  A yaw outside that range has no encoding. From one thousandth of a radian beyond \<open>PI\<close> in either
  direction the scaled value lies outside 16 bits and its conversion is undefined.
\<close>
lemma scaled_yaw_outside:
  assumes "PI + 1 / 1000 \<le> \<bar>yaw\<bar>" and "\<bar>yaw\<bar> \<le> 9"
  shows "if 0 \<le> yaw then 65536 \<le> scaled_angle (2 * PI) (yaw + PI) else scaled_angle (2 * PI) (yaw + PI) \<le> - 1"
proof -
  define a where "a = f32 (yaw + PI)"
  define b where "b = f32 (a / (2 * PI))"
  define s where "s = f32 (b * 65535)"
  note P = PI_bounds
  have a: "\<bar>a - (yaw + PI)\<bar> \<le> 1 / 4096" unfolding a_def by (rule f32_error_13) (use assms P in linarith)
  define q where "q = a / (2 * PI)"
  have qa: "a = q * (2 * PI)" using P by (simp add: q_def)
  have "\<bar>a\<bar> < 2 * (2 * PI)" using a assms P by linarith
  then have "\<bar>q\<bar> * (2 * PI) < 2 * (2 * PI)" using P unfolding qa by (simp add: abs_mult)
  then have q: "\<bar>q\<bar> < 2" using P by (simp add: mult_less_cancel_right)
  then have b: "\<bar>b - q\<bar> \<le> 1 / 16777216" unfolding b_def q_def by (rule f32_error_1)
  have "\<bar>b * 65535\<bar> < 131072" using b q by linarith
  then have s: "\<bar>s - b * 65535\<bar> \<le> 1 / 256" unfolding s_def by (rule f32_error_17)
  have "if 0 \<le> yaw then 65536 \<le> s else s \<le> - 1"
  proof (cases "0 \<le> yaw")
    case True
    then have "2 * PI + 3 / 4000 \<le> q * (2 * PI)" using a assms(1) unfolding qa by linarith
    moreover have "(1 + 1 / 10000) * (2 * PI) \<le> 2 * PI + 3 / 4000" using P by simp
    ultimately have "(1 + 1 / 10000) * (2 * PI) \<le> q * (2 * PI)" by (rule order_trans [rotated])
    then have "1 + 1 / 10000 \<le> q" using P by (simp add: mult_le_cancel_right)
    then have "65536 \<le> s" using b s by linarith
    then show ?thesis using True by simp
  next
    case False
    then have "q * (2 * PI) \<le> - (3 / 4000)" using a assms(1) unfolding qa by linarith
    moreover have "- (3 / 4000) \<le> - (1 / 10000) * (2 * PI)" using P by simp
    ultimately have "q * (2 * PI) \<le> - (1 / 10000) * (2 * PI)" by (rule order_trans)
    then have "q \<le> - (1 / 10000)" using P by (simp only: mult_le_cancel_right)
    then have "s \<le> - 1" using b s by linarith
    then show ?thesis using False by simp
  qed
  then show ?thesis unfolding scaled_angle_def s_def b_def a_def .
qed

lemma scaled_angle_mono: "0 < r \<Longrightarrow> x \<le> y \<Longrightarrow> scaled_angle r x \<le> scaled_angle r y"
  unfolding scaled_angle_def by (intro f32_mono mult_right_mono divide_right_mono) simp_all

lemma yaw_outside_undefined:
  assumes "PI + 1 / 1000 \<le> \<bar>yaw\<bar>"
  shows "PackRotation yaw pitch = Inl BadCast"
proof -
  let ?s = "scaled_angle (2 * PI) (yaw + PI)"
  note P = PI_bounds
  have "fp_trunc ?s < 0 \<or> 65535 < fp_trunc ?s"
  proof (cases "0 \<le> yaw")
    case True
    have "65536 \<le> scaled_angle (2 * PI) (PI + 1 / 1000 + PI)" using scaled_yaw_outside [of "PI + 1 / 1000"] P by simp
    also have "\<dots> \<le> ?s" by (rule scaled_angle_mono) (use assms True P in simp_all)
    finally show ?thesis by (simp add: fp_trunc_def le_floor_iff)
  next
    case False
    have "?s \<le> scaled_angle (2 * PI) (- (PI + 1 / 1000) + PI)" by (rule scaled_angle_mono) (use assms False P in simp_all)
    also have "\<dots> \<le> - 1" using scaled_yaw_outside [of "- (PI + 1 / 1000)"] P by simp
    finally have "?s \<le> - 1" .
    moreover from this have "\<lceil>?s\<rceil> \<le> - 1" by (simp add: ceiling_le_iff)
    ultimately show ?thesis by (simp add: fp_trunc_def)
  qed
  then have "cast_u16 ?s = Inl BadCast" by (auto simp: cast_u16_def Let_def)
  then show ?thesis by (simp add: PackRotation_scaled)
qed

end
