(* ===== verification/Time_Manager.thy ===== *)
theory Time_Manager
  imports Game_Values
begin

text \<open>
  \<open>TimeManager\<close>: frame times, frames per second, and the client's estimate of the server clock. The performance
  counter is an input of each call, a 64-bit count; seconds are doubles, rounded after every operation.
  \<open>std::lerp\<close> is a parameter: the standard fixes its end points and its monotonicity but not its rounding.
\<close>

section \<open>State\<close>

record time_manager =
  frequency :: uint64
  prevCount :: uint64
  deltaTime :: fp
  adjustDeltaTime :: fp
  timeScale :: fp
  frameCount :: uint32
  frameTime :: fp
  fps :: uint32
  sumTime :: fp
  lastTimeSyncSent :: fp
  baseServerTime :: fp
  baseLocalTime :: fp
  latestRtt :: fp
  avgRtt :: fp
  jitter :: fp
  session_set :: bool      \<comment> \<open>\<open>_session\<close> is not null\<close>

definition TimeManager :: time_manager where
  "TimeManager = \<lparr>frequency = 0, prevCount = 0, deltaTime = 0, adjustDeltaTime = 0, timeScale = 1, frameCount = 0,
     frameTime = 0, fps = 0, sumTime = f64 (SYNC_TIME_INTERVAL - 1), lastTimeSyncSent = 0, baseServerTime = 0,
     baseLocalTime = 0, latestRtt = 0, avgRtt = 0, jitter = 0, session_set = False\<rparr>"

text \<open>\<open>freq\<close> and \<open>count\<close> are what the performance counter functions return.\<close>

definition TimeManager_Init :: "uint64 \<Rightarrow> uint64 \<Rightarrow> time_manager \<Rightarrow> time_manager" where
  "TimeManager_Init freq count s = s\<lparr>frequency := freq, prevCount := count\<rparr>"

definition TimeManager_Shutdown :: "time_manager \<Rightarrow> time_manager" where
  "TimeManager_Shutdown s = s\<lparr>session_set := False\<rparr>"

definition SetTimeScale :: "fp \<Rightarrow> time_manager \<Rightarrow> time_manager" where
  "SetTimeScale x s = s\<lparr>timeScale := x\<rparr>"

definition SetSession :: "bool \<Rightarrow> time_manager \<Rightarrow> time_manager" where
  "SetSession b s = s\<lparr>session_set := b\<rparr>"

section \<open>Reading the clocks\<close>

definition double_of_u64 :: "uint64 \<Rightarrow> fp" where
  "double_of_u64 w = f64 (of_int (uint w))"

definition GetRawLocalTime :: "uint64 \<Rightarrow> time_manager \<Rightarrow> fp" where
  "GetRawLocalTime count s = f64 (double_of_u64 count / double_of_u64 (frequency s))"

definition GetClientTime :: "uint64 \<Rightarrow> time_manager \<Rightarrow> fp" where
  "GetClientTime count s = f64 (baseServerTime s + f64 (GetRawLocalTime count s - baseLocalTime s))"

section \<open>Update\<close>

definition advance_frame :: "uint64 \<Rightarrow> time_manager \<Rightarrow> time_manager" where
  "advance_frame count s =
     (let dt = f64 (double_of_u64 (count - prevCount s) / double_of_u64 (frequency s));
          adt = f64 (dt * timeScale s)
      in s\<lparr>deltaTime := dt, adjustDeltaTime := adt, prevCount := count, frameCount := frameCount s + 1,
           frameTime := f64 (frameTime s + adt), sumTime := f64 (sumTime s + dt)\<rparr>)"

text \<open>The time synchronisation request; the flag tells whether \<open>C_SYNC_TIME\<close> was sent.\<close>

definition sync_request :: "uint64 \<Rightarrow> time_manager \<Rightarrow> bool \<times> time_manager" where
  "sync_request count s =
     (if SYNC_TIME_INTERVAL \<le> sumTime s
      then (session_set s,
            (if session_set s then s\<lparr>lastTimeSyncSent := GetRawLocalTime count s\<rparr> else s)\<lparr>sumTime := 0\<rparr>)
      else (False, s))"

definition cast_u32 :: "fp \<Rightarrow> uint32 res" where
  "cast_u32 x = (let i = fp_trunc x in if 0 \<le> i \<and> i < 2 ^ 32 then Inr (word_of_int i) else Inl BadCast)"

definition count_fps :: "time_manager \<Rightarrow> time_manager res" where
  "count_fps s =
     (if 1 \<le> frameTime s
      then and_then (cast_u32 (f64 (of_int (uint (frameCount s)) / frameTime s)))
             (\<lambda>n. Inr (s\<lparr>fps := n, frameTime := 0, frameCount := 0\<rparr>))
      else Inr s)"

definition TimeManager_Update :: "uint64 \<Rightarrow> uint64 \<Rightarrow> time_manager \<Rightarrow> (bool \<times> time_manager) res" where
  "TimeManager_Update count count2 s =
     (let (sent, s1) = sync_request count2 (advance_frame count s)
      in and_then (count_fps s1) (\<lambda>s2. Inr (sent, s2)))"

section \<open>OnServerTimeReceived\<close>

definition OnServerTimeReceived :: "(fp \<Rightarrow> fp \<Rightarrow> fp \<Rightarrow> fp) \<Rightarrow> uint64 \<Rightarrow> fp \<Rightarrow> time_manager \<Rightarrow> time_manager" where
  "OnServerTimeReceived lerp count serverTime s =
     (let now = GetRawLocalTime count s;
          rtt = f64 (now - lastTimeSyncSent s);
          avg = lerp (avgRtt s) rtt (f64 (1 / 10))
      in s\<lparr>latestRtt := rtt, avgRtt := avg, jitter := \<bar>f64 (rtt - avg)\<bar>,
           baseServerTime := f64 (f64 (serverTime - f64 (rtt * (1 / 2))) - LOGIC_TICK_INTERVAL),
           baseLocalTime := now\<rparr>)"

section \<open>Lemmas\<close>

lemma double_of_u64_nonneg: "0 \<le> double_of_u64 w"
  unfolding double_of_u64_def by (rule f64_nonneg) (simp del: of_int_uint)

lemma double_of_u64_mono: "v \<le> w \<Longrightarrow> double_of_u64 v \<le> double_of_u64 w"
  unfolding double_of_u64_def by (rule f64_mono) (simp add: word_le_def del: of_int_uint)

lemma GetRawLocalTime_mono: "c \<le> c' \<Longrightarrow> GetRawLocalTime c s \<le> GetRawLocalTime c' s"
  unfolding GetRawLocalTime_def
  by (intro f64_mono divide_right_mono double_of_u64_mono double_of_u64_nonneg)

definition tm_inv :: "time_manager \<Rightarrow> bool" where
  "tm_inv s \<longleftrightarrow> 0 \<le> sumTime s \<and> sumTime s < SYNC_TIME_INTERVAL \<and> frameTime s < 1"

lemma LOGIC_TICK_INTERVAL_error: "\<bar>LOGIC_TICK_INTERVAL - 1 / 30\<bar> \<le> 1 / 1073741824"
  unfolding LOGIC_TICK_INTERVAL_def LOGIC_TICK_RATE_def by (rule f64_error_24) simp

lemma cast_u32_fps:
  assumes "1 \<le> x"
  shows "\<exists>n. cast_u32 (f64 (of_int (uint (c :: uint32)) / x)) = Inr n"
proof -
  define u where "u = (of_int (uint c) :: rat)"
  have lt: "uint c < 2 ^ 32" using uint_lt2p [of c] by simp
  have u: "0 \<le> u" by (simp add: u_def del: of_int_uint)
  have le: "0 \<le> u / x" "u / x \<le> u" using u assms by (simp_all add: divide_le_eq mult_le_cancel_left1)
  have "f64 u = u" unfolding u_def by (rule f64_of_int) (use lt in simp)
  then have q: "0 \<le> f64 (u / x)" "f64 (u / x) \<le> u" using le f64_mono f64_nonneg by metis+
  then have "fp_trunc (f64 (u / x)) \<le> uint c"
    unfolding u_def fp_trunc_def by (simp add: floor_le_iff del: of_int_uint)
  moreover have "0 \<le> fp_trunc (f64 (u / x))" using q(1) by (simp add: fp_trunc_def)
  ultimately show ?thesis using lt by (simp add: cast_u32_def u_def Let_def)
qed

lemma TimeManager_Update_result:
  assumes "tm_inv s"
  shows "\<exists>sent s'. TimeManager_Update count count2 s = Inr (sent, s') \<and> tm_inv s' \<and>
    (sent \<longleftrightarrow> session_set s \<and> SYNC_TIME_INTERVAL \<le> f64 (sumTime s + deltaTime s')) \<and>
    lastTimeSyncSent s' = (if sent then GetRawLocalTime count2 s else lastTimeSyncSent s)"
proof -
  define s1 where "s1 = advance_frame count s"
  define dt where "dt = f64 (double_of_u64 (count - prevCount s) / double_of_u64 (frequency s))"
  have dt: "0 \<le> dt" unfolding dt_def by (intro f64_nonneg divide_nonneg_nonneg double_of_u64_nonneg)
  have s1: "sumTime s1 = f64 (sumTime s + dt)" "deltaTime s1 = dt" "session_set s1 = session_set s"
    "frequency s1 = frequency s" "lastTimeSyncSent s1 = lastTimeSyncSent s"
    by (simp_all add: s1_def advance_frame_def dt_def Let_def)
  have sum: "0 \<le> sumTime s1" unfolding s1(1) using assms dt by (intro f64_nonneg) (simp add: tm_inv_def)
  define sent where "sent = fst (sync_request count2 s1)"
  define s2 where "s2 = snd (sync_request count2 s1)"
  have r: "sync_request count2 s1 = (sent, s2)" by (simp add: sent_def s2_def)
  have s2: "deltaTime s2 = dt" "0 \<le> sumTime s2" "sumTime s2 < SYNC_TIME_INTERVAL"
    "sent \<longleftrightarrow> session_set s \<and> SYNC_TIME_INTERVAL \<le> sumTime s1"
    "lastTimeSyncSent s2 = (if sent then GetRawLocalTime count2 s else lastTimeSyncSent s)"
    using sum by (simp_all add: sent_def s2_def sync_request_def s1 SYNC_TIME_INTERVAL_def GetRawLocalTime_def)
  obtain s3 where s3: "count_fps s2 = Inr s3" "frameTime s3 < 1" "sumTime s3 = sumTime s2"
    "deltaTime s3 = deltaTime s2" "lastTimeSyncSent s3 = lastTimeSyncSent s2"
  proof (cases "1 \<le> frameTime s2")
    case True
    from cast_u32_fps [OF True] obtain n where "cast_u32 (f64 (of_int (uint (frameCount s2)) / frameTime s2)) = Inr n"
      by blast
    then show ?thesis using True by (intro that [of "s2\<lparr>fps := n, frameTime := 0, frameCount := 0\<rparr>"])
      (simp_all add: count_fps_def)
  next
    case False
    then show ?thesis by (intro that [of s2]) (simp_all add: count_fps_def)
  qed
  have "TimeManager_Update count count2 s = Inr (sent, s3)"
    by (simp add: TimeManager_Update_def r s3(1) s1_def [symmetric])
  moreover have "tm_inv s3" using s2 s3 by (simp add: tm_inv_def)
  moreover have "sent \<longleftrightarrow> session_set s \<and> SYNC_TIME_INTERVAL \<le> f64 (sumTime s + deltaTime s3)"
    using s2 s3 by (simp add: s1)
  moreover have "lastTimeSyncSent s3 = (if sent then GetRawLocalTime count2 s else lastTimeSyncSent s)"
    using s2(5) s3(5) by (rule trans [rotated])
  ultimately show ?thesis by (intro exI conjI)
qed

text \<open>
  The frame update is total and keeps its accumulators in range. From a state whose accumulators are
  below their thresholds, \<open>Update\<close> returns (the conversion of the frame rate is always defined), the
  accumulators are below their thresholds again, and a synchronisation request is sent exactly when the
  accumulated time reaches the interval and a session is set; then the send time is recorded.
\<close>
theorem Update_keeps_pace:
  assumes "tm_inv s"
  shows "\<exists>sent s'. TimeManager_Update count count2 s = Inr (sent, s') \<and> tm_inv s' \<and>
    (sent \<longleftrightarrow> session_set s \<and> SYNC_TIME_INTERVAL \<le> f64 (sumTime s + deltaTime s')) \<and>
    lastTimeSyncSent s' = (if sent then GetRawLocalTime count2 s else lastTimeSyncSent s)"
  by (rule TimeManager_Update_result [OF assms])

lemma TimeManager_inv: "tm_inv (SetSession b (TimeManager_Init freq count TimeManager))"
proof -
  have "f64 (of_int 4) = (4 :: rat)" using f64_of_int [of 4] by simp
  then show ?thesis
    by (simp add: tm_inv_def SetSession_def TimeManager_Init_def TimeManager_def SYNC_TIME_INTERVAL_def)
qed

lemma Update_keeps_pace_witness:
  "\<exists>sent s'. TimeManager_Update 20000000 20000000 (SetSession True (TimeManager_Init 10000000 10000000 TimeManager)) =
     Inr (sent, s') \<and> tm_inv s'"
  using Update_keeps_pace [OF TimeManager_inv, of 20000000 20000000 True 10000000 10000000] by blast

text \<open>
  Between two synchronisations the client clock never runs backwards: for counter values in order the
  clock values are in order, roundings included.
\<close>
theorem client_clock_monotone:
  assumes "count \<le> count'"
  shows "GetClientTime count s \<le> GetClientTime count' s"
  unfolding GetClientTime_def
  using GetRawLocalTime_mono [OF assms, of s] by (intro f64_mono add_left_mono diff_right_mono)

lemma client_clock_monotone_witness:
  "GetClientTime 5 (TimeManager_Init 10 0 TimeManager) \<le> GetClientTime 7 (TimeManager_Init 10 0 TimeManager)"
  by (rule client_clock_monotone) simp

text \<open>
  C40: What the client clock shows after a synchronisation: the server's time stamp, less half the round trip
  and one logic tick, plus the local time since the reply, up to ten nanoseconds, for times below
  \<open>2 ^ 20\<close> seconds.
\<close>
theorem client_clock_after_sync:
  assumes "\<bar>serverTime\<bar> < 2 ^ 20" and "\<bar>lastTimeSyncSent s\<bar> < 2 ^ 20"
    and "\<bar>GetRawLocalTime count s\<bar> < 2 ^ 20" and "\<bar>GetRawLocalTime count' s\<bar> < 2 ^ 20"
  shows "\<bar>GetClientTime count' (OnServerTimeReceived lerp count serverTime s) -
    (serverTime - (GetRawLocalTime count s - lastTimeSyncSent s) / 2 - 1 / 30 +
     (GetRawLocalTime count' s - GetRawLocalTime count s))\<bar> \<le> 1 / 100000000"
proof -
  define n where "n = GetRawLocalTime count s"
  define n' where "n' = GetRawLocalTime count' s"
  define l where "l = lastTimeSyncSent s"
  define r where "r = f64 (n - l)"
  define h where "h = f64 (r * (1 / 2))"
  define a where "a = f64 (serverTime - h)"
  define b where "b = f64 (a - LOGIC_TICK_INTERVAL)"
  define d where "d = f64 (n' - n)"
  note small = assms [folded n_def n'_def l_def, simplified]
  note tick = LOGIC_TICK_INTERVAL_error
  have r: "\<bar>r - (n - l)\<bar> \<le> 1 / 1073741824" unfolding r_def by (rule f64_error_24) (use small in linarith)
  have h: "\<bar>h - r * (1 / 2)\<bar> \<le> 1 / 1073741824" unfolding h_def by (rule f64_error_24) (use small r in linarith)
  have a: "\<bar>a - (serverTime - h)\<bar> \<le> 1 / 1073741824" unfolding a_def by (rule f64_error_24) (use small r h in linarith)
  have a': "\<bar>a\<bar> \<le> 4000000" using small r h a by linarith
  have b: "\<bar>b - (a - LOGIC_TICK_INTERVAL)\<bar> \<le> 1 / 1073741824"
    unfolding b_def by (rule f64_error_24) (use a' tick in linarith)
  have b': "\<bar>b\<bar> \<le> 5000000" using a' b tick by linarith
  have d: "\<bar>d - (n' - n)\<bar> \<le> 1 / 1073741824" unfolding d_def by (rule f64_error_24) (use small in linarith)
  have c: "\<bar>f64 (b + d) - (b + d)\<bar> \<le> 1 / 1073741824" by (rule f64_error_24) (use b' d small in linarith)
  have "GetClientTime count' (OnServerTimeReceived lerp count serverTime s) = f64 (b + d)"
    by (simp add: GetClientTime_def OnServerTimeReceived_def GetRawLocalTime_def n_def n'_def l_def r_def h_def a_def
        b_def d_def Let_def)
  then have e: "GetClientTime count' (OnServerTimeReceived lerp count serverTime s) -
    (serverTime - (n - l) / 2 - 1 / 30 + (n' - n)) = f64 (b + d) - (serverTime - (n - l) / 2 - 1 / 30 + (n' - n))" by simp
  note u = abs_le_D1 [OF r] abs_le_D1 [OF h] abs_le_D1 [OF a] abs_le_D1 [OF b] abs_le_D1 [OF d] abs_le_D1 [OF c]
    abs_le_D1 [OF tick] abs_le_D2 [OF r] abs_le_D2 [OF h] abs_le_D2 [OF a] abs_le_D2 [OF b] abs_le_D2 [OF d]
    abs_le_D2 [OF c] abs_le_D2 [OF tick]
  show ?thesis unfolding n_def [symmetric] n'_def [symmetric] l_def [symmetric] e
  proof (rule abs_leI)
    show "f64 (b + d) - (serverTime - (n - l) / 2 - 1 / 30 + (n' - n)) \<le> 1 / 100000000" using u unfolding diff_divide_distrib by linarith
    show "- (f64 (b + d) - (serverTime - (n - l) / 2 - 1 / 30 + (n' - n))) \<le> 1 / 100000000" using u unfolding diff_divide_distrib by linarith
  qed
qed

lemma client_clock_after_sync_witness:
  "\<bar>GetClientTime 50 (OnServerTimeReceived (\<lambda>a b t. b) 30 100 (TimeManager_Init 10 0 TimeManager)) - (100 - 3 / 2 - 1 / 30 + 2)\<bar>
     \<le> 1 / 100000000"
proof -
  have i: "double_of_u64 n = of_int (uint n)" if "uint n < 2 ^ 53" for n
    unfolding double_of_u64_def by (rule f64_of_int) (use that in simp)
  have v: "f64 3 = 3" "f64 5 = 5" using f64_of_int [of 3] f64_of_int [of 5] by simp_all
  have g: "GetRawLocalTime 30 (TimeManager_Init 10 0 TimeManager) = 3" "GetRawLocalTime 50 (TimeManager_Init 10 0 TimeManager) = 5"
    by (simp_all add: GetRawLocalTime_def TimeManager_Init_def i v)
  have l: "lastTimeSyncSent (TimeManager_Init 10 0 TimeManager) = 0"
    by (simp add: TimeManager_Init_def TimeManager_def)
  show ?thesis
    using client_clock_after_sync [of 100 "TimeManager_Init 10 0 TimeManager" 30 50 "\<lambda>a b t. b"] by (simp add: g l)
qed

end
