(* ===== verification/Vectors.thy ===== *)
theory Vectors
  imports Game_Values
begin

text \<open>
  The vector types of \<open>Types.h\<close>. Every operation rounds as the expression in the source does, from left to
  right. The square root is the correctly rounded one of IEEE 754, which the compiler's library provides.
\<close>

section \<open>Square roots\<close>

fun isqrt :: "nat \<Rightarrow> nat" where
  "isqrt n = (if n = 0 then 0 else let r = 2 * isqrt (n div 4) in if (r + 1) * (r + 1) \<le> n then r + 1 else r)"

declare isqrt.simps [simp del]

lemma isqrt_bounds: "isqrt n * isqrt n \<le> n \<and> n < Suc (isqrt n) * Suc (isqrt n)"
proof (induction n rule: isqrt.induct)
  case (1 n)
  show ?case
  proof (cases "n = 0")
    case True
    then show ?thesis by (simp add: isqrt.simps)
  next
    case False
    define m where "m = isqrt (n div 4)"
    have IH: "m * m \<le> n div 4" "n div 4 < Suc m * Suc m" using 1 [OF False] by (simp_all add: m_def)
    have n: "4 * (n div 4) \<le> n" "n < 4 * (n div 4) + 4" by simp_all
    have lo: "(2 * m) * (2 * m) \<le> n" using IH(1) n(1) by simp
    have "n div 4 + 1 \<le> Suc m * Suc m" using IH(2) by simp
    then have hi: "n < (2 * m + 2) * (2 * m + 2)" using n(2) by simp
    have s: "isqrt n = (if (2 * m + 1) * (2 * m + 1) \<le> n then 2 * m + 1 else 2 * m)"
      using False by (subst isqrt.simps) (simp add: m_def Let_def)
    show ?thesis using lo hi unfolding s by auto
  qed
qed

text \<open>
  The root to six guard bits, and half a unit more when it is not exact, rounds to the same number as the
  exact root: no rounding boundary lies strictly between two consecutive values of that precision.
\<close>

definition fp_sqrt :: "nat \<Rightarrow> int \<Rightarrow> fp \<Rightarrow> fp" where
  "fp_sqrt p emin x =
     (if x \<le> 0 then 0
      else let k = int p + 6 - ilog2 x div 2;
               y = x * (power_int 2 k)\<^sup>2;
               s = isqrt (nat \<lfloor>y\<rfloor>);
               sticky = (if of_nat (s * s) = y then 0 else 1 / 2)
           in fp_round p emin ((of_nat s + sticky) / power_int 2 k))"

definition sqrtf :: "fp \<Rightarrow> fp" where "sqrtf = fp_sqrt 24 (-149)"
definition sqrtd :: "fp \<Rightarrow> fp" where "sqrtd = fp_sqrt 53 (-1074)"

lemma fp_sqrt_nonneg: "0 \<le> fp_sqrt p emin x"
  unfolding fp_sqrt_def Let_def by (auto intro!: fp_round_nonneg)

text \<open>The number that is rounded lies in the same interval of length \<open>d\<close> as the root.\<close>

lemma fp_sqrt_enclosure:
  assumes "0 < x"
  shows "\<exists>(s :: nat) st d. fp_sqrt p emin x = fp_round p emin ((of_nat s + st) * d) \<and> 0 < d \<and> 0 \<le> st \<and> st < 1 \<and>
    (of_nat s * d)\<^sup>2 \<le> x \<and> x < (of_nat (Suc s) * d)\<^sup>2 \<and> (st = 0 \<longleftrightarrow> (of_nat s * d)\<^sup>2 = x)"
proof -
  define q where "q = (power_int 2 (int p + 6 - ilog2 x div 2) :: rat)"
  define y where "y = x * q\<^sup>2"
  define s where "s = isqrt (nat \<lfloor>y\<rfloor>)"
  define st where "st = (if of_nat (s * s) = y then 0 else 1 / 2 :: rat)"
  have q: "0 < q" by (simp add: q_def)
  have y: "0 \<le> y" using assms by (simp add: y_def)
  have b: "s * s \<le> nat \<lfloor>y\<rfloor>" "nat \<lfloor>y\<rfloor> < Suc s * Suc s" using isqrt_bounds [of "nat \<lfloor>y\<rfloor>"] by (simp_all only: s_def)
  have lo: "of_nat (s * s) \<le> y" using b(1) y by (metis (no_types, lifting) of_nat_floor of_nat_mono order_trans)
  have hi: "y < of_nat (Suc s * Suc s)" using b(2) y by linarith
  have sq: "(of_nat n * (1 / q))\<^sup>2 = of_nat (n * n) / q\<^sup>2" for n :: nat by (simp add: power2_eq_square)
  have le: "(of_nat s * (1 / q))\<^sup>2 \<le> x" "x < (of_nat (Suc s) * (1 / q))\<^sup>2" "(of_nat s * (1 / q))\<^sup>2 = x \<longleftrightarrow> st = 0"
    using lo hi q unfolding sq y_def st_def
    by (simp_all add: pos_divide_le_eq pos_less_divide_eq divide_eq_eq del: of_nat_mult of_nat_Suc)
  have "fp_sqrt p emin x = fp_round p emin ((of_nat s + st) * (1 / q))"
    using assms by (simp add: fp_sqrt_def q_def y_def s_def st_def Let_def)
  then show ?thesis using le q by (intro exI [of _ s] exI [of _ st] exI [of _ "1 / q"]) (auto simp: st_def)
qed

section \<open>Vec2\<close>

record vec2 = v2x :: fp
  v2y :: fp

definition Vec2 :: "fp \<Rightarrow> fp \<Rightarrow> vec2" where "Vec2 a b = \<lparr>v2x = a, v2y = b\<rparr>"

definition vec2_plus :: "vec2 \<Rightarrow> vec2 \<Rightarrow> vec2" where
  "vec2_plus a b = Vec2 (f32 (v2x a + v2x b)) (f32 (v2y a + v2y b))"

definition vec2_minus :: "vec2 \<Rightarrow> vec2 \<Rightarrow> vec2" where
  "vec2_minus a b = Vec2 (f32 (v2x a - v2x b)) (f32 (v2y a - v2y b))"

definition vec2_times :: "vec2 \<Rightarrow> fp \<Rightarrow> vec2" where
  "vec2_times a k = Vec2 (f32 (v2x a * k)) (f32 (v2y a * k))"

definition vec2_eq :: "vec2 \<Rightarrow> vec2 \<Rightarrow> bool" where
  "vec2_eq a b \<longleftrightarrow> v2x a = v2x b \<and> v2y a = v2y b"

definition vec2_LengthSquared :: "vec2 \<Rightarrow> fp" where
  "vec2_LengthSquared a = f32 (f32 (v2x a * v2x a) + f32 (v2y a * v2y a))"

definition vec2_Length :: "vec2 \<Rightarrow> fp" where "vec2_Length a = sqrtf (vec2_LengthSquared a)"

definition vec2_Normalize :: "vec2 \<Rightarrow> vec2" where
  "vec2_Normalize a =
     (let len = vec2_Length a
      in if len < f32 (1 / 10 ^ 11) then a else Vec2 (f32 (v2x a / len)) (f32 (v2y a / len)))"

definition vec2_Dot :: "vec2 \<Rightarrow> vec2 \<Rightarrow> fp" where
  "vec2_Dot a b = f32 (f32 (v2x a * v2x b) + f32 (v2y a * v2y b))"

definition vec2_Cross :: "vec2 \<Rightarrow> vec2 \<Rightarrow> fp" where
  "vec2_Cross a b = f32 (f32 (v2x a * v2y b) - f32 (v2y a * v2x b))"

section \<open>Vec2Int\<close>

text \<open>Signed overflow is undefined, so an integer operation is defined while its result is an \<open>int32\<close>.\<close>

record vec2int = vix :: int32
  viy :: int32

definition chk :: "int \<Rightarrow> int res" where
  "chk i = (if int32_range i then Inr i else Inl SignedOverflow)"

definition Vec2Int :: "int \<Rightarrow> int \<Rightarrow> vec2int res" where
  "Vec2Int a b = and_then (chk a) (\<lambda>x. and_then (chk b) (\<lambda>y. Inr \<lparr>vix = x, viy = y\<rparr>))"

definition vec2int_plus :: "vec2int \<Rightarrow> vec2int \<Rightarrow> vec2int res" where
  "vec2int_plus a b = Vec2Int (vix a + vix b) (viy a + viy b)"

definition vec2int_minus :: "vec2int \<Rightarrow> vec2int \<Rightarrow> vec2int res" where
  "vec2int_minus a b = Vec2Int (vix a - vix b) (viy a - viy b)"

definition vec2int_times :: "vec2int \<Rightarrow> int \<Rightarrow> vec2int res" where
  "vec2int_times a k = Vec2Int (vix a * k) (viy a * k)"

text \<open>The comparison is with a \<open>Vec2\<close>: the integers are converted to \<open>float\<close>.\<close>

definition vec2int_eq :: "vec2int \<Rightarrow> vec2 \<Rightarrow> bool" where
  "vec2int_eq a b \<longleftrightarrow> f32 (of_int (vix a)) = v2x b \<and> f32 (of_int (viy a)) = v2y b"

definition vec2int_Dot :: "vec2int \<Rightarrow> vec2int \<Rightarrow> int res" where
  "vec2int_Dot a b =
     and_then (chk (vix a * vix b)) (\<lambda>m. and_then (chk (viy a * viy b)) (\<lambda>n. chk (m + n)))"

definition vec2int_LengthSquared :: "vec2int \<Rightarrow> int res" where
  "vec2int_LengthSquared a =
     and_then (chk (vix a * vix a)) (\<lambda>m. and_then (chk (viy a * viy a)) (\<lambda>n. chk (m + n)))"

definition vec2int_Length :: "vec2int \<Rightarrow> fp res" where
  "vec2int_Length a = and_then (vec2int_LengthSquared a) (\<lambda>n. Inr (f32 (sqrtd (of_int n))))"

definition vec2int_Cross :: "vec2int \<Rightarrow> vec2int \<Rightarrow> int res" where
  "vec2int_Cross a b =
     and_then (chk (vix a * viy b)) (\<lambda>m. and_then (chk (viy a * vix b)) (\<lambda>n. chk (m - n)))"

section \<open>Vec3\<close>

record vec3 = v3x :: fp
  v3y :: fp
  v3z :: fp

definition Vec3 :: "fp \<Rightarrow> fp \<Rightarrow> fp \<Rightarrow> vec3" where "Vec3 a b c = \<lparr>v3x = a, v3y = b, v3z = c\<rparr>"

definition vec3_plus :: "vec3 \<Rightarrow> vec3 \<Rightarrow> vec3" where
  "vec3_plus a b = Vec3 (f32 (v3x a + v3x b)) (f32 (v3y a + v3y b)) (f32 (v3z a + v3z b))"

definition vec3_minus :: "vec3 \<Rightarrow> vec3 \<Rightarrow> vec3" where
  "vec3_minus a b = Vec3 (f32 (v3x a - v3x b)) (f32 (v3y a - v3y b)) (f32 (v3z a - v3z b))"

definition vec3_times :: "vec3 \<Rightarrow> fp \<Rightarrow> vec3" where
  "vec3_times a k = Vec3 (f32 (v3x a * k)) (f32 (v3y a * k)) (f32 (v3z a * k))"

definition vec3_eq :: "vec3 \<Rightarrow> vec3 \<Rightarrow> bool" where
  "vec3_eq a b \<longleftrightarrow> v3x a = v3x b \<and> v3y a = v3y b \<and> v3z a = v3z b"

definition vec3_LengthSquared :: "vec3 \<Rightarrow> fp" where
  "vec3_LengthSquared a = f32 (f32 (f32 (v3x a * v3x a) + f32 (v3y a * v3y a)) + f32 (v3z a * v3z a))"

definition vec3_Length :: "vec3 \<Rightarrow> fp" where "vec3_Length a = sqrtf (vec3_LengthSquared a)"

definition vec3_Normalize :: "vec3 \<Rightarrow> vec3" where
  "vec3_Normalize a =
     (let len = vec3_Length a
      in if len < f32 (1 / 10 ^ 8) then a
         else Vec3 (f32 (v3x a / len)) (f32 (v3y a / len)) (f32 (v3z a / len)))"

definition vec3_Dot :: "vec3 \<Rightarrow> vec3 \<Rightarrow> fp" where
  "vec3_Dot a b = f32 (f32 (f32 (v3x a * v3x b) + f32 (v3y a * v3y b)) + f32 (v3z a * v3z b))"

definition vec3_Cross :: "vec3 \<Rightarrow> vec3 \<Rightarrow> vec3" where
  "vec3_Cross a b =
     Vec3 (f32 (f32 (v3y a * v3z b) - f32 (v3z a * v3y b)))
          (f32 (f32 (v3z a * v3x b) - f32 (v3x a * v3z b)))
          (f32 (f32 (v3x a * v3y b) - f32 (v3y a * v3x b)))"

section \<open>Vec4\<close>

record vec4 = v4x :: fp
  v4y :: fp
  v4z :: fp
  v4w :: fp

definition Vec4 :: "fp \<Rightarrow> fp \<Rightarrow> fp \<Rightarrow> fp \<Rightarrow> vec4" where "Vec4 a b c d = \<lparr>v4x = a, v4y = b, v4z = c, v4w = d\<rparr>"

definition vec4_plus :: "vec4 \<Rightarrow> vec4 \<Rightarrow> vec4" where
  "vec4_plus a b =
     Vec4 (f32 (v4x a + v4x b)) (f32 (v4y a + v4y b)) (f32 (v4z a + v4z b)) (f32 (v4w a + v4w b))"

definition vec4_minus :: "vec4 \<Rightarrow> vec4 \<Rightarrow> vec4" where
  "vec4_minus a b =
     Vec4 (f32 (v4x a - v4x b)) (f32 (v4y a - v4y b)) (f32 (v4z a - v4z b)) (f32 (v4w a - v4w b))"

definition vec4_times :: "vec4 \<Rightarrow> fp \<Rightarrow> vec4" where
  "vec4_times a k = Vec4 (f32 (v4x a * k)) (f32 (v4y a * k)) (f32 (v4z a * k)) (f32 (v4w a * k))"

text \<open>The last conjunct of the source stands after a semicolon: it is a statement without effect.\<close>

definition vec4_eq :: "vec4 \<Rightarrow> vec4 \<Rightarrow> bool" where
  "vec4_eq a b \<longleftrightarrow> v4x a = v4x b \<and> v4y a = v4y b \<and> v4z a = v4z b"

definition vec4_LengthSquared :: "vec4 \<Rightarrow> fp" where
  "vec4_LengthSquared a =
     f32 (f32 (f32 (f32 (v4x a * v4x a) + f32 (v4y a * v4y a)) + f32 (v4z a * v4z a)) + f32 (v4w a * v4w a))"

definition vec4_Length :: "vec4 \<Rightarrow> fp" where "vec4_Length a = sqrtf (vec4_LengthSquared a)"

definition vec4_Normalize :: "vec4 \<Rightarrow> vec4" where
  "vec4_Normalize a =
     (let len = vec4_Length a
      in if len < f32 (1 / 10 ^ 8) then a
         else Vec4 (f32 (v4x a / len)) (f32 (v4y a / len)) (f32 (v4z a / len)) (f32 (v4w a / len)))"

definition vec4_Dot :: "vec4 \<Rightarrow> vec4 \<Rightarrow> fp" where
  "vec4_Dot a b =
     f32 (f32 (f32 (f32 (v4x a * v4x b) + f32 (v4y a * v4y b)) + f32 (v4z a * v4z b)) + f32 (v4w a * v4w b))"

definition vec4_Cross :: "vec4 \<Rightarrow> vec4 \<Rightarrow> vec4" where
  "vec4_Cross a b =
     Vec4 (f32 (f32 (v4y a * v4z b) - f32 (v4z a * v4y b)))
          (f32 (f32 (v4z a * v4x b) - f32 (v4x a * v4z b)))
          (f32 (f32 (v4x a * v4y b) - f32 (v4y a * v4x b))) 0"

section \<open>Compound assignments\<close>

text \<open>They change the object one component after the other.\<close>

definition vec2_add_assign :: "vec2 \<Rightarrow> vec2 \<Rightarrow> vec2" where
  "vec2_add_assign a b = (let a1 = a\<lparr>v2x := f32 (v2x a + v2x b)\<rparr> in a1\<lparr>v2y := f32 (v2y a1 + v2y b)\<rparr>)"

definition vec2_sub_assign :: "vec2 \<Rightarrow> vec2 \<Rightarrow> vec2" where
  "vec2_sub_assign a b = (let a1 = a\<lparr>v2x := f32 (v2x a - v2x b)\<rparr> in a1\<lparr>v2y := f32 (v2y a1 - v2y b)\<rparr>)"

definition vec2_mul_assign :: "vec2 \<Rightarrow> fp \<Rightarrow> vec2" where
  "vec2_mul_assign a k = (let a1 = a\<lparr>v2x := f32 (v2x a * k)\<rparr> in a1\<lparr>v2y := f32 (v2y a1 * k)\<rparr>)"

definition vec2int_add_assign :: "vec2int \<Rightarrow> vec2int \<Rightarrow> vec2int res" where
  "vec2int_add_assign a b =
     and_then (chk (vix a + vix b)) (\<lambda>i. let a1 = a\<lparr>vix := i\<rparr> in
       and_then (chk (viy a1 + viy b)) (\<lambda>j. Inr (a1\<lparr>viy := j\<rparr>)))"

definition vec2int_sub_assign :: "vec2int \<Rightarrow> vec2int \<Rightarrow> vec2int res" where
  "vec2int_sub_assign a b =
     and_then (chk (vix a - vix b)) (\<lambda>i. let a1 = a\<lparr>vix := i\<rparr> in
       and_then (chk (viy a1 - viy b)) (\<lambda>j. Inr (a1\<lparr>viy := j\<rparr>)))"

definition vec3_add_assign :: "vec3 \<Rightarrow> vec3 \<Rightarrow> vec3" where
  "vec3_add_assign a b =
     (let a1 = a\<lparr>v3x := f32 (v3x a + v3x b)\<rparr>; a2 = a1\<lparr>v3y := f32 (v3y a1 + v3y b)\<rparr> in a2\<lparr>v3z := f32 (v3z a2 + v3z b)\<rparr>)"

definition vec3_sub_assign :: "vec3 \<Rightarrow> vec3 \<Rightarrow> vec3" where
  "vec3_sub_assign a b =
     (let a1 = a\<lparr>v3x := f32 (v3x a - v3x b)\<rparr>; a2 = a1\<lparr>v3y := f32 (v3y a1 - v3y b)\<rparr> in a2\<lparr>v3z := f32 (v3z a2 - v3z b)\<rparr>)"

definition vec3_mul_assign :: "vec3 \<Rightarrow> fp \<Rightarrow> vec3" where
  "vec3_mul_assign a k =
     (let a1 = a\<lparr>v3x := f32 (v3x a * k)\<rparr>; a2 = a1\<lparr>v3y := f32 (v3y a1 * k)\<rparr> in a2\<lparr>v3z := f32 (v3z a2 * k)\<rparr>)"

definition vec4_add_assign :: "vec4 \<Rightarrow> vec4 \<Rightarrow> vec4" where
  "vec4_add_assign a b =
     (let a1 = a\<lparr>v4x := f32 (v4x a + v4x b)\<rparr>; a2 = a1\<lparr>v4y := f32 (v4y a1 + v4y b)\<rparr>; a3 = a2\<lparr>v4z := f32 (v4z a2 + v4z b)\<rparr>
      in a3\<lparr>v4w := f32 (v4w a3 + v4w b)\<rparr>)"

definition vec4_sub_assign :: "vec4 \<Rightarrow> vec4 \<Rightarrow> vec4" where
  "vec4_sub_assign a b =
     (let a1 = a\<lparr>v4x := f32 (v4x a - v4x b)\<rparr>; a2 = a1\<lparr>v4y := f32 (v4y a1 - v4y b)\<rparr>; a3 = a2\<lparr>v4z := f32 (v4z a2 - v4z b)\<rparr>
      in a3\<lparr>v4w := f32 (v4w a3 - v4w b)\<rparr>)"

definition vec4_mul_assign :: "vec4 \<Rightarrow> fp \<Rightarrow> vec4" where
  "vec4_mul_assign a k =
     (let a1 = a\<lparr>v4x := f32 (v4x a * k)\<rparr>; a2 = a1\<lparr>v4y := f32 (v4y a1 * k)\<rparr>; a3 = a2\<lparr>v4z := f32 (v4z a2 * k)\<rparr>
      in a3\<lparr>v4w := f32 (v4w a3 * k)\<rparr>)"

section \<open>Laws\<close>

lemma compound_assignments_int:
  "vec2int_add_assign i j = vec2int_plus i j" "vec2int_sub_assign i j = vec2int_minus i j"
proof -
  have eq: "i\<lparr>vix := x, viy := y\<rparr> = \<lparr>vix = x, viy = y\<rparr>" for x y by simp
  show "vec2int_add_assign i j = vec2int_plus i j" "vec2int_sub_assign i j = vec2int_minus i j"
    by (simp_all add: vec2int_add_assign_def vec2int_sub_assign_def vec2int_plus_def vec2int_minus_def Vec2Int_def eq)
qed

text \<open>A compound assignment leaves in the object what the operator returns, or faults with it.\<close>

lemma compound_assignments:
  "vec2_add_assign a b = vec2_plus a b" "vec2_sub_assign a b = vec2_minus a b" "vec2_mul_assign a k = vec2_times a k"
  "vec3_add_assign c d = vec3_plus c d" "vec3_sub_assign c d = vec3_minus c d" "vec3_mul_assign c k = vec3_times c k"
  "vec4_add_assign e f = vec4_plus e f" "vec4_sub_assign e f = vec4_minus e f" "vec4_mul_assign e k = vec4_times e k"
  by (simp_all add: vec2_add_assign_def vec2_sub_assign_def vec2_mul_assign_def vec2_plus_def vec2_minus_def vec2_times_def Vec2_def
      vec3_add_assign_def vec3_sub_assign_def vec3_mul_assign_def vec3_plus_def vec3_minus_def vec3_times_def Vec3_def
      vec4_add_assign_def vec4_sub_assign_def vec4_mul_assign_def vec4_plus_def vec4_minus_def vec4_times_def Vec4_def Let_def)

lemma f32_minus: "f32 (- x) = - f32 x"
  unfolding f32_def by (rule fp_round_minus)

lemma f32_diff_swap: "f32 (x - y) = - f32 (y - x)"
  by (metis f32_minus minus_diff_eq)

lemma vec3_Dot_commute: "vec3_Dot a b = vec3_Dot b a"
  by (simp add: vec3_Dot_def mult.commute)

lemma vec3_Dot_self: "vec3_Dot a a = vec3_LengthSquared a"
  by (simp add: vec3_Dot_def vec3_LengthSquared_def)

lemma f32_cross: "f32 (f32 (p * q) - f32 (r * s)) = - f32 (f32 (s * r) - f32 (q * p))"
  by (subst f32_diff_swap) (simp only: mult.commute)

text \<open>Roundings included, swapping the factors of a cross product negates it.\<close>

lemma vec3_Cross_anticommute:
  "vec3_Cross a b = Vec3 (- v3x (vec3_Cross b a)) (- v3y (vec3_Cross b a)) (- v3z (vec3_Cross b a))"
  unfolding vec3_Cross_def Vec3_def vec3.select_convs
  by (intro arg_cong3 [where f = "\<lambda>p q r. \<lparr>v3x = p, v3y = q, v3z = r\<rparr>"] f32_cross)

lemma vec2_Cross_anticommute: "vec2_Cross a b = - vec2_Cross b a"
  by (simp add: vec2_Cross_def) (metis f32_diff_swap mult.commute)

lemma vec3_Cross_self: "vec3_Cross a a = Vec3 0 0 0"
  by (simp add: vec3_Cross_def mult.commute)

text \<open>A vector too short to be normalised is left alone, in particular the null vector.\<close>

lemma vec3_Normalize_null: "vec3_Normalize (Vec3 0 0 0) = Vec3 0 0 0"
proof -
  have "(0 :: rat) < 1 / 10 ^ 8" by simp
  then have "0 \<le> f32 (1 / 10 ^ 8)" unfolding f32_def by (intro fp_round_nonneg) simp
  moreover have "vec3_Length (Vec3 0 0 0) = 0"
    by (simp add: vec3_Length_def vec3_LengthSquared_def Vec3_def sqrtf_def fp_sqrt_def)
  ultimately show ?thesis by (simp add: vec3_Normalize_def Let_def Vec3_def)
qed

text \<open>Integer vectors inside 16 bits have all their products.\<close>

lemma vec2int_LengthSquared_defined:
  assumes "\<bar>vix a\<bar> \<le> 32767" and "\<bar>viy a\<bar> \<le> 32767"
  shows "vec2int_LengthSquared a = Inr (vix a * vix a + viy a * viy a)"
proof -
  have sq: "- 1 \<le> i * i \<and> i * i \<le> 32767 * 32767" if "\<bar>i\<bar> \<le> 32767" for i :: int
  proof (rule conjI)
    show "- 1 \<le> i * i" by (rule order_trans [OF _ zero_le_square]) simp
    show "i * i \<le> 32767 * 32767" using mult_mono [OF that that] by (simp add: abs_mult_self_eq flip: abs_mult)
  qed
  have "int32_range (vix a * vix a)" "int32_range (viy a * viy a)" "int32_range (vix a * vix a + viy a * viy a)"
    using sq [OF assms(1)] sq [OF assms(2)] by (simp_all add: int32_range_def del: mult_nonneg_nonneg)
  then show ?thesis by (simp add: vec2int_LengthSquared_def chk_def)
qed

text \<open>
  What the comparison operators compare. On \<open>Vec2\<close> and \<open>Vec3\<close> they are equality; on \<open>Vec4\<close> two vectors
  are equal whenever they agree up to their last component, which the operator never looks at.
\<close>
theorem vector_equality:
  "(vec2_eq a b \<longleftrightarrow> a = b) \<and> (vec3_eq c d \<longleftrightarrow> c = d) \<and> (vec4_eq e f \<longleftrightarrow> (\<exists>w. f = e\<lparr>v4w := w\<rparr>))"
  by (cases a; cases b; cases c; cases d; cases e; cases f)
    (auto simp: vec2_eq_def vec3_eq_def vec4_eq_def)

end
