(* ===== verification/Interpolator.thy ===== *)
theory Interpolator
  imports Vectors "HOL-Library.Multiset"
begin

text \<open>
  \<open>MovementInterpolator\<close>: the snapshots of a remote actor, kept in time order, and the position drawn for it.
  \<open>std::upper_bound\<close>, \<open>std::lower_bound\<close> and \<open>std::find_if\<close> return the first place where a condition turns;
  on a buffer in time order, which every operation keeps, that is the length of a prefix.
\<close>

section \<open>State\<close>

record snapshot =
  timestamp :: fp
  snap_position :: vec3
  snap_velocity :: vec3
  snap_rotation :: vec3

record interpolator =
  snapshotBuffer :: "snapshot list"
  interpolationDelay :: fp
  extrapolationLimit :: fp
  renderPosition :: vec3
  renderRotation :: vec3

definition MovementInterpolator :: interpolator where
  "MovementInterpolator = \<lparr>snapshotBuffer = [], interpolationDelay = f64 (5 / 100), extrapolationLimit = 1 / 4,
     renderPosition = Vec3 0 0 0, renderRotation = Vec3 0 0 0\<rparr>"

definition SetInterpolationDelay :: "fp \<Rightarrow> interpolator \<Rightarrow> interpolator" where
  "SetInterpolationDelay d s = s\<lparr>interpolationDelay := d\<rparr>"

definition SetExtrapolationLimit :: "fp \<Rightarrow> interpolator \<Rightarrow> interpolator" where
  "SetExtrapolationLimit d s = s\<lparr>extrapolationLimit := d\<rparr>"

section \<open>Adding a snapshot\<close>

definition upper_bound :: "fp \<Rightarrow> snapshot list \<Rightarrow> nat" where
  "upper_bound t buf = length (takeWhile (\<lambda>s. \<not> t < timestamp s) buf)"

definition lower_bound :: "fp \<Rightarrow> snapshot list \<Rightarrow> nat" where
  "lower_bound t buf = length (takeWhile (\<lambda>s. timestamp s < t) buf)"

definition insert_snapshot :: "snapshot \<Rightarrow> snapshot list \<Rightarrow> snapshot list" where
  "insert_snapshot snap buf =
     (let i = upper_bound (timestamp snap) buf in take i buf @ snap # drop i buf)"

definition erase_old :: "fp \<Rightarrow> snapshot list \<Rightarrow> snapshot list" where
  "erase_old cutoff buf = dropWhile (\<lambda>s. \<not> cutoff \<le> timestamp s) buf"

definition AddSnapshot :: "snapshot \<Rightarrow> interpolator \<Rightarrow> interpolator" where
  "AddSnapshot snap s =
     s\<lparr>snapshotBuffer := erase_old (f64 (timestamp snap - 1 / 2)) (insert_snapshot snap (snapshotBuffer s))\<rparr>"

section \<open>Drawing\<close>

definition vec3_Lerp :: "vec3 \<Rightarrow> vec3 \<Rightarrow> fp \<Rightarrow> vec3" where
  "vec3_Lerp a b t = vec3_plus (vec3_times a (f32 (1 - t))) (vec3_times b t)"

definition lerp_factor :: "fp \<Rightarrow> fp \<Rightarrow> fp \<Rightarrow> fp" where
  "lerp_factor prev next_t renderTime = f32 (f64 (f64 (renderTime - prev) / f64 (next_t - prev)))"

definition Interpolate :: "fp \<Rightarrow> interpolator \<Rightarrow> bool \<times> interpolator" where
  "Interpolate renderTime s =
     (let buf = snapshotBuffer s; i = lower_bound renderTime buf
      in if length buf < 2 then (False, s)
         else if i = 0 \<or> i = length buf then (False, s)
         else (let nxt = buf ! i; prev = buf ! (i - 1); t = lerp_factor (timestamp prev) (timestamp nxt) renderTime
               in (True, s\<lparr>renderPosition := vec3_Lerp (snap_position prev) (snap_position nxt) t,
                           renderRotation := vec3_Lerp (snap_rotation prev) (snap_rotation nxt) t\<rparr>)))"

definition Extrapolate :: "fp \<Rightarrow> interpolator \<Rightarrow> interpolator" where
  "Extrapolate currentTime s =
     (if snapshotBuffer s = [] then s
      else (let l = last (snapshotBuffer s); delta = f64 (currentTime - timestamp l)
            in if extrapolationLimit s < delta then s
               else s\<lparr>renderPosition := vec3_plus (snap_position l) (vec3_times (snap_velocity l) (f32 delta))\<rparr>))"

text \<open>\<open>Process\<close>; the rendered position and rotation are those of the resulting state.\<close>

definition Process :: "fp \<Rightarrow> interpolator \<Rightarrow> interpolator" where
  "Process currentTime s =
     (case Interpolate (f64 (currentTime - interpolationDelay s)) s of
        (True, s') \<Rightarrow> s'
      | (False, s') \<Rightarrow> Extrapolate currentTime s')"

definition SetBasedOnServerTime :: "fp \<Rightarrow> fp \<Rightarrow> interpolator \<Rightarrow> interpolator" where
  "SetBasedOnServerTime avgRTT jit s =
     s\<lparr>interpolationDelay :=
         clamp_fp (f64 (f64 (LOGIC_TICK_INTERVAL + f64 (avgRTT * (1 / 2))) + jit))
           MIN_INTERPOLATION_DELAY MAX_INTERPOLATION_DELAY\<rparr>"

section \<open>The buffer stays in time order\<close>

definition in_time_order :: "snapshot list \<Rightarrow> bool" where
  "in_time_order buf \<longleftrightarrow> sorted (map timestamp buf)"

lemma take_upper: "take (upper_bound t buf) buf = takeWhile (\<lambda>s. \<not> t < timestamp s) buf"
  unfolding upper_bound_def by (rule takeWhile_eq_take [symmetric])

lemma drop_upper: "drop (upper_bound t buf) buf = dropWhile (\<lambda>s. \<not> t < timestamp s) buf"
  unfolding upper_bound_def by (rule dropWhile_eq_drop [symmetric])

lemma insert_snapshot_split:
  "insert_snapshot snap buf =
     takeWhile (\<lambda>s. \<not> timestamp snap < timestamp s) buf @ snap # dropWhile (\<lambda>s. \<not> timestamp snap < timestamp s) buf"
  by (simp add: insert_snapshot_def take_upper drop_upper Let_def)

lemma mset_insert_snapshot: "mset (insert_snapshot snap buf) = add_mset snap (mset buf)"
proof -
  let ?P = "\<lambda>s. \<not> timestamp snap < timestamp s"
  have "mset buf = mset (takeWhile ?P buf) + mset (dropWhile ?P buf)" by (metis mset_append takeWhile_dropWhile_id)
  then show ?thesis unfolding insert_snapshot_split by simp
qed

lemma dropWhile_sorted_all:
  assumes "in_time_order buf"
  shows "\<forall>s \<in> set (dropWhile (\<lambda>s. \<not> t < timestamp s) buf). t < timestamp s"
  using assms
proof (induction buf)
  case (Cons a buf)
  show ?case
  proof (cases "t < timestamp a")
    case True
    have "\<forall>s \<in> set buf. timestamp a \<le> timestamp s" using Cons.prems by (simp add: in_time_order_def)
    then have "\<forall>s \<in> set buf. t < timestamp s" using True less_le_trans by blast
    then show ?thesis using True by simp
  next
    case False
    then have d: "dropWhile (\<lambda>s. \<not> t < timestamp s) (a # buf) = dropWhile (\<lambda>s. \<not> t < timestamp s) buf" by simp
    have "in_time_order buf" using Cons.prems by (simp add: in_time_order_def)
    then show ?thesis unfolding d by (rule Cons.IH)
  qed
qed simp

lemma insert_snapshot_order:
  assumes "in_time_order buf"
  shows "in_time_order (insert_snapshot snap buf)"
proof -
  let ?P = "\<lambda>s. \<not> timestamp snap < timestamp s"
  define A where "A = takeWhile ?P buf"
  define B where "B = dropWhile ?P buf"
  have "sorted (map timestamp A)" "sorted (map timestamp B)"
    using assms unfolding in_time_order_def A_def B_def
    by (metis map_append sorted_append takeWhile_dropWhile_id)+
  moreover have A: "\<forall>s \<in> set A. timestamp s \<le> timestamp snap"
    unfolding A_def by (meson not_le set_takeWhileD)
  moreover have B: "\<forall>s \<in> set B. timestamp snap \<le> timestamp s"
    using dropWhile_sorted_all [OF assms] unfolding B_def by (blast intro: less_imp_le)
  moreover have "\<forall>x \<in> set A. \<forall>y \<in> set B. timestamp x \<le> timestamp y" using A B order_trans by blast
  ultimately show ?thesis
    unfolding insert_snapshot_split in_time_order_def A_def [symmetric] B_def [symmetric]
    by (simp add: sorted_append)
qed

lemma erase_old_order: "in_time_order buf \<Longrightarrow> in_time_order (erase_old c buf)"
  unfolding in_time_order_def erase_old_def by (metis map_append sorted_append takeWhile_dropWhile_id)

lemma erase_old_filter:
  assumes "in_time_order buf"
  shows "erase_old c buf = filter (\<lambda>s. c \<le> timestamp s) buf"
  using assms
proof (induction buf)
  case (Cons a buf)
  show ?case
  proof (cases "c \<le> timestamp a")
    case True
    then have "\<forall>s \<in> set buf. c \<le> timestamp s" using Cons.prems by (auto simp: in_time_order_def)
    then show ?thesis using True by (simp add: erase_old_def)
  next
    case False
    then show ?thesis using Cons by (simp add: erase_old_def in_time_order_def)
  qed
qed (simp add: erase_old_def)

text \<open>
  C29: a late snapshot is put where it belongs and the window moves with the latest arrival. On a buffer in time order
  \<open>AddSnapshot\<close> leaves a buffer in time order that holds exactly the old snapshots and the new one, with
  multiplicity, that are at most half a second older than the new one; the new one is always among them.
\<close>
theorem AddSnapshot_window:
  assumes "in_time_order (snapshotBuffer s)"
  shows "in_time_order (snapshotBuffer (AddSnapshot snap s)) \<and>
    mset (snapshotBuffer (AddSnapshot snap s)) =
      filter_mset (\<lambda>x. f64 (timestamp snap - 1 / 2) \<le> timestamp x) (add_mset snap (mset (snapshotBuffer s))) \<and>
    (f64 (timestamp snap) = timestamp snap \<longrightarrow> snap \<in> set (snapshotBuffer (AddSnapshot snap s)))"
proof -
  define buf where "buf = insert_snapshot snap (snapshotBuffer s)"
  have o: "in_time_order buf" unfolding buf_def by (rule insert_snapshot_order [OF assms])
  have a: "snapshotBuffer (AddSnapshot snap s) = filter (\<lambda>x. f64 (timestamp snap - 1 / 2) \<le> timestamp x) buf"
    using erase_old_filter [OF o] by (simp add: AddSnapshot_def buf_def)
  have "f64 (timestamp snap - 1 / 2) \<le> f64 (timestamp snap)" by (rule f64_mono) simp
  moreover have "snap \<in> set buf" by (simp add: buf_def insert_snapshot_split)
  moreover have "in_time_order (filter (\<lambda>x. f64 (timestamp snap - 1 / 2) \<le> timestamp x) buf)"
    using erase_old_order [OF o] erase_old_filter [OF o] by metis
  moreover have "mset buf = add_mset snap (mset (snapshotBuffer s))" unfolding buf_def by (rule mset_insert_snapshot)
  ultimately show ?thesis unfolding a by (simp only: mset_filter set_filter) simp
qed

lemma AddSnapshot_window_witness:
  "in_time_order (snapshotBuffer (AddSnapshot \<lparr>timestamp = 3, snap_position = Vec3 0 0 0, snap_velocity = Vec3 0 0 0,
     snap_rotation = Vec3 0 0 0\<rparr> MovementInterpolator))"
  by (rule AddSnapshot_window [THEN conjunct1]) (simp add: MovementInterpolator_def in_time_order_def)

section \<open>Which snapshots are drawn\<close>

lemma lower_bound_le: "lower_bound t buf \<le> length buf"
  unfolding lower_bound_def by (rule length_takeWhile_le)

lemma lower_bound_before: "i < lower_bound t buf \<Longrightarrow> timestamp (buf ! i) < t"
  unfolding lower_bound_def by (metis nth_mem set_takeWhileD takeWhile_nth)

lemma lower_bound_at: "lower_bound t buf < length buf \<Longrightarrow> t \<le> timestamp (buf ! lower_bound t buf)"
  unfolding lower_bound_def using nth_length_takeWhile [of "\<lambda>s. timestamp s < t" buf] by (simp add: not_less)

lemma lower_bound_zero: "buf \<noteq> [] \<Longrightarrow> lower_bound t buf = 0 \<longleftrightarrow> t \<le> timestamp (hd buf)"
  unfolding lower_bound_def by (cases buf) (simp_all add: not_less)

lemma lower_bound_end:
  assumes "in_time_order buf" and "buf \<noteq> []"
  shows "lower_bound t buf = length buf \<longleftrightarrow> timestamp (last buf) < t"
proof
  assume "lower_bound t buf = length buf"
  then have "length buf - 1 < lower_bound t buf" using assms(2) by simp
  then have "timestamp (buf ! (length buf - 1)) < t" by (rule lower_bound_before)
  then show "timestamp (last buf) < t" using assms(2) by (simp add: last_conv_nth)
next
  assume l: "timestamp (last buf) < t"
  have "\<forall>s \<in> set buf. timestamp s \<le> timestamp (last buf)"
  proof
    fix s assume "s \<in> set buf"
    then obtain i where i: "i < length buf" "s = buf ! i" by (auto simp: in_set_conv_nth)
    have "map timestamp buf ! i \<le> map timestamp buf ! (length buf - 1)"
      using assms(1) i unfolding in_time_order_def by (intro sorted_nth_mono) auto
    then show "timestamp s \<le> timestamp (last buf)" using i assms(2) by (simp add: last_conv_nth)
  qed
  then have "\<forall>s \<in> set buf. timestamp s < t" using l by (blast intro: le_less_trans)
  then show "lower_bound t buf = length buf" unfolding lower_bound_def by (simp add: takeWhile_eq_all_conv [THEN iffD2])
qed

text \<open>Two different doubles have a difference that does not round to zero.\<close>

lemma f64_diff_pos:
  assumes "representable 53 (-1074) a" and "representable 53 (-1074) b" and "a < b"
  shows "0 < f64 (b - a)"
proof -
  define q where "q = (power_int 2 (-1074) :: rat)"
  have q: "0 < q" by (simp add: q_def)
  have grid: "\<exists>k :: int. x = of_int k * q" if "representable 53 (-1074) x" for x
  proof -
    from that obtain m e where x: "x = of_int m * power_int 2 e" "-1074 \<le> e" by (auto simp: representable_def)
    have "e = int (nat (e + 1074)) + -1074" using x(2) by simp
    then have "power_int 2 e = (2 :: rat) ^ nat (e + 1074) * q"
      unfolding q_def by (metis power_int_add power_int_of_nat zero_neq_numeral)
    then show ?thesis using x(1) by (intro exI [of _ "m * 2 ^ nat (e + 1074)"]) simp
  qed
  obtain k l where kl: "a = of_int k * q" "b = of_int l * q" using grid assms(1,2) by blast
  then have "of_int k < (of_int l :: rat)" using assms(3) q by (simp add: mult_less_cancel_right)
  then have "k + 1 \<le> l" by simp
  then have "(of_int (k + 1) :: rat) \<le> of_int l" by (subst of_int_le_iff)
  then have "(of_int k + 1) * q \<le> of_int l * q" using q by (intro mult_right_mono) simp_all
  then have "q \<le> b - a" unfolding kl by (simp add: distrib_right)
  then have "f64 q \<le> f64 (b - a)" by (rule f64_mono)
  moreover have "f64 q = q" unfolding f64_def q_def by (rule fp_exact_general [where m = 1 and e = "-1074"]) simp_all
  ultimately show ?thesis using q by simp
qed

definition doubles :: "snapshot list \<Rightarrow> bool" where
  "doubles buf \<longleftrightarrow> (\<forall>s \<in> set buf. representable 53 (-1074) (timestamp s))"

text \<open>
  C30: when and between what the actor is interpolated. On a buffer in time order, \<open>Interpolate\<close> succeeds exactly for a
  render time after the first and not after the last of at least two snapshots; it then draws the blend of two adjacent
  snapshots that enclose the render time, with a factor between 0 and 1 whose denominator is not zero.
\<close>
theorem Interpolate_encloses:
  assumes "in_time_order (snapshotBuffer s)" and "doubles (snapshotBuffer s)"
  shows "if 2 \<le> length (snapshotBuffer s) \<and> timestamp (hd (snapshotBuffer s)) < t \<and> t \<le> timestamp (last (snapshotBuffer s))
    then \<exists>i r. Suc i < length (snapshotBuffer s) \<and>
      timestamp (snapshotBuffer s ! i) < t \<and> t \<le> timestamp (snapshotBuffer s ! Suc i) \<and>
      0 < f64 (timestamp (snapshotBuffer s ! Suc i) - timestamp (snapshotBuffer s ! i)) \<and> 0 \<le> r \<and> r \<le> 1 \<and>
      r = lerp_factor (timestamp (snapshotBuffer s ! i)) (timestamp (snapshotBuffer s ! Suc i)) t \<and>
      Interpolate t s = (True,
        s\<lparr>renderPosition := vec3_Lerp (snap_position (snapshotBuffer s ! i)) (snap_position (snapshotBuffer s ! Suc i)) r,
          renderRotation := vec3_Lerp (snap_rotation (snapshotBuffer s ! i)) (snap_rotation (snapshotBuffer s ! Suc i)) r\<rparr>)
    else Interpolate t s = (False, s)"
proof -
  let ?buf = "snapshotBuffer s"
  define i where "i = lower_bound t ?buf"
  show ?thesis
  proof (cases "2 \<le> length ?buf \<and> i \<noteq> 0 \<and> i \<noteq> length ?buf")
    case False
    then have "Interpolate t s = (False, s)" by (auto simp: Interpolate_def i_def Let_def)
    moreover have "\<not> (2 \<le> length ?buf \<and> timestamp (hd ?buf) < t \<and> t \<le> timestamp (last ?buf))"
    proof (cases "2 \<le> length ?buf")
      case len: True
      then have "?buf \<noteq> []" by auto
      then show ?thesis using False len lower_bound_zero [of ?buf t] lower_bound_end [OF assms(1), of t]
        unfolding i_def [symmetric] by (metis not_less)
    qed simp
    ultimately show ?thesis by (simp only: if_False)
  next
    case True
    then have ne: "?buf \<noteq> []" and il: "i < length ?buf" using lower_bound_le [of t ?buf] by (auto simp: i_def)
    define j where "j = i - 1"
    have j: "i = Suc j" using True by (simp add: j_def)
    have before: "timestamp (?buf ! j) < t" using lower_bound_before [of j t ?buf] j by (simp add: i_def)
    have at: "t \<le> timestamp (?buf ! Suc j)" using lower_bound_at [of t ?buf] il j by (simp add: i_def)
    have "?buf ! j \<in> set ?buf" "?buf ! Suc j \<in> set ?buf" using il j by simp_all
    then have den: "0 < f64 (timestamp (?buf ! Suc j) - timestamp (?buf ! j))"
      using assms(2) before at by (intro f64_diff_pos) (auto simp: doubles_def)
    define r where "r = lerp_factor (timestamp (?buf ! j)) (timestamp (?buf ! Suc j)) t"
    have q: "0 \<le> f64 (t - timestamp (?buf ! j)) / f64 (timestamp (?buf ! Suc j) - timestamp (?buf ! j))"
      "f64 (t - timestamp (?buf ! j)) / f64 (timestamp (?buf ! Suc j) - timestamp (?buf ! j)) \<le> 1"
      using den before at f64_nonneg [of "t - timestamp (?buf ! j)"] f64_mono [of "t - timestamp (?buf ! j)" "timestamp (?buf ! Suc j) - timestamp (?buf ! j)"]
      by (simp_all add: divide_le_eq)
    have "0 \<le> r" unfolding r_def lerp_factor_def f32_def by (intro fp_round_nonneg f64_nonneg q(1))
    moreover have "r \<le> f32 (f64 1)" unfolding r_def lerp_factor_def by (intro f32_mono f64_mono q(2))
    moreover have "Interpolate t s = (True,
        s\<lparr>renderPosition := vec3_Lerp (snap_position (?buf ! j)) (snap_position (?buf ! Suc j)) r,
          renderRotation := vec3_Lerp (snap_rotation (?buf ! j)) (snap_rotation (?buf ! Suc j)) r\<rparr>)"
      using True j unfolding Interpolate_def i_def [symmetric] r_def Let_def by simp
    ultimately have "\<exists>i r. Suc i < length ?buf \<and> timestamp (?buf ! i) < t \<and> t \<le> timestamp (?buf ! Suc i) \<and>
      0 < f64 (timestamp (?buf ! Suc i) - timestamp (?buf ! i)) \<and> 0 \<le> r \<and> r \<le> 1 \<and>
      r = lerp_factor (timestamp (?buf ! i)) (timestamp (?buf ! Suc i)) t \<and>
      Interpolate t s = (True,
        s\<lparr>renderPosition := vec3_Lerp (snap_position (?buf ! i)) (snap_position (?buf ! Suc i)) r,
          renderRotation := vec3_Lerp (snap_rotation (?buf ! i)) (snap_rotation (?buf ! Suc i)) r\<rparr>)"
      using before at den il j r_def by (intro exI [of _ j] exI [of _ r]) simp
    moreover have "timestamp (hd ?buf) < t" "t \<le> timestamp (last ?buf)"
      using True lower_bound_zero [OF ne, of t] lower_bound_end [OF assms(1) ne, of t] unfolding i_def [symmetric] by auto
    ultimately show ?thesis using True by (simp only: if_True) simp
  qed
qed

definition two_snapshots :: interpolator where
  "two_snapshots = MovementInterpolator\<lparr>snapshotBuffer :=
     [\<lparr>timestamp = 1, snap_position = Vec3 0 0 0, snap_velocity = Vec3 0 0 0, snap_rotation = Vec3 0 0 0\<rparr>,
      \<lparr>timestamp = 2, snap_position = Vec3 4 0 0, snap_velocity = Vec3 4 0 0, snap_rotation = Vec3 0 0 0\<rparr>]\<rparr>"

lemma representable_of_int: "\<bar>m\<bar> < 2 ^ 53 \<Longrightarrow> representable 53 (-1074) (of_int m)"
  unfolding representable_def by (intro exI [of _ m] exI [of _ 0]) simp

lemma Interpolate_encloses_witness:
  "fst (Interpolate 2 two_snapshots) \<and> \<not> fst (Interpolate 1 two_snapshots)"
proof -
  have o: "in_time_order (snapshotBuffer two_snapshots)" by (simp add: two_snapshots_def in_time_order_def)
  have d: "doubles (snapshotBuffer two_snapshots)"
    using representable_of_int [of 1] representable_of_int [of 2] by (simp add: two_snapshots_def doubles_def)
  have c: "2 \<le> length (snapshotBuffer two_snapshots) \<and> timestamp (hd (snapshotBuffer two_snapshots)) < 2 \<and>
      2 \<le> timestamp (last (snapshotBuffer two_snapshots))"
    "\<not> timestamp (hd (snapshotBuffer two_snapshots)) < 1" by (simp_all add: two_snapshots_def)
  have "fst (Interpolate 2 two_snapshots)" using Interpolate_encloses [OF o d, of 2] c(1) by (metis fst_conv)
  moreover have "\<not> fst (Interpolate 1 two_snapshots)" using Interpolate_encloses [OF o d, of 1] c(2) by (metis fst_conv)
  ultimately show ?thesis ..
qed

section \<open>Extrapolation and the delay\<close>

text \<open>
  The extrapolation limit only looks forward. Whatever the age of the last snapshot, the position is
  moved along its velocity by the rounded difference of the times unless that difference exceeds the limit; when the
  last snapshot lies in the future the difference is not positive, no matter how large, and the actor
  is drawn behind its last position.
\<close>
theorem Extrapolate_limit:
  assumes "snapshotBuffer s \<noteq> []"
  shows "let l = last (snapshotBuffer s); delta = f64 (currentTime - timestamp l)
    in (if extrapolationLimit s < delta then Extrapolate currentTime s = s
        else Extrapolate currentTime s = s\<lparr>renderPosition :=
          vec3_plus (snap_position l) (vec3_times (snap_velocity l) (f32 delta))\<rparr>) \<and>
       (currentTime \<le> timestamp l \<and> 0 \<le> extrapolationLimit s \<longrightarrow> delta \<le> 0 \<and>
        Extrapolate currentTime s = s\<lparr>renderPosition :=
          vec3_plus (snap_position l) (vec3_times (snap_velocity l) (f32 delta))\<rparr>)"
proof -
  define l where "l = last (snapshotBuffer s)"
  define delta where "delta = f64 (currentTime - timestamp l)"
  have "Extrapolate currentTime s = (if extrapolationLimit s < delta then s
      else s\<lparr>renderPosition := vec3_plus (snap_position l) (vec3_times (snap_velocity l) (f32 delta))\<rparr>)"
    using assms by (simp add: Extrapolate_def l_def delta_def Let_def)
  moreover have "delta \<le> 0" if "currentTime \<le> timestamp l"
    using f64_mono [of "currentTime - timestamp l" 0] that by (simp add: delta_def)
  ultimately show ?thesis unfolding Let_def l_def [symmetric] delta_def [symmetric] by auto
qed

lemma Extrapolate_limit_witness:
  "renderPosition (Extrapolate (- 8) two_snapshots) = Vec3 (- 36) 0 0"
proof -
  have f: "f64 (- 10) = - 10" "f32 (- 10) = - 10" "f32 (- 40) = - 40" "f32 (- 36) = - 36"
    using f64_of_int [of "- 10"] f32_of_int [of "- 10"] f32_of_int [of "- 40"] f32_of_int [of "- 36"] by simp_all
  have ne: "snapshotBuffer two_snapshots \<noteq> []" by (simp add: two_snapshots_def)
  have "Extrapolate (- 8) two_snapshots = two_snapshots\<lparr>renderPosition :=
      vec3_plus (Vec3 4 0 0) (vec3_times (Vec3 4 0 0) (f32 (f64 (- 10))))\<rparr>"
    using Extrapolate_limit [OF ne, of "- 8"] by (simp add: two_snapshots_def MovementInterpolator_def Let_def)
  then show ?thesis by (simp add: f vec3_plus_def vec3_times_def Vec3_def)
qed

text \<open>The delay derived from the network statistics stays between the two constants.\<close>

lemma delay_constants: "MIN_INTERPOLATION_DELAY \<le> MAX_INTERPOLATION_DELAY" "0 < MIN_INTERPOLATION_DELAY"
proof -
  show "MIN_INTERPOLATION_DELAY \<le> MAX_INTERPOLATION_DELAY"
    unfolding MIN_INTERPOLATION_DELAY_def MAX_INTERPOLATION_DELAY_def by (rule f64_mono) simp
  have "\<bar>MIN_INTERPOLATION_DELAY - 4 / 100\<bar> \<le> 1 / 1073741824"
    unfolding MIN_INTERPOLATION_DELAY_def by (rule f64_error_24) simp
  then show "0 < MIN_INTERPOLATION_DELAY" by linarith
qed

theorem delay_clamped:
  "MIN_INTERPOLATION_DELAY \<le> interpolationDelay (SetBasedOnServerTime avg jit s) \<and>
   interpolationDelay (SetBasedOnServerTime avg jit s) \<le> MAX_INTERPOLATION_DELAY"
  using delay_constants(1) by (auto simp: SetBasedOnServerTime_def clamp_fp_def)

end
