(* ===== verification/Actors.thy ===== *)
theory Actors
  imports Transform_Compressor Interpolator
begin

text \<open>
  \<open>Actor\<close>, \<open>RemoteActor\<close> and \<open>Floor\<close>, and the scene that owns them (\<open>Scene.cpp\<close>, \<open>GameScene.cpp\<close> less the player).
  The scene's hash map is the list of its entries, one per id; no statement depends on their order. Pointers to actors
  are only held by that map, so an actor changed through a pointer is the changed entry. A cast of an actor to
  \<open>RemoteActor\<close> is unchecked in the source and a fault here when the actor is a floor.
\<close>

section \<open>Actors\<close>

record actor_data =
  actorId :: uint32
  act_position :: vec3
  act_rotation :: vec3
  act_velocity :: vec3
  act_moveSpeed :: fp
  act_color :: vec4
  act_owned :: bool           \<comment> \<open>\<open>_owner\<close> points to a scene\<close>

definition Actor :: actor_data where
  "Actor = \<lparr>actorId = 0, act_position = Vec3 0 0 0, act_rotation = Vec3 0 0 0, act_velocity = Vec3 0 0 0,
     act_moveSpeed = 0, act_color = Vec4 0 0 0 0, act_owned = False\<rparr>"

definition Actor_Init :: "actor_data \<Rightarrow> actor_data" where
  "Actor_Init a = a\<lparr>act_owned := True\<rparr>"

definition SetActorId :: "uint32 \<Rightarrow> actor_data \<Rightarrow> actor_data" where
  "SetActorId i a = a\<lparr>actorId := i\<rparr>"

definition SetColor :: "vec4 \<Rightarrow> actor_data \<Rightarrow> actor_data" where
  "SetColor c a = a\<lparr>act_color := c\<rparr>"

definition SetTransform :: "uint64 \<Rightarrow> uint64 \<Rightarrow> uint32 \<Rightarrow> actor_data \<Rightarrow> actor_data" where
  "SetTransform position velocity_speed rotation a =
     (let (px, py, pz) = UnPackPosition position;
          (vx, vy, vz, sp) = UnpackVelocityAndSpeed velocity_speed;
          (yaw, pitch) = UnPackRotation rotation
      in a\<lparr>act_position := Vec3 px py pz, act_velocity := Vec3 vx vy vz, act_moveSpeed := sp,
           act_rotation := (act_rotation a)\<lparr>v3y := yaw, v3x := pitch\<rparr>\<rparr>)"

record remote_actor =
  remote_base :: actor_data
  remote_interp :: interpolator
  remote_renderPosition :: vec3
  remote_renderRotation :: vec3

definition RemoteActor :: remote_actor where
  "RemoteActor = \<lparr>remote_base = Actor, remote_interp = MovementInterpolator,
     remote_renderPosition = Vec3 0 0 0, remote_renderRotation = Vec3 0 0 0\<rparr>"

definition UpdateSnapshot :: "uint64 \<Rightarrow> uint64 \<Rightarrow> uint32 \<Rightarrow> fp \<Rightarrow> remote_actor \<Rightarrow> remote_actor" where
  "UpdateSnapshot position velocity_speed rotation ts r =
     (let b = SetTransform position velocity_speed rotation (remote_base r)
      in r\<lparr>remote_base := b,
           remote_interp := AddSnapshot \<lparr>timestamp = ts, snap_position = act_position b, snap_velocity = act_velocity b,
             snap_rotation = act_rotation b\<rparr> (remote_interp r)\<rparr>)"

definition UpdateInterpolatorBase :: "fp \<Rightarrow> fp \<Rightarrow> remote_actor \<Rightarrow> remote_actor" where
  "UpdateInterpolatorBase avgRTT jit r = r\<lparr>remote_interp := SetBasedOnServerTime avgRTT jit (remote_interp r)\<rparr>"

text \<open>What is handed to the renderer.\<close>

datatype draw =
    DrawCube vec3 vec3 vec4
  | DrawPlane vec3 fp vec4
  | DrawGrid vec4
  | UpdateCamera vec3 fp fp
  | DrawRay vec3 vec3 vec4
  | DrawCrosshair

definition RemoteActor_Render :: "fp \<Rightarrow> remote_actor \<Rightarrow> remote_actor \<times> draw list" where
  "RemoteActor_Render clientTime r =
     (let i = Process clientTime (remote_interp r)
      in (r\<lparr>remote_interp := i, remote_renderPosition := renderPosition i, remote_renderRotation := renderRotation i\<rparr>,
          [DrawCube (renderPosition i) (renderRotation i) (act_color (remote_base r))]))"

definition Floor_Render :: "actor_data \<Rightarrow> draw list" where
  "Floor_Render a =
     [DrawPlane (act_position a) (f32 (of_int (WORLD_RANGE_MAX * 2))) (act_color a),
      DrawGrid (Vec4 (f32 (3 / 10)) (f32 (3 / 10)) (f32 (3 / 10)) 1)]"

text \<open>The dynamic class of an actor in a scene.\<close>

datatype actor = AFloor actor_data | ARemote remote_actor

fun base :: "actor \<Rightarrow> actor_data" where
  "base (AFloor a) = a"
| "base (ARemote r) = remote_base r"

fun map_base :: "(actor_data \<Rightarrow> actor_data) \<Rightarrow> actor \<Rightarrow> actor" where
  "map_base f (AFloor a) = AFloor (f a)"
| "map_base f (ARemote r) = ARemote (r\<lparr>remote_base := f (remote_base r)\<rparr>)"

text \<open>\<open>static_pointer_cast<RemoteActor>\<close> and the call made through it.\<close>

fun as_remote :: "(remote_actor \<Rightarrow> remote_actor) \<Rightarrow> actor \<Rightarrow> actor res" where
  "as_remote f (ARemote r) = Inr (ARemote (f r))"
| "as_remote f (AFloor a) = Inl BadCast"

text \<open>Virtual calls. \<open>Update\<close> of both classes is empty.\<close>

fun Actor_Update :: "actor \<Rightarrow> actor" where
  "Actor_Update a = a"

fun Actor_Render :: "fp \<Rightarrow> actor \<Rightarrow> actor \<times> draw list" where
  "Actor_Render clientTime (AFloor a) = (AFloor a, Floor_Render a)"
| "Actor_Render clientTime (ARemote r) =
     (let (r', ds) = RemoteActor_Render clientTime r in (ARemote r', ds))"

section \<open>Scenes\<close>

type_synonym scene = "(uint32 \<times> actor) list"

definition Scene_Init :: "scene \<Rightarrow> scene" where
  "Scene_Init sc = map (\<lambda>(i, a). (i, map_base Actor_Init a)) sc"

definition Scene_Update :: "scene \<Rightarrow> scene" where
  "Scene_Update sc = map (\<lambda>(i, a). (i, Actor_Update a)) sc"

definition Scene_Render :: "fp \<Rightarrow> scene \<Rightarrow> scene \<times> draw list" where
  "Scene_Render clientTime sc =
     (map (\<lambda>(i, a). (i, fst (Actor_Render clientTime a))) sc, concat (map (\<lambda>(i, a). snd (Actor_Render clientTime a)) sc))"

definition GetActorByActorId :: "uint32 \<Rightarrow> scene \<Rightarrow> actor option" where
  "GetActorByActorId i sc = map_of sc i"

text \<open>\<open>insert\<close> does not replace an entry that is there.\<close>

definition AddActor :: "actor \<Rightarrow> scene \<Rightarrow> scene" where
  "AddActor a sc =
     (let a' = map_base Actor_Init a; i = actorId (base a')
      in if map_of sc i = None then (i, a') # sc else sc)"

definition RemoveActor :: "uint32 \<Rightarrow> scene \<Rightarrow> scene" where
  "RemoveActor i sc = filter (\<lambda>e. fst e \<noteq> i) sc"

fun OnReceiveServerTime :: "fp \<Rightarrow> fp \<Rightarrow> scene \<Rightarrow> scene res" where
  "OnReceiveServerTime avgRTT jit [] = Inr []"
| "OnReceiveServerTime avgRTT jit ((i, a) # sc) =
     and_then (if GetActorType (actorId (base a)) = ActorTypePrefix_Floor then Inr a
               else as_remote (UpdateInterpolatorBase avgRTT jit) a)
       (\<lambda>a'. and_then (OnReceiveServerTime avgRTT jit sc) (\<lambda>sc'. Inr ((i, a') # sc')))"

text \<open>Replaces the entry of an id, as a call through a pointer into the map does.\<close>

definition at_actor :: "uint32 \<Rightarrow> actor \<Rightarrow> scene \<Rightarrow> scene" where
  "at_actor i a sc = map (\<lambda>(j, b). if j = i then (j, a) else (j, b)) sc"

section \<open>The typing of a scene\<close>

text \<open>One entry per id, which is the actor's own id and names its class; buffers are in time order.\<close>

fun actor_ok :: "actor \<Rightarrow> bool" where
  "actor_ok (AFloor a) \<longleftrightarrow> GetActorType (actorId a) = ActorTypePrefix_Floor"
| "actor_ok (ARemote r) \<longleftrightarrow> GetActorType (actorId (remote_base r)) \<noteq> ActorTypePrefix_Floor \<and>
     in_time_order (snapshotBuffer (remote_interp r))"

definition scene_ok :: "scene \<Rightarrow> bool" where
  "scene_ok sc \<longleftrightarrow> distinct (map fst sc) \<and> (\<forall>(i, a) \<in> set sc. actorId (base a) = i \<and> actor_ok a)"

named_theorems actor_simps

lemma SetTransform_id [simp, actor_simps]: "actorId (SetTransform p v r a) = actorId a"
  by (simp add: SetTransform_def case_prod_beta Let_def)

lemma base_ids [simp, actor_simps]:
  "actorId (Actor_Init a) = actorId a" "actorId (SetColor c a) = actorId a" "actorId (SetActorId i a) = i"
  "actorId (base (map_base Actor_Init x)) = actorId (base x)" "actorId (base (map_base (SetColor c) x)) = actorId (base x)"
  by (simp_all add: Actor_Init_def SetColor_def SetActorId_def) (cases x; simp add: Actor_Init_def SetColor_def)+

lemma actor_ok_base [simp, actor_simps]:
  "actor_ok (map_base Actor_Init x) = actor_ok x" "actor_ok (map_base (SetColor c) x) = actor_ok x"
  by (cases x; simp)+

lemma UpdateSnapshot_ok [actor_simps]:
  "actor_ok (ARemote r) \<Longrightarrow> actor_ok (ARemote (UpdateSnapshot p v rot ts r))"
  by (simp add: UpdateSnapshot_def Let_def AddSnapshot_def erase_old_order insert_snapshot_order)

lemma UpdateSnapshot_id [simp, actor_simps]: "actorId (remote_base (UpdateSnapshot p v rot ts r)) = actorId (remote_base r)"
  by (simp add: UpdateSnapshot_def Let_def)

lemma UpdateInterpolatorBase_ok [actor_simps]:
  "actor_ok (ARemote r) \<Longrightarrow> actor_ok (ARemote (UpdateInterpolatorBase a j r)) \<and>
   actorId (remote_base (UpdateInterpolatorBase a j r)) = actorId (remote_base r)"
  by (simp add: UpdateInterpolatorBase_def SetBasedOnServerTime_def)

lemma Process_buffer: "snapshotBuffer (Process t s) = snapshotBuffer s"
  by (auto simp: Process_def Interpolate_def Extrapolate_def Let_def split: prod.splits bool.splits if_splits)

lemma Actor_Render_ok [actor_simps]:
  "actor_ok (fst (Actor_Render t a)) = actor_ok a" "actorId (base (fst (Actor_Render t a))) = actorId (base a)"
  by (cases a; simp add: RemoteActor_Render_def Process_buffer Let_def)+

lemma scene_ok_entry: "scene_ok sc \<Longrightarrow> map_of sc i = Some a \<Longrightarrow> actorId (base a) = i \<and> actor_ok a"
  unfolding scene_ok_def by (auto dest: map_of_SomeD)

lemma scene_ok_Nil [simp]: "scene_ok []"
  by (simp add: scene_ok_def)

lemma AddActor_ok: "scene_ok sc \<Longrightarrow> actor_ok a \<Longrightarrow> scene_ok (AddActor a sc)"
  by (auto simp: scene_ok_def AddActor_def Let_def map_of_eq_None_iff)

lemma at_actor_ok:
  assumes "scene_ok sc" and "actor_ok a" and "actorId (base a) = i"
  shows "scene_ok (at_actor i a sc)"
proof -
  have "map fst (at_actor i a sc) = map fst sc" by (induction sc) (auto simp: at_actor_def)
  then have "distinct (map fst (at_actor i a sc))" using assms(1) unfolding scene_ok_def by metis
  moreover have "\<forall>(j, b) \<in> set (at_actor i a sc). actorId (base b) = j \<and> actor_ok b"
    using assms by (auto simp: scene_ok_def at_actor_def split: if_splits)
  ultimately show ?thesis unfolding scene_ok_def ..
qed

lemma map_actor_ok:
  assumes "scene_ok sc" and "\<And>a. actor_ok a \<Longrightarrow> actor_ok (f a)" and "\<And>a. actorId (base (f a)) = actorId (base a)"
  shows "scene_ok (map (\<lambda>(i, a). (i, f a)) sc)"
proof -
  have "map fst (map (\<lambda>(i, a). (i, f a)) sc) = map fst sc" by (induction sc) auto
  then have "distinct (map fst (map (\<lambda>(i, a). (i, f a)) sc))" using assms(1) unfolding scene_ok_def by metis
  moreover have "\<forall>(j, b) \<in> set (map (\<lambda>(i, a). (i, f a)) sc). actorId (base b) = j \<and> actor_ok b"
    using assms by (auto simp: scene_ok_def)
  ultimately show ?thesis unfolding scene_ok_def ..
qed

lemma Scene_Init_ok: "scene_ok sc \<Longrightarrow> scene_ok (Scene_Init sc)"
  unfolding Scene_Init_def by (rule map_actor_ok) simp_all

lemma Scene_Render_ok: "scene_ok sc \<Longrightarrow> scene_ok (fst (Scene_Render t sc))"
  unfolding Scene_Render_def fst_conv by (rule map_actor_ok) (simp_all add: actor_simps)

lemma RemoveActor_ok: "scene_ok sc \<Longrightarrow> scene_ok (RemoveActor i sc)"
  unfolding scene_ok_def RemoveActor_def by (auto intro: distinct_map_filter)

text \<open>On a well-typed scene the pass over the actors never casts a floor.\<close>

lemma OnReceiveServerTime_ok:
  assumes "scene_ok sc"
  shows "\<exists>sc'. OnReceiveServerTime avg jit sc = Inr sc' \<and> scene_ok sc' \<and> map fst sc' = map fst sc"
  using assms
proof (induction sc)
  case (Cons e sc)
  obtain i a where e: "e = (i, a)" by fastforce
  have sc: "scene_ok sc" and a: "actor_ok a" "actorId (base a) = i" and i: "i \<notin> set (map fst sc)"
    using Cons.prems by (auto simp: scene_ok_def e)
  obtain sc' where sc': "OnReceiveServerTime avg jit sc = Inr sc'" "scene_ok sc'" "map fst sc' = map fst sc"
    using Cons.IH [OF sc] by blast
  have "\<exists>a'. (if GetActorType (actorId (base a)) = ActorTypePrefix_Floor then Inr a
      else as_remote (UpdateInterpolatorBase avg jit) a) = Inr a' \<and> actor_ok a' \<and> actorId (base a') = i"
    using a UpdateInterpolatorBase_ok by (cases a) auto
  then obtain a' where a': "(if GetActorType (actorId (base a)) = ActorTypePrefix_Floor then Inr a
      else as_remote (UpdateInterpolatorBase avg jit) a) = Inr a'" "actor_ok a'" "actorId (base a') = i" by blast
  have "scene_ok ((i, a') # sc')" using sc' i a' unfolding scene_ok_def by simp
  then show ?case using sc' a'(1) by (simp add: e)
qed simp

end
