(* ===== verification/Input_Manager.thy ===== *)
theory Input_Manager
  imports Transform_Compressor
begin

text \<open>
  \<open>InputManager\<close>: keys and mouse become a bit field and two angles, and \<open>CaptureInput\<close> hands them out when they have
  changed. The state of a key, the cursor position and the focus of the window are inputs of each call; the cursor
  mode of the window is part of the state.
\<close>

section \<open>Keys\<close>

datatype EInputKey =
    MoveForward | MoveBackward | MoveLeft | MoveRight | Jump | Key_Fire | AltFire | Skill1 | Skill2 | Skill3 | Skill4
  | QSkill | ESkill | TabOpen | Pause

fun key_code :: "EInputKey \<Rightarrow> nat" where
  "key_code MoveForward = 0" | "key_code MoveBackward = 1" | "key_code MoveLeft = 2" | "key_code MoveRight = 3"
| "key_code Jump = 4" | "key_code Key_Fire = 5" | "key_code AltFire = 6" | "key_code Skill1 = 7" | "key_code Skill2 = 8"
| "key_code Skill3 = 9" | "key_code Skill4 = 10" | "key_code QSkill = 11" | "key_code ESkill = 12"
| "key_code TabOpen = 13" | "key_code Pause = 14"

text \<open>The enumerators are ordered by their values.\<close>

lemma key_code_inject [simp]: "key_code k = key_code l \<longleftrightarrow> k = l"
  by (cases k; cases l) simp_all

instantiation EInputKey :: linorder
begin

definition less_eq_EInputKey :: "EInputKey \<Rightarrow> EInputKey \<Rightarrow> bool" where
  "less_eq_EInputKey k l \<longleftrightarrow> key_code k \<le> key_code l"

definition less_EInputKey :: "EInputKey \<Rightarrow> EInputKey \<Rightarrow> bool" where
  "less_EInputKey k l \<longleftrightarrow> key_code k < key_code l"

instance
  by standard (auto simp: less_eq_EInputKey_def less_EInputKey_def)

end

text \<open>Letters and digits are their character codes; the others are the virtual key codes of the Windows headers.\<close>

definition INPUT_KEY_TO_VK :: "(EInputKey \<times> nat) list" where
  "INPUT_KEY_TO_VK =
     [(MoveForward, 87), (MoveBackward, 83), (MoveLeft, 65), (MoveRight, 68), (Jump, 32), (Key_Fire, 1), (AltFire, 2),
      (Skill1, 49), (Skill2, 50), (Skill3, 51), (Skill4, 52), (QSkill, 81), (ESkill, 69), (TabOpen, 9), (Pause, 27)]"

section \<open>State\<close>

record player_input =
  in_timestamp :: fp
  in_keyField :: uint32
  in_yaw :: fp
  in_pitch :: fp
  in_sequence :: uint32

record input_manager =
  paused :: bool
  keyField :: uint32
  lastSentKeyField :: uint32
  lastYaw :: fp
  lastPitch :: fp
  prevKeyStates :: "EInputKey \<Rightarrow> bool"
  horizontalSensitivity :: fp
  verticalSensitivity :: fp
  yaw :: fp
  pitch :: fp
  mouseVisible :: bool           \<comment> \<open>the cursor mode of the window\<close>

definition InputManager :: input_manager where
  "InputManager = \<lparr>paused = False, keyField = 0, lastSentKeyField = - 1, lastYaw = 0, lastPitch = 0,
     prevKeyStates = (\<lambda>_. False), horizontalSensitivity = f32 (1 / 100), verticalSensitivity = f32 (1 / 100),
     yaw = 0, pitch = 0, mouseVisible = True\<rparr>"

section \<open>Operations\<close>

definition SetMouseVisible :: "bool \<Rightarrow> input_manager \<Rightarrow> input_manager" where
  "SetMouseVisible b s = s\<lparr>mouseVisible := b\<rparr>"

definition TogglePause :: "input_manager \<Rightarrow> input_manager" where
  "TogglePause s =
     (let s1 = s\<lparr>paused := \<not> paused s\<rparr> in if paused s1 then SetMouseVisible True s1 else SetMouseVisible False s1)"

text \<open>\<open>down\<close> tells for a virtual key whether it is held; \<open>INPUT_KEY_TO_VK.at\<close> throws for a key it lacks.\<close>

definition JustPressed :: "(nat \<Rightarrow> bool) \<Rightarrow> EInputKey \<Rightarrow> input_manager \<Rightarrow> (bool \<times> input_manager) res" where
  "JustPressed down key s =
     (case map_of INPUT_KEY_TO_VK key of
        None \<Rightarrow> Inl OutOfBounds
      | Some vk \<Rightarrow> Inr (down vk \<and> \<not> prevKeyStates s key, s\<lparr>prevKeyStates := (prevKeyStates s)(key := down vk)\<rparr>))"

definition collect_keys :: "(nat \<Rightarrow> bool) \<Rightarrow> (EInputKey \<times> nat) list \<Rightarrow> uint32" where
  "collect_keys down kvs = foldl (\<lambda>field (k, vk). if down vk then field OR push_bit (key_code k) 1 else field) 0 kvs"

definition UpdateKeyField :: "(nat \<Rightarrow> bool) \<Rightarrow> (nat \<Rightarrow> bool) \<Rightarrow> input_manager \<Rightarrow> input_manager res" where
  "UpdateKeyField down down2 s =
     and_then (JustPressed down2 Pause (s\<lparr>keyField := collect_keys down INPUT_KEY_TO_VK\<rparr>))
       (\<lambda>(pressed, s1). Inr (if pressed then TogglePause s1 else s1))"

definition UpdateMouse :: "fp \<Rightarrow> fp \<Rightarrow> input_manager \<Rightarrow> input_manager" where
  "UpdateMouse mx my s =
     (if paused s then s
      else (let dx = f32 (f64 (mx - WINDOW_CENTER_X)); dy = f32 (f64 (my - WINDOW_CENTER_Y))
            in s\<lparr>yaw := f32 (yaw s - f32 (f32 (dx * horizontalSensitivity s) * DEG2RAD)),
                 pitch := clamp_fp (f32 (pitch s - f32 (f32 (dy * verticalSensitivity s) * DEG2RAD)))
                   (f32 (- PI * (1 / 2))) (f32 (PI * (1 / 2)))\<rparr>))"

definition InputManager_Update ::
  "bool \<Rightarrow> bool \<Rightarrow> (nat \<Rightarrow> bool) \<Rightarrow> (nat \<Rightarrow> bool) \<Rightarrow> fp \<Rightarrow> fp \<Rightarrow> input_manager \<Rightarrow> input_manager res" where
  "InputManager_Update focused isInGame down down2 mx my s =
     (if \<not> focused then Inr s
      else if \<not> isInGame then Inr s
      else and_then (UpdateKeyField down down2 s) (\<lambda>s1. Inr (UpdateMouse mx my s1)))"

definition CaptureInput :: "fp \<Rightarrow> input_manager \<Rightarrow> player_input \<times> input_manager" where
  "CaptureInput clientTime s =
     (if keyField s \<noteq> lastSentKeyField s \<or> yaw s \<noteq> lastYaw s \<or> pitch s \<noteq> lastPitch s
      then (\<lparr>in_timestamp = clientTime, in_keyField = keyField s, in_yaw = yaw s, in_pitch = pitch s, in_sequence = 0\<rparr>,
            s\<lparr>lastSentKeyField := keyField s, lastYaw := yaw s, lastPitch := pitch s\<rparr>)
      else (\<lparr>in_timestamp = 0, in_keyField = 0, in_yaw = 0, in_pitch = 0, in_sequence = 0\<rparr>, s))"

section \<open>Lemmas\<close>

lemma f32_pitch_bounds: "f32 (- PI * (1 / 2)) = - (PI / 2)" "f32 (PI * (1 / 2)) = PI / 2"
proof -
  show "f32 (PI * (1 / 2)) = PI / 2" using f32_half_PI by simp
  have "f32 (- (PI / 2)) = - f32 (PI / 2)" unfolding f32_def by (rule fp_round_minus)
  then show "f32 (- PI * (1 / 2)) = - (PI / 2)" by simp
qed

lemma collect_keys_bit:
  assumes "\<forall>(k, vk) \<in> set kvs. key_code k < 32"
  shows "bit (collect_keys down kvs) n \<longleftrightarrow> (\<exists>(k, vk) \<in> set kvs. down vk \<and> key_code k = n)"
proof -
  have "bit (foldl (\<lambda>field (k, vk). if down vk then field OR push_bit (key_code k) 1 else field) (f :: uint32) kvs) n \<longleftrightarrow>
      bit f n \<or> (\<exists>(k, vk) \<in> set kvs. down vk \<and> key_code k = n)" for f
    using assms
  proof (induction kvs arbitrary: f)
    case (Cons e kvs)
    obtain k vk where e: "e = (k, vk)" by fastforce
    have "key_code k < 32" using Cons.prems by (simp add: e)
    then have "bit (f OR push_bit (key_code k) 1) n \<longleftrightarrow> bit f n \<or> key_code k = n"
      by (auto simp: bit_simps)
    then show ?case using Cons by (auto simp: e)
  qed simp
  from this [of 0] show ?thesis by (simp add: collect_keys_def)
qed

lemma vk_codes: "\<forall>(k, vk) \<in> set INPUT_KEY_TO_VK. key_code k < 32"
  by (simp add: INPUT_KEY_TO_VK_def)

definition vk_of :: "EInputKey \<Rightarrow> nat" where
  "vk_of k = the (map_of INPUT_KEY_TO_VK k)"

lemma vk_of_entries: "(k, vk) \<in> set INPUT_KEY_TO_VK \<longleftrightarrow> vk = vk_of k"
  by (cases k) (auto simp: INPUT_KEY_TO_VK_def vk_of_def)

lemma JustPressed_def': "JustPressed down key s =
  Inr (down (vk_of key) \<and> \<not> prevKeyStates s key, s\<lparr>prevKeyStates := (prevKeyStates s)(key := down (vk_of key))\<rparr>)"
  by (cases key) (simp_all add: JustPressed_def vk_of_def INPUT_KEY_TO_VK_def)

definition input_inv :: "input_manager \<Rightarrow> bool" where
  "input_inv s \<longleftrightarrow> - (PI / 2) \<le> pitch s \<and> pitch s \<le> PI / 2"

lemma InputManager_Update_result:
  assumes "input_inv s"
  shows "\<exists>s'. InputManager_Update focused isInGame down down2 mx my s = Inr s' \<and> input_inv s' \<and>
    (if focused \<and> isInGame then \<forall>k. bit (keyField s') (key_code k) \<longleftrightarrow> down (vk_of k) else s' = s)"
proof (cases "focused \<and> isInGame")
  case False
  then show ?thesis using assms by (auto simp: InputManager_Update_def)
next
  case True
  define s1 where "s1 = s\<lparr>keyField := collect_keys down INPUT_KEY_TO_VK,
    prevKeyStates := (prevKeyStates s)(Pause := down2 (vk_of Pause))\<rparr>"
  define s2 where "s2 = (if down2 (vk_of Pause) \<and> \<not> prevKeyStates s Pause then TogglePause s1 else s1)"
  have s2: "UpdateKeyField down down2 s = Inr s2"
    by (simp add: UpdateKeyField_def JustPressed_def' s2_def s1_def)
  have r: "InputManager_Update focused isInGame down down2 mx my s = Inr (UpdateMouse mx my s2)"
    using True by (simp add: InputManager_Update_def s2)
  have f: "keyField (UpdateMouse mx my s2) = collect_keys down INPUT_KEY_TO_VK" "pitch s2 = pitch s"
    by (simp_all add: UpdateMouse_def s2_def s1_def TogglePause_def SetMouseVisible_def Let_def)
  have "- (PI / 2) \<le> PI / 2" using PI_bounds by simp
  then have "input_inv (UpdateMouse mx my s2)"
    using assms f(2) unfolding input_inv_def UpdateMouse_def Let_def f32_pitch_bounds clamp_fp_def by auto
  moreover have "\<forall>k. bit (keyField (UpdateMouse mx my s2)) (key_code k) \<longleftrightarrow> down (vk_of k)"
    unfolding f collect_keys_bit [OF vk_codes] by (auto simp: vk_of_entries)
  ultimately show ?thesis using r True by auto
qed

text \<open>
  What an update of the input makes of keys and mouse. It always returns; in a focused window during the game
  the key field has exactly the bits of the keys held down, and the pitch stays within a quarter turn; otherwise nothing
  changes.
\<close>
theorem InputManager_Update_total:
  assumes "input_inv s"
  shows "\<exists>s'. InputManager_Update focused isInGame down down2 mx my s = Inr s' \<and> input_inv s' \<and>
    (if focused \<and> isInGame then \<forall>k. bit (keyField s') (key_code k) \<longleftrightarrow> down (vk_of k) else s' = s)"
  by (rule InputManager_Update_result [OF assms])

lemma InputManager_Update_total_witness:
  "\<exists>s'. InputManager_Update True True (\<lambda>vk. vk = 87) (\<lambda>vk. False) 400 300 InputManager = Inr s' \<and>
     bit (keyField s') (key_code MoveForward) \<and> \<not> bit (keyField s') (key_code Jump)"
proof -
  have "input_inv InputManager" using PI_bounds by (simp add: input_inv_def InputManager_def)
  from InputManager_Update_total [OF this, of True True "\<lambda>vk. vk = 87" "\<lambda>vk. False" 400 300]
  obtain s' where "InputManager_Update True True (\<lambda>vk. vk = 87) (\<lambda>vk. False) 400 300 InputManager = Inr s'"
    and k: "\<forall>k. bit (keyField s') (key_code k) \<longleftrightarrow> vk_of k = 87" by auto
  moreover have "vk_of MoveForward = 87" "vk_of Jump = 32" by (simp_all add: vk_of_def INPUT_KEY_TO_VK_def)
  ultimately show ?thesis using k [rule_format, of MoveForward] k [rule_format, of Jump] by simp
qed

text \<open>An input is captured once: without a change in between the next capture is the empty input.\<close>

lemma CaptureInput_once:
  "CaptureInput t' (snd (CaptureInput t s)) =
     (\<lparr>in_timestamp = 0, in_keyField = 0, in_yaw = 0, in_pitch = 0, in_sequence = 0\<rparr>, snd (CaptureInput t s))"
  by (simp add: CaptureInput_def)

end
