(* ===== verification/Packets.thy ===== *)
theory Packets
  imports Send_Buffer Reliable_Udp
begin

text \<open>
  Packets of the protocol (\<open>ServerPacketHandler.h\<close>): the ids, the tables that map an id to its handler,
  the framing of an outgoing message into a send buffer (\<open>MakeSendBufferImpl\<close>) and the dispatch of an incoming
  one (\<open>HandlePacket\<close>), with the acknowledgement a numbered datagram asks for. Messages are classes generated
  from the protocol description: their bytes and the parser are parameters.
\<close>

section \<open>Packet ids\<close>

datatype packet_class =
    C_LOGIN | S_LOGIN | C_CREATE_ROOM | S_CREATE_ROOM | C_ENTER_ROOM | S_ENTER_ROOM
  | C_SYNC_ROOMLIST | S_SYNC_ROOMLIST | C_ENTER_GAME | S_ENTER_GAME | C_ACK | S_ACK
  | C_HANDSHAKE | S_HANDSHAKE | C_CHAT | S_CHAT | C_SYNC_TIME | S_SYNC_TIME
  | C_SPAWN_ACTOR | S_SPAWN_ACTOR | C_SYNC_ACTOR | S_SYNC_ACTOR
  | C_PLAYER_INPUT | S_PLAYER_INPUT | C_HIT_RESULT | S_HIT_RESULT

fun PKT :: "packet_class \<Rightarrow> uint16" where
  "PKT C_LOGIN = 1000"
| "PKT S_LOGIN = 1001"
| "PKT C_CREATE_ROOM = 1002"
| "PKT S_CREATE_ROOM = 1003"
| "PKT C_ENTER_ROOM = 1004"
| "PKT S_ENTER_ROOM = 1005"
| "PKT C_SYNC_ROOMLIST = 1006"
| "PKT S_SYNC_ROOMLIST = 1007"
| "PKT C_ENTER_GAME = 1008"
| "PKT S_ENTER_GAME = 1009"
| "PKT C_ACK = 1010"
| "PKT S_ACK = 1011"
| "PKT C_HANDSHAKE = 1012"
| "PKT S_HANDSHAKE = 1013"
| "PKT C_CHAT = 1014"
| "PKT S_CHAT = 1015"
| "PKT C_SYNC_TIME = 1016"
| "PKT S_SYNC_TIME = 1017"
| "PKT C_SPAWN_ACTOR = 1018"
| "PKT S_SPAWN_ACTOR = 1019"
| "PKT C_SYNC_ACTOR = 1020"
| "PKT S_SYNC_ACTOR = 1021"
| "PKT C_PLAYER_INPUT = 1022"
| "PKT S_PLAYER_INPUT = 1023"
| "PKT C_HIT_RESULT = 1024"
| "PKT S_HIT_RESULT = 1025"

text \<open>The classes \<open>Init\<close> registers, in its order; both tables get the same ones.\<close>

definition registered :: "packet_class list" where
  "registered =
     [S_LOGIN, S_CREATE_ROOM, S_ENTER_ROOM, S_SYNC_ROOMLIST, S_ENTER_GAME, S_ACK, S_HANDSHAKE, S_CHAT,
      S_SYNC_TIME, S_SPAWN_ACTOR, S_SYNC_ACTOR, S_PLAYER_INPUT, S_HIT_RESULT]"

section \<open>The handler tables\<close>

datatype handler = Handle_INVALID | Handler packet_class

text \<open>An array of \<open>UINT16_MAX\<close> entries: there is none for the index \<open>UINT16_MAX\<close> itself.\<close>

type_synonym handler_table = "nat \<Rightarrow> handler option"

definition UINT16_MAX :: nat where "UINT16_MAX = 65535"

definition ServerPacketHandler_Init :: handler_table where
  "ServerPacketHandler_Init =
     foldl (\<lambda>tab c. tab(unat (PKT c) \<mapsto> Handler c)) (\<lambda>i. if i < UINT16_MAX then Some Handle_INVALID else None) registered"

section \<open>Dispatch\<close>

text \<open>
  The call through the table: the handler parses the bytes behind the header and, when they parse, runs the function
  of the class (the result here); \<open>None\<close> is the answer \<open>false\<close> without a call.
\<close>

definition dispatch ::
  "header_type \<Rightarrow> (packet_class \<Rightarrow> BYTE list \<Rightarrow> 'msg option) \<Rightarrow> BYTE list \<Rightarrow> (packet_class \<times> 'msg) option res" where
  "dispatch h ParseFromArray buffer =
     (case ServerPacketHandler_Init (unat (header_id buffer)) of
        None \<Rightarrow> Inl OutOfBounds
      | Some Handle_INVALID \<Rightarrow> Inr None
      | Some (Handler c) \<Rightarrow>
          (case ParseFromArray c (drop (sizeof_header h) buffer) of
             None \<Rightarrow> Inr None
           | Some pkt \<Rightarrow> Inr (Some (c, pkt))))"

section \<open>Framing a message\<close>

text \<open>The send buffers together with the bytes of their chunks, 6000 each.\<close>

record packet_memory =
  bufs :: send_buffer_manager
  chunk_bytes :: "nat \<Rightarrow> BYTE list"

definition write_chunk :: "nat \<Rightarrow> nat \<Rightarrow> BYTE list \<Rightarrow> packet_memory \<Rightarrow> packet_memory res" where
  "write_chunk k off bs w =
     (if unat SEND_BUFFER_CHUNK_SIZE < off + length bs then Inl OutOfBounds
      else Inr (w\<lparr>chunk_bytes := (chunk_bytes w)(k := store off bs (chunk_bytes w k))\<rparr>))"

text \<open>
  \<open>body\<close> is the serialised message, \<open>ByteSizeLong\<close> its length. \<open>SerializeToArray\<close> returns \<open>false\<close> when the size it is
  given is less than that. The new buffer has the handle \<open>i\<close> on thread \<open>t\<close>.
\<close>

definition MakeSendBufferImpl ::
  "header_type \<Rightarrow> nat \<Rightarrow> nat \<Rightarrow> BYTE list \<Rightarrow> uint16 \<Rightarrow> packet_memory \<Rightarrow> packet_memory res" where
  "MakeSendBufferImpl h t i body pktId w =
     (let dataSize = of_nat (length body) :: uint16;
          packetSize = dataSize + of_nat (sizeof_header h) in
      and_then (mgr_Open t i (ucast packetSize) (bufs w)) (\<lambda>(ob, m).
        case ob of
          None \<Rightarrow> Inl NullDeref
        | Some b \<Rightarrow>
            and_then (write_chunk (owner b) (offset b) (le16_bytes packetSize @ le16_bytes pktId) (w\<lparr>bufs := m\<rparr>)) (\<lambda>w1.
              assert_crash (length body \<le> unat dataSize)
                (and_then (write_chunk (owner b) (offset b + sizeof_header h) body w1) (\<lambda>w2.
                  and_then (buf_Close i (ucast packetSize) (bufs w2)) (\<lambda>m2. Inr (w2\<lparr>bufs := m2\<rparr>)))))))"

text \<open>The overloads: the id is that of the message's class.\<close>

definition MakeSendBufferTcp :: "nat \<Rightarrow> nat \<Rightarrow> BYTE list \<Rightarrow> packet_class \<Rightarrow> packet_memory \<Rightarrow> packet_memory res" where
  "MakeSendBufferTcp t i body c = MakeSendBufferImpl TcpPacketHeader t i body (PKT c)"

definition MakeSendBufferUdp :: "nat \<Rightarrow> nat \<Rightarrow> BYTE list \<Rightarrow> packet_class \<Rightarrow> packet_memory \<Rightarrow> packet_memory res" where
  "MakeSendBufferUdp t i body c = MakeSendBufferImpl UdpPacketHeader t i body (PKT c)"

text \<open>The bytes a live buffer hands to the socket: \<open>WriteSize()\<close> bytes from \<open>Buffer()\<close>.\<close>

definition packet_bytes :: "nat \<Rightarrow> packet_memory \<Rightarrow> BYTE list" where
  "packet_bytes i w =
     (case map_of (live (bufs w)) i of
        None \<Rightarrow> []
      | Some b \<Rightarrow> segment (offset b) (unat (writeSize b)) (chunk_bytes w (owner b)))"

section \<open>Receiving a datagram's packet\<close>

text \<open>
  \<open>HandlePacket<UdpPacketHeader>\<close>: a numbered packet that the receive history takes is acknowledged; the packet is
  dispatched in any case. \<open>ack_body\<close> is the serialised \<open>C_ACK\<close>; the session owns the bytes of its buffers, of
  which the acknowledgement's becomes number \<open>i\<close>.
\<close>

definition acknowledge ::
  "(uint16 \<Rightarrow> uint32 \<Rightarrow> BYTE list) \<Rightarrow> nat \<Rightarrow> nat \<Rightarrow> uint16 \<Rightarrow> packet_memory \<Rightarrow> reliable_udp \<Rightarrow>
   (packet_memory \<times> reliable_udp) res" where
  "acknowledge ack_body t i seq w s =
     (let (accepted, s1) = CheckAndRecordReceiveHistory seq s in
      if accepted then
        and_then (MakeSendBufferUdp t i (ack_body seq (GenerateAckBitfield seq s1)) C_ACK w) (\<lambda>w1.
          Inr (w1, Send i (s1\<lparr>buffer_bytes := (buffer_bytes s1)(i := packet_bytes i w1)\<rparr>)))
      else Inr (w, s1))"

definition HandlePacket_Udp ::
  "(packet_class \<Rightarrow> BYTE list \<Rightarrow> 'msg option) \<Rightarrow> (uint16 \<Rightarrow> uint32 \<Rightarrow> BYTE list) \<Rightarrow> nat \<Rightarrow> nat \<Rightarrow> BYTE list \<Rightarrow>
   packet_memory \<Rightarrow> reliable_udp \<Rightarrow> ((packet_class \<times> 'msg) option \<times> packet_memory \<times> reliable_udp) res" where
  "HandlePacket_Udp ParseFromArray ack_body t i buffer w s =
     (let seq = header_sequence buffer in
      and_then (if seq > 0 then acknowledge ack_body t i seq w s else Inr (w, s)) (\<lambda>(w1, s1).
        and_then (dispatch UdpPacketHeader ParseFromArray buffer) (\<lambda>called. Inr (called, w1, s1))))"

definition HandlePacket_Tcp ::
  "(packet_class \<Rightarrow> BYTE list \<Rightarrow> 'msg option) \<Rightarrow> BYTE list \<Rightarrow> (packet_class \<times> 'msg) option res" where
  "HandlePacket_Tcp ParseFromArray buffer = dispatch TcpPacketHeader ParseFromArray buffer"

text \<open>
  \<open>SendReliable\<close> of a made packet: the number is written into the packet's own bytes in its chunk, and the session
  refers to the packet by its handle.
\<close>

definition SendReliable_packet :: "nat \<Rightarrow> fp \<Rightarrow> packet_memory \<Rightarrow> reliable_udp \<Rightarrow> (packet_memory \<times> reliable_udp) res" where
  "SendReliable_packet i timestamp w s =
     (case map_of (live (bufs w)) i of
        None \<Rightarrow> Inl NullDeref
      | Some b \<Rightarrow>
          and_then (write_chunk (owner b) (offset b + 4) (le16_bytes (sendSeq s)) w) (\<lambda>w'.
            Inr (w', SendReliable i timestamp (s\<lparr>buffer_bytes := (buffer_bytes s)(i := packet_bytes i w)\<rparr>))))"

section \<open>The tables\<close>

lemma PKT_inject: "PKT c = PKT d \<longleftrightarrow> c = d"
  by (cases c; cases d; simp)

lemma unat_PKT_inject [simp]: "unat (PKT c) = unat (PKT d) \<longleftrightarrow> c = d"
  by (simp add: PKT_inject flip: word_unat_eq_iff)

lemma unat_PKT_less: "unat (PKT c) < UINT16_MAX"
  by (cases c; simp add: UINT16_MAX_def)

lemma table_fold:
  "foldl (\<lambda>tab c. tab(unat (PKT c) \<mapsto> Handler c)) tab cs i =
     (if \<exists>c \<in> set cs. unat (PKT c) = i then Some (Handler (THE c. unat (PKT c) = i)) else tab i)"
proof (induction cs arbitrary: tab)
  case (Cons d cs)
  have "(THE c. unat (PKT c) = unat (PKT d)) = d" by (rule the_equality) simp_all
  then show ?case using Cons by auto
qed simp

lemma Init_lookup:
  "ServerPacketHandler_Init i =
     (if UINT16_MAX \<le> i then None
      else if \<exists>c \<in> set registered. unat (PKT c) = i then Some (Handler (THE c. unat (PKT c) = i))
      else Some Handle_INVALID)"
  using unat_PKT_less by (auto simp: ServerPacketHandler_Init_def table_fold not_le)

lemma Init_registered: "c \<in> set registered \<Longrightarrow> ServerPacketHandler_Init (unat (PKT c)) = Some (Handler c)"
proof -
  assume c: "c \<in> set registered"
  have "(THE d. unat (PKT d) = unat (PKT c)) = c" by (rule the_equality) simp_all
  then show ?thesis using c unat_PKT_less [of c] by (auto simp: Init_lookup)
qed

section \<open>What the framing writes\<close>

definition mem_ok :: "packet_memory \<Rightarrow> bool" where
  "mem_ok w \<longleftrightarrow> sm_inv (bufs w) \<and> (\<forall>k. length (chunk_bytes w k) = 6000)"

text \<open>Thread \<open>t\<close> is not in the middle of another packet.\<close>

definition thread_idle :: "nat \<Rightarrow> packet_memory \<Rightarrow> bool" where
  "thread_idle t w \<longleftrightarrow> t \<in> set (threads (bufs w)) \<and>
     (\<forall>k. LSendBufferChunk (bufs w) t = Some k \<longrightarrow> chunk_open (chunks (bufs w) k) = False)"

lemma segment_framed:
  assumes "off + length hdr + length gap + length body \<le> length mem" and "gap = segment (off + length hdr) (length gap) mem"
  shows "segment off (length hdr + length gap + length body)
    (store (off + (length hdr + length gap)) body (store off hdr mem)) = hdr @ gap @ body"
proof -
  have "segment off (length hdr + length gap + length body)
      (store (off + (length hdr + length gap)) body (store off hdr mem)) =
    segment off (length hdr + length gap) (store off hdr mem) @ body"
    using assms(1) by (simp add: segment_append segment_store_before add.assoc)
  also have "segment off (length hdr + length gap) (store off hdr mem) = hdr @ segment (off + length hdr) (length gap) mem"
    using assms(1) by (simp add: segment_append segment_store_after)
  finally show ?thesis using assms(2) by simp
qed

lemma segment_outside_framed:
  assumes "dst + length hdr \<le> e" "dst2 + length body \<le> e" "dst \<le> dst2" "e \<le> length mem"
    and "off + n \<le> dst \<or> e \<le> off"
  shows "segment off n (store dst2 body (store dst hdr mem)) = segment off n mem"
  using assms(5)
proof
  assume "off + n \<le> dst"
  then show ?thesis using assms by (simp add: segment_store_before)
next
  assume "e \<le> off"
  then show ?thesis using assms by (simp add: segment_store_after)
qed

text \<open>The bytes of the packet a call makes, with the bytes of its chunk the call did not write.\<close>

definition framed :: "uint16 \<Rightarrow> BYTE list \<Rightarrow> BYTE list \<Rightarrow> BYTE list" where
  "framed pktId gap body = le16_bytes (of_nat (4 + length gap + length body)) @ le16_bytes pktId @ gap @ body"

lemma unat_ucast_u32: "unat (v :: uint16) = n \<Longrightarrow> unat (ucast v :: uint32) = n"
proof -
  assume v: "unat v = n"
  have "unat v < 2 ^ LENGTH(16)" by (rule unsigned_less)
  then show ?thesis using v by (simp add: unsigned_ucast_eq take_bit_nat_eq_self)
qed

lemma packet_size_fits:
  assumes "length body + sizeof_header h \<le> 6000"
  shows "unat (of_nat (length body) :: uint16) = length body"
    and "unat (ucast ((of_nat (length body) :: uint16) + of_nat (sizeof_header h)) :: uint32) = sizeof_header h + length body"
    and "(of_nat (length body) :: uint16) + of_nat (sizeof_header h) = of_nat (sizeof_header h + length body)"
proof -
  have "unat (of_nat (sizeof_header h + length body) :: uint16) = sizeof_header h + length body"
    using assms by (simp add: unat_of_nat del: of_nat_add)
  then show "unat (ucast ((of_nat (length body) :: uint16) + of_nat (sizeof_header h)) :: uint32) = sizeof_header h + length body"
    using unat_ucast_u32 by (simp add: add.commute)
  show "unat (of_nat (length body) :: uint16) = length body" using assms by (simp add: unat_of_nat)
qed simp

lemma write_chunk_fits:
  "off + length bs \<le> 6000 \<Longrightarrow> write_chunk k off bs w = Inr (w\<lparr>chunk_bytes := (chunk_bytes w)(k := store off bs (chunk_bytes w k))\<rparr>)"
  by (simp add: write_chunk_def SEND_BUFFER_CHUNK_SIZE_def)

lemma MakeSendBuffer_works:
  assumes ok: "mem_ok w" and idle: "thread_idle t w" and i: "i \<notin> fst ` set (live (bufs w))"
    and fits: "length body + sizeof_header h \<le> 6000"
  shows "\<exists>b w'. MakeSendBufferImpl h t i body pktId w = Inr w' \<and> mem_ok w' \<and> thread_idle t w' \<and>
    map_of (live (bufs w')) i = Some b \<and> offset b + sizeof_header h + length body \<le> 6000 \<and>
    packet_bytes i w' = framed pktId (segment (offset b + 4) (sizeof_header h - 4) (chunk_bytes w (owner b))) body \<and>
    (\<forall>j. j \<noteq> i \<longrightarrow> map_of (live (bufs w')) j = map_of (live (bufs w)) j \<and> packet_bytes j w' = packet_bytes j w)"
proof -
  define n where "n = sizeof_header h + length body"
  define sz where "sz = (of_nat (length body) :: uint16) + of_nat (sizeof_header h)"
  have sz: "unat (ucast sz :: uint32) = n" "sz = of_nat n" "unat (of_nat (length body) :: uint16) = length body"
    unfolding sz_def n_def using packet_size_fits [OF fits] by (simp_all only:)
  have n: "4 \<le> sizeof_header h" "n \<le> 6000" using fits by (cases h; simp add: n_def)+
  have "(ucast sz :: uint32) \<le> SEND_BUFFER_CHUNK_SIZE"
    using n sz(1) by (simp add: word_le_nat_alt SEND_BUFFER_CHUNK_SIZE_def)
  with mgr_Open_works [of "bufs w" t i "ucast sz"] ok idle i
  obtain b m where op: "mgr_Open t i (ucast sz) (bufs w) = Inr (Some b, m)" "sm_inv m" "live m = (i, b) # live (bufs w)"
    "allocSize b = ucast sz" "\<not> Send_Buffer.closed b" "region_end b \<le> 6000"
    "LSendBufferChunk m t = Some (owner b)" "threads m = threads (bufs w)"
    unfolding mem_ok_def thread_idle_def by blast
  have e: "offset b + n \<le> 6000" using op(4,5,6) by (simp add: region_end_def sz(1))
  have len: "length (chunk_bytes w k) = 6000" for k using ok by (simp add: mem_ok_def)
  let ?hdr = "le16_bytes sz @ le16_bytes pktId"
  let ?gap = "segment (offset b + 4) (sizeof_header h - 4) (chunk_bytes w (owner b))"
  let ?mem = "store (offset b + sizeof_header h) body (store (offset b) ?hdr (chunk_bytes w (owner b)))"
  have gap: "length ?gap = sizeof_header h - 4" using e n len by (intro length_segment) (simp add: n_def)
  have at: "buf_at m i = Some b" using op(3) by simp
  from buf_Close_works [OF op(2) at op(5), of "ucast sz"] op(4)
  obtain m2 where cl: "buf_Close i (ucast sz) m = Inr m2" "sm_inv m2"
    "buf_at m2 = (buf_at m)(i \<mapsto> b\<lparr>writeSize := ucast sz, closed := True\<rparr>)" "chunk_open (chunks m2 (owner b)) = False"
    "LSendBufferChunk m2 = LSendBufferChunk m" "threads m2 = threads m" by auto
  let ?w' = "\<lparr>bufs = m2, chunk_bytes = (chunk_bytes w)(owner b := ?mem)\<rparr>"
  have run: "MakeSendBufferImpl h t i body pktId w = Inr ?w'"
    using e n op(1) cl(1) sz(3) unfolding MakeSendBufferImpl_def sz_def [symmetric] Let_def
    by (cases w) (simp add: write_chunk_fits n_def)
  have "length ?mem = 6000" using e n len by (simp add: n_def)
  then have "mem_ok ?w'" using cl(2) len by (simp add: mem_ok_def)
  moreover have "thread_idle t ?w'" using idle cl op by (simp add: thread_idle_def)
  moreover have "map_of (live (bufs ?w')) i = Some (b\<lparr>writeSize := ucast sz, closed := True\<rparr>)" using cl(3) by simp
  moreover have "offset (b\<lparr>writeSize := ucast sz, closed := True\<rparr>) + sizeof_header h + length body \<le> 6000"
    using e by (simp add: n_def)
  moreover have "packet_bytes i ?w' = framed pktId (segment (offset (b\<lparr>writeSize := ucast sz, closed := True\<rparr>) + 4) (sizeof_header h - 4)
      (chunk_bytes w (owner (b\<lparr>writeSize := ucast sz, closed := True\<rparr>)))) body"
  proof -
    have "segment (offset b) n ?mem = ?hdr @ ?gap @ body"
      using segment_framed [of "offset b" ?hdr ?gap body "chunk_bytes w (owner b)"] e n len gap by (simp add: n_def add.assoc)
    moreover have "framed pktId ?gap body = ?hdr @ ?gap @ body" using n gap by (simp add: framed_def sz(2) n_def)
    ultimately show ?thesis using cl(3) sz(1) by (simp add: packet_bytes_def)
  qed
  moreover have "map_of (live (bufs ?w')) j = map_of (live (bufs w)) j \<and> packet_bytes j ?w' = packet_bytes j w"
    if j: "j \<noteq> i" for j
  proof (cases "map_of (live (bufs w)) j")
    case None
    then show ?thesis using cl(3) op(3) j by (simp add: packet_bytes_def)
  next
    case (Some c)
    then have c: "buf_at m j = Some c" using op(3) j by simp
    have "segment (offset c) (unat (writeSize c)) ?mem = segment (offset c) (unat (writeSize c)) (chunk_bytes w (owner c))"
      if o: "owner c = owner b"
    proof -
      have D: "disjoint_regions b c" "Send_Buffer.closed c"
        using sm_regionsD(6,7) [of m, OF _ at c] j o op(2,5) by (auto simp: sm_inv_def)
      show ?thesis unfolding o
        by (rule segment_outside_framed [where e = "offset b + n"])
          (use D e n len op(4,5) sz(1) in \<open>auto simp: disjoint_regions_def region_end_def n_def\<close>)
    qed
    then show ?thesis using c cl(3) j Some by (simp add: packet_bytes_def)
  qed
  ultimately show ?thesis using run by blast
qed

lemma MakeSendBuffer_too_long:
  assumes "6000 < length body + sizeof_header h"
  shows "\<exists>e. MakeSendBufferImpl h t i body pktId w = Inl e"
proof (rule ccontr)
  assume "\<not> ?thesis"
  then obtain w' where "MakeSendBufferImpl h t i body pktId w = Inr w'" by (cases "MakeSendBufferImpl h t i body pktId w") auto
  then obtain b :: send_buffer and w1 w2 where st: "write_chunk (owner b) (offset b + sizeof_header h) body w1 = Inr w2"
    unfolding MakeSendBufferImpl_def Let_def
    by (auto simp: and_then_Inr_iff assert_crash_Inr_iff split: option.splits)
  from st have "length body + sizeof_header h \<le> 6000"
    by (auto simp: write_chunk_def SEND_BUFFER_CHUNK_SIZE_def split: if_splits)
  with assms show False by simp
qed

lemma read_u16_framed:
  "header_size (framed pktId gap body) = of_nat (4 + length gap + length body)"
  "header_id (framed pktId gap body) = pktId"
  by (simp_all add: framed_def header_size_def header_id_def read_u16_def le16_bytes_def nth_append del: of_nat_add)

lemma framed_valid:
  assumes "length gap = sizeof_header h - 4" and "length body + sizeof_header h \<le> 6000"
  shows "valid_packet h (framed pktId gap body) \<and> drop (sizeof_header h) (framed pktId gap body) = body"
proof -
  have "4 + length gap = sizeof_header h" using assms(1) by (cases h) simp_all
  moreover have "unat (of_nat (sizeof_header h + length body) :: uint16) = sizeof_header h + length body"
    using assms(2) by (simp add: unat_of_nat del: of_nat_add)
  moreover have "length (framed pktId gap body) = 4 + length gap + length body" by (simp add: framed_def)
  ultimately have "valid_packet h (framed pktId gap body)"
    unfolding valid_packet_def read_u16_framed by (simp del: of_nat_add)
  moreover have "length (le16_bytes (of_nat (4 + length gap + length body)) @ le16_bytes pktId @ gap) = sizeof_header h"
    using \<open>4 + length gap = sizeof_header h\<close> by simp
  then have "drop (sizeof_header h) (framed pktId gap body) = body"
    unfolding framed_def by (metis append.assoc append_eq_conv_conj)
  ultimately show ?thesis ..
qed

lemma dispatch_framed:
  assumes "length gap = sizeof_header h - 4" and "length body + sizeof_header h \<le> 6000"
  shows "dispatch h P (framed (PKT c) gap body) =
    Inr (if c \<in> set registered then map_option (Pair c) (P c body) else None)"
proof (cases "c \<in> set registered")
  case True
  then show ?thesis using framed_valid [OF assms]
    by (simp add: dispatch_def read_u16_framed Init_registered split: option.splits)
next
  case False
  then have "ServerPacketHandler_Init (unat (PKT c)) = Some Handle_INVALID"
    using unat_PKT_less [of c] by (auto simp: Init_lookup)
  with False show ?thesis by (simp add: dispatch_def read_u16_framed)
qed

text \<open>A numbered packet has the number in its own bytes, and the session refers to these bytes.\<close>

lemma SendReliable_packet_works:
  assumes "mem_ok w" and "map_of (live (bufs w)) i = Some b" and "offset b + 6 \<le> 6000"
  shows "\<exists>w' s'. SendReliable_packet i timestamp w s = Inr (w', s') \<and> mem_ok w' \<and> bufs w' = bufs w \<and>
    s' = SendReliable i timestamp (s\<lparr>buffer_bytes := (buffer_bytes s)(i := packet_bytes i w)\<rparr>)"
  using assms by (simp add: SendReliable_packet_def write_chunk_fits mem_ok_def)

section \<open>Between packets\<close>

text \<open>No chunk is open: no thread is in the middle of a packet.\<close>

definition quiet :: "packet_memory \<Rightarrow> bool" where
  "quiet w \<longleftrightarrow> (\<forall>k. chunk_open (chunks (bufs w) k) = False)"

lemma mgr_Pop_quiet:
  assumes "\<forall>k. chunk_open (chunks m k) = False" and "mgr_Pop m = (k, m1)"
  shows "(\<forall>k. chunk_open (chunks m1 k) = False) \<and> threads m1 = threads m"
  using assms by (auto simp: mgr_Pop_def SendBufferChunk_def split: if_splits)

lemma swap_chunk_quiet:
  assumes "\<forall>k. chunk_open (chunks m k) = False"
  shows "chunk_open (chunks (swap_chunk t m) j) = False" and "threads (swap_chunk t m) = threads m"
proof -
  obtain k m1 where pop: "mgr_Pop m = (k, m1)" by fastforce
  define m2 where "m2 = m1\<lparr>LSendBufferChunk := (LSendBufferChunk m1)(t := Some k)\<rparr>"
  define m3 where "m3 = (case LSendBufferChunk m1 t of None \<Rightarrow> m2 | Some o' \<Rightarrow> drop_chunk o' m2)"
  have m3: "chunks m3 = chunks m1" "threads m3 = threads m1"
    by (simp_all add: m3_def m2_def drop_chunk_simps split: option.split)
  have "swap_chunk t m = m3\<lparr>chunks := (chunks m3)(k := chunk_Reset (chunks m3 k))\<rparr>"
    by (simp only: swap_chunk_def pop m3_def m2_def Let_def prod.case)
  then show "chunk_open (chunks (swap_chunk t m) j) = False" and "threads (swap_chunk t m) = threads m"
    using mgr_Pop_quiet [OF assms pop] by (simp_all add: m3 chunk_Reset_def)
qed

lemma mgr_Open_quiet:
  assumes "mgr_Open t i sz m = Inr (Some b, m')" and "\<forall>k. chunk_open (chunks m k) = False"
  shows "k \<noteq> owner b \<Longrightarrow> chunk_open (chunks m' k) = False" and "threads m' = threads m" and "map_of (live m') i = Some b"
proof -
  let ?m2 = "ensure_room t sz (ensure_chunk t m)"
  have q: "chunk_open (chunks ?m2 j) = False" "threads ?m2 = threads m" for j
    using assms(2) by (simp_all add: ensure_room_def ensure_chunk_def swap_chunk_quiet)
  from assms(1) obtain c where "b = \<lparr>owner = thread_chunk t ?m2, offset = unat (usedSize (chunks ?m2 (thread_chunk t ?m2))),
      allocSize = sz, writeSize = 0, closed = False\<rparr>"
    and "m' = ?m2\<lparr>chunks := (chunks ?m2)(thread_chunk t ?m2 := c), live := (i, b) # live ?m2\<rparr>"
    by (auto simp: mgr_Open_unfold Let_def assert_crash_Inr_iff and_then_Inr_iff chunk_Open_def split: if_splits option.splits)
  then show "k \<noteq> owner b \<Longrightarrow> chunk_open (chunks m' k) = False" and "threads m' = threads m" and "map_of (live m') i = Some b"
    using q by simp_all
qed

lemma MakeSendBuffer_quiet:
  assumes "MakeSendBufferImpl h t i body pktId w = Inr w'" and "quiet w"
  shows "quiet w' \<and> threads (bufs w') = threads (bufs w)"
proof -
  from assms(1) obtain b :: send_buffer and m and sz :: uint32 and w1 w2 m2 and o1 o2 bs1 bs2 where
    op: "mgr_Open t i sz (bufs w) = Inr (Some b, m)"
    and wr: "write_chunk (owner b) o1 bs1 (w\<lparr>bufs := m\<rparr>) = Inr w1" "write_chunk (owner b) o2 bs2 w1 = Inr w2"
    and cl: "buf_Close i sz (bufs w2) = Inr m2" and w': "w' = w2\<lparr>bufs := m2\<rparr>"
    by (auto simp: MakeSendBufferImpl_def Let_def and_then_Inr_iff assert_crash_Inr_iff split: option.splits)
  have b2: "bufs w2 = m" using wr by (auto simp: write_chunk_def split: if_splits)
  note q = mgr_Open_quiet [OF op assms(2) [unfolded quiet_def]]
  have "chunks m2 = (chunks m)(owner b := chunks m2 (owner b))" "chunk_open (chunks m2 (owner b)) = False" "threads m2 = threads m"
    using cl q(3) by (auto simp: b2 buf_Close_def assert_crash_Inr_iff and_then_Inr_iff chunk_Close_def)
  then have "chunk_open (chunks m2 k) = False" for k using q(1) by (cases "k = owner b") (simp, metis fun_upd_other)
  then show ?thesis using q(2) \<open>threads m2 = threads m\<close> by (simp add: quiet_def w')
qed

text \<open>The memory between two packets of the threads \<open>Ts\<close>, when handles below \<open>n\<close> have been given out.\<close>

definition buffers_ok :: "nat set \<Rightarrow> packet_memory \<Rightarrow> nat \<Rightarrow> bool" where
  "buffers_ok Ts w n \<longleftrightarrow> mem_ok w \<and> quiet w \<and> Ts \<subseteq> set (threads (bufs w)) \<and> fst ` set (live (bufs w)) \<subseteq> {..<n}"

lemma buffers_ok_idle: "buffers_ok Ts w n \<Longrightarrow> t \<in> Ts \<Longrightarrow> mem_ok w \<and> thread_idle t w \<and> n \<notin> fst ` set (live (bufs w))"
  by (auto simp: buffers_ok_def quiet_def thread_idle_def)

lemma new_packet:
  assumes "buffers_ok Ts w n" and "t \<in> Ts" and "length body + sizeof_header h \<le> 6000"
  shows "\<exists>b w' gap. MakeSendBufferImpl h t n body pktId w = Inr w' \<and> buffers_ok Ts w' (Suc n) \<and>
    map_of (live (bufs w')) n = Some b \<and> offset b + sizeof_header h \<le> 6000 \<and>
    length gap = sizeof_header h - 4 \<and> packet_bytes n w' = framed pktId gap body"
proof -
  note w = buffers_ok_idle [OF assms(1,2)]
  from MakeSendBuffer_works [OF _ _ _ assms(3), of w t n pktId] w obtain b :: send_buffer and w' where
    w': "MakeSendBufferImpl h t n body pktId w = Inr w'" "mem_ok w'" "map_of (live (bufs w')) n = Some b"
    "offset b + sizeof_header h + length body \<le> 6000"
    "packet_bytes n w' = framed pktId (segment (offset b + 4) (sizeof_header h - 4) (chunk_bytes w (owner b))) body"
    "\<forall>j. j \<noteq> n \<longrightarrow> map_of (live (bufs w')) j = map_of (live (bufs w)) j"
    by blast
  have "quiet w' \<and> threads (bufs w') = threads (bufs w)"
    using MakeSendBuffer_quiet [OF w'(1)] assms(1) by (simp add: buffers_ok_def)
  moreover have "fst ` set (live (bufs w')) \<subseteq> {..<Suc n}"
  proof
    fix j assume "j \<in> fst ` set (live (bufs w'))"
    then have "j \<in> dom (map_of (live (bufs w')))" by (simp add: dom_map_of_conv_image_fst)
    then have "j = n \<or> j \<in> dom (map_of (live (bufs w)))" using w'(6) by (cases "j = n") auto
    then show "j \<in> {..<Suc n}" using assms(1) by (auto simp: buffers_ok_def dom_map_of_conv_image_fst)
  qed
  moreover have "length (segment (offset b + 4) (sizeof_header h - 4) (chunk_bytes w (owner b))) = sizeof_header h - 4"
    using w'(4) w by (intro length_segment) (cases h; simp add: mem_ok_def)
  ultimately show ?thesis using w' assms(1) by (auto simp: buffers_ok_def)
qed

lemma buffers_ok_same_bufs: "buffers_ok Ts w n \<Longrightarrow> mem_ok w' \<Longrightarrow> bufs w' = bufs w \<Longrightarrow> buffers_ok Ts w' n"
  by (simp add: buffers_ok_def quiet_def)

lemma fresh_memory_buffers_ok: "buffers_ok (set ts) \<lparr>bufs = SendBufferManager ts, chunk_bytes = (\<lambda>_. replicate 6000 v)\<rparr> n"
  using sm_inv_init [of ts] by (simp add: buffers_ok_def quiet_def mem_ok_def SendBufferManager_def SendBufferChunk_def)

section \<open>Properties\<close>

text \<open>
  C20: framing a message. On an idle thread \<open>MakeSendBuffer\<close> succeeds exactly when header and message together have
  at most 6000 bytes, and crashes otherwise (also when the 16-bit size wraps). On success the new buffer holds size, id,
  bytes the call does not write, and message; every other live packet keeps its bytes.
\<close>
theorem MakeSendBuffer_frames:
  assumes "mem_ok w" and "thread_idle t w" and "i \<notin> fst ` set (live (bufs w))"
  shows "if length body + sizeof_header h \<le> 6000
    then \<exists>w' gap. MakeSendBufferImpl h t i body pktId w = Inr w' \<and> mem_ok w' \<and> thread_idle t w' \<and>
      length gap = sizeof_header h - 4 \<and> packet_bytes i w' = framed pktId gap body \<and>
      (\<forall>j. j \<noteq> i \<longrightarrow> packet_bytes j w' = packet_bytes j w)
    else \<exists>e. MakeSendBufferImpl h t i body pktId w = Inl e"
proof (cases "length body + sizeof_header h \<le> 6000")
  case True
  from MakeSendBuffer_works [OF assms True, of pktId] obtain b :: send_buffer and w' where
    w': "MakeSendBufferImpl h t i body pktId w = Inr w'" "mem_ok w'" "thread_idle t w'"
    "offset b + sizeof_header h + length body \<le> 6000"
    "packet_bytes i w' = framed pktId (segment (offset b + 4) (sizeof_header h - 4) (chunk_bytes w (owner b))) body"
    "\<forall>j. j \<noteq> i \<longrightarrow> map_of (live (bufs w')) j = map_of (live (bufs w)) j \<and> packet_bytes j w' = packet_bytes j w"
    by blast
  have "offset b + sizeof_header h \<le> 6000" using w'(4) by simp
  then have "length (segment (offset b + 4) (sizeof_header h - 4) (chunk_bytes w (owner b))) = sizeof_header h - 4"
    using assms(1) by (cases h) (simp_all add: mem_ok_def)
  with True w' show ?thesis by auto
next
  case False
  then show ?thesis using MakeSendBuffer_too_long [of body h t i pktId w] by simp
qed

text \<open>Two packets of one thread, into a fresh memory.\<close>

definition fresh_memory :: "nat \<Rightarrow> packet_memory" where
  "fresh_memory v = \<lparr>bufs = SendBufferManager [0], chunk_bytes = (\<lambda>_. replicate 6000 (of_nat v))\<rparr>"

lemma fresh_memory_ok: "mem_ok (fresh_memory v)" "thread_idle 0 (fresh_memory v)" "i \<notin> fst ` set (live (bufs (fresh_memory v)))"
  using sm_inv_init [of "[0]"] by (simp_all add: mem_ok_def thread_idle_def fresh_memory_def SendBufferManager_def)

lemma MakeSendBuffer_frames_witness:
  "\<exists>w'. MakeSendBufferImpl TcpPacketHeader 0 0 [1, 2, 3] 1000 (fresh_memory 0) = Inr w' \<and>
     packet_bytes 0 w' = [7, 0, 232, 3, 1, 2, 3]"
proof -
  from MakeSendBuffer_frames [OF fresh_memory_ok, of "[1, 2, 3]" TcpPacketHeader 0 1000 0]
  obtain w' where "MakeSendBufferImpl TcpPacketHeader 0 0 [1, 2, 3] 1000 (fresh_memory 0) = Inr w'"
    "packet_bytes 0 w' = framed 1000 [] [1, 2, 3]" by auto
  moreover have "framed 1000 [] [1, 2, 3] = [7, 0, 232, 3, 1, 2, 3]" by code_simp
  ultimately show ?thesis by simp
qed

text \<open>
  C21: what was framed is what is dispatched. The packets of messages that fit a chunk, sent one after
  the other over a stream, are cut apart again by the parsing loop, consume it all, and each is dispatched to the function of its
  class with the parse of its message; a class nobody registered (all of the client's own) is refused.
\<close>
theorem framed_stream_dispatch:
  assumes "\<forall>(c, body) \<in> set ps. length body + 4 \<le> 6000"
  shows "let packets = map (\<lambda>(c, body). framed (PKT c) [] body) ps in
    parse TcpPacketHeader (concat packets) = (packets, length (concat packets)) \<and>
    map (HandlePacket_Tcp P) packets =
      map (\<lambda>(c, body). Inr (if c \<in> set registered then map_option (Pair c) (P c body) else None)) ps"
proof -
  let ?packets = "map (\<lambda>(c, body). framed (PKT c) [] body) ps"
  have "\<forall>p \<in> set ?packets. valid_packet TcpPacketHeader p"
    using assms framed_valid [of "[]" TcpPacketHeader] by auto
  from parse_complete [OF this, of "[]"]
  have "parse TcpPacketHeader (concat ?packets) = (?packets, length (concat ?packets))" by (simp add: packet_ready_def)
  moreover have "map (HandlePacket_Tcp P) ?packets =
      map (\<lambda>(c, body). Inr (if c \<in> set registered then map_option (Pair c) (P c body) else None)) ps"
  proof (rule map_cong [where xs = ps and ys = ps, OF refl, THEN trans [OF map_map], unfolded comp_def])
    fix p assume "p \<in> set ps"
    then have "length (snd p) + 4 \<le> 6000" using assms by auto
    then show "HandlePacket_Tcp P (case p of (c, body) \<Rightarrow> framed (PKT c) [] body) =
      (case p of (c, body) \<Rightarrow> Inr (if c \<in> set registered then map_option (Pair c) (P c body) else None))"
      using dispatch_framed [of "[]" TcpPacketHeader "snd p" P "fst p"] by (simp add: HandlePacket_Tcp_def case_prod_beta)
  qed
  ultimately show ?thesis unfolding Let_def ..
qed

lemma framed_stream_dispatch_witness:
  "map (HandlePacket_Tcp (\<lambda>c body. if body = [9] then Some (length body) else None))
     (map (\<lambda>(c, body). framed (PKT c) [] body) [(S_LOGIN, [9]), (S_CHAT, []), (C_CHAT, [9])]) =
   [Inr (Some (S_LOGIN, 1)), Inr None, Inr None]"
  using framed_stream_dispatch [of "[(S_LOGIN, [9]), (S_CHAT, []), (C_CHAT, [9])]"
      "\<lambda>c body. if body = [9] then Some (length body) else None"]
  by (simp add: registered_def)

text \<open>
  The only id the dispatch cannot look up. For every packet it returns, except for the id
  65535, for which it reads past the end of its table.
\<close>
theorem dispatch_fault_iff:
  "dispatch h P buffer = Inl e \<longleftrightarrow> header_id buffer = - 1 \<and> e = OutOfBounds"
proof -
  have "unat (header_id buffer) < 2 ^ LENGTH(16)" by (rule unsigned_less)
  then have "UINT16_MAX \<le> unat (header_id buffer) \<longleftrightarrow> unat (header_id buffer) = unat (- 1 :: uint16)"
    by (auto simp: UINT16_MAX_def unsigned_minus_1_eq_mask mask_eq_exp_minus_1)
  then have "ServerPacketHandler_Init (unat (header_id buffer)) = None \<longleftrightarrow> header_id buffer = - 1"
    unfolding Init_lookup word_unat_eq_iff [symmetric] by simp
  then show ?thesis by (auto simp: dispatch_def split: option.splits handler.splits)
qed

text \<open>The four bytes the framing writes of an unnumbered datagram leave its sequence field as it was in the chunk.\<close>

lemma sequence_of_framed:
  "length gap = 2 \<Longrightarrow> header_sequence (framed pktId gap body) = read_u16 gap 0"
  by (cases gap; cases "tl gap")
    (simp_all add: framed_def header_sequence_def read_u16_def le16_bytes_def nth_append)

text \<open>
  An unnumbered datagram is not sent with sequence 0. \<open>MakeSendBufferUdp\<close> leaves the sequence field as
  the bytes the chunk held there, so a reused chunk gives a packet the number of an older one, and the peer treats it as reliable.
\<close>
theorem unreliable_sequence_stale:
  assumes "mem_ok w" and "thread_idle t w" and "i \<notin> fst ` set (live (bufs w))" and "length body \<le> 5994"
  shows "\<exists>w' b. MakeSendBufferUdp t i body c w = Inr w' \<and> map_of (live (bufs w')) i = Some b \<and>
    header_sequence (packet_bytes i w') = read_u16 (chunk_bytes w (owner b)) (offset b + 4)"
proof -
  have fits: "length body + sizeof_header UdpPacketHeader \<le> 6000" using assms(4) by simp
  from MakeSendBuffer_works [OF assms(1-3) fits, of "PKT c"] obtain b :: send_buffer and w' where
    w': "MakeSendBufferImpl UdpPacketHeader t i body (PKT c) w = Inr w'" "map_of (live (bufs w')) i = Some b"
    "offset b + 6 \<le> 6000" "packet_bytes i w' = framed (PKT c) (segment (offset b + 4) 2 (chunk_bytes w (owner b))) body"
    by auto
  have len: "length (chunk_bytes w (owner b)) = 6000" using assms(1) by (simp add: mem_ok_def)
  have "read_u16 (segment (offset b + 4) 2 (chunk_bytes w (owner b))) 0 = read_u16 (chunk_bytes w (owner b)) (offset b + 4)"
    using w'(3) len by (simp add: segment_def read_u16_def)
  then have "header_sequence (packet_bytes i w') = read_u16 (chunk_bytes w (owner b)) (offset b + 4)"
    using w'(3,4) len by (simp add: sequence_of_framed)
  with w'(1,2) show ?thesis by (auto simp: MakeSendBufferUdp_def)
qed

lemma unreliable_sequence_stale_witness:
  "\<exists>w'. MakeSendBufferUdp 0 0 [] C_CHAT (fresh_memory 7) = Inr w' \<and> header_sequence (packet_bytes 0 w') = 1799"
proof -
  from unreliable_sequence_stale [OF fresh_memory_ok, of "[]" 0 C_CHAT 7]
  obtain w' b where w': "MakeSendBufferUdp 0 0 [] C_CHAT (fresh_memory 7) = Inr w'" "map_of (live (bufs w')) 0 = Some (b :: send_buffer)"
    "header_sequence (packet_bytes 0 w') = read_u16 (chunk_bytes (fresh_memory 7) (owner b)) (offset b + 4)" by auto
  from MakeSendBuffer_works [OF fresh_memory_ok, of "[]" UdpPacketHeader 0 "PKT C_CHAT" 7] w'(1,2)
  have "offset b + 6 \<le> 6000" by (auto simp: MakeSendBufferUdp_def)
  then have "header_sequence (packet_bytes 0 w') = le16 7 7" using w'(3) by (simp add: read_u16_def fresh_memory_def)
  moreover have "le16 7 7 = 1799" by code_simp
  ultimately show ?thesis using w'(1) by auto
qed

text \<open>
  A datagram that comes twice is handled twice and acknowledged once. After any numbered
  packet, the same packet again leaves session and buffers as they are, sends nothing, and is dispatched with the same result.
\<close>
theorem duplicate_dispatched_again:
  assumes "HandlePacket_Udp P ack t i buffer w s = Inr (called, w1, s1)" and "history_wf s"
  shows "header_sequence buffer = 0 \<or> HandlePacket_Udp P ack t' i' buffer w1 s1 = Inr (called, w1, s1)"
proof (cases "header_sequence buffer = 0")
  case False
  define seq where "seq = header_sequence buffer"
  have pos: "0 < seq" using False by (simp add: seq_def word_neq_0_conv)
  obtain ok s0 where c: "CheckAndRecordReceiveHistory seq s = (ok, s0)" by fastforce
  have first: "acknowledge ack t i seq w s = Inr (w1, s1)" and d: "dispatch UdpPacketHeader P buffer = Inr called"
    using assms(1) pos by (auto simp: HandlePacket_Udp_def seq_def and_then_Inr_iff)
  have "CheckAndRecordReceiveHistory seq s1 = (False, s1)"
  proof (cases ok)
    case True
    then have "receiveHistory s1 = receiveHistory s0"
      using first c by (auto simp: acknowledge_def and_then_Inr_iff Send_def RegisterSend_def)
    moreover have "recorded s0 seq" using CheckAndRecord_cases(3) [OF c assms(2) True] by simp
    ultimately show ?thesis by (intro recorded_rejected) (simp add: recorded_def)
  next
    case False
    then have "s0 = s" using CheckAndRecord_cases(2) [OF c assms(2)] by simp
    then show ?thesis using first c False by (simp add: acknowledge_def)
  qed
  then show ?thesis using pos d by (simp add: HandlePacket_Udp_def acknowledge_def seq_def [symmetric])
qed simp

definition sample_datagram :: "BYTE list" where
  "sample_datagram = framed (PKT S_CHAT) [1, 0] []"

lemma duplicate_dispatched_again_witness:
  "\<exists>w1 s1. HandlePacket_Udp (\<lambda>c body. Some ()) (\<lambda>seq field. [1]) 0 0 sample_datagram (fresh_memory 0)
       (ReliableUdpSession True (\<lambda>_. [])) = Inr (Some (S_CHAT, ()), w1, s1) \<and> length (datagrams s1) = 1 \<and>
     HandlePacket_Udp (\<lambda>c body. Some ()) (\<lambda>seq field. [1]) 0 1 sample_datagram w1 s1 = Inr (Some (S_CHAT, ()), w1, s1)"
proof -
  let ?s = "ReliableUdpSession True (\<lambda>_. [])"
  have seq: "header_sequence sample_datagram = 1"
    unfolding sample_datagram_def by (subst sequence_of_framed) (simp_all add: read_u16_def le16_def)
  have d: "dispatch UdpPacketHeader (\<lambda>c body. Some ()) sample_datagram = Inr (Some (S_CHAT, ()))"
    unfolding sample_datagram_def by (subst dispatch_framed) (simp_all add: registered_def)
  obtain w1 where w1: "MakeSendBufferUdp 0 0 [1] C_ACK (fresh_memory 0) = Inr w1"
    using MakeSendBuffer_works [OF fresh_memory_ok, of "[1]" UdpPacketHeader 0 "PKT C_ACK" 0] by (auto simp: MakeSendBufferUdp_def)
  have g: "IsSeqGreater 1 (0 - 1024)" by code_simp
  have "\<not> recorded ?s 1" by (simp add: recorded_def ReliableUdpSession_def)
  then have c: "fst (CheckAndRecordReceiveHistory 1 ?s)" "datagrams (snd (CheckAndRecordReceiveHistory 1 ?s)) = []"
    "socket_open (snd (CheckAndRecordReceiveHistory 1 ?s))"
    using g by (simp_all add: CheckAndRecordReceiveHistory_def recorded_def ReliableUdpSession_def)
  obtain s1 where first: "HandlePacket_Udp (\<lambda>c body. Some ()) (\<lambda>seq field. [1]) 0 0 sample_datagram (fresh_memory 0) ?s =
      Inr (Some (S_CHAT, ()), w1, s1)" and l: "length (datagrams s1) = 1"
    using c by (simp add: HandlePacket_Udp_def seq d acknowledge_def case_prod_beta w1 Send_def)
  from duplicate_dispatched_again [OF first history_wf_new, of 0 1] seq
  have "HandlePacket_Udp (\<lambda>c body. Some ()) (\<lambda>seq field. [1]) 0 1 sample_datagram w1 s1 = Inr (Some (S_CHAT, ()), w1, s1)" by simp
  with first l show ?thesis by blast
qed

end
