(* ===== verification/Player.thy ===== *)
theory Player
  imports Actors Input_Manager Packets
begin

text \<open>
  The local player (\<open>Player.h\<close>, \<open>Player.cpp\<close>): it numbers every new input, sends it, applies it at
  once, and keeps it until the server has acknowledged it; a state from the server corrects the drawn state and the
  inputs the server had not seen are applied again. The cosine and sine of the C library and the
  rotation of the muzzle (glm) are parameters, as is the serialised input message.
\<close>

section \<open>State\<close>

record player =
  player_base :: actor_data
  pendingInputs :: "player_input list"
  lastSequenceNumber :: uint32
  player_renderPosition :: vec3
  player_renderRotation :: vec3
  player_renderVelocity :: vec3

definition Player :: player where
  "Player = \<lparr>player_base = Actor, pendingInputs = [], lastSequenceNumber = 0, player_renderPosition = Vec3 0 0 0,
     player_renderRotation = Vec3 0 0 0, player_renderVelocity = Vec3 0 0 0\<rparr>"

definition Player_Init :: "player \<Rightarrow> player" where
  "Player_Init p = p\<lparr>player_base := Actor_Init (player_base p)\<rparr>"

text \<open>What the player talks to: the packets' memory and the UDP session of the session manager.\<close>

record udp_link =
  link_memory :: packet_memory
  link_session :: "reliable_udp option"

section \<open>Prediction\<close>

definition key_held :: "uint32 \<Rightarrow> EInputKey \<Rightarrow> bool" where
  "key_held field k \<longleftrightarrow> field AND push_bit (key_code k) 1 \<noteq> 0"

text \<open>Later tests overwrite earlier ones: backward wins over forward, right over left.\<close>

definition move_direction :: "uint32 \<Rightarrow> vec3" where
  "move_direction field =
     (let dz = (if key_held field MoveForward then 1 else 0);
          dz = (if key_held field MoveBackward then - 1 else dz);
          dx = (if key_held field MoveLeft then 1 else 0);
          dx = (if key_held field MoveRight then - 1 else dx);
          dir = Vec3 dx 0 dz
      in if 0 < vec3_LengthSquared dir then vec3_Normalize dir else dir)"

definition ProcessKeyField :: "(fp \<Rightarrow> fp) \<Rightarrow> (fp \<Rightarrow> fp) \<Rightarrow> uint32 \<Rightarrow> player \<Rightarrow> player" where
  "ProcessKeyField cosf sinf field p =
     (let dir = move_direction field;
          a = - v3y (act_rotation (player_base p));
          rx = f32 (f32 (v3x dir * cosf a) - f32 (v3z dir * sinf a));
          rz = f32 (f32 (v3x dir * sinf a) + f32 (v3z dir * cosf a));
          speed = act_moveSpeed (player_base p)
      in p\<lparr>player_renderVelocity := (player_renderVelocity p)\<lparr>v3x := f32 (rx * speed), v3z := f32 (rz * speed)\<rparr>\<rparr>)"

definition ApplyInput :: "(fp \<Rightarrow> fp) \<Rightarrow> (fp \<Rightarrow> fp) \<Rightarrow> player_input \<Rightarrow> player \<Rightarrow> player" where
  "ApplyInput cosf sinf input p =
     (let p1 = ProcessKeyField cosf sinf (in_keyField input) p
      in p1\<lparr>player_renderPosition := vec3_plus (player_renderPosition p1)
             (vec3_times (player_renderVelocity p1) (f32 LOGIC_TICK_INTERVAL))\<rparr>)"

section \<open>Sending an input\<close>

text \<open>\<open>body\<close> gives the bytes of the input message; the buffer is the one with handle \<open>i\<close> on thread \<open>t\<close>.\<close>

definition SendInputToServer ::
  "(uint32 \<Rightarrow> uint32 \<Rightarrow> uint32 \<Rightarrow> fp \<Rightarrow> BYTE list) \<Rightarrow> fp \<Rightarrow> nat \<Rightarrow> nat \<Rightarrow> player_input \<Rightarrow> udp_link \<Rightarrow> udp_link res" where
  "SendInputToServer body clientTime t i input l =
     and_then (PackRotation (in_yaw input) (in_pitch input)) (\<lambda>yaw_pitch.
     and_then (MakeSendBufferUdp t i (body (in_sequence input) (in_keyField input) yaw_pitch (in_timestamp input))
         C_PLAYER_INPUT (link_memory l)) (\<lambda>w.
     case link_session l of
       None \<Rightarrow> Inr (l\<lparr>link_memory := w\<rparr>)
     | Some s \<Rightarrow> and_then (SendReliable_packet i clientTime w s) (\<lambda>(w', s'). Inr \<lparr>link_memory = w', link_session = Some s'\<rparr>)))"

text \<open>\<open>Update\<close>, once per logic tick; the client clock is read for the input and again for the send.\<close>

definition Player_Update ::
  "(fp \<Rightarrow> fp) \<Rightarrow> (fp \<Rightarrow> fp) \<Rightarrow> (uint32 \<Rightarrow> uint32 \<Rightarrow> uint32 \<Rightarrow> fp \<Rightarrow> BYTE list) \<Rightarrow> fp \<Rightarrow> fp \<Rightarrow> nat \<Rightarrow> nat \<Rightarrow>
   player \<Rightarrow> input_manager \<Rightarrow> udp_link \<Rightarrow> (player \<times> input_manager \<times> udp_link) res" where
  "Player_Update cosf sinf body clientTime clientTime2 t i p im l =
     (let (input, im') = CaptureInput clientTime im in
      if in_timestamp input \<noteq> 0 then
        (let input' = input\<lparr>in_sequence := lastSequenceNumber p\<rparr>;
             p1 = p\<lparr>lastSequenceNumber := lastSequenceNumber p + 1, pendingInputs := pendingInputs p @ [input']\<rparr>
         in and_then (SendInputToServer body clientTime2 t i input' l) (\<lambda>l'.
              Inr (ApplyInput cosf sinf input' p1, im', l')))
      else Inr (p, im', l))"

section \<open>Reconciliation\<close>

text \<open>The drawn position is snapped to the server's when they are far apart, and pulled half way otherwise.\<close>

definition correct_position :: "vec3 \<Rightarrow> vec3 \<Rightarrow> vec3 res" where
  "correct_position position render =
     (if SMOOTH_THRESHOLD < vec3_Length (vec3_minus position render) then Inr position
      else
        and_then (CompressPosition (v3x position)) (\<lambda>cx.
        and_then (CompressPosition (v3y position)) (\<lambda>cy.
        and_then (CompressPosition (v3z position)) (\<lambda>cz.
          let err = vec3_minus position (Vec3 (ExpandPosition cx) (ExpandPosition cy) (ExpandPosition cz))
          in Inr (vec3_Lerp (vec3_plus render err) position SMOOTH_FACTOR)))))"

definition correct_rotation :: "vec3 \<Rightarrow> vec3 \<Rightarrow> vec3" where
  "correct_rotation rotation render =
     (if 1 < \<bar>f32 (v3y rotation - v3y render)\<bar> \<or> 1 < \<bar>f32 (v3x rotation - v3x render)\<bar> then rotation
      else render\<lparr>v3y := LerpAngle (v3y render) (v3y rotation) SMOOTH_FACTOR,
                  v3x := Lerp (v3x render) (v3x rotation) SMOOTH_FACTOR\<rparr>)"

fun replay :: "(fp \<Rightarrow> fp) \<Rightarrow> (fp \<Rightarrow> fp) \<Rightarrow> uint32 \<Rightarrow> player_input list \<Rightarrow> player \<Rightarrow> player" where
  "replay cosf sinf ackSequence [] p = p"
| "replay cosf sinf ackSequence (i # is) p =
     replay cosf sinf ackSequence is (if in_sequence i > ackSequence then ApplyInput cosf sinf i p else p)"

definition Reconcile ::
  "(fp \<Rightarrow> fp) \<Rightarrow> (fp \<Rightarrow> fp) \<Rightarrow> uint64 \<Rightarrow> uint64 \<Rightarrow> uint32 \<Rightarrow> uint32 \<Rightarrow> player \<Rightarrow> player res" where
  "Reconcile cosf sinf position velocity_speed rotation ackSequence p =
     (let b = SetTransform position velocity_speed rotation (player_base p) in
      and_then (correct_position (act_position b) (player_renderPosition p)) (\<lambda>pos.
        let p1 = p\<lparr>player_base := b, player_renderPosition := pos,
                   player_renderRotation := correct_rotation (act_rotation b) (player_renderRotation p)\<rparr>;
            p2 = replay cosf sinf ackSequence (pendingInputs p1) p1
        in Inr (p2\<lparr>pendingInputs := filter (\<lambda>i. \<not> in_sequence i \<le> ackSequence) (pendingInputs p2)\<rparr>)))"

section \<open>Drawing and firing\<close>

definition Player_Render :: "player \<Rightarrow> draw list" where
  "Player_Render p =
     [UpdateCamera (player_renderPosition p) (v3y (player_renderRotation p)) (v3x (player_renderRotation p)),
      DrawCube (player_renderPosition p) (Vec3 0 (v3y (player_renderRotation p)) 0) (act_color (player_base p))]"

definition GetPlayerDirection :: "(fp \<Rightarrow> fp) \<Rightarrow> (fp \<Rightarrow> fp) \<Rightarrow> player \<Rightarrow> vec3" where
  "GetPlayerDirection cosf sinf p =
     (let pit = v3x (player_renderRotation p); yw = v3y (player_renderRotation p)
      in Vec3 (f32 (cosf pit * sinf yw)) (sinf pit) (f32 (cosf pit * cosf yw)))"

text \<open>\<open>DebugDrawObject\<close>: its expiry is the client time at its construction plus a duration.\<close>

datatype debug_shape = Ray vec3 vec3 | Cube vec3 vec3 vec3

record debug_object =
  shape :: debug_shape
  debug_color :: vec4
  expireTime :: fp

definition debug_ray :: "fp \<Rightarrow> vec3 \<Rightarrow> vec3 \<Rightarrow> vec4 \<Rightarrow> fp \<Rightarrow> debug_object" where
  "debug_ray clientTime s e c duration = \<lparr>shape = Ray s e, debug_color = c, expireTime = f64 (clientTime + duration)\<rparr>"

definition debug_cube :: "fp \<Rightarrow> vec3 \<Rightarrow> vec3 \<Rightarrow> vec3 \<Rightarrow> vec4 \<Rightarrow> fp \<Rightarrow> debug_object" where
  "debug_cube clientTime p r s c duration =
     \<lparr>shape = Cube p r s, debug_color = c, expireTime = f64 (clientTime + duration)\<rparr>"

text \<open>\<open>muzzle_at\<close> stands for the product of the two rotations with the muzzle offset.\<close>

definition Fire :: "(fp \<Rightarrow> fp \<Rightarrow> vec3) \<Rightarrow> fp \<Rightarrow> fp \<Rightarrow> fp \<Rightarrow> fp \<Rightarrow> fp \<Rightarrow> player \<Rightarrow> debug_object list" where
  "Fire muzzle_at clientTime clientTime2 targetX targetY targetZ p =
     (let b = player_base p;
          muzzle = vec3_plus (act_position b) (muzzle_at (v3x (act_rotation b)) (v3y (act_rotation b)));
          target = Vec3 targetX targetY targetZ
      in [debug_ray clientTime muzzle target (act_color b) (1 / 2),
          debug_cube clientTime2 target (Vec3 0 0 0) (Vec3 (f32 (1 / 5)) (f32 (1 / 5)) (f32 (1 / 5))) (act_color b) (1 / 2)])"

section \<open>Which inputs are pending\<close>

lemma ProcessKeyField_frame [simp]:
  "pendingInputs (ProcessKeyField cosf sinf f p) = pendingInputs p"
  "lastSequenceNumber (ProcessKeyField cosf sinf f p) = lastSequenceNumber p"
  "player_base (ProcessKeyField cosf sinf f p) = player_base p"
  by (simp_all add: ProcessKeyField_def Let_def)

lemma ApplyInput_frame [simp]:
  "pendingInputs (ApplyInput cosf sinf i p) = pendingInputs p"
  "lastSequenceNumber (ApplyInput cosf sinf i p) = lastSequenceNumber p"
  "player_base (ApplyInput cosf sinf i p) = player_base p"
  by (simp_all add: ApplyInput_def Let_def)

definition apply_all :: "(fp \<Rightarrow> fp) \<Rightarrow> (fp \<Rightarrow> fp) \<Rightarrow> player_input list \<Rightarrow> player \<Rightarrow> player" where
  "apply_all cosf sinf is p = foldl (\<lambda>p i. ApplyInput cosf sinf i p) p is"

lemma apply_all_frame [simp]:
  "pendingInputs (apply_all cosf sinf is p) = pendingInputs p"
  "lastSequenceNumber (apply_all cosf sinf is p) = lastSequenceNumber p"
  "player_base (apply_all cosf sinf is p) = player_base p"
  unfolding apply_all_def by (induction "is" arbitrary: p) simp_all

lemma replay_apply_all:
  "replay cosf sinf ack is p = apply_all cosf sinf (filter (\<lambda>i. \<not> in_sequence i \<le> ack) is) p"
  unfolding apply_all_def by (induction "is" arbitrary: p) (simp_all add: not_le)

text \<open>The pending inputs are those numbered from \<open>a\<close> up to the next number \<open>n\<close>.\<close>

definition pending_from :: "nat \<Rightarrow> nat \<Rightarrow> player \<Rightarrow> bool" where
  "pending_from a n p \<longleftrightarrow> a \<le> n \<and> n < 2 ^ 32 \<and> lastSequenceNumber p = of_nat n \<and>
     map (\<lambda>i. unat (in_sequence i)) (pendingInputs p) = [a..<n]"

lemma unat_of_nat_u32: "n < 2 ^ 32 \<Longrightarrow> unat (of_nat n :: uint32) = n"
  by (simp add: unat_of_nat)

lemma filter_upt_above: "filter (\<lambda>j. \<not> j \<le> k) [a..<n] = [max a (Suc k)..<n]"
  by (induction n) (auto simp: max_def not_le)

lemma pending_filter:
  assumes "map (\<lambda>i. unat (in_sequence i)) is = [a..<n]"
  shows "map (\<lambda>i. unat (in_sequence i)) (filter (\<lambda>i. \<not> in_sequence i \<le> ack) is) = [max a (Suc (unat ack))..<n]"
proof -
  have "map (\<lambda>i. unat (in_sequence i)) (filter (\<lambda>i. \<not> in_sequence i \<le> ack) is) =
      filter (\<lambda>j. \<not> j \<le> unat ack) (map (\<lambda>i. unat (in_sequence i)) is)"
    by (simp add: filter_map comp_def word_le_nat_alt)
  then show ?thesis by (simp only: assms filter_upt_above)
qed

lemma correct_position_total: "\<exists>q. correct_position p r = Inr q"
  by (simp add: correct_position_def CompressPosition_total Let_def)

lemma Player_Update_cases:
  assumes "Player_Update cosf sinf body c c2 t i p im l = Inr (p', im', l')"
  shows "p' = p \<or> (\<exists>input. p' = ApplyInput cosf sinf input
      (p\<lparr>lastSequenceNumber := lastSequenceNumber p + 1, pendingInputs := pendingInputs p @ [input]\<rparr>) \<and>
    in_sequence input = lastSequenceNumber p)"
  using assms by (auto simp: Player_Update_def and_then_Inr_iff case_prod_beta Let_def split: if_splits)

section \<open>Runs\<close>

text \<open>A run of a player that has numbered \<open>n\<close> inputs, from any spawn data, with ticks and server states in any order.\<close>

inductive player_run :: "(fp \<Rightarrow> fp) \<Rightarrow> (fp \<Rightarrow> fp) \<Rightarrow> (uint32 \<Rightarrow> uint32 \<Rightarrow> uint32 \<Rightarrow> fp \<Rightarrow> BYTE list) \<Rightarrow> nat \<Rightarrow> player \<Rightarrow> bool"
  for cosf sinf body where
  spawn: "player_run cosf sinf body 0 (Player\<lparr>player_base := b\<rparr>)"
| tick: "player_run cosf sinf body n p \<Longrightarrow> Player_Update cosf sinf body c c2 t i p im l = Inr (p', im', l') \<Longrightarrow>
    player_run cosf sinf body (if in_timestamp (fst (CaptureInput c im)) = 0 then n else Suc n) p'"
| server_state: "player_run cosf sinf body n p \<Longrightarrow> Reconcile cosf sinf pos vel rot ack p = Inr p' \<Longrightarrow>
    player_run cosf sinf body n p'"

text \<open>The correction alone, and what \<open>Reconcile\<close> then makes of the inputs the server had not seen.\<close>

definition corrected :: "uint64 \<Rightarrow> uint64 \<Rightarrow> uint32 \<Rightarrow> vec3 \<Rightarrow> player \<Rightarrow> player" where
  "corrected pos vel rot q p = p\<lparr>player_base := SetTransform pos vel rot (player_base p), player_renderPosition := q,
     player_renderRotation := correct_rotation (act_rotation (SetTransform pos vel rot (player_base p))) (player_renderRotation p)\<rparr>"

definition unacked :: "uint32 \<Rightarrow> player \<Rightarrow> player_input list" where
  "unacked ack p = filter (\<lambda>i. \<not> in_sequence i \<le> ack) (pendingInputs p)"

lemma Reconcile_result:
  "\<exists>q. correct_position (act_position (SetTransform pos vel rot (player_base p))) (player_renderPosition p) = Inr q \<and>
    Reconcile cosf sinf pos vel rot ack p =
      Inr ((apply_all cosf sinf (unacked ack p) (corrected pos vel rot q p))\<lparr>pendingInputs := unacked ack p\<rparr>)"
proof -
  obtain q where q: "correct_position (act_position (SetTransform pos vel rot (player_base p))) (player_renderPosition p) = Inr q"
    using correct_position_total by blast
  then show ?thesis
    by (intro exI [of _ q]) (simp add: Reconcile_def replay_apply_all Let_def corrected_def unacked_def)
qed

lemma Reconcile_pending:
  assumes "pending_from a n p" and "Reconcile cosf sinf pos vel rot ack p = Inr p'"
  shows "pending_from (min n (max a (Suc (unat ack)))) n p'"
proof -
  obtain q where "p' = (apply_all cosf sinf (unacked ack p) (corrected pos vel rot q p))\<lparr>pendingInputs := unacked ack p\<rparr>"
    using assms(2) Reconcile_result [of pos vel rot p cosf sinf ack] by auto
  then have "pendingInputs p' = unacked ack p" "lastSequenceNumber p' = lastSequenceNumber p"
    by (simp_all add: corrected_def)
  then show ?thesis using assms(1) pending_filter [of "pendingInputs p" a n ack]
    by (auto simp: pending_from_def min_def unacked_def)
qed

lemma Player_Update_pending:
  assumes "pending_from a n p" and "Player_Update cosf sinf body c c2 t i p im l = Inr (p', im', l')"
    and "in_timestamp (fst (CaptureInput c im)) \<noteq> 0" and "Suc n < 2 ^ 32"
  shows "pending_from a (Suc n) p'"
proof -
  obtain input where p': "p' = ApplyInput cosf sinf input
      (p\<lparr>lastSequenceNumber := lastSequenceNumber p + 1, pendingInputs := pendingInputs p @ [input]\<rparr>)"
    "in_sequence input = lastSequenceNumber p"
    using assms(2,3) by (auto simp: Player_Update_def and_then_Inr_iff case_prod_beta Let_def)
  show ?thesis using assms(1,4) by (auto simp: p' pending_from_def unat_of_nat_u32)
qed

lemma player_run_pending: "player_run cosf sinf body n p \<Longrightarrow> n < 2 ^ 32 \<Longrightarrow> \<exists>a. pending_from a n p"
proof (induction rule: player_run.induct)
  case (spawn b)
  have "pending_from 0 0 (Player\<lparr>player_base := b\<rparr>)" by (simp add: pending_from_def Player_def)
  then show ?case by blast
next
  case (tick n p c c2 t i im l p' im' l')
  show ?case
  proof (cases "in_timestamp (fst (CaptureInput c im)) = 0")
    case True
    then have "p' = p" using tick.hyps(2) by (simp add: Player_Update_def case_prod_beta Let_def)
    then show ?thesis using tick True by simp
  next
    case False
    then show ?thesis using tick Player_Update_pending by fastforce
  qed
next
  case (server_state n p pos vel rot ack p')
  then show ?case using Reconcile_pending by blast
qed

section \<open>Properties\<close>

text \<open>
  C11: the inputs the player keeps are exactly those of an interval of numbers. After any run of ticks and server states in
  which it has numbered \<open>n\<close> inputs (below the wrap of the counter), the pending ones are those from some
  \<open>a\<close> up to \<open>n\<close>, in order and without a gap, and the next number is \<open>n\<close>.
\<close>
theorem pending_inputs_contiguous:
  assumes "player_run cosf sinf body n p" and "n < 2 ^ 32"
  shows "\<exists>a \<le> n. map (\<lambda>i. unat (in_sequence i)) (pendingInputs p) = [a..<n] \<and> unat (lastSequenceNumber p) = n"
  using player_run_pending [OF assms] assms(2) by (auto simp: pending_from_def unat_of_nat_u32)

definition sample_link :: udp_link where
  "sample_link = \<lparr>link_memory = fresh_memory 0, link_session = None\<rparr>"

lemma sample_tick:
  "\<exists>im' l'. Player_Update (\<lambda>_. 1) (\<lambda>_. 0) (\<lambda>_ _ _ _. []) 1 1 0 0 Player (InputManager\<lparr>keyField := 1\<rparr>) sample_link =
    Inr (ApplyInput (\<lambda>_. 1) (\<lambda>_. 0) \<lparr>in_timestamp = 1, in_keyField = 1, in_yaw = 0, in_pitch = 0, in_sequence = 0\<rparr>
      (Player\<lparr>lastSequenceNumber := 1,
        pendingInputs := [\<lparr>in_timestamp = 1, in_keyField = 1, in_yaw = 0, in_pitch = 0, in_sequence = 0\<rparr>]\<rparr>), im', l')"
proof -
  obtain r where r: "PackRotation 0 0 = Inr r" using PackRotation_total [of 0 0] PI_bounds by auto
  obtain w where w: "MakeSendBufferUdp 0 0 [] C_PLAYER_INPUT (fresh_memory 0) = Inr w"
    using MakeSendBuffer_works [OF fresh_memory_ok, of "[]" UdpPacketHeader 0 "PKT C_PLAYER_INPUT" 0]
    by (auto simp: MakeSendBufferUdp_def)
  show ?thesis
    by (simp add: Player_Update_def CaptureInput_def InputManager_def SendInputToServer_def r w sample_link_def Player_def Let_def)
qed

lemma pending_inputs_contiguous_witness:
  "\<exists>p. player_run (\<lambda>_. 1) (\<lambda>_. 0) (\<lambda>_ _ _ _. []) 1 p \<and> map (\<lambda>i. unat (in_sequence i)) (pendingInputs p) = [0] \<and>
     unat (lastSequenceNumber p) = 1"
proof -
  have "player_run (\<lambda>_. 1) (\<lambda>_. 0) (\<lambda>_ _ _ _. []) 0 (Player\<lparr>player_base := Actor\<rparr>)" by (rule player_run.spawn)
  then have s: "player_run (\<lambda>_. 1) (\<lambda>_. 0) (\<lambda>_ _ _ _. []) 0 Player" by (simp add: Player_def)
  obtain p im' l' where u: "Player_Update (\<lambda>_. 1) (\<lambda>_. 0) (\<lambda>_ _ _ _. []) 1 1 0 0 Player (InputManager\<lparr>keyField := 1\<rparr>) sample_link =
      Inr (p, im', l')" and p: "length (pendingInputs p) = 1"
    using sample_tick by auto
  from player_run.tick [OF s u] have run: "player_run (\<lambda>_. 1) (\<lambda>_. 0) (\<lambda>_ _ _ _. []) 1 p"
    by (simp add: CaptureInput_def InputManager_def)
  from pending_inputs_contiguous [OF run] obtain a where
    a: "map (\<lambda>i. unat (in_sequence i)) (pendingInputs p) = [a..<1]" "unat (lastSequenceNumber p) = 1" by auto
  have "length [a..<1] = 1" using p unfolding a(1) [symmetric] by simp
  then have "a = 0" unfolding length_upt by linarith
  then show ?thesis using run a by auto
qed

text \<open>
  C12: reconciliation never fails and replays what the server has not seen. It corrects position and rotation,
  keeps exactly the pending inputs numbered above the acknowledged one, and applies these, in order, to the corrected
  state; an acknowledgement of something never sent empties the list, an old one changes nothing in it.
\<close>
theorem Reconcile_replays:
  assumes "pending_from a n p"
  shows "\<exists>p' q. Reconcile cosf sinf pos vel rot ack p = Inr p' \<and>
    map (\<lambda>i. unat (in_sequence i)) (pendingInputs p') = [max a (Suc (unat ack))..<n] \<and>
    correct_position (act_position (player_base p')) (player_renderPosition p) = Inr q \<and>
    p' = (apply_all cosf sinf (pendingInputs p') (corrected pos vel rot q p))\<lparr>pendingInputs := pendingInputs p'\<rparr>"
proof -
  obtain q where q: "correct_position (act_position (SetTransform pos vel rot (player_base p))) (player_renderPosition p) = Inr q"
    "Reconcile cosf sinf pos vel rot ack p =
      Inr ((apply_all cosf sinf (unacked ack p) (corrected pos vel rot q p))\<lparr>pendingInputs := unacked ack p\<rparr>)"
    using Reconcile_result by blast
  have "map (\<lambda>i. unat (in_sequence i)) (unacked ack p) = [max a (Suc (unat ack))..<n]"
    using assms pending_filter [of "pendingInputs p" a n ack] by (simp add: pending_from_def unacked_def)
  moreover define p' where "p' = (apply_all cosf sinf (unacked ack p) (corrected pos vel rot q p))\<lparr>pendingInputs := unacked ack p\<rparr>"
  moreover have "pendingInputs p' = unacked ack p" "player_base p' = SetTransform pos vel rot (player_base p)"
    by (simp_all add: p'_def corrected_def)
  ultimately show ?thesis using q by (intro exI [of _ p'] exI [of _ q]) metis
qed

definition three_pending :: player where
  "three_pending = Player\<lparr>lastSequenceNumber := 7, pendingInputs := map (\<lambda>n.
     \<lparr>in_timestamp = 1, in_keyField = 1, in_yaw = 0, in_pitch = 0, in_sequence = n\<rparr>) [4, 5, 6]\<rparr>"

lemma Reconcile_replays_witness:
  "\<exists>p'. Reconcile (\<lambda>_. 1) (\<lambda>_. 0) 0 0 0 4 three_pending = Inr p' \<and> map (\<lambda>i. unat (in_sequence i)) (pendingInputs p') = [5, 6]"
proof -
  have "[4..<7] = [4, 5, 6 :: nat]" "[max 4 (Suc (unat (4 :: uint32)))..<7] = [5, 6]" by code_simp+
  moreover have "pending_from 4 7 three_pending"
    by (simp add: pending_from_def three_pending_def \<open>[4..<7] = [4, 5, 6]\<close>)
  ultimately show ?thesis using Reconcile_replays [of 4 7 three_pending "\<lambda>_. 1" "\<lambda>_. 0" 0 0 0 4] by fastforce
qed

text \<open>
  What the smoothing does to a position that came from the server. When the drawn position is not far, the
  correction term is zero in both horizontal directions, because a decoded coordinate is a fixed point of the compression;
  in the height, which was sent at another resolution, it shifts the drawn position by up to one twenty-ninth of a unit.
\<close>
theorem smooth_correction:
  assumes "UnPackPosition packed = (x, y, z)"
    and "\<not> SMOOTH_THRESHOLD < vec3_Length (vec3_minus (Vec3 x y z) render)"
  shows "\<exists>e. correct_position (Vec3 x y z) render =
      Inr (vec3_Lerp (vec3_plus render (Vec3 0 e 0)) (Vec3 x y z) SMOOTH_FACTOR) \<and> \<bar>e\<bar> < 1 / 29"
proof -
  let ?i = "sint (field16 32 packed)"
  have xyz: "x = ExpandPosition (field16 48 packed)" "y = of_int ?i / 128" "z = ExpandPosition (field16 16 packed)"
    using assms(1) unfolding UnPackPosition_fields by simp_all
  have "- (2 ^ 15) \<le> ?i" "?i < 2 ^ 15" using sint_greater_eq [of "field16 32 packed"] sint_less [of "field16 32 packed"] by simp_all
  then have "of_int (- 32768) \<le> (of_int ?i :: rat)" "(of_int ?i :: rat) \<le> of_int 32768" unfolding of_int_le_iff by simp_all
  then have "- 2048 \<le> y" "y \<le> 2048" unfolding xyz by (simp_all del: of_int_sint)
  from position_decodes_within_resolution [OF this]
  obtain c where c: "CompressPosition y = Inr c" "\<bar>ExpandPosition c - y\<bar> < 1 / 30" by blast
  define e where "e = f32 (y - ExpandPosition c)"
  have "\<bar>e - (y - ExpandPosition c)\<bar> \<le> 1 / 16777216" unfolding e_def by (rule f32_error_1) (use c(2) in linarith)
  then have "\<bar>e\<bar> < 1 / 29" using c(2) by linarith
  moreover have "correct_position (Vec3 x y z) render =
      Inr (vec3_Lerp (vec3_plus render (Vec3 0 e 0)) (Vec3 x y z) SMOOTH_FACTOR)"
    using assms(2) c(1) CompressPosition_ExpandPosition [of "field16 48 packed"] CompressPosition_ExpandPosition [of "field16 16 packed"]
    by (simp add: correct_position_def e_def xyz(1,3) vec3_minus_def Vec3_def Let_def)
  ultimately show ?thesis by blast
qed

text \<open>
  An input captured when the client clock shows exactly zero is lost. Time zero also marks the absence of an
  input, so nothing is numbered, sent or applied, but the capture has been recorded, and without a further change of the
  input it is not captured again, whatever the clock shows then.
\<close>
theorem input_at_time_zero_lost:
  "\<exists>im'. Player_Update cosf sinf body 0 c2 t i p im l = Inr (p, im', l) \<and>
    keyField im' = keyField im \<and> lastSentKeyField im' = keyField im' \<and>
    Player_Update cosf sinf body c c2' t' i' p im' l = Inr (p, im', l)"
proof (intro exI conjI)
  show "Player_Update cosf sinf body 0 c2 t i p im l = Inr (p, snd (CaptureInput 0 im), l)"
    by (simp add: Player_Update_def CaptureInput_def case_prod_beta)
  show "Player_Update cosf sinf body c c2' t' i' p (snd (CaptureInput 0 im)) l = Inr (p, snd (CaptureInput 0 im), l)"
    by (simp add: Player_Update_def CaptureInput_def case_prod_beta)
qed (simp_all add: CaptureInput_def)

text \<open>
  A player who has turned too far stops the client. Nothing wraps the yaw, and once it is beyond half
  a turn the next new input cannot be packed: the tick ends in an undefined conversion, after the input was numbered.
\<close>
theorem turned_too_far_faults:
  assumes "PI + 1 / 1000 \<le> \<bar>yaw im\<bar>" and "yaw im \<noteq> lastYaw im" and "c \<noteq> 0"
  shows "Player_Update cosf sinf body c c2 t i p im l = Inl BadCast"
  using assms yaw_outside_undefined [OF assms(1)]
  by (simp add: Player_Update_def CaptureInput_def SendInputToServer_def Let_def)

lemma turned_too_far_faults_witness:
  "Player_Update (\<lambda>_. 1) (\<lambda>_. 0) (\<lambda>_ _ _ _. []) 1 1 0 0 Player (InputManager\<lparr>yaw := 7 / 2\<rparr>) sample_link = Inl BadCast"
  by (rule turned_too_far_faults) (simp_all add: PI_def InputManager_def)

lemma far_test_zero: "\<not> SMOOTH_THRESHOLD < vec3_Length (vec3_minus a a)"
proof -
  have "\<bar>SMOOTH_THRESHOLD - 7 / 10\<bar> \<le> 1 / 16777216" unfolding SMOOTH_THRESHOLD_def by (rule f32_error_1) simp
  then have "0 \<le> SMOOTH_THRESHOLD" by linarith
  moreover have "vec3_Length (vec3_minus a a) = sqrtf 0" by (simp add: vec3_Length_def vec3_LengthSquared_def vec3_minus_def Vec3_def)
  moreover have "sqrtf 0 = 0" by (simp add: sqrtf_def fp_sqrt_def)
  ultimately show ?thesis by simp
qed

lemma smooth_correction_witness:
  "\<exists>e x y z. UnPackPosition 5 = (x, y, z) \<and> correct_position (Vec3 x y z) (Vec3 x y z) =
      Inr (vec3_Lerp (vec3_plus (Vec3 x y z) (Vec3 0 e 0)) (Vec3 x y z) SMOOTH_FACTOR) \<and> \<bar>e\<bar> < 1 / 29"
proof -
  obtain x y z where u: "UnPackPosition 5 = (x, y, z)" by (cases "UnPackPosition 5") auto
  from smooth_correction [OF u far_test_zero] show ?thesis using u by blast
qed

end
