(* ===== verification/Udp_Service.thy ===== *)
theory Udp_Service
  imports Packets
begin

text \<open>
  The UDP side of \<open>Service\<close> (\<open>Service.h\<close>, \<open>Service.cpp\<close>) and the receive loop of \<open>UdpReceiver\<close>
  (\<open>UdpReceiver.h\<close>, \<open>UdpReceiver.cpp\<close>): which session a datagram belongs to, when one is created, and how the one
  receive buffer turns datagrams into packets. Sessions are objects with an identity; an endpoint is a
  number. The handlers the packets go to are in other theories; here a packet handed over is logged with its session.
\<close>

section \<open>Service\<close>

record udp_service =
  udpRemoteEndpoint :: "nat option"             \<comment> \<open>of the configuration\<close>
  udp_socket_open :: bool
  session_of :: "nat \<Rightarrow> reliable_udp"           \<comment> \<open>the session objects\<close>
  remoteEndpoint :: "nat \<Rightarrow> nat"
  fresh_udp :: nat                              \<comment> \<open>identities below have been used\<close>
  udpSessions :: "nat list"                     \<comment> \<open>a set\<close>
  pendingUdpSessions :: "(nat \<times> nat) list"
  udpSessionCount :: int32
  maxUdpSessionCount :: int32
  udpSession :: "nat option"                    \<comment> \<open>\<open>SessionManager::_udpSession\<close>\<close>

text \<open>\<open>udp::endpoint(udp::v4(), 0)\<close>, used when none is configured.\<close>

definition any_endpoint :: nat where "any_endpoint = 0"

definition Service :: "nat option \<Rightarrow> int32 \<Rightarrow> udp_service" where
  "Service endpoint maxUdp =
     \<lparr>udpRemoteEndpoint = endpoint, udp_socket_open = False, session_of = (\<lambda>_. ReliableUdpSession False (\<lambda>_. [])),
      remoteEndpoint = (\<lambda>_. any_endpoint), fresh_udp = 0, udpSessions = [], pendingUdpSessions = [], udpSessionCount = 0,
      maxUdpSessionCount = maxUdp, udpSession = None\<rparr>"

definition SetUdpRemoteEndpoint :: "nat \<Rightarrow> udp_service \<Rightarrow> udp_service" where
  "SetUdpRemoteEndpoint ep s = s\<lparr>udpRemoteEndpoint := Some ep\<rparr>"

definition GetUdpRemoteEndpoint :: "udp_service \<Rightarrow> nat" where
  "GetUdpRemoteEndpoint s = (case udpRemoteEndpoint s of Some ep \<Rightarrow> ep | None \<Rightarrow> any_endpoint)"

text \<open>\<open>CreateSession(PROTOCOL_UDP)\<close>: the factory makes a session object; its endpoint is the configured one.\<close>

definition CreateSession :: "udp_service \<Rightarrow> nat \<times> udp_service" where
  "CreateSession s =
     (let k = fresh_udp s
      in (k, s\<lparr>fresh_udp := Suc k,
               session_of := (session_of s)(k := ReliableUdpSession (udp_socket_open s) (\<lambda>_. [])),
               remoteEndpoint := (remoteEndpoint s)(k := GetUdpRemoteEndpoint s)\<rparr>))"

definition SetRemoteEndpoint :: "nat \<Rightarrow> nat \<Rightarrow> udp_service \<Rightarrow> udp_service" where
  "SetRemoteEndpoint k ep s = s\<lparr>remoteEndpoint := (remoteEndpoint s)(k := ep)\<rparr>"

text \<open>The set's \<open>insert\<close> has no effect for a member; the counter is raised in any case.\<close>

definition AddUdpSession :: "nat \<Rightarrow> udp_service \<Rightarrow> udp_service" where
  "AddUdpSession k s =
     s\<lparr>udpSessionCount := udpSessionCount s + 1,
       udpSessions := (if k \<in> set (udpSessions s) then udpSessions s else k # udpSessions s)\<rparr>"

definition ReleaseUdpSession :: "nat \<Rightarrow> udp_service \<Rightarrow> udp_service res" where
  "ReleaseUdpSession k s =
     assert_crash (k \<in> set (udpSessions s))
       (Inr (s\<lparr>udpSessions := removeAll k (udpSessions s), udpSessionCount := udpSessionCount s - 1\<rparr>))"

definition CompleteUdpHandshake :: "nat \<Rightarrow> udp_service \<Rightarrow> udp_service" where
  "CompleteUdpHandshake ep s =
     (case map_of (pendingUdpSessions s) ep of
        None \<Rightarrow> s
      | Some k \<Rightarrow> (AddUdpSession k s)\<lparr>pendingUdpSessions := AList.delete ep (pendingUdpSessions s)\<rparr>)"

text \<open>\<open>GameUdpSession::OnConnected\<close> makes the session the client's own.\<close>

definition OnConnected_udp :: "nat \<Rightarrow> udp_service \<Rightarrow> udp_service" where
  "OnConnected_udp k s = s\<lparr>udpSession := Some k\<rparr>"

definition udp_ProcessConnect :: "nat \<Rightarrow> udp_service \<Rightarrow> udp_service" where
  "udp_ProcessConnect k s =
     OnConnected_udp k (CompleteUdpHandshake (remoteEndpoint s k)
       (s\<lparr>session_of := (session_of s)(k := (session_of s k)\<lparr>udp_connected := True\<rparr>)\<rparr>))"

text \<open>The send queue it clears at the end is never filled: \<open>Send\<close> hands each buffer to the socket.\<close>

definition udp_ProcessDisconnect :: "nat \<Rightarrow> udp_service \<Rightarrow> udp_service res" where
  "udp_ProcessDisconnect k s =
     ReleaseUdpSession k (s\<lparr>session_of := (session_of s)(k := (session_of s k)\<lparr>udp_connected := False\<rparr>)\<rparr>)"

definition FindOrCreateUdpSession :: "nat \<Rightarrow> udp_service \<Rightarrow> nat \<times> udp_service" where
  "FindOrCreateUdpSession ep s =
     (case find (\<lambda>k. remoteEndpoint s k = ep) (udpSessions s) of
        Some k \<Rightarrow> (k, s)
      | None \<Rightarrow>
         (case map_of (pendingUdpSessions s) ep of
            Some k \<Rightarrow> (k, s)
          | None \<Rightarrow>
             (let (k, s1) = CreateSession s;
                  s2 = SetRemoteEndpoint k ep s1;
                  s3 = s2\<lparr>pendingUdpSessions := AList.update ep k (pendingUdpSessions s2)\<rparr>
              in (k, udp_ProcessConnect k s3))))"

section \<open>UdpReceiver\<close>

definition UDP_BUFFER_SIZE :: int32 where "UDP_BUFFER_SIZE = 0x10000"

record udp_receiver =
  recv_service :: udp_service
  recv_rb :: recv_buffer
  outstanding_recv :: nat                       \<comment> \<open>\<open>async_receive_from\<close> calls that have not completed\<close>
  handed :: "(nat \<times> BYTE list) list"            \<comment> \<open>ghost: the calls of \<open>OnRecv\<close>, oldest first\<close>

definition UdpReceiver :: "udp_service \<Rightarrow> udp_receiver" where
  "UdpReceiver svc = \<lparr>recv_service = svc, recv_rb = RecvBuffer UDP_BUFFER_SIZE, outstanding_recv = 0, handed = []\<rparr>"

definition udp_RegisterRecv :: "udp_receiver \<Rightarrow> udp_receiver" where
  "udp_RegisterRecv r =
     (if udp_socket_open (recv_service r) then r\<lparr>outstanding_recv := outstanding_recv r + 1\<rparr> else r)"

text \<open>\<open>Start\<close> opens the socket and posts one receive per admitted session.\<close>

definition UdpReceiver_Start :: "udp_receiver \<Rightarrow> udp_receiver" where
  "UdpReceiver_Start r =
     (udp_RegisterRecv ^^ nat (maxUdpSessionCount (recv_service r)))
       (r\<lparr>recv_service := (recv_service r)\<lparr>udp_socket_open := True\<rparr>\<rparr>)"

definition udp_ProcessRecv :: "nat \<Rightarrow> nat \<Rightarrow> udp_receiver \<Rightarrow> udp_receiver res" where
  "udp_ProcessRecv from_ep numOfBytes r =
     (let (k, svc) = FindOrCreateUdpSession from_ep (recv_service r);
          r1 = r\<lparr>recv_service := svc\<rparr>
      in case OnWrite (int numOfBytes) (recv_rb r1) of
           (False, rb) \<Rightarrow> Inr r1
         | (True, rb) \<Rightarrow>
             (let dataSize = DataSize rb;
                  (packets, processLen) = parse UdpPacketHeader (pending rb);
                  r2 = r1\<lparr>recv_rb := rb, handed := handed r1 @ map (Pair k) packets\<rparr>;
                  (read_ok, rb1) = OnRead (int processLen) rb
              in if dataSize < int processLen \<or> \<not> read_ok then Inr r2
                 else and_then (Clean rb1) (\<lambda>rb2. Inr (udp_RegisterRecv (r2\<lparr>recv_rb := rb2\<rparr>)))))"

text \<open>The completion of a receive: a datagram was put at \<open>WritePos()\<close>, or there was an error.\<close>

definition recv_completed :: "nat \<Rightarrow> BYTE list \<Rightarrow> udp_receiver \<Rightarrow> udp_receiver res" where
  "recv_completed from_ep bytes r =
     (let r1 = r\<lparr>outstanding_recv := outstanding_recv r - 1, recv_rb := socket_fill bytes (recv_rb r)\<rparr>
      in if 0 < length bytes then udp_ProcessRecv from_ep (length bytes) r1 else Inr r1)"

definition recv_failed :: "udp_receiver \<Rightarrow> udp_receiver" where
  "recv_failed r = r\<lparr>outstanding_recv := outstanding_recv r - 1\<rparr>"

section \<open>Which sessions there are\<close>

text \<open>What happens to the sessions: datagrams, the client's own session for the handshake, a disconnect.\<close>

inductive service_step :: "udp_service \<Rightarrow> udp_service \<Rightarrow> bool" where
  datagram: "FindOrCreateUdpSession ep s = (k, s') \<Longrightarrow> service_step s s'"
| create: "CreateSession (SetUdpRemoteEndpoint ep s) = (k, s') \<Longrightarrow> service_step s s'"
| disconnect: "udp_ProcessDisconnect k s = Inr s' \<Longrightarrow> service_step s s'"

inductive service_reachable :: "udp_service \<Rightarrow> bool" where
  start: "service_reachable (Service endpoint maxUdp)"
| step: "service_reachable s \<Longrightarrow> service_step s s' \<Longrightarrow> service_reachable s'"

definition svc_inv :: "udp_service \<Rightarrow> bool" where
  "svc_inv s \<longleftrightarrow> pendingUdpSessions s = [] \<and> distinct (udpSessions s) \<and> (\<forall>k \<in> set (udpSessions s). k < fresh_udp s) \<and>
     distinct (map (remoteEndpoint s) (udpSessions s)) \<and> udpSessionCount s = int (length (udpSessions s))"

lemma find_Some_iff: "find P xs = Some x \<Longrightarrow> x \<in> set xs \<and> P x"
  by (induction xs) (auto split: if_splits)

text \<open>A datagram from an endpoint that no registered session has, in closed form.\<close>

lemma FindOrCreate_new:
  assumes "svc_inv s" and "ep \<notin> remoteEndpoint s ` set (udpSessions s)"
  shows "FindOrCreateUdpSession ep s = (fresh_udp s,
    s\<lparr>fresh_udp := Suc (fresh_udp s),
      session_of := (session_of s)(fresh_udp s := (ReliableUdpSession (udp_socket_open s) (\<lambda>_. []))\<lparr>udp_connected := True\<rparr>),
      remoteEndpoint := (remoteEndpoint s)(fresh_udp s := ep), udpSessions := fresh_udp s # udpSessions s,
      udpSessionCount := udpSessionCount s + 1, udpSession := Some (fresh_udp s)\<rparr>)"
proof -
  have "find (\<lambda>k. remoteEndpoint s k = ep) (udpSessions s) = None"
    using assms(2) by (auto simp: find_None_iff)
  moreover have "fresh_udp s \<notin> set (udpSessions s)" using assms(1) by (auto simp: svc_inv_def)
  ultimately show ?thesis using assms(1)
    by (simp add: FindOrCreateUdpSession_def CreateSession_def SetRemoteEndpoint_def udp_ProcessConnect_def
        CompleteUdpHandshake_def AddUdpSession_def OnConnected_udp_def svc_inv_def Let_def)
qed

lemma FindOrCreate_known:
  assumes "ep \<in> remoteEndpoint s ` set (udpSessions s)"
  shows "\<exists>k \<in> set (udpSessions s). remoteEndpoint s k = ep \<and> FindOrCreateUdpSession ep s = (k, s)"
proof -
  have "find (\<lambda>k. remoteEndpoint s k = ep) (udpSessions s) \<noteq> None" using assms by (auto simp: find_None_iff)
  then obtain k where "find (\<lambda>k. remoteEndpoint s k = ep) (udpSessions s) = Some k" by auto
  then show ?thesis using find_Some_iff [of "\<lambda>k. remoteEndpoint s k = ep" "udpSessions s" k]
    by (auto simp: FindOrCreateUdpSession_def)
qed

lemma svc_inv_frame:
  "svc_inv (s\<lparr>session_of := f\<rparr>) = svc_inv s" "svc_inv (s\<lparr>udpRemoteEndpoint := e\<rparr>) = svc_inv s"
  by (simp_all add: svc_inv_def)

lemma FindOrCreate_inv: "svc_inv s \<Longrightarrow> FindOrCreateUdpSession ep s = (k, s') \<Longrightarrow> svc_inv s'"
proof (cases "ep \<in> remoteEndpoint s ` set (udpSessions s)")
  case True
  then show "FindOrCreateUdpSession ep s = (k, s') \<Longrightarrow> svc_inv s \<Longrightarrow> ?thesis" using FindOrCreate_known by fastforce
next
  case False
  assume i: "svc_inv s" and f: "FindOrCreateUdpSession ep s = (k, s')"
  have old: "fresh_udp s \<notin> set (udpSessions s)" using i by (auto simp: svc_inv_def)
  then have "map ((remoteEndpoint s)(fresh_udp s := ep)) (udpSessions s) = map (remoteEndpoint s) (udpSessions s)" by simp
  then show ?thesis using i f old False unfolding FindOrCreate_new [OF i False]
    by (auto simp: svc_inv_def less_Suc_eq)
qed

lemma CreateSession_inv: "svc_inv s \<Longrightarrow> CreateSession s = (k, s') \<Longrightarrow> svc_inv s'"
proof -
  assume i: "svc_inv s" and c: "CreateSession s = (k, s')"
  have old: "fresh_udp s \<notin> set (udpSessions s)" using i by (auto simp: svc_inv_def)
  then have "map ((remoteEndpoint s)(fresh_udp s := e)) (udpSessions s) = map (remoteEndpoint s) (udpSessions s)" for e by simp
  then show ?thesis using i c by (auto simp: CreateSession_def Let_def svc_inv_def less_Suc_eq)
qed

lemma ReleaseUdpSession_inv: "svc_inv s \<Longrightarrow> ReleaseUdpSession k s = Inr s' \<Longrightarrow> svc_inv s'"
proof -
  assume i: "svc_inv s" and r: "ReleaseUdpSession k s = Inr s'"
  then have k: "k \<in> set (udpSessions s)" and s': "s' = s\<lparr>udpSessions := removeAll k (udpSessions s), udpSessionCount := udpSessionCount s - 1\<rparr>"
    by (auto simp: ReleaseUdpSession_def assert_crash_Inr_iff)
  have d: "distinct (udpSessions s)" using i by (simp add: svc_inv_def)
  then have r1: "removeAll k (udpSessions s) = remove1 k (udpSessions s)" by (simp add: distinct_remove1_removeAll)
  have "length (remove1 k (udpSessions s)) = length (udpSessions s) - 1" using k by (simp add: length_remove1)
  then have "int (length (remove1 k (udpSessions s))) = int (length (udpSessions s)) - 1"
    using length_pos_if_in_set [OF k] by linarith
  moreover have "distinct (map (remoteEndpoint s) (remove1 k (udpSessions s)))"
    using i unfolding r1 [symmetric] removeAll_filter_not_eq svc_inv_def by (auto intro: distinct_map_filter)
  ultimately show ?thesis using i d by (auto simp: s' r1 svc_inv_def)
qed

lemma service_step_inv: "service_step s s' \<Longrightarrow> svc_inv s \<Longrightarrow> svc_inv s'"
proof (induction rule: service_step.induct)
  case (datagram ep s k s')
  then show ?case using FindOrCreate_inv by blast
next
  case (create ep s k s')
  then show ?case using CreateSession_inv [of "SetUdpRemoteEndpoint ep s"] by (simp add: SetUdpRemoteEndpoint_def svc_inv_frame)
next
  case (disconnect k s s')
  show ?case by (rule ReleaseUdpSession_inv [OF _ disconnect(1) [unfolded udp_ProcessDisconnect_def]])
      (simp add: svc_inv_frame disconnect(2))
qed

lemma service_reachable_inv: "service_reachable s \<Longrightarrow> svc_inv s"
proof (induction rule: service_reachable.induct)
  case (start endpoint maxUdp)
  show ?case by (simp add: svc_inv_def Service_def)
next
  case (step s s')
  then show ?case using service_step_inv by blast
qed

text \<open>\<open>FindOrCreateUdpSession\<close> as a map from endpoints to sessions, for its clients.\<close>

locale session_directory =
  fixes ok :: "'s \<Rightarrow> bool"
    and lookup :: "'s \<Rightarrow> 'e \<Rightarrow> 'k option"
    and obtain_session :: "'e \<Rightarrow> 's \<Rightarrow> 'k \<times> 's"
  assumes obtain_ok: "ok s \<Longrightarrow> ok (snd (obtain_session e s))"
    and obtain_lookup: "ok s \<Longrightarrow> lookup (snd (obtain_session e s)) =
      (lookup s)(e \<mapsto> fst (obtain_session e s))"
    and obtain_known: "ok s \<Longrightarrow> lookup s e = Some k \<Longrightarrow> obtain_session e s = (k, s)"
begin

fun obtain_all :: "'e list \<Rightarrow> 's \<Rightarrow> 's" where
  "obtain_all [] s = s"
| "obtain_all (e # es) s = obtain_all es (snd (obtain_session e s))"

lemma obtain_again: "ok s \<Longrightarrow> obtain_session e (snd (obtain_session e s)) = obtain_session e s"
  using obtain_known [of "snd (obtain_session e s)" e "fst (obtain_session e s)"] obtain_ok obtain_lookup by auto

lemma obtain_all_keeps:
  "ok s \<Longrightarrow> lookup s e = Some k \<Longrightarrow> lookup (obtain_all es s) e = Some k \<and> ok (obtain_all es s)"
proof (induction es arbitrary: s)
  case (Cons e' es)
  have "lookup (snd (obtain_session e' s)) e = Some k"
    using Cons.prems obtain_lookup [of s e'] obtain_known [of s e' k] by (cases "e' = e") auto
  then show ?case using Cons.IH obtain_ok [OF Cons.prems(1), of e'] by simp
qed simp

lemma obtain_after_others:
  "ok s \<Longrightarrow> fst (obtain_session e (obtain_all es (snd (obtain_session e s)))) = fst (obtain_session e s)"
  using obtain_all_keeps [OF obtain_ok [of s e], of e "fst (obtain_session e s)" es] obtain_lookup [of s e]
  by (auto dest: obtain_known)

end

definition session_at :: "udp_service \<Rightarrow> nat \<Rightarrow> nat option" where
  "session_at s ep = find (\<lambda>k. remoteEndpoint s k = ep) (udpSessions s)"

lemma session_at_None_iff: "session_at s ep = None \<longleftrightarrow> ep \<notin> remoteEndpoint s ` set (udpSessions s)"
  by (auto simp: session_at_def find_None_iff)

interpretation dir: session_directory svc_inv session_at FindOrCreateUdpSession
proof unfold_locales
  fix s e
  show "svc_inv s \<Longrightarrow> svc_inv (snd (FindOrCreateUdpSession e s))" using FindOrCreate_inv by (metis prod.collapse)
next
  fix s e k
  assume "session_at s e = Some k"
  then show "FindOrCreateUdpSession e s = (k, s)" by (simp add: session_at_def FindOrCreateUdpSession_def)
next
  fix s e
  assume i: "svc_inv s"
  show "session_at (snd (FindOrCreateUdpSession e s)) = (session_at s)(e \<mapsto> fst (FindOrCreateUdpSession e s))"
  proof (cases "session_at s e")
    case (Some k)
    then have "FindOrCreateUdpSession e s = (k, s)" by (simp add: session_at_def FindOrCreateUdpSession_def)
    then show ?thesis using Some by (simp add: fun_upd_idem)
  next
    case None
    then have new: "e \<notin> remoteEndpoint s ` set (udpSessions s)" by (simp add: session_at_None_iff)
    have old: "fresh_udp s \<notin> set (udpSessions s)" using i by (auto simp: svc_inv_def)
    then have "find (\<lambda>k. ((remoteEndpoint s)(fresh_udp s := e)) k = ep) (udpSessions s) =
        find (\<lambda>k. remoteEndpoint s k = ep) (udpSessions s)" for ep
      by (intro find_cong) auto
    then show ?thesis unfolding FindOrCreate_new [OF i new] by (auto simp: session_at_def)
  qed
qed

section \<open>Properties of the sessions\<close>

text \<open>
  C22: at most one registered session per endpoint, and no half-made ones. After any sequence of datagrams,
  sessions made by the client itself and disconnects, the registered sessions have different endpoints, the counter is their
  number, and the table of pending sessions is empty between two calls.
\<close>
theorem one_session_per_endpoint:
  assumes "service_reachable s"
  shows "distinct (map (remoteEndpoint s) (udpSessions s)) \<and> udpSessionCount s = int (length (udpSessions s)) \<and>
    pendingUdpSessions s = []"
  using service_reachable_inv [OF assms] by (simp add: svc_inv_def)

text \<open>
  Datagrams of one sender reach one session. Whatever other senders' datagrams come in between, the next one
  from an endpoint finds the session the first one found or created.
\<close>
theorem same_sender_same_session:
  assumes "service_reachable s"
  shows "fst (FindOrCreateUdpSession ep (dir.obtain_all eps (snd (FindOrCreateUdpSession ep s)))) =
    fst (FindOrCreateUdpSession ep s)"
  by (rule dir.obtain_after_others [OF service_reachable_inv [OF assms]])

text \<open>
  Anybody can become the server. A datagram from an endpoint without a session, whatever it contains and however many
  sessions there are already (the configured maximum is not looked at), creates a connected session and makes it the
  client's own, to which the player's inputs go from then on.
\<close>
theorem stranger_takes_over:
  assumes "service_reachable s" and "ep \<notin> remoteEndpoint s ` set (udpSessions s)"
  shows "\<exists>k s'. FindOrCreateUdpSession ep s = (k, s') \<and> udpSession s' = Some k \<and> k \<notin> set (udpSessions s) \<and>
    remoteEndpoint s' k = ep \<and> udp_connected (session_of s' k) \<and> udpSessionCount s' = udpSessionCount s + 1"
  using FindOrCreate_new [OF service_reachable_inv [OF assms(1)] assms(2)] service_reachable_inv [OF assms(1)]
  by (auto simp: svc_inv_def)

definition one_session :: udp_service where
  "one_session = snd (FindOrCreateUdpSession 5 (Service None 1))"

lemma one_session_reachable: "service_reachable one_session"
  unfolding one_session_def
  by (rule service_reachable.step [OF service_reachable.start service_step.datagram]) (rule prod.collapse [symmetric])

lemma one_session_fields: "udpSessions one_session = [0]" "remoteEndpoint one_session 0 = 5" "udpSessionCount one_session = 1"
  "maxUdpSessionCount one_session = 1" "udpSession one_session = Some 0"
proof -
  have "svc_inv (Service None 1)" by (rule service_reachable_inv) (rule service_reachable.start)
  from FindOrCreate_new [OF this, of 5]
  show "udpSessions one_session = [0]" "remoteEndpoint one_session 0 = 5" "udpSessionCount one_session = 1"
    "maxUdpSessionCount one_session = 1" "udpSession one_session = Some 0"
    by (simp_all add: one_session_def Service_def)
qed

lemma one_session_per_endpoint_witness:
  "distinct (map (remoteEndpoint one_session) (udpSessions one_session)) \<and> udpSessionCount one_session = 1"
  using one_session_per_endpoint [OF one_session_reachable] by (simp add: one_session_fields)

lemma same_sender_same_session_witness:
  "fst (FindOrCreateUdpSession 5 (dir.obtain_all [6, 7] (snd (FindOrCreateUdpSession 5 one_session)))) = 0"
  using same_sender_same_session [OF one_session_reachable, of 5 "[6, 7]"]
  by (simp add: FindOrCreateUdpSession_def one_session_fields)

lemma stranger_takes_over_witness:
  "\<exists>k s'. FindOrCreateUdpSession 9 one_session = (k, s') \<and> udpSession s' = Some k \<and> k \<noteq> 0 \<and>
     maxUdpSessionCount one_session = 1 \<and> udpSessionCount s' = 2"
  using stranger_takes_over [OF one_session_reachable, of 9] by (auto simp: one_session_fields)

section \<open>The receive loop\<close>

text \<open>A receive completes, well or badly, only when one is outstanding; room bounds what it can bring.\<close>

inductive receiver_step :: "udp_receiver \<Rightarrow> udp_receiver \<Rightarrow> bool" where
  recv: "0 < outstanding_recv r \<Longrightarrow> int (length bytes) \<le> FreeSize (recv_rb r) \<Longrightarrow> recv_completed ep bytes r = Inr r' \<Longrightarrow>
    receiver_step r r'"
| failed: "0 < outstanding_recv r \<Longrightarrow> receiver_step r (recv_failed r)"

inductive_cases receiver_stepE: "receiver_step r r'"

definition receiver_ok :: "udp_receiver \<Rightarrow> bool" where
  "receiver_ok r \<longleftrightarrow> rb_inv (recv_rb r) \<and> svc_inv (recv_service r) \<and> udp_socket_open (recv_service r) \<and> outstanding_recv r = 1"

lemma Start_ok: "svc_inv svc \<Longrightarrow> maxUdpSessionCount svc = 1 \<Longrightarrow> receiver_ok (UdpReceiver_Start (UdpReceiver svc))"
  by (simp add: receiver_ok_def UdpReceiver_Start_def UdpReceiver_def udp_RegisterRecv_def UDP_BUFFER_SIZE_def rb_inv_new)
    (simp add: svc_inv_def)

lemma FindOrCreate_socket: "svc_inv s \<Longrightarrow> udp_socket_open (snd (FindOrCreateUdpSession ep s)) = udp_socket_open s"
proof (cases "ep \<in> remoteEndpoint s ` set (udpSessions s)")
  case True
  then show ?thesis using FindOrCreate_known by fastforce
next
  case False
  then show "svc_inv s \<Longrightarrow> ?thesis" using FindOrCreate_new by simp
qed

text \<open>
  C25: whole datagrams are delivered whole. When nothing is pending, a datagram that is a sequence of well-formed packets
  is handed over as exactly these packets, in order, all to the session of its sender; nothing is left pending, the buffer is rewound,
  and the next receive is posted.
\<close>
theorem datagram_delivered:
  assumes "receiver_ok r" and "pending (recv_rb r) = []" and "ps \<noteq> []" and "\<forall>p \<in> set ps. valid_packet UdpPacketHeader p"
    and "int (length (concat ps)) \<le> FreeSize (recv_rb r)"
  shows "\<exists>r'. recv_completed ep (concat ps) r = Inr r' \<and> receiver_ok r' \<and> pending (recv_rb r') = [] \<and>
    FreeSize (recv_rb r') = capacity (recv_rb r) \<and>
    handed r' = handed r @ map (Pair (fst (FindOrCreateUdpSession ep (recv_service r)))) ps"
proof -
  obtain k svc where kc: "FindOrCreateUdpSession ep (recv_service r) = (k, svc)" by fastforce
  have svc: "svc_inv svc" "udp_socket_open svc"
    using FindOrCreate_inv [OF _ kc] FindOrCreate_socket [of "recv_service r" ep] kc assms(1) by (auto simp: receiver_ok_def)
  have "0 < length (concat ps)"
    using assms(3,4) sizeof_header_pos(1) [of UdpPacketHeader] by (cases ps) (auto simp: valid_packet_def)
  obtain ok rb where w: "OnWrite (int (length (concat ps))) (socket_fill (concat ps) (recv_rb r)) = (ok, rb)" by fastforce
  have inv: "rb_inv (recv_rb r)" using assms(1) by (simp add: receiver_ok_def)
  note fw = fill_then_OnWrite [OF inv assms(5) w]
  have pend: "pending rb = concat ps" using fw(3) assms(2) by simp
  have parsed: "parse UdpPacketHeader (concat ps) = (ps, length (concat ps))"
    using parse_complete [OF assms(4), of "[]"] by (simp add: packet_ready_def)
  have data: "DataSize rb = int (length (concat ps))" using length_pending [OF fw(2)] pend by simp
  have cap: "capacity rb = capacity (recv_rb r)" using w fw(1) by (auto simp: OnWrite_def socket_fill_def split: if_splits)
  define rb1 where "rb1 = rb\<lparr>readPos := readPos rb + DataSize rb\<rparr>"
  have read: "OnRead (int (length (concat ps))) rb = (True, rb1)" by (simp add: OnRead_def data rb1_def)
  have clean: "Clean rb1 = Inr (rb1\<lparr>readPos := 0, writePos := 0\<rparr>)" by (simp add: Clean_def rb1_def DataSize_def)
  let ?r' = "r\<lparr>outstanding_recv := 1, recv_service := svc, recv_rb := rb1\<lparr>readPos := 0, writePos := 0\<rparr>,
    handed := handed r @ map (Pair k) ps\<rparr>"
  have "recv_completed ep (concat ps) r = Inr ?r'"
    using \<open>0 < length (concat ps)\<close> assms(1) w fw(1) svc(2)
    by (simp add: recv_completed_def udp_ProcessRecv_def kc pend parsed data read clean udp_RegisterRecv_def receiver_ok_def Let_def
        del: length_concat)
  moreover have "receiver_ok ?r'"
    using svc fw(2) by (auto simp: receiver_ok_def rb_inv_def rb1_def BUFFER_COUNT_def)
  moreover have "pending (recv_rb ?r') = []" "FreeSize (recv_rb ?r') = capacity (recv_rb r)"
    using cap by (simp_all add: pending_def DataSize_def FreeSize_def rb1_def)
  ultimately show ?thesis using kc by auto
qed

definition started :: udp_receiver where
  "started = UdpReceiver_Start (UdpReceiver (Service None 1))"

lemma started_ok: "receiver_ok started" "pending (recv_rb started) = []" "FreeSize (recv_rb started) = 655360"
proof -
  show "receiver_ok started" unfolding started_def
    by (rule Start_ok) (simp_all add: service_reachable_inv service_reachable.start, simp add: Service_def)
  show "pending (recv_rb started) = []" "FreeSize (recv_rb started) = 655360"
    by (simp_all add: started_def UdpReceiver_Start_def udp_RegisterRecv_def UdpReceiver_def Service_def FreeSize_def
        pending_def DataSize_def RecvBuffer_def UDP_BUFFER_SIZE_def BUFFER_COUNT_def)
qed

lemma datagram_delivered_witness:
  "\<exists>r'. recv_completed 5 [6, 0, 1, 0, 0, 0] started = Inr r' \<and> handed r' = [(0, [6, 0, 1, 0, 0, 0])]"
proof -
  have v: "\<forall>p \<in> set [[6, 0, 1, 0, 0, 0 :: BYTE]]. valid_packet UdpPacketHeader p"
    by (simp add: valid_packet_def header_size_def read_u16_def le16_def)
  have "fst (FindOrCreateUdpSession 5 (recv_service started)) = 0" "handed started = []"
    by (simp_all add: started_def UdpReceiver_Start_def udp_RegisterRecv_def UdpReceiver_def Service_def
        FindOrCreateUdpSession_def CreateSession_def Let_def)
  then show ?thesis using datagram_delivered [OF started_ok(1,2) _ v, of 5] by (auto simp: started_ok(3))
qed

text \<open>
  One empty datagram, or one error, ends the reception. The handler posts the next receive only after a
  datagram with data, and there is a single receive; afterwards no step of the receiver is possible, so nothing is handed over any more.
\<close>
theorem empty_datagram_ends_reception:
  assumes "receiver_ok r"
  shows "\<exists>r'. recv_completed ep [] r = Inr r' \<and> outstanding_recv r' = 0 \<and> (\<nexists>r''. receiver_step r' r'') \<and>
    outstanding_recv (recv_failed r) = 0 \<and> (\<nexists>r''. receiver_step (recv_failed r) r'')"
  using assms by (auto simp: recv_completed_def recv_failed_def receiver_ok_def Let_def elim!: receiver_stepE)

lemma empty_datagram_ends_reception_witness:
  "\<exists>r'. recv_completed 5 [] started = Inr r' \<and> outstanding_recv r' = 0"
  using empty_datagram_ends_reception [OF started_ok(1), of 5] by blast

text \<open>The front of the pending bytes cannot be a packet.\<close>

definition deaf :: "udp_receiver \<Rightarrow> bool" where
  "deaf r \<longleftrightarrow> rb_inv (recv_rb r) \<and> malformed_head UdpPacketHeader (pending (recv_rb r))"

lemma malformed_head_append: "malformed_head h buf \<Longrightarrow> malformed_head h (buf @ later)"
  using sizeof_header_pos(3) [of h] header_size_append [of buf later]
  by (auto simp: malformed_head_def simp del: sizeof_header_pos)

lemma recv_completed_deaf:
  assumes "rb_inv (recv_rb r)" and "malformed_head UdpPacketHeader (pending (recv_rb r) @ bytes)" and "bytes \<noteq> []"
    and fits: "int (length bytes) \<le> FreeSize (recv_rb r)" and step: "recv_completed ep bytes r = Inr r'"
  shows "deaf r' \<and> handed r' = handed r"
proof -
  obtain k svc where kc: "FindOrCreateUdpSession ep (recv_service r) = (k, svc)" by fastforce
  obtain ok rb where w: "OnWrite (int (length bytes)) (socket_fill bytes (recv_rb r)) = (ok, rb)" by fastforce
  note fw = fill_then_OnWrite [OF assms(1) fits w]
  have p: "parse UdpPacketHeader (pending rb) = ([], 0)" using parse_malformed [OF assms(2), of "[]"] fw(3) by simp
  have data: "0 \<le> DataSize rb" using rb_inv_bounds(3) [OF fw(2)] .
  then have read: "OnRead 0 rb = (True, rb)" by (simp add: OnRead_def)
  obtain rb2 where c: "Clean rb = Inr rb2" and r': "recv_rb r' = rb2" "handed r' = handed r"
    using step assms(3) w fw(1) p read data
    by (auto simp: recv_completed_def udp_ProcessRecv_def kc udp_RegisterRecv_def Let_def and_then_Inr_iff)
  from Clean_keeps_pending(1,2) [OF fw(2) c] r' show ?thesis
    using assms(2) fw(3) by (simp add: deaf_def)
qed

lemma deaf_step: "receiver_step r r' \<Longrightarrow> deaf r \<Longrightarrow> deaf r' \<and> handed r' = handed r"
proof (induction rule: receiver_step.induct)
  case (recv r bytes ep r')
  show ?case
  proof (cases "bytes = []")
    case True
    then have "r' = r\<lparr>outstanding_recv := outstanding_recv r - 1, recv_rb := socket_fill [] (recv_rb r)\<rparr>"
      using recv(3) by (simp add: recv_completed_def Let_def)
    moreover have "socket_fill [] (recv_rb r) = recv_rb r" by (simp add: socket_fill_def store_def)
    ultimately show ?thesis using recv(4) by (simp add: deaf_def)
  next
    case False
    have "malformed_head UdpPacketHeader (pending (recv_rb r) @ bytes)"
      using recv(4) malformed_head_append by (simp add: deaf_def)
    then show ?thesis using recv_completed_deaf [OF _ _ False recv(2,3)] recv(4) by (simp add: deaf_def)
  qed
qed (simp add: deaf_def recv_failed_def)

lemma deaf_steps: "receiver_step\<^sup>*\<^sup>* r r' \<Longrightarrow> deaf r \<Longrightarrow> deaf r' \<and> handed r' = handed r"
  by (induction rule: rtranclp_induct) (auto dest: deaf_step)

text \<open>
  A malformed datagram silences the client. After a datagram with something that starts with a size field smaller
  than a header behind its well-formed packets, from whatever sender, no packet of any later datagram is ever handed over.
\<close>
theorem malformed_datagram_deafens:
  assumes "receiver_ok r" and "pending (recv_rb r) = []"
    and "\<forall>p \<in> set ps. valid_packet UdpPacketHeader p" and "malformed_head UdpPacketHeader tail"
    and "int (length (concat ps @ tail)) \<le> FreeSize (recv_rb r)"
    and "recv_completed ep (concat ps @ tail) r = Inr r1" and "receiver_step\<^sup>*\<^sup>* r1 r2"
  shows "handed r2 = handed r @ map (Pair (fst (FindOrCreateUdpSession ep (recv_service r)))) ps"
proof -
  let ?b = "concat ps @ tail"
  have tail: "tail \<noteq> []" "\<not> packet_ready UdpPacketHeader tail"
    using assms(4) by (auto simp: malformed_head_def packet_ready_def)
  obtain k svc where kc: "FindOrCreateUdpSession ep (recv_service r) = (k, svc)" by fastforce
  obtain ok rb where w: "OnWrite (int (length ?b)) (socket_fill ?b (recv_rb r)) = (ok, rb)" by fastforce
  have inv: "rb_inv (recv_rb r)" using assms(1) by (simp add: receiver_ok_def)
  note fw = fill_then_OnWrite [OF inv assms(5) w]
  have p: "parse UdpPacketHeader (pending rb) = (ps, length (concat ps))"
    using parse_complete [OF assms(3) tail(2)] fw(3) assms(2) by simp
  have "int (length (concat ps)) \<le> DataSize rb" using length_pending [OF fw(2)] fw(3) assms(2) by simp
  moreover obtain ok1 rb1 where read: "OnRead (int (length (concat ps))) rb = (ok1, rb1)" by fastforce
  ultimately have rd: "ok1" "rb_inv rb1" "pending rb1 = tail" "int (length (concat ps)) \<le> DataSize rb"
    using OnRead_refines(1-3) [OF fw(2) _ _ read] fw(3) assms(2) by simp_all
  obtain rb2 where c: "Clean rb1 = Inr rb2" and r1: "recv_rb r1 = rb2" "handed r1 = handed r @ map (Pair k) ps"
    using assms(6) tail(1) w fw(1) p read rd(1,4)
    by (auto simp: recv_completed_def udp_ProcessRecv_def kc udp_RegisterRecv_def Let_def and_then_Inr_iff
        simp del: length_concat length_append)
  have "deaf r1" using Clean_keeps_pending(1,2) [OF rd(2) c] rd(3) assms(4) by (simp add: deaf_def r1)
  then show ?thesis using deaf_steps [OF assms(7)] r1 kc by simp
qed

lemma malformed_received:
  "\<exists>r1. recv_completed 7 (concat [[6, 0, 1, 0, 0, 0]] @ [0, 0, 0, 0, 0, 0]) started = Inr r1"
proof -
  let ?b = "[6, 0, 1, 0, 0, 0, 0, 0, 0, 0, 0, 0] :: BYTE list"
  obtain k svc where kc: "FindOrCreateUdpSession 7 (recv_service started) = (k, svc)" by fastforce
  obtain ok rb where w: "OnWrite (int (length ?b)) (socket_fill ?b (recv_rb started)) = (ok, rb)" by fastforce
  have inv: "rb_inv (recv_rb started)" using started_ok(1) by (simp add: receiver_ok_def)
  have rs: "recv_rb started = RecvBuffer UDP_BUFFER_SIZE"
    by (simp add: started_def UdpReceiver_Start_def udp_RegisterRecv_def UdpReceiver_def Service_def)
  note fw = fill_then_OnWrite [OF inv _ w]
  have f: "ok" "rb_inv rb" "pending rb = ?b" using fw started_ok(2,3) by simp_all
  have rb: "rb = (socket_fill ?b (RecvBuffer UDP_BUFFER_SIZE))\<lparr>writePos := 12\<rparr>"
    using w f(1) by (auto simp: OnWrite_def rs socket_fill_def RecvBuffer_def split: if_splits)
  have m: "\<forall>p \<in> set [[6, 0, 1, 0, 0, 0 :: BYTE]]. valid_packet UdpPacketHeader p" "\<not> packet_ready UdpPacketHeader [0, 0, 0, 0, 0, 0]"
    by (simp_all add: valid_packet_def packet_ready_def header_size_def read_u16_def le16_def)
  have p: "parse UdpPacketHeader ?b = ([[6, 0, 1, 0, 0, 0]], 6)" using parse_complete [OF m] by simp
  have d: "DataSize rb = 12" using length_pending [OF f(2)] f(3) by simp
  define rb1 where "rb1 = rb\<lparr>readPos := 6\<rparr>"
  have rp: "readPos rb = 0" by (simp add: rb socket_fill_def RecvBuffer_def)
  then have read: "OnRead 6 rb = (True, rb1)" by (simp add: OnRead_def d rb1_def)
  from OnRead_refines(2) [OF f(2) _ _ read] d have "rb_inv rb1" by simp
  moreover have "\<not> clean_overlaps rb1" using d rp by (simp add: clean_overlaps_def rb1_def DataSize_def)
  ultimately obtain rb2 where "Clean rb1 = Inr rb2" using Clean_overlap by (cases "Clean rb1") auto
  then show ?thesis
    using w f(1,3) by (simp add: recv_completed_def udp_ProcessRecv_def kc p d read Let_def)
qed

lemma malformed_datagram_deafens_witness:
  "\<exists>r1 k. recv_completed 7 (concat [[6, 0, 1, 0, 0, 0]] @ [0, 0, 0, 0, 0, 0]) started = Inr r1 \<and>
     handed (recv_failed r1) = [(k, [6, 0, 1, 0, 0, 0])]"
proof -
  obtain r1 where r1: "recv_completed 7 (concat [[6, 0, 1, 0, 0, 0]] @ [0, 0, 0, 0, 0, 0]) started = Inr r1"
    using malformed_received by blast
  have v: "\<forall>p \<in> set [[6, 0, 1, 0, 0, 0 :: BYTE]]. valid_packet UdpPacketHeader p"
    by (simp add: valid_packet_def header_size_def read_u16_def le16_def)
  have m: "malformed_head UdpPacketHeader [0, 0, 0, 0, 0, 0]"
    by (simp add: malformed_head_def header_size_def read_u16_def le16_def)
  have f: "int (length (concat [[6, 0, 1, 0, 0, 0]] @ [0, 0, 0, 0, 0, 0 :: BYTE])) \<le> FreeSize (recv_rb started)"
    using started_ok(3) by simp
  have "handed started = []"
    by (simp add: started_def UdpReceiver_Start_def udp_RegisterRecv_def UdpReceiver_def Service_def)
  with malformed_datagram_deafens [OF started_ok(1,2) v m f r1 rtranclp.rtrancl_refl] r1
  show ?thesis by (auto simp: recv_failed_def)
qed

end
