(* ===== verification/Client_World.thy ===== *)
theory Client_World
  imports Player Time_Manager Udp_Service
begin

text \<open>
  The client as the packet handlers see it: scene manager and game scene (\<open>SceneManager.h\<close>,
  \<open>SceneManager.cpp\<close>, \<open>GameScene.h\<close>, \<open>GameScene.cpp\<close>), session manager, and the functions \<open>Handle_S_*\<close> of
  \<open>ServerPacketHandler.cpp\<close>. The singletons are the fields of one record; a handler is a function on it that
  answers the Boolean of the code or ends in a fault. A message is a value with the fields the handlers read.
\<close>

section \<open>Game scene\<close>

record game_scene =
  gs_actors :: scene
  gs_player :: "player option"

definition GameScene :: game_scene where
  "GameScene = \<lparr>gs_actors = [], gs_player = None\<rparr>"

definition GameScene_Init :: "game_scene \<Rightarrow> game_scene" where
  "GameScene_Init g = g\<lparr>gs_actors := Scene_Init (gs_actors g)\<rparr>"

definition SetPlayer :: "player \<Rightarrow> game_scene \<Rightarrow> game_scene" where
  "SetPlayer p g = g\<lparr>gs_player := Some p\<rparr>"

definition GameScene_Render :: "fp \<Rightarrow> game_scene \<Rightarrow> game_scene \<times> draw list" where
  "GameScene_Render clientTime g =
     (let (actors, ds) = Scene_Render clientTime (gs_actors g)
      in (g\<lparr>gs_actors := actors\<rparr>, ds @ (case gs_player g of None \<Rightarrow> [] | Some p \<Rightarrow> Player_Render p)))"

section \<open>Scene manager\<close>

datatype scene_type = NoScene | GameSceneType

record scene_manager =
  current_scene :: "game_scene option"
  sceneType :: scene_type
  roomId :: uint32
  isInRoom :: bool
  isInGame :: bool
  roomList :: "(uint32 \<times> uint32 list) list"

definition SceneManager :: scene_manager where
  "SceneManager = \<lparr>current_scene = None, sceneType = NoScene, roomId = 0, isInRoom = False, isInGame = False, roomList = []\<rparr>"

definition SceneManager_Shutdown :: "scene_manager \<Rightarrow> scene_manager" where
  "SceneManager_Shutdown m = m\<lparr>current_scene := None, roomList := []\<rparr>"

text \<open>\<open>ChangeScene\<close> initialises whatever scene is there after the switch, which has no case for the scene type \<open>None\<close>.\<close>

definition ChangeScene :: "scene_type \<Rightarrow> scene_manager \<Rightarrow> scene_manager res" where
  "ChangeScene ty m =
     (if sceneType m = ty then Inr m
      else (let m1 = (case ty of GameSceneType \<Rightarrow> m\<lparr>current_scene := Some GameScene\<rparr> | NoScene \<Rightarrow> m);
                m2 = m1\<lparr>sceneType := ty\<rparr>
            in case current_scene m2 of
                 None \<Rightarrow> Inl NullDeref
               | Some g \<Rightarrow> Inr (m2\<lparr>current_scene := Some (GameScene_Init g)\<rparr>)))"

text \<open>\<open>_roomList[_roomId]\<close> inserts an empty list for a room that is not there.\<close>

definition room_entry :: "scene_manager \<Rightarrow> uint32 list \<times> scene_manager" where
  "room_entry m =
     (case map_of (roomList m) (roomId m) of
        Some ps \<Rightarrow> (ps, m)
      | None \<Rightarrow> ([], m\<lparr>roomList := (roomId m, []) # roomList m\<rparr>))"

definition GetPlayerCount :: "scene_manager \<Rightarrow> int32 \<times> scene_manager" where
  "GetPlayerCount m = (let (ps, m') = room_entry m in (int (length ps), m'))"

definition GetPlayerList :: "scene_manager \<Rightarrow> uint32 list \<times> scene_manager" where
  "GetPlayerList m = room_entry m"

definition SetRoomId :: "uint32 \<Rightarrow> scene_manager \<Rightarrow> scene_manager" where "SetRoomId r m = m\<lparr>roomId := r\<rparr>"
definition SetIsInRoom :: "bool \<Rightarrow> scene_manager \<Rightarrow> scene_manager" where "SetIsInRoom b m = m\<lparr>isInRoom := b\<rparr>"
definition SetIsInGame :: "bool \<Rightarrow> scene_manager \<Rightarrow> scene_manager" where "SetIsInGame b m = m\<lparr>isInGame := b\<rparr>"
definition SetRoomList :: "(uint32 \<times> uint32 list) list \<Rightarrow> scene_manager \<Rightarrow> scene_manager" where
  "SetRoomList rs m = m\<lparr>roomList := rs\<rparr>"

section \<open>Messages\<close>

text \<open>\<open>ActorInfo\<close>; the colour is there when the optional red part is.\<close>

record actor_info =
  info_id :: uint32
  info_position :: uint64
  info_velocity_speed :: uint64
  info_rotation :: uint32
  info_sequence :: "uint32 option"
  info_color :: "(fp \<times> fp \<times> fp) option"

datatype server_msg =
    M_LOGIN uint32
  | M_CREATE_ROOM bool uint32
  | M_ENTER_ROOM bool uint32
  | M_SYNC_ROOMLIST "(uint32 \<times> uint32 list) list"
  | M_ENTER_GAME bool string uint32
  | M_ACK uint32 uint32
  | M_HANDSHAKE bool
  | M_CHAT string
  | M_SYNC_TIME fp
  | M_SPAWN_ACTOR uint32 "actor_info list"
  | M_SYNC_ACTOR fp "actor_info list"
  | M_PLAYER_INPUT
  | M_HIT_RESULT uint32 uint64

datatype client_msg =
    CM_LOGIN | CM_CREATE_ROOM | CM_ENTER_ROOM uint32 | CM_ENTER_GAME | CM_SYNC_TIME
  | CM_ACK uint16 uint32 | CM_HANDSHAKE uint32 | CM_SPAWN_ACTOR | CM_PLAYER_INPUT uint32 uint32 uint32 fp

fun class_of :: "client_msg \<Rightarrow> packet_class" where
  "class_of CM_LOGIN = C_LOGIN" | "class_of CM_CREATE_ROOM = C_CREATE_ROOM" | "class_of (CM_ENTER_ROOM r) = C_ENTER_ROOM"
| "class_of CM_ENTER_GAME = C_ENTER_GAME" | "class_of CM_SYNC_TIME = C_SYNC_TIME" | "class_of (CM_ACK q b) = C_ACK"
| "class_of (CM_HANDSHAKE u) = C_HANDSHAKE" | "class_of CM_SPAWN_ACTOR = C_SPAWN_ACTOR"
| "class_of (CM_PLAYER_INPUT q k r t) = C_PLAYER_INPUT"

section \<open>The state of the client, and what it does not contain\<close>

record world =
  w_time :: time_manager
  w_input :: input_manager
  w_scenes :: scene_manager
  w_debug :: "debug_object list"       \<comment> \<open>\<open>Renderer::_debugDrawObjects\<close>\<close>
  w_userId :: uint32
  w_tcp :: bool                        \<comment> \<open>\<open>SessionManager::_tcpSession\<close> is set\<close>
  w_tcp_sent :: "BYTE list list"       \<comment> \<open>packets given to its \<open>Send\<close>\<close>
  w_service :: udp_service
  w_memory :: packet_memory
  w_next :: nat                        \<comment> \<open>handle of the next send buffer\<close>

text \<open>Library functions, the counter at the two times it may be read, the running thread, serialised messages.\<close>

record env =
  e_cosf :: "fp \<Rightarrow> fp"
  e_sinf :: "fp \<Rightarrow> fp"
  e_lerp :: "fp \<Rightarrow> fp \<Rightarrow> fp \<Rightarrow> fp"
  e_muzzle :: "fp \<Rightarrow> fp \<Rightarrow> vec3"
  e_endpoint :: "string \<Rightarrow> uint16 \<Rightarrow> nat option"   \<comment> \<open>\<open>make_address\<close> throws where it is \<open>None\<close>\<close>
  e_body :: "client_msg \<Rightarrow> BYTE list"
  e_count :: uint64
  e_count2 :: uint64
  e_thread :: nat

definition client_time :: "env \<Rightarrow> world \<Rightarrow> fp" where
  "client_time e w = GetClientTime (e_count e) (w_time w)"

text \<open>\<open>MakeSendBufferUdp\<close> of a message and \<open>SendReliable\<close> on the session \<open>k\<close>.\<close>

definition send_reliable :: "env \<Rightarrow> nat \<Rightarrow> client_msg \<Rightarrow> world \<Rightarrow> world res" where
  "send_reliable e k msg w =
     and_then (MakeSendBufferUdp (e_thread e) (w_next w) (e_body e msg) (class_of msg) (w_memory w)) (\<lambda>m.
     and_then (SendReliable_packet (w_next w) (client_time e w) m (session_of (w_service w) k)) (\<lambda>(m', s).
       Inr (w\<lparr>w_memory := m', w_next := Suc (w_next w),
              w_service := (w_service w)\<lparr>session_of := (session_of (w_service w))(k := s)\<rparr>\<rparr>)))"

section \<open>Handlers\<close>

text \<open>The session a packet came on: its dynamic class decides what a cast to \<open>GameUdpSession\<close> is worth.\<close>

datatype session_ref = TcpRef | UdpRef nat

definition Handle_S_LOGIN :: "uint32 \<Rightarrow> world \<Rightarrow> (bool \<times> world) res" where
  "Handle_S_LOGIN uid w = (if uid = 0 then Inr (False, w) else Inr (True, w\<lparr>w_userId := uid\<rparr>))"

definition Handle_S_CREATE_ROOM :: "bool \<Rightarrow> uint32 \<Rightarrow> world \<Rightarrow> (bool \<times> world) res" where
  "Handle_S_CREATE_ROOM success room w =
     (if \<not> success then Inr (False, w)
      else Inr (True, w\<lparr>w_scenes := SetIsInRoom True (SetRoomId room (w_scenes w))\<rparr>))"

definition Handle_S_ENTER_ROOM :: "bool \<Rightarrow> uint32 \<Rightarrow> world \<Rightarrow> (bool \<times> world) res" where
  "Handle_S_ENTER_ROOM success room w =
     (if \<not> success then Inr (False, w)
      else Inr (True, w\<lparr>w_scenes := SetIsInRoom True (SetRoomId room (w_scenes w))\<rparr>))"

definition Handle_S_SYNC_ROOMLIST :: "(uint32 \<times> uint32 list) list \<Rightarrow> world \<Rightarrow> (bool \<times> world) res" where
  "Handle_S_SYNC_ROOMLIST infos w =
     Inr (True, w\<lparr>w_scenes := SetRoomList (foldl (\<lambda>rooms (r, ps). AList.update r ps rooms) [] infos) (w_scenes w)\<rparr>)"

definition Handle_S_ENTER_GAME :: "env \<Rightarrow> bool \<Rightarrow> string \<Rightarrow> uint32 \<Rightarrow> world \<Rightarrow> (bool \<times> world) res" where
  "Handle_S_ENTER_GAME e success ip port w =
     (if success = False then Inr (False, w)
      else case e_endpoint e ip (ucast port) of
             None \<Rightarrow> Inl Uncaught
           | Some ep \<Rightarrow>
               (let (k, svc) = CreateSession (SetUdpRemoteEndpoint ep (w_service w))
                in and_then (send_reliable e k (CM_HANDSHAKE (w_userId w)) (w\<lparr>w_service := svc\<rparr>)) (\<lambda>w1. Inr (True, w1))))"

definition Handle_S_ACK :: "session_ref \<Rightarrow> uint32 \<Rightarrow> uint32 \<Rightarrow> world \<Rightarrow> (bool \<times> world) res" where
  "Handle_S_ACK ref latest bitfield w =
     (case ref of
        TcpRef \<Rightarrow> Inl BadCast
      | UdpRef k \<Rightarrow> Inr (True, w\<lparr>w_service := (w_service w)\<lparr>session_of :=
          (session_of (w_service w))(k := HandleAck (ucast latest) bitfield (session_of (w_service w) k))\<rparr>\<rparr>))"

definition Handle_S_HANDSHAKE :: "env \<Rightarrow> session_ref \<Rightarrow> bool \<Rightarrow> world \<Rightarrow> (bool \<times> world) res" where
  "Handle_S_HANDSHAKE e ref success w =
     (if success = False then Inr (False, w)
      else case ref of
             TcpRef \<Rightarrow> Inl BadCast
           | UdpRef k \<Rightarrow> and_then (send_reliable e k CM_SPAWN_ACTOR w) (\<lambda>w1. Inr (True, w1)))"

definition Handle_S_CHAT :: "string \<Rightarrow> world \<Rightarrow> (bool \<times> world) res" where
  "Handle_S_CHAT msg w = Inr (True, w)"

definition Handle_S_SYNC_TIME :: "env \<Rightarrow> fp \<Rightarrow> world \<Rightarrow> (bool \<times> world) res" where
  "Handle_S_SYNC_TIME e serverTime w =
     (let tm = OnServerTimeReceived (e_lerp e) (e_count e) serverTime (w_time w); w1 = w\<lparr>w_time := tm\<rparr> in
      case current_scene (w_scenes w1) of
        None \<Rightarrow> Inl NullDeref
      | Some g \<Rightarrow> and_then (OnReceiveServerTime (avgRtt tm) (jitter tm) (gs_actors g)) (\<lambda>actors.
          Inr (True, w1\<lparr>w_scenes := (w_scenes w1)\<lparr>current_scene := Some (g\<lparr>gs_actors := actors\<rparr>)\<rparr>\<rparr>)))"

text \<open>One turn of the loop over the actors to spawn, and of the loop over the actors to synchronise.\<close>

definition info_rgba :: "actor_info \<Rightarrow> vec4" where
  "info_rgba info = (case info_color info of None \<Rightarrow> Vec4 0 0 0 0 | Some (r, g, b) \<Rightarrow> Vec4 r g b 1)"

definition set_actor :: "actor_info \<Rightarrow> actor_data \<Rightarrow> actor_data" where
  "set_actor info a = SetColor (info_rgba info)
     (SetTransform (info_position info) (info_velocity_speed info) (info_rotation info) (SetActorId (info_id info) a))"

definition spawn_actor :: "uint32 \<Rightarrow> actor_info \<Rightarrow> game_scene \<Rightarrow> game_scene" where
  "spawn_actor playerActorId info g =
     (if GetActorByActorId (info_id info) (gs_actors g) \<noteq> None then g
      else if info_id info = playerActorId then SetPlayer (Player\<lparr>player_base := set_actor info (player_base Player)\<rparr>) g
      else if GetActorType (info_id info) = ActorTypePrefix_Floor
           then g\<lparr>gs_actors := AddActor (AFloor (set_actor info Actor)) (gs_actors g)\<rparr>
           else g\<lparr>gs_actors := AddActor (ARemote (RemoteActor\<lparr>remote_base := set_actor info (remote_base RemoteActor)\<rparr>)) (gs_actors g)\<rparr>)"

definition Handle_S_SPAWN_ACTOR :: "uint32 \<Rightarrow> actor_info list \<Rightarrow> world \<Rightarrow> (bool \<times> world) res" where
  "Handle_S_SPAWN_ACTOR playerActorId infos w =
     (let w1 = w\<lparr>w_scenes := SetIsInGame True (w_scenes w), w_input := SetMouseVisible False (w_input w)\<rparr> in
      case current_scene (w_scenes w1) of
        None \<Rightarrow> if infos = [] then Inr (True, w1) else Inl NullDeref
      | Some g \<Rightarrow> Inr (True, w1\<lparr>w_scenes := (w_scenes w1)\<lparr>current_scene := Some (foldl (\<lambda>g i. spawn_actor playerActorId i g) g infos)\<rparr>\<rparr>))"

definition sync_actor :: "env \<Rightarrow> fp \<Rightarrow> actor_info \<Rightarrow> game_scene \<Rightarrow> game_scene res" where
  "sync_actor e ts info g =
     (case gs_player g of
        None \<Rightarrow> Inr g
      | Some p \<Rightarrow>
          if info_id info = actorId (player_base p) then
            (case info_sequence info of
               None \<Rightarrow> Inr g
             | Some seq \<Rightarrow>
                 and_then (Reconcile (e_cosf e) (e_sinf e) (info_position info) (info_velocity_speed info) (info_rotation info) seq p)
                   (\<lambda>p'. Inr (g\<lparr>gs_player := Some p'\<rparr>)))
          else
            (case GetActorByActorId (info_id info) (gs_actors g) of
               None \<Rightarrow> Inr g
             | Some a \<Rightarrow>
                 and_then (as_remote (UpdateSnapshot (info_position info) (info_velocity_speed info) (info_rotation info) ts) a)
                   (\<lambda>a'. Inr (g\<lparr>gs_actors := at_actor (info_id info)
                      (if info_color info \<noteq> None then map_base (SetColor (info_rgba info)) a' else a') (gs_actors g)\<rparr>))))"

definition Handle_S_SYNC_ACTOR :: "env \<Rightarrow> fp \<Rightarrow> actor_info list \<Rightarrow> world \<Rightarrow> (bool \<times> world) res" where
  "Handle_S_SYNC_ACTOR e ts infos w =
     (case current_scene (w_scenes w) of
        None \<Rightarrow> if infos = [] then Inr (True, w) else Inl NullDeref
      | Some g \<Rightarrow> and_then (fold_res (sync_actor e ts) infos g) (\<lambda>g'.
          Inr (True, w\<lparr>w_scenes := (w_scenes w)\<lparr>current_scene := Some g'\<rparr>\<rparr>)))"

definition Handle_S_PLAYER_INPUT :: "world \<Rightarrow> (bool \<times> world) res" where
  "Handle_S_PLAYER_INPUT w = Inr (True, w)"

definition AddDebugDrawObject :: "debug_object \<Rightarrow> world \<Rightarrow> world" where
  "AddDebugDrawObject obj w = w\<lparr>w_debug := w_debug w @ [obj]\<rparr>"

definition Handle_S_HIT_RESULT :: "env \<Rightarrow> uint32 \<Rightarrow> uint64 \<Rightarrow> world \<Rightarrow> (bool \<times> world) res" where
  "Handle_S_HIT_RESULT e hitActor position w =
     (let (px, py, pz) = UnPackPosition position in
      case current_scene (w_scenes w) of
        None \<Rightarrow> Inl NullDeref
      | Some g \<Rightarrow>
         (case gs_player g of
            None \<Rightarrow> Inl NullDeref
          | Some p \<Rightarrow> Inr (True, fold AddDebugDrawObject
              (Fire (e_muzzle e) (client_time e w) (GetClientTime (e_count2 e) (w_time w)) px py pz p) w)))"

fun run_handler :: "env \<Rightarrow> session_ref \<Rightarrow> server_msg \<Rightarrow> world \<Rightarrow> (bool \<times> world) res" where
  "run_handler e ref (M_LOGIN u) w = Handle_S_LOGIN u w"
| "run_handler e ref (M_CREATE_ROOM b r) w = Handle_S_CREATE_ROOM b r w"
| "run_handler e ref (M_ENTER_ROOM b r) w = Handle_S_ENTER_ROOM b r w"
| "run_handler e ref (M_SYNC_ROOMLIST rs) w = Handle_S_SYNC_ROOMLIST rs w"
| "run_handler e ref (M_ENTER_GAME b ip port) w = Handle_S_ENTER_GAME e b ip port w"
| "run_handler e ref (M_ACK q f) w = Handle_S_ACK ref q f w"
| "run_handler e ref (M_HANDSHAKE b) w = Handle_S_HANDSHAKE e ref b w"
| "run_handler e ref (M_CHAT m) w = Handle_S_CHAT m w"
| "run_handler e ref (M_SYNC_TIME t) w = Handle_S_SYNC_TIME e t w"
| "run_handler e ref (M_SPAWN_ACTOR p infos) w = Handle_S_SPAWN_ACTOR p infos w"
| "run_handler e ref (M_SYNC_ACTOR t infos) w = Handle_S_SYNC_ACTOR e t infos w"
| "run_handler e ref M_PLAYER_INPUT w = Handle_S_PLAYER_INPUT w"
| "run_handler e ref (M_HIT_RESULT a p) w = Handle_S_HIT_RESULT e a p w"

text \<open>A packet on the TCP session, and one the receiver hands over for the UDP session \<open>k\<close>.\<close>

definition OnRecv_tcp :: "env \<Rightarrow> (packet_class \<Rightarrow> BYTE list \<Rightarrow> server_msg option) \<Rightarrow> BYTE list \<Rightarrow> world \<Rightarrow> (bool \<times> world) res" where
  "OnRecv_tcp e P buffer w =
     and_then (HandlePacket_Tcp P buffer) (\<lambda>called.
       case called of None \<Rightarrow> Inr (False, w) | Some (c, msg) \<Rightarrow> run_handler e TcpRef msg w)"

definition OnRecv_udp :: "env \<Rightarrow> (packet_class \<Rightarrow> BYTE list \<Rightarrow> server_msg option) \<Rightarrow> nat \<Rightarrow> BYTE list \<Rightarrow> world \<Rightarrow> (bool \<times> world) res" where
  "OnRecv_udp e P k buffer w =
     and_then (HandlePacket_Udp P (\<lambda>q f. e_body e (CM_ACK q f)) (e_thread e) (w_next w) buffer (w_memory w)
         (session_of (w_service w) k)) (\<lambda>(called, m, s).
       let w1 = w\<lparr>w_memory := m, w_next := Suc (w_next w),
                  w_service := (w_service w)\<lparr>session_of := (session_of (w_service w))(k := s)\<rparr>\<rparr>
       in case called of None \<Rightarrow> Inr (False, w1) | Some (c, msg) \<Rightarrow> run_handler e (UdpRef k) msg w1)"

section \<open>Well-formed clients\<close>

definition world_ok :: "nat \<Rightarrow> world \<Rightarrow> bool" where
  "world_ok t w \<longleftrightarrow> (\<exists>g. current_scene (w_scenes w) = Some g \<and> scene_ok (gs_actors g)) \<and>
     mem_ok (w_memory w) \<and> thread_idle t (w_memory w) \<and> fst ` set (live (bufs (w_memory w))) \<subseteq> {..<w_next w} \<and>
     svc_inv (w_service w)"

definition env_ok :: "env \<Rightarrow> bool" where
  "env_ok e \<longleftrightarrow> (\<forall>msg. length (e_body e msg) \<le> 5994)"

lemma live_dom: "fst ` set (live m) = dom (map_of (live m))"
  by (simp add: dom_map_of_conv_image_fst)

lemma send_reliable_works:
  assumes "world_ok (e_thread e) w" and "env_ok e"
  shows "\<exists>w'. send_reliable e k msg w = Inr w' \<and> world_ok (e_thread e) w' \<and> w_scenes w' = w_scenes w"
proof -
  let ?i = "w_next w"
  have w: "mem_ok (w_memory w)" "thread_idle (e_thread e) (w_memory w)" "?i \<notin> fst ` set (live (bufs (w_memory w)))"
    "length (e_body e msg) + sizeof_header UdpPacketHeader \<le> 6000"
    using assms by (auto simp: world_ok_def env_ok_def)
  from MakeSendBuffer_works [OF w, of "PKT (class_of msg)"] obtain b :: send_buffer and m where
    m: "MakeSendBufferUdp (e_thread e) ?i (e_body e msg) (class_of msg) (w_memory w) = Inr m" "mem_ok m"
    "thread_idle (e_thread e) m" "map_of (live (bufs m)) ?i = Some b" "offset b + 6 \<le> 6000"
    "\<forall>j. j \<noteq> ?i \<longrightarrow> map_of (live (bufs m)) j = map_of (live (bufs (w_memory w))) j"
    by (auto simp: MakeSendBufferUdp_def)
  from SendReliable_packet_works [OF m(2,4,5)] obtain m' s' where
    s: "SendReliable_packet ?i (client_time e w) m (session_of (w_service w) k) = Inr (m', s')" "mem_ok m'" "bufs m' = bufs m"
    by blast
  have "fst ` set (live (bufs m)) \<subseteq> {..<Suc ?i}"
  proof
    fix j assume "j \<in> fst ` set (live (bufs m))"
    then have "j = ?i \<or> j \<in> fst ` set (live (bufs (w_memory w)))" using m(6) unfolding live_dom by (cases "j = ?i") auto
    then show "j \<in> {..<Suc ?i}" using assms(1) by (auto simp: world_ok_def)
  qed
  moreover have "thread_idle (e_thread e) m'" using m(3) s(3) by (simp add: thread_idle_def)
  ultimately show ?thesis using assms(1) m s by (simp add: send_reliable_def world_ok_def svc_inv_frame)
qed

section \<open>The two loops over actors\<close>

lemma set_actor_id [simp]: "actorId (set_actor info a) = info_id info"
  by (simp add: set_actor_def SetActorId_def)

lemma spawn_actor_ok: "scene_ok (gs_actors g) \<Longrightarrow> scene_ok (gs_actors (spawn_actor p info g))"
  by (auto simp: spawn_actor_def SetPlayer_def RemoteActor_def MovementInterpolator_def in_time_order_def intro!: AddActor_ok)

lemma spawn_all_ok: "scene_ok (gs_actors g) \<Longrightarrow> scene_ok (gs_actors (foldl (\<lambda>g i. spawn_actor p i g) g infos))"
  by (induction infos arbitrary: g) (auto intro: spawn_actor_ok)

text \<open>An update for an actor that is a floor, while there is a player.\<close>

definition names_floor :: "game_scene \<Rightarrow> actor_info \<Rightarrow> bool" where
  "names_floor g info \<longleftrightarrow> (\<exists>p a. gs_player g = Some p \<and> info_id info \<noteq> actorId (player_base p) \<and>
     GetActorByActorId (info_id info) (gs_actors g) = Some (AFloor a))"

lemma at_actor_lookup:
  "GetActorByActorId j (at_actor i a sc) =
     (if j = i then map_option (\<lambda>_. a) (GetActorByActorId j sc) else GetActorByActorId j sc)"
  by (induction sc) (auto simp: at_actor_def GetActorByActorId_def)

lemma Reconcile_keeps_id:
  "Reconcile cosf sinf pos vel rot ack p = Inr p' \<Longrightarrow> actorId (player_base p') = actorId (player_base p)"
  using Reconcile_result [of pos vel rot p cosf sinf ack] by (auto simp: corrected_def)

lemma Reconcile_total: "\<exists>p'. Reconcile cosf sinf pos vel rot ack p = Inr p'"
  using Reconcile_result by blast

lemma sync_actor_floor: "names_floor g info \<Longrightarrow> sync_actor e ts info g = Inl BadCast"
  by (auto simp: names_floor_def sync_actor_def)

lemma sync_actor_ok:
  assumes "scene_ok (gs_actors g)" and "\<not> names_floor g info"
  shows "\<exists>g'. sync_actor e ts info g = Inr g' \<and> scene_ok (gs_actors g') \<and> names_floor g' = names_floor g"
proof (cases "gs_player g")
  case None
  then show ?thesis using assms by (simp add: sync_actor_def)
next
  case (Some p)
  consider "info_id info = actorId (player_base p)" | "info_id info \<noteq> actorId (player_base p)"
      "GetActorByActorId (info_id info) (gs_actors g) = None"
    | r where "info_id info \<noteq> actorId (player_base p)" "GetActorByActorId (info_id info) (gs_actors g) = Some (ARemote r)"
    using assms(2) Some unfolding names_floor_def by (metis actor.exhaust option.exhaust)
  then show ?thesis
  proof cases
    case 1
    show ?thesis
    proof (cases "info_sequence info")
      case None
      then show ?thesis using 1 Some assms by (simp add: sync_actor_def)
    next
      case (Some seq)
      obtain p' where p': "Reconcile (e_cosf e) (e_sinf e) (info_position info) (info_velocity_speed info) (info_rotation info) seq p = Inr p'"
        using Reconcile_total by blast
      then have "sync_actor e ts info g = Inr (g\<lparr>gs_player := Some p'\<rparr>)"
        using 1 Some \<open>gs_player g = Some p\<close> by (simp add: sync_actor_def)
      moreover have "names_floor (g\<lparr>gs_player := Some p'\<rparr>) = names_floor g"
        using Reconcile_keeps_id [OF p'] \<open>gs_player g = Some p\<close> by (auto simp: names_floor_def fun_eq_iff)
      ultimately show ?thesis using assms(1) by simp
    qed
  next
    case 2
    then show ?thesis using Some assms by (simp add: sync_actor_def)
  next
    case 3
    let ?r = "UpdateSnapshot (info_position info) (info_velocity_speed info) (info_rotation info) ts r"
    let ?a = "if info_color info \<noteq> None then map_base (SetColor (info_rgba info)) (ARemote ?r) else ARemote ?r"
    have entry: "actorId (remote_base r) = info_id info" "actor_ok (ARemote r)"
      using scene_ok_entry [OF assms(1), of "info_id info" "ARemote r"] 3(2) by (simp_all add: GetActorByActorId_def del: actor_ok.simps)
    have a: "actor_ok ?a" "actorId (base ?a) = info_id info"
      using UpdateSnapshot_ok [OF entry(2)] entry(1) by (simp_all del: actor_ok.simps map_base.simps)
    have cls: "\<nexists>b. ?a = AFloor b" by simp
    have "sync_actor e ts info g = Inr (g\<lparr>gs_actors := at_actor (info_id info) ?a (gs_actors g)\<rparr>)"
      using 3 Some by (simp add: sync_actor_def)
    moreover have "scene_ok (at_actor (info_id info) ?a (gs_actors g))" by (rule at_actor_ok [OF assms(1) a])
    moreover have "names_floor (g\<lparr>gs_actors := at_actor (info_id info) ?a (gs_actors g)\<rparr>) = names_floor g"
      using cls 3(2) by (auto simp: names_floor_def fun_eq_iff at_actor_lookup)
    ultimately show ?thesis by simp
  qed
qed

lemma sync_all:
  assumes "scene_ok (gs_actors g)"
  shows "if \<exists>info \<in> set infos. names_floor g info then fold_res (sync_actor e ts) infos g = Inl BadCast
    else \<exists>g'. fold_res (sync_actor e ts) infos g = Inr g' \<and> scene_ok (gs_actors g')"
  using assms
proof (induction infos arbitrary: g)
  case (Cons info infos)
  show ?case
  proof (cases "names_floor g info")
    case True
    then show ?thesis by (simp add: sync_actor_floor)
  next
    case False
    from sync_actor_ok [OF Cons.prems this, of e ts] obtain g' where
      g': "sync_actor e ts info g = Inr g'" "scene_ok (gs_actors g')" "names_floor g' = names_floor g" by blast
    from Cons.IH [OF g'(2)] False g' show ?thesis by simp
  qed
qed simp

section \<open>What a message can do to the client\<close>

definition the_game :: "world \<Rightarrow> game_scene" where
  "the_game w = the (current_scene (w_scenes w))"

text \<open>The faults of the handlers, read off message, session and scene.\<close>

fun message_fault :: "env \<Rightarrow> session_ref \<Rightarrow> server_msg \<Rightarrow> world \<Rightarrow> fault option" where
  "message_fault e ref (M_ENTER_GAME success ip port) w =
     (if success \<and> e_endpoint e ip (ucast port) = None then Some Uncaught else None)"
| "message_fault e ref (M_ACK q f) w = (if ref = TcpRef then Some BadCast else None)"
| "message_fault e ref (M_HANDSHAKE success) w = (if success \<and> ref = TcpRef then Some BadCast else None)"
| "message_fault e ref (M_SYNC_ACTOR t infos) w =
     (if \<exists>info \<in> set infos. names_floor (the_game w) info then Some BadCast else None)"
| "message_fault e ref (M_HIT_RESULT a p) w = (if gs_player (the_game w) = None then Some NullDeref else None)"
| "message_fault e ref _ w = None"

lemma world_ok_scenes:
  "world_ok t w \<Longrightarrow> current_scene m = Some g \<Longrightarrow> scene_ok (gs_actors g) \<Longrightarrow> world_ok t (w\<lparr>w_scenes := m\<rparr>)"
  by (simp add: world_ok_def)

lemma world_ok_frame [simp]:
  "world_ok t (w\<lparr>w_userId := u\<rparr>) = world_ok t w" "world_ok t (w\<lparr>w_debug := d\<rparr>) = world_ok t w"
  "world_ok t (w\<lparr>w_time := tm\<rparr>) = world_ok t w" "world_ok t (w\<lparr>w_input := im\<rparr>) = world_ok t w"
  "world_ok t (w\<lparr>w_service := (w_service w)\<lparr>session_of := f\<rparr>\<rparr>) = world_ok t w"
  by (simp_all add: world_ok_def svc_inv_frame)

lemma world_ok_game: "world_ok t w \<Longrightarrow> current_scene (w_scenes w) = Some (the_game w) \<and> scene_ok (gs_actors (the_game w))"
  by (auto simp: world_ok_def the_game_def)

lemma AddDebug_ok: "world_ok t (fold AddDebugDrawObject ds w) = world_ok t w"
  by (induction ds arbitrary: w) (simp_all add: AddDebugDrawObject_def)

lemma ENTER_GAME_ok:
  assumes "world_ok (e_thread e) w" and "env_ok e"
  shows "case Handle_S_ENTER_GAME e success ip port w of
      Inl f \<Rightarrow> message_fault e ref (M_ENTER_GAME success ip port) w = Some f
    | Inr (b, w') \<Rightarrow> message_fault e ref (M_ENTER_GAME success ip port) w = None \<and> world_ok (e_thread e) w'"
proof (cases "success \<and> e_endpoint e ip (ucast port) \<noteq> None")
  case False
  then show ?thesis using assms by (auto simp: Handle_S_ENTER_GAME_def)
next
  case True
  then obtain ep where ep: "e_endpoint e ip (ucast port) = Some ep" by auto
  obtain k svc where c: "CreateSession (SetUdpRemoteEndpoint ep (w_service w)) = (k, svc)" by fastforce
  have "svc_inv svc" using CreateSession_inv [OF _ c] assms(1) by (simp add: world_ok_def SetUdpRemoteEndpoint_def svc_inv_frame)
  then have "world_ok (e_thread e) (w\<lparr>w_service := svc\<rparr>)" using assms(1) by (simp add: world_ok_def)
  from send_reliable_works [OF this assms(2), of k "CM_HANDSHAKE (w_userId w)"] show ?thesis
    using True ep c by (auto simp: Handle_S_ENTER_GAME_def)
qed

lemma SYNC_TIME_ok:
  assumes "world_ok t w"
  shows "\<exists>w'. Handle_S_SYNC_TIME e ts w = Inr (True, w') \<and> world_ok t w'"
proof -
  define tm where "tm = OnServerTimeReceived (e_lerp e) (e_count e) ts (w_time w)"
  obtain actors where a: "OnReceiveServerTime (avgRtt tm) (jitter tm) (gs_actors (the_game w)) = Inr actors" "scene_ok actors"
    using OnReceiveServerTime_ok world_ok_game [OF assms] by blast
  then show ?thesis using assms world_ok_game [OF assms]
    by (simp add: Handle_S_SYNC_TIME_def tm_def [symmetric] Let_def world_ok_def)
qed

lemma SPAWN_ACTOR_ok:
  assumes "world_ok t w"
  shows "\<exists>w'. Handle_S_SPAWN_ACTOR p infos w = Inr (True, w') \<and> world_ok t w'"
  using assms world_ok_game [OF assms] spawn_all_ok [of "the_game w" p infos]
  by (simp add: Handle_S_SPAWN_ACTOR_def SetIsInGame_def world_ok_def)

lemma SYNC_ACTOR_ok:
  assumes "world_ok t w"
  shows "case Handle_S_SYNC_ACTOR e ts infos w of
      Inl f \<Rightarrow> message_fault e ref (M_SYNC_ACTOR ts infos) w = Some f
    | Inr (b, w') \<Rightarrow> message_fault e ref (M_SYNC_ACTOR ts infos) w = None \<and> world_ok t w'"
  using sync_all [of "the_game w" infos e ts] world_ok_game [OF assms] assms
  by (cases "\<exists>info \<in> set infos. names_floor (the_game w) info") (auto simp: Handle_S_SYNC_ACTOR_def world_ok_def)

lemma send_HANDSHAKE_ok:
  assumes "world_ok (e_thread e) w" and "env_ok e"
  shows "case Handle_S_HANDSHAKE e ref success w of
      Inl f \<Rightarrow> message_fault e ref (M_HANDSHAKE success) w = Some f
    | Inr (b, w') \<Rightarrow> message_fault e ref (M_HANDSHAKE success) w = None \<and> world_ok (e_thread e) w'"
proof (cases "success \<and> ref \<noteq> TcpRef")
  case False
  then show ?thesis using assms by (auto simp: Handle_S_HANDSHAKE_def)
next
  case True
  then obtain k where "ref = UdpRef k" by (cases ref) auto
  with True send_reliable_works [OF assms, of k CM_SPAWN_ACTOR] show ?thesis by (auto simp: Handle_S_HANDSHAKE_def)
qed

lemma run_handler_outcome:
  assumes "world_ok (e_thread e) w" and "env_ok e"
  shows "case run_handler e ref msg w of
      Inl f \<Rightarrow> message_fault e ref msg w = Some f
    | Inr (b, w') \<Rightarrow> message_fault e ref msg w = None \<and> world_ok (e_thread e) w'"
proof (cases msg)
  case (M_ENTER_GAME success ip port)
  show ?thesis unfolding M_ENTER_GAME run_handler.simps by (rule ENTER_GAME_ok [OF assms])
next
  case (M_HANDSHAKE success)
  show ?thesis unfolding M_HANDSHAKE run_handler.simps by (rule send_HANDSHAKE_ok [OF assms])
next
  case (M_SYNC_TIME ts)
  then show ?thesis using SYNC_TIME_ok [OF assms(1), of e ts] by auto
next
  case (M_SPAWN_ACTOR p infos)
  then show ?thesis using SPAWN_ACTOR_ok [OF assms(1), of p infos] by auto
next
  case (M_SYNC_ACTOR ts infos)
  show ?thesis unfolding M_SYNC_ACTOR run_handler.simps by (rule SYNC_ACTOR_ok [OF assms(1)])
next
  case (M_HIT_RESULT a p)
  then show ?thesis using world_ok_game [OF assms(1)] assms(1)
    by (simp add: Handle_S_HIT_RESULT_def case_prod_beta AddDebug_ok split: option.splits)
next
  case (M_ACK q f)
  then show ?thesis using assms(1) by (simp add: Handle_S_ACK_def split: session_ref.splits)
qed (use assms(1) world_ok_game [OF assms(1)] in
    \<open>auto simp: Handle_S_LOGIN_def Handle_S_CREATE_ROOM_def Handle_S_ENTER_ROOM_def Handle_S_SYNC_ROOMLIST_def Handle_S_CHAT_def
      Handle_S_PLAYER_INPUT_def SetIsInRoom_def SetRoomId_def SetRoomList_def intro!: world_ok_scenes\<close>)

text \<open>
  C7: every message of the server keeps the client well formed or is one of five faults. On a client
  whose scene is typed (one actor per id, of the class the id names, with its snapshots in time order) the handler
  of a message ends in a fault exactly when \<open>message_fault\<close> says so, and otherwise leaves the client well formed. The faults: an
  address that does not parse, an acknowledgement or handshake on the TCP session, an update that names a floor, a hit without a player.
\<close>
theorem messages_keep_client_typed:
  assumes "world_ok (e_thread e) w" and "env_ok e"
  shows "case run_handler e ref msg w of
      Inl f \<Rightarrow> message_fault e ref msg w = Some f
    | Inr (b, w') \<Rightarrow> message_fault e ref msg w = None \<and> world_ok (e_thread e) w'"
  by (rule run_handler_outcome [OF assms])

text \<open>The client after \<open>Game::Init\<close>, before the first packet.\<close>

definition client_start :: world where
  "client_start = \<lparr>w_time = TimeManager_Init 10000000 0 TimeManager, w_input = InputManager,
     w_scenes = SceneManager\<lparr>current_scene := Some GameScene, sceneType := GameSceneType\<rparr>, w_debug = [], w_userId = 0,
     w_tcp = True, w_tcp_sent = [], w_service = Service None 1, w_memory = fresh_memory 0, w_next = 0\<rparr>"

definition sample_env :: env where
  "sample_env = \<lparr>e_cosf = (\<lambda>_. 1), e_sinf = (\<lambda>_. 0), e_lerp = (\<lambda>a b t. b), e_muzzle = (\<lambda>_ _. Vec3 0 0 0),
     e_endpoint = (\<lambda>ip port. Some (unat port)), e_body = (\<lambda>_. []), e_count = 0, e_count2 = 0, e_thread = 0\<rparr>"

lemma client_start_ok: "world_ok (e_thread sample_env) client_start" "env_ok sample_env"
proof -
  have "svc_inv (Service None 1)" by (rule service_reachable_inv) (rule service_reachable.start)
  then show "world_ok (e_thread sample_env) client_start"
    using fresh_memory_ok(1,2) [of 0]
    by (simp add: world_ok_def client_start_def sample_env_def GameScene_def fresh_memory_def SendBufferManager_def)
  show "env_ok sample_env" by (simp add: env_ok_def sample_env_def)
qed

lemma messages_keep_client_typed_witness:
  "run_handler sample_env TcpRef (M_HIT_RESULT 1 0) client_start = Inl NullDeref \<and>
   (\<exists>w'. run_handler sample_env TcpRef (M_ENTER_GAME True ''127.0.0.1'' 9) client_start = Inr (True, w') \<and> world_ok 0 w')"
proof
  have h: "message_fault sample_env TcpRef (M_HIT_RESULT 1 0) client_start = Some NullDeref"
    by (simp add: the_game_def client_start_def GameScene_def)
  show "run_handler sample_env TcpRef (M_HIT_RESULT 1 0) client_start = Inl NullDeref"
    using messages_keep_client_typed [OF client_start_ok, of TcpRef "M_HIT_RESULT 1 0"] h by (auto split: sum.splits)
  have "message_fault sample_env TcpRef (M_ENTER_GAME True ''127.0.0.1'' 9) client_start = None" by (simp add: sample_env_def)
  then obtain b w' where "run_handler sample_env TcpRef (M_ENTER_GAME True ''127.0.0.1'' 9) client_start = Inr (b, w')" "world_ok 0 w'"
    using messages_keep_client_typed [OF client_start_ok, of TcpRef "M_ENTER_GAME True ''127.0.0.1'' 9"]
    by (auto simp: sample_env_def split: sum.splits)
  moreover from this have "b" by (auto simp: Handle_S_ENTER_GAME_def and_then_Inr_iff split: option.splits prod.splits)
  ultimately show "\<exists>w'. run_handler sample_env TcpRef (M_ENTER_GAME True ''127.0.0.1'' 9) client_start = Inr (True, w') \<and> world_ok 0 w'"
    by auto
qed

section \<open>Spawning again\<close>

lemma GetActor_AddActor:
  "GetActorByActorId i (AddActor a sc) = (if i = actorId (base a) \<and> GetActorByActorId i sc = None
     then Some (map_base Actor_Init a) else GetActorByActorId i sc)"
  by (auto simp: GetActorByActorId_def AddActor_def Let_def)

lemma spawn_all_player:
  assumes "GetActorByActorId p (gs_actors g) = None"
  shows "GetActorByActorId p (gs_actors (foldl (\<lambda>g i. spawn_actor p i g) g infos)) = None \<and>
    gs_player (foldl (\<lambda>g i. spawn_actor p i g) g infos) =
      (case filter (\<lambda>i. info_id i = p) infos of [] \<Rightarrow> gs_player g
       | is \<Rightarrow> Some (Player\<lparr>player_base := set_actor (last is) (player_base Player)\<rparr>))"
proof (induction infos rule: rev_induct)
  case (snoc i infos)
  then show ?case
    by (auto simp: spawn_actor_def SetPlayer_def GetActor_AddActor split: list.splits)
qed (simp add: assms)

text \<open>
  A spawn message that names the player resets it. The player is never among the actors the handler looks up, so
  when the message comes again (a repeated datagram is dispatched again) a fresh player replaces the old one: no input is pending
  any more and the numbers start again at 0, below those the server has acknowledged.
\<close>
theorem spawn_resets_player:
  assumes "current_scene (w_scenes w) = Some g" and "GetActorByActorId p (gs_actors g) = None" and "p \<in> info_id ` set infos"
  shows "\<exists>w' q. run_handler e ref (M_SPAWN_ACTOR p infos) w = Inr (True, w') \<and> gs_player (the_game w') = Some q \<and>
    actorId (player_base q) = p \<and> pendingInputs q = [] \<and> lastSequenceNumber q = 0 \<and>
    GetActorByActorId p (gs_actors (the_game w')) = None"
proof -
  let ?is = "filter (\<lambda>i. info_id i = p) infos"
  have "?is \<noteq> []" using assms(3) by (auto simp: filter_empty_conv)
  then have "info_id (last ?is) = p" using last_in_set [of ?is] by auto
  moreover from \<open>?is \<noteq> []\<close> obtain i "is" where "?is = i # is" by (cases ?is) auto
  ultimately show ?thesis using spawn_all_player [OF assms(2), of infos] assms(1)
    by (simp add: Handle_S_SPAWN_ACTOR_def the_game_def SetIsInGame_def Player_def)
qed

definition spawn_info :: actor_info where
  "spawn_info = \<lparr>info_id = 0x10000001, info_position = 0, info_velocity_speed = 0, info_rotation = 0, info_sequence = None, info_color = None\<rparr>"

lemma spawn_resets_player_witness:
  "\<exists>w' q. run_handler sample_env TcpRef (M_SPAWN_ACTOR 0x10000001 [spawn_info])
       (client_start\<lparr>w_scenes := SceneManager\<lparr>current_scene := Some (SetPlayer three_pending GameScene)\<rparr>\<rparr>) = Inr (True, w') \<and>
     gs_player (the_game w') = Some q \<and> pendingInputs q = [] \<and> length (pendingInputs three_pending) = 3"
proof -
  let ?w = "client_start\<lparr>w_scenes := SceneManager\<lparr>current_scene := Some (SetPlayer three_pending GameScene)\<rparr>\<rparr>"
  have c: "current_scene (w_scenes ?w) = Some (SetPlayer three_pending GameScene)" by simp
  have g: "GetActorByActorId 0x10000001 (gs_actors (SetPlayer three_pending GameScene)) = None"
    by (simp add: SetPlayer_def GameScene_def GetActorByActorId_def)
  have i: "0x10000001 \<in> info_id ` set [spawn_info]" by (simp add: spawn_info_def)
  have "length (pendingInputs three_pending) = 3" by (simp add: three_pending_def)
  with spawn_resets_player [OF c g i, of sample_env TcpRef] show ?thesis by blast
qed

section \<open>The handshake\<close>

lemma send_reliable_session:
  assumes "send_reliable e k msg w = Inr w'"
  shows "\<exists>ts bytes. w_service w' = (w_service w)\<lparr>session_of := (session_of (w_service w))(k :=
    SendReliable (w_next w) ts ((session_of (w_service w) k)\<lparr>buffer_bytes := bytes\<rparr>))\<rparr>"
  using assms by (auto simp: send_reliable_def SendReliable_packet_def and_then_Inr_iff intro!: exI split: option.splits)

text \<open>
  The session of the handshake is not the one that gets the answer. Entering the game makes a session, which
  sends the handshake as its packet 1, but registers it nowhere; the server's first datagram creates a second
  session, whose own numbers start at 1 again. An acknowledgement reaches the second one, so packet 1 of the first stays unacknowledged.
\<close>
theorem handshake_session_orphaned:
  assumes "world_ok (e_thread e) w" and "env_ok e" and "e_endpoint e ip (ucast port) = Some ep"
    and "ep \<notin> remoteEndpoint (w_service w) ` set (udpSessions (w_service w))"
  shows "\<exists>w1 k1 k2 svc. run_handler e ref (M_ENTER_GAME True ip port) w = Inr (True, w1) \<and>
    FindOrCreateUdpSession ep (w_service w1) = (k2, svc) \<and> k1 \<noteq> k2 \<and> k1 \<notin> set (udpSessions svc) \<and> udpSession svc = Some k2 \<and>
    outstanding (session_of svc k1) 1 \<and> sendSeq (session_of svc k2) = 1 \<and>
    (\<forall>latest bits. outstanding (session_of (svc\<lparr>session_of := (session_of svc)(k2 := HandleAck latest bits (session_of svc k2))\<rparr>) k1) 1)"
proof -
  let ?s = "SetUdpRemoteEndpoint ep (w_service w)"
  obtain k1 svc1 where c: "CreateSession ?s = (k1, svc1)" by fastforce
  have inv: "svc_inv (w_service w)" using assms(1) by (simp add: world_ok_def)
  then have inv1: "svc_inv svc1" using CreateSession_inv [OF _ c] by (simp add: SetUdpRemoteEndpoint_def svc_inv_frame)
  have f: "k1 = fresh_udp (w_service w)" "udpSessions svc1 = udpSessions (w_service w)" "fresh_udp svc1 = Suc k1"
    "remoteEndpoint svc1 = (remoteEndpoint (w_service w))(k1 := ep)" "sendSeq (session_of svc1 k1) = 1"
    using c by (auto simp: CreateSession_def SetUdpRemoteEndpoint_def GetUdpRemoteEndpoint_def ReliableUdpSession_def Let_def)
  have old: "k1 \<notin> set (udpSessions svc1)" using inv by (auto simp: f svc_inv_def)
  have "world_ok (e_thread e) (w\<lparr>w_service := svc1\<rparr>)" using assms(1) inv1 by (simp add: world_ok_def)
  from send_reliable_works [OF this assms(2), of k1 "CM_HANDSHAKE (w_userId w)"] obtain w1 where
    w1: "send_reliable e k1 (CM_HANDSHAKE (w_userId w)) (w\<lparr>w_service := svc1\<rparr>) = Inr w1" by blast
  then have run: "run_handler e ref (M_ENTER_GAME True ip port) w = Inr (True, w1)"
    using assms(3) c by (simp add: Handle_S_ENTER_GAME_def)
  obtain ts bytes where s: "w_service w1 = svc1\<lparr>session_of := (session_of svc1)(k1 :=
      SendReliable (w_next w) ts ((session_of svc1 k1)\<lparr>buffer_bytes := bytes\<rparr>))\<rparr>"
    using send_reliable_session [OF w1] by auto
  have o1: "outstanding (session_of (w_service w1) k1) 1" using f(5) by (simp add: s outstanding_def)
  have invw: "svc_inv (w_service w1)" using inv1 by (simp add: s svc_inv_frame)
  have new: "ep \<notin> remoteEndpoint (w_service w1) ` set (udpSessions (w_service w1))"
    using assms(4) old f by (auto simp: s)
  note fc = FindOrCreate_new [OF invw new]
  show ?thesis
    by (intro exI [of _ w1] exI [of _ k1] exI conjI, rule run, rule fc)
      (use o1 old f in \<open>simp_all add: s ReliableUdpSession_def\<close>)
qed

lemma handshake_session_orphaned_witness:
  "\<exists>w1 k1 k2 svc. run_handler sample_env TcpRef (M_ENTER_GAME True ''127.0.0.1'' 9) client_start = Inr (True, w1) \<and>
     FindOrCreateUdpSession 9 (w_service w1) = (k2, svc) \<and> k1 \<noteq> k2 \<and> outstanding (session_of svc k1) 1 \<and> sendSeq (session_of svc k2) = 1"
proof -
  have "e_endpoint sample_env ''127.0.0.1'' (ucast (9 :: uint32)) = Some 9" by (simp add: sample_env_def)
  moreover have "9 \<notin> remoteEndpoint (w_service client_start) ` set (udpSessions (w_service client_start))"
    by (simp add: client_start_def Service_def)
  ultimately show ?thesis using handshake_session_orphaned [OF client_start_ok, of "''127.0.0.1''" 9 9 TcpRef] by metis
qed

end
