(* ===== verification/Game_Loop.thy ===== *)
theory Game_Loop
  imports Client_World
begin

text \<open>
  The main thread: \<open>DummyClient.cpp\<close>, \<open>Game.cpp\<close>, the update and draw calls of the managers, and of \<open>Renderer.cpp\<close> the
  parts that decide or change something: the debug objects, the room menu and its buttons. One iteration updates the
  time, runs as many logic ticks as the elapsed time holds, and draws. What a tick finds at the keyboard, what is clicked
  in a frame and when the clock is read are inputs. Packets are handled between the steps of the main thread.
\<close>

section \<open>The TCP session of the client\<close>

definition send_tcp :: "env \<Rightarrow> client_msg \<Rightarrow> world \<Rightarrow> world res" where
  "send_tcp e msg w =
     and_then (MakeSendBufferTcp (e_thread e) (w_next w) (e_body e msg) (class_of msg) (w_memory w)) (\<lambda>m.
       Inr (w\<lparr>w_memory := m, w_next := Suc (w_next w), w_tcp_sent := w_tcp_sent w @ [packet_bytes (w_next w) m]\<rparr>))"

definition OnConnected_tcp :: "env \<Rightarrow> world \<Rightarrow> world res" where
  "OnConnected_tcp e w = send_tcp e CM_LOGIN (w\<lparr>w_tcp := True, w_time := SetSession True (w_time w)\<rparr>)"

definition OnDisconnected_tcp :: "world \<Rightarrow> world" where
  "OnDisconnected_tcp w = w\<lparr>w_tcp := False\<rparr>"

text \<open>The buttons send on the session of the session manager, which is null while there is no connection.\<close>

definition send_clicked :: "env \<Rightarrow> client_msg \<Rightarrow> world \<Rightarrow> world res" where
  "send_clicked e msg w = and_then (send_tcp e msg w) (\<lambda>w'. if w_tcp w then Inr w' else Inl NullDeref)"

section \<open>Update\<close>

definition TimeManager_Update_world :: "env \<Rightarrow> world \<Rightarrow> world res" where
  "TimeManager_Update_world e w =
     and_then (TimeManager_Update (e_count e) (e_count2 e) (w_time w)) (\<lambda>(due, tm).
       if due then send_tcp e CM_SYNC_TIME (w\<lparr>w_time := tm\<rparr>) else Inr (w\<lparr>w_time := tm\<rparr>))"

text \<open>What the player reaches through the session manager, and what it leaves there.\<close>

definition link_of :: "world \<Rightarrow> udp_link" where
  "link_of w = \<lparr>link_memory = w_memory w,
     link_session = map_option (session_of (w_service w)) (udpSession (w_service w))\<rparr>"

definition put_link :: "udp_link \<Rightarrow> world \<Rightarrow> world" where
  "put_link l w = w\<lparr>w_memory := link_memory l, w_next := Suc (w_next w),
     w_service := (case (udpSession (w_service w), link_session l) of
        (Some k, Some s) \<Rightarrow> (w_service w)\<lparr>session_of := (session_of (w_service w))(k := s)\<rparr>
      | _ \<Rightarrow> w_service w)\<rparr>"

definition GameScene_Update :: "env \<Rightarrow> game_scene \<Rightarrow> world \<Rightarrow> world res" where
  "GameScene_Update e g w =
     (let g1 = g\<lparr>gs_actors := Scene_Update (gs_actors g)\<rparr>;
          put = (\<lambda>g'. (w_scenes w)\<lparr>current_scene := Some g'\<rparr>)
      in case gs_player g1 of
           None \<Rightarrow> Inr (w\<lparr>w_scenes := put g1\<rparr>)
         | Some p \<Rightarrow>
             and_then (Player_Update (e_cosf e) (e_sinf e) (\<lambda>q k r t. e_body e (CM_PLAYER_INPUT q k r t))
                 (client_time e w) (GetClientTime (e_count2 e) (w_time w)) (e_thread e) (w_next w) p (w_input w) (link_of w))
               (\<lambda>(p', im', l').
                  Inr (put_link l' (w\<lparr>w_scenes := put (g1\<lparr>gs_player := Some p'\<rparr>), w_input := im'\<rparr>))))"

definition SceneManager_Update :: "env \<Rightarrow> world \<Rightarrow> world res" where
  "SceneManager_Update e w =
     (case current_scene (w_scenes w) of None \<Rightarrow> Inr w | Some g \<Rightarrow> GameScene_Update e g w)"

text \<open>The window and the keys as one tick finds them; a key is asked for twice.\<close>

record tick_input =
  ti_focused :: bool
  ti_down :: "nat \<Rightarrow> bool"
  ti_down2 :: "nat \<Rightarrow> bool"
  ti_mx :: fp
  ti_my :: fp

definition Game_Update :: "env \<Rightarrow> tick_input \<Rightarrow> world \<Rightarrow> world res" where
  "Game_Update e ti w =
     and_then (InputManager_Update (ti_focused ti) (isInGame (w_scenes w)) (ti_down ti) (ti_down2 ti) (ti_mx ti) (ti_my ti)
         (w_input w)) (\<lambda>im. SceneManager_Update e (w\<lparr>w_input := im\<rparr>))"

section \<open>Render\<close>

definition SceneManager_Render :: "env \<Rightarrow> world \<Rightarrow> world \<times> draw list" where
  "SceneManager_Render e w =
     (case current_scene (w_scenes w) of
        None \<Rightarrow> (w, [])
      | Some g \<Rightarrow> (let (g', ds) = GameScene_Render (client_time e w) g
                  in (w\<lparr>w_scenes := (w_scenes w)\<lparr>current_scene := Some g'\<rparr>\<rparr>, ds)))"

text \<open>Objects whose time is over are erased, the others are drawn in the order they were added.\<close>

definition DrawDebugObject :: "env \<Rightarrow> world \<Rightarrow> world \<times> debug_object list" where
  "DrawDebugObject e w =
     (let objs = filter (\<lambda>obj. \<not> expireTime obj \<le> client_time e w) (w_debug w) in (w\<lparr>w_debug := objs\<rparr>, objs))"

definition DrawCrosshair_calls :: "world \<Rightarrow> draw list" where
  "DrawCrosshair_calls w = (if \<not> isInGame (w_scenes w) then [] else [DrawCrosshair])"

record debug_info =
  di_clientTime :: fp
  di_avgRtt :: fp
  di_jitter :: fp
  di_fps :: uint32
  di_userId :: uint32
  di_position :: "vec3 option"

text \<open>The buttons clicked in a frame; \<open>bt_enter\<close> is by room.\<close>

record buttons =
  bt_exit :: bool
  bt_create :: bool
  bt_start :: bool
  bt_enter :: "uint32 \<Rightarrow> bool"

text \<open>Shows the values and answers whether the program goes on; the scene is used without a test for null.\<close>

definition DrawDebugginUI :: "env \<Rightarrow> buttons \<Rightarrow> world \<Rightarrow> (debug_info \<times> bool) res" where
  "DrawDebugginUI e bt w =
     (case current_scene (w_scenes w) of
        None \<Rightarrow> Inl NullDeref
      | Some g \<Rightarrow> Inr (\<lparr>di_clientTime = client_time e w, di_avgRtt = avgRtt (w_time w), di_jitter = jitter (w_time w),
          di_fps = fps (w_time w), di_userId = w_userId w,
          di_position = map_option (\<lambda>p. act_position (player_base p)) (gs_player g)\<rparr>, \<not> bt_exit bt))"

datatype room_menu = Room_Lobby "(uint32 \<times> nat) list" | Room_Waiting uint32 | Room_Players uint32 "uint32 list"

definition room_button :: "env \<Rightarrow> buttons \<Rightarrow> uint32 \<times> uint32 list \<Rightarrow> world \<Rightarrow> world res" where
  "room_button e bt room w = (if bt_enter bt (fst room) then send_clicked e (CM_ENTER_ROOM (fst room)) w else Inr w)"

definition DrawRoomUI :: "env \<Rightarrow> buttons \<Rightarrow> world \<Rightarrow> (room_menu \<times> world) res" where
  "DrawRoomUI e bt w =
     (let inRoom = isInRoom (w_scenes w); inGame = isInGame (w_scenes w); myRoom = roomId (w_scenes w) in
      if \<not> inRoom then
        and_then (if bt_create bt then send_clicked e CM_CREATE_ROOM w else Inr w) (\<lambda>w1.
        and_then (fold_res (room_button e bt) (roomList (w_scenes w1)) w1) (\<lambda>w2.
          Inr (Room_Lobby (map (\<lambda>(r, ps). (r, length ps)) (roomList (w_scenes w1))), w2)))
      else if \<not> inGame then
        and_then (if bt_start bt
                  then and_then (send_clicked e CM_ENTER_GAME w) (\<lambda>w1. Inr (w1\<lparr>w_scenes := SetIsInGame True (w_scenes w1)\<rparr>))
                  else Inr w) (\<lambda>w1. Inr (Room_Waiting myRoom, w1))
      else (let (ps, m) = GetPlayerList (w_scenes w) in Inr (Room_Players myRoom ps, w\<lparr>w_scenes := m\<rparr>)))"

record frame =
  fr_scene :: "draw list"
  fr_debug :: "debug_object list"
  fr_crosshair :: "draw list"
  fr_info :: debug_info
  fr_menu :: room_menu

definition Game_Render :: "env \<Rightarrow> buttons \<Rightarrow> world \<Rightarrow> (frame \<times> bool \<times> world) res" where
  "Game_Render e bt w =
     (let (w1, ds) = SceneManager_Render e w; (w2, objs) = DrawDebugObject e w1 in
      and_then (DrawDebugginUI e bt w2) (\<lambda>(info, running).
      and_then (DrawRoomUI e bt w2) (\<lambda>(menu, w3).
        Inr (\<lparr>fr_scene = ds, fr_debug = objs, fr_crosshair = DrawCrosshair_calls w2, fr_info = info, fr_menu = menu\<rparr>,
             running, w3))))"

section \<open>The main loop\<close>

text \<open>
  The inner loop of \<open>main\<close> over any update: the number of the tick, the time still to be used and the state. It may run
  for ever, when subtracting a tick from a huge time leaves it as it is.
\<close>

partial_function (option) tick_loop ::
  "(nat \<Rightarrow> 's \<Rightarrow> 's res) \<Rightarrow> nat \<Rightarrow> fp \<Rightarrow> 's \<Rightarrow> (nat \<times> fp \<times> 's) res option" where
  "tick_loop upd n elapsedTime s =
     (if LOGIC_TICK_INTERVAL \<le> elapsedTime
      then (case upd n s of
              Inl f \<Rightarrow> Some (Inl f)
            | Inr s' \<Rightarrow> tick_loop upd (Suc n) (f64 (elapsedTime - LOGIC_TICK_INTERVAL)) s')
      else Some (Inr (n, elapsedTime, s)))"

record loop_input =
  li_time :: env                          \<comment> \<open>clock and library for \<open>TimeManager::Update\<close>\<close>
  li_tick :: "nat \<Rightarrow> env \<times> tick_input"    \<comment> \<open>for each tick of the frame\<close>
  li_draw :: env
  li_buttons :: buttons

definition main_iteration :: "loop_input \<Rightarrow> fp \<times> world \<Rightarrow> (frame \<times> bool \<times> fp \<times> world) res option" where
  "main_iteration li = (\<lambda>(elapsedTime, w).
     case TimeManager_Update_world (li_time li) w of
       Inl f \<Rightarrow> Some (Inl f)
     | Inr w1 \<Rightarrow>
        (case tick_loop (\<lambda>n. Game_Update (fst (li_tick li n)) (snd (li_tick li n))) 0
                (f64 (elapsedTime + deltaTime (w_time w1))) w1 of
           None \<Rightarrow> None
         | Some (Inl f) \<Rightarrow> Some (Inl f)
         | Some (Inr (n, rest, w2)) \<Rightarrow>
             Some (and_then (Game_Render (li_draw li) (li_buttons li) w2) (\<lambda>(fr, running, w3). Inr (fr, running, rest, w3)))))"

text \<open>\<open>Game::Init\<close>: \<open>freq\<close> and \<open>startCount\<close> come from the performance counter, the service is given.\<close>

definition Game_Init :: "uint64 \<Rightarrow> uint64 \<Rightarrow> udp_service \<Rightarrow> packet_memory \<Rightarrow> world res" where
  "Game_Init freq startCount svc mem =
     and_then (ChangeScene GameSceneType SceneManager) (\<lambda>m.
       Inr \<lparr>w_time = TimeManager_Init freq startCount TimeManager, w_input = InputManager, w_scenes = m, w_debug = [],
            w_userId = 0, w_tcp = False, w_tcp_sent = [], w_service = svc, w_memory = mem, w_next = 0\<rparr>)"

section \<open>The ticks of a frame\<close>

lemma tick_bounds: "1 / 31 < LOGIC_TICK_INTERVAL" "LOGIC_TICK_INTERVAL < 1 / 29"
  using abs_le_D1 [OF LOGIC_TICK_INTERVAL_error] abs_le_D2 [OF LOGIC_TICK_INTERVAL_error] by linarith+

lemma tick_step:
  assumes "LOGIC_TICK_INTERVAL \<le> x" and "x < 2 ^ 24"
  shows "0 \<le> f64 (x - LOGIC_TICK_INTERVAL)" and "f64 (x - LOGIC_TICK_INTERVAL) \<le> x - 1 / 60"
    and "\<bar>f64 (x - LOGIC_TICK_INTERVAL) - (x - LOGIC_TICK_INTERVAL)\<bar> \<le> 1 / 2 ^ 30"
proof -
  note T = tick_bounds
  show "0 \<le> f64 (x - LOGIC_TICK_INTERVAL)" using assms by (intro f64_nonneg) simp
  have "x < 16777216" using assms(2) by simp
  then have "\<bar>x - LOGIC_TICK_INTERVAL\<bar> < 16777216" using assms(1) T by linarith
  from f64_error_24 [OF this] show e: "\<bar>f64 (x - LOGIC_TICK_INTERVAL) - (x - LOGIC_TICK_INTERVAL)\<bar> \<le> 1 / 2 ^ 30" by simp
  have "1 / 2 ^ 30 \<le> (1 / 1000 :: rat)" by simp
  then show "f64 (x - LOGIC_TICK_INTERVAL) \<le> x - 1 / 60" using e T by linarith
qed

text \<open>What the loop made of the time \<open>x\<close> from tick \<open>n\<close> on.\<close>

definition ticked :: "(nat \<Rightarrow> 's \<Rightarrow> 's res) \<Rightarrow> nat \<Rightarrow> fp \<Rightarrow> 's \<Rightarrow> (nat \<times> fp \<times> 's) res \<Rightarrow> bool" where
  "ticked upd n x s r \<longleftrightarrow>
     (case r of
        Inl f \<Rightarrow> \<exists>m s1. n \<le> m \<and> fold_res upd [n..<m] s = Inr s1 \<and> upd m s1 = Inl f
      | Inr (m, y, s') \<Rightarrow> n \<le> m \<and> fold_res upd [n..<m] s = Inr s' \<and> 0 \<le> y \<and> y < LOGIC_TICK_INTERVAL \<and>
          \<bar>y + of_nat (m - n) * LOGIC_TICK_INTERVAL - x\<bar> \<le> of_nat (m - n) / 2 ^ 30)"

lemma ticked_first:
  assumes "ticked upd (Suc n) (f64 (x - LOGIC_TICK_INTERVAL)) s1 r" and "upd n s = Inr s1"
    and "LOGIC_TICK_INTERVAL \<le> x" and "x < 2 ^ 24"
  shows "ticked upd n x s r"
proof -
  have first: "fold_res upd [n..<m] s = fold_res upd [Suc n..<m] s1" if "Suc n \<le> m" for m
    using that assms(2) by (simp add: upt_conv_Cons)
  show ?thesis
  proof (cases r)
    case (Inl f)
    with assms(1) obtain m s2 where "Suc n \<le> m" "fold_res upd [Suc n..<m] s1 = Inr s2" "upd m s2 = Inl f"
      by (auto simp: ticked_def)
    then show ?thesis using first Inl by (auto simp: ticked_def intro!: exI [of _ m])
  next
    case (Inr q)
    obtain m y s' where q: "q = (m, y, s')" by (cases q) auto
    have r: "Suc n \<le> m" "fold_res upd [Suc n..<m] s1 = Inr s'" "0 \<le> y" "y < LOGIC_TICK_INTERVAL"
      "\<bar>y + of_nat (m - Suc n) * LOGIC_TICK_INTERVAL - f64 (x - LOGIC_TICK_INTERVAL)\<bar> \<le> of_nat (m - Suc n) / 2 ^ 30"
      using assms(1) unfolding ticked_def Inr q sum.case prod.case by blast+
    define k where "k = m - Suc n"
    have k: "m - n = Suc k" using r(1) by (simp add: k_def)
    have "\<bar>y + of_nat (Suc k) * LOGIC_TICK_INTERVAL - x\<bar> \<le> of_nat (Suc k) / 2 ^ 30"
      using r(5) tick_step(3) [OF assms(3,4)] unfolding k_def [symmetric] of_nat_Suc distrib_right add_divide_distrib
      by linarith
    then show ?thesis using r first unfolding ticked_def Inr q sum.case prod.case k by simp
  qed
qed

lemma tick_loop_returns:
  assumes "0 \<le> x" and "x < 2 ^ 24" and "x \<le> of_nat k / 60"
  shows "\<exists>r. tick_loop upd n x s = Some r \<and> ticked upd n x s r"
  using assms
proof (induction k arbitrary: n x s)
  case 0
  then have "\<not> LOGIC_TICK_INTERVAL \<le> x" using tick_bounds by simp
  then show ?case using 0 by (subst tick_loop.simps) (simp add: ticked_def)
next
  case (Suc k)
  show ?case
  proof (cases "LOGIC_TICK_INTERVAL \<le> x")
    case False
    then show ?thesis using Suc.prems by (subst tick_loop.simps) (simp add: ticked_def)
  next
    case True
    note t = tick_step [OF True Suc.prems(2)]
    show ?thesis
    proof (cases "upd n s")
      case (Inl f)
      then show ?thesis using True by (subst tick_loop.simps) (auto simp: ticked_def intro!: exI [of _ n])
    next
      case (Inr s1)
      have "f64 (x - LOGIC_TICK_INTERVAL) < 2 ^ 24" "f64 (x - LOGIC_TICK_INTERVAL) \<le> of_nat k / 60"
        using t(2) Suc.prems by (simp_all add: add_divide_distrib)
      from Suc.IH [OF t(1) this, of "Suc n" s1] obtain r where
        r: "tick_loop upd (Suc n) (f64 (x - LOGIC_TICK_INTERVAL)) s1 = Some r"
        "ticked upd (Suc n) (f64 (x - LOGIC_TICK_INTERVAL)) s1 r" by blast
      from r(2) Inr True Suc.prems(2) have "ticked upd n x s r" by (rule ticked_first)
      then show ?thesis using True Inr r(1) by (subst tick_loop.simps) simp
    qed
  qed
qed

lemma tick_loop_ends:
  assumes "0 \<le> x" and "x < 2 ^ 24"
  shows "\<exists>r. tick_loop upd n x s = Some r \<and> ticked upd n x s r"
proof (rule tick_loop_returns [OF assms])
  show "x \<le> of_nat (60 * 2 ^ 24) / 60" using assms(2) by simp
qed

section \<open>Well-formed clients between two steps\<close>

text \<open>\<open>Ts\<close> are the threads there are: the main thread and those that run the \<open>io_context\<close>.\<close>

definition client_ok :: "nat set \<Rightarrow> world \<Rightarrow> bool" where
  "client_ok Ts w \<longleftrightarrow> (\<exists>g. current_scene (w_scenes w) = Some g \<and> scene_ok (gs_actors g)) \<and>
     buffers_ok Ts (w_memory w) (w_next w) \<and> svc_inv (w_service w) \<and> tm_inv (w_time w) \<and> input_inv (w_input w)"

lemma client_ok_world: "client_ok Ts w \<Longrightarrow> t \<in> Ts \<Longrightarrow> world_ok t w"
  using buffers_ok_idle by (auto simp: client_ok_def world_ok_def buffers_ok_def)

lemma client_okI:
  "world_ok t w \<Longrightarrow> buffers_ok Ts (w_memory w) (w_next w) \<Longrightarrow> tm_inv (w_time w) \<Longrightarrow> input_inv (w_input w) \<Longrightarrow> client_ok Ts w"
  by (simp add: client_ok_def world_ok_def)

lemma client_ok_game: "client_ok Ts w \<Longrightarrow> current_scene (w_scenes w) = Some (the_game w) \<and> scene_ok (gs_actors (the_game w))"
  by (auto simp: client_ok_def the_game_def)

lemma client_ok_scene:
  "client_ok Ts w \<Longrightarrow> current_scene m = Some g \<Longrightarrow> scene_ok (gs_actors g) \<Longrightarrow> client_ok Ts (w\<lparr>w_scenes := m\<rparr>)"
  by (simp add: client_ok_def)

lemma client_ok_frame [simp]:
  "client_ok Ts (w\<lparr>w_tcp := b\<rparr>) = client_ok Ts w" "client_ok Ts (w\<lparr>w_tcp_sent := ps\<rparr>) = client_ok Ts w"
  "client_ok Ts (w\<lparr>w_debug := d\<rparr>) = client_ok Ts w"
  by (simp_all add: client_ok_def)

section \<open>Sending on the TCP session\<close>

definition tcp_packet :: "env \<Rightarrow> client_msg \<Rightarrow> BYTE list" where
  "tcp_packet e msg = framed (PKT (class_of msg)) [] (e_body e msg)"

lemma send_tcp_works:
  assumes "client_ok Ts w" and "e_thread e \<in> Ts" and "env_ok e"
  shows "\<exists>m. send_tcp e msg w = Inr (w\<lparr>w_memory := m, w_next := Suc (w_next w), w_tcp_sent := w_tcp_sent w @ [tcp_packet e msg]\<rparr>) \<and>
    buffers_ok Ts m (Suc (w_next w))"
proof -
  have b: "buffers_ok Ts (w_memory w) (w_next w)" using assms(1) by (simp add: client_ok_def)
  have "length (e_body e msg) \<le> 5994" using assms(3) unfolding env_ok_def by blast
  then have l: "length (e_body e msg) + sizeof_header TcpPacketHeader \<le> 6000" by simp
  from new_packet [OF b assms(2) l, of "PKT (class_of msg)"] obtain m gap where
    m: "MakeSendBufferTcp (e_thread e) (w_next w) (e_body e msg) (class_of msg) (w_memory w) = Inr m"
    "buffers_ok Ts m (Suc (w_next w))" "length gap = 0" "packet_bytes (w_next w) m = framed (PKT (class_of msg)) gap (e_body e msg)"
    by (auto simp: MakeSendBufferTcp_def)
  then show ?thesis by (intro exI [of _ m]) (simp add: send_tcp_def tcp_packet_def)
qed

lemma send_tcp_ok:
  assumes "client_ok Ts w" and "e_thread e \<in> Ts" and "env_ok e"
  shows "\<exists>w'. send_tcp e msg w = Inr w' \<and> client_ok Ts w' \<and> w_scenes w' = w_scenes w \<and> w_tcp w' = w_tcp w \<and>
    w_time w' = w_time w \<and> w_debug w' = w_debug w \<and> w_tcp_sent w' = w_tcp_sent w @ [tcp_packet e msg]"
  using send_tcp_works [OF assms, of msg] assms(1) by (auto simp: client_ok_def)

section \<open>The steps of the main thread\<close>

lemma TimeManager_Update_world_ok:
  assumes "client_ok Ts w" and "e_thread e \<in> Ts" and "env_ok e"
  shows "\<exists>w'. TimeManager_Update_world e w = Inr w' \<and> client_ok Ts w' \<and> w_scenes w' = w_scenes w \<and> w_tcp w' = w_tcp w"
proof -
  have "tm_inv (w_time w)" using assms(1) by (simp add: client_ok_def)
  from TimeManager_Update_result [OF this, of "e_count e" "e_count2 e"] obtain sent tm where
    tm: "TimeManager_Update (e_count e) (e_count2 e) (w_time w) = Inr (sent, tm)" "tm_inv tm" by blast
  then have ok: "client_ok Ts (w\<lparr>w_time := tm\<rparr>)" using assms(1) by (simp add: client_ok_def)
  show ?thesis
    using send_tcp_ok [OF ok assms(2,3), of CM_SYNC_TIME] ok tm(1) by (cases sent) (auto simp: TimeManager_Update_world_def)
qed

lemma PackRotation_fault:
  assumes "PackRotation y p = Inl f" and "- (PI / 2) \<le> p" and "p \<le> PI / 2"
  shows "f = BadCast \<and> PI < \<bar>y\<bar>"
proof
  show "f = BadCast" using assms(1) by (auto simp: PackRotation_def cast_u16_def Let_def split: if_splits)
  show "PI < \<bar>y\<bar>"
  proof (rule ccontr)
    assume "\<not> PI < \<bar>y\<bar>"
    then have "- PI \<le> y" "y \<le> PI" by linarith+
    from PackRotation_total [OF this assms(2,3)] assms(1) show False by simp
  qed
qed

lemma CaptureInput_keeps:
  "input_inv (snd (CaptureInput c im)) = input_inv im"
  "in_timestamp (fst (CaptureInput c im)) \<noteq> 0 \<Longrightarrow> in_yaw (fst (CaptureInput c im)) = yaw im \<and> in_pitch (fst (CaptureInput c im)) = pitch im"
  by (auto simp: CaptureInput_def input_inv_def split: if_splits)

lemma SendInput_outcome:
  assumes "buffers_ok Ts (link_memory l) i" and "t \<in> Ts"
    and "length (body (in_sequence input) (in_keyField input) r (in_timestamp input)) \<le> 5994"
    and "PackRotation (in_yaw input) (in_pitch input) = Inr r"
  shows "\<exists>l'. SendInputToServer body c t i input l = Inr l' \<and> buffers_ok Ts (link_memory l') (Suc i)"
proof -
  have fits: "length (body (in_sequence input) (in_keyField input) r (in_timestamp input)) + sizeof_header UdpPacketHeader \<le> 6000"
    using assms(3) by simp
  from new_packet [OF assms(1,2) fits, of "PKT C_PLAYER_INPUT"] obtain b :: send_buffer and m where
    m: "MakeSendBufferUdp t i (body (in_sequence input) (in_keyField input) r (in_timestamp input)) C_PLAYER_INPUT (link_memory l) = Inr m"
    "buffers_ok Ts m (Suc i)" "map_of (live (bufs m)) i = Some b" "offset b + 6 \<le> 6000"
    by (auto simp: MakeSendBufferUdp_def)
  show ?thesis
  proof (cases "link_session l")
    case None
    then show ?thesis using m assms(4) by (simp add: SendInputToServer_def)
  next
    case (Some s)
    have "mem_ok m" using m(2) by (simp add: buffers_ok_def)
    from SendReliable_packet_works [OF this m(3,4), of c s] obtain m' s' where
      "SendReliable_packet i c m s = Inr (m', s')" "mem_ok m'" "bufs m' = bufs m" by blast
    then show ?thesis using m assms(4) Some buffers_ok_same_bufs [OF m(2)] by (simp add: SendInputToServer_def)
  qed
qed

text \<open>The yaw of the input that is captured from \<open>im\<close> at \<open>c\<close>, if one is.\<close>

definition captured_yaw :: "fp \<Rightarrow> input_manager \<Rightarrow> fp option" where
  "captured_yaw c im =
     (let input = fst (CaptureInput c im) in if in_timestamp input = 0 then None else Some (in_yaw input))"

text \<open>An input that fails has a yaw beyond half a turn; one that is packed has none beyond a thousandth more.\<close>

definition turn_fault :: "fault \<Rightarrow> fp option \<Rightarrow> bool" where
  "turn_fault f y \<longleftrightarrow> f = BadCast \<and> (case y of None \<Rightarrow> False | Some a \<Rightarrow> PI < \<bar>a\<bar>)"

definition turn_fits :: "fp option \<Rightarrow> bool" where
  "turn_fits y \<longleftrightarrow> (case y of None \<Rightarrow> True | Some a \<Rightarrow> \<bar>a\<bar> < PI + 1 / 1000)"

lemma Player_Update_outcome:
  assumes "buffers_ok Ts (link_memory l) i" and "t \<in> Ts" and "\<And>q k r ts. length (body q k r ts) \<le> 5994" and "input_inv im"
  shows "case Player_Update cosf sinf body c c2 t i p im l of
      Inl f \<Rightarrow> turn_fault f (captured_yaw c im)
    | Inr (p', im', l') \<Rightarrow> buffers_ok Ts (link_memory l') (Suc i) \<and> input_inv im' \<and> turn_fits (captured_yaw c im)"
proof -
  obtain input im' where c: "CaptureInput c im = (input, im')" by fastforce
  note keeps = CaptureInput_keeps [of c im, unfolded c fst_conv snd_conv]
  define input' where "input' = input\<lparr>in_sequence := lastSequenceNumber p\<rparr>"
  have later: "buffers_ok Ts (link_memory l) (Suc i)" using assms(1) by (auto simp: buffers_ok_def)
  show ?thesis
  proof (cases "in_timestamp input = 0")
    case True
    then show ?thesis using c keeps(1) assms(4) later by (simp add: Player_Update_def captured_yaw_def turn_fits_def)
  next
    case False
    have u: "Player_Update cosf sinf body c c2 t i p im l =
        and_then (SendInputToServer body c2 t i input' l) (\<lambda>l'. Inr (ApplyInput cosf sinf input'
          (p\<lparr>lastSequenceNumber := lastSequenceNumber p + 1, pendingInputs := pendingInputs p @ [input']\<rparr>), im', l'))"
      using False by (simp add: Player_Update_def c input'_def Let_def)
    show ?thesis
    proof (cases "PackRotation (in_yaw input') (in_pitch input')")
      case (Inl f)
      then have "f = BadCast \<and> PI < \<bar>yaw im\<bar>"
        using PackRotation_fault [of "yaw im" "pitch im" f] keeps(2) [OF False] assms(4) by (simp add: input'_def input_inv_def)
      then have "turn_fault f (captured_yaw c im)" using False keeps(2) [OF False] by (simp add: captured_yaw_def turn_fault_def c Let_def)
      then show ?thesis using Inl by (simp add: u SendInputToServer_def)
    next
      case (Inr r)
      have "length (body (in_sequence input') (in_keyField input') r (in_timestamp input')) \<le> 5994" by (rule assms(3))
      from SendInput_outcome [where c = c2 and body = body and input = input', OF assms(1,2) this Inr] obtain l' where
        l': "SendInputToServer body c2 t i input' l = Inr l'" "buffers_ok Ts (link_memory l') (Suc i)" by blast
      have "\<bar>in_yaw input'\<bar> < PI + 1 / 1000" using yaw_outside_undefined [of "in_yaw input'" "in_pitch input'"] Inr by force
      then have "turn_fits (captured_yaw c im)" using False by (simp add: captured_yaw_def turn_fits_def c input'_def Let_def)
      then show ?thesis using keeps(1) assms(4) l' by (simp add: u)
    qed
  qed
qed

lemma put_link_ok:
  assumes "client_ok Ts w" and "buffers_ok Ts (link_memory l) (Suc (w_next w))"
  shows "client_ok Ts (put_link l w)"
  using assms by (auto simp: put_link_def client_ok_def svc_inv_frame split: option.split)

lemma GameScene_Update_outcome:
  assumes "client_ok Ts w" and "e_thread e \<in> Ts" and "env_ok e"
  shows "case GameScene_Update e (the_game w) w of
      Inl f \<Rightarrow> gs_player (the_game w) \<noteq> None \<and> turn_fault f (captured_yaw (client_time e w) (w_input w))
    | Inr w' \<Rightarrow> client_ok Ts w' \<and> (gs_player (the_game w) \<noteq> None \<longrightarrow> turn_fits (captured_yaw (client_time e w) (w_input w)))"
proof -
  let ?g = "the_game w" and ?g1 = "(the_game w)\<lparr>gs_actors := Scene_Update (gs_actors (the_game w))\<rparr>"
  note g = client_ok_game [OF assms(1)]
  have u: "Scene_Update (gs_actors ?g) = gs_actors ?g" by (simp add: Scene_Update_def)
  show ?thesis
  proof (cases "gs_player ?g")
    case None
    then show ?thesis using g client_ok_scene [OF assms(1)] by (simp add: GameScene_Update_def u)
  next
    case (Some p)
    have o: "case Player_Update (e_cosf e) (e_sinf e) (\<lambda>q k r t. e_body e (CM_PLAYER_INPUT q k r t)) (client_time e w)
          (GetClientTime (e_count2 e) (w_time w)) (e_thread e) (w_next w) p (w_input w) (link_of w) of
        Inl f \<Rightarrow> turn_fault f (captured_yaw (client_time e w) (w_input w))
      | Inr (p', im', l') \<Rightarrow> buffers_ok Ts (link_memory l') (Suc (w_next w)) \<and> input_inv im' \<and>
          turn_fits (captured_yaw (client_time e w) (w_input w))"
      by (rule Player_Update_outcome) (use assms in \<open>auto simp: client_ok_def link_of_def env_ok_def\<close>)
    show ?thesis
    proof (cases "Player_Update (e_cosf e) (e_sinf e) (\<lambda>q k r t. e_body e (CM_PLAYER_INPUT q k r t)) (client_time e w)
          (GetClientTime (e_count2 e) (w_time w)) (e_thread e) (w_next w) p (w_input w) (link_of w)")
      case (Inl f)
      then show ?thesis using o Some by (simp add: GameScene_Update_def)
    next
      case (Inr r)
      obtain p' im' l' where r: "r = (p', im', l')" by (cases r) auto
      let ?w = "w\<lparr>w_scenes := (w_scenes w)\<lparr>current_scene := Some (?g1\<lparr>gs_player := Some p'\<rparr>)\<rparr>, w_input := im'\<rparr>"
      have "client_ok Ts ?w" using assms(1) g o by (simp add: Inr r client_ok_def u)
      then have "client_ok Ts (put_link l' ?w)" using o by (intro put_link_ok) (simp_all add: Inr r)
      moreover have "turn_fits (captured_yaw (client_time e w) (w_input w))" using o by (simp add: Inr r)
      ultimately show ?thesis using Inr Some by (simp add: GameScene_Update_def r)
    qed
  qed
qed

text \<open>The yaw a tick sends: there is a player, and after the keys and the mouse are read there is a new input.\<close>

definition sent_yaw :: "env \<Rightarrow> tick_input \<Rightarrow> world \<Rightarrow> fp option" where
  "sent_yaw e ti w =
     (case gs_player (the_game w) of
        None \<Rightarrow> None
      | Some p \<Rightarrow>
          (case InputManager_Update (ti_focused ti) (isInGame (w_scenes w)) (ti_down ti) (ti_down2 ti) (ti_mx ti) (ti_my ti) (w_input w) of
             Inl f \<Rightarrow> None
           | Inr im \<Rightarrow> captured_yaw (client_time e w) im))"

lemma Game_Update_outcome:
  assumes "client_ok Ts w" and "e_thread e \<in> Ts" and "env_ok e"
  shows "case Game_Update e ti w of
      Inl f \<Rightarrow> turn_fault f (sent_yaw e ti w)
    | Inr w' \<Rightarrow> client_ok Ts w' \<and> turn_fits (sent_yaw e ti w)"
proof -
  have "input_inv (w_input w)" using assms(1) by (simp add: client_ok_def)
  from InputManager_Update_result [OF this, of "ti_focused ti" "isInGame (w_scenes w)" "ti_down ti" "ti_down2 ti" "ti_mx ti" "ti_my ti"]
  obtain im where im: "InputManager_Update (ti_focused ti) (isInGame (w_scenes w)) (ti_down ti) (ti_down2 ti) (ti_mx ti) (ti_my ti) (w_input w) = Inr im"
    "input_inv im" by blast
  let ?w = "w\<lparr>w_input := im\<rparr>"
  have ok: "client_ok Ts ?w" using assms(1) im(2) by (simp add: client_ok_def)
  have "Game_Update e ti w = GameScene_Update e (the_game ?w) ?w"
    using im(1) client_ok_game [OF ok] by (simp add: Game_Update_def SceneManager_Update_def)
  moreover have "client_time e ?w = client_time e w" "the_game ?w = the_game w" by (simp_all add: client_time_def the_game_def)
  moreover have "turn_fits None" by (simp add: turn_fits_def)
  ultimately show ?thesis using GameScene_Update_outcome [OF ok assms(2,3)] im(1)
    by (auto simp: sent_yaw_def split: sum.splits option.splits)
qed

section \<open>Drawing and the room menu\<close>

lemma SceneManager_Render_ok:
  assumes "client_ok Ts w" and "SceneManager_Render e w = (w', ds)"
  shows "client_ok Ts w' \<and> isInRoom (w_scenes w') = isInRoom (w_scenes w) \<and> isInGame (w_scenes w') = isInGame (w_scenes w) \<and>
    roomList (w_scenes w') = roomList (w_scenes w) \<and> w_tcp w' = w_tcp w \<and> w_tcp_sent w' = w_tcp_sent w \<and>
    w_debug w' = w_debug w \<and> w_time w' = w_time w"
  using assms client_ok_game [OF assms(1)] Scene_Render_ok
  by (auto simp: SceneManager_Render_def GameScene_Render_def client_ok_def split: prod.splits) (metis fst_conv)

text \<open>The messages the clicks of a frame ask for, in the order of the menu.\<close>

definition clicked :: "buttons \<Rightarrow> scene_manager \<Rightarrow> client_msg list" where
  "clicked bt m =
     (if \<not> isInRoom m then (if bt_create bt then [CM_CREATE_ROOM] else []) @ map CM_ENTER_ROOM (filter (bt_enter bt) (map fst (roomList m)))
      else if \<not> isInGame m \<and> bt_start bt then [CM_ENTER_GAME] else [])"

text \<open>Clicks of one or more messages, one after the other.\<close>

definition sent_all :: "nat set \<Rightarrow> env \<Rightarrow> client_msg list \<Rightarrow> world \<Rightarrow> world res \<Rightarrow> bool" where
  "sent_all Ts e msgs w r \<longleftrightarrow>
     (if \<not> w_tcp w \<and> msgs \<noteq> [] then r = Inl NullDeref
      else \<exists>w'. r = Inr w' \<and> client_ok Ts w' \<and> w_scenes w' = w_scenes w \<and> w_tcp w' = w_tcp w \<and> w_time w' = w_time w \<and>
        w_debug w' = w_debug w \<and> w_tcp_sent w' = w_tcp_sent w @ map (tcp_packet e) msgs)"

lemma sent_none: "client_ok Ts w \<Longrightarrow> sent_all Ts e [] w (Inr w)"
  by (simp add: sent_all_def)

lemma sent_one:
  assumes "client_ok Ts w" and "e_thread e \<in> Ts" and "env_ok e"
  shows "sent_all Ts e [msg] w (send_clicked e msg w)"
  using send_tcp_ok [OF assms, of msg] by (auto simp: sent_all_def send_clicked_def)

lemma sent_append:
  assumes "sent_all Ts e ms w r" and "\<And>w'. client_ok Ts w' \<Longrightarrow> w_scenes w' = w_scenes w \<Longrightarrow> sent_all Ts e ns w' (f w')"
  shows "sent_all Ts e (ms @ ns) w (and_then r f)"
proof (cases "\<not> w_tcp w \<and> ms \<noteq> []")
  case True
  then show ?thesis using assms(1) by (simp add: sent_all_def)
next
  case False
  then obtain w' where "r = Inr w'" "client_ok Ts w'" "w_scenes w' = w_scenes w" "w_tcp w' = w_tcp w" "w_time w' = w_time w"
    "w_debug w' = w_debug w" "w_tcp_sent w' = w_tcp_sent w @ map (tcp_packet e) ms"
    using assms(1) by (auto simp: sent_all_def)
  then show ?thesis using assms(2) [of w'] False by (auto simp: sent_all_def)
qed

lemma room_buttons_sent:
  assumes "client_ok Ts w" and "e_thread e \<in> Ts" and "env_ok e"
  shows "sent_all Ts e (map CM_ENTER_ROOM (filter (bt_enter bt) (map fst rooms))) w (fold_res (room_button e bt) rooms w)"
  using assms(1)
proof (induction rooms arbitrary: w)
  case Nil
  then show ?case by (simp add: sent_none)
next
  case (Cons room rooms)
  have "sent_all Ts e (if bt_enter bt (fst room) then [CM_ENTER_ROOM (fst room)] else []) w (room_button e bt room w)"
    using sent_one [OF Cons.prems assms(2,3)] sent_none [OF Cons.prems] by (simp add: room_button_def)
  from sent_append [OF this Cons.IH] show ?case by (cases "bt_enter bt (fst room)") simp_all
qed

lemma DrawRoomUI_outcome:
  assumes "client_ok Ts w" and "e_thread e \<in> Ts" and "env_ok e"
  shows "if \<not> w_tcp w \<and> clicked bt (w_scenes w) \<noteq> [] then DrawRoomUI e bt w = Inl NullDeref
    else \<exists>menu w'. DrawRoomUI e bt w = Inr (menu, w') \<and> client_ok Ts w' \<and>
      w_tcp_sent w' = w_tcp_sent w @ map (tcp_packet e) (clicked bt (w_scenes w)) \<and>
      isInGame (w_scenes w') = (isInGame (w_scenes w) \<or> CM_ENTER_GAME \<in> set (clicked bt (w_scenes w)))"
proof -
  consider "\<not> isInRoom (w_scenes w)" | "isInRoom (w_scenes w)" "\<not> isInGame (w_scenes w)" | "isInRoom (w_scenes w)" "isInGame (w_scenes w)"
    by blast
  then show ?thesis
  proof cases
    case 1
    let ?r = "if bt_create bt then send_clicked e CM_CREATE_ROOM w else Inr w"
    have c: "sent_all Ts e (if bt_create bt then [CM_CREATE_ROOM] else []) w ?r"
      using sent_one [OF assms] sent_none [OF assms(1)] by simp
    have "sent_all Ts e (clicked bt (w_scenes w)) w (and_then ?r (\<lambda>w1. fold_res (room_button e bt) (roomList (w_scenes w1)) w1))"
      using sent_append [OF c, of "map CM_ENTER_ROOM (filter (bt_enter bt) (map fst (roomList (w_scenes w))))"
          "\<lambda>w1. fold_res (room_button e bt) (roomList (w_scenes w1)) w1"] room_buttons_sent [OF _ assms(2,3)] 1
      by (simp add: clicked_def)
    then show ?thesis using 1 by (cases ?r) (auto simp: sent_all_def DrawRoomUI_def Let_def clicked_def split: if_splits)
  next
    case 2
    then show ?thesis
      using sent_one [OF assms, of CM_ENTER_GAME] client_ok_scene client_ok_game assms(1)
      by (auto simp: sent_all_def DrawRoomUI_def Let_def clicked_def SetIsInGame_def client_ok_def split: if_splits)
  next
    case 3
    have "current_scene m = current_scene (w_scenes w)" "isInGame m = isInGame (w_scenes w)"
      if "GetPlayerList (w_scenes w) = (ps, m)" for ps m
      using that by (auto simp: GetPlayerList_def room_entry_def split: option.splits)
    then show ?thesis using 3 assms(1) client_ok_scene [OF assms(1)] client_ok_game [OF assms(1)]
      by (auto simp: DrawRoomUI_def Let_def clicked_def split: prod.splits)
  qed
qed

lemma Game_Render_result:
  assumes "client_ok Ts w" and "e_thread e \<in> Ts" and "env_ok e"
  shows "if \<not> w_tcp w \<and> clicked bt (w_scenes w) \<noteq> [] then Game_Render e bt w = Inl NullDeref
    else \<exists>fr w'. Game_Render e bt w = Inr (fr, \<not> bt_exit bt, w') \<and> client_ok Ts w' \<and>
      w_tcp_sent w' = w_tcp_sent w @ map (tcp_packet e) (clicked bt (w_scenes w)) \<and>
      fr_debug fr = filter (\<lambda>obj. client_time e w < expireTime obj) (w_debug w)"
proof -
  obtain w1 ds where r: "SceneManager_Render e w = (w1, ds)" by fastforce
  note w1 = SceneManager_Render_ok [OF assms(1) r]
  let ?objs = "filter (\<lambda>obj. client_time e w < expireTime obj) (w_debug w)"
  let ?w2 = "w1\<lparr>w_debug := ?objs\<rparr>"
  have d: "DrawDebugObject e w1 = (?w2, ?objs)" using w1 by (simp add: DrawDebugObject_def client_time_def not_le Let_def)
  have ok: "client_ok Ts ?w2" using w1 by simp
  have c: "clicked bt (w_scenes ?w2) = clicked bt (w_scenes w)" using w1 by (simp add: clicked_def)
  obtain info where i: "DrawDebugginUI e bt ?w2 = Inr (info, \<not> bt_exit bt)"
    using client_ok_game [OF ok] by (auto simp: DrawDebugginUI_def)
  show ?thesis using DrawRoomUI_outcome [OF ok assms(2,3), of bt] w1 c
    by (auto simp: Game_Render_def r d i split: if_splits)
qed

section \<open>Packets between the steps\<close>

lemma send_reliable_buffers:
  assumes "buffers_ok Ts (w_memory w) (w_next w)" and "e_thread e \<in> Ts" and "env_ok e" and "send_reliable e k msg w = Inr w'"
  shows "buffers_ok Ts (w_memory w') (w_next w') \<and> w_time w' = w_time w \<and> w_input w' = w_input w"
proof -
  have "length (e_body e msg) \<le> 5994" using assms(3) unfolding env_ok_def by blast
  then have l: "length (e_body e msg) + sizeof_header UdpPacketHeader \<le> 6000" by simp
  from new_packet [OF assms(1,2) l, of "PKT (class_of msg)"] obtain b :: send_buffer and m where
    m: "MakeSendBufferUdp (e_thread e) (w_next w) (e_body e msg) (class_of msg) (w_memory w) = Inr m"
    "buffers_ok Ts m (Suc (w_next w))" "map_of (live (bufs m)) (w_next w) = Some b" "offset b + 6 \<le> 6000"
    by (auto simp: MakeSendBufferUdp_def)
  have "mem_ok m" using m(2) by (simp add: buffers_ok_def)
  from SendReliable_packet_works [OF this m(3,4), of "client_time e w" "session_of (w_service w) k"] obtain m' s' where
    "SendReliable_packet (w_next w) (client_time e w) m (session_of (w_service w) k) = Inr (m', s')" "mem_ok m'" "bufs m' = bufs m"
    by blast
  then show ?thesis using assms(4) m(1) buffers_ok_same_bufs [OF m(2)] by (auto simp: send_reliable_def)
qed

lemma AddDebug_frame [simp]:
  "w_memory (fold AddDebugDrawObject ds w) = w_memory w" "w_next (fold AddDebugDrawObject ds w) = w_next w"
  "w_time (fold AddDebugDrawObject ds w) = w_time w" "w_input (fold AddDebugDrawObject ds w) = w_input w"
  by (induction ds arbitrary: w) (simp_all add: AddDebugDrawObject_def)

lemma handler_frame:
  assumes "client_ok Ts w" and "e_thread e \<in> Ts" and "env_ok e" and "run_handler e ref msg w = Inr (b, w')"
  shows "buffers_ok Ts (w_memory w') (w_next w') \<and> tm_inv (w_time w') \<and> input_inv (w_input w')"
proof -
  have ok: "buffers_ok Ts (w_memory w) (w_next w)" "tm_inv (w_time w)" "input_inv (w_input w)"
    using assms(1) by (simp_all add: client_ok_def)
  note s = send_reliable_buffers [OF _ assms(2,3)]
  show ?thesis
  proof (cases msg)
    case (M_ENTER_GAME success ip port)
    show ?thesis
    proof (cases "success")
      case True
      then obtain k svc w1 where "send_reliable e k (CM_HANDSHAKE (w_userId w)) (w\<lparr>w_service := svc\<rparr>) = Inr w1" "w' = w1"
        using assms(4) by (auto simp: M_ENTER_GAME Handle_S_ENTER_GAME_def and_then_Inr_iff split: option.splits prod.splits)
      then show ?thesis using s [of "w\<lparr>w_service := svc\<rparr>"] ok by auto
    qed (use assms(4) ok in \<open>simp add: M_ENTER_GAME Handle_S_ENTER_GAME_def\<close>)
  next
    case (M_HANDSHAKE success)
    show ?thesis
    proof (cases "success")
      case True
      then obtain k where "send_reliable e k CM_SPAWN_ACTOR w = Inr w'"
        using assms(4) by (auto simp: M_HANDSHAKE Handle_S_HANDSHAKE_def and_then_Inr_iff split: session_ref.splits)
      then show ?thesis using s ok by auto
    qed (use assms(4) ok in \<open>simp add: M_HANDSHAKE Handle_S_HANDSHAKE_def\<close>)
  next
    case (M_SYNC_TIME ts)
    then show ?thesis using assms(4) ok
      by (auto simp: Handle_S_SYNC_TIME_def OnServerTimeReceived_def tm_inv_def and_then_Inr_iff Let_def split: option.splits)
  next
    case (M_SPAWN_ACTOR p infos)
    then show ?thesis using assms(4) ok
      by (auto simp: Handle_S_SPAWN_ACTOR_def SetMouseVisible_def input_inv_def Let_def split: option.splits if_splits)
  next
    case (M_SYNC_ACTOR ts infos)
    then show ?thesis using assms(4) ok by (auto simp: Handle_S_SYNC_ACTOR_def and_then_Inr_iff split: option.splits if_splits)
  next
    case (M_HIT_RESULT a p)
    then show ?thesis using assms(4) ok by (auto simp: Handle_S_HIT_RESULT_def case_prod_beta split: option.splits)
  next
    case (M_LOGIN u)
    then show ?thesis using assms(4) ok by (auto simp: Handle_S_LOGIN_def split: if_splits)
  next
    case (M_ACK q f)
    then show ?thesis using assms(4) ok by (auto simp: Handle_S_ACK_def split: session_ref.splits)
  qed (use assms(4) ok in \<open>auto simp: Handle_S_CREATE_ROOM_def Handle_S_ENTER_ROOM_def Handle_S_SYNC_ROOMLIST_def
      Handle_S_CHAT_def Handle_S_PLAYER_INPUT_def split: if_splits\<close>)
qed

lemma handler_client_ok:
  assumes "client_ok Ts w" and "e_thread e \<in> Ts" and "env_ok e"
  shows "case run_handler e ref msg w of
      Inl f \<Rightarrow> message_fault e ref msg w = Some f
    | Inr (b, w') \<Rightarrow> message_fault e ref msg w = None \<and> client_ok Ts w'"
  using run_handler_outcome [OF client_ok_world [OF assms(1,2)] assms(3), of ref msg] handler_frame [OF assms, of ref msg] client_okI
  by (auto split: sum.splits)

text \<open>The packet names no table entry, or its message is one of those that fault.\<close>

definition packet_fault ::
  "env \<Rightarrow> header_type \<Rightarrow> (packet_class \<Rightarrow> BYTE list \<Rightarrow> server_msg option) \<Rightarrow> session_ref \<Rightarrow> BYTE list \<Rightarrow> world \<Rightarrow> fault option" where
  "packet_fault e h P ref buffer w =
     (case dispatch h P buffer of
        Inl f \<Rightarrow> Some f
      | Inr None \<Rightarrow> None
      | Inr (Some (c, msg)) \<Rightarrow> message_fault e ref msg w)"

lemma OnRecv_tcp_outcome:
  assumes "client_ok Ts w" and "e_thread e \<in> Ts" and "env_ok e"
  shows "case OnRecv_tcp e P buffer w of
      Inl f \<Rightarrow> packet_fault e TcpPacketHeader P TcpRef buffer w = Some f
    | Inr (b, w') \<Rightarrow> packet_fault e TcpPacketHeader P TcpRef buffer w = None \<and> client_ok Ts w'"
proof (cases "dispatch TcpPacketHeader P buffer")
  case (Inl f)
  then show ?thesis by (simp add: OnRecv_tcp_def HandlePacket_Tcp_def packet_fault_def)
next
  case (Inr called)
  then show ?thesis
  proof (cases called)
    case None
    then show ?thesis using Inr assms(1) by (simp add: OnRecv_tcp_def HandlePacket_Tcp_def packet_fault_def)
  next
    case (Some cm)
    obtain c msg where cm: "cm = (c, msg)" by (cases cm) auto
    have "packet_fault e TcpPacketHeader P TcpRef buffer w = message_fault e TcpRef msg w"
      by (simp add: packet_fault_def Inr Some cm)
    moreover have "OnRecv_tcp e P buffer w = run_handler e TcpRef msg w"
      by (simp add: OnRecv_tcp_def HandlePacket_Tcp_def Inr Some cm)
    ultimately show ?thesis using handler_client_ok [OF assms, of TcpRef msg] by (simp only:)
  qed
qed

lemma acknowledge_works:
  assumes "buffers_ok Ts m n" and "t \<in> Ts" and "\<And>q f. length (body q f) \<le> 5994"
  shows "\<exists>m' s'. acknowledge body t n seq m s = Inr (m', s') \<and> buffers_ok Ts m' (Suc n)"
proof -
  obtain ok s1 where c: "CheckAndRecordReceiveHistory seq s = (ok, s1)" by fastforce
  have "length (body seq (GenerateAckBitfield seq s1)) + sizeof_header UdpPacketHeader \<le> 6000" using assms(3) le_add1 by simp
  from new_packet [OF assms(1,2) this, of "PKT C_ACK"] obtain m' where
    m': "MakeSendBufferUdp t n (body seq (GenerateAckBitfield seq s1)) C_ACK m = Inr m'" "buffers_ok Ts m' (Suc n)"
    by (auto simp: MakeSendBufferUdp_def)
  have "buffers_ok Ts m (Suc n)" using assms(1) by (auto simp: buffers_ok_def)
  then show ?thesis using m' by (cases ok) (simp_all add: acknowledge_def c)
qed

lemma message_fault_game: "w_scenes w' = w_scenes w \<Longrightarrow> message_fault e ref msg w' = message_fault e ref msg w"
  by (cases msg) (simp_all add: the_game_def)

lemma OnRecv_udp_outcome:
  assumes "client_ok Ts w" and "e_thread e \<in> Ts" and "env_ok e"
  shows "case OnRecv_udp e P k buffer w of
      Inl f \<Rightarrow> packet_fault e UdpPacketHeader P (UdpRef k) buffer w = Some f
    | Inr (b, w') \<Rightarrow> packet_fault e UdpPacketHeader P (UdpRef k) buffer w = None \<and> client_ok Ts w'"
proof -
  let ?seq = "header_sequence buffer" and ?s = "session_of (w_service w) k"
  let ?ack = "if ?seq > 0 then acknowledge (\<lambda>q f. e_body e (CM_ACK q f)) (e_thread e) (w_next w) ?seq (w_memory w) ?s
    else Inr (w_memory w, ?s)"
  have b: "buffers_ok Ts (w_memory w) (w_next w)" "buffers_ok Ts (w_memory w) (Suc (w_next w))"
    using assms(1) by (auto simp: client_ok_def buffers_ok_def)
  have l: "length (e_body e (CM_ACK q f)) \<le> 5994" for q f using assms(3) by (simp add: env_ok_def)
  obtain m s where a: "?ack = Inr (m, s)" "buffers_ok Ts m (Suc (w_next w))"
    using acknowledge_works [where seq = ?seq and s = ?s and body = "\<lambda>q f. e_body e (CM_ACK q f)", OF b(1) assms(2) l] b(2) by (cases "?seq > 0") auto
  let ?w = "w\<lparr>w_memory := m, w_next := Suc (w_next w),
    w_service := (w_service w)\<lparr>session_of := (session_of (w_service w))(k := s)\<rparr>\<rparr>"
  have ok: "client_ok Ts ?w" using assms(1) a(2) by (simp add: client_ok_def svc_inv_frame)
  have run: "OnRecv_udp e P k buffer w = and_then (dispatch UdpPacketHeader P buffer) (\<lambda>called.
      case called of None \<Rightarrow> Inr (False, ?w) | Some (c, msg) \<Rightarrow> run_handler e (UdpRef k) msg ?w)"
    unfolding OnRecv_udp_def HandlePacket_Udp_def Let_def a(1)
    by (cases "dispatch UdpPacketHeader P buffer") simp_all
  show ?thesis
  proof (cases "dispatch UdpPacketHeader P buffer")
    case (Inl f)
    then show ?thesis by (simp add: run packet_fault_def)
  next
    case (Inr called)
    show ?thesis
    proof (cases called)
      case None
      then show ?thesis using Inr ok by (simp add: run packet_fault_def)
    next
      case (Some cm)
      obtain c msg where cm: "cm = (c, msg)" by (cases cm) auto
      have "packet_fault e UdpPacketHeader P (UdpRef k) buffer w = message_fault e (UdpRef k) msg ?w"
        using message_fault_game [of ?w w e "UdpRef k" msg] by (simp add: packet_fault_def Inr Some cm)
      moreover have "OnRecv_udp e P k buffer w = run_handler e (UdpRef k) msg ?w" by (simp add: run Inr Some cm)
      ultimately show ?thesis using handler_client_ok [OF ok assms(2,3), of "UdpRef k" msg] by (simp only:)
    qed
  qed
qed

section \<open>Runs of the client\<close>

definition fresh_buffers :: "nat list \<Rightarrow> BYTE \<Rightarrow> packet_memory" where
  "fresh_buffers ts v = \<lparr>bufs = SendBufferManager ts, chunk_bytes = (\<lambda>_. replicate 6000 v)\<rparr>"

text \<open>
  Any interleaving of the steps: those of the main thread, packets and datagrams, connection and loss of it. \<open>ts\<close> are the
  threads, \<open>P\<close> parses messages. Each step may be run by any of the threads.
\<close>

inductive client_run :: "nat list \<Rightarrow> (packet_class \<Rightarrow> BYTE list \<Rightarrow> server_msg option) \<Rightarrow> world \<Rightarrow> bool" for ts P where
  start: "Game_Init freq c (Service ep maxUdp) (fresh_buffers ts v) = Inr w \<Longrightarrow> client_run ts P w"
| connected: "client_run ts P w \<Longrightarrow> e_thread e \<in> set ts \<Longrightarrow> env_ok e \<Longrightarrow> OnConnected_tcp e w = Inr w' \<Longrightarrow> client_run ts P w'"
| disconnected: "client_run ts P w \<Longrightarrow> client_run ts P (OnDisconnected_tcp w)"
| tcp_packet: "client_run ts P w \<Longrightarrow> e_thread e \<in> set ts \<Longrightarrow> env_ok e \<Longrightarrow> OnRecv_tcp e P buffer w = Inr (b, w') \<Longrightarrow>
    client_run ts P w'"
| datagram: "client_run ts P w \<Longrightarrow> FindOrCreateUdpSession ep (w_service w) = (k, svc) \<Longrightarrow>
    client_run ts P (w\<lparr>w_service := svc\<rparr>)"
| udp_packet: "client_run ts P w \<Longrightarrow> e_thread e \<in> set ts \<Longrightarrow> env_ok e \<Longrightarrow> OnRecv_udp e P k buffer w = Inr (b, w') \<Longrightarrow>
    client_run ts P w'"
| time: "client_run ts P w \<Longrightarrow> e_thread e \<in> set ts \<Longrightarrow> env_ok e \<Longrightarrow> TimeManager_Update_world e w = Inr w' \<Longrightarrow>
    client_run ts P w'"
| tick: "client_run ts P w \<Longrightarrow> e_thread e \<in> set ts \<Longrightarrow> env_ok e \<Longrightarrow> Game_Update e ti w = Inr w' \<Longrightarrow> client_run ts P w'"
| draw: "client_run ts P w \<Longrightarrow> e_thread e \<in> set ts \<Longrightarrow> env_ok e \<Longrightarrow> Game_Render e bt w = Inr (fr, running, w') \<Longrightarrow>
    client_run ts P w'"

lemma Game_Init_result:
  "Game_Init freq c svc mem = Inr \<lparr>w_time = TimeManager_Init freq c TimeManager, w_input = InputManager,
     w_scenes = SceneManager\<lparr>current_scene := Some GameScene, sceneType := GameSceneType\<rparr>, w_debug = [],
     w_userId = 0, w_tcp = False, w_tcp_sent = [], w_service = svc, w_memory = mem, w_next = 0\<rparr>"
  by (simp add: Game_Init_def ChangeScene_def SceneManager_def GameScene_Init_def GameScene_def Scene_Init_def Let_def)

lemma Game_Init_ok: "Game_Init freq c (Service ep maxUdp) (fresh_buffers ts v) = Inr w \<Longrightarrow> client_ok (set ts) w"
proof -
  have "svc_inv (Service ep maxUdp)" by (rule service_reachable_inv) (rule service_reachable.start)
  moreover have "buffers_ok (set ts) (fresh_buffers ts v) 0" unfolding fresh_buffers_def by (rule fresh_memory_buffers_ok)
  moreover have "tm_inv (TimeManager_Init freq c TimeManager)"
    using TimeManager_inv [of False freq c] by (simp add: tm_inv_def SetSession_def)
  moreover have "input_inv InputManager" using PI_bounds by (simp add: input_inv_def InputManager_def)
  ultimately show "Game_Init freq c (Service ep maxUdp) (fresh_buffers ts v) = Inr w \<Longrightarrow> client_ok (set ts) w"
    unfolding Game_Init_result by (auto simp: client_ok_def GameScene_def)
qed

lemma OnConnected_tcp_ok:
  assumes "client_ok Ts w" and "e_thread e \<in> Ts" and "env_ok e"
  shows "\<exists>w'. OnConnected_tcp e w = Inr w' \<and> client_ok Ts w' \<and> w_tcp w' \<and> w_tcp_sent w' = w_tcp_sent w @ [tcp_packet e CM_LOGIN]"
proof -
  have "client_ok Ts (w\<lparr>w_tcp := True, w_time := SetSession True (w_time w)\<rparr>)"
    using assms(1) by (simp add: client_ok_def SetSession_def tm_inv_def)
  from send_tcp_ok [OF this assms(2,3), of CM_LOGIN] show ?thesis by (auto simp: OnConnected_tcp_def)
qed

lemma client_run_ok: "client_run ts P w \<Longrightarrow> client_ok (set ts) w"
proof (induction rule: client_run.induct)
  case (start freq c ep maxUdp v w)
  then show ?case by (rule Game_Init_ok)
next
  case (connected w e w')
  then show ?case using OnConnected_tcp_ok by fastforce
next
  case (disconnected w)
  then show ?case by (simp add: OnDisconnected_tcp_def)
next
  case (tcp_packet w e buffer b w')
  show ?case using OnRecv_tcp_outcome [OF tcp_packet.IH tcp_packet.hyps(2,3), of P buffer] tcp_packet.hyps(4) by simp
next
  case (datagram w ep k svc)
  then show ?case using FindOrCreate_inv by (auto simp: client_ok_def)
next
  case (udp_packet w e k buffer b w')
  show ?case using OnRecv_udp_outcome [OF udp_packet.IH udp_packet.hyps(2,3), of P k buffer] udp_packet.hyps(4) by simp
next
  case (time w e w')
  then show ?case using TimeManager_Update_world_ok by fastforce
next
  case (tick w e ti w')
  show ?case using Game_Update_outcome [OF tick.IH tick.hyps(2,3), of ti] tick.hyps(4) by simp
next
  case (draw w e bt fr running w')
  show ?case using Game_Render_result [OF draw.IH draw.hyps(2,3), of bt] draw.hyps(4) by (auto split: if_splits)
qed

section \<open>Properties\<close>

text \<open>The frame time \<open>TimeManager::Update\<close> computes.\<close>

definition frame_time :: "env \<Rightarrow> world \<Rightarrow> fp" where
  "frame_time e w = f64 (double_of_u64 (e_count e - prevCount (w_time w)) / double_of_u64 (frequency (w_time w)))"

lemma TimeManager_Update_deltaTime:
  assumes "TimeManager_Update c c2 s = Inr (sent, s')"
  shows "deltaTime s' = f64 (double_of_u64 (c - prevCount s) / double_of_u64 (frequency s))"
  using assms by (auto simp: TimeManager_Update_def sync_request_def advance_frame_def count_fps_def and_then_Inr_iff Let_def
      split: if_splits prod.splits)

lemma frame_time_update:
  assumes "TimeManager_Update_world e w = Inr w1"
  shows "deltaTime (w_time w1) = frame_time e w"
  using assms TimeManager_Update_deltaTime [of "e_count e" "e_count2 e" "w_time w"]
  by (auto simp: TimeManager_Update_world_def and_then_Inr_iff frame_time_def send_tcp_def split: if_splits)

lemma frame_budget:
  assumes "0 \<le> x" and "x < LOGIC_TICK_INTERVAL" and "frame_time e w \<le> 2 ^ 23"
  shows "0 \<le> f64 (x + frame_time e w) \<and> f64 (x + frame_time e w) < 2 ^ 24"
proof
  have nn: "0 \<le> frame_time e w"
    unfolding frame_time_def by (intro f64_nonneg divide_nonneg_nonneg double_of_u64_nonneg)
  then show "0 \<le> f64 (x + frame_time e w)" using assms(1) by (intro f64_nonneg) simp
  have "x + frame_time e w \<le> of_int (2 ^ 23 + 1)" using assms(2,3) tick_bounds by simp
  then have "f64 (x + frame_time e w) \<le> f64 (of_int (2 ^ 23 + 1))" by (rule f64_mono)
  also have "f64 (of_int (2 ^ 23 + 1)) = of_int (2 ^ 23 + 1)" by (rule f64_of_int) simp
  finally show "f64 (x + frame_time e w) < 2 ^ 24" by simp
qed

lemma ticks_keep_client:
  assumes "client_ok Ts w" and "\<And>n. e_thread (fst (inp n)) \<in> Ts \<and> env_ok (fst (inp n))"
    and "fold_res (\<lambda>n. Game_Update (fst (inp n)) (snd (inp n))) ns w = Inr w'"
  shows "client_ok Ts w'"
proof (rule fold_res_inv [of ns "client_ok Ts", OF _ assms(1,3)])
  fix n s s'
  assume "client_ok Ts s" and "Game_Update (fst (inp n)) (snd (inp n)) s = Inr s'"
  then show "client_ok Ts s'" using Game_Update_outcome [of Ts s "fst (inp n)" "snd (inp n)"] assms(2) by simp
qed

text \<open>
  C18: every iteration of the main loop returns and catches up. From a well-formed client, with less than a tick
  left over and a frame time up to \<open>2 ^ 23\<close> seconds, the iteration ends: in an undefined conversion (the player has turned too far),
  in a null pointer (a click without a connection), or well formed, having run exactly as many ticks as the time held, with less than a tick left over
  and at most \<open>2 ^ - 30\<close> seconds lost or gained per tick.
\<close>
theorem main_iteration_returns:
  assumes "client_ok Ts w" and "0 \<le> x" and "x < LOGIC_TICK_INTERVAL" and "frame_time (li_time li) w \<le> 2 ^ 23"
    and "\<And>e. e \<in> {li_time li, li_draw li} \<union> range (fst \<circ> li_tick li) \<Longrightarrow> e_thread e \<in> Ts \<and> env_ok e"
  shows "\<exists>r. main_iteration li (x, w) = Some r \<and>
    (case r of
       Inl f \<Rightarrow> f = BadCast \<or> f = NullDeref
     | Inr (fr, running, rest, w') \<Rightarrow> client_ok Ts w' \<and> running = (\<not> bt_exit (li_buttons li)) \<and> 0 \<le> rest \<and> rest < LOGIC_TICK_INTERVAL \<and>
         (\<exists>n w1 w2. TimeManager_Update_world (li_time li) w = Inr w1 \<and>
            fold_res (\<lambda>n. Game_Update (fst (li_tick li n)) (snd (li_tick li n))) [0..<n] w1 = Inr w2 \<and>
            \<bar>rest + of_nat n * LOGIC_TICK_INTERVAL - f64 (x + frame_time (li_time li) w)\<bar> \<le> of_nat n / 2 ^ 30))"
proof -
  let ?upd = "\<lambda>n. Game_Update (fst (li_tick li n)) (snd (li_tick li n))" and ?x = "f64 (x + frame_time (li_time li) w)"
  have env: "e_thread (li_time li) \<in> Ts" "env_ok (li_time li)" "e_thread (li_draw li) \<in> Ts" "env_ok (li_draw li)"
    and tick: "e_thread (fst (li_tick li n)) \<in> Ts \<and> env_ok (fst (li_tick li n))" for n
    using assms(5) by auto
  obtain w1 where w1: "TimeManager_Update_world (li_time li) w = Inr w1" "client_ok Ts w1"
    using TimeManager_Update_world_ok [OF assms(1) env(1,2)] by blast
  obtain r where r: "tick_loop ?upd 0 ?x w1 = Some r" "ticked ?upd 0 ?x w1 r"
    using tick_loop_ends [OF conjunct1 [OF frame_budget [OF assms(2-4)]] conjunct2 [OF frame_budget [OF assms(2-4)]], of ?upd 0 w1] by auto
  have run: "main_iteration li (x, w) =
      (case r of
         Inl f \<Rightarrow> Some (Inl f)
       | Inr (n, rest, w2) \<Rightarrow> Some (and_then (Game_Render (li_draw li) (li_buttons li) w2) (\<lambda>(fr, running, w3). Inr (fr, running, rest, w3))))"
    by (simp add: main_iteration_def w1(1) frame_time_update [OF w1(1)] r(1) split: sum.split)
  show ?thesis
  proof (cases r)
    case (Inl f)
    then obtain m s1 where m: "fold_res ?upd [0..<m] w1 = Inr s1" "?upd m s1 = Inl f" using r(2) by (auto simp: ticked_def)
    have "client_ok Ts s1" by (rule ticks_keep_client [OF w1(2) tick m(1)])
    from Game_Update_outcome [OF this, of "fst (li_tick li m)" "snd (li_tick li m)"] tick m(2) have "f = BadCast" by (simp add: turn_fault_def)
    then show ?thesis by (simp add: run Inl)
  next
    case (Inr q)
    obtain n rest w2 where q: "q = (n, rest, w2)" by (cases q) auto
    have t: "fold_res ?upd [0..<n] w1 = Inr w2" "0 \<le> rest" "rest < LOGIC_TICK_INTERVAL"
      "\<bar>rest + of_nat n * LOGIC_TICK_INTERVAL - ?x\<bar> \<le> of_nat n / 2 ^ 30"
      using r(2) unfolding ticked_def Inr q sum.case prod.case by simp_all
    have ok: "client_ok Ts w2" by (rule ticks_keep_client [OF w1(2) tick t(1)])
    from Game_Render_result [OF this env(3,4), of "li_buttons li"] consider
        "Game_Render (li_draw li) (li_buttons li) w2 = Inl NullDeref"
      | fr w' where "Game_Render (li_draw li) (li_buttons li) w2 = Inr (fr, \<not> bt_exit (li_buttons li), w')" "client_ok Ts w'"
      by (auto split: if_splits)
    then show ?thesis using t w1(1) by cases (auto simp: run Inr q)
  qed
qed


text \<open>
  C2: what can go wrong in a run of the client. However the steps of the main thread, packets, datagrams and
  connections interleave, the scene stays typed and no two UDP sessions share an endpoint; the time update and the login always work; a packet
  faults exactly when \<open>packet_fault\<close> says so. A tick faults only in the conversion of the yaw it sends, when that is beyond half a turn, and it does
  whenever that is a thousandth of a radian further; a frame faults exactly on a click without a connection.
\<close>
theorem client_runs_safe:
  assumes "client_run ts P w" and "e_thread e \<in> set ts" and "env_ok e"
  shows "client_ok (set ts) w \<and> (\<exists>w'. TimeManager_Update_world e w = Inr w') \<and> (\<exists>w'. OnConnected_tcp e w = Inr w') \<and>
    (case OnRecv_tcp e P buffer w of Inl f \<Rightarrow> packet_fault e TcpPacketHeader P TcpRef buffer w = Some f
       | Inr _ \<Rightarrow> packet_fault e TcpPacketHeader P TcpRef buffer w = None) \<and>
    (case OnRecv_udp e P k buffer w of Inl f \<Rightarrow> packet_fault e UdpPacketHeader P (UdpRef k) buffer w = Some f
       | Inr _ \<Rightarrow> packet_fault e UdpPacketHeader P (UdpRef k) buffer w = None) \<and>
    (case Game_Update e ti w of
       Inl f \<Rightarrow> f = BadCast \<and> (\<exists>y. sent_yaw e ti w = Some y \<and> PI < \<bar>y\<bar>)
     | Inr _ \<Rightarrow> \<forall>y. sent_yaw e ti w = Some y \<longrightarrow> \<bar>y\<bar> < PI + 1 / 1000) \<and>
    (case Game_Render e bt w of
       Inl f \<Rightarrow> f = NullDeref \<and> \<not> w_tcp w \<and> clicked bt (w_scenes w) \<noteq> []
     | Inr _ \<Rightarrow> w_tcp w \<or> clicked bt (w_scenes w) = [])"
proof -
  note ok = client_run_ok [OF assms(1)]
  show ?thesis
    using ok TimeManager_Update_world_ok [OF ok assms(2,3)] OnConnected_tcp_ok [OF ok assms(2,3)]
      OnRecv_tcp_outcome [OF ok assms(2,3), of P buffer] OnRecv_udp_outcome [OF ok assms(2,3), of P k buffer]
      Game_Update_outcome [OF ok assms(2,3), of ti] Game_Render_result [OF ok assms(2,3), of bt]
    by (auto simp: turn_fault_def turn_fits_def split: sum.splits if_splits option.splits)
qed

text \<open>
  A refused game start leaves the client without a menu. The start button marks the client as being in the
  game before the server has answered; when it refuses, the mark stays, and in this state no button sends anything any more.
\<close>
theorem start_refused_sticks:
  assumes "client_ok Ts w" and "e_thread e \<in> Ts" and "env_ok e" and "w_tcp w"
    and "isInRoom (w_scenes w)" and "\<not> isInGame (w_scenes w)" and "bt_start bt"
  shows "\<exists>fr running w'. Game_Render e bt w = Inr (fr, running, w') \<and>
    run_handler e ref (M_ENTER_GAME False ip port) w' = Inr (False, w') \<and> isInGame (w_scenes w') \<and>
    clicked bt' (w_scenes w') = []"
proof -
  obtain w1 ds where r: "SceneManager_Render e w = (w1, ds)" by fastforce
  note w1 = SceneManager_Render_ok [OF assms(1) r]
  let ?w2 = "fst (DrawDebugObject e w1)"
  have w2: "client_ok Ts ?w2" "isInRoom (w_scenes ?w2)" "\<not> isInGame (w_scenes ?w2)" "w_tcp ?w2"
    using w1 assms(4-6) by (simp_all add: DrawDebugObject_def Let_def)
  obtain info where i: "DrawDebugginUI e bt ?w2 = Inr (info, \<not> bt_exit bt)"
    using client_ok_game [OF w2(1)] by (auto simp: DrawDebugginUI_def)
  obtain w3 where w3: "send_clicked e CM_ENTER_GAME ?w2 = Inr w3" "w_scenes w3 = w_scenes ?w2"
    using sent_one [OF w2(1) assms(2,3), of CM_ENTER_GAME] w2(4) by (auto simp: sent_all_def)
  let ?w4 = "w3\<lparr>w_scenes := SetIsInGame True (w_scenes w3)\<rparr>"
  have "DrawRoomUI e bt ?w2 = Inr (Room_Waiting (roomId (w_scenes ?w2)), ?w4)"
    using w2 assms(7) w3 by (simp add: DrawRoomUI_def Let_def)
  then obtain fr where fr: "Game_Render e bt w = Inr (fr, \<not> bt_exit bt, ?w4)"
    using i by (simp add: Game_Render_def r case_prod_beta)
  moreover have "isInGame (w_scenes ?w4)" "isInRoom (w_scenes ?w4)" using w2(2) w3(2) by (simp_all add: SetIsInGame_def)
  moreover from this have "clicked bt' (w_scenes ?w4) = []" by (simp add: clicked_def)
  moreover have "run_handler e ref (M_ENTER_GAME False ip port) ?w4 = Inr (False, ?w4)" by (simp add: Handle_S_ENTER_GAME_def)
  ultimately show ?thesis by blast
qed

section \<open>A client that has just started\<close>

definition started :: world where
  "started = \<lparr>w_time = TimeManager_Init 10000000 0 TimeManager, w_input = InputManager,
     w_scenes = SceneManager\<lparr>current_scene := Some GameScene, sceneType := GameSceneType\<rparr>, w_debug = [],
     w_userId = 0, w_tcp = False, w_tcp_sent = [], w_service = Service None 1, w_memory = fresh_buffers [0, 1] 0, w_next = 0\<rparr>"

lemma started_run: "client_run [0, 1] P started"
  by (rule client_run.start [of 10000000 0 None 1 _ 0]) (simp add: Game_Init_result started_def)

lemma client_started_ok: "client_ok {0, 1} started"
  using client_run_ok [OF started_run] by simp

definition no_buttons :: buttons where
  "no_buttons = \<lparr>bt_exit = False, bt_create = False, bt_start = False, bt_enter = (\<lambda>_. False)\<rparr>"

definition no_keys :: tick_input where
  "no_keys = \<lparr>ti_focused = True, ti_down = (\<lambda>_. False), ti_down2 = (\<lambda>_. False), ti_mx = 0, ti_my = 0\<rparr>"

definition sample_loop :: loop_input where
  "sample_loop = \<lparr>li_time = sample_env, li_tick = (\<lambda>_. (sample_env, no_keys)), li_draw = sample_env, li_buttons = no_buttons\<rparr>"

lemma sample_env_thread: "e_thread sample_env \<in> {0, 1}" "e_thread sample_env \<in> set [0, 1]"
  by (simp_all add: sample_env_def)

lemma main_iteration_returns_witness: "\<exists>r. main_iteration sample_loop (0, started) = Some r"
proof -
  have "frame_time (li_time sample_loop) started = 0"
    by (simp add: frame_time_def sample_loop_def started_def TimeManager_Init_def sample_env_def double_of_u64_def)
  moreover have "0 < LOGIC_TICK_INTERVAL" using tick_bounds by simp
  ultimately show ?thesis
    using main_iteration_returns [OF client_started_ok, of 0 sample_loop] sample_env_thread client_start_ok(2)
    by (auto simp: sample_loop_def)
qed


lemma client_runs_safe_witness:
  "client_run [0, 1] (\<lambda>_ _. None) started \<and> client_ok {0, 1} started \<and> (\<exists>w'. OnConnected_tcp sample_env started = Inr w')"
  using client_runs_safe [where P = "\<lambda>_ _. None" and buffer = "[]" and k = 0 and ti = no_keys and bt = no_buttons,
      OF started_run sample_env_thread(2) client_start_ok(2)] started_run
  by simp

lemma start_refused_sticks_witness:
  "\<exists>fr running w'. Game_Render sample_env (no_buttons\<lparr>bt_start := True\<rparr>)
      (started\<lparr>w_tcp := True, w_scenes := SetIsInRoom True (w_scenes started)\<rparr>) = Inr (fr, running, w') \<and>
    run_handler sample_env TcpRef (M_ENTER_GAME False [] 0) w' = Inr (False, w') \<and> isInGame (w_scenes w')"
proof -
  let ?w = "started\<lparr>w_tcp := True, w_scenes := SetIsInRoom True (w_scenes started)\<rparr>"
  have "client_ok {0, 1} ?w" using client_started_ok by (simp add: client_ok_def SetIsInRoom_def)
  moreover have "\<not> isInGame (w_scenes ?w)" "isInRoom (w_scenes ?w)"
    by (simp_all add: SetIsInRoom_def started_def SceneManager_def)
  ultimately show ?thesis
    using start_refused_sticks [OF _ sample_env_thread(1) client_start_ok(2), of ?w "no_buttons\<lparr>bt_start := True\<rparr>" TcpRef "[]" 0 no_buttons]
    by fastforce
qed

end
