(* ===== verification/Byte_Stream.thy ===== *)
theory Byte_Stream
  imports Prelude
begin

text \<open>
  \<open>BufferReader\<close> and \<open>BufferWriter\<close>: cursors over memory the caller provides. The record holds the
  memory from the pointer on, as far as it may be accessed; \<open>size\<close> is what the caller said it is. \<open>Peek\<close>, \<open>Read\<close>,
  \<open>Write\<close> and \<open>Reserve\<close> test the rest of that size, the stream operators test nothing. A value of a type is the
  bytes of its representation, a type is its size.
\<close>

section \<open>BufferReader\<close>

record buffer_reader =
  rd_buffer :: "BYTE list"
  rd_size :: uint32
  rd_pos :: uint32

definition BufferReader :: "BYTE list \<Rightarrow> uint32 \<Rightarrow> uint32 \<Rightarrow> buffer_reader" where
  "BufferReader buffer sz pos = \<lparr>rd_buffer = buffer, rd_size = sz, rd_pos = pos\<rparr>"

definition ReadSize :: "buffer_reader \<Rightarrow> uint32" where
  "ReadSize r = rd_pos r"

definition rd_FreeSize :: "buffer_reader \<Rightarrow> uint32" where
  "rd_FreeSize r = rd_size r - rd_pos r"

text \<open>The bytes copied to \<open>dest\<close>, or \<open>false\<close> (\<open>None\<close>).\<close>

definition Peek :: "uint32 \<Rightarrow> buffer_reader \<Rightarrow> BYTE list option res" where
  "Peek len r =
     (if rd_FreeSize r < len then Inr None
      else if length (rd_buffer r) < unat (rd_pos r) + unat len then Inl OutOfBounds
      else Inr (Some (segment (unat (rd_pos r)) (unat len) (rd_buffer r))))"

definition Read :: "uint32 \<Rightarrow> buffer_reader \<Rightarrow> (BYTE list option \<times> buffer_reader) res" where
  "Read len r =
     and_then (Peek len r) (\<lambda>dest. case dest of
        None \<Rightarrow> Inr (None, r)
      | Some bs \<Rightarrow> Inr (Some bs, r\<lparr>rd_pos := rd_pos r + len\<rparr>))"

definition read_operator :: "uint32 \<Rightarrow> buffer_reader \<Rightarrow> (BYTE list \<times> buffer_reader) res" where
  "read_operator sizeof_T r =
     (if length (rd_buffer r) < unat (rd_pos r) + unat sizeof_T then Inl OutOfBounds
      else Inr (segment (unat (rd_pos r)) (unat sizeof_T) (rd_buffer r), r\<lparr>rd_pos := rd_pos r + sizeof_T\<rparr>))"

section \<open>BufferWriter\<close>

record buffer_writer =
  wr_buffer :: "BYTE list"
  wr_size :: uint32
  wr_pos :: uint32

definition BufferWriter :: "BYTE list \<Rightarrow> uint32 \<Rightarrow> uint32 \<Rightarrow> buffer_writer" where
  "BufferWriter buffer sz pos = \<lparr>wr_buffer = buffer, wr_size = sz, wr_pos = pos\<rparr>"

definition WriteSize :: "buffer_writer \<Rightarrow> uint32" where
  "WriteSize w = wr_pos w"

definition wr_FreeSize :: "buffer_writer \<Rightarrow> uint32" where
  "wr_FreeSize w = wr_size w - wr_pos w"

definition put_bytes :: "BYTE list \<Rightarrow> buffer_writer \<Rightarrow> buffer_writer res" where
  "put_bytes src w =
     (if length (wr_buffer w) < unat (wr_pos w) + length src then Inl OutOfBounds
      else Inr (w\<lparr>wr_buffer := store (unat (wr_pos w)) src (wr_buffer w), wr_pos := wr_pos w + of_nat (length src)\<rparr>))"

definition Write :: "BYTE list \<Rightarrow> buffer_writer \<Rightarrow> (bool \<times> buffer_writer) res" where
  "Write src w =
     (if wr_FreeSize w < of_nat (length src) then Inr (False, w)
      else and_then (put_bytes src w) (\<lambda>w'. Inr (True, w')))"

text \<open>The offset of the reserved room, or \<open>nullptr\<close>.\<close>

definition Reserve :: "uint32 \<Rightarrow> buffer_writer \<Rightarrow> nat option \<times> buffer_writer" where
  "Reserve sizeof_T w =
     (if wr_FreeSize w < sizeof_T then (None, w)
      else (Some (unat (wr_pos w)), w\<lparr>wr_pos := wr_pos w + sizeof_T\<rparr>))"

definition write_operator :: "BYTE list \<Rightarrow> buffer_writer \<Rightarrow> buffer_writer res" where
  "write_operator src w = put_bytes src w"

section \<open>Cursors inside their memory\<close>

definition reader_ok :: "buffer_reader \<Rightarrow> bool" where
  "reader_ok r \<longleftrightarrow> rd_pos r \<le> rd_size r \<and> unat (rd_size r) \<le> length (rd_buffer r)"

definition writer_ok :: "buffer_writer \<Rightarrow> bool" where
  "writer_ok w \<longleftrightarrow> wr_pos w \<le> wr_size w \<and> unat (wr_size w) \<le> length (wr_buffer w)"

lemma room_iff:
  assumes "(pos :: uint32) \<le> sz"
  shows "sz - pos < len \<longleftrightarrow> unat sz < unat pos + unat len"
  using assms by (simp add: word_less_nat_alt word_le_nat_alt unat_sub) linarith

lemma unat_advance:
  assumes "unat (pos :: uint32) + unat len \<le> unat (sz :: uint32)"
  shows "unat (pos + len) = unat pos + unat len"
proof -
  have "unat sz < 2 ^ LENGTH(32)" by (rule unsigned_less)
  then show ?thesis using assms by (simp add: unat_word_ariths)
qed

lemma length_fits:
  assumes "length bs < 2 ^ 32"
  shows "unat (of_nat (length bs) :: uint32) = length bs"
  using assms by (simp add: unat_of_nat)

lemma Read_cases:
  assumes "reader_ok r"
  shows "Read len r =
    (if unat (rd_pos r) + unat len \<le> unat (rd_size r)
     then Inr (Some (segment (unat (rd_pos r)) (unat len) (rd_buffer r)), r\<lparr>rd_pos := rd_pos r + len\<rparr>)
     else Inr (None, r))"
  using assms room_iff [of "rd_pos r" "rd_size r" len]
  by (auto simp: Read_def Peek_def rd_FreeSize_def reader_ok_def)

lemma Read_ok: "reader_ok r \<Longrightarrow> Read len r = Inr (d, r') \<Longrightarrow> reader_ok r'"
  by (auto simp: Read_cases reader_ok_def word_le_nat_alt unat_advance split: if_splits)

lemma Write_cases:
  assumes "writer_ok w" and "length src < 2 ^ 32"
  shows "Write src w =
    (if unat (wr_pos w) + length src \<le> unat (wr_size w)
     then Inr (True, w\<lparr>wr_buffer := store (unat (wr_pos w)) src (wr_buffer w), wr_pos := wr_pos w + of_nat (length src)\<rparr>)
     else Inr (False, w))"
  using assms room_iff [of "wr_pos w" "wr_size w" "of_nat (length src)"] length_fits [OF assms(2)]
  by (auto simp: Write_def put_bytes_def wr_FreeSize_def writer_ok_def)

text \<open>Writing pieces one after the other, and reading as many pieces of the given lengths.\<close>

definition write_all :: "BYTE list list \<Rightarrow> buffer_writer \<Rightarrow> (bool list \<times> buffer_writer) res" where
  "write_all srcs w = fold_res (\<lambda>src (oks, w). and_then (Write src w) (\<lambda>(ok, w'). Inr (oks @ [ok], w'))) srcs ([], w)"

fun read_all :: "uint32 list \<Rightarrow> buffer_reader \<Rightarrow> (BYTE list option list \<times> buffer_reader) res" where
  "read_all [] r = Inr ([], r)"
| "read_all (len # lens) r = and_then (Read len r) (\<lambda>(d, r1). and_then (read_all lens r1) (\<lambda>(ds, r2). Inr (d # ds, r2)))"

lemma write_all_step:
  assumes "writer_ok w" and "unat (wr_pos w) + length (concat srcs) \<le> unat (wr_size w)"
  shows "\<exists>w'. fold_res (\<lambda>src (oks, w). and_then (Write src w) (\<lambda>(ok, w'). Inr (oks @ [ok], w'))) srcs (oks, w) =
      Inr (oks @ replicate (length srcs) True, w') \<and> writer_ok w' \<and> wr_size w' = wr_size w \<and>
    unat (wr_pos w') = unat (wr_pos w) + length (concat srcs) \<and>
    wr_buffer w' = store (unat (wr_pos w)) (concat srcs) (wr_buffer w)"
  using assms
proof (induction srcs arbitrary: w oks)
  case Nil
  then show ?case by (simp add: store_def)
next
  case (Cons src srcs)
  let ?w1 = "w\<lparr>wr_buffer := store (unat (wr_pos w)) src (wr_buffer w), wr_pos := wr_pos w + of_nat (length src)\<rparr>"
  have "unat (wr_size w) < 2 ^ LENGTH(32)" by (rule unsigned_less)
  then have l: "length src < 2 ^ 32" using Cons.prems(2) by simp
  have fits: "unat (wr_pos w) + length src \<le> unat (wr_size w)" using Cons.prems(2) by simp
  have run: "Write src w = Inr (True, ?w1)" using Write_cases [OF Cons.prems(1) l] fits by simp
  have pos: "unat (wr_pos ?w1) = unat (wr_pos w) + length src"
    using unat_advance [of "wr_pos w" "of_nat (length src)" "wr_size w"] length_fits [OF l] fits by simp
  have b: "unat (wr_size w) \<le> length (wr_buffer w)" using Cons.prems(1) by (simp add: writer_ok_def)
  have len: "length (wr_buffer ?w1) = length (wr_buffer w)" using fits b by simp
  have "writer_ok ?w1" using pos len fits b by (simp add: writer_ok_def word_le_nat_alt)
  moreover have "unat (wr_pos ?w1) + length (concat srcs) \<le> unat (wr_size ?w1)" using Cons.prems(2) pos by simp
  ultimately obtain w' where w': "fold_res (\<lambda>src (oks, w). and_then (Write src w) (\<lambda>(ok, w'). Inr (oks @ [ok], w'))) srcs (oks @ [True], ?w1) =
      Inr ((oks @ [True]) @ replicate (length srcs) True, w')" "writer_ok w'" "wr_size w' = wr_size ?w1"
    "unat (wr_pos w') = unat (wr_pos ?w1) + length (concat srcs)"
    "wr_buffer w' = store (unat (wr_pos ?w1)) (concat srcs) (wr_buffer ?w1)"
    using Cons.IH [of ?w1 "oks @ [True]"] by blast
  have "wr_buffer w' = store (unat (wr_pos w)) (concat (src # srcs)) (wr_buffer w)"
    using w'(5) pos fits b by (simp add: store_def ac_simps)
  then show ?case using run w' pos by simp
qed

lemma read_all_step:
  assumes "reader_ok r" and "rd_buffer r = pre @ concat srcs @ rest" and "length pre = unat (rd_pos r)"
    and "unat (rd_pos r) + length (concat srcs) \<le> unat (rd_size r)"
  shows "\<exists>r'. read_all (map (\<lambda>src. of_nat (length src)) srcs) r = Inr (map Some srcs, r') \<and> reader_ok r' \<and>
    unat (rd_pos r') = unat (rd_pos r) + length (concat srcs)"
  using assms
proof (induction srcs arbitrary: r pre)
  case Nil
  then show ?case by simp
next
  case (Cons src srcs)
  let ?n = "of_nat (length src) :: uint32" and ?r1 = "r\<lparr>rd_pos := rd_pos r + of_nat (length src)\<rparr>"
  have "unat (rd_size r) < 2 ^ LENGTH(32)" by (rule unsigned_less)
  then have n: "unat ?n = length src" using Cons.prems(4) by (intro length_fits) simp
  have fits: "unat (rd_pos r) + unat ?n \<le> unat (rd_size r)" using Cons.prems(4) n by simp
  have pos: "unat (rd_pos ?r1) = unat (rd_pos r) + length src" using unat_advance [OF fits] n by simp
  have run: "Read ?n r = Inr (Some src, ?r1)"
    using Read_cases [OF Cons.prems(1), of ?n] fits Cons.prems(2,3) n by (simp add: segment_def)
  have "reader_ok ?r1" by (rule Read_ok [OF Cons.prems(1) run])
  moreover have "rd_buffer ?r1 = (pre @ src) @ concat srcs @ rest" using Cons.prems(2) by simp
  moreover have "length (pre @ src) = unat (rd_pos ?r1)" using Cons.prems(3) pos by simp
  moreover have "unat (rd_pos ?r1) + length (concat srcs) \<le> unat (rd_size ?r1)" using Cons.prems(4) pos by simp
  ultimately obtain r' where "read_all (map (\<lambda>src. of_nat (length src)) srcs) ?r1 = Inr (map Some srcs, r')" "reader_ok r'"
    "unat (rd_pos r') = unat (rd_pos ?r1) + length (concat srcs)"
    using Cons.IH [of ?r1 "pre @ src"] by blast
  then show ?case using run pos by simp
qed

section \<open>Properties\<close>

text \<open>
  What was written is read back. Pieces that together fit behind the writer's position are all taken, one after
  the other; a reader set up over the same memory at the writer's old position gives exactly these pieces for their lengths,
  and stands where the writer stands.
\<close>
theorem written_is_read:
  assumes "writer_ok w" and "unat (wr_pos w) + length (concat srcs) \<le> unat (wr_size w)"
  shows "\<exists>w' r'. write_all srcs w = Inr (replicate (length srcs) True, w') \<and> wr_size w' = wr_size w \<and>
    read_all (map (\<lambda>src. of_nat (length src)) srcs) (BufferReader (wr_buffer w') (wr_size w') (wr_pos w)) = Inr (map Some srcs, r') \<and>
    ReadSize r' = WriteSize w'"
proof -
  obtain w' where w': "write_all srcs w = Inr (replicate (length srcs) True, w')" "writer_ok w'" "wr_size w' = wr_size w"
    "unat (wr_pos w') = unat (wr_pos w) + length (concat srcs)"
    "wr_buffer w' = store (unat (wr_pos w)) (concat srcs) (wr_buffer w)"
    using write_all_step [OF assms, of "[]"] by (auto simp: write_all_def)
  let ?r = "BufferReader (wr_buffer w') (wr_size w') (wr_pos w)"
  let ?pre = "take (unat (wr_pos w)) (wr_buffer w)" and ?rest = "drop (unat (wr_pos w) + length (concat srcs)) (wr_buffer w)"
  have "reader_ok ?r" using w'(2,3) assms(1) by (simp add: reader_ok_def writer_ok_def BufferReader_def)
  moreover have "rd_buffer ?r = ?pre @ concat srcs @ ?rest" by (simp add: BufferReader_def w'(5) store_def)
  moreover have "length ?pre = unat (rd_pos ?r)" using assms by (simp add: BufferReader_def writer_ok_def)
  moreover have "unat (rd_pos ?r) + length (concat srcs) \<le> unat (rd_size ?r)" using assms(2) w'(3) by (simp add: BufferReader_def)
  ultimately obtain r' where "read_all (map (\<lambda>src. of_nat (length src)) srcs) ?r = Inr (map Some srcs, r')"
    "unat (rd_pos r') = unat (rd_pos ?r) + length (concat srcs)"
    using read_all_step by blast
  moreover from this w'(4) have "ReadSize r' = WriteSize w'"
    by (simp add: ReadSize_def WriteSize_def BufferReader_def word_unat_eq_iff)
  ultimately show ?thesis using w'(1,3) by blast
qed

theorem written_is_read_witness:
  "\<exists>w' r'. write_all [[1, 2], [], [3]] (BufferWriter [0, 0, 0, 0] 4 1) = Inr ([True, True, True], w') \<and>
     read_all [2, 0, 1] (BufferReader (wr_buffer w') (wr_size w') 1) = Inr ([Some [1, 2], Some [], Some [3]], r')"
proof -
  let ?w = "BufferWriter [0, 0, 0, 0] 4 1" and ?srcs = "[[1, 2], [], [3]] :: BYTE list list"
  have "map (\<lambda>src. of_nat (length src)) ?srcs = [2, 0, 1 :: uint32]" "map Some ?srcs = [Some [1, 2], Some [], Some [3]]"
    "replicate (length ?srcs) True = [True, True, True]" "wr_pos ?w = 1"
    by (simp_all add: BufferWriter_def)
  moreover have "writer_ok ?w" "unat (wr_pos ?w) + length (concat ?srcs) \<le> unat (wr_size ?w)"
    by (simp_all add: writer_ok_def BufferWriter_def)
  ultimately show ?thesis using written_is_read [of ?w ?srcs] by metis
qed

text \<open>
  The checked calls never leave the memory, the stream operators do. On a well-formed reader \<open>Read\<close> returns
  for every length, gives the bytes exactly when they are inside the size, and leaves the reader well formed; \<open>operator>>\<close> on the
  same reader goes past the size whenever \<open>Read\<close> refuses, and ends in an access outside the memory when that holds no more.
\<close>
theorem Read_checked_operator_not:
  assumes "reader_ok r"
  shows "(\<exists>d r'. Read len r = Inr (d, r') \<and> reader_ok r' \<and>
      (d = None) = (unat (rd_size r) < unat (rd_pos r) + unat len)) \<and>
    (unat (rd_size r) < unat (rd_pos r) + unat len \<and> length (rd_buffer r) = unat (rd_size r)
      \<longrightarrow> read_operator len r = Inl OutOfBounds)"
proof
  show "\<exists>d r'. Read len r = Inr (d, r') \<and> reader_ok r' \<and> (d = None) = (unat (rd_size r) < unat (rd_pos r) + unat len)"
    using Read_cases [OF assms, of len] Read_ok [OF assms, of len] assms by auto
qed (simp add: read_operator_def)

theorem Read_checked_operator_not_witness:
  "reader_ok (BufferReader [7] 1 0) \<and> read_operator 4 (BufferReader [7] 1 0) = Inl OutOfBounds"
  using Read_checked_operator_not [of "BufferReader [7] 1 0" 4] by (simp add: reader_ok_def BufferReader_def)

end
