(* ===== verification/Type_Cast.thy ===== *)
theory Type_Cast
  imports Prelude
begin

text \<open>
  The checked casts of \<open>TypeCast.h\<close>. A \<open>TypeList\<close> is the list of its types, the recursive templates over it are recursive
  functions, an instantiation that does not exist is \<open>None\<close>. The class template \<open>Conversion\<close> asks the compiler which overload it
  would take; what the compiler knows of the classes are their declarations, a list with the latest first. The table of conversions is
  filled by the recursion of \<open>MakeTable\<close>, which goes row by row; \<open>conv\<close> is \<open>Conversion::exists\<close> as a function of the two classes.
\<close>

section \<open>TypeList\<close>

fun Length :: "'t list \<Rightarrow> nat" where
  "Length [] = 0"
| "Length (T # U) = 1 + Length U"

fun TypeAt :: "'t list \<Rightarrow> int \<Rightarrow> 't option" where
  "TypeAt [] index = None"
| "TypeAt (Head # Tail) index = (if index = 0 then Some Head else TypeAt Tail (index - 1))"

fun IndexOf :: "'t list \<Rightarrow> 't \<Rightarrow> int" where
  "IndexOf [] T = - 1"
| "IndexOf (Head # Tail) T =
     (if Head = T then 0 else let temp = IndexOf Tail T in if temp = - 1 then - 1 else temp + 1)"

lemma Length_length [simp]: "Length TL = length TL"
  by (induction TL) simp_all

lemma TypeAt_nth: "TypeAt TL index = (if 0 \<le> index \<and> index < int (length TL) then Some (TL ! nat index) else None)"
proof (induction TL index rule: TypeAt.induct)
  case (2 Head Tail index)
  show ?case
  proof (cases "index = 0")
    case False
    then have "nat index = Suc (nat (index - 1))" if "0 \<le> index" using that by simp
    then show ?thesis using 2 False by auto
  qed simp
qed simp

lemma IndexOf_cases:
  "if T \<in> set TL then 0 \<le> IndexOf TL T \<and> IndexOf TL T < int (length TL) \<and> TL ! nat (IndexOf TL T) = T
   else IndexOf TL T = - 1"
proof (induction TL)
  case (Cons Head Tail)
  have "nat (i + 1) = Suc (nat i)" if "0 \<le> i" for i :: int using that by simp
  then show ?case using Cons by (auto simp: Let_def split: if_splits)
qed simp

section \<open>Conversion\<close>

text \<open>
  The classes of a program: the name and the public bases of each, the latest declaration first. C++ demands that a base is
  declared before; a class that holds two copies of a base, for which a conversion does not compile, is not considered.
\<close>

type_synonym 't classes = "('t \<times> 't list) list"

fun declared :: "'t classes \<Rightarrow> bool" where
  "declared [] \<longleftrightarrow> True"
| "declared ((C, Bases) # earlier) \<longleftrightarrow> C \<notin> fst ` set earlier \<and> set Bases \<subseteq> fst ` set earlier \<and> declared earlier"

text \<open>The standard conversion of \<open>const From *\<close> to \<open>const To *\<close>: the same class, or a base at any depth.\<close>

fun pointer_converts :: "'t classes \<Rightarrow> 't \<Rightarrow> 't \<Rightarrow> bool" where
  "pointer_converts [] From To \<longleftrightarrow> From = To"
| "pointer_converts ((C, Bases) # earlier) From To \<longleftrightarrow>
     From = To \<or> (if From = C then list_ex (\<lambda>B. pointer_converts earlier B To) Bases else pointer_converts earlier From To)"

text \<open>\<open>Test(const To &)\<close> is taken when the conversion exists, \<open>Test(...)\<close> otherwise; the sizes of what they return tell them apart.\<close>

definition sizeof_Small :: nat where "sizeof_Small = 1"
definition sizeof_Big :: nat where "sizeof_Big = 4"

definition sizeof_Test :: "'t classes \<Rightarrow> 't \<Rightarrow> 't \<Rightarrow> nat" where
  "sizeof_Test decls From To = (if pointer_converts decls From To then sizeof_Small else sizeof_Big)"

definition Conversion_exists :: "'t classes \<Rightarrow> 't \<Rightarrow> 't \<Rightarrow> bool" where
  "Conversion_exists decls From To \<longleftrightarrow> sizeof_Test decls From To = sizeof_Small"

lemma Conversion_exists_iff [simp]: "Conversion_exists decls From To \<longleftrightarrow> pointer_converts decls From To"
  by (simp add: Conversion_exists_def sizeof_Test_def sizeof_Small_def sizeof_Big_def)

text \<open>The reference: the reflexive and transitive closure of being a direct base.\<close>

definition direct_base :: "'t classes \<Rightarrow> ('t \<times> 't) set" where
  "direct_base decls = {(C, B). \<exists>Bases. (C, Bases) \<in> set decls \<and> B \<in> set Bases}"

lemma direct_base_Nil [simp]: "direct_base [] = {}"
  by (simp add: direct_base_def)

lemma direct_base_Cons: "direct_base ((C, Bases) # earlier) = {C} \<times> set Bases \<union> direct_base earlier"
  by (auto simp: direct_base_def)

lemma direct_base_declared: "declared decls \<Longrightarrow> (C, B) \<in> direct_base decls \<Longrightarrow> B \<in> fst ` set decls"
  by (induction decls rule: declared.induct) (auto simp: direct_base_Cons)

lemma earlier_bases:
  assumes "declared ((C, Bases) # earlier)" and "D \<noteq> C"
  shows "(D, B) \<in> (direct_base ((C, Bases) # earlier))\<^sup>* \<longleftrightarrow> (D, B) \<in> (direct_base earlier)\<^sup>*"
proof
  assume "(D, B) \<in> (direct_base ((C, Bases) # earlier))\<^sup>*"
  then have "(D, B) \<in> (direct_base earlier)\<^sup>* \<and> B \<noteq> C"
  proof (induction rule: rtrancl_induct)
    case (step B1 B2)
    then have "(B1, B2) \<in> direct_base earlier" by (auto simp: direct_base_Cons)
    moreover from this have "B2 \<noteq> C" using assms direct_base_declared [of earlier B1 B2] by auto
    ultimately show ?case using step.IH by (meson rtrancl.rtrancl_into_rtrancl)
  qed (use assms in simp)
  then show "(D, B) \<in> (direct_base earlier)\<^sup>*" ..
next
  assume "(D, B) \<in> (direct_base earlier)\<^sup>*"
  moreover have "(direct_base earlier)\<^sup>* \<subseteq> (direct_base ((C, Bases) # earlier))\<^sup>*"
    by (rule rtrancl_mono) (auto simp: direct_base_Cons)
  ultimately show "(D, B) \<in> (direct_base ((C, Bases) # earlier))\<^sup>*" by blast
qed

lemma pointer_converts_inherits: "declared decls \<Longrightarrow> pointer_converts decls From To \<longleftrightarrow> (From, To) \<in> (direct_base decls)\<^sup>*"
proof (induction decls From To rule: pointer_converts.induct)
  case (2 C Bases earlier From To)
  show ?case
  proof (cases "From = C")
    case False
    then show ?thesis using 2 earlier_bases [OF "2.prems" False] by auto
  next
    case True
    let ?R = "direct_base ((C, Bases) # earlier)"
    have first: "(C, B) \<in> ?R \<longleftrightarrow> B \<in> set Bases" for B
      using "2.prems" by (force simp: direct_base_Cons direct_base_def)
    have "(B, To) \<in> ?R\<^sup>* \<longleftrightarrow> pointer_converts earlier B To" if "B \<in> set Bases" for B
    proof -
      have "B \<noteq> C" using that "2.prems" by auto
      then show ?thesis using that True "2.IH"(1) "2.prems" earlier_bases [OF "2.prems"] by simp
    qed
    moreover have "(C, To) \<in> ?R\<^sup>* \<longleftrightarrow> C = To \<or> (\<exists>B \<in> set Bases. (B, To) \<in> ?R\<^sup>*)"
      using first by (meson converse_rtranclE converse_rtrancl_into_rtrancl rtrancl.rtrancl_refl)
    ultimately show ?thesis using True by (auto simp: list_ex_iff)
  qed
qed simp

section \<open>TypeConversion\<close>

text \<open>\<open>s_convert\<close>, false at first; \<open>i\<close> runs over the rows, \<open>j\<close> over the columns.\<close>

function MakeTable :: "('t \<Rightarrow> 't \<Rightarrow> bool) \<Rightarrow> 't list \<Rightarrow> nat \<Rightarrow> nat \<Rightarrow> (nat \<times> nat \<Rightarrow> bool) \<Rightarrow> nat \<times> nat \<Rightarrow> bool" where
  "MakeTable conv TL i j s_convert =
     (if Length TL \<le> i then s_convert
      else if Length TL \<le> j then MakeTable conv TL (i + 1) 0 s_convert
      else (case (TypeAt TL (int i), TypeAt TL (int j)) of
              (Some FromType, Some ToType) \<Rightarrow> MakeTable conv TL i (j + 1) (s_convert((i, j) := conv FromType ToType))
            | _ \<Rightarrow> s_convert))"
  by pat_completeness auto
termination
  by (relation "(\<lambda>(conv, TL, i, j, tab). Suc (Length TL) - i) <*mlex*> measure (\<lambda>(conv, TL, i, j, tab). Suc (Length TL) - j)")
    (auto intro: mlex_less mlex_leq wf_mlex)

declare MakeTable.simps [simp del]

definition TypeConversion :: "('t \<Rightarrow> 't \<Rightarrow> bool) \<Rightarrow> 't list \<Rightarrow> nat \<times> nat \<Rightarrow> bool" where
  "TypeConversion conv TL = MakeTable conv TL 0 0 (\<lambda>_. False)"

text \<open>\<open>s_convert[from][to]\<close>, not tested against the bounds.\<close>

definition CanConvert :: "('t \<Rightarrow> 't \<Rightarrow> bool) \<Rightarrow> 't list \<Rightarrow> int32 \<Rightarrow> int32 \<Rightarrow> bool res" where
  "CanConvert conv TL from_id to_id =
     (if 0 \<le> from_id \<and> from_id < int (Length TL) \<and> 0 \<le> to_id \<and> to_id < int (Length TL)
      then Inr (TypeConversion conv TL (nat from_id, nat to_id)) else Inl OutOfBounds)"

section \<open>The casts\<close>

text \<open>A pointer is null or an object that \<open>DECLARE_TL\<close> gave its \<open>_typeId\<close>; the two overloads (plain and shared pointer) agree.\<close>

record 'o typed =
  object :: 'o
  typeId :: int32

definition INIT_TL :: "'t list \<Rightarrow> 't \<Rightarrow> 'o \<Rightarrow> 'o typed" where
  "INIT_TL TL T x = \<lparr>object = x, typeId = IndexOf TL T\<rparr>"

definition TypeCast :: "('t \<Rightarrow> 't \<Rightarrow> bool) \<Rightarrow> 't list \<Rightarrow> 't \<Rightarrow> 'o typed option \<Rightarrow> 'o typed option res" where
  "TypeCast conv TL To ptr =
     (case ptr of
        None \<Rightarrow> Inr None
      | Some p \<Rightarrow> and_then (CanConvert conv TL (typeId p) (IndexOf TL To)) (\<lambda>ok. Inr (if ok then Some p else None)))"

definition CanCast :: "('t \<Rightarrow> 't \<Rightarrow> bool) \<Rightarrow> 't list \<Rightarrow> 't \<Rightarrow> 'o typed option \<Rightarrow> bool res" where
  "CanCast conv TL To ptr =
     (case ptr of None \<Rightarrow> Inr False | Some p \<Rightarrow> CanConvert conv TL (typeId p) (IndexOf TL To))"

section \<open>The table\<close>

text \<open>What the recursion has written when it stands at \<open>(i, j)\<close>: the rows before, and the columns before in its own row.\<close>

definition filled :: "('t \<Rightarrow> 't \<Rightarrow> bool) \<Rightarrow> 't list \<Rightarrow> nat \<Rightarrow> nat \<Rightarrow> (nat \<times> nat \<Rightarrow> bool) \<Rightarrow> bool" where
  "filled conv TL i j tab \<longleftrightarrow>
     (\<forall>a < length TL. \<forall>b < length TL. a < i \<or> a = i \<and> b < j \<longrightarrow> tab (a, b) = conv (TL ! a) (TL ! b))"

lemma MakeTable_fills: "filled conv TL i j tab \<Longrightarrow> filled conv TL (length TL) 0 (MakeTable conv TL i j tab)"
proof (induction conv TL i j tab rule: MakeTable.induct)
  case (1 conv TL i j tab)
  consider "length TL \<le> i" | "i < length TL" "length TL \<le> j" | "i < length TL" "j < length TL" by linarith
  then show ?case
  proof cases
    case 1
    then show ?thesis using "1.prems" by (subst MakeTable.simps) (auto simp: filled_def)
  next
    case 2
    have "filled conv TL (i + 1) 0 tab" using "1.prems" 2 by (auto simp: filled_def less_Suc_eq)
    then show ?thesis using "1.IH"(1) 2 by (subst MakeTable.simps) simp
  next
    case 3
    let ?tab = "tab((i, j) := conv (TL ! i) (TL ! j))"
    have at: "TypeAt TL (int i) = Some (TL ! i)" "TypeAt TL (int j) = Some (TL ! j)" using 3 by (simp_all add: TypeAt_nth)
    have "filled conv TL i (j + 1) ?tab" using "1.prems" by (auto simp: filled_def less_Suc_eq)
    with 3 at have "filled conv TL (length TL) 0 (MakeTable conv TL i (j + 1) ?tab)" by (intro "1.IH"(2)) (simp_all add: fun_upd_def split del: if_split)
    moreover have "MakeTable conv TL i j tab = MakeTable conv TL i (j + 1) ?tab" using 3 at by (subst MakeTable.simps) simp
    ultimately show ?thesis by simp
  qed
qed

lemma TypeConversion_table:
  "a < length TL \<Longrightarrow> b < length TL \<Longrightarrow> TypeConversion conv TL (a, b) = conv (TL ! a) (TL ! b)"
  using MakeTable_fills [of conv TL 0 0 "\<lambda>_. False"] by (simp add: filled_def TypeConversion_def)

section \<open>Properties\<close>

text \<open>
  A checked cast does what the static conversion of the object's class would. For an object of a listed class and a
  listed target, the cast gives the object itself when a pointer to its class converts to the target and null otherwise, and \<open>CanCast\<close> says
  which; null stays null.
\<close>
lemma listed_cast:
  assumes "D \<in> set TL" and "To \<in> set TL"
  shows "TypeCast conv TL To (Some (INIT_TL TL D x)) = Inr (if conv D To then Some (INIT_TL TL D x) else None) \<and>
    CanCast conv TL To (Some (INIT_TL TL D x)) = Inr (conv D To) \<and>
    TypeCast conv TL To (None :: 'o typed option) = Inr None"
proof -
  have i: "0 \<le> IndexOf TL D" "nat (IndexOf TL D) < length TL" "TL ! nat (IndexOf TL D) = D"
    and j: "0 \<le> IndexOf TL To" "nat (IndexOf TL To) < length TL" "TL ! nat (IndexOf TL To) = To"
    using assms IndexOf_cases [of D TL] IndexOf_cases [of To TL] by (simp_all add: nat_less_iff)
  have "CanConvert conv TL (IndexOf TL D) (IndexOf TL To) = Inr (conv D To)"
    using i j TypeConversion_table [OF i(2) j(2), of conv] by (simp add: CanConvert_def nat_less_iff)
  then show ?thesis by (simp add: TypeCast_def CanCast_def INIT_TL_def)
qed

text \<open>
  C36: A checked cast follows the inheritance of the program. In every program whose classes are declared, bases first, with every list of its
  types: the cast of an object of a listed class to a listed class gives the object itself when the object's class is the target or inherits from it,
  directly or through other classes, and null otherwise, and \<open>CanCast\<close> says which. Null stays null.
\<close>
theorem TypeCast_correct:
  fixes x :: 'o
  assumes "declared decls" and "D \<in> set TL" and "To \<in> set TL"
  shows "TypeCast (Conversion_exists decls) TL To (Some (INIT_TL TL D x)) =
      Inr (if (D, To) \<in> (direct_base decls)\<^sup>* then Some (INIT_TL TL D x) else None) \<and>
    CanCast (Conversion_exists decls) TL To (Some (INIT_TL TL D x)) = Inr ((D, To) \<in> (direct_base decls)\<^sup>*) \<and>
    TypeCast (Conversion_exists decls) TL To (None :: 'o typed option) = Inr None"
  using listed_cast [OF assms(2,3), where conv = "Conversion_exists decls" and x = x] pointer_converts_inherits [OF assms(1)] by simp

text \<open>A chain of three classes and one apart: the second converts to the first, not to the third, nor to the one apart.\<close>

theorem TypeCast_correct_witness:
  "TypeCast (Conversion_exists [(4, []), (3, [2]), (2, [1]), (1, [])]) [1, 2, 3, 4 :: nat] 1 (Some (INIT_TL [1, 2, 3, 4 :: nat] 3 ())) = Inr (Some (INIT_TL [1, 2, 3, 4 :: nat] 3 ())) \<and>
   TypeCast (Conversion_exists [(4, []), (3, [2]), (2, [1]), (1, [])]) [1, 2, 3, 4 :: nat] 3 (Some (INIT_TL [1, 2, 3, 4 :: nat] 2 ())) = Inr None"
proof -
  let ?decls = "[(4, []), (3, [2]), (2, [1]), (1, [])] :: nat classes"
  have d: "declared ?decls" by simp
  have "(3, 1) \<in> (direct_base ?decls)\<^sup>*" "(2, 3) \<notin> (direct_base ?decls)\<^sup>*"
    unfolding pointer_converts_inherits [OF d, symmetric] by simp_all
  then show ?thesis
    using TypeCast_correct [OF d, of 3 "[1, 2, 3, 4]" 1 "()"] TypeCast_correct [OF d, of 2 "[1, 2, 3, 4]" 3 "()"] by simp
qed

text \<open>
  A cast to a class that is not in the list, or of an object of such a class, reads outside the table: the index of
  an unlisted class is \<open>-1\<close>, and the table is not tested for it.
\<close>
theorem TypeCast_unlisted_faults:
  assumes "D \<notin> set TL \<or> To \<notin> set TL"
  shows "TypeCast conv TL To (Some (INIT_TL TL D x)) = Inl OutOfBounds"
  using assms IndexOf_cases [of D TL] IndexOf_cases [of To TL]
  by (auto simp: TypeCast_def CanConvert_def INIT_TL_def)

theorem TypeCast_unlisted_faults_witness: "TypeCast (\<le>) [1, 2 :: nat] 7 (Some (INIT_TL [1, 2 :: nat] 1 ())) = Inl OutOfBounds"
  by (rule TypeCast_unlisted_faults) simp

end
