(* ===== verification/Ref_Counting.thy ===== *)
theory Ref_Counting
  imports Prelude
begin

text \<open>
  Intrusive reference counting (\<open>RefCounting.h\<close>): \<open>RefCountable\<close> counts the references to an object and deletes it when
  there are none, \<open>TSharedPtr\<close> holds one. Objects contain pointers: \<open>delete this\<close> calls the virtual destructor, which
  releases the members, which may delete further objects, before the memory is freed. The operations of \<open>TSharedPtr\<close> are
  sequences of steps of a thread, so they interleave with those of other threads, and what an operation reads after a
  release is read in the heap the release left. The destructors of the classes themselves do nothing but release the members.
  Fewer than \<open>2 ^ 31\<close> references exist.
\<close>

section \<open>The heap and the calls\<close>

text \<open>A pointer variable of its own, or a member of an object, by its place in the class.\<close>

datatype var = Local nat | Member nat nat

text \<open>
  A call under way: an operation that has begun with \<open>Release\<close> and what it does afterwards, or the deletion of an object that has \<open>n\<close>
  members left, the last of them next. \<open>In_Op\<close> also records, as a ghost, pointers by which the thread keeps the
  objects it works inside.
\<close>

datatype ptr_op = Assign var var | Assign_move var var | Destroy var

datatype frame = In_Op ptr_op "var list" | In_Delete nat nat

text \<open>The innermost call of a thread: about to call \<open>Release\<close>, back from \<open>ReleaseRef\<close> in it, behind it. An outer call waits in \<open>ReleaseRef\<close>.\<close>

datatype stage = Releasing | Clearing | Released

text \<open>
  \<open>ptr\<close> holds the variables that are constructed, each null or an object. \<open>raw\<close> is a ghost field: the objects whose creator
  has not yet called \<open>ReleaseRef\<close> for the reference an object is born with.
\<close>

record ref_heap =
  refCount :: "nat \<Rightarrow> int32"
  alive :: "nat \<Rightarrow> bool"                \<comment> \<open>the memory of the object is not freed\<close>
  members :: "nat \<Rightarrow> nat"                \<comment> \<open>how many pointers the object contains\<close>
  fresh_object :: nat
  ptr :: "var \<Rightarrow> nat option option"
  raw :: "nat set"
  calls :: "nat \<Rightarrow> frame list"           \<comment> \<open>by thread, innermost first\<close>
  at_stage :: "nat \<Rightarrow> stage"

definition ref_start :: ref_heap where
  "ref_start = \<lparr>refCount = (\<lambda>_. 0), alive = (\<lambda>_. False), members = (\<lambda>_. 0), fresh_object = 0, ptr = (\<lambda>_. None), raw = {},
     calls = (\<lambda>_. []), at_stage = (\<lambda>_. Releasing)\<rparr>"

text \<open>Reading and writing \<open>_ptr\<close>: the variable must exist, a member only does while its object has not destroyed it.\<close>

definition read_ptr :: "var \<Rightarrow> ref_heap \<Rightarrow> nat option res" where
  "read_ptr v h = (case ptr h v of None \<Rightarrow> Inl UseAfterFree | Some p \<Rightarrow> Inr p)"

definition write_ptr :: "var \<Rightarrow> nat option \<Rightarrow> ref_heap \<Rightarrow> ref_heap res" where
  "write_ptr v p h = (case ptr h v of None \<Rightarrow> Inl UseAfterFree | Some _ \<Rightarrow> Inr (h\<lparr>ptr := (ptr h)(v \<mapsto> p)\<rparr>))"

definition call :: "nat \<Rightarrow> stage \<Rightarrow> frame list \<Rightarrow> ref_heap \<Rightarrow> ref_heap" where
  "call t st fs h = h\<lparr>calls := (calls h)(t := fs), at_stage := (at_stage h)(t := st)\<rparr>"

section \<open>RefCountable\<close>

text \<open>\<open>new\<close> of a class derived from \<open>RefCountable\<close> that has \<open>n\<close> pointers, which are null.\<close>

definition RefCountable :: "nat \<Rightarrow> ref_heap \<Rightarrow> nat \<times> ref_heap" where
  "RefCountable n h =
     (let o' = fresh_object h
      in (o', h\<lparr>refCount := (refCount h)(o' := 1), alive := (alive h)(o' := True), members := (members h)(o' := n),
               fresh_object := Suc o',
               ptr := (\<lambda>v. case v of Member p i \<Rightarrow> if p = o' \<and> i < n then Some None else ptr h v | _ \<Rightarrow> ptr h v),
               raw := insert o' (raw h)\<rparr>))"

definition AddRef :: "nat \<Rightarrow> ref_heap \<Rightarrow> ref_heap res" where
  "AddRef o' h = (if \<not> alive h o' then Inl UseAfterFree else Inr (h\<lparr>refCount := (refCount h)(o' := refCount h o' + 1)\<rparr>))"

text \<open>\<open>delete this\<close> is a call of its own, above the one that waits for it.\<close>

definition ReleaseRef :: "nat \<Rightarrow> nat \<Rightarrow> ref_heap \<Rightarrow> ref_heap res" where
  "ReleaseRef t o' h =
     (if \<not> alive h o' then Inl UseAfterFree
      else let c = refCount h o' - 1; h1 = h\<lparr>refCount := (refCount h)(o' := c)\<rparr>
           in Inr (if c = 0 then call t Releasing (In_Delete o' (members h1 o') # calls h1 t) h1 else h1))"

definition free_object :: "nat \<Rightarrow> ref_heap \<Rightarrow> ref_heap res" where
  "free_object o' h = (if \<not> alive h o' then Inl UseAfterFree else Inr (h\<lparr>alive := (alive h)(o' := False)\<rparr>))"

section \<open>TSharedPtr\<close>

definition Set_ptr :: "var \<Rightarrow> nat option \<Rightarrow> ref_heap \<Rightarrow> ref_heap res" where
  "Set_ptr v p h = and_then (write_ptr v p h) (\<lambda>h1. case p of None \<Rightarrow> Inr h1 | Some o' \<Rightarrow> AddRef o' h1)"

text \<open>The variable that a call releases.\<close>

fun op_target :: "ptr_op \<Rightarrow> var" where
  "op_target (Assign v rhs) = v"
| "op_target (Assign_move v rhs) = v"
| "op_target (Destroy v) = v"

fun frame_target :: "frame \<Rightarrow> var option" where
  "frame_target (In_Op op K) = Some (op_target op)"
| "frame_target (In_Delete o' 0) = None"
| "frame_target (In_Delete o' (Suc m)) = Some (Member o' m)"

text \<open>\<open>Release\<close>: the test and the call of \<open>ReleaseRef\<close>, and the assignment of null behind it.\<close>

definition Release_begin :: "nat \<Rightarrow> var \<Rightarrow> ref_heap \<Rightarrow> ref_heap res" where
  "Release_begin t v h =
     and_then (read_ptr v h) (\<lambda>p.
       case p of
         None \<Rightarrow> Inr (call t Released (calls h t) h)
       | Some o' \<Rightarrow> ReleaseRef t o' (call t Clearing (calls h t) h))"

definition Release_end :: "nat \<Rightarrow> var \<Rightarrow> ref_heap \<Rightarrow> ref_heap res" where
  "Release_end t v h = and_then (write_ptr v None h) (\<lambda>h1. Inr (call t Released (calls h1 t) h1))"

text \<open>What follows the release.\<close>

fun after_release :: "nat \<Rightarrow> frame \<Rightarrow> frame list \<Rightarrow> ref_heap \<Rightarrow> ref_heap res" where
  "after_release t (In_Op (Assign v rhs) K) rest h =
     and_then (read_ptr rhs h) (\<lambda>p. and_then (Set_ptr v p h) (\<lambda>h1. Inr (call t Clearing rest h1)))"
| "after_release t (In_Op (Assign_move v rhs) K) rest h =
     and_then (read_ptr rhs h) (\<lambda>p. and_then (write_ptr v p h) (\<lambda>h1. and_then (write_ptr rhs None h1) (\<lambda>h2.
       Inr (call t Clearing rest h2))))"
| "after_release t (In_Op (Destroy v) K) rest h = Inr (call t Clearing rest (h\<lparr>ptr := (ptr h)(v := None)\<rparr>))"
| "after_release t (In_Delete o' m) rest h =
     Inr (call t Releasing (In_Delete o' (m - 1) # rest) (h\<lparr>ptr := (ptr h)(Member o' (m - 1) := None)\<rparr>))"

text \<open>A thread goes on with its innermost call.\<close>

definition go_on :: "nat \<Rightarrow> ref_heap \<Rightarrow> ref_heap res option" where
  "go_on t h =
     (case calls h t of
        [] \<Rightarrow> None
      | f # rest \<Rightarrow>
          Some (case frame_target f of
                  None \<Rightarrow> (case f of
                      In_Delete o' m \<Rightarrow> and_then (free_object o' h) (\<lambda>h1. Inr (call t Clearing rest h1))
                    | _ \<Rightarrow> Inr h)
                | Some v \<Rightarrow>
                    (case at_stage h t of
                       Releasing \<Rightarrow> Release_begin t v h
                     | Clearing \<Rightarrow> Release_end t v h
                     | Released \<Rightarrow> after_release t f rest h)))"

text \<open>
  The constructors, the assignments and the destructor of a variable \<open>v\<close>, as a thread begins them. Every constructor
  initialises \<open>_ptr\<close> to null first.
\<close>

definition construct_default :: "var \<Rightarrow> ref_heap \<Rightarrow> ref_heap" where
  "construct_default v h = h\<lparr>ptr := (ptr h)(v \<mapsto> None)\<rparr>"

definition construct_from :: "var \<Rightarrow> nat option \<Rightarrow> ref_heap \<Rightarrow> ref_heap res" where
  "construct_from v p h = Set_ptr v p (construct_default v h)"

definition construct_copy :: "nat \<Rightarrow> var \<Rightarrow> var \<Rightarrow> var list \<Rightarrow> ref_heap \<Rightarrow> ref_heap" where
  "construct_copy t v rhs K h = call t Released (In_Op (Assign v rhs) K # calls h t) (construct_default v h)"

definition construct_move :: "nat \<Rightarrow> var \<Rightarrow> var \<Rightarrow> var list \<Rightarrow> ref_heap \<Rightarrow> ref_heap" where
  "construct_move t v rhs K h = call t Released (In_Op (Assign_move v rhs) K # calls h t) (construct_default v h)"

definition destroy :: "nat \<Rightarrow> var \<Rightarrow> var list \<Rightarrow> ref_heap \<Rightarrow> ref_heap" where
  "destroy t v K h = call t Releasing (In_Op (Destroy v) K # calls h t) h"

definition assign :: "nat \<Rightarrow> var \<Rightarrow> var \<Rightarrow> var list \<Rightarrow> ref_heap \<Rightarrow> ref_heap res" where
  "assign t v rhs K h =
     and_then (read_ptr v h) (\<lambda>a. and_then (read_ptr rhs h) (\<lambda>b.
       Inr (if a \<noteq> b then call t Releasing (In_Op (Assign v rhs) K # calls h t) h else h)))"

definition assign_move :: "nat \<Rightarrow> var \<Rightarrow> var \<Rightarrow> var list \<Rightarrow> ref_heap \<Rightarrow> ref_heap" where
  "assign_move t v rhs K h = call t Releasing (In_Op (Assign_move v rhs) K # calls h t) h"

section \<open>Who may do what\<close>

fun op_vars :: "ptr_op \<Rightarrow> var set" where
  "op_vars (Assign v rhs) = {v, rhs}"
| "op_vars (Assign_move v rhs) = {v, rhs}"
| "op_vars (Destroy v) = {v}"

fun op_writes :: "ptr_op \<Rightarrow> var set" where
  "op_writes (Assign v rhs) = {v}"
| "op_writes (Assign_move v rhs) = {v, rhs}"
| "op_writes (Destroy v) = {v}"

text \<open>An object is kept by one of the pointers \<open>K\<close>; a pointer may be used when the object that contains it is kept.\<close>

definition keeps :: "ref_heap \<Rightarrow> var list \<Rightarrow> nat \<Rightarrow> bool" where
  "keeps h K p \<longleftrightarrow> list_ex (\<lambda>k. ptr h k = Some (Some p)) K"

definition held :: "ref_heap \<Rightarrow> var list \<Rightarrow> var \<Rightarrow> bool" where
  "held h K v \<longleftrightarrow> ptr h v \<noteq> None \<and> (case v of Local n \<Rightarrow> True | Member p i \<Rightarrow> keeps h K p)"

fun chain :: "ref_heap \<Rightarrow> var list \<Rightarrow> bool" where
  "chain h [] \<longleftrightarrow> True"
| "chain h (k # K) \<longleftrightarrow> held h K k \<and> chain h K"

definition writes :: "ref_heap \<Rightarrow> nat \<Rightarrow> var set" where
  "writes h t = {v. \<exists>op K. In_Op op K \<in> set (calls h t) \<and> v \<in> op_writes op}"

definition uses :: "ref_heap \<Rightarrow> nat \<Rightarrow> var set" where
  "uses h t = {v. \<exists>op K. In_Op op K \<in> set (calls h t) \<and> (v \<in> op_vars op \<or> v \<in> set K)}"

text \<open>
  The client's part. An operation uses variables that no other thread writes meanwhile and writes none that another uses. A variable inside
  an object is used only while the thread keeps that object by a pointer which the operation does not write itself.
\<close>

definition sound_op :: "ref_heap \<Rightarrow> var list \<Rightarrow> ptr_op \<Rightarrow> bool" where
  "sound_op h K op \<longleftrightarrow> (\<forall>v \<in> op_vars op. held h K v) \<and> chain h K \<and> set K \<inter> op_writes op = {} \<and>
     (case op of Destroy (Member o' i) \<Rightarrow> False | _ \<Rightarrow> True)"

definition apart :: "ref_heap \<Rightarrow> nat \<Rightarrow> var list \<Rightarrow> ptr_op \<Rightarrow> bool" where
  "apart h t K op \<longleftrightarrow> (\<forall>u. u \<noteq> t \<longrightarrow> op_writes op \<inter> uses h u = {} \<and> writes h u \<inter> (op_vars op \<union> set K) = {})"

definition may_begin :: "ref_heap \<Rightarrow> nat \<Rightarrow> var list \<Rightarrow> ptr_op \<Rightarrow> bool" where
  "may_begin h t K op \<longleftrightarrow> calls h t = [] \<and> sound_op h K op \<and> apart h t K op"

text \<open>
  A raw pointer is only made a \<open>TSharedPtr\<close> while its object is kept, by the creator's reference or by a pointer; the creator
  gives up its own reference at most once.
\<close>

definition kept_raw :: "ref_heap \<Rightarrow> var list \<Rightarrow> nat option \<Rightarrow> bool" where
  "kept_raw h K p \<longleftrightarrow> (case p of None \<Rightarrow> True
     | Some o' \<Rightarrow> o' \<in> raw h \<or> chain h K \<and> keeps h K o' \<and> (\<forall>u. writes h u \<inter> set K = {}))"

inductive rc_step :: "ref_heap \<Rightarrow> ref_heap res \<Rightarrow> bool" where
  rc_new: "rc_step h (Inr (snd (RefCountable n h)))"
| rc_give_up: "o' \<in> raw h \<Longrightarrow> calls h t = [] \<Longrightarrow> rc_step h (ReleaseRef t o' (h\<lparr>raw := raw h - {o'}\<rparr>))"
| rc_default: "ptr h (Local n) = None \<Longrightarrow> rc_step h (Inr (construct_default (Local n) h))"
| rc_from_raw: "ptr h (Local n) = None \<Longrightarrow> kept_raw h K p \<Longrightarrow> rc_step h (construct_from (Local n) p h)"
| rc_copy: "ptr h (Local n) = None \<Longrightarrow> may_begin (construct_default (Local n) h) t K (Assign (Local n) rhs) \<Longrightarrow>
    rc_step h (Inr (construct_copy t (Local n) rhs K h))"
| rc_move: "ptr h (Local n) = None \<Longrightarrow> may_begin (construct_default (Local n) h) t K (Assign_move (Local n) rhs) \<Longrightarrow>
    rc_step h (Inr (construct_move t (Local n) rhs K h))"
| rc_destroy: "may_begin h t K (Destroy v) \<Longrightarrow> rc_step h (Inr (destroy t v K h))"
| rc_assign: "may_begin h t K (Assign v rhs) \<Longrightarrow> rc_step h (assign t v rhs K h)"
| rc_assign_move: "may_begin h t K (Assign_move v rhs) \<Longrightarrow> rc_step h (Inr (assign_move t v rhs K h))"
| rc_go_on: "go_on t h = Some r \<Longrightarrow> rc_step h r"

inductive rc_reachable :: "ref_heap \<Rightarrow> bool" where
  rc_init: "rc_reachable ref_start"
| rc_next: "rc_reachable h \<Longrightarrow> rc_step h (Inr h') \<Longrightarrow> rc_reachable h'"

section \<open>The count is the number of references\<close>

text \<open>
  A variable is stale from the moment \<open>ReleaseRef\<close> has counted it down until null is assigned to it: its call waits, or is to
  assign next. An object is doomed while it is being deleted.
\<close>

definition waits :: "stage \<Rightarrow> frame list \<Rightarrow> var set" where
  "waits st fs = {v. \<exists>f \<in> set (tl fs). frame_target f = Some v} \<union> {v. fs \<noteq> [] \<and> st = Clearing \<and> frame_target (hd fs) = Some v}"

definition stale :: "ref_heap \<Rightarrow> var \<Rightarrow> bool" where
  "stale h v \<longleftrightarrow> (\<exists>t. v \<in> waits (at_stage h t) (calls h t))"

fun deleted_by :: "frame list \<Rightarrow> nat list" where
  "deleted_by [] = []"
| "deleted_by (In_Delete o' m # fs) = o' # deleted_by fs"
| "deleted_by (In_Op op K # fs) = deleted_by fs"

definition doomed :: "ref_heap \<Rightarrow> nat \<Rightarrow> bool" where
  "doomed h o' \<longleftrightarrow> (\<exists>t. o' \<in> set (deleted_by (calls h t)))"

definition holders :: "ref_heap \<Rightarrow> nat \<Rightarrow> var set" where
  "holders h o' = {v. ptr h v = Some (Some o') \<and> \<not> stale h v}"

definition references :: "ref_heap \<Rightarrow> nat \<Rightarrow> int" where
  "references h o' = int (card (holders h o')) + (if o' \<in> raw h then 1 else 0)"

text \<open>\<open>debt\<close> is what the counts still have too much, between the end of a reference and its \<open>ReleaseRef\<close>.\<close>

definition heap_ok :: "(nat \<Rightarrow> int) \<Rightarrow> ref_heap \<Rightarrow> bool" where
  "heap_ok debt h \<longleftrightarrow> finite (dom (ptr h)) \<and> (\<forall>o'. fresh_object h \<le> o' \<longrightarrow> \<not> alive h o') \<and>
     (\<forall>v o'. ptr h v = Some (Some o') \<longrightarrow> o' < fresh_object h) \<and>
     (\<forall>v o'. ptr h v = Some (Some o') \<and> \<not> stale h v \<longrightarrow> alive h o' \<and> \<not> doomed h o') \<and>
     (\<forall>o' \<in> raw h. alive h o' \<and> \<not> doomed h o') \<and>
     (\<forall>o'. alive h o' \<and> \<not> doomed h o' \<longrightarrow> refCount h o' = references h o' + debt o' \<and> 0 < refCount h o') \<and>
     (\<forall>o' i. \<not> alive h o' \<longrightarrow> ptr h (Member o' i) = None) \<and>
     (\<forall>o' i. alive h o' \<and> \<not> doomed h o' \<longrightarrow> (ptr h (Member o' i) \<noteq> None \<longleftrightarrow> i < members h o'))"

fun frame_ok :: "ref_heap \<Rightarrow> frame \<Rightarrow> bool" where
  "frame_ok h (In_Op op K) \<longleftrightarrow> sound_op h K op"
| "frame_ok h (In_Delete o' m) \<longleftrightarrow> alive h o' \<and> (\<forall>i. ptr h (Member o' i) \<noteq> None \<longleftrightarrow> i < m)"

fun shape :: "frame list \<Rightarrow> bool" where
  "shape [] \<longleftrightarrow> True"
| "shape (f # fs) \<longleftrightarrow> (case f of In_Op op K \<Rightarrow> fs = [] | _ \<Rightarrow> True) \<and> (\<forall>g \<in> set fs. frame_target g \<noteq> None) \<and> shape fs"

definition thread_ok :: "ref_heap \<Rightarrow> stage \<Rightarrow> frame list \<Rightarrow> bool" where
  "thread_ok h st fs \<longleftrightarrow> shape fs \<and> distinct (deleted_by fs) \<and> (\<forall>f \<in> set fs. frame_ok h f) \<and>
     (fs \<noteq> [] \<and> st = Released \<longrightarrow> (\<exists>v. frame_target (hd fs) = Some v \<and> ptr h v = Some None))"

definition exclusive :: "ref_heap \<Rightarrow> bool" where
  "exclusive h \<longleftrightarrow> (\<forall>t u. t \<noteq> u \<longrightarrow>
     set (deleted_by (calls h t)) \<inter> set (deleted_by (calls h u)) = {} \<and> writes h t \<inter> uses h u = {})"

definition rc_inv :: "(nat \<Rightarrow> int) \<Rightarrow> ref_heap \<Rightarrow> bool" where
  "rc_inv debt h \<longleftrightarrow> heap_ok debt h \<and> (\<forall>t. thread_ok h (at_stage h t) (calls h t)) \<and> exclusive h"

abbreviation no_debt :: "nat \<Rightarrow> int" where "no_debt \<equiv> (\<lambda>_. 0)"

subsection \<open>Frames\<close>

lemma call_fields [simp]:
  "refCount (call t st fs h) = refCount h" "alive (call t st fs h) = alive h" "members (call t st fs h) = members h"
  "fresh_object (call t st fs h) = fresh_object h" "ptr (call t st fs h) = ptr h" "raw (call t st fs h) = raw h"
  "calls (call t st fs h) = (calls h)(t := fs)" "at_stage (call t st fs h) = (at_stage h)(t := st)"
  by (simp_all add: call_def)

lemma waits_simps [simp]:
  "waits st [] = {}"
  "waits st (f # fs) = {v. \<exists>g \<in> set fs. frame_target g = Some v} \<union> {v. st = Clearing \<and> frame_target f = Some v}"
  by (auto simp: waits_def)

lemma waits_Clearing: "waits Clearing fs = {v. \<exists>g \<in> set fs. frame_target g = Some v}"
  by (cases fs) auto

lemma in_deleted_by: "o' \<in> set (deleted_by fs) \<longleftrightarrow> (\<exists>m. In_Delete o' m \<in> set fs)"
  by (induction fs rule: deleted_by.induct) auto

lemma delete_once: "distinct (deleted_by fs) \<Longrightarrow> In_Delete o' m \<in> set fs \<Longrightarrow> In_Delete o' m' \<in> set fs \<Longrightarrow> m = m'"
  by (induction fs rule: deleted_by.induct) (auto simp: in_deleted_by)

lemma one_op: "shape fs \<Longrightarrow> In_Op op K \<in> set fs \<Longrightarrow> In_Op op' K' \<in> set fs \<Longrightarrow> op = op' \<and> K = K'"
  by (induction fs) (auto split: frame.splits)

lemma target_in_writes: "op_target op \<in> op_writes op" "op_writes op \<subseteq> op_vars op" "op_target op \<in> op_vars op"
  by (cases op; simp)+

lemma stale_frame: "stale h v \<Longrightarrow> \<exists>t f. f \<in> set (calls h t) \<and> frame_target f = Some v"
proof -
  assume "stale h v"
  then obtain t where "v \<in> waits (at_stage h t) (calls h t)" by (auto simp: stale_def)
  then have "\<exists>f \<in> set (calls h t). frame_target f = Some v" by (cases "calls h t") auto
  then show ?thesis by blast
qed

lemma keeps_change: "(\<And>k. k \<in> set K \<Longrightarrow> ptr h' k = ptr h k) \<Longrightarrow> keeps h' K p = keeps h K p"
  by (auto simp: keeps_def list_ex_iff)

lemma chain_change: "(\<And>k. k \<in> set K \<Longrightarrow> ptr h' k = ptr h k) \<Longrightarrow> chain h' K = chain h K"
proof (induction K)
  case (Cons k K)
  then have "chain h' K = chain h K" "\<And>p. keeps h' K p = keeps h K p" "ptr h' k = ptr h k" using keeps_change [of K h' h] by simp_all
  then show ?case by (simp add: held_def split: var.split)
qed simp

lemma sound_op_change:
  assumes "\<And>k. k \<in> set K \<Longrightarrow> ptr h' k = ptr h k" and "\<And>v. v \<in> op_vars op \<Longrightarrow> ptr h v \<noteq> None \<Longrightarrow> ptr h' v \<noteq> None"
  shows "sound_op h K op \<Longrightarrow> sound_op h' K op"
  using chain_change [OF assms(1)] keeps_change [OF assms(1)] assms(2)
  by (auto simp: sound_op_def held_def split: var.splits)

subsection \<open>Who touches what\<close>

lemma inv_parts:
  assumes "rc_inv d h"
  shows "heap_ok d h" and "thread_ok h (at_stage h t) (calls h t)" and "exclusive h" and "shape (calls h t)"
    and "distinct (deleted_by (calls h t))" and "f \<in> set (calls h t) \<Longrightarrow> frame_ok h f"
  using assms by (simp_all add: rc_inv_def thread_ok_def)

lemma target_cases:
  assumes "frame_target f = Some v"
  obtains op K where "f = In_Op op K" "v = op_target op" | o' m where "f = In_Delete o' (Suc m)" "v = Member o' m"
  using assms by (cases f rule: frame_target.cases) auto

lemma heap_okD:
  assumes "heap_ok d h"
  shows "finite (dom (ptr h))" and "alive h o' \<Longrightarrow> o' < fresh_object h" and "ptr h v = Some (Some o') \<Longrightarrow> o' < fresh_object h"
    and "ptr h v = Some (Some o') \<Longrightarrow> \<not> stale h v \<Longrightarrow> alive h o' \<and> \<not> doomed h o'"
    and "o' \<in> raw h \<Longrightarrow> alive h o' \<and> \<not> doomed h o'"
    and "alive h o' \<Longrightarrow> \<not> doomed h o' \<Longrightarrow> refCount h o' = references h o' + d o' \<and> 0 < refCount h o'"
    and "\<not> alive h o' \<Longrightarrow> ptr h (Member o' i) = None"
    and "alive h o' \<Longrightarrow> \<not> doomed h o' \<Longrightarrow> ptr h (Member o' i) \<noteq> None \<longleftrightarrow> i < members h o'"
  using assms unfolding heap_ok_def by (metis not_le)+

lemma heap_okI:
  assumes "finite (dom (ptr h))" and "\<And>o'. alive h o' \<Longrightarrow> o' < fresh_object h"
    and "\<And>v o'. ptr h v = Some (Some o') \<Longrightarrow> o' < fresh_object h"
    and "\<And>v o'. ptr h v = Some (Some o') \<Longrightarrow> \<not> stale h v \<Longrightarrow> alive h o' \<and> \<not> doomed h o'"
    and "\<And>o'. o' \<in> raw h \<Longrightarrow> alive h o' \<and> \<not> doomed h o'"
    and "\<And>o'. alive h o' \<Longrightarrow> \<not> doomed h o' \<Longrightarrow> refCount h o' = references h o' + d o' \<and> 0 < refCount h o'"
    and "\<And>o' i. \<not> alive h o' \<Longrightarrow> ptr h (Member o' i) = None"
    and "\<And>o' i. alive h o' \<Longrightarrow> \<not> doomed h o' \<Longrightarrow> ptr h (Member o' i) \<noteq> None \<longleftrightarrow> i < members h o'"
  shows "heap_ok d h"
proof -
  have "\<forall>o'. fresh_object h \<le> o' \<longrightarrow> \<not> alive h o'" using assms(2) by (meson not_le)
  then show ?thesis using assms(1,3-8) unfolding heap_ok_def by blast
qed

lemma held_by_live:
  assumes "heap_ok d h" and "keeps h K p" and "\<And>k. k \<in> set K \<Longrightarrow> \<not> stale h k"
  shows "alive h p \<and> \<not> doomed h p"
proof -
  obtain k where "k \<in> set K" "ptr h k = Some (Some p)" using assms(2) by (auto simp: keeps_def list_ex_iff)
  then show ?thesis using heap_okD(4) [OF assms(1)] assms(3) by blast
qed

text \<open>What is kept by a chain of pointers that nobody writes is not stale and not in an object that is being deleted.\<close>

lemma chain_safe:
  assumes "rc_inv d h" and "chain h K" and "\<And>u. writes h u \<inter> set K = {}" and "k \<in> set K"
  shows "\<not> stale h k \<and> (\<forall>p i. k = Member p i \<longrightarrow> alive h p \<and> \<not> doomed h p)"
  using assms(2-4)
proof (induction K arbitrary: k)
  case (Cons a K)
  have IH: "\<not> stale h x" if "x \<in> set K" for x using Cons.IH [of x] Cons.prems(1,2) that by auto
  show ?case
  proof (cases "k \<in> set K")
    case True
    then show ?thesis using Cons.IH [of k] Cons.prems(1,2) by auto
  next
    case False
    then have k: "k = a" using Cons.prems(3) by simp
    have mem: "alive h p \<and> \<not> doomed h p" if "k = Member p i" for p i
    proof -
      have "keeps h K p" using Cons.prems(1) that by (simp add: k held_def)
      then show ?thesis by (rule held_by_live [OF inv_parts(1) [OF assms(1)]]) (rule IH)
    qed
    moreover have "\<not> stale h k"
    proof
      assume "stale h k"
      then obtain t f where f: "f \<in> set (calls h t)" "frame_target f = Some k" using stale_frame by blast
      from f(2) show False
      proof (cases rule: target_cases)
        case (1 op K')
        then have "k \<in> writes h t" using f(1) target_in_writes(1) by (auto simp: writes_def)
        then show False using Cons.prems(2) by (auto simp: k)
      next
        case (2 o' m)
        then have "doomed h o'" using f(1) by (auto simp: doomed_def in_deleted_by)
        then show False using mem 2 by blast
      qed
    qed
    ultimately show ?thesis by blast
  qed
qed simp

lemma keepers_unwritten:
  assumes "rc_inv d h" and "In_Op op K \<in> set (calls h t)"
  shows "writes h u \<inter> set K = {}"
proof (cases "u = t")
  case True
  have "sound_op h K op" using inv_parts(6) [OF assms] by simp
  moreover have "writes h t = op_writes op"
  proof (rule set_eqI)
    fix v show "v \<in> writes h t \<longleftrightarrow> v \<in> op_writes op"
      unfolding writes_def mem_Collect_eq using assms(2) one_op [OF inv_parts(4) [OF assms(1)], of op K t] by metis
  qed
  ultimately show ?thesis using True by (simp add: sound_op_def Int_commute)
next
  case False
  have "set K \<subseteq> uses h t" using assms(2) by (auto simp: uses_def)
  moreover have "writes h u \<inter> uses h t = {}" using False inv_parts(3) [OF assms(1)] by (simp add: exclusive_def)
  ultimately show ?thesis by blast
qed

lemma op_safe:
  assumes "rc_inv d h" and "In_Op op K \<in> set (calls h t)"
  shows "k \<in> set K \<Longrightarrow> \<not> stale h k" and "v \<in> op_vars op \<union> set K \<Longrightarrow> v = Member p i \<Longrightarrow> alive h p \<and> \<not> doomed h p"
proof -
  have snd: "sound_op h K op" using inv_parts(6) [OF assms] by simp
  then have ch: "chain h K" by (simp add: sound_op_def)
  note safe = chain_safe [OF assms(1) ch keepers_unwritten [OF assms]]
  show *: "k \<in> set K \<Longrightarrow> \<not> stale h k" for k using safe by blast
  show "v \<in> op_vars op \<union> set K \<Longrightarrow> v = Member p i \<Longrightarrow> alive h p \<and> \<not> doomed h p"
  proof (elim UnE)
    assume "v \<in> op_vars op" "v = Member p i"
    then have "keeps h K p" using snd by (auto simp: sound_op_def held_def)
    then show ?thesis by (rule held_by_live [OF inv_parts(1) [OF assms(1)]]) (rule *)
  next
    assume "v \<in> set K" "v = Member p i"
    then show ?thesis using safe by blast
  qed
qed

text \<open>No variable is the target of two calls.\<close>

lemma target_unique:
  assumes inv: "rc_inv d h" and f: "f \<in> set (calls h t)" "frame_target f = Some v" and g: "g \<in> set (calls h u)" "frame_target g = Some v"
  shows "t = u \<and> f = g"
  using f(2)
proof (cases rule: target_cases)
  case F: (1 op K)
  from g(2) show ?thesis
  proof (cases rule: target_cases)
    case G: (1 op' K')
    have "v \<in> op_writes op" "v \<in> op_vars op'" using target_in_writes(1) [of op] target_in_writes(3) [of op'] F(2) G(2) by simp_all
    then have "v \<in> writes h t" "v \<in> uses h u" using F(1) G(1) f(1) g(1) unfolding writes_def uses_def by blast+
    then have "t = u" using inv_parts(3) [OF inv] by (auto simp: exclusive_def)
    then show ?thesis using one_op [OF inv_parts(4) [OF inv, of t], of op K op' K'] F G f(1) g(1) by simp
  next
    case G: (2 o' m)
    then have "doomed h o'" using g(1) by (auto simp: doomed_def in_deleted_by)
    moreover have "v \<in> op_vars op" using F target_in_writes by auto
    ultimately show ?thesis using op_safe(2) [OF inv, of op K t v] F G f(1) by blast
  qed
next
  case F: (2 o' m)
  then have dm: "doomed h o'" using f(1) by (auto simp: doomed_def in_deleted_by)
  from g(2) show ?thesis
  proof (cases rule: target_cases)
    case G: (1 op K)
    moreover have "v \<in> op_vars op" using G target_in_writes by auto
    ultimately show ?thesis using op_safe(2) [OF inv, of op K u v] F g(1) dm by blast
  next
    case G: (2 p n)
    then have fg: "f = g" using F by simp
    have "o' \<in> set (deleted_by (calls h t))" "o' \<in> set (deleted_by (calls h u))"
      using f(1) g(1) F fg by (auto simp: in_deleted_by)
    then have "t = u" using inv_parts(3) [OF inv] by (auto simp: exclusive_def)
    then show ?thesis using fg by blast
  qed
qed

lemma rest_targets:
  assumes inv: "rc_inv d h" and top: "calls h t = f # rest" "frame_target f = Some v" and g: "g \<in> set rest"
  shows "frame_target g \<noteq> Some v"
proof
  assume "frame_target g = Some v"
  then have "f = g" using target_unique [OF inv, of f t v g t] top g by simp
  then show False using inv_parts(4,5) [OF inv, of t] top g
    by (cases f) (auto simp: in_deleted_by)
qed

lemma stale_top:
  assumes inv: "rc_inv d h" and top: "calls h t = f # rest" "frame_target f = Some v"
  shows "stale (call t st (f # rest) h) w \<longleftrightarrow> (if w = v then st = Clearing else stale h w)"
    and "stale h v \<longleftrightarrow> at_stage h t = Clearing"
proof -
  have others: "v \<notin> waits (at_stage h u) (calls h u)" if "u \<noteq> t" for u
  proof
    assume "v \<in> waits (at_stage h u) (calls h u)"
    then obtain g where "g \<in> set (calls h u)" "frame_target g = Some v" by (cases "calls h u") auto
    then show False using target_unique [OF inv, of f t v g u] top that by simp
  qed
  have mine: "v \<in> waits st (f # rest) \<longleftrightarrow> st = Clearing" for st using rest_targets [OF inv top] top(2) by auto
  have split: "stale h w \<longleftrightarrow> w \<in> waits (at_stage h t) (f # rest) \<or> (\<exists>u. u \<noteq> t \<and> w \<in> waits (at_stage h u) (calls h u))" for w
    unfolding stale_def using top(1) by metis
  show "stale h v \<longleftrightarrow> at_stage h t = Clearing" unfolding split using others mine by blast
  have "stale (call t st (f # rest) h) w \<longleftrightarrow> w \<in> waits st (f # rest) \<or> (\<exists>u. u \<noteq> t \<and> w \<in> waits (at_stage h u) (calls h u))"
    unfolding stale_def call_fields by (metis fun_upd_apply)
  moreover have "w \<in> waits st (f # rest) \<longleftrightarrow> w \<in> waits (at_stage h t) (f # rest)" if "w \<noteq> v" using that top(2) by auto
  ultimately show "stale (call t st (f # rest) h) w \<longleftrightarrow> (if w = v then st = Clearing else stale h w)"
    unfolding split using others mine by metis
qed

text \<open>A change of a thread's calls that leaves what waits.\<close>

lemma stale_same: "waits st fs = waits (at_stage h t) (calls h t) \<Longrightarrow> stale (call t st fs h) = stale h"
  unfolding stale_def fun_eq_iff by (metis call_fields(7,8) fun_upd_apply)

lemma doomed_call: "doomed (call t st fs h) o' \<longleftrightarrow> o' \<in> set (deleted_by fs) \<or> (\<exists>u. u \<noteq> t \<and> o' \<in> set (deleted_by (calls h u)))"
  unfolding doomed_def by auto

subsection \<open>Changes that keep the invariant\<close>

lemma heap_ok_cong:
  assumes "stale h' = stale h" and "doomed h' = doomed h" and "ptr h' = ptr h" and "alive h' = alive h" and "refCount h' = refCount h"
    and "members h' = members h" and "fresh_object h' = fresh_object h" and "raw h' = raw h"
  shows "heap_ok d h' = heap_ok d h"
  using assms by (simp add: heap_ok_def references_def holders_def)

text \<open>New variables and objects leave the calls that are under way alone.\<close>

lemma thread_ok_grows:
  assumes "\<And>v. ptr h v \<noteq> None \<Longrightarrow> ptr h' v = ptr h v"
    and "\<And>o' i. alive h o' \<Longrightarrow> alive h' o' \<and> ptr h' (Member o' i) = ptr h (Member o' i)"
  shows "thread_ok h st fs \<Longrightarrow> thread_ok h' st fs"
proof -
  assume ok: "thread_ok h st fs"
  have chain_keys: "ptr h k \<noteq> None" if "chain h K" "k \<in> set K" for K k using that by (induction K) (auto simp: held_def)
  have "frame_ok h' f" if "frame_ok h f" for f
  proof (cases f)
    case (In_Op op K)
    then have snd: "sound_op h K op" using that by simp
    then have "chain h K" by (simp add: sound_op_def)
    then have "ptr h' k = ptr h k" if "k \<in> set K" for k using chain_keys [OF _ that] assms(1) by blast
    moreover have "ptr h' v \<noteq> None" if "ptr h v \<noteq> None" for v using that assms(1) by simp
    ultimately show ?thesis using sound_op_change [of K h' h op] snd In_Op by simp
  next
    case (In_Delete o' m)
    then show ?thesis using that assms(2) by simp
  qed
  moreover have "ptr h' v = Some None" if "ptr h v = Some None" for v using assms(1) that by simp
  ultimately show ?thesis using ok unfolding thread_ok_def by blast
qed

text \<open>What a thread may change: the variables its operation writes, and the members of the objects it deletes.\<close>

definition owned :: "ref_heap \<Rightarrow> nat \<Rightarrow> var set" where
  "owned h t = writes h t \<union> {Member o' i |o' i. o' \<in> set (deleted_by (calls h t))}"

lemma owned_apart:
  assumes "rc_inv d h" and "u \<noteq> t"
  shows "In_Op op K \<in> set (calls h u) \<Longrightarrow> (op_vars op \<union> set K) \<inter> owned h t = {}"
    and "In_Delete o' m \<in> set (calls h u) \<Longrightarrow> o' \<notin> set (deleted_by (calls h t)) \<and> Member o' i \<notin> owned h t"
proof -
  have ex: "writes h t \<inter> uses h u = {}" "set (deleted_by (calls h t)) \<inter> set (deleted_by (calls h u)) = {}"
    using inv_parts(3) [OF assms(1)] assms(2) by (simp_all add: exclusive_def)
  {
    assume op: "In_Op op K \<in> set (calls h u)"
    have "v \<notin> owned h t" if "v \<in> op_vars op \<union> set K" for v
    proof
      assume "v \<in> owned h t"
      moreover have "v \<in> uses h u" using op that unfolding uses_def by blast
      ultimately obtain p i where p: "v = Member p i" "p \<in> set (deleted_by (calls h t))" using ex(1) by (auto simp: owned_def)
      then have "doomed h p" by (auto simp: doomed_def)
      then show False using op_safe(2) [OF assms(1) op that p(1)] by blast
    qed
    then show "(op_vars op \<union> set K) \<inter> owned h t = {}" by blast
  next
    assume del: "In_Delete o' m \<in> set (calls h u)"
    then have o': "o' \<in> set (deleted_by (calls h u))" by (auto simp: in_deleted_by)
    then have "o' \<notin> set (deleted_by (calls h t))" using ex(2) by blast
    moreover have "Member o' i \<notin> writes h t"
    proof
      assume "Member o' i \<in> writes h t"
      then obtain op K where "In_Op op K \<in> set (calls h t)" "Member o' i \<in> op_writes op" by (auto simp: writes_def)
      then have "\<not> doomed h o'" using op_safe(2) [OF assms(1), of op K t "Member o' i" o' i] target_in_writes(2) by blast
      then show False using o' by (auto simp: doomed_def)
    qed
    ultimately show "o' \<notin> set (deleted_by (calls h t)) \<and> Member o' i \<notin> owned h t" by (auto simp: owned_def)
  }
qed

lemma others_ok:
  assumes inv: "rc_inv d h" and u: "u \<noteq> t" and ptr: "\<And>v. v \<notin> owned h t \<Longrightarrow> ptr h' v = ptr h v"
    and al: "\<And>o'. o' \<notin> set (deleted_by (calls h t)) \<Longrightarrow> alive h' o' = alive h o'"
  shows "thread_ok h' (at_stage h u) (calls h u)"
proof -
  have "frame_ok h' f" if "f \<in> set (calls h u)" for f
  proof (cases f)
    case (In_Op op K)
    then have "(op_vars op \<union> set K) \<inter> owned h t = {}" using owned_apart(1) [OF inv u] that by simp
    then have "ptr h' v = ptr h v" if "v \<in> op_vars op \<union> set K" for v using ptr that by blast
    then show ?thesis using sound_op_change [of K h' h op] inv_parts(6) [OF inv that] In_Op by simp
  next
    case (In_Delete o' m)
    then show ?thesis using owned_apart(2) [OF inv u, of o' m] that inv_parts(6) [OF inv that] ptr al by simp
  qed
  moreover have "ptr h' v = ptr h v" if "f \<in> set (calls h u)" "frame_target f = Some v" for f v
    using that(2)
  proof (cases rule: target_cases)
    case (1 op K)
    then have "v \<in> op_vars op" using target_in_writes by blast
    then show ?thesis using owned_apart(1) [OF inv u, of op K] that(1) 1 ptr by blast
  next
    case (2 o' m)
    then show ?thesis using owned_apart(2) [OF inv u, of o' "Suc m"] that(1) ptr by simp
  qed
  then have "calls h u \<noteq> [] \<Longrightarrow> frame_target (hd (calls h u)) = Some v \<Longrightarrow> ptr h' v = ptr h v" for v using hd_in_set by blast
  ultimately show ?thesis using inv_parts(2) [OF inv, of u] unfolding thread_ok_def by auto
qed

lemma exclusive_less:
  assumes "exclusive h" and "set (deleted_by fs) \<subseteq> set (deleted_by (calls h t))"
    and "\<And>op K. In_Op op K \<in> set fs \<Longrightarrow> In_Op op K \<in> set (calls h t)" and "\<And>u. calls h' u = (if u = t then fs else calls h u)"
  shows "exclusive h'"
proof -
  have w: "writes h' u \<subseteq> writes h u" "uses h' u \<subseteq> uses h u" for u
    using assms(3,4) unfolding writes_def uses_def by (auto split: if_splits)
  have "set (deleted_by (calls h' u)) \<subseteq> set (deleted_by (calls h u))" for u using assms(2,4) by simp
  then show ?thesis using w assms(1) unfolding exclusive_def by (meson disjoint_iff subsetD)
qed

lemma same_calls:
  assumes "calls h' = calls h" and "at_stage h' = at_stage h"
  shows "stale h' = stale h" and "doomed h' = doomed h" and "writes h' = writes h" and "uses h' = uses h"
    and "exclusive h' = exclusive h"
  using assms by (simp_all add: stale_def doomed_def writes_def uses_def exclusive_def fun_eq_iff)

lemma same_memory:
  assumes "ptr h' = ptr h" and "alive h' = alive h"
  shows "frame_ok h' f = frame_ok h f" and "thread_ok h' st fs = thread_ok h st fs"
proof -
  have s: "sound_op h' K op = sound_op h K op" for K op
    using sound_op_change [of K h' h op] sound_op_change [of K h h' op] assms(1) by auto
  show *: "frame_ok h' f = frame_ok h f" for f by (cases f) (simp_all add: s assms)
  show "thread_ok h' st fs = thread_ok h st fs" by (simp add: thread_ok_def * assms)
qed

lemma finite_holders: "heap_ok d h \<Longrightarrow> finite (holders h o')"
  using heap_okD(1) [of d h] unfolding holders_def by (rule finite_subset [rotated]) auto

lemma target_exists:
  assumes "rc_inv d h" and "f \<in> set (calls h t)" and "frame_target f = Some v"
  shows "ptr h v \<noteq> None" and "v \<in> owned h t"
proof -
  have ok: "frame_ok h f" by (rule inv_parts(6) [OF assms(1,2)])
  from assms(3) show "ptr h v \<noteq> None"
  proof (cases rule: target_cases)
    case (1 op K)
    then show ?thesis using ok target_in_writes(3) [of op] by (simp add: sound_op_def held_def)
  qed (use ok in auto)
  from assms(3) show "v \<in> owned h t"
  proof (cases rule: target_cases)
    case (1 op K)
    then show ?thesis using assms(2) target_in_writes(1) [of op] by (auto simp: owned_def writes_def)
  next
    case (2 o' m)
    then show ?thesis using assms(2) by (auto simp: owned_def in_deleted_by)
  qed
qed

text \<open>\<open>ReleaseRef\<close> pays the debt, and begins to delete the object when nothing refers to it.\<close>

lemma ReleaseRef_inv:
  assumes inv: "rc_inv (\<lambda>x. if x = o' then 1 else 0) h" and al: "alive h o'" and nd: "\<not> doomed h o'"
    and wait: "calls h t = [] \<or> at_stage h t = Clearing" and tg: "\<And>g. g \<in> set (calls h t) \<Longrightarrow> frame_target g \<noteq> None"
  shows "\<exists>h'. ReleaseRef t o' h = Inr h' \<and> rc_inv no_debt h'"
proof -
  note ok = heap_okD [OF inv_parts(1) [OF inv]]
  define c where "c = refCount h o' - 1"
  define h1 where "h1 = h\<lparr>refCount := (refCount h)(o' := c)\<rparr>"
  have count: "refCount h o' = references h o' + 1" "0 < refCount h o'" using ok(6) [OF al nd] by simp_all
  have st1: "stale h1 = stale h" "doomed h1 = doomed h" "exclusive h1 = exclusive h" by (rule same_calls; simp add: h1_def)+
  then have ref1: "references h1 = references h" "holders h1 = holders h" by (simp_all add: references_def holders_def h1_def fun_eq_iff)
  have th1: "thread_ok h1 st fs = thread_ok h st fs" for st fs by (rule same_memory(2)) (simp_all add: h1_def)
  show ?thesis
  proof (cases "c = 0")
    case False
    then have "ReleaseRef t o' h = Inr h1" using al by (simp add: ReleaseRef_def h1_def c_def Let_def)
    moreover have "heap_ok no_debt h1"
    proof -
      have "refCount h1 x = references h1 x + 0 \<and> 0 < refCount h1 x" if "alive h x" "\<not> doomed h x" for x
        using ok(6) [OF that] count False unfolding ref1 by (auto simp: h1_def c_def)
      moreover have "ptr h1 = ptr h" "alive h1 = alive h" "members h1 = members h" "fresh_object h1 = fresh_object h" "raw h1 = raw h"
        by (simp_all add: h1_def)
      ultimately show ?thesis using ok st1(1,2) by - (rule heap_okI; metis)
    qed
    ultimately show ?thesis using inv st1(3) by (simp add: rc_inv_def th1) (simp add: h1_def)
  next
    case True
    let ?fs = "In_Delete o' (members h o') # calls h t"
    define h2 where "h2 = call t Releasing ?fs h1"
    have run: "ReleaseRef t o' h = Inr h2" using al True by (simp add: ReleaseRef_def h2_def h1_def c_def Let_def)
    have "waits Releasing ?fs = waits (at_stage h1 t) (calls h1 t)" using wait by (auto simp: h1_def waits_Clearing)
    then have st2: "stale h2 = stale h" unfolding h2_def st1(1) [symmetric] by (rule stale_same)
    have dm2: "doomed h2 x \<longleftrightarrow> doomed h x \<or> x = o'" for x unfolding h2_def doomed_call by (auto simp: h1_def doomed_def)
    have ref2: "references h2 = references h" "holders h2 = holders h"
      using st2 by (simp_all add: references_def holders_def h2_def h1_def fun_eq_iff)
    have "references h o' = 0" using count True by (simp add: c_def)
    then have none: "holders h o' = {}" "o' \<notin> raw h"
      using finite_holders [OF inv_parts(1) [OF inv], of o'] by (auto simp: references_def card_eq_0_iff split: if_splits)
    have "heap_ok no_debt h2"
    proof -
      have "alive h x \<and> \<not> doomed h x \<and> x \<noteq> o'" if "ptr h v = Some (Some x)" "\<not> stale h v" for v x
        using ok(4) [OF that] none(1) that by (auto simp: holders_def)
      moreover have "alive h x \<and> \<not> doomed h x \<and> x \<noteq> o'" if "x \<in> raw h" for x using ok(5) [OF that] none(2) that by auto
      moreover have "refCount h2 x = references h x \<and> 0 < refCount h2 x" if "alive h x" "\<not> doomed h x" "x \<noteq> o'" for x
        using ok(6) [OF that(1,2)] that(3) by (simp add: h2_def h1_def)
      moreover have "ptr h2 = ptr h" "alive h2 = alive h" "members h2 = members h" "fresh_object h2 = fresh_object h" "raw h2 = raw h"
        by (simp_all add: h2_def h1_def)
      ultimately show ?thesis using ok(1-3,7,8) st2 dm2 ref2 by - (rule heap_okI; metis add.right_neutral)
    qed
    moreover have "thread_ok h2 (at_stage h2 u) (calls h2 u)" for u
    proof (cases "u = t")
      case True
      have "o' \<notin> set (deleted_by (calls h t))" using nd by (auto simp: doomed_def)
      moreover have "frame_ok h2 f" if "f \<in> set ?fs" for f
      proof -
        have "frame_ok h2 f = frame_ok h f" by (rule same_memory(1)) (simp_all add: h2_def h1_def)
        then show ?thesis using that inv_parts(6) [OF inv, of f t] al ok(8) [OF al nd] by auto
      qed
      ultimately show ?thesis using True inv_parts(4,5) [OF inv, of t] tg by (simp add: thread_ok_def h2_def h1_def)
    next
      case False
      have "thread_ok h2 st fs = thread_ok h st fs" for st fs by (rule same_memory(2)) (simp_all add: h2_def h1_def)
      then show ?thesis using False inv_parts(2) [OF inv, of u] by (simp add: h2_def h1_def)
    qed
    moreover have "exclusive h2"
    proof -
      have w: "writes h2 = writes h" "uses h2 = uses h" by (auto simp: writes_def uses_def h2_def h1_def fun_eq_iff)
      have "o' \<notin> set (deleted_by (calls h u))" for u using nd by (auto simp: doomed_def)
      then show ?thesis using inv_parts(3) [OF inv] unfolding exclusive_def w by (auto simp: h2_def h1_def)
    qed
    ultimately show ?thesis using run by (auto simp: rc_inv_def)
  qed
qed

lemma Release_begin_inv:
  assumes inv: "rc_inv no_debt h" and top: "calls h t = f # rest" "frame_target f = Some v" and st: "at_stage h t = Releasing"
  shows "\<exists>h'. Release_begin t v h = Inr h' \<and> rc_inv no_debt h'"
proof -
  note ok = heap_okD [OF inv_parts(1) [OF inv]]
  have f: "f \<in> set (calls h t)" using top(1) by simp
  have ns: "\<not> stale h v" using stale_top(2) [OF inv top] st by simp
  note change = stale_top(1) [OF inv top]
  have frames: "thread_ok (call t st' (f # rest) h) (at_stage (call t st' (f # rest) h) u) (calls (call t st' (f # rest) h) u)"
    if "st' = Released \<longrightarrow> ptr h v = Some None" for st' u
  proof -
    have "thread_ok (call t st' (f # rest) h) s fs = thread_ok h s fs" for s fs by (rule same_memory(2)) simp_all
    then show ?thesis using inv_parts(2) [OF inv, of u] top that by (auto simp: thread_ok_def)
  qed
  have ex: "exclusive (call t st' (f # rest) h)" for st'
    by (rule exclusive_less [OF inv_parts(3) [OF inv], of "f # rest" t]) (simp_all add: top)
  have dm: "doomed (call t st' (f # rest) h) = doomed h" for st'
    unfolding fun_eq_iff doomed_call top(1) [symmetric] by (auto simp: doomed_def)
  obtain p where p: "ptr h v = Some p" using target_exists(1) [OF inv f top(2)] by blast
  show ?thesis
  proof (cases p)
    case None
    let ?h = "call t Released (f # rest) h"
    have "stale ?h = stale h" using change [of Released] ns by (auto simp: fun_eq_iff)
    then have "heap_ok no_debt ?h" using heap_ok_cong [of ?h h] dm inv_parts(1) [OF inv] by simp
    then have "rc_inv no_debt ?h" using frames [of Released] ex p None by (simp add: rc_inv_def del: call_fields)
    then show ?thesis using p None top(1) by (simp add: Release_begin_def read_ptr_def)
  next
    case (Some o')
    let ?h = "call t Clearing (f # rest) h"
    have live: "alive h o'" "\<not> doomed h o'" using ok(4) [of v o'] p Some ns by auto
    have hs: "holders ?h x = (if x = o' then holders h x - {v} else holders h x)" for x
      using change [of Clearing] p Some by (auto simp: holders_def)
    have "v \<in> holders h o'" using p Some ns by (simp add: holders_def)
    then have "int (card (holders h o' - {v})) = int (card (holders h o')) - 1"
      using finite_holders [OF inv_parts(1) [OF inv], of o'] card_gt_0_iff [of "holders h o'"] by (auto simp: card_Diff_singleton of_nat_diff)
    then have refs: "references ?h x = (if x = o' then references h x - 1 else references h x)" for x
      using hs by (simp add: references_def)
    have "heap_ok (\<lambda>x. if x = o' then 1 else 0) ?h"
    proof -
      have "alive h x \<and> \<not> doomed h x" if "ptr h w = Some (Some x)" "\<not> stale ?h w" for w x
        using ok(4) [of w x] that change [of Clearing w] by (auto split: if_splits)
      moreover have "refCount h x = references ?h x + (if x = o' then 1 else 0) \<and> 0 < refCount h x" if "alive h x" "\<not> doomed h x" for x
        using ok(6) [OF that] refs [of x] by auto
      ultimately show ?thesis using ok(1-3,5,7,8) dm call_fields(1-6) [of t Clearing "f # rest" h] by - (rule heap_okI; metis)
    qed
    then have "rc_inv (\<lambda>x. if x = o' then 1 else 0) ?h" using frames [of Clearing] ex by (simp add: rc_inv_def del: call_fields)
    moreover have "frame_target g \<noteq> None" if "g \<in> set (f # rest)" for g using that inv_parts(4) [OF inv, of t] top by auto
    ultimately have "\<exists>h'. ReleaseRef t o' ?h = Inr h' \<and> rc_inv no_debt h'"
      using live dm by (intro ReleaseRef_inv) simp_all
    then show ?thesis using p Some top(1) by (simp add: Release_begin_def read_ptr_def)
  qed
qed

text \<open>A thread's own frames after a change of variables that none of its keepers is among.\<close>

lemma own_frames:
  assumes inv: "rc_inv d h" and W: "\<And>v. v \<notin> W \<Longrightarrow> ptr h' v = ptr h v" "\<And>v. v \<in> W \<Longrightarrow> ptr h v \<noteq> None \<and> ptr h' v \<noteq> None"
    and keys: "\<And>op K. In_Op op K \<in> set (calls h t) \<Longrightarrow> set K \<inter> W = {}" and al: "alive h' = alive h"
    and f: "f \<in> set (calls h t)"
  shows "frame_ok h' f"
proof (cases f)
  case (In_Op op K)
  then have "ptr h' k = ptr h k" if "k \<in> set K" for k using keys [of op K] f W(1) that by blast
  moreover have "ptr h' v \<noteq> None" if "ptr h v \<noteq> None" for v using W that by (cases "v \<in> W") auto
  ultimately show ?thesis using sound_op_change [of K h' h op] inv_parts(6) [OF inv f] In_Op by simp
next
  case (In_Delete o' m)
  have "ptr h' v \<noteq> None \<longleftrightarrow> ptr h v \<noteq> None" for v using W by (cases "v \<in> W") auto
  then show ?thesis using inv_parts(6) [OF inv f] In_Delete al by simp
qed

lemma Release_end_inv:
  assumes inv: "rc_inv no_debt h" and top: "calls h t = f # rest" "frame_target f = Some v" and st: "at_stage h t = Clearing"
  shows "\<exists>h'. Release_end t v h = Inr h' \<and> rc_inv no_debt h'"
proof -
  note ok = heap_okD [OF inv_parts(1) [OF inv]]
  have f: "f \<in> set (calls h t)" using top(1) by simp
  note v = target_exists [OF inv f top(2)]
  define h1 where "h1 = h\<lparr>ptr := (ptr h)(v \<mapsto> None)\<rparr>"
  define h2 where "h2 = call t Released (f # rest) h1"
  have run: "Release_end t v h = Inr h2" using v(1) top(1) by (auto simp: Release_end_def write_ptr_def h2_def h1_def)
  have p2: "ptr h2 = (ptr h)(v \<mapsto> None)" "alive h2 = alive h" "refCount h2 = refCount h" "members h2 = members h"
    "fresh_object h2 = fresh_object h" "raw h2 = raw h" "calls h2 = calls h" by (simp_all add: h2_def h1_def top(1) [symmetric])
  have "stale h2 w \<longleftrightarrow> stale (call t Released (f # rest) h) w" for w by (simp add: stale_def h2_def h1_def)
  then have st2: "stale h2 w \<longleftrightarrow> w \<noteq> v \<and> stale h w" for w using stale_top(1) [OF inv top, of Released w] by simp
  have sv: "stale h v" using stale_top(2) [OF inv top] st by simp
  have hs: "holders h2 = holders h" using st2 sv p2 by (auto simp: holders_def fun_eq_iff)
  have dm: "doomed h2 = doomed h" using p2 by (simp add: doomed_def fun_eq_iff)
  have refs: "references h2 = references h" using hs p2 by (simp add: references_def fun_eq_iff)
  have "heap_ok no_debt h2"
  proof (rule heap_okI, unfold p2(2-6) dm refs)
    show "finite (dom (ptr h2))" using ok(1) by (simp add: p2)
    show "alive h o' \<and> \<not> doomed h o'" if "ptr h2 w = Some (Some o')" "\<not> stale h2 w" for w o'
      using that ok(4) [of w o'] st2 by (auto simp: p2 split: if_splits)
    show "ptr h2 (Member o' i) = None" if "\<not> alive h o'" for o' i using ok(7) [OF that, of i] v(1) by (auto simp: p2)
    show "ptr h2 (Member o' i) \<noteq> None \<longleftrightarrow> i < members h o'" if "alive h o'" "\<not> doomed h o'" for o' i
      using ok(8) [OF that, of i] v(1) by (auto simp: p2)
    show "o' < fresh_object h" if "ptr h2 w = Some (Some o')" for w o' using that ok(3) [of w o'] by (auto simp: p2 split: if_splits)
  qed (use ok(2,5,6) in blast)+
  moreover have "thread_ok h2 (at_stage h2 u) (calls h2 u)" for u
  proof (cases "u = t")
    case True
    have "frame_ok h2 g" if "g \<in> set (calls h t)" for g
    proof (rule own_frames [OF inv, of "{v}" h2 t])
      show "set K \<inter> {v} = {}" if "In_Op op K \<in> set (calls h t)" for op K using op_safe(1) [OF inv that, of v] sv by blast
    qed (use that v(1) p2 in auto)
    then show ?thesis using True inv_parts(4,5) [OF inv, of t] top by (simp add: thread_ok_def p2)
  next
    case False
    have "thread_ok h2 (at_stage h u) (calls h u)" by (rule others_ok [OF inv False]) (use v(2) in \<open>auto simp: p2\<close>)
    then show ?thesis using False by (simp add: p2) (simp add: h2_def h1_def)
  qed
  moreover have "exclusive h2" using inv_parts(3) [OF inv] p2(7) by (simp add: exclusive_def writes_def uses_def)
  ultimately show ?thesis using run by (auto simp: rc_inv_def)
qed

lemma op_alone: "rc_inv d h \<Longrightarrow> calls h t = In_Op op K # rest \<Longrightarrow> rest = []"
  using inv_parts(4) [of d h t] by simp

text \<open>When an operation ends, the thread has no call left.\<close>

lemma finished_op:
  assumes inv: "rc_inv no_debt h" and top: "calls h t = [In_Op op K]" and st: "at_stage h t = Released"
    and h2: "calls h2 = (calls h)(t := [])" "at_stage h2 = (at_stage h)(t := Clearing)" "alive h2 = alive h"
    and ptr: "\<forall>v. v \<notin> owned h t \<longrightarrow> ptr h2 v = ptr h v"
  shows "stale h2 = stale h" and "doomed h2 = doomed h" and "heap_ok no_debt h2 \<Longrightarrow> rc_inv no_debt h2"
proof -
  have "stale h2 = stale (call t Clearing [] h)" by (simp add: stale_def h2 fun_eq_iff)
  also have "\<dots> = stale h" by (rule stale_same) (simp add: top st)
  finally show "stale h2 = stale h" .
  show dm: "doomed h2 = doomed h" unfolding doomed_def fun_eq_iff h2 by (metis deleted_by.simps(1,3) fun_upd_apply top)
  assume "heap_ok no_debt h2"
  moreover have "thread_ok h2 (at_stage h2 u) (calls h2 u)" for u
  proof (cases "u = t")
    case False
    have "thread_ok h2 (at_stage h u) (calls h u)" by (rule others_ok [OF inv False]) (use ptr in \<open>simp_all add: h2\<close>)
    then show ?thesis using False by (simp add: h2)
  qed (simp add: h2 thread_ok_def)
  moreover have "exclusive h2" by (rule exclusive_less [OF inv_parts(3) [OF inv], of "[]" t]) (simp_all add: h2)
  ultimately show "rc_inv no_debt h2" by (simp add: rc_inv_def)
qed

lemma op_var:
  assumes inv: "rc_inv no_debt h" and top: "calls h t = [In_Op op K]" and st: "at_stage h t = Released"
    and v: "v \<in> op_vars op"
  shows "ptr h v \<noteq> None" and "\<not> stale h v"
proof -
  have mem: "In_Op op K \<in> set (calls h t)" by (simp add: top)
  show "ptr h v \<noteq> None" using inv_parts(6) [OF inv mem] v by (simp add: sound_op_def held_def)
  show "\<not> stale h v"
  proof
    assume "stale h v"
    then obtain u where u: "v \<in> waits (at_stage h u) (calls h u)" by (auto simp: stale_def)
    then obtain g where g: "g \<in> set (calls h u)" "frame_target g = Some v" by (cases "calls h u") auto
    have "u \<noteq> t" using u top st by auto
    from g(2) show False
    proof (cases rule: target_cases)
      case (1 op' K')
      then have "v \<in> writes h u" using g(1) target_in_writes(1) [of op'] by (auto simp: writes_def)
      moreover have "v \<in> uses h t" using mem v by (auto simp: uses_def)
      ultimately show False using \<open>u \<noteq> t\<close> inv_parts(3) [OF inv] by (auto simp: exclusive_def)
    next
      case (2 o' m)
      then have "doomed h o'" using g(1) by (auto simp: doomed_def in_deleted_by)
      then show False using op_safe(2) [OF inv mem, of v o' m] v 2 by blast
    qed
  qed
qed

lemma released_null: "rc_inv d h \<Longrightarrow> calls h t = f # rest \<Longrightarrow> at_stage h t = Released \<Longrightarrow> frame_target f = Some v \<Longrightarrow> ptr h v = Some None"
  using inv_parts(2) [of d h t] by (simp add: thread_ok_def)

lemma in_owned: "calls h t = [In_Op op K] \<Longrightarrow> w \<in> op_writes op \<Longrightarrow> w \<in> owned h t"
  by (simp add: owned_def writes_def)

lemma Assign_inv:
  assumes inv: "rc_inv no_debt h" and top: "calls h t = [In_Op (Assign v rhs) K]" and st: "at_stage h t = Released"
  shows "\<exists>h'. after_release t (In_Op (Assign v rhs) K) [] h = Inr h' \<and> rc_inv no_debt h'"
proof -
  note ok = heap_okD [OF inv_parts(1) [OF inv]] and var = op_var [OF inv top st]
  have v: "ptr h v = Some None" using released_null [OF inv top st] by simp
  obtain p where p: "ptr h rhs = Some p" using var(1) [of rhs] by auto
  define n where "n x = (if p = Some x then refCount h x + 1 else refCount h x)" for x
  define h2 where "h2 = call t Clearing [] (h\<lparr>ptr := (ptr h)(v \<mapsto> p), refCount := n\<rparr>)"
  have live: "alive h x \<and> \<not> doomed h x" if "p = Some x" for x using ok(4) [of rhs x] p var(2) [of rhs] that by simp
  have "n = (case p of None \<Rightarrow> refCount h | Some o' \<Rightarrow> (refCount h)(o' := refCount h o' + 1))"
    by (auto simp: n_def fun_eq_iff split: option.split)
  then have run: "after_release t (In_Op (Assign v rhs) K) [] h = Inr h2"
    using v p live by (simp add: read_ptr_def Set_ptr_def write_ptr_def AddRef_def h2_def split: option.split)
  have f2: "ptr h2 = (ptr h)(v \<mapsto> p)" "alive h2 = alive h" "refCount h2 = n" "members h2 = members h"
    "fresh_object h2 = fresh_object h" "raw h2 = raw h" "calls h2 = (calls h)(t := [])" "at_stage h2 = (at_stage h)(t := Clearing)"
    by (simp_all add: h2_def)
  have out: "\<forall>w. w \<notin> owned h t \<longrightarrow> ptr h2 w = ptr h w" using in_owned [OF top, of v] by (auto simp: f2)
  note fin = finished_op [OF inv top st f2(7,8,2) out]
  have hs: "holders h2 x = (if p = Some x then insert v (holders h x) else holders h x)" for x
    using v var(2) [of v] unfolding holders_def fin(1) f2 by auto
  have "v \<notin> holders h x" for x using v by (simp add: holders_def)
  then have refs: "references h2 x = (if p = Some x then references h x + 1 else references h x)" for x
    using finite_holders [OF inv_parts(1) [OF inv], of x] by (simp add: references_def hs f2)
  have "heap_ok no_debt h2"
  proof (rule heap_okI, unfold f2(2-6) fin(1,2) refs)
    show "finite (dom (ptr h2))" using ok(1) by (simp add: f2)
    show "o' < fresh_object h" if "ptr h2 w = Some (Some o')" for w o'
      using that ok(3) [of w o'] live [of o'] ok(2) [of o'] by (auto simp: f2 split: if_splits)
    show "alive h o' \<and> \<not> doomed h o'" if "ptr h2 w = Some (Some o')" "\<not> stale h w" for w o'
      using that ok(4) [of w o'] live by (auto simp: f2 split: if_splits)
    show "n o' = (if p = Some o' then references h o' + 1 else references h o') + 0 \<and> 0 < n o'" if "alive h o'" "\<not> doomed h o'" for o'
      using ok(6) [OF that] by (auto simp: n_def)
    show "ptr h2 (Member o' i) = None" if "\<not> alive h o'" for o' i using ok(7) [OF that, of i] v by (auto simp: f2)
    show "ptr h2 (Member o' i) \<noteq> None \<longleftrightarrow> i < members h o'" if "alive h o'" "\<not> doomed h o'" for o' i
      using ok(8) [OF that, of i] v by (auto simp: f2)
  qed (use ok(2,5) in blast)+
  then show ?thesis using run fin(3) by blast
qed

lemma Assign_move_inv:
  assumes inv: "rc_inv no_debt h" and top: "calls h t = [In_Op (Assign_move v rhs) K]" and st: "at_stage h t = Released"
  shows "\<exists>h'. after_release t (In_Op (Assign_move v rhs) K) [] h = Inr h' \<and> rc_inv no_debt h'"
proof -
  note ok = heap_okD [OF inv_parts(1) [OF inv]] and var = op_var [OF inv top st]
  have v: "ptr h v = Some None" using released_null [OF inv top st] by simp
  obtain p where p: "ptr h rhs = Some p" using var(1) [of rhs] by auto
  define h2 where "h2 = call t Clearing [] (h\<lparr>ptr := (ptr h)(v \<mapsto> p, rhs \<mapsto> None)\<rparr>)"
  have run: "after_release t (In_Op (Assign_move v rhs) K) [] h = Inr h2"
    using v p by (auto simp: read_ptr_def write_ptr_def h2_def)
  have f2: "ptr h2 = (ptr h)(v \<mapsto> p, rhs \<mapsto> None)" "alive h2 = alive h" "refCount h2 = refCount h" "members h2 = members h"
    "fresh_object h2 = fresh_object h" "raw h2 = raw h" "calls h2 = (calls h)(t := [])" "at_stage h2 = (at_stage h)(t := Clearing)"
    by (simp_all add: h2_def)
  have out: "\<forall>w. w \<notin> owned h t \<longrightarrow> ptr h2 w = ptr h w"
    using in_owned [OF top, of v] in_owned [OF top, of rhs] by (auto simp: f2)
  note fin = finished_op [OF inv top st f2(7,8,2) out]
  have ns: "\<not> stale h v" "\<not> stale h rhs" using var(2) by simp_all
  have card: "card (holders h2 x) = card (holders h x)" for x
  proof (cases "p = Some x \<and> v \<noteq> rhs")
    case True
    then have "holders h2 x = insert v (holders h x - {rhs})" "rhs \<in> holders h x" "v \<notin> holders h x"
      using v p ns unfolding holders_def fin(1) f2 by auto
    then show ?thesis using finite_holders [OF inv_parts(1) [OF inv], of x] card_gt_0_iff [of "holders h x"]
      by (auto simp: card_insert_if)
  next
    case False
    then have "holders h2 x = holders h x" using v p unfolding holders_def fin(1) f2 by auto
    then show ?thesis by simp
  qed
  then have refs: "references h2 = references h" by (simp add: references_def f2 fun_eq_iff)
  have from_old: "\<exists>u. ptr h u = Some (Some x) \<and> (\<not> stale h w \<longrightarrow> \<not> stale h u)" if "ptr h2 w = Some (Some x)" for w x
    using that p ns by (auto simp: f2 split: if_splits)
  have none: "ptr h2 w \<noteq> None \<longleftrightarrow> ptr h w \<noteq> None" for w using v p by (auto simp: f2)
  have "heap_ok no_debt h2"
  proof (rule heap_okI, unfold f2(2-6) fin(1,2) refs)
    show "finite (dom (ptr h2))" using ok(1) by (simp add: f2)
    show "o' < fresh_object h" if "ptr h2 w = Some (Some o')" for w o' using from_old [OF that] ok(3) by blast
    show "alive h o' \<and> \<not> doomed h o'" if "ptr h2 w = Some (Some o')" "\<not> stale h w" for w o'
      using from_old [OF that(1)] that(2) ok(4) by blast
    show "ptr h2 (Member o' i) = None" if "\<not> alive h o'" for o' i using ok(7) [OF that, of i] none by blast
    show "ptr h2 (Member o' i) \<noteq> None \<longleftrightarrow> i < members h o'" if "alive h o'" "\<not> doomed h o'" for o' i
      using ok(8) [OF that, of i] none by blast
  qed (use ok(2,5,6) in blast)+
  then show ?thesis using run fin(3) by blast
qed

lemma Destroy_inv:
  assumes inv: "rc_inv no_debt h" and top: "calls h t = [In_Op (Destroy v) K]" and st: "at_stage h t = Released"
  shows "\<exists>h'. after_release t (In_Op (Destroy v) K) [] h = Inr h' \<and> rc_inv no_debt h'"
proof -
  note ok = heap_okD [OF inv_parts(1) [OF inv]]
  have v: "ptr h v = Some None" using released_null [OF inv top st] by simp
  have "sound_op h K (Destroy v)" using inv_parts(6) [OF inv, of "In_Op (Destroy v) K" t] top by simp
  then have loc: "v \<noteq> Member o' i" for o' i by (auto simp: sound_op_def)
  define h2 where "h2 = call t Clearing [] (h\<lparr>ptr := (ptr h)(v := None)\<rparr>)"
  have run: "after_release t (In_Op (Destroy v) K) [] h = Inr h2" by (simp add: h2_def)
  have f2: "ptr h2 = (ptr h)(v := None)" "alive h2 = alive h" "refCount h2 = refCount h" "members h2 = members h"
    "fresh_object h2 = fresh_object h" "raw h2 = raw h" "calls h2 = (calls h)(t := [])" "at_stage h2 = (at_stage h)(t := Clearing)"
    by (simp_all add: h2_def)
  have out: "\<forall>w. w \<notin> owned h t \<longrightarrow> ptr h2 w = ptr h w" using in_owned [OF top, of v] by (auto simp: f2)
  note fin = finished_op [OF inv top st f2(7,8,2) out]
  have "holders h2 = holders h" using v unfolding holders_def fin(1) f2 fun_eq_iff by auto
  then have refs: "references h2 = references h" by (simp add: references_def f2 fun_eq_iff)
  have mem: "ptr h2 (Member o' i) = ptr h (Member o' i)" for o' i using loc [of o' i] by (simp add: f2)
  have sub: "ptr h2 w = Some (Some x) \<Longrightarrow> ptr h w = Some (Some x)" for w x by (auto simp: f2 split: if_splits)
  have "heap_ok no_debt h2"
  proof (rule heap_okI, unfold f2(2-6) fin(1,2) refs mem)
    show "finite (dom (ptr h2))" using ok(1) by (simp add: f2)
  qed (use ok sub in blast)+
  then show ?thesis using run fin(3) by blast
qed

text \<open>The frames below a deletion do not touch the object that is being deleted.\<close>

lemma below_delete:
  assumes inv: "rc_inv d h" and top: "calls h t = In_Delete o' m # rest" and g: "g \<in> set rest"
    and ptr: "\<And>v. (\<forall>i. v \<noteq> Member o' i) \<Longrightarrow> ptr h' v = ptr h v" and al: "\<And>x. x \<noteq> o' \<Longrightarrow> alive h' x = alive h x"
  shows "frame_ok h' g"
proof (cases g)
  case (In_Op op K)
  have mem: "In_Op op K \<in> set (calls h t)" using top g In_Op by simp
  have "doomed h o'" using top by (force simp: doomed_def intro: exI [of _ t])
  then have "v \<noteq> Member o' i" if "v \<in> op_vars op \<union> set K" for v i using op_safe(2) [OF inv mem that] by blast
  then have "ptr h' v = ptr h v" if "v \<in> op_vars op \<union> set K" for v using ptr that by blast
  then show ?thesis using sound_op_change [of K h' h op] inv_parts(6) [OF inv mem] In_Op by simp
next
  case (In_Delete x n)
  then have "x \<noteq> o'" using inv_parts(5) [OF inv, of t] top g by (auto simp: in_deleted_by)
  then show ?thesis using inv_parts(6) [OF inv, of g t] top g ptr al In_Delete by simp
qed

lemma member_owned: "calls h t = In_Delete o' m # rest \<Longrightarrow> Member o' i \<in> owned h t"
  by (auto simp: owned_def)

lemma Delete_next_inv:
  assumes inv: "rc_inv no_debt h" and top: "calls h t = In_Delete o' (Suc m) # rest" and st: "at_stage h t = Released"
  shows "\<exists>h'. after_release t (In_Delete o' (Suc m)) rest h = Inr h' \<and> rc_inv no_debt h'"
proof -
  note ok = heap_okD [OF inv_parts(1) [OF inv]]
  have v: "ptr h (Member o' m) = Some None" using released_null [OF inv top st] by simp
  let ?fs = "In_Delete o' m # rest"
  define h2 where "h2 = call t Releasing ?fs (h\<lparr>ptr := (ptr h)(Member o' m := None)\<rparr>)"
  have run: "after_release t (In_Delete o' (Suc m)) rest h = Inr h2" by (simp add: h2_def)
  have f2: "ptr h2 = (ptr h)(Member o' m := None)" "alive h2 = alive h" "refCount h2 = refCount h" "members h2 = members h"
    "fresh_object h2 = fresh_object h" "raw h2 = raw h" "calls h2 = (calls h)(t := ?fs)" "at_stage h2 = (at_stage h)(t := Releasing)"
    by (simp_all add: h2_def)
  have "stale h2 = stale (call t Releasing ?fs h)" by (simp add: stale_def h2_def fun_eq_iff)
  also have "\<dots> = stale h" by (rule stale_same) (simp add: top st)
  finally have st2: "stale h2 = stale h" .
  have dm: "doomed h2 = doomed h" unfolding doomed_def fun_eq_iff f2 by (metis deleted_by.simps(2) fun_upd_apply top)
  have bad: "doomed h o'" using top by (force simp: doomed_def intro: exI [of _ t])
  have "holders h2 = holders h" using v unfolding holders_def st2 f2 fun_eq_iff by auto
  then have refs: "references h2 = references h" by (simp add: references_def f2 fun_eq_iff)
  have sub: "ptr h2 w = Some (Some x) \<Longrightarrow> ptr h w = Some (Some x)" for w x by (auto simp: f2 split: if_splits)
  have "heap_ok no_debt h2"
  proof (rule heap_okI, unfold f2(2-6) st2 dm refs)
    show "finite (dom (ptr h2))" using ok(1) by (simp add: f2)
    show "ptr h2 (Member x i) = None" if "\<not> alive h x" for x i using ok(7) [OF that, of i] by (auto simp: f2)
    show "ptr h2 (Member x i) \<noteq> None \<longleftrightarrow> i < members h x" if "alive h x" "\<not> doomed h x" for x i
      using ok(8) [OF that, of i] bad that by (auto simp: f2)
  qed (use ok(2-6) sub in blast)+
  moreover have "thread_ok h2 (at_stage h2 u) (calls h2 u)" for u
  proof (cases "u = t")
    case True
    have "frame_ok h2 g" if "g \<in> set rest" for g by (rule below_delete [OF inv top that]) (auto simp: f2)
    moreover have "frame_ok h (In_Delete o' (Suc m))" using inv_parts(6) [OF inv, of "In_Delete o' (Suc m)" t] top by simp
    then have "frame_ok h2 (In_Delete o' m)" by (auto simp: f2 less_Suc_eq)
    ultimately show ?thesis using True inv_parts(4,5) [OF inv, of t] top by (simp add: thread_ok_def f2)
  next
    case False
    have "thread_ok h2 (at_stage h u) (calls h u)"
      by (rule others_ok [OF inv False]) (use member_owned [OF top, of m] in \<open>auto simp: f2\<close>)
    then show ?thesis using False by (simp add: f2)
  qed
  moreover have "exclusive h2" by (rule exclusive_less [OF inv_parts(3) [OF inv], of ?fs t]) (use top in \<open>auto simp: f2\<close>)
  ultimately show ?thesis using run by (auto simp: rc_inv_def)
qed

lemma Delete_last_inv:
  assumes inv: "rc_inv no_debt h" and top: "calls h t = In_Delete o' 0 # rest"
  shows "\<exists>h'. and_then (free_object o' h) (\<lambda>h1. Inr (call t Clearing rest h1)) = Inr h' \<and> rc_inv no_debt h'"
proof -
  note ok = heap_okD [OF inv_parts(1) [OF inv]]
  have fr: "alive h o'" "ptr h (Member o' i) = None" for i using inv_parts(6) [OF inv, of "In_Delete o' 0" t] top by auto
  define h2 where "h2 = call t Clearing rest (h\<lparr>alive := (alive h)(o' := False)\<rparr>)"
  have run: "and_then (free_object o' h) (\<lambda>h1. Inr (call t Clearing rest h1)) = Inr h2" using fr(1) by (simp add: free_object_def h2_def)
  have f2: "ptr h2 = ptr h" "alive h2 = (alive h)(o' := False)" "refCount h2 = refCount h" "members h2 = members h"
    "fresh_object h2 = fresh_object h" "raw h2 = raw h" "calls h2 = (calls h)(t := rest)" "at_stage h2 = (at_stage h)(t := Clearing)"
    by (simp_all add: h2_def)
  have "stale h2 = stale (call t Clearing rest h)" by (simp add: stale_def h2_def fun_eq_iff)
  also have "\<dots> = stale h" by (rule stale_same) (simp add: top waits_Clearing)
  finally have st2: "stale h2 = stale h" .
  have bad: "doomed h o'" using top by (force simp: doomed_def intro: exI [of _ t])
  have dm: "doomed h2 x \<longleftrightarrow> doomed h x" if "x \<noteq> o'" for x
    using that unfolding doomed_def f2 by (metis (no_types, lifting) deleted_by.simps(2) fun_upd_apply set_ConsD list.set_intros(2) top)
  have refs: "holders h2 = holders h" "references h2 = references h" using st2 by (simp_all add: holders_def references_def f2 fun_eq_iff)
  have live: "alive h2 x \<and> \<not> doomed h2 x \<longleftrightarrow> alive h x \<and> \<not> doomed h x" for x using dm [of x] bad by (cases "x = o'") (simp_all add: f2)
  have "heap_ok no_debt h2"
  proof (rule heap_okI, unfold f2(1,3-6) st2 refs live)
    show "ptr h (Member x i) = None" if "\<not> alive h2 x" for x i using ok(7) [of x i] fr(2) that by (cases "x = o'") (simp_all add: f2)
    show "refCount h x = references h x + 0 \<and> 0 < refCount h x" if "alive h2 x" "\<not> doomed h2 x" for x
      using ok(6) [of x] live that by blast
    show "ptr h (Member x i) \<noteq> None \<longleftrightarrow> i < members h x" if "alive h2 x" "\<not> doomed h2 x" for x i using ok(8) [of x i] live that by blast
    show "x < fresh_object h" if "alive h2 x" for x using that ok(2) [of x] by (simp add: f2 split: if_splits)
  qed (use ok(1,3-5) in blast)+
  moreover have "thread_ok h2 (at_stage h2 u) (calls h2 u)" for u
  proof (cases "u = t")
    case True
    have "frame_ok h2 g" if "g \<in> set rest" for g by (rule below_delete [OF inv top that]) (auto simp: f2)
    then show ?thesis using True inv_parts(4,5) [OF inv, of t] top by (simp add: thread_ok_def f2)
  next
    case False
    have "thread_ok h2 (at_stage h u) (calls h u)" by (rule others_ok [OF inv False]) (use top in \<open>auto simp: f2\<close>)
    then show ?thesis using False by (simp add: f2)
  qed
  moreover have "exclusive h2" by (rule exclusive_less [OF inv_parts(3) [OF inv], of rest t]) (use top in \<open>auto simp: f2\<close>)
  ultimately show ?thesis using run by (auto simp: rc_inv_def)
qed

lemma go_on_inv:
  assumes inv: "rc_inv no_debt h" and go: "go_on t h = Some r"
  shows "\<exists>h'. r = Inr h' \<and> rc_inv no_debt h'"
proof -
  obtain f rest where top: "calls h t = f # rest" using go by (auto simp: go_on_def split: list.splits)
  show ?thesis
  proof (cases "frame_target f")
    case None
    then obtain o' where f: "f = In_Delete o' 0" by (cases f rule: frame_target.cases) auto
    show ?thesis using go Delete_last_inv [OF inv top [unfolded f]] by (simp add: go_on_def top f)
  next
    case (Some v)
    show ?thesis
    proof (cases "at_stage h t")
      case Releasing
      then show ?thesis using go Release_begin_inv [OF inv top Some] by (auto simp: go_on_def top Some)
    next
      case Clearing
      then show ?thesis using go Release_end_inv [OF inv top Some] by (auto simp: go_on_def top Some)
    next
      case Released
      then have r: "r = after_release t f rest h" using go by (simp add: go_on_def top Some)
      from Some show ?thesis
      proof (cases rule: target_cases)
        case (1 op K)
        then have "rest = []" using op_alone [OF inv] top by simp
        then show ?thesis
          using Assign_inv [OF inv _ Released] Assign_move_inv [OF inv _ Released] Destroy_inv [OF inv _ Released] top r 1
          by (cases op) simp_all
      next
        case (2 o' m)
        then show ?thesis using Delete_next_inv [OF inv _ Released] top r by simp
      qed
    qed
  qed
qed

subsection \<open>Beginning\<close>

lemma doomed_alive: "rc_inv d h \<Longrightarrow> doomed h o' \<Longrightarrow> alive h o'"
  using inv_parts(6) [of d h] by (fastforce simp: doomed_def in_deleted_by)

lemma new_inv:
  assumes inv: "rc_inv no_debt h"
  shows "rc_inv no_debt (snd (RefCountable n h))"
proof -
  note ok = heap_okD [OF inv_parts(1) [OF inv]]
  define o' where "o' = fresh_object h"
  define h2 where "h2 = snd (RefCountable n h)"
  have no: "\<not> alive h o'" "\<not> doomed h o'" "o' \<notin> raw h" "ptr h w \<noteq> Some (Some o')" for w
    using ok(2,5) [of o'] ok(3) [of w o'] doomed_alive [OF inv, of o'] by (auto simp: o'_def)
  have f2: "refCount h2 = (refCount h)(o' := 1)" "alive h2 = (alive h)(o' := True)" "members h2 = (members h)(o' := n)"
    "fresh_object h2 = Suc o'" "raw h2 = insert o' (raw h)" "calls h2 = calls h" "at_stage h2 = at_stage h"
    "ptr h2 w = (case w of Member p i \<Rightarrow> if p = o' \<and> i < n then Some None else ptr h w | _ \<Rightarrow> ptr h w)" for w
    by (simp_all add: h2_def RefCountable_def o'_def Let_def cong: if_cong split: var.split)
  note same = same_calls [OF f2(6,7)]
  have sub: "ptr h2 w = Some (Some x) \<longleftrightarrow> ptr h w = Some (Some x)" for w x
    using ok(7) [OF no(1)] by (auto simp: f2 split: var.splits)
  have hs: "holders h2 = holders h" by (simp add: holders_def sub same fun_eq_iff)
  have none: "holders h o' = {}" using no(4) by (simp add: holders_def)
  have refs: "references h2 x = (if x = o' then 1 else references h x)" for x
    using none no(3) by (simp add: references_def hs f2)
  have "heap_ok no_debt h2"
  proof (rule heap_okI, unfold same sub)
    have "dom (ptr h2) \<subseteq> dom (ptr h) \<union> Member o' ` {..<n}" by (auto simp: f2 split: var.splits if_splits)
    then show "finite (dom (ptr h2))" by (rule finite_subset) (simp add: ok(1))
    show "x < fresh_object h2" if "alive h2 x" for x using that ok(2) [of x] by (auto simp: f2 o'_def split: if_splits)
    show "x < fresh_object h2" if "ptr h w = Some (Some x)" for w x using ok(3) [OF that] by (simp add: f2 o'_def)
    show "alive h2 x \<and> \<not> doomed h x" if "ptr h w = Some (Some x)" "\<not> stale h w" for w x using ok(4) [OF that] by (simp add: f2)
    show "alive h2 x \<and> \<not> doomed h x" if "x \<in> raw h2" for x using ok(5) [of x] that no by (auto simp: f2)
    show "refCount h2 x = references h2 x + 0 \<and> 0 < refCount h2 x" if "alive h2 x" "\<not> doomed h x" for x
      using ok(6) [of x] that refs [of x] by (cases "x = o'") (auto simp: f2)
    show "ptr h2 (Member x i) = None" if "\<not> alive h2 x" for x i using ok(7) [of x i] that by (auto simp: f2 split: if_splits)
    show "ptr h2 (Member x i) \<noteq> None \<longleftrightarrow> i < members h2 x" if "alive h2 x" "\<not> doomed h x" for x i
      using ok(8) [of x i] ok(7) [OF no(1), of i] that by (cases "x = o'") (auto simp: f2)
  qed
  moreover have "thread_ok h2 (at_stage h2 u) (calls h2 u)" for u
    unfolding f2(6,7) by (rule thread_ok_grows [OF _ _ inv_parts(2) [OF inv]])
      (use no(1) ok(7) [OF no(1)] in \<open>auto simp: f2 split: var.split\<close>)
  ultimately show ?thesis using same inv_parts(3) [OF inv] by (simp add: rc_inv_def h2_def)
qed

lemma give_up_inv:
  assumes inv: "rc_inv no_debt h" and o': "o' \<in> raw h" and idle: "calls h t = []"
  shows "\<exists>h'. ReleaseRef t o' (h\<lparr>raw := raw h - {o'}\<rparr>) = Inr h' \<and> rc_inv no_debt h'"
proof -
  note ok = heap_okD [OF inv_parts(1) [OF inv]]
  let ?h = "h\<lparr>raw := raw h - {o'}\<rparr>"
  have same: "stale ?h = stale h" "doomed ?h = doomed h" "exclusive ?h = exclusive h" by (rule same_calls; simp)+
  have th: "thread_ok ?h st fs = thread_ok h st fs" for st fs by (rule same_memory(2)) simp_all
  have hs: "holders ?h = holders h" by (simp add: holders_def same fun_eq_iff)
  have refs: "references ?h x + (if x = o' then 1 else 0) = references h x" for x using o' by (simp add: references_def hs)
  have "heap_ok (\<lambda>x. if x = o' then 1 else 0) ?h"
  proof (rule heap_okI, unfold same)
    show "alive ?h x \<and> \<not> doomed h x" if "x \<in> raw ?h" for x using ok(5) [of x] that by simp
    show "alive ?h x \<and> \<not> doomed h x" if "ptr ?h v = Some (Some x)" "\<not> stale h v" for v x using ok(4) [of v x] that by simp
    show "refCount ?h x = references ?h x + (if x = o' then 1 else 0) \<and> 0 < refCount ?h x" if "alive ?h x" "\<not> doomed h x" for x
      using ok(6) [of x] that by (simp only: refs) simp
    show "ptr ?h (Member x i) \<noteq> None \<longleftrightarrow> i < members ?h x" if "alive ?h x" "\<not> doomed h x" for x i using ok(8) [of x i] that by simp
  qed (use ok(1-3,7) in auto)
  then have "rc_inv (\<lambda>x. if x = o' then 1 else 0) ?h" using inv same th by (simp add: rc_inv_def)
  then show ?thesis using ok(5) [OF o'] idle same by (intro ReleaseRef_inv) simp_all
qed

lemma default_inv:
  assumes inv: "rc_inv no_debt h" and new: "ptr h (Local n) = None"
  shows "rc_inv no_debt (construct_default (Local n) h)"
proof -
  note ok = heap_okD [OF inv_parts(1) [OF inv]]
  define h2 where "h2 = construct_default (Local n) h"
  have f2: "refCount h2 = refCount h" "alive h2 = alive h" "members h2 = members h" "fresh_object h2 = fresh_object h" "raw h2 = raw h"
    "calls h2 = calls h" "at_stage h2 = at_stage h" "ptr h2 = (ptr h)(Local n \<mapsto> None)"
    by (simp_all add: h2_def construct_default_def)
  note same = same_calls [OF f2(6,7)]
  have sub: "ptr h2 w = Some (Some x) \<longleftrightarrow> ptr h w = Some (Some x)" for w x using new by (auto simp: f2)
  have "holders h2 = holders h" unfolding holders_def sub same ..
  then have refs: "references h2 = references h" by (simp add: references_def f2 fun_eq_iff)
  have mem: "ptr h2 (Member o' i) = ptr h (Member o' i)" for o' i by (simp add: f2)
  have "heap_ok no_debt h2"
  proof (rule heap_okI, unfold f2(1-5) same sub refs mem)
    show "finite (dom (ptr h2))" using ok(1) by (simp add: f2)
  qed (use ok in blast)+
  moreover have "thread_ok h2 (at_stage h2 u) (calls h2 u)" for u
    unfolding f2(6,7) by (rule thread_ok_grows [OF _ _ inv_parts(2) [OF inv]]) (use new in \<open>auto simp: f2\<close>)
  ultimately show ?thesis using same inv_parts(3) [OF inv] by (simp add: rc_inv_def h2_def)
qed

lemma kept_raw_live:
  assumes inv: "rc_inv d h" and k: "kept_raw h K (Some o')"
  shows "alive h o' \<and> \<not> doomed h o'"
proof (cases "o' \<in> raw h")
  case True
  then show ?thesis using heap_okD(5) [OF inv_parts(1) [OF inv]] by blast
next
  case False
  then have c: "chain h K" "keeps h K o'" "\<And>u. writes h u \<inter> set K = {}" using k by (simp_all add: kept_raw_def)
  show ?thesis using held_by_live [OF inv_parts(1) [OF inv] c(2)] chain_safe [OF inv c(1,3)] by blast
qed

lemma from_raw_inv:
  assumes inv: "rc_inv no_debt h" and new: "ptr h (Local n) = None" and k: "kept_raw h K p"
  shows "\<exists>h'. construct_from (Local n) p h = Inr h' \<and> rc_inv no_debt h'"
proof (cases p)
  case None
  then have "construct_from (Local n) p h = Inr (construct_default (Local n) h)"
    by (simp add: construct_from_def Set_ptr_def write_ptr_def construct_default_def)
  then show ?thesis using default_inv [OF inv new] by blast
next
  case (Some o')
  note ok = heap_okD [OF inv_parts(1) [OF inv]]
  have live: "alive h o'" "\<not> doomed h o'" using kept_raw_live [OF inv] k Some by blast+
  define h2 where "h2 = h\<lparr>ptr := (ptr h)(Local n \<mapsto> Some o'), refCount := (refCount h)(o' := refCount h o' + 1)\<rparr>"
  have run: "construct_from (Local n) p h = Inr h2"
    using live Some by (simp add: construct_from_def Set_ptr_def write_ptr_def construct_default_def AddRef_def h2_def)
  have f2: "refCount h2 = (refCount h)(o' := refCount h o' + 1)" "alive h2 = alive h" "members h2 = members h"
    "fresh_object h2 = fresh_object h" "raw h2 = raw h" "calls h2 = calls h" "at_stage h2 = at_stage h" "ptr h2 = (ptr h)(Local n \<mapsto> Some o')"
    by (simp_all add: h2_def)
  note same = same_calls [OF f2(6,7)]
  have ns: "\<not> stale h (Local n)"
  proof
    assume "stale h (Local n)"
    then obtain t f where "f \<in> set (calls h t)" "frame_target f = Some (Local n)" using stale_frame by blast
    then show False using target_exists(1) [OF inv] new by blast
  qed
  have hs: "holders h2 x = (if x = o' then insert (Local n) (holders h x) else holders h x)" for x
    using new ns by (auto simp: holders_def same f2)
  have refs: "references h2 x = (if x = o' then references h x + 1 else references h x)" for x
  proof -
    have "int (card (insert (Local n) (holders h x))) = int (card (holders h x)) + 1"
      using finite_holders [OF inv_parts(1) [OF inv], of x] new by (simp add: holders_def)
    then show ?thesis unfolding references_def hs f2(5) by (cases "x = o'") auto
  qed
  have mem: "ptr h2 (Member x i) = ptr h (Member x i)" for x i by (simp add: f2)
  have "heap_ok no_debt h2"
  proof (rule heap_okI, unfold f2(2-5) same refs mem)
    show "finite (dom (ptr h2))" using ok(1) by (simp add: f2)
    show "x < fresh_object h" if "ptr h2 w = Some (Some x)" for w x
      using that ok(3) [of w x] ok(2) [OF live(1)] by (auto simp: f2 split: if_splits)
    show "alive h x \<and> \<not> doomed h x" if "ptr h2 w = Some (Some x)" "\<not> stale h w" for w x
      using that ok(4) [of w x] live by (auto simp: f2 split: if_splits)
    show "refCount h2 x = (if x = o' then references h x + 1 else references h x) + 0 \<and> 0 < refCount h2 x"
      if "alive h x" "\<not> doomed h x" for x using ok(6) [OF that] by (auto simp: f2)
  qed (use ok(2,5,7,8) in blast)+
  moreover have "thread_ok h2 (at_stage h2 u) (calls h2 u)" for u
    unfolding f2(6,7) by (rule thread_ok_grows [OF _ _ inv_parts(2) [OF inv]]) (use new in \<open>auto simp: f2\<close>)
  ultimately have "rc_inv no_debt h2" using same inv_parts(3) [OF inv] by (simp add: rc_inv_def)
  then show ?thesis using run by blast
qed

lemma begin_inv:
  assumes inv: "rc_inv no_debt h" and may: "may_begin h t K op" and st: "st \<noteq> Clearing"
    and null: "st = Released \<Longrightarrow> ptr h (op_target op) = Some None"
  shows "rc_inv no_debt (call t st (In_Op op K # calls h t) h)"
proof -
  let ?h = "call t st [In_Op op K] h"
  have m: "calls h t = []" "sound_op h K op" "apart h t K op" using may by (simp_all add: may_begin_def)
  have st2: "stale ?h = stale h" by (rule stale_same) (use m(1) st in auto)
  have dm: "doomed ?h = doomed h" unfolding fun_eq_iff doomed_call using m(1) by (auto simp: doomed_def) (metis empty_iff empty_set deleted_by.simps(1))
  have "heap_ok no_debt ?h" using heap_ok_cong [of ?h h] st2 dm inv_parts(1) [OF inv] by simp
  moreover have "thread_ok ?h (at_stage ?h u) (calls ?h u)" for u
  proof -
    have th: "thread_ok ?h s fs = thread_ok h s fs" for s fs by (rule same_memory(2)) simp_all
    show ?thesis unfolding th using inv_parts(2) [OF inv, of u] m(2) null by (auto simp: thread_ok_def)
  qed
  moreover have "exclusive ?h"
  proof -
    have w: "writes ?h u = (if u = t then op_writes op else writes h u)" "uses ?h u = (if u = t then op_vars op \<union> set K else uses h u)" for u
      by (auto simp: writes_def uses_def)
    show ?thesis using inv_parts(3) [OF inv] m(1,3) unfolding exclusive_def w apart_def by auto
  qed
  ultimately show ?thesis using m(1) by (simp add: rc_inv_def del: call_fields)
qed

lemma rc_inv_start: "rc_inv no_debt ref_start"
  by (auto simp: rc_inv_def heap_ok_def ref_start_def thread_ok_def exclusive_def writes_def uses_def)

lemma rc_step_inv:
  assumes "rc_step h r" and "rc_inv no_debt h"
  shows "\<exists>h'. r = Inr h' \<and> rc_inv no_debt h'"
  using assms
proof (induction rule: rc_step.induct)
  case (rc_new h n)
  then show ?case using new_inv by blast
next
  case (rc_give_up o' h t)
  then show ?case using give_up_inv by blast
next
  case (rc_default h n)
  then show ?case using default_inv by blast
next
  case (rc_from_raw h n K p)
  then show ?case using from_raw_inv by blast
next
  case (rc_copy h n t K rhs)
  have "calls h t = calls (construct_default (Local n) h) t" by (simp add: construct_default_def)
  then show ?case using begin_inv [OF default_inv [OF rc_copy.prems rc_copy.hyps(1)] rc_copy.hyps(2), of Released]
    by (simp add: construct_copy_def) (simp add: construct_default_def)
next
  case (rc_move h n t K rhs)
  have "calls h t = calls (construct_default (Local n) h) t" by (simp add: construct_default_def)
  then show ?case using begin_inv [OF default_inv [OF rc_move.prems rc_move.hyps(1)] rc_move.hyps(2), of Released]
    by (simp add: construct_move_def) (simp add: construct_default_def)
next
  case (rc_destroy h t K v)
  then show ?case using begin_inv [of h t K _ Releasing] by (simp add: destroy_def)
next
  case (rc_assign h t K v rhs)
  then have "ptr h v \<noteq> None" "ptr h rhs \<noteq> None" by (auto simp: may_begin_def sound_op_def held_def)
  then show ?case using begin_inv [OF rc_assign.prems rc_assign.hyps, of Releasing] rc_assign.prems
    by (auto simp: assign_def read_ptr_def)
next
  case (rc_assign_move h t K v rhs)
  then show ?case using begin_inv [of h t K _ Releasing] by (simp add: assign_move_def)
next
  case (rc_go_on t h r)
  then show ?case using go_on_inv by blast
qed

lemma rc_reachable_inv: "rc_reachable h \<Longrightarrow> rc_inv no_debt h"
proof (induction rule: rc_reachable.induct)
  case rc_init
  show ?case by (rule rc_inv_start)
next
  case (rc_next h h')
  then show ?case using rc_step_inv [of h "Inr h'"] by blast
qed


section \<open>Operations run to their end\<close>

text \<open>At most \<open>n\<close> further steps of a thread that is in a call.\<close>

fun run_calls :: "nat \<Rightarrow> nat \<Rightarrow> ref_heap \<Rightarrow> ref_heap res" where
  "run_calls 0 t h = Inr h"
| "run_calls (Suc n) t h = (case go_on t h of None \<Rightarrow> Inr h | Some r \<Rightarrow> and_then r (run_calls n t))"

text \<open>Every step destroys a pointer, frees an object, begins to delete one or brings the innermost call further.\<close>

definition rank :: "nat \<Rightarrow> ref_heap \<Rightarrow> nat" where
  "rank t h = (if calls h t = [] then 0 else case at_stage h t of Releasing \<Rightarrow> 3 | Clearing \<Rightarrow> 2 | Released \<Rightarrow> 1)"

definition undoomed :: "ref_heap \<Rightarrow> nat set" where
  "undoomed h = {x. alive h x \<and> \<not> doomed h x}"

definition work :: "nat \<Rightarrow> ref_heap \<Rightarrow> nat" where
  "work t h = 4 * (card (dom (ptr h)) + card (Collect (alive h)) + card (undoomed h)) + rank t h"

definition forward :: "nat \<Rightarrow> ref_heap \<Rightarrow> ref_heap \<Rightarrow> bool" where
  "forward t h h' \<longleftrightarrow> dom (ptr h') \<subseteq> dom (ptr h) \<and> Collect (alive h') \<subseteq> Collect (alive h) \<and> undoomed h' \<subseteq> undoomed h \<and>
    (rank t h' < rank t h \<or> dom (ptr h') \<noteq> dom (ptr h) \<or> Collect (alive h') \<noteq> Collect (alive h) \<or> undoomed h' \<noteq> undoomed h)"

lemma work_less:
  assumes "heap_ok d h" and "forward t h h'"
  shows "work t h' < work t h"
proof -
  have "Collect (alive h) \<subseteq> {..<fresh_object h}" using heap_okD(2) [OF assms(1)] by blast
  then have fin: "finite (Collect (alive h))" by (rule finite_subset) simp
  have fin_u: "finite (undoomed h)" unfolding undoomed_def by (rule finite_subset [OF _ fin]) auto
  note sub = assms(2) [unfolded forward_def] and fin = fin fin_u heap_okD(1) [OF assms(1)]
  have le: "card (dom (ptr h')) \<le> card (dom (ptr h))" "card (Collect (alive h')) \<le> card (Collect (alive h))"
    "card (undoomed h') \<le> card (undoomed h)"
    using fin sub by (simp_all add: card_mono)
  have "rank t h' \<le> 3" by (simp add: rank_def split: stage.split)
  moreover have "rank t h' < rank t h \<or> card (dom (ptr h')) < card (dom (ptr h)) \<or>
      card (Collect (alive h')) < card (Collect (alive h)) \<or> card (undoomed h') < card (undoomed h)"
    using sub fin by (metis psubset_card_mono psubsetI)
  ultimately show ?thesis using le unfolding work_def by presburger
qed

lemma doomed_kept:
  assumes "calls h' = (calls h)(t := fs)" and "set (deleted_by (calls h t)) \<subseteq> insert y (set (deleted_by fs))" and "doomed h x" and "x \<noteq> y"
  shows "doomed h' x"
  using assms unfolding doomed_def by (metis fun_upd_apply insertE subsetD)

lemma undoomed_less:
  assumes "calls h' = (calls h)(t := fs)" and "set (deleted_by (calls h t)) \<subseteq> set (deleted_by fs)" and "alive h' = alive h"
  shows "undoomed h' \<subseteq> undoomed h"
proof -
  have "doomed h' x" if "doomed h x" for x using that assms(1,2) unfolding doomed_def by (metis fun_upd_apply subsetD)
  then show ?thesis using assms(3) by (auto simp: undoomed_def)
qed

lemma Release_begin_forward:
  assumes inv: "rc_inv no_debt h" and top: "calls h t = f # rest" "frame_target f = Some v" and Releasing: "at_stage h t = Releasing"
    and go: "Release_begin t v h = Inr h'"
  shows "forward t h h'"
proof -
  have c: "dom (ptr h') = dom (ptr h)" "alive h' = alive h" and
    d: "calls h' = (calls h)(t := f # rest) \<and> rank t h' < rank t h \<or>
      (\<exists>o' n. ptr h v = Some (Some o') \<and> calls h' = (calls h)(t := In_Delete o' n # f # rest))"
    using go Releasing top by (auto simp: Release_begin_def ReleaseRef_def read_ptr_def Let_def rank_def split: option.splits if_splits)
  from d show ?thesis
  proof (elim disjE exE conjE)
    assume "calls h' = (calls h)(t := f # rest)" "rank t h' < rank t h"
    then show ?thesis using undoomed_less [of h' h t "f # rest"] c by (simp add: forward_def top)
  next
    fix o' n assume o': "ptr h v = Some (Some o')" and h': "calls h' = (calls h)(t := In_Delete o' n # f # rest)"
    have "undoomed h' \<subseteq> undoomed h" using c(2) by (rule undoomed_less [OF h', rotated]) (auto simp: top)
    moreover have "o' \<in> undoomed h" using heap_okD(4) [OF inv_parts(1) [OF inv] o'] stale_top(2) [OF inv top] Releasing by (simp add: undoomed_def)
    moreover have "o' \<in> set (deleted_by (calls h' t))" by (simp add: h')
    then have "o' \<notin> undoomed h'" unfolding undoomed_def doomed_def by blast
    ultimately show ?thesis unfolding forward_def c by (metis order_refl)
  qed
qed

lemma Release_end_forward:
  assumes v: "ptr h v \<noteq> None" and top: "calls h t = f # rest" and Clearing: "at_stage h t = Clearing"
    and go: "Release_end t v h = Inr h'"
  shows "forward t h h'"
proof -
  have "dom (ptr h') = dom (ptr h)" "alive h' = alive h" "calls h' = (calls h)(t := f # rest)" "rank t h' < rank t h"
    using go Clearing top v by (auto simp: Release_end_def write_ptr_def rank_def split: option.splits if_splits)
  then show ?thesis using undoomed_less [of h' h t "f # rest"] by (simp add: forward_def top)
qed

lemma after_release_forward:
  assumes v: "ptr h v \<noteq> None" and top: "calls h t = f # rest" "frame_target f = Some v" and Released: "at_stage h t = Released"
    and op: "\<And>op K. f = In_Op op K \<Longrightarrow> rest = []" and r: "after_release t f rest h = Inr h'"
  shows "forward t h h'"
  using top(2)
proof (cases rule: target_cases)
  case (1 o1 K)
  then have none: "rest = []" using op by blast
  have "dom (ptr h') \<subseteq> dom (ptr h) \<and> alive h' = alive h \<and> calls h' = (calls h)(t := [])"
    using r 1 none v by (cases o1) (auto simp: read_ptr_def write_ptr_def Set_ptr_def AddRef_def split: option.splits if_splits)
  then show ?thesis using undoomed_less [of h' h t "[]"] 1 none Released by (auto simp: forward_def top rank_def)
next
  case (2 o' m)
  then have "ptr h' = (ptr h)(v := None)" "alive h' = alive h" "calls h' = (calls h)(t := In_Delete o' m # rest)"
    using r by auto
  moreover have "v \<in> dom (ptr h)" using v by blast
  ultimately show ?thesis using undoomed_less [of h' h t "In_Delete o' m # rest"] 2 by (auto simp: forward_def top)
qed

lemma free_object_forward:
  assumes None: "frame_target f = None" and top: "calls h t = f # rest" and go: "go_on t h = Some (Inr h')"
  shows "forward t h h'"
proof -
  obtain o' where f: "f = In_Delete o' 0" using None by (cases f rule: frame_target.cases) auto
  have h': "alive h o'" "calls h' = (calls h)(t := rest)" "alive h' = (alive h)(o' := False)" "ptr h' = ptr h"
    using go by (auto simp: go_on_def top f free_object_def split: if_splits)
  have "undoomed h' \<subseteq> undoomed h" using doomed_kept [OF h'(2), of o'] h'(3) by (auto simp: undoomed_def top f)
  moreover have al: "Collect (alive h') = Collect (alive h) - {o'}" "o' \<in> Collect (alive h)" unfolding h'(3) using h'(1) by (auto split: if_splits)
  then have "Collect (alive h') \<subseteq> Collect (alive h)" "Collect (alive h') \<noteq> Collect (alive h)" by blast+
  ultimately show ?thesis using h'(4) by (simp only: forward_def subset_refl simp_thms)
qed

lemma go_on_works:
  assumes inv: "rc_inv no_debt h" and go: "go_on t h = Some (Inr h')"
  shows "work t h' < work t h"
proof (rule work_less [OF inv_parts(1) [OF inv]])
  obtain f rest where top: "calls h t = f # rest" using go by (auto simp: go_on_def split: list.splits)
  have "shape (f # rest)" using inv_parts(4) [OF inv, of t] top by simp
  then have op: "rest = []" if "f = In_Op op K" for op K using that by simp
  show "forward t h h'"
  proof (cases "frame_target f")
    case None
    then show ?thesis using top go by (rule free_object_forward)
  next
    case (Some v)
    have v: "ptr h v \<noteq> None" using target_exists(1) [OF inv, of f t v] top Some by simp
    show ?thesis
    proof (cases "at_stage h t")
      case Releasing
      then show ?thesis using go by (intro Release_begin_forward [OF inv top Some]) (simp_all add: go_on_def top Some)
    next
      case Clearing
      then show ?thesis using go by (intro Release_end_forward [OF v top]) (simp_all add: go_on_def top Some)
    next
      case Released
      then show ?thesis using go op by (intro after_release_forward [OF v top Some]) (simp_all add: go_on_def top Some)
    qed
  qed
qed

lemma run_calls_ends: "rc_inv no_debt h \<Longrightarrow> \<exists>n h'. run_calls n t h = Inr h' \<and> calls h' t = []"
proof (induction "work t h" arbitrary: h rule: less_induct)
  case less
  show ?case
  proof (cases "go_on t h")
    case None
    then have "calls h t = []" by (simp add: go_on_def split: list.splits)
    then have "run_calls 0 t h = Inr h \<and> calls h t = []" by simp
    then show ?thesis by blast
  next
    case (Some r)
    then obtain h1 where h1: "r = Inr h1" "rc_inv no_debt h1" using go_on_inv [OF less.prems] by blast
    then obtain n h' where "run_calls n t h1 = Inr h'" "calls h' t = []"
      using less.hyps [of h1] go_on_works [OF less.prems] Some by blast
    then have "run_calls (Suc n) t h = Inr h' \<and> calls h' t = []" using Some h1(1) by simp
    then show ?thesis by blast
  qed
qed

section \<open>An object lives as long as it is referred to\<close>

lemma referred_to:
  assumes "rc_inv no_debt h"
  shows "alive h o' \<and> \<not> doomed h o' \<longleftrightarrow> holders h o' \<noteq> {} \<or> o' \<in> raw h"
    and "alive h o' \<Longrightarrow> \<not> doomed h o' \<Longrightarrow> refCount h o' = int (card (holders h o')) + (if o' \<in> raw h then 1 else 0)"
proof -
  note ok = heap_okD [OF inv_parts(1) [OF assms]]
  have "references h o' \<noteq> 0 \<Longrightarrow> holders h o' \<noteq> {} \<or> o' \<in> raw h" by (auto simp: references_def split: if_splits)
  then show "alive h o' \<and> \<not> doomed h o' \<longleftrightarrow> holders h o' \<noteq> {} \<or> o' \<in> raw h"
    using ok(4) [of _ o'] ok(5,6) [of o'] by (fastforce simp: holders_def)
  show "alive h o' \<Longrightarrow> \<not> doomed h o' \<Longrightarrow> refCount h o' = int (card (holders h o')) + (if o' \<in> raw h then 1 else 0)"
    using ok(6) [of o'] by (simp add: references_def)
qed

lemma idle_heap:
  assumes "\<And>t. calls h t = []"
  shows "\<not> stale h v" and "\<not> doomed h o'" and "holders h o' = {v. ptr h v = Some (Some o')}"
  using assms by (auto simp: stale_def doomed_def holders_def)

text \<open>
  C33: C33. Whatever the threads do in whatever order, with an object's own pointers used only while the object is kept by a
  pointer that the operation does not write, and a variable by one thread at a time: no step touches a deleted object or
  a destroyed pointer. An object is alive and not being deleted exactly while its creator or a pointer refers to it, and
  then its count is the number of these references. A freed object has no pointer left. Every operation, with all the
  deletions it causes, comes to its end when its thread goes on. When no call is under way, an object is alive exactly
  when it is referred to.
\<close>
theorem deleted_with_last_reference:
  assumes "rc_reachable h" and "rc_step h r"
  shows "(\<exists>h'. r = Inr h') \<and>
    (alive h o' \<and> \<not> doomed h o' \<longleftrightarrow> holders h o' \<noteq> {} \<or> o' \<in> raw h) \<and>
    (alive h o' \<and> \<not> doomed h o' \<longrightarrow> refCount h o' = int (card (holders h o')) + (if o' \<in> raw h then 1 else 0)) \<and>
    (\<not> alive h o' \<longrightarrow> ptr h (Member o' i) = None) \<and>
    (\<exists>n h'. run_calls n t h = Inr h' \<and> calls h' t = []) \<and>
    ((\<forall>t. calls h t = []) \<longrightarrow> (alive h o' \<longleftrightarrow> (\<exists>v. ptr h v = Some (Some o')) \<or> o' \<in> raw h))"
proof -
  note h = rc_reachable_inv [OF assms(1)]
  have "alive h o' \<longleftrightarrow> (\<exists>v. ptr h v = Some (Some o')) \<or> o' \<in> raw h" if "\<forall>t. calls h t = []"
    using referred_to(1) [OF h, of o'] idle_heap(2,3) [of h] that by auto
  then show ?thesis
    using referred_to [OF h, of o'] rc_step_inv [OF assms(2) h] heap_okD(7) [OF inv_parts(1) [OF h], of o' i] run_calls_ends [OF h, of t]
    by blast
qed

text \<open>One object with one pointer, made and handed to a variable.\<close>

definition one_object :: ref_heap where
  "one_object = snd (RefCountable 1 ref_start)"

lemma one_object_run: "rc_reachable one_object" "rc_step one_object (construct_from (Local 5) (Some 0) one_object)"
proof -
  show "rc_reachable one_object" unfolding one_object_def by (rule rc_next [OF rc_init rc_new])
  show "rc_step one_object (construct_from (Local 5) (Some 0) one_object)"
    by (rule rc_from_raw [of _ _ "[]"]) (simp_all add: one_object_def RefCountable_def ref_start_def Let_def kept_raw_def)
qed

theorem deleted_with_last_reference_witness:
  "(\<exists>h'. construct_from (Local 5) (Some 0) one_object = Inr h') \<and> alive one_object 0"
  using deleted_with_last_reference [OF one_object_run, of 0]
  by (simp add: one_object_def RefCountable_def ref_start_def Let_def holders_def)

text \<open>
  The discipline is needed. The copy assignment reads its source after it has released its target, so \<open>v = v->next\<close> reads the
  pointer of an object that is deleted, when \<open>v\<close> holds the last reference to it.
\<close>
theorem next_read_after_free:
  "\<exists>h h1. rc_reachable h \<and> ptr h (Local 5) = Some (Some 0) \<and> ptr h (Member 0 0) = Some None \<and>
     assign 0 (Local 5) (Member 0 0) [] h = Inr h1 \<and> run_calls 6 0 h1 = Inl UseAfterFree"
proof -
  define h1 where "h1 = one_object\<lparr>ptr := (ptr one_object)(Local 5 \<mapsto> Some 0), refCount := (refCount one_object)(0 := 2)\<rparr>"
  define h2 where "h2 = h1\<lparr>raw := {}, refCount := (refCount h1)(0 := 1)\<rparr>"
  note defs = one_object_def RefCountable_def ref_start_def Let_def
  have "construct_from (Local 5) (Some 0) one_object = Inr h1"
    by (simp add: construct_from_def construct_default_def Set_ptr_def write_ptr_def AddRef_def h1_def defs)
  then have "rc_reachable h1" using rc_next [OF one_object_run(1)] one_object_run(2) by metis
  moreover have "rc_step h1 (ReleaseRef 0 0 (h1\<lparr>raw := raw h1 - {0}\<rparr>))"
    by (rule rc_give_up) (simp_all add: h1_def defs)
  moreover have "ReleaseRef 0 0 (h1\<lparr>raw := raw h1 - {0}\<rparr>) = Inr h2" by (simp add: ReleaseRef_def h2_def h1_def defs)
  ultimately have "rc_reachable h2" using rc_next by metis
  moreover have f: "ptr h2 (Local 5) = Some (Some 0)" "ptr h2 (Member 0 0) = Some None" "calls h2 0 = []" "refCount h2 0 = 1"
    "alive h2 0" "members h2 0 = 1"
    by (simp_all add: h2_def h1_def defs)
  moreover have "assign 0 (Local 5) (Member 0 0) [] h2 = Inr (call 0 Releasing [In_Op (Assign (Local 5) (Member 0 0)) []] h2)"
    using f by (simp add: assign_def read_ptr_def)
  moreover have "run_calls 6 0 (call 0 Releasing [In_Op (Assign (Local 5) (Member 0 0)) []] h2) = Inl UseAfterFree"
    using f by (simp add: eval_nat_numeral go_on_def Release_begin_def Release_end_def read_ptr_def write_ptr_def ReleaseRef_def free_object_def Let_def)
  ultimately show ?thesis by blast
qed

text \<open>
  A pointer assigned to itself by move is lost: the assignment releases before it reads its source. The assignment by copy
  compares the pointers first.
\<close>
theorem self_move_loses:
  assumes "calls h t = []" and "ptr h v = Some (Some o')" and "alive h o'" and "refCount h o' \<noteq> 1"
  shows "\<exists>h'. run_calls 3 t (assign_move t v v K h) = Inr h' \<and> calls h' t = [] \<and> ptr h' v = Some None \<and>
    refCount h' o' = refCount h o' - 1 \<and> assign t v v K h = Inr h"
  using assms by (simp add: eval_nat_numeral go_on_def Release_begin_def Release_end_def read_ptr_def write_ptr_def ReleaseRef_def Let_def
      assign_move_def assign_def)

section \<open>Reading and comparing pointers\<close>

definition value_of :: "var \<Rightarrow> ref_heap \<Rightarrow> nat option" where
  "value_of v h = (case ptr h v of None \<Rightarrow> None | Some p \<Rightarrow> p)"

definition GetRefCount :: "nat \<Rightarrow> ref_heap \<Rightarrow> int32 res" where
  "GetRefCount o' h = (if alive h o' then Inr (refCount h o') else Inl UseAfterFree)"

definition ptr_eq :: "var \<Rightarrow> var \<Rightarrow> ref_heap \<Rightarrow> bool" where
  "ptr_eq v rhs h \<longleftrightarrow> value_of v h = value_of rhs h"

definition ptr_eq_raw :: "var \<Rightarrow> nat option \<Rightarrow> ref_heap \<Rightarrow> bool" where
  "ptr_eq_raw v p h \<longleftrightarrow> value_of v h = p"

definition ptr_ne :: "var \<Rightarrow> var \<Rightarrow> ref_heap \<Rightarrow> bool" where
  "ptr_ne v rhs h \<longleftrightarrow> value_of v h \<noteq> value_of rhs h"

definition ptr_ne_raw :: "var \<Rightarrow> nat option \<Rightarrow> ref_heap \<Rightarrow> bool" where
  "ptr_ne_raw v p h \<longleftrightarrow> value_of v h \<noteq> p"

definition IsNull :: "var \<Rightarrow> ref_heap \<Rightarrow> bool" where
  "IsNull v h \<longleftrightarrow> value_of v h = None"

text \<open>\<open>operator<\<close> compares addresses; the null pointer has address 0. \<open>operator->\<close> hands the pointer on, null included.\<close>

definition address_of :: "(nat \<Rightarrow> nat) \<Rightarrow> nat option \<Rightarrow> nat" where
  "address_of addr p = (case p of None \<Rightarrow> 0 | Some o' \<Rightarrow> addr o')"

definition ptr_less :: "(nat \<Rightarrow> nat) \<Rightarrow> var \<Rightarrow> var \<Rightarrow> ref_heap \<Rightarrow> bool" where
  "ptr_less addr v rhs h \<longleftrightarrow> address_of addr (value_of v h) < address_of addr (value_of rhs h)"

definition arrow :: "var \<Rightarrow> ref_heap \<Rightarrow> nat res" where
  "arrow v h = (case value_of v h of None \<Rightarrow> Inl NullDeref | Some o' \<Rightarrow> if alive h o' then Inr o' else Inl UseAfterFree)"

lemma value_of_alive: "rc_inv d h \<Longrightarrow> value_of v h = Some o' \<Longrightarrow> \<not> stale h v \<Longrightarrow> alive h o' \<and> \<not> doomed h o'"
  using heap_okD(4) [OF inv_parts(1), of d h v o'] by (auto simp: value_of_def split: option.splits)

text \<open>
  A pointer that is not being released may be followed exactly when it is not null, in every run. The order of the pointers is total up to
  equality when live objects have different addresses other than 0, so a set of them finds each once.
\<close>
theorem pointers_usable:
  assumes "rc_reachable h" and "\<not> stale h v" and "\<not> stale h w"
  shows "(\<exists>o'. arrow v h = Inr o' \<and> GetRefCount o' h = Inr (references h o')) \<longleftrightarrow> \<not> IsNull v h"
    and "inj_on addr {o'. alive h o'} \<Longrightarrow> 0 \<notin> addr ` {o'. alive h o'} \<Longrightarrow>
      ptr_eq v w h \<longleftrightarrow> \<not> ptr_less addr v w h \<and> \<not> ptr_less addr w v h"
proof -
  note inv = rc_reachable_inv [OF assms(1)]
  note al = value_of_alive [OF inv]
  show "(\<exists>o'. arrow v h = Inr o' \<and> GetRefCount o' h = Inr (references h o')) \<longleftrightarrow> \<not> IsNull v h"
    using al [OF _ assms(2)] heap_okD(6) [OF inv_parts(1) [OF inv]]
    by (auto simp: arrow_def IsNull_def GetRefCount_def split: option.splits)
  assume inj: "inj_on addr {o'. alive h o'}" "0 \<notin> addr ` {o'. alive h o'}"
  have "address_of addr (value_of v h) = address_of addr (value_of w h) \<longleftrightarrow> value_of v h = value_of w h"
  proof (cases "value_of v h"; cases "value_of w h")
    fix a b assume ab: "value_of v h = Some a" "value_of w h = Some b"
    then show ?thesis using al assms(2,3) inj(1) by (auto simp: address_of_def inj_on_def)
  next
    fix a assume "value_of v h = None" "value_of w h = Some a"
    then show ?thesis using al [of w a] assms(3) inj(2) by (auto simp: address_of_def)
  next
    fix a assume "value_of v h = Some a" "value_of w h = None"
    then show ?thesis using al [of v a] assms(2) inj(2) by (auto simp: address_of_def)
  qed simp
  then show "ptr_eq v w h \<longleftrightarrow> \<not> ptr_less addr v w h \<and> \<not> ptr_less addr w v h"
    by (auto simp: ptr_eq_def ptr_less_def)
qed

end
