(* ===== verification/Lock_System.thy ===== *)
theory Lock_System
  imports Rw_Lock Deadlock_Profiler
begin

text \<open>
  All locks of the program together with the profiler, as a debug build runs them: \<open>ReadLockGuard\<close>
  and \<open>WriteLockGuard\<close> (\<open>ClientNetworkCore/Lock.h\<close>), the macros \<open>READ_LOCK\<close> and \<open>WRITE_LOCK\<close> that
  declare them (\<open>CoreMacro.h\<close>) and the calls of \<open>PushLock\<close> and \<open>PopLock\<close> at the start of the four
  operations of \<open>Lock.cpp\<close>. The macros name a lock by \<open>typeid(this).name()\<close>, so a lock is a class
  and a number within it, and the profiler only sees the class. An event is one atomic action of one
  thread: a call of the profiler, which runs under its mutex, or one access to one lock as in
  \<open>Rw_Lock\<close>. The theory projects the runs of the whole to runs of each lock, and proves what the
  profiler promises: as long as it has not crashed the program, threads that wait for each other in a
  circle all wait for locks of one class.
\<close>

section \<open>State\<close>

datatype lock_name = LockOf (lock_class: string) nat    \<comment> \<open>class of the object, which lock of that class\<close>

text \<open>Where a thread is: at large, between \<open>PushLock\<close> and the first access, in an operation of a
  lock, or between \<open>PopLock\<close> and the first access of the release.\<close>

datatype phase =
    Running
  | Pushed
  | Busy lock_name
  | Popped lock_name guard

record sync_state =
  prof :: profiler
  locks :: "lock_name \<Rightarrow> lock_state"
  guards :: "uint32 \<Rightarrow> (lock_name \<times> guard) list"    \<comment> \<open>guard objects by thread, innermost first\<close>
  phase :: "uint32 \<Rightarrow> phase"
  halted :: "fault option"

definition all_locks :: sync_state where
  "all_locks = \<lparr>prof = DeadLockProfiler, locks = (\<lambda>_. Lock), guards = (\<lambda>_. []), phase = (\<lambda>_. Running), halted = None\<rparr>"

definition put_lock :: "lock_name \<Rightarrow> lock_state \<Rightarrow> sync_state \<Rightarrow> sync_state" where
  "put_lock l ls s = s\<lparr>locks := (locks s)(l := ls), halted := crashed ls\<rparr>"

definition set_phase :: "uint32 \<Rightarrow> phase \<Rightarrow> sync_state \<Rightarrow> sync_state" where
  "set_phase t p s = s\<lparr>phase := (phase s)(t := p)\<rparr>"

section \<open>The guards\<close>

text \<open>The constructors: the profiler is called with the class of the lock, then the lock is taken.\<close>

definition construct_guard :: "uint32 \<Rightarrow> lock_name \<Rightarrow> guard \<Rightarrow> sync_state \<Rightarrow> sync_state" where
  "construct_guard t l g s =
     (case PushLock (unat t) (lock_class l) (prof s) of
        Some (Inr p) \<Rightarrow> set_phase t Pushed (s\<lparr>prof := p, guards := (guards s)(t := (l, g) # guards s t)\<rparr>)
      | Some (Inl e) \<Rightarrow> s\<lparr>halted := Some e\<rparr>
      | None \<Rightarrow> s)"

definition begin_lock :: "uint32 \<Rightarrow> sync_state \<Rightarrow> sync_state" where
  "begin_lock t s =
     (case guards s t of
        [] \<Rightarrow> s
      | (l, g) # _ \<Rightarrow>
          set_phase t (Busy l)
            (put_lock l (case g of W \<Rightarrow> WriteLock_enter t (locks s l) | R \<Rightarrow> ReadLock_enter t (locks s l)) s))"

text \<open>The accesses in the middle of an operation; the operation ends when the lock is done with the thread.\<close>

definition after_access :: "uint32 \<Rightarrow> lock_name \<Rightarrow> sync_state \<Rightarrow> sync_state" where
  "after_access t l s = set_phase t (if at (locks s l) t = Idle then Running else Busy l) s"

definition lock_access :: "uint32 \<Rightarrow> lock_name \<Rightarrow> sync_state \<Rightarrow> sync_state" where
  "lock_access t l s = after_access t l (put_lock l (lock_exec t A_go (locks s l)) s)"

definition lock_timeout :: "lock_name \<Rightarrow> sync_state \<Rightarrow> sync_state" where
  "lock_timeout l s = put_lock l (crash LockTimeout (locks s l)) s"

text \<open>The destructors: the innermost guard goes first.\<close>

definition destroy_guard :: "uint32 \<Rightarrow> sync_state \<Rightarrow> sync_state" where
  "destroy_guard t s =
     (case guards s t of
        [] \<Rightarrow> s
      | (l, g) # rest \<Rightarrow>
          (case PopLock (unat t) (lock_class l) (prof s) of
             Inr p \<Rightarrow> set_phase t (Popped l g) (s\<lparr>prof := p, guards := (guards s)(t := rest)\<rparr>)
           | Inl e \<Rightarrow> s\<lparr>halted := Some e\<rparr>))"

definition begin_unlock :: "uint32 \<Rightarrow> lock_name \<Rightarrow> guard \<Rightarrow> sync_state \<Rightarrow> sync_state" where
  "begin_unlock t l g s =
     after_access t l
       (put_lock l (case g of W \<Rightarrow> WriteUnlock_check t (locks s l) | R \<Rightarrow> ReadUnlock t (locks s l)) s)"

section \<open>Runs\<close>

datatype sync_event =
    Construct uint32 lock_name guard
  | Begin uint32
  | Access uint32
  | Timeout uint32
  | Destroy uint32
  | Release uint32

fun event_thread :: "sync_event \<Rightarrow> uint32" where
  "event_thread (Construct t _ _) = t"
| "event_thread (Begin t) = t"
| "event_thread (Access t) = t"
| "event_thread (Timeout t) = t"
| "event_thread (Destroy t) = t"
| "event_thread (Release t) = t"

definition spinning :: "pc \<Rightarrow> bool" where
  "spinning p \<longleftrightarrow> p = WSpin \<or> p = RSpin"

fun enabled :: "sync_event \<Rightarrow> sync_state \<Rightarrow> bool" where
  "enabled (Construct t l g) s \<longleftrightarrow> phase s t = Running"
| "enabled (Begin t) s \<longleftrightarrow> phase s t = Pushed"
| "enabled (Access t) s \<longleftrightarrow> (case phase s t of Busy l \<Rightarrow> True | _ \<Rightarrow> False)"
| "enabled (Timeout t) s \<longleftrightarrow> (case phase s t of Busy l \<Rightarrow> spinning (at (locks s l) t) | _ \<Rightarrow> False)"
| "enabled (Destroy t) s \<longleftrightarrow> phase s t = Running \<and> guards s t \<noteq> []"
| "enabled (Release t) s \<longleftrightarrow> (case phase s t of Popped l g \<Rightarrow> True | _ \<Rightarrow> False)"

fun sync_exec :: "sync_event \<Rightarrow> sync_state \<Rightarrow> sync_state" where
  "sync_exec (Construct t l g) s = construct_guard t l g s"
| "sync_exec (Begin t) s = begin_lock t s"
| "sync_exec (Access t) s = (case phase s t of Busy l \<Rightarrow> lock_access t l s | _ \<Rightarrow> s)"
| "sync_exec (Timeout t) s = (case phase s t of Busy l \<Rightarrow> lock_timeout l s | _ \<Rightarrow> s)"
| "sync_exec (Destroy t) s = destroy_guard t s"
| "sync_exec (Release t) s = (case phase s t of Popped l g \<Rightarrow> begin_unlock t l g s | _ \<Rightarrow> s)"

definition guards_fit :: "uint32 set \<Rightarrow> sync_state \<Rightarrow> bool" where
  "guards_fit T s \<longleftrightarrow> (\<forall>l. live_guards T (locks s l) \<le> 0xFFFF)"

inductive sync_reachable :: "uint32 set \<Rightarrow> sync_state \<Rightarrow> bool" for T where
  sync_init: "sync_reachable T all_locks"
| sync_next: "sync_reachable T s \<Longrightarrow> halted s = None \<Longrightarrow> event_thread e \<in> T \<Longrightarrow> enabled e s \<Longrightarrow>
    guards_fit T (sync_exec e s) \<Longrightarrow> sync_reachable T (sync_exec e s)"

section \<open>Waiting\<close>

text \<open>The lock a thread waits for, and the threads whose guards it waits for.\<close>

fun wanted :: "pc \<Rightarrow> guard option" where
  "wanted WSpin = Some W"
| "wanted RSpin = Some R"
| "wanted (RLoaded e) = Some R"
| "wanted _ = None"

definition awaited :: "sync_state \<Rightarrow> uint32 \<Rightarrow> (lock_name \<times> guard) option" where
  "awaited s t =
     (case phase s t of Busy l \<Rightarrow> map_option (Pair l) (wanted (at (locks s l) t)) | _ \<Rightarrow> None)"

definition obstructs :: "guard \<Rightarrow> guard list \<Rightarrow> bool" where
  "obstructs g gs \<longleftrightarrow> (case g of W \<Rightarrow> gs \<noteq> [] | R \<Rightarrow> W \<in> set gs)"

definition waits_for :: "sync_state \<Rightarrow> (uint32 \<times> uint32) set" where
  "waits_for s = {(t, u). \<exists>l g. awaited s t = Some (l, g) \<and> obstructs g (held (locks s l) u)}"

lemma same_thread [simp]: "unat (u :: uint32) = unat t \<longleftrightarrow> u = t"
  by (simp add: word_unat_eq_iff)

section \<open>What one access does to the threads\<close>

lemmas access_defs = WriteLock_enter_def WriteLock_reenter_def WriteLock_exchange_def WriteLock_count_def
  WriteUnlock_check_def WriteUnlock_decrement_def WriteUnlock_store_def ReadLock_enter_def
  ReadLock_reenter_def ReadLock_load_def ReadLock_exchange_def ReadUnlock_def Let_def

text \<open>An access leaves the other threads alone.\<close>

definition same_for :: "uint32 \<Rightarrow> lock_state \<Rightarrow> lock_state \<Rightarrow> bool" where
  "same_for u s s' \<longleftrightarrow> at s' u = at s u \<and> held s' u = held s u"

lemma other_unchanged:
  assumes "u \<noteq> t"
  shows "same_for u s (WriteLock_enter t s)" "same_for u s (ReadLock_enter t s)"
    "same_for u s (WriteUnlock_check t s)" "same_for u s (ReadUnlock t s)"
    "same_for u s (lock_exec t A_go s)"
  using assms by (simp_all add: same_for_def access_defs lock_exec.simps split: pc.splits)

text \<open>The guard an operation is about to take, and whether it is about to give one back.\<close>

fun acquiring :: "pc \<Rightarrow> guard option" where
  "acquiring WReenter = Some W"
| "acquiring WSpin = Some W"
| "acquiring RReenter = Some R"
| "acquiring RSpin = Some R"
| "acquiring (RLoaded e) = Some R"
| "acquiring _ = None"

definition releasing :: "pc \<Rightarrow> bool" where
  "releasing p \<longleftrightarrow> p = UDec \<or> p = UStore"

lemma wanted_acquiring: "wanted p = Some g \<Longrightarrow> acquiring p = Some g"
  by (cases p) simp_all

text \<open>One access of an operation that is under way: the operation goes on, or it ends and the guard is
  taken or given back.\<close>

lemma acquiring_access:
  assumes "acquiring (at s t) = Some g" and "crashed s = None"
  shows "acquiring (at (lock_exec t A_go s) t) = Some g \<and> held (lock_exec t A_go s) t = held s t \<or>
    at (lock_exec t A_go s) t \<in> {Idle, WTaken} \<and> held (lock_exec t A_go s) t = g # held s t"
  using assms by (cases "at s t") (auto simp: lock_exec.simps access_defs)

lemma taken_access:
  "at s t = WTaken \<Longrightarrow> crashed s = None \<Longrightarrow>
   at (lock_exec t A_go s) t = Idle \<and> held (lock_exec t A_go s) t = held s t"
  by (simp add: lock_exec.simps access_defs)

lemma releasing_access:
  assumes "releasing (at s t)" and "crashed s = None"
  shows "releasing (at (lock_exec t A_go s) t) \<and> held (lock_exec t A_go s) t = held s t \<or>
    at (lock_exec t A_go s) t = Idle \<and> held (lock_exec t A_go s) t = tl (held s t)"
  using assms by (auto simp: releasing_def lock_exec.simps access_defs split: if_splits)

lemma pc_kinds: "acquiring p \<noteq> None \<or> releasing p \<or> p = WTaken \<or> p = Idle"
  by (cases p) (simp_all add: releasing_def)

lemma enter_access:
  "at (WriteLock_enter t s) t \<in> {WReenter, WSpin}" "held (WriteLock_enter t s) t = held s t"
  "at (ReadLock_enter t s) t \<in> {RReenter, RSpin}" "held (ReadLock_enter t s) t = held s t"
  by (simp_all add: access_defs)

lemma unlock_access:
  "crashed (WriteUnlock_check t s) = None \<Longrightarrow>
    at (WriteUnlock_check t s) t = UDec \<and> held (WriteUnlock_check t s) t = held s t"
  "crashed (ReadUnlock t s) = None \<Longrightarrow>
    at (ReadUnlock t s) t = at s t \<and> held (ReadUnlock t s) t = tl (held s t)"
  by (auto simp: access_defs split: if_splits)

section \<open>Invariant\<close>

text \<open>The guards of a thread that are held, in the order of their construction.\<close>

definition on :: "lock_name \<Rightarrow> (lock_name \<times> guard) list \<Rightarrow> guard list" where
  "on l gs = map snd (filter (\<lambda>x. fst x = l) gs)"

lemma on_simps [simp]: "on l [] = []" "on l ((m, g) # gs) = (if m = l then g # on l gs else on l gs)"
  by (simp_all add: on_def)

definition live :: "sync_state \<Rightarrow> uint32 \<Rightarrow> (lock_name \<times> guard) list" where
  "live s t =
     (case phase s t of
        Running \<Rightarrow> guards s t
      | Pushed \<Rightarrow> tl (guards s t)
      | Busy l \<Rightarrow>
          (if acquiring (at (locks s l) t) \<noteq> None then tl (guards s t)
           else if releasing (at (locks s l) t) then (l, W) # guards s t
           else guards s t)
      | Popped l g \<Rightarrow> (l, g) # guards s t)"

definition phase_ok :: "sync_state \<Rightarrow> uint32 \<Rightarrow> bool" where
  "phase_ok s t \<longleftrightarrow>
     (case phase s t of
        Pushed \<Rightarrow> guards s t \<noteq> []
      | Busy l \<Rightarrow> at (locks s l) t \<noteq> Idle \<and>
          (\<forall>g. acquiring (at (locks s l) t) = Some g \<longrightarrow> (\<exists>rest. guards s t = (l, g) # rest))
      | _ \<Rightarrow> True)"

definition thread_ok :: "sync_state \<Rightarrow> uint32 \<Rightarrow> bool" where
  "thread_ok s t \<longleftrightarrow>
     (\<forall>m. held (locks s m) t = on m (live s t)) \<and>
     (\<forall>m. phase s t \<noteq> Busy m \<longrightarrow> at (locks s m) t = Idle) \<and> phase_ok s t"

lemma thread_ok_same:
  assumes "\<forall>m. same_for u (locks s m) (locks s' m)" and "guards s' u = guards s u" and "phase s' u = phase s u"
  shows "thread_ok s' u = thread_ok s u"
  using assms unfolding thread_ok_def live_def phase_ok_def same_for_def by (simp split: phase.split)

lemma same_for_put: "same_for u (locks s l) ls \<Longrightarrow> same_for u (locks s m) (((locks s)(l := ls)) m)"
  by (simp add: same_for_def)

text \<open>The stack the profiler keeps for a thread lists the classes of its guards, and every lock of it
  is recorded as taken after the one below.\<close>

definition stack_ok :: "sync_state \<Rightarrow> uint32 \<Rightarrow> bool" where
  "stack_ok s t \<longleftrightarrow>
     list_all2 (\<lambda>x i. find_id (lock_class (fst x)) (nameToId (prof s)) = Some i) (guards s t) (lockStack (prof s) (unat t))"

fun recorded :: "(nat \<times> nat) set \<Rightarrow> nat list \<Rightarrow> bool" where
  "recorded E (i # prev # rest) \<longleftrightarrow> (i = prev \<or> (prev, i) \<in> E) \<and> recorded E (prev # rest)"
| "recorded E _ \<longleftrightarrow> True"

definition sync_inv :: "uint32 set \<Rightarrow> sync_state \<Rightarrow> bool" where
  "sync_inv T s \<longleftrightarrow>
     profiler_inv (prof s) \<and> (\<forall>l. lock_reachable T (locks s l)) \<and>
     (halted s = None \<longrightarrow> (\<forall>l. crashed (locks s l) = None) \<and>
       (\<forall>t. thread_ok s t \<and> stack_ok s t \<and>
         recorded (edges (lockHistory (prof s))) (lockStack (prof s) (unat t))))"

lemma recorded_mono: "recorded E xs \<Longrightarrow> E \<subseteq> F \<Longrightarrow> recorded F xs"
  by (induction E xs rule: recorded.induct) auto

lemma recorded_tail: "recorded E (x # xs) \<Longrightarrow> recorded E xs"
  by (cases xs) simp_all

lemma recorded_reaches: "recorded E (i # xs) \<Longrightarrow> j \<in> set (i # xs) \<Longrightarrow> (j, i) \<in> E\<^sup>*"
proof (induction xs arbitrary: i)
  case (Cons x xs)
  show ?case
  proof (cases "j = i")
    case False
    then have "(j, x) \<in> E\<^sup>*" using Cons.IH [of x] Cons.prems by simp
    then show ?thesis using Cons.prems(1) by (auto intro: rtrancl_into_rtrancl)
  qed simp
qed simp

text \<open>A call of \<open>PushLock\<close> that returns has put the class on the stack and recorded the order.\<close>

lemma PushLock_success:
  assumes inv: "profiler_inv p" and push: "PushLock t name p = Some (Inr p')"
  shows "profiler_inv p'" and "\<And>n j. find_id n (nameToId p) = Some j \<Longrightarrow> find_id n (nameToId p') = Some j"
    and "edges (lockHistory p) \<subseteq> edges (lockHistory p')"
    and "\<exists>i. find_id name (nameToId p') = Some i \<and> lockStack p' = (lockStack p)(t := i # lockStack p t) \<and>
      (recorded (edges (lockHistory p)) (lockStack p t) \<longrightarrow> recorded (edges (lockHistory p')) (i # lockStack p t))"
proof -
  obtain i p1 where l: "lock_id name p = (i, p1)" by fastforce
  note q = lock_id_props [OF inv l]
  have names: "find_id n (nameToId p1) = Some j" if "find_id n (nameToId p) = Some j" for n j
    using l that by (auto simp: lock_id_def find_id_append split: option.splits)
  show "profiler_inv p'" using PushLock_cases [OF inv, of t name] push by auto
  have "p' = push_stack t i p1 \<and> (case lockStack p t of [] \<Rightarrow> True | prev # _ \<Rightarrow> i = prev \<or> (prev, i) \<in> edges (lockHistory p)) \<or>
    (\<exists>prev rest. lockStack p t = prev # rest \<and> p' = push_stack t i (add_edge prev i p1))"
    using push l q(4,5) unfolding PushLock_def Let_def
    by (auto simp: edges_def split: list.splits if_splits option.splits sum.splits)
  then have res: "nameToId p' = nameToId p1 \<and> lockStack p' = (lockStack p)(t := i # lockStack p t) \<and>
      edges (lockHistory p) \<subseteq> edges (lockHistory p') \<and>
      (case lockStack p t of [] \<Rightarrow> True | prev # _ \<Rightarrow> i = prev \<or> (prev, i) \<in> edges (lockHistory p'))"
  proof (elim disjE exE conjE)
    fix prev rest
    assume a: "lockStack p t = prev # rest" "p' = push_stack t i (add_edge prev i p1)"
    have "edges (lockHistory p') = insert (prev, i) (edges (lockHistory p))"
      using a(2) q(4) edges_add_edge [of prev i p1] by (simp add: push_stack_def)
    then show ?thesis using a q(5) by (auto simp: push_stack_def add_edge_def)
  qed (use q(4,5) in \<open>auto simp: push_stack_def split: list.splits\<close>)
  then show "\<And>n j. find_id n (nameToId p) = Some j \<Longrightarrow> find_id n (nameToId p') = Some j"
    and "edges (lockHistory p) \<subseteq> edges (lockHistory p')" using names by simp_all
  have "recorded (edges (lockHistory p')) (i # lockStack p t)" if "recorded (edges (lockHistory p)) (lockStack p t)"
    using res recorded_mono [OF that] by (cases "lockStack p t") auto
  then show "\<exists>i. find_id name (nameToId p') = Some i \<and> lockStack p' = (lockStack p)(t := i # lockStack p t) \<and>
      (recorded (edges (lockHistory p)) (lockStack p t) \<longrightarrow> recorded (edges (lockHistory p')) (i # lockStack p t))"
    using res q(3) by (intro exI [of _ i]) simp
qed

section \<open>Every event keeps the invariant\<close>

text \<open>An access of thread \<open>t\<close> to lock \<open>l\<close> that is a step of that lock.\<close>

lemma put_lock_inv:
  assumes inv: "sync_inv T s" and "halted s = None"
    and step: "ls = locks s l \<or> lock_step T (locks s l) ls" and fit: "live_guards T ls \<le> 0xFFFF"
    and others: "\<And>u. u \<noteq> t \<Longrightarrow> same_for u (locks s l) ls"
    and self: "crashed ls = None \<Longrightarrow> thread_ok (set_phase t p (put_lock l ls s)) t"
  shows "sync_inv T (set_phase t p (put_lock l ls s))"
proof -
  let ?s = "set_phase t p (put_lock l ls s)"
  have s: "profiler_inv (prof s)" "\<And>m. lock_reachable T (locks s m)" "\<And>m. crashed (locks s m) = None"
    "\<And>u. thread_ok s u \<and> stack_ok s u \<and> recorded (edges (lockHistory (prof s))) (lockStack (prof s) (unat u))"
    using inv assms(2) by (simp_all add: sync_inv_def)
  have "lock_reachable T ls" using step s(2,3) fit by (metis lock_next)
  moreover have "thread_ok ?s u" if "crashed ls = None" for u
  proof (cases "u = t")
    case False
    have "thread_ok ?s u = thread_ok s u"
      by (rule thread_ok_same)
        (use False others [OF False] in \<open>simp_all add: set_phase_def put_lock_def same_for_def\<close>)
    then show ?thesis using s(4) by simp
  qed (use self that in simp)
  ultimately show ?thesis
    using s unfolding sync_inv_def by (simp add: set_phase_def put_lock_def stack_ok_def)
qed

lemma begin_lock_inv:
  assumes inv: "sync_inv T s" and run: "halted s = None" and t: "t \<in> T" and ph: "phase s t = Pushed"
    and fit: "guards_fit T (begin_lock t s)"
  shows "sync_inv T (begin_lock t s)"
proof -
  have ok: "thread_ok s t" using inv run by (simp add: sync_inv_def)
  then have idle: "at (locks s m) t = Idle" for m using ph by (simp add: thread_ok_def)
  obtain l g rest where g: "guards s t = (l, g) # rest"
    using ok ph by (auto simp: thread_ok_def phase_ok_def neq_Nil_conv)
  let ?ls = "case g of W \<Rightarrow> WriteLock_enter t (locks s l) | R \<Rightarrow> ReadLock_enter t (locks s l)"
  have eq: "begin_lock t s = set_phase t (Busy l) (put_lock l ?ls s)" by (simp add: begin_lock_def g)
  have held: "held (locks s m) t = on m rest" for m using ok ph g by (simp add: thread_ok_def live_def)
  have acq: "acquiring (at ?ls t) = Some g \<and> held ?ls t = held (locks s l) t"
    using enter_access [of t "locks s l"] by (cases g) auto
  then have "at ?ls t \<noteq> Idle" by auto
  show ?thesis
    unfolding eq
  proof (rule put_lock_inv [OF inv run])
    show "?ls = locks s l \<or> lock_step T (locks s l) ?ls"
      using idle [of l] t by (cases g) (auto intro: lock_step.intros)
    have "live_guards T (locks (begin_lock t s) l) \<le> 0xFFFF" using fit unfolding guards_fit_def by blast
    then show "live_guards T ?ls \<le> 0xFFFF" unfolding eq by (simp add: set_phase_def put_lock_def)
    show "same_for u (locks s l) ?ls" if "u \<noteq> t" for u
      using other_unchanged [OF that] by (cases g) simp_all
    show "thread_ok (set_phase t (Busy l) (put_lock l ?ls s)) t"
      using acq \<open>at ?ls t \<noteq> Idle\<close> held idle g
      by (auto simp: thread_ok_def live_def phase_ok_def set_phase_def put_lock_def)
  qed
qed

lemma after_put:
  "after_access t l (put_lock l ls s) =
   set_phase t (if at ls t = Idle then Running else Busy l) (put_lock l ls s)"
  by (simp add: after_access_def put_lock_def)

lemma fit_put:
  "guards_fit T (set_phase t p (put_lock l ls s)) \<Longrightarrow> live_guards T ls \<le> 0xFFFF"
  unfolding guards_fit_def set_phase_def put_lock_def by (auto dest: spec [of _ l])

lemma lock_access_inv:
  assumes inv: "sync_inv T s" and run: "halted s = None" and t: "t \<in> T" and ph: "phase s t = Busy l"
    and fit: "guards_fit T (lock_access t l s)"
  shows "sync_inv T (lock_access t l s)"
proof -
  let ?ls = "lock_exec t A_go (locks s l)"
  let ?p = "if at ?ls t = Idle then Running else Busy l"
  have ok: "thread_ok s t" and nc: "crashed (locks s l) = None" using inv run by (simp_all add: sync_inv_def)
  have idle: "m \<noteq> l \<Longrightarrow> at (locks s m) t = Idle" and busy: "at (locks s l) t \<noteq> Idle"
    and held: "held (locks s m) t = on m (live s t)"
    and acq: "acquiring (at (locks s l) t) = Some g \<Longrightarrow> \<exists>rest. guards s t = (l, g) # rest" for m g
    using ok ph by (auto simp: thread_ok_def phase_ok_def)
  have eq: "lock_access t l s = set_phase t ?p (put_lock l ?ls s)" by (simp add: lock_access_def after_put)
  have self: "thread_ok (set_phase t ?p (put_lock l ?ls s)) t"
    using pc_kinds [of "at (locks s l) t"]
  proof (elim disjE)
    assume "acquiring (at (locks s l) t) \<noteq> None"
    then obtain g where g: "acquiring (at (locks s l) t) = Some g" by blast
    then obtain rest where rest: "guards s t = (l, g) # rest" using acq by blast
    have "live s t = rest" using ph g rest by (simp add: live_def)
    then show ?thesis
      using acquiring_access [OF g nc] held idle rest
      by (auto simp: thread_ok_def live_def phase_ok_def set_phase_def put_lock_def releasing_def)
  next
    assume r: "releasing (at (locks s l) t)"
    then have "acquiring (at (locks s l) t) = None" by (auto simp: releasing_def)
    then have "live s t = (l, W) # guards s t" using ph r by (simp add: live_def)
    then show ?thesis
      using releasing_access [OF r nc] held idle
      by (auto simp: thread_ok_def live_def phase_ok_def set_phase_def put_lock_def releasing_def)
  next
    assume w: "at (locks s l) t = WTaken"
    then have "live s t = guards s t" using ph by (simp add: live_def releasing_def)
    then show ?thesis
      using taken_access [OF w nc] held idle
      by (auto simp: thread_ok_def live_def phase_ok_def set_phase_def put_lock_def)
  qed (use busy in simp)
  show ?thesis
    unfolding eq
  proof (rule put_lock_inv [OF inv run])
    show "?ls = locks s l \<or> lock_step T (locks s l) ?ls" using lock_exec_step [OF t] by blast
    show "live_guards T ?ls \<le> 0xFFFF" using fit unfolding eq by (rule fit_put)
  qed (use other_unchanged self in auto)
qed

lemma begin_unlock_inv:
  assumes inv: "sync_inv T s" and run: "halted s = None" and t: "t \<in> T" and ph: "phase s t = Popped l g"
    and fit: "guards_fit T (begin_unlock t l g s)"
  shows "sync_inv T (begin_unlock t l g s)"
proof -
  let ?ls = "case g of W \<Rightarrow> WriteUnlock_check t (locks s l) | R \<Rightarrow> ReadUnlock t (locks s l)"
  let ?p = "if at ?ls t = Idle then Running else Busy l"
  have ok: "thread_ok s t" using inv run by (simp add: sync_inv_def)
  have idle: "at (locks s m) t = Idle" and held: "held (locks s m) t = on m ((l, g) # guards s t)" for m
    using ok ph by (auto simp: thread_ok_def live_def)
  have eq: "begin_unlock t l g s = set_phase t ?p (put_lock l ?ls s)" by (simp add: begin_unlock_def after_put)
  show ?thesis
    unfolding eq
  proof (rule put_lock_inv [OF inv run])
    show "?ls = locks s l \<or> lock_step T (locks s l) ?ls"
      using idle [of l] held [of l] t by (cases g) (auto intro: lock_step.intros)
    show "live_guards T ?ls \<le> 0xFFFF" using fit unfolding eq by (rule fit_put)
    show "same_for u (locks s l) ?ls" if "u \<noteq> t" for u
      using other_unchanged [OF that] by (cases g) simp_all
    show "thread_ok (set_phase t ?p (put_lock l ?ls s)) t" if "crashed ?ls = None"
      using that unlock_access [of t "locks s l"] held idle
      by (cases g) (auto simp: thread_ok_def live_def phase_ok_def set_phase_def put_lock_def releasing_def)
  qed
qed

lemma timeout_inv:
  assumes inv: "sync_inv T s" and run: "halted s = None" and t: "t \<in> T" and ph: "phase s t = Busy l"
    and spin: "spinning (at (locks s l) t)" and fit: "guards_fit T (lock_timeout l s)"
  shows "sync_inv T (lock_timeout l s)"
proof -
  have step: "lock_step T (locks s l) (crash LockTimeout (locks s l))"
    using spin t by (auto simp: spinning_def intro: lock_step.intros)
  have "live_guards T (locks (lock_timeout l s) l) \<le> 0xFFFF" using fit unfolding guards_fit_def by blast
  then have "live_guards T (crash LockTimeout (locks s l)) \<le> 0xFFFF"
    by (simp add: lock_timeout_def put_lock_def)
  then have "lock_reachable T (crash LockTimeout (locks s l))"
    using inv run step lock_next unfolding sync_inv_def by blast
  then show ?thesis using inv unfolding sync_inv_def by (simp add: lock_timeout_def put_lock_def)
qed

lemma construct_guard_inv:
  assumes inv: "sync_inv T s" and run: "halted s = None" and ph: "phase s t = Running"
  shows "sync_inv T (construct_guard t l g s)"
proof -
  have p: "profiler_inv (prof s)" using inv by (simp add: sync_inv_def)
  from PushLock_cases [OF p, of "unat t" "lock_class l"] show ?thesis
  proof (elim disjE exE conjE)
    assume "PushLock (unat t) (lock_class l) (prof s) = Some (Inl DeadlockDetected)"
    then show ?thesis using inv by (simp add: construct_guard_def sync_inv_def)
  next
    fix p'
    assume push: "PushLock (unat t) (lock_class l) (prof s) = Some (Inr p')" and "profiler_inv p'"
    let ?s = "construct_guard t l g s"
    have eq: "?s = set_phase t Pushed (s\<lparr>prof := p', guards := (guards s)(t := (l, g) # guards s t)\<rparr>)"
      by (simp add: construct_guard_def push)
    note succ = PushLock_success [OF p push]
    obtain i where i: "find_id (lock_class l) (nameToId p') = Some i"
      "lockStack p' = (lockStack (prof s))(unat t := i # lockStack (prof s) (unat t))"
      "recorded (edges (lockHistory (prof s))) (lockStack (prof s) (unat t)) \<Longrightarrow>
       recorded (edges (lockHistory p')) (i # lockStack (prof s) (unat t))"
      using succ(4) by blast
    have s: "thread_ok s u" "stack_ok s u" "recorded (edges (lockHistory (prof s))) (lockStack (prof s) (unat u))" for u
      using inv run by (simp_all add: sync_inv_def)
    have "thread_ok ?s u" for u
    proof (cases "u = t")
      case True
      then show ?thesis using s(1) [of t] ph
        by (simp add: eq thread_ok_def live_def phase_ok_def set_phase_def)
    next
      case False
      have "thread_ok ?s u = thread_ok s u"
        by (rule thread_ok_same) (use False in \<open>simp_all add: eq set_phase_def same_for_def\<close>)
      then show ?thesis using s(1) by simp
    qed
    moreover have "stack_ok ?s u" for u
    proof -
      have "list_all2 (\<lambda>x i. find_id (lock_class (fst x)) (nameToId p') = Some i) (guards s u) (lockStack (prof s) (unat u))"
        using s(2) [of u] unfolding stack_ok_def by (rule list_all2_mono) (rule succ(2))
      then show ?thesis using i by (cases "u = t") (simp_all add: eq stack_ok_def set_phase_def)
    qed
    moreover have "recorded (edges (lockHistory p')) (lockStack p' (unat u))" for u :: uint32
      using i(2,3) s(3) recorded_mono [OF s(3) succ(3)] by simp
    ultimately show ?thesis
      using inv run \<open>profiler_inv p'\<close> unfolding sync_inv_def by (simp add: eq set_phase_def)
  qed
qed

text \<open>The destructor finds the class of its lock on top of the stack.\<close>

lemma destroy_pops:
  assumes inv: "sync_inv T s" and run: "halted s = None" and g: "guards s t = (l, g) # rest"
  obtains i ids where "lockStack (prof s) (unat t) = i # ids" and
    "PopLock (unat t) (lock_class l) (prof s) = Inr ((prof s)\<lparr>lockStack := (lockStack (prof s))(unat t := ids)\<rparr>)"
proof -
  have "stack_ok s t" using inv run by (simp add: sync_inv_def)
  then obtain i ids where "lockStack (prof s) (unat t) = i # ids" "find_id (lock_class l) (nameToId (prof s)) = Some i"
    using g by (auto simp: stack_ok_def list_all2_Cons1)
  then show thesis by (intro that) (simp_all add: PopLock_def)
qed

lemma destroy_guard_inv:
  assumes inv: "sync_inv T s" and run: "halted s = None" and ph: "phase s t = Running" and ne: "guards s t \<noteq> []"
  shows "sync_inv T (destroy_guard t s)"
proof -
  obtain l g rest where g: "guards s t = (l, g) # rest" using ne by (metis neq_Nil_conv surj_pair)
  obtain i ids where top: "lockStack (prof s) (unat t) = i # ids"
    and pop: "PopLock (unat t) (lock_class l) (prof s) = Inr ((prof s)\<lparr>lockStack := (lockStack (prof s))(unat t := ids)\<rparr>)"
    using destroy_pops [OF inv run g] by blast
  let ?p = "(prof s)\<lparr>lockStack := (lockStack (prof s))(unat t := ids)\<rparr>"
  let ?s = "destroy_guard t s"
  have eq: "?s = set_phase t (Popped l g) (s\<lparr>prof := ?p, guards := (guards s)(t := rest)\<rparr>)"
    by (simp add: destroy_guard_def g pop)
  have s: "thread_ok s u" "stack_ok s u" "recorded (edges (lockHistory (prof s))) (lockStack (prof s) (unat u))" for u :: uint32
    using inv run by (simp_all add: sync_inv_def)
  have "profiler_inv ?p" using inv pop PopLock_inv unfolding sync_inv_def by blast
  moreover have "thread_ok ?s u" for u
  proof (cases "u = t")
    case True
    then show ?thesis using s(1) [of t] ph g
      by (simp add: eq thread_ok_def live_def phase_ok_def set_phase_def)
  next
    case False
    have "thread_ok ?s u = thread_ok s u"
      by (rule thread_ok_same) (use False in \<open>simp_all add: eq set_phase_def same_for_def\<close>)
    then show ?thesis using s(1) by simp
  qed
  moreover have "stack_ok ?s u" for u
    using s(2) [of u] g top by (auto simp: eq stack_ok_def set_phase_def)
  moreover have "recorded (edges (lockHistory ?p)) (lockStack ?p (unat u))" for u :: uint32
    using s(3) [of u] top by (auto dest: recorded_tail)
  ultimately show ?thesis
    using inv run unfolding sync_inv_def by (simp add: eq set_phase_def)
qed

lemma sync_exec_inv:
  assumes inv: "sync_inv T s" and run: "halted s = None" and "event_thread e \<in> T" and "enabled e s"
    and "guards_fit T (sync_exec e s)"
  shows "sync_inv T (sync_exec e s)"
proof (cases e)
  case (Construct t l g)
  then show ?thesis using construct_guard_inv [OF inv run] assms by simp
next
  case (Begin t)
  then show ?thesis using begin_lock_inv [OF inv run] assms by simp
next
  case (Access t)
  then show ?thesis using lock_access_inv [OF inv run] assms by (auto split: phase.splits)
next
  case (Timeout t)
  then show ?thesis using timeout_inv [OF inv run] assms by (auto split: phase.splits)
next
  case (Destroy t)
  then show ?thesis using destroy_guard_inv [OF inv run] assms by simp
next
  case (Release t)
  then show ?thesis using begin_unlock_inv [OF inv run] assms by (auto split: phase.splits)
qed

lemma sync_inv_init: "sync_inv T all_locks"
proof -
  have "lockStack (prof all_locks) u = []" "crashed Lock = None" "at Lock t = Idle" "held Lock t = []" for u :: nat and t
    by (simp_all add: all_locks_def DeadLockProfiler_def Lock_def)
  then show ?thesis
    using profiler_inv_init
    by (simp add: sync_inv_def all_locks_def lock_init thread_ok_def live_def phase_ok_def stack_ok_def)
qed

lemma sync_reachable_inv: "sync_reachable T s \<Longrightarrow> sync_inv T s"
  by (induction rule: sync_reachable.induct) (auto intro: sync_inv_init sync_exec_inv)

section \<open>Circular waits\<close>

lemma awaited_top:
  assumes inv: "sync_inv T s" and run: "halted s = None" and a: "awaited s t = Some (l, g)"
  shows "\<exists>rest i ids. guards s t = (l, g) # rest \<and> live s t = rest \<and>
    lockStack (prof s) (unat t) = i # ids \<and> find_id (lock_class l) (nameToId (prof s)) = Some i"
proof -
  have ok: "thread_ok s t" "stack_ok s t" using inv run by (simp_all add: sync_inv_def)
  have ph: "phase s t = Busy l" "acquiring (at (locks s l) t) = Some g"
    using a by (auto simp: awaited_def wanted_acquiring split: phase.splits)
  then obtain rest where "guards s t = (l, g) # rest" using ok(1) by (auto simp: thread_ok_def phase_ok_def)
  then show ?thesis using ph ok(2) by (auto simp: live_def stack_ok_def list_all2_Cons1)
qed

lemma held_below:
  assumes inv: "sync_inv T s" and run: "halted s = None" and a: "awaited s u = Some (m, h)"
    and held: "held (locks s l) u \<noteq> []" and i: "find_id (lock_class l) (nameToId (prof s)) = Some i"
  shows "(i, hd (lockStack (prof s) (unat u))) \<in> (edges (lockHistory (prof s)))\<^sup>*"
proof -
  have ok: "thread_ok s u" "stack_ok s u" "recorded (edges (lockHistory (prof s))) (lockStack (prof s) (unat u))"
    using inv run by (simp_all add: sync_inv_def)
  obtain rest j js where top: "guards s u = (m, h) # rest" "live s u = rest" "lockStack (prof s) (unat u) = j # js"
    using awaited_top [OF inv run a] by blast
  have "on l rest \<noteq> []" using held ok(1) top(2) by (simp add: thread_ok_def)
  then obtain x where x: "x \<in> set rest" "fst x = l" by (force simp: on_def filter_empty_conv)
  have "list_all2 (\<lambda>x i. find_id (lock_class (fst x)) (nameToId (prof s)) = Some i) rest js"
    using ok(2) top by (simp add: stack_ok_def)
  then have "i \<in> set js" using x i by (fastforce simp: list_all2_conv_all_nth in_set_conv_nth)
  then show ?thesis using recorded_reaches [of _ j js i] ok(3) top(3) by simp
qed

lemma waits_for_step:
  assumes inv: "sync_inv T s" and run: "halted s = None" and w: "(t, u) \<in> waits_for s" and u: "u \<in> Domain (waits_for s)"
  shows "(hd (lockStack (prof s) (unat t)), hd (lockStack (prof s) (unat u))) \<in> (edges (lockHistory (prof s)))\<^sup>*"
proof -
  obtain l g where l: "awaited s t = Some (l, g)" "obstructs g (held (locks s l) u)"
    using w by (auto simp: waits_for_def)
  obtain m h where m: "awaited s u = Some (m, h)" using u by (auto simp: waits_for_def)
  have "held (locks s l) u \<noteq> []" using l(2) by (auto simp: obstructs_def split: guard.splits)
  then show ?thesis using held_below [OF inv run m] awaited_top [OF inv run l(1)] by auto
qed

lemma waits_for_path:
  assumes inv: "sync_inv T s" and run: "halted s = None" and w: "(t, u) \<in> (waits_for s)\<^sup>+"
    and u: "u \<in> Domain (waits_for s)"
  shows "(hd (lockStack (prof s) (unat t)), hd (lockStack (prof s) (unat u))) \<in> (edges (lockHistory (prof s)))\<^sup>*"
  using w u
proof (induction rule: trancl_induct)
  case (base y)
  then show ?case by (rule waits_for_step [OF inv run])
next
  case (step y z)
  have "y \<in> Domain (waits_for s)" using step.hyps(2) by blast
  then show ?case using step.IH waits_for_step [OF inv run step.hyps(2) step.prems] by (meson rtrancl_trans)
qed

lemma circular_wait_one_class:
  assumes inv: "sync_inv T s" and run: "halted s = None"
    and "(t, u) \<in> (waits_for s)\<^sup>+" and "(u, t) \<in> (waits_for s)\<^sup>+"
  shows "\<exists>l g m h. awaited s t = Some (l, g) \<and> awaited s u = Some (m, h) \<and> lock_class l = lock_class m"
proof -
  let ?E = "edges (lockHistory (prof s))"
  have dom: "t \<in> Domain (waits_for s)" "u \<in> Domain (waits_for s)" using assms(3,4) by (meson DomainI tranclD)+
  then obtain l g m h where a: "awaited s t = Some (l, g)" "awaited s u = Some (m, h)"
    by (auto simp: waits_for_def)
  let ?i = "hd (lockStack (prof s) (unat t))" and ?j = "hd (lockStack (prof s) (unat u))"
  have id: "find_id (lock_class l) (nameToId (prof s)) = Some ?i" "find_id (lock_class m) (nameToId (prof s)) = Some ?j"
    using awaited_top [OF inv run a(1)] awaited_top [OF inv run a(2)] by auto
  have "(?i, ?j) \<in> ?E\<^sup>*" "(?j, ?i) \<in> ?E\<^sup>*"
    using waits_for_path [OF inv run assms(3) dom(2)] waits_for_path [OF inv run assms(4) dom(1)] by simp_all
  moreover have "(?i, ?i) \<notin> ?E\<^sup>+" using inv by (simp add: sync_inv_def profiler_inv_def cyclic_def)
  ultimately have "?i = ?j" by (metis rtrancl_eq_or_trancl trancl_rtrancl_trancl)
  then have "lock_class l = lock_class m" using find_id_Some [OF id(1)] find_id_Some [OF id(2)] by simp
  then show ?thesis using a by blast
qed

section \<open>Scripted runs\<close>

fun runnable :: "uint32 set \<Rightarrow> sync_event list \<Rightarrow> sync_state \<Rightarrow> bool" where
  "runnable T [] s \<longleftrightarrow> True"
| "runnable T (e # es) s \<longleftrightarrow>
     halted s = None \<and> event_thread e \<in> T \<and> enabled e s \<and> runnable T es (sync_exec e s)"

definition sync_run :: "sync_event list \<Rightarrow> sync_state \<Rightarrow> sync_state" where
  "sync_run es s = fold sync_exec es s"

lemma live_guards_unlock: "finite T \<Longrightarrow> t \<in> T \<Longrightarrow> live_guards T (drop_guard t s) \<le> live_guards T s"
proof (cases "held s t")
  case Nil
  then have "held (drop_guard t s) = held s" by (simp add: fun_eq_iff)
  then show ?thesis by (simp add: live_guards_def)
next
  case (Cons g gs)
  assume "finite T" "t \<in> T"
  from live_guards_drop [OF this Cons] show ?thesis by simp
qed

lemma live_guards_event:
  assumes "finite T" and "event_thread e \<in> T"
  shows "live_guards T (locks (sync_exec e s) l) \<le> Suc (live_guards T (locks s l))"
proof -
  have "live_guards T (ReadUnlock t ls) \<le> Suc (live_guards T ls)" if "t \<in> T" for t ls
    using live_guards_unlock [OF assms(1) that, of "ls\<lparr>lockFlag := lockFlag ls - 1\<rparr>"] by (simp add: ReadUnlock_def Let_def)
  then show ?thesis
    using assms live_guards_exec [of T]
    by (cases e) (auto simp: construct_guard_def begin_lock_def lock_access_def lock_timeout_def destroy_guard_def
        begin_unlock_def after_access_def put_lock_def set_phase_def WriteLock_enter_def ReadLock_enter_def
        WriteUnlock_check_def split: option.splits sum.splits list.splits phase.splits guard.splits)
qed

lemma sync_run_reachable:
  "finite T \<Longrightarrow> sync_reachable T s \<Longrightarrow> runnable T es s \<Longrightarrow> \<forall>l. live_guards T (locks s l) + length es \<le> 0xFFFF \<Longrightarrow>
   sync_reachable T (sync_run es s)"
proof (induction es arbitrary: s)
  case Nil
  then show ?case by (simp add: sync_run_def)
next
  case (Cons e es)
  have live: "live_guards T (locks (sync_exec e s) l) + length es \<le> 0xFFFF" for l
    using live_guards_event [OF Cons.prems(1), of e s l] Cons.prems(3) Cons.prems(4) [rule_format, of l] by simp
  then have "guards_fit T (sync_exec e s)" unfolding guards_fit_def by (meson add_leD1)
  then have "sync_reachable T (sync_exec e s)" using Cons.prems by (auto intro: sync_next)
  then show ?case using Cons.IH [of "sync_exec e s"] Cons.prems(1,3) live by (simp add: sync_run_def)
qed

lemma script_reachable:
  assumes "finite T" and "runnable T es all_locks" and "length es \<le> 0xFFFF"
  shows "sync_reachable T (sync_run es all_locks)"
proof -
  have "live_guards T (locks all_locks l) = 0" for l by (simp add: live_guards_def all_locks_def Lock_def)
  then show ?thesis using assms by (intro sync_run_reachable) (simp_all add: sync_init)
qed

text \<open>Two threads lock two sessions in opposite order; a thread comes back to a lock it holds.\<close>

definition session_lock :: "nat \<Rightarrow> lock_name" where
  "session_lock i = LockOf ''Session'' i"

definition take_write :: "uint32 \<Rightarrow> lock_name \<Rightarrow> sync_event list" where
  "take_write t l = [Construct t l W, Begin t, Access t, Access t]"

definition crossed_sessions :: "sync_event list" where
  "crossed_sessions = take_write 1 (session_lock 1) @ take_write 2 (session_lock 2) @
     [Construct 1 (session_lock 2) W, Begin 1, Construct 2 (session_lock 1) W, Begin 2]"

definition reentry :: "sync_event list" where
  "reentry = take_write 1 (session_lock 1) @ take_write 1 (LockOf ''Service'' 0)"

lemmas sync_eval = sync_run_def take_write_def session_lock_def construct_guard_def begin_lock_def
  lock_access_def after_access_def put_lock_def set_phase_def all_locks_def PushLock_def lock_id_def
  push_stack_def add_edge_def DeadLockProfiler_def lock_eval

lemma crossed_runnable: "runnable {1, 2} crossed_sessions all_locks"
  by (simp add: crossed_sessions_def sync_eval)

lemma crossed_reachable: "sync_reachable {1, 2} (sync_run crossed_sessions all_locks)"
  by (rule script_reachable [OF _ crossed_runnable]) (simp_all add: crossed_sessions_def take_write_def)

lemma crossed_values:
  "halted (sync_run crossed_sessions all_locks) = None"
  "(1, 2) \<in> waits_for (sync_run crossed_sessions all_locks)"
  "(2, 1) \<in> waits_for (sync_run crossed_sessions all_locks)"
  by (simp_all add: waits_for_def awaited_def obstructs_def crossed_sessions_def sync_eval)

lemma crossed_circle:
  "(1, 2) \<in> (waits_for (sync_run crossed_sessions all_locks))\<^sup>+"
  "(2, 1) \<in> (waits_for (sync_run crossed_sessions all_locks))\<^sup>+"
  using crossed_values(2,3) by blast+

lemma reentry_reachable: "sync_reachable {1} (sync_run reentry all_locks)"
proof -
  have "runnable {1} reentry all_locks"
    by (simp add: reentry_def sync_eval CheckCycle_def dfs_init_def discover_def finish_def
        discovered_before_def numeral_2_eq_2)
  then show ?thesis by (intro script_reachable) (simp_all add: reentry_def take_write_def)
qed

lemma reentry_values:
  "halted (sync_run reentry all_locks) = None" "awaited (sync_run reentry all_locks) t = None"
  "halted (sync_exec (Construct 1 (session_lock 1) W) (sync_run reentry all_locks)) = Some DeadlockDetected"
  by (simp_all add: awaited_def reentry_def sync_eval CheckCycle_def dfs_init_def discover_def finish_def
      discovered_before_def numeral_2_eq_2)

section \<open>Faults\<close>

lemma access_no_crash: "crashed (lock_exec t A_go s) = crashed s"
  by (simp add: lock_exec.simps access_defs split: pc.splits)

lemma sync_exec_faults:
  assumes inv: "sync_inv T s" and run: "halted s = None" and T: "finite T" "thread_ids T"
    and e: "event_thread e \<in> T" "enabled e s"
  shows "halted (sync_exec e s) \<in> {None, Some DeadlockDetected, Some LockTimeout, Some InvalidUnlockOrder}"
proof (cases e)
  case (Construct t l g)
  have "profiler_inv (prof s)" using inv by (simp add: sync_inv_def)
  from PushLock_cases [OF this, of "unat t" "lock_class l"] show ?thesis
    using Construct run by (auto simp: construct_guard_def set_phase_def)
next
  case (Begin t)
  have "crashed (locks s l) = None" for l using inv run by (simp add: sync_inv_def)
  then show ?thesis
    using Begin run by (auto simp: begin_lock_def set_phase_def put_lock_def WriteLock_enter_def ReadLock_enter_def split: list.splits guard.splits)
next
  case (Access t)
  have "crashed (locks s l) = None" for l using inv run by (simp add: sync_inv_def)
  then show ?thesis
    using Access run
    by (simp add: lock_access_def after_access_def set_phase_def put_lock_def access_no_crash split: phase.split)
next
  case (Timeout t)
  then show ?thesis using run by (auto simp: lock_timeout_def put_lock_def split: phase.splits)
next
  case (Destroy t)
  then obtain l g rest where g: "guards s t = (l, g) # rest" using e by (auto simp: neq_Nil_conv)
  obtain ids where "PopLock (unat t) (lock_class l) (prof s) =
      Inr ((prof s)\<lparr>lockStack := (lockStack (prof s))(unat t := ids)\<rparr>)"
    using destroy_pops [OF inv run g] by metis
  then show ?thesis using Destroy run g by (simp add: destroy_guard_def set_phase_def)
next
  case (Release t)
  then obtain l g where ph: "phase s t = Popped l g" using e by (auto split: phase.splits)
  have "thread_ok s t" "crashed (locks s l) = None" "lock_reachable T (locks s l)"
    using inv run by (simp_all add: sync_inv_def)
  then have "at (locks s l) t = Idle" "held (locks s l) t = g # on l (guards s t)" "lock_inv T (locks s l)"
    using ph T by (auto simp: thread_ok_def live_def intro: lock_reachable_inv)
  then show ?thesis
    using Release e ph read_unlock_inv(2) [of T "locks s l" t "on l (guards s t)"] T \<open>crashed (locks s l) = None\<close>
    by (cases g) (auto simp: begin_unlock_def after_access_def set_phase_def put_lock_def WriteUnlock_check_def)
qed

section \<open>Properties\<close>

text \<open>
  C3: As long as the profiler has not crashed the program, threads that wait for each other in a
  circle, whatever locks they hold for reading or writing, all wait for locks of the same class.
\<close>
theorem circular_waits_stay_in_one_class:
  assumes "sync_reachable T s" and "halted s = None"
    and "(t, u) \<in> (waits_for s)\<^sup>+" and "(u, t) \<in> (waits_for s)\<^sup>+"
  shows "\<exists>l g m h. awaited s t = Some (l, g) \<and> awaited s u = Some (m, h) \<and> lock_class l = lock_class m"
  by (rule circular_wait_one_class [OF sync_reachable_inv [OF assms(1)] assms(2-4)])

theorem circular_waits_stay_in_one_class_witness:
  "\<exists>l g m h. awaited (sync_run crossed_sessions all_locks) 1 = Some (l, g) \<and>
     awaited (sync_run crossed_sessions all_locks) 2 = Some (m, h) \<and> lock_class l = lock_class m"
  by (rule circular_waits_stay_in_one_class [OF crossed_reachable crossed_values(1) crossed_circle])

text \<open>
  C2: The profiler names locks by class, so two threads that take the locks of two sessions in opposite
  order wait for each other for ever (until the timeout of the lock) without a report.
\<close>
theorem same_class_deadlock_unreported:
  "\<exists>s. sync_reachable {1, 2} s \<and> halted s = None \<and> (1, 2) \<in> waits_for s \<and> (2, 1) \<in> waits_for s"
  using crossed_reachable crossed_values by blast

text \<open>
  C3: The profiler also crashes a program in which nobody waits: a single thread that takes a lock again
  while it holds a lock of another class on top of it is reported as a deadlock, although the lock
  itself allows its owner to come back.
\<close>
theorem reentry_reported_as_deadlock:
  "\<exists>s. sync_reachable {1} s \<and> halted s = None \<and> waits_for s = {} \<and>
     halted (sync_exec (Construct 1 (session_lock 1) W) s) = Some DeadlockDetected"
proof (intro exI conjI)
  show "waits_for (sync_run reentry all_locks) = {}" by (auto simp: waits_for_def reentry_values(2))
qed (rule reentry_reachable reentry_values(1,3))+

text \<open>
  C14: With guards, whatever the threads do, the profiler and the locks end the program in three ways only:
  a deadlock is reported, a lock is not free in time, or nested write, read and write guards of one
  lock are released. The crashes of \<open>PopLock\<close> and the multiple unlock of a reader never happen, and
  every lock of the program is in a state a run of that lock alone can reach.
\<close>
theorem guards_release_in_order:
  assumes "sync_reachable T s" and "finite T" and "thread_ids T"
  shows "halted s \<in> {None, Some DeadlockDetected, Some LockTimeout, Some InvalidUnlockOrder} \<and>
    (\<forall>l. lock_reachable T (locks s l))"
  using assms(1)
proof cases
  case (sync_next s0 e)
  then show ?thesis
    using sync_exec_faults [OF sync_reachable_inv [OF sync_next(2)] _ assms(2,3)] sync_reachable_inv [OF assms(1)]
    by (simp add: sync_inv_def)
qed (simp add: all_locks_def lock_init)

theorem guards_release_in_order_witness:
  "halted (sync_run crossed_sessions all_locks) \<in> {None, Some DeadlockDetected, Some LockTimeout, Some InvalidUnlockOrder} \<and>
    (\<forall>l. lock_reachable {1, 2} (locks (sync_run crossed_sessions all_locks) l))"
  by (rule guards_release_in_order [OF crossed_reachable two_threads])

end
