(* ===== verification/Tcp_Connection.thy ===== *)
theory Tcp_Connection
  imports "HOL-Library.Sublist" Packets Tcp_Session
begin

text \<open>
  Two TCP sessions (\<open>ClientNetworkCore/Session.cpp\<close>) joined by a connection, each with its own
  callbacks: \<open>Send\<close> and \<open>RegisterSend\<close> on one side, \<open>ProcessRecv\<close>, \<open>IsParsingPacket\<close> and the packet
  handler on the other. The connection is what TCP documents: the bytes one side has received are at
  any time a prefix of the bytes the other side has handed to its socket. The result is the contract
  of the pair, over every interleaving of their steps, failed writes and disconnects included: the
  packets delivered are those sent, in order, none lost in between, none twice.
\<close>

section \<open>What a session has handed to its socket\<close>

definition offered :: "'a tcp_session \<Rightarrow> BYTE list" where
  "offered s = wire s @ concat (concat (writes s))"

definition offer_inv :: "'a tcp_session \<Rightarrow> bool" where
  "offer_inv s \<longleftrightarrow> prefix (offered s) (concat (accepted s)) \<and> length (writes s) \<le> 1"

text \<open>\<open>extends_accepted s s'\<close>: nothing was handed to the socket in between.\<close>

definition extends_accepted :: "'a tcp_session \<Rightarrow> 'a tcp_session \<Rightarrow> bool" where
  "extends_accepted s s' \<longleftrightarrow>
     wire s' = wire s \<and> writes s' = writes s \<and> (\<exists>bs. accepted s' = accepted s @ bs)"

lemma extends_accepted_refl [simp]: "wire s' = wire s \<Longrightarrow> writes s' = writes s \<Longrightarrow> accepted s' = accepted s \<Longrightarrow> extends_accepted s s'"
  by (simp add: extends_accepted_def)

lemma extends_accepted_trans: "extends_accepted s s' \<Longrightarrow> extends_accepted s' s'' \<Longrightarrow> extends_accepted s s''"
  unfolding extends_accepted_def by auto

lemma extends_offer_inv: "extends_accepted s s' \<Longrightarrow> offer_inv s \<Longrightarrow> offer_inv s'"
  unfolding extends_accepted_def offer_inv_def offered_def by auto

text \<open>The invariant of the sending side gives the claim while the session is connected and sound.\<close>

lemma sending_offer_inv:
  assumes "tcp_send_inv s" and "connected s" and "\<not> write_failed s"
  shows "offer_inv s"
proof -
  have "concat (accepted s) = offered s @ concat (sendQueue s)" "length (writes s) \<le> 1"
    using assms by (auto simp: tcp_send_inv_def send_ok_def offered_def split: if_splits)
  then show ?thesis by (simp add: offer_inv_def)
qed

text \<open>A session that is not connected, or dead after a failed write, hands over nothing.\<close>

definition mute :: "'a tcp_session \<Rightarrow> bool" where
  "mute s \<longleftrightarrow> \<not> connected s \<or> sendRegistered s"

lemma mute_Send: "mute s \<Longrightarrow> mute (tcp_Send b s) \<and> extends_accepted s (tcp_Send b s)"
  by (auto simp: mute_def extends_accepted_def tcp_Send_def tcp_Send_enqueue_def)

lemma mute_Send_all: "mute s \<Longrightarrow> mute (tcp_Send_all bs s) \<and> extends_accepted s (tcp_Send_all bs s)"
  by (induction bs s rule: tcp_Send_all.induct) (auto simp: mute_Send dest: mute_Send intro: extends_accepted_trans)

lemma mute_deliver_all: "mute s \<Longrightarrow> mute (deliver_all orv ps s) \<and> extends_accepted s (deliver_all orv ps s)"
proof (induction orv ps s rule: deliver_all.induct)
  case (2 orv p ps s)
  obtain out a where o: "orv p (app s) = (out, a)" by fastforce
  let ?s = "s\<lparr>app := a, delivered := delivered s @ [p]\<rparr>"
  have "mute ?s" using 2(2) by (simp add: mute_def)
  from mute_Send_all [OF this, of out] 2(1) [OF o [symmetric] refl]
  have "mute (deliver_all orv ps (tcp_Send_all out ?s))" "extends_accepted ?s (deliver_all orv ps (tcp_Send_all out ?s))"
    by (auto intro: extends_accepted_trans)
  then show ?case using o by (simp add: extends_accepted_def)
qed simp

lemma failed_mute: "tcp_send_inv s \<Longrightarrow> write_failed s \<Longrightarrow> mute s"
  by (auto simp: tcp_send_inv_def send_ok_def mute_def)

lemma write_failed_frame [simp]:
  "write_failed (tcp_RegisterSend s) = write_failed s" "write_failed (tcp_Send b s) = write_failed s"
  by (simp_all add: tcp_RegisterSend_def tcp_Send_def tcp_Send_enqueue_def Let_def)

lemma write_failed_Send_all [simp]: "write_failed (tcp_Send_all bs s) = write_failed s"
  by (induction bs s rule: tcp_Send_all.induct) simp_all

lemma write_failed_deliver_all [simp]: "write_failed (deliver_all orv ps s) = write_failed s"
  by (induction orv ps s rule: deliver_all.induct) (simp_all add: case_prod_beta Let_def)

lemma deliver_all_offer_inv:
  assumes "tcp_send_inv s" and "offer_inv s"
  shows "offer_inv (deliver_all orv ps s)"
proof (cases "connected s \<and> \<not> write_failed s")
  case True
  then show ?thesis using deliver_all_send_inv [OF assms(1)] by (intro sending_offer_inv) simp_all
next
  case False
  then have "mute s" using failed_mute [OF assms(1)] by (auto simp: mute_def)
  then show ?thesis using mute_deliver_all extends_offer_inv assms(2) by blast
qed

lemma Disconnect_extends: "tcp_Disconnect od close_ok s = Inr s' \<Longrightarrow> extends_accepted s s'"
  by (auto simp: tcp_Disconnect_def tcp_RegisterDisconnect_def tcp_ProcessDisconnect_def
      ReleaseTcpSession_def extends_accepted_def and_then_Inr_iff assert_crash_Inr_iff Let_def split: if_splits)

lemma Disconnect_offer_inv: "tcp_Disconnect od close_ok s = Inr s' \<Longrightarrow> offer_inv s \<Longrightarrow> offer_inv s'"
  using Disconnect_extends extends_offer_inv by blast

lemma offer_inv_frame [simp]:
  "offer_inv (s\<lparr>receiving := n\<rparr>) = offer_inv s" "offer_inv (s\<lparr>registering := n\<rparr>) = offer_inv s"
  "offer_inv (s\<lparr>received := r\<rparr>) = offer_inv s" "offer_inv (s\<lparr>recvBuffer := rb\<rparr>) = offer_inv s"
  "offer_inv (s\<lparr>sendRegistered := b\<rparr>) = offer_inv s" "offer_inv (s\<lparr>connecting := b\<rparr>) = offer_inv s"
  by (simp_all add: offer_inv_def offered_def)

lemma only_write: "length ws \<le> 1 \<Longrightarrow> w \<in> set ws \<Longrightarrow> ws = [w]"
  by (cases ws) auto

lemma write_error_offer_inv:
  assumes "offer_inv s" and "ws \<in> set (writes s)"
  shows "offer_inv (write_error ws sent s)"
proof -
  have w: "writes s = [ws]" using assms only_write by (auto simp: offer_inv_def)
  have "prefix (take sent (concat ws)) (concat ws)" by (rule take_is_prefix)
  then have "prefix (wire s @ take sent (concat ws)) (offered s)" using w by (simp add: offered_def)
  also have "prefix (offered s) (concat (accepted s))" using assms(1) by (simp add: offer_inv_def)
  finally show ?thesis using w by (simp add: offer_inv_def offered_def write_error_def)
qed

lemma written_offer_inv:
  assumes "offer_inv s" and "ws \<in> set (writes s)"
  shows "offer_inv (s\<lparr>writes := remove1 ws (writes s), wire := wire s @ concat ws\<rparr>)"
proof -
  have "writes s = [ws]" using assms only_write by (auto simp: offer_inv_def)
  then show ?thesis using assms(1) by (simp add: offer_inv_def offered_def)
qed

lemma recv_offer_inv:
  assumes inv: "tcp_inv s" and offer: "offer_inv s" and r: "0 < receiving s"
    and fits: "int (length bytes) \<le> FreeSize (recvBuffer s)" and step: "recv_succeeded orv od close_ok bytes s = Inr s'"
  shows "offer_inv s'"
proof (cases "bytes = []")
  case True
  then have "tcp_Disconnect od close_ok (s\<lparr>receiving := receiving s - 1\<rparr>) = Inr s'"
    using step by (simp add: recv_succeeded_empty)
  then show ?thesis by (rule Disconnect_offer_inv) (simp add: offer)
next
  case False
  have "rb_inv (recvBuffer s)" using inv by (simp add: tcp_inv_def tcp_recv_inv_def)
  from recv_succeeded_result [OF this fits False, of orv od close_ok]
  obtain packets rb rb1 where out: "recv_succeeded orv od close_ok bytes s =
      and_then (Clean rb1) (\<lambda>rb2. Inr (recv_outcome orv bytes packets rb rb2 s))"
    by blast
  obtain rb2 where s': "s' = recv_outcome orv bytes packets rb rb2 s"
    using step unfolding out and_then_Inr_iff by blast
  let ?s = "s\<lparr>receiving := receiving s - 1\<rparr>\<lparr>received := received s @ bytes\<rparr>\<lparr>recvBuffer := rb\<rparr>"
  have "tcp_send_inv (s\<lparr>receiving := receiving s - 1\<rparr>)"
    by (rule tcp_send_inv_receiving) (use inv r in \<open>auto simp: tcp_inv_def\<close>)
  then have "tcp_send_inv ?s" by (simp only: tcp_send_inv_frame)
  then have "offer_inv (deliver_all orv packets ?s)"
    by (rule deliver_all_offer_inv) (simp only: offer_inv_frame offer)
  then show ?thesis
    by (simp add: s' recv_outcome_def tcp_RegisterRecv_def)
qed

lemma step_offer_inv:
  assumes "tcp_step oc orv od s s'" and "tcp_inv s" and "offer_inv s"
  shows "offer_inv s'"
proof -
  have s': "tcp_send_inv s'" using tcp_step_inv [OF assms(1,2)] by (simp add: tcp_inv_def)
  show ?thesis
    using assms
  proof (induction rule: tcp_step.induct)
    case (step_connect_done s ok)
    have inv: "tcp_send_inv (connect_done oc ok s)"
      using step_connect_done by (simp add: tcp_inv_def connect_done_inv)
    have "fresh_session s" using step_connect_done by (simp add: tcp_inv_def tcp_send_inv_def)
    then have nf: "\<not> write_failed s" by (simp add: fresh_session_def)
    show ?case
    proof (cases ok)
      case True
      have "connected (connect_done oc ok s) \<and> \<not> write_failed (connect_done oc ok s)"
        using True nf by (simp add: connect_done_def tcp_ProcessConnect_def AddTcpSession_def Let_def case_prod_beta)
      then show ?thesis using sending_offer_inv [OF inv] by simp
    next
      case False
      then show ?thesis using step_connect_done(3) by (simp add: connect_done_def)
    qed
  next
    case (step_enqueue b s r s1)
    have "extends_accepted s (if r then s1\<lparr>registering := Suc (registering s1)\<rparr> else s1)"
      using step_enqueue(1) by (auto simp: tcp_Send_enqueue_def extends_accepted_def split: if_splits)
    then show ?case using extends_offer_inv step_enqueue(3) by blast
  next
    case (step_register s)
    let ?s = "tcp_RegisterSend (s\<lparr>registering := registering s - 1\<rparr>)"
    have inv: "tcp_send_inv ?s" using step_register register_inv by (auto simp: tcp_inv_def)
    show ?case
    proof (cases "connected s \<and> \<not> write_failed s")
      case True
      then show ?thesis by (intro sending_offer_inv [OF inv]) simp_all
    next
      case False
      have "\<not> connected s"
        using False step_register(1,2) by (auto simp: tcp_inv_def tcp_send_inv_def send_ok_def)
      then show ?thesis using step_register(3) by (simp add: tcp_RegisterSend_def)
    qed
  next
    case (step_write_ok w s close_ok s')
    let ?s = "s\<lparr>writes := remove1 w (writes s), wire := wire s @ concat w\<rparr>"
    have offer: "offer_inv ?s" using written_offer_inv step_write_ok(1,4) by blast
    show ?case
    proof (cases "length (concat w) = 0")
      case True
      then have "tcp_Disconnect od close_ok ?s = Inr s'"
        using step_write_ok(2) by (simp add: write_succeeded_def tcp_ProcessSend_def)
      then show ?thesis using offer by (rule Disconnect_offer_inv)
    next
      case False
      then have p: "s' = (if sendQueue s = [] then ?s\<lparr>sendRegistered := False\<rparr> else tcp_RegisterSend ?s)"
        using step_write_ok(2) by (auto simp: write_succeeded_def tcp_ProcessSend_def split: if_splits)
      have inv: "tcp_send_inv s'"
        using write_succeeded_inv [OF _ step_write_ok(1,2)] step_write_ok(3) by (simp add: tcp_inv_def)
      show ?thesis
      proof (cases "connected s")
        case True
        then have "\<not> write_failed s"
          using step_write_ok(1,3) by (auto simp: tcp_inv_def tcp_send_inv_def send_ok_def)
        then show ?thesis using p True by (intro sending_offer_inv [OF inv]) (auto split: if_splits)
      next
        case False
        then show ?thesis using p offer by (auto simp: tcp_RegisterSend_def)
      qed
    qed
  next
    case (step_write_error w s sent)
    then show ?case using write_error_offer_inv by blast
  next
    case (step_recv_ok s bytes close_ok s')
    then show ?case using recv_offer_inv by blast
  next
    case (step_recv_error s close_ok s')
    then have "tcp_Disconnect od close_ok (s\<lparr>receiving := receiving s - 1\<rparr>) = Inr s'"
      by (simp add: recv_error_def)
    then show ?case by (rule Disconnect_offer_inv) (simp add: step_recv_error(4))
  next
    case (step_disconnect close_ok s s')
    then show ?case using Disconnect_offer_inv by blast
  qed
qed

lemma offer_inv_init: "offer_inv (tcp_Connect (TcpSession port a))"
  by (simp add: offer_inv_def offered_def tcp_Connect_def tcp_RegisterConnect_def TcpSession_def Let_def)

section \<open>The connection\<close>

text \<open>TCP hands over a prefix of what the other side has written.\<close>

definition channel_ok :: "'a tcp_session \<Rightarrow> 'b tcp_session \<Rightarrow> bool" where
  "channel_ok x y \<longleftrightarrow> prefix (received x) (offered y) \<and> prefix (received y) (offered x)"

text \<open>The callbacks of one side.\<close>

record 'a callbacks =
  on_connected :: "'a \<Rightarrow> BYTE list list \<times> 'a"
  on_recv :: "BYTE list \<Rightarrow> 'a \<Rightarrow> BYTE list list \<times> 'a"
  on_disconnected :: "'a \<Rightarrow> 'a"

definition session_step :: "'a callbacks \<Rightarrow> 'a tcp_session \<Rightarrow> 'a tcp_session \<Rightarrow> bool" where
  "session_step cb = tcp_step (on_connected cb) (on_recv cb) (on_disconnected cb)"

inductive connection ::
  "'a callbacks \<Rightarrow> 'b callbacks \<Rightarrow> 'a tcp_session \<Rightarrow> 'b tcp_session \<Rightarrow> 'a tcp_session \<Rightarrow> 'b tcp_session \<Rightarrow> bool"
  for cx cy x0 y0 where
  conn_init: "connection cx cy x0 y0 x0 y0"
| conn_left: "connection cx cy x0 y0 x y \<Longrightarrow> session_step cx x x' \<Longrightarrow> channel_ok x' y \<Longrightarrow> connection cx cy x0 y0 x' y"
| conn_right: "connection cx cy x0 y0 x y \<Longrightarrow> session_step cy y y' \<Longrightarrow> channel_ok x y' \<Longrightarrow> connection cx cy x0 y0 x y'"

abbreviation "connecting_session port a \<equiv> tcp_Connect (TcpSession port a)"

abbreviation connected_pair ::
  "'a callbacks \<Rightarrow> 'b callbacks \<Rightarrow> nat \<Rightarrow> 'a \<Rightarrow> nat \<Rightarrow> 'b \<Rightarrow> 'a tcp_session \<Rightarrow> 'b tcp_session \<Rightarrow> bool" where
  "connected_pair cx cy px ax py ay \<equiv> connection cx cy (connecting_session px ax) (connecting_session py ay)"

definition pair_inv :: "'a tcp_session \<Rightarrow> 'b tcp_session \<Rightarrow> bool" where
  "pair_inv x y \<longleftrightarrow> tcp_inv x \<and> tcp_inv y \<and> offer_inv x \<and> offer_inv y \<and> channel_ok x y"

lemma connection_inv: "connected_pair cx cy px ax py ay x y \<Longrightarrow> pair_inv x y"
proof (induction rule: connection.induct)
  case conn_init
  have "channel_ok (connecting_session px ax) (connecting_session py ay)"
    by (simp add: channel_ok_def tcp_Connect_def tcp_RegisterConnect_def TcpSession_def Let_def)
  then show ?case by (simp add: pair_inv_def tcp_inv_init offer_inv_init)
next
  case (conn_left x y x')
  then show ?case unfolding pair_inv_def session_step_def by (blast intro: tcp_step_inv step_offer_inv)
next
  case (conn_right x y y')
  then show ?case unfolding pair_inv_def session_step_def by (blast intro: tcp_step_inv step_offer_inv)
qed

section \<open>Packets out of a prefix of the stream\<close>

lemma short_not_ready:
  assumes "valid_packet h q" and "strict_prefix xs q"
  shows "\<not> packet_ready h xs"
proof
  assume ready: "packet_ready h xs"
  obtain zs where q: "q = xs @ zs" "zs \<noteq> []" using assms(2) by (auto elim: strict_prefixE')
  have "2 \<le> length xs" using ready sizeof_header_pos(3) [of h]
    by (auto simp: packet_ready_def simp del: sizeof_header_pos)
  then have "header_size xs = header_size q" by (simp add: q header_size_append)
  then have "next_size xs = length q" using assms(1) by (simp add: valid_packet_def)
  then show False using ready q by (simp add: packet_ready_def)
qed

lemma parse_of_prefix:
  assumes "\<forall>q \<in> set qs. valid_packet h q" and "prefix xs (concat qs)"
  shows "\<exists>n rest. xs = concat (take n qs) @ rest \<and> n \<le> length qs \<and> (n < length qs \<longrightarrow> strict_prefix rest (qs ! n)) \<and>
    (n = length qs \<longrightarrow> rest = []) \<and> parse h xs = (take n qs, length (concat (take n qs)))"
  using assms
proof (induction qs arbitrary: xs)
  case Nil
  have "\<not> packet_ready h []" using sizeof_header_pos(1) [of h] by (simp add: packet_ready_def)
  then show ?case using Nil by (simp add: parse_stop)
next
  case (Cons q qs)
  from Cons.prems(2) have "prefix xs q \<or> (\<exists>ys. xs = q @ ys \<and> prefix ys (concat qs))"
    by (simp add: prefix_append)
  then consider "strict_prefix xs q" | ys where "xs = q @ ys" "prefix ys (concat qs)"
    by (metis Nil_prefix append_Nil2 prefix_order.le_less)
  then show ?case
  proof cases
    case 1
    then have "\<not> packet_ready h xs" using Cons.prems(1) by (intro short_not_ready) auto
    then show ?thesis using 1 by (intro exI [of _ 0]) (simp add: parse_stop)
  next
    case (2 ys)
    from Cons.IH [of ys] Cons.prems(1) 2(2) obtain n rest where IH: "ys = concat (take n qs) @ rest"
      "n \<le> length qs" "n < length qs \<longrightarrow> strict_prefix rest (qs ! n)" "n = length qs \<longrightarrow> rest = []"
      "parse h ys = (take n qs, length (concat (take n qs)))"
      by auto
    have "packet_ready h (q @ ys) \<and> next_size (q @ ys) = length q"
      using Cons.prems(1) by (intro valid_packet_ready) simp
    then have "parse h xs = (take (Suc n) (q # qs), length (concat (take (Suc n) (q # qs))))"
      using IH(5) 2(1) by (simp add: parse_step)
    then show ?thesis using IH(1-4) 2(1) by (intro exI [of _ "Suc n"] exI [of _ rest]) simp
  qed
qed

section \<open>A concrete pair\<close>

text \<open>A receive that leaves no partial packet behind goes through.\<close>

lemma whole_packets_received:
  assumes inv: "tcp_inv s" and r: "0 < receiving s" and fits: "int (length bytes) \<le> FreeSize (recvBuffer s)"
    and ne: "bytes \<noteq> []" and parse: "parse TcpPacketHeader (pending (recvBuffer s) @ bytes) =
      (ps, length (pending (recvBuffer s) @ bytes))"
  shows "\<exists>s'. recv_succeeded orv od close_ok bytes s = Inr s' \<and> received s' = received s @ bytes"
proof -
  have "rb_inv (recvBuffer s)" using inv by (simp add: tcp_inv_def tcp_recv_inv_def)
  from recv_succeeded_result [OF this fits ne, of orv od close_ok]
  obtain packets n rb rb1 where rb1: "rb_inv rb1" "pending rb1 = drop n (pending (recvBuffer s) @ bytes)"
    and n: "parse TcpPacketHeader (pending (recvBuffer s) @ bytes) = (packets, n)"
    and out: "recv_succeeded orv od close_ok bytes s = and_then (Clean rb1) (\<lambda>rb2. Inr (recv_outcome orv bytes packets rb rb2 s))"
    by blast
  have "pending rb1 = []" using rb1(2) n parse by (simp del: length_append drop_append)
  have "DataSize rb1 = 0" using length_pending [OF rb1(1)] \<open>pending rb1 = []\<close> by simp
  then have "Clean rb1 = Inr (rb1\<lparr>readPos := 0, writePos := 0\<rparr>)" by (simp add: Clean_def)
  then show ?thesis using out by simp
qed

definition greeting :: "BYTE list" where
  "greeting = framed (PKT S_LOGIN) [] [7]"

definition greeter :: "unit callbacks" where
  "greeter = \<lparr>on_connected = (\<lambda>a. ([greeting], a)), on_recv = (\<lambda>_ a. ([], a)), on_disconnected = id\<rparr>"

definition listener :: "unit callbacks" where
  "listener = \<lparr>on_connected = (\<lambda>a. ([], a)), on_recv = (\<lambda>_ a. ([], a)), on_disconnected = id\<rparr>"

definition greeting_sent :: "unit tcp_session" where
  "greeting_sent = connect_done (on_connected greeter) True (connecting_session 7777 ())"

definition listening :: "unit tcp_session" where
  "listening = connect_done (on_connected listener) True (connecting_session 7777 ())"

abbreviation "greeting_pair \<equiv> connected_pair greeter listener 7777 () 7777 ()"

lemma greeting_bytes: "greeting = [5, 0, 233, 3, 7]"
  by (simp add: greeting_def framed_def le16_bytes_def)

lemmas pair_eval = greeting_sent_def listening_def connect_done_def tcp_ProcessConnect_def AddTcpSession_def
  tcp_Send_def tcp_Send_enqueue_def tcp_RegisterSend_def tcp_RegisterRecv_def tcp_Connect_def
  tcp_RegisterConnect_def TcpSession_def greeter_def listener_def Let_def

lemma pair_values:
  "accepted greeting_sent = [greeting]" "offered greeting_sent = greeting" "received greeting_sent = []"
  "received listening = []" "offered listening = []" "receiving listening = 1"
  "FreeSize (recvBuffer listening) = 655360" "pending (recvBuffer listening) = []"
  by (simp_all add: pair_eval offered_def greeting_bytes FreeSize_def RecvBuffer_def BUFFER_COUNT_def
      TCP_BUFFER_SIZE_def pending_def DataSize_def)

lemma greeting_pair_run:
  "\<exists>y. greeting_pair greeting_sent y \<and> received y = greeting"
proof -
  have start: "connecting (connecting_session 7777 ())" "received (connecting_session 7777 ()) = []"
    by (simp_all add: tcp_Connect_def tcp_RegisterConnect_def TcpSession_def Let_def)
  have p1: "greeting_pair greeting_sent (connecting_session 7777 ())"
    unfolding greeting_sent_def
    by (rule conn_left [OF conn_init])
      (use start pair_values(3) in \<open>auto simp: session_step_def channel_ok_def greeting_sent_def intro: step_connect_done\<close>)
  have p2: "greeting_pair greeting_sent listening"
    by (rule conn_right [OF p1])
      (use start pair_values(3,4) in \<open>auto simp: session_step_def channel_ok_def listening_def intro: step_connect_done\<close>)
  have "valid_packet TcpPacketHeader greeting"
    unfolding greeting_def using framed_valid [of "[]" TcpPacketHeader "[7]"] by simp
  then have "parse TcpPacketHeader greeting = ([greeting], length greeting)"
    using parse_complete [of "[greeting]" TcpPacketHeader "[]"] by (simp add: packet_ready_def)
  then have "\<exists>y. recv_succeeded (on_recv listener) (on_disconnected listener) True greeting listening = Inr y \<and>
      received y = received listening @ greeting"
    using connection_inv [OF p2] pair_values
    by (intro whole_packets_received [of _ _ "[greeting]"]) (simp_all add: pair_inv_def greeting_bytes)
  then obtain y where y: "recv_succeeded (on_recv listener) (on_disconnected listener) True greeting listening = Inr y"
    "received y = greeting" using pair_values(4) by auto
  have "greeting_pair greeting_sent y"
  proof (rule conn_right [OF p2])
    show "session_step listener listening y"
      unfolding session_step_def using y(1) pair_values by (intro step_recv_ok [of _ greeting]) (simp_all add: greeting_bytes)
    show "channel_ok greeting_sent y" using y(2) pair_values by (simp add: channel_ok_def)
  qed
  then show ?thesis using y(2) by blast
qed

section \<open>Properties\<close>

text \<open>What one side has delivered is an initial part of what the other side has accepted.\<close>

lemma delivered_take:
  assumes "pair_inv x y" and "\<forall>q \<in> set (accepted x). valid_packet TcpPacketHeader q"
  shows "\<exists>k \<le> length (accepted x). delivered y = take k (accepted x) \<and>
    (received y = concat (accepted x) \<longrightarrow> k = length (accepted x) \<and> pending (recvBuffer y) = [])"
proof -
  have "prefix (received y) (offered x)" "prefix (offered x) (concat (accepted x))" "tcp_recv_inv y"
    using assms(1) by (simp_all add: pair_inv_def channel_ok_def offer_inv_def tcp_inv_def)
  then have "prefix (received y) (concat (accepted x))" by simp
  from parse_of_prefix [OF assms(2) this] obtain n rest where
    n: "received y = concat (take n (accepted x)) @ rest" "n \<le> length (accepted x)"
      "n < length (accepted x) \<longrightarrow> strict_prefix rest (accepted x ! n)" "n = length (accepted x) \<longrightarrow> rest = []"
      "parse TcpPacketHeader (received y) = (take n (accepted x), length (concat (take n (accepted x))))"
    by blast
  have d: "delivered y = take n (accepted x)" "pending (recvBuffer y) = rest"
    using \<open>tcp_recv_inv y\<close> n(1,5) by (auto simp: tcp_recv_inv_def)
  have "n = length (accepted x)" if all: "received y = concat (accepted x)"
  proof (rule ccontr)
    assume "n \<noteq> length (accepted x)"
    then have l: "n < length (accepted x)" using n(2) by simp
    have "concat (accepted x) = concat (take n (accepted x)) @ accepted x ! n @ concat (drop (Suc n) (accepted x))"
      using arg_cong [OF id_take_nth_drop [OF l], of concat] by simp
    then have "rest = accepted x ! n @ concat (drop (Suc n) (accepted x))" using n(1) all by simp
    moreover have "length rest < length (accepted x ! n)" using n(3) l prefix_length_less by blast
    ultimately show False by simp
  qed
  then show ?thesis using d n(2,4) by blast
qed

text \<open>
  In every run of two connected sessions, in which writes may fail and either side may disconnect at
  any time, the packets a side has been handed are the first packets the other side has sent, each
  whole, once and in order; and when every byte sent has arrived, all packets have.
\<close>
theorem packets_arrive_in_order:
  assumes "connected_pair cx cy px ax py ay x y" and "\<forall>q \<in> set (accepted x). valid_packet TcpPacketHeader q"
  shows "prefix (delivered y) (accepted x) \<and>
    (received y = concat (accepted x) \<longrightarrow> delivered y = accepted x \<and> pending (recvBuffer y) = [])"
  using delivered_take [OF connection_inv [OF assms(1)] assms(2)] by (auto simp: take_is_prefix)

theorem packets_arrive_in_order_witness:
  "\<exists>y. greeting_pair greeting_sent y \<and> delivered y = [[5, 0, 233, 3, 7]] \<and> pending (recvBuffer y) = []"
proof -
  obtain y where y: "greeting_pair greeting_sent y" "received y = greeting" using greeting_pair_run by blast
  have "valid_packet TcpPacketHeader greeting"
    unfolding greeting_def using framed_valid [of "[]" TcpPacketHeader "[7]"] by simp
  then show ?thesis
    using packets_arrive_in_order [OF y(1)] y pair_values(1) by (auto simp: greeting_bytes)
qed

text \<open>
  C1: End to end: when a side has sent framed messages, the handlers the other side has called are those
  of the first messages sent, in order and each with its message; a message whose class has no handler
  calls none.
\<close>
theorem messages_arrive_in_order:
  assumes "connected_pair cx cy px ax py ay x y"
    and "accepted x = map (\<lambda>(c, body). framed (PKT c) [] body) ms"
    and "\<forall>(c, body) \<in> set ms. length body + 4 \<le> 6000"
  shows "\<exists>k \<le> length ms. map (HandlePacket_Tcp P) (delivered y) =
      map (\<lambda>(c, body). Inr (if c \<in> set registered then map_option (Pair c) (P c body) else None)) (take k ms) \<and>
    (received y = concat (accepted x) \<longrightarrow> k = length ms)"
proof -
  have "\<forall>q \<in> set (accepted x). valid_packet TcpPacketHeader q"
    using assms(2,3) framed_valid [of "[]" TcpPacketHeader] by auto
  from delivered_take [OF connection_inv [OF assms(1)] this] assms(2) obtain k where
    k: "k \<le> length ms" "delivered y = take k (accepted x)" "received y = concat (accepted x) \<longrightarrow> k = length ms"
    by auto
  have "HandlePacket_Tcp P (framed (PKT c) [] body) =
      Inr (if c \<in> set registered then map_option (Pair c) (P c body) else None)"
    if "(c, body) \<in> set (take k ms)" for c body
    using that assms(3) dispatch_framed [of "[]" TcpPacketHeader body P c] in_set_takeD [OF that]
    by (auto simp: HandlePacket_Tcp_def)
  then have "map (HandlePacket_Tcp P) (delivered y) =
      map (\<lambda>(c, body). Inr (if c \<in> set registered then map_option (Pair c) (P c body) else None)) (take k ms)"
    using k(2) by (auto simp: assms(2) take_map)
  then show ?thesis using k(1,3) by blast
qed

theorem messages_arrive_in_order_witness:
  "\<exists>y. greeting_pair greeting_sent y \<and>
     map (HandlePacket_Tcp (\<lambda>c body. Some body)) (delivered y) = [Inr (Some (S_LOGIN, [7]))]"
proof -
  obtain y where y: "greeting_pair greeting_sent y" "received y = greeting" using greeting_pair_run by blast
  have "accepted greeting_sent = map (\<lambda>(c, body). framed (PKT c) [] body) [(S_LOGIN, [7])]"
    by (simp add: pair_values greeting_def)
  from messages_arrive_in_order [OF y(1) this, of "\<lambda>c body. Some body"] y pair_values(1)
  show ?thesis by (auto simp: registered_def)
qed

end
