(* ===== verification/Udp_Link.thy ===== *)
theory Udp_Link
  imports Packets
begin

text \<open>
  Two UDP sessions (\<open>ClientNetworkCore/Session.cpp\<close>) joined by a network that may lose, repeat and
  reorder datagrams: whatever was sent can be received any number of times, at any later time, or
  never. One side sends with \<open>SendReliable\<close> and resends with \<open>Update\<close>; the other side runs the
  history and the acknowledgement of \<open>HandlePacket<UdpPacketHeader>\<close> (\<open>ServerPacketHandler.h\<close>), and
  its acknowledgements reach \<open>HandleAck\<close>. The theory proves what the protocol achieves for the first
  1023 transmissions, and shows on two runs what it does not.
\<close>

section \<open>State and steps\<close>

record link =
  sender :: reliable_udp
  receiver :: reliable_udp
  messages :: "nat list"                \<comment> \<open>buffers given to \<open>SendReliable\<close>, oldest first\<close>
  acks :: "(uint16 \<times> uint32) list"      \<comment> \<open>acknowledgements sent, oldest first\<close>
  taken :: "uint16 list"                \<comment> \<open>numbers the receiver has accepted, oldest first\<close>

definition link_start :: "(nat \<Rightarrow> BYTE list) \<Rightarrow> link" where
  "link_start bytes =
     \<lparr>sender = ReliableUdpSession True bytes, receiver = ReliableUdpSession True (\<lambda>_. []),
      messages = [], acks = [], taken = []\<rparr>"

text \<open>A numbered datagram arrives: an accepted number is acknowledged.\<close>

definition receive_number :: "uint16 \<Rightarrow> link \<Rightarrow> link" where
  "receive_number q L =
     (if q > 0
      then let (accepted, r) = CheckAndRecordReceiveHistory q (receiver L) in
        if accepted
        then L\<lparr>receiver := r, acks := acks L @ [(q, GenerateAckBitfield q r)], taken := taken L @ [q]\<rparr>
        else L
      else L)"

inductive link_step :: "link \<Rightarrow> link \<Rightarrow> bool" where
  l_send: "6 \<le> length (buffer_bytes (sender L) b) \<Longrightarrow> 
    link_step L (L\<lparr>sender := SendReliable b t (sender L), messages := messages L @ [b]\<rparr>)"
| l_update: "link_step L (L\<lparr>sender := Update t (sender L)\<rparr>)"
| l_data: "d \<in> set (datagrams (sender L)) \<Longrightarrow> link_step L (receive_number (header_sequence d) L)"
| l_ack: "(l, bf) \<in> set (acks L) \<Longrightarrow> link_step L (L\<lparr>sender := HandleAck l bf (sender L)\<rparr>)"

inductive link_reachable :: "(nat \<Rightarrow> BYTE list) \<Rightarrow> link \<Rightarrow> bool" for bytes where
  link_init: "link_reachable bytes (link_start bytes)"
| link_next: "link_reachable bytes L \<Longrightarrow> link_step L L' \<Longrightarrow> link_reachable bytes L'"

text \<open>The receiving half is what \<open>acknowledge\<close> does to the session.\<close>

lemma acknowledge_receives:
  assumes "acknowledge ack_body t i q w (receiver L) = Inr (w', r)" and "q > 0"
  shows "receiveHistory r = receiveHistory (receiver (receive_number q L))"
    and "latestSeq r = latestSeq (receiver (receive_number q L))"
  using assms
  by (auto simp: acknowledge_def receive_number_def and_then_Inr_iff Send_def RegisterSend_def
      CheckAndRecordReceiveHistory_def split: if_splits)

section \<open>The sending side\<close>

lemma seqs_from_append: "seqs_from q (n + k) = seqs_from q n @ seqs_from (q + of_nat n) k"
proof (induction n arbitrary: q)
  case (Suc n)
  show ?case by (simp add: seqs_from_Suc Suc.IH add.assoc)
qed simp

definition sent :: "reliable_udp \<Rightarrow> uint16 list" where
  "sent s = map header_sequence (datagrams s)"

lemma sent_cong: "datagrams s' = datagrams s \<Longrightarrow> sent s' = sent s"
  by (simp add: sent_def)

definition sender_inv :: "reliable_udp \<Rightarrow> bool" where
  "sender_inv s \<longleftrightarrow>
     socket_open s \<and> sendSeq s = 1 + of_nat (length (datagrams s)) \<and> sent s = seqs_from 1 (length (datagrams s)) \<and>
     (\<forall>q p. map_of (pendingAckMap s) q = Some p \<longrightarrow> 6 \<le> length (buffer_bytes s (pkt_buffer p))) \<and>
     (\<forall>q. outstanding s q \<longrightarrow> q \<in> set (sent s))"

lemma SendReliable_inv:
  assumes inv: "sender_inv s" and len: "6 \<le> length (buffer_bytes s b)"
  shows "sender_inv (SendReliable b t s)" and "length (datagrams (SendReliable b t s)) = Suc (length (datagrams s))"
    and "set (sent (SendReliable b t s)) = insert (sendSeq s) (set (sent s))"
proof -
  have op: "socket_open s" using inv by (simp add: sender_inv_def)
  then show n: "length (datagrams (SendReliable b t s)) = Suc (length (datagrams s))" by simp
  have new: "header_sequence (write_sequence (sendSeq s) (buffer_bytes s b)) = sendSeq s"
    by (rule header_sequence_write [OF len])
  have "sent (SendReliable b t s) = sent s @ [sendSeq s]" using op new by (simp add: sent_def)
  moreover from this have "set (sent (SendReliable b t s)) = insert (sendSeq s) (set (sent s))" by simp
  moreover have "sent s @ [sendSeq s] = seqs_from 1 (Suc (length (datagrams s)))"
    using inv seqs_from_append [of 1 "length (datagrams s)" 1] by (simp add: sender_inv_def seqs_from_Suc)
  ultimately have sent: "sent (SendReliable b t s) = seqs_from 1 (length (datagrams (SendReliable b t s)))"
    "set (sent (SendReliable b t s)) = insert (sendSeq s) (set (sent s))"
    using n by metis+
  show "set (sent (SendReliable b t s)) = insert (sendSeq s) (set (sent s))" by (rule sent(2))
  show "sender_inv (SendReliable b t s)"
    unfolding sender_inv_def
  proof (intro conjI allI impI)
    show "sent (SendReliable b t s) = seqs_from 1 (length (datagrams (SendReliable b t s)))" by (rule sent(1))
    show "6 \<le> length (buffer_bytes (SendReliable b t s) (pkt_buffer p))"
      if "map_of (pendingAckMap (SendReliable b t s)) q = Some p" for q p
      using that inv len length_write_sequence by (auto simp: sender_inv_def split: if_splits)
    show "q \<in> set (sent (SendReliable b t s))" if "outstanding (SendReliable b t s) q" for q
      using that inv sent(2) by (auto simp: sender_inv_def outstanding_def split: if_splits)
  qed (use inv op n in \<open>simp_all add: sender_inv_def\<close>)
qed

lemma resend_all_inv:
  "sender_inv s \<Longrightarrow> \<forall>k \<in> set ks. outstanding s k \<Longrightarrow>
   sender_inv (resend_all t ks s) \<and> length (datagrams (resend_all t ks s)) = length (datagrams s) + length ks"
proof (induction ks arbitrary: s)
  case (Cons k ks)
  then obtain p where p: "map_of (pendingAckMap s) k = Some p" by (auto simp: outstanding_def)
  then have len: "6 \<le> length (buffer_bytes s (pkt_buffer p))" using Cons.prems(1) by (simp add: sender_inv_def)
  have "\<forall>k' \<in> set ks. outstanding (SendReliable (pkt_buffer p) t s) k'"
    using Cons.prems(2) by (auto simp: outstanding_def)
  then show ?case using Cons.IH SendReliable_inv [OF Cons.prems(1) len] p by simp
qed simp

lemma after_scan_inv: "sender_inv s \<Longrightarrow> sender_inv (after_scan t s) \<and> datagrams (after_scan t s) = datagrams s"
proof -
  assume inv: "sender_inv s"
  have same: "datagrams (after_scan t s) = datagrams s" "buffer_bytes (after_scan t s) = buffer_bytes s"
    "socket_open (after_scan t s) = socket_open s"
    by (simp_all add: after_scan_def Let_def)
  have "pkt_buffer (refresh iv t p) = pkt_buffer p" for iv p by (simp add: refresh_def)
  then have "\<forall>q p. map_of (pendingAckMap (after_scan t s)) q = Some p \<longrightarrow> 6 \<le> length (buffer_bytes s (pkt_buffer p))"
    using inv by (auto simp: sender_inv_def)
  then show ?thesis using inv same sent_cong [OF same(1)] by (auto simp: sender_inv_def)
qed

lemma Update_inv:
  assumes "sender_inv s"
  shows "sender_inv (Update t s)" and "length (datagrams (Update t s)) = length (datagrams s) + length (due_keys t s)"
  using resend_all_inv [of "after_scan t s" "due_keys t s" t] after_scan_inv [OF assms, of t] due_keys_outstanding
  unfolding Update_eq by auto

lemma HandleAck_inv: "sender_inv s \<Longrightarrow> sender_inv (HandleAck l bf s)"
proof -
  assume inv: "sender_inv s"
  have same: "datagrams (HandleAck l bf s) = datagrams s" "buffer_bytes (HandleAck l bf s) = buffer_bytes s"
    "socket_open (HandleAck l bf s) = socket_open s" "sendSeq (HandleAck l bf s) = sendSeq s"
    by (simp_all add: HandleAck_def)
  then show ?thesis using inv HandleAck_lookup [of l bf s] sent_cong [OF same(1)]
    by (auto simp: sender_inv_def outstanding_def split: if_splits)
qed

lemma sender_inv_start: "sender_inv (ReliableUdpSession True bytes)"
  by (simp add: sender_inv_def ReliableUdpSession_def sent_def outstanding_def)

section \<open>The invariant of the link\<close>

text \<open>Two numbers share a bit of the receive history.\<close>

definition same_bit :: "uint16 \<Rightarrow> uint16 \<Rightarrow> bool" where
  "same_bit q q' \<longleftrightarrow> history_index q = history_index q'"

definition receiver_inv :: "link \<Rightarrow> bool" where
  "receiver_inv L \<longleftrightarrow>
     history_wf (receiver L) \<and> set (taken L) \<subseteq> set (sent (sender L)) \<and>
     (\<forall>q. recorded (receiver L) q \<longleftrightarrow> (\<exists>q' \<in> set (taken L). same_bit q q')) \<and>
     distinct (map history_index (taken L)) \<and>
     (\<forall>(l, bf) \<in> set (acks L). l \<in> set (taken L) \<and>
        (\<forall>k < 32. bit bf k \<longrightarrow> (\<exists>q' \<in> set (taken L). same_bit (l - of_nat (Suc k)) q')))"

definition link_inv :: "link \<Rightarrow> bool" where
  "link_inv L \<longleftrightarrow>
     sender_inv (sender L) \<and> receiver_inv L \<and>
     (length (datagrams (sender L)) \<le> 1023 \<longrightarrow>
        (\<forall>q \<in> set (sent (sender L)). outstanding (sender L) q \<or> q \<in> set (taken L)))"

lemma recorded_after:
  assumes "CheckAndRecordReceiveHistory q r = (True, r')" and "history_wf r"
  shows "recorded r' q' \<longleftrightarrow> same_bit q' q \<or> recorded r q'" and "\<not> recorded r q"
  using assms history_index_less [of q]
  by (auto simp: CheckAndRecordReceiveHistory_def recorded_def same_bit_def history_wf_def nth_list_update
      split: if_splits)

lemma receive_receiver_inv:
  assumes inv: "receiver_inv L" and q: "q \<in> set (sent (sender L))"
  shows "receiver_inv (receive_number q L)"
proof -
  obtain ok r where c: "CheckAndRecordReceiveHistory q (receiver L) = (ok, r)" by fastforce
  show ?thesis
  proof (cases "q > 0 \<and> ok")
    case False
    then show ?thesis using inv c by (auto simp: receive_number_def)
  next
    case True
    then have c: "CheckAndRecordReceiveHistory q (receiver L) = (True, r)" and
      L': "receive_number q L = L\<lparr>receiver := r, acks := acks L @ [(q, GenerateAckBitfield q r)], taken := taken L @ [q]\<rparr>"
      using c by (auto simp: receive_number_def)
    have wf: "history_wf (receiver L)" using inv by (simp add: receiver_inv_def)
    have rec: "recorded r q' \<longleftrightarrow> (\<exists>p \<in> set (taken L @ [q]). same_bit q' p)" for q'
      using inv recorded_after(1) [OF c wf, of q'] by (auto simp: receiver_inv_def)
    have fresh: "history_index q \<notin> history_index ` set (taken L)"
      using inv recorded_after(2) [OF c wf] by (auto simp: receiver_inv_def same_bit_def)
    have "bit (GenerateAckBitfield q r) k \<longrightarrow> (\<exists>p \<in> set (taken L @ [q]). same_bit (q - of_nat (Suc k)) p)"
      if "k < 32" for k
      using bit_GenerateAckBitfield [OF that, of q r] rec by (simp del: of_nat_Suc)
    then show ?thesis
      using inv q rec fresh CheckAndRecord_cases(1) [OF c wf] unfolding receiver_inv_def L'
      by (auto simp del: of_nat_Suc)
  qed
qed

lemma small_number:
  assumes "q \<in> set (seqs_from 1 n)" and "n \<le> 1023"
  shows "history_index q = unat q" and "0 < unat q"
proof -
  obtain i where i: "q = of_nat (Suc i)" "i < n" using assms(1) by (auto simp: seqs_from_def)
  then have "unat q = Suc i" using assms(2) by (simp add: unat_of_nat del: of_nat_Suc)
  then show "history_index q = unat q" "0 < unat q"
    using i(2) assms(2) by (simp_all add: history_index_def HISTORY_SIZE_def)
qed

lemma acked_was_taken:
  assumes inv: "receiver_inv L" "sender_inv (sender L)" and n: "length (datagrams (sender L)) \<le> 1023"
    and a: "(l, bf) \<in> set (acks L)" and q: "q \<in> set (sent (sender L))" "acked l bf q"
  shows "q \<in> set (taken L)"
proof -
  have ack: "l \<in> set (taken L)" "\<And>k. k < 32 \<Longrightarrow> bit bf k \<Longrightarrow> \<exists>q' \<in> set (taken L). same_bit (l - of_nat (Suc k)) q'"
    using inv(1) a by (auto simp: receiver_inv_def)
  show ?thesis
  proof (cases "q = l")
    case False
    then obtain k where "k < 32" "bit bf k" "q = l - of_nat (Suc k)" using q(2) by (auto simp: acked_def)
    then obtain q' where q': "q' \<in> set (taken L)" "same_bit q q'" using ack(2) by blast
    have "q' \<in> set (sent (sender L))" using inv(1) q'(1) by (auto simp: receiver_inv_def)
    then have "unat q = unat q'"
      using q(1) q'(2) small_number(1) [OF _ n] inv(2) by (simp add: sender_inv_def same_bit_def)
    then have "q = q'" by (simp add: word_unat_eq_iff)
    then show ?thesis using q'(1) by simp
  qed (use ack in simp)
qed

lemma receiver_inv_sender:
  assumes "receiver_inv L" and "set (sent (sender L)) \<subseteq> set (sent s)"
  shows "receiver_inv (L\<lparr>sender := s\<rparr>)"
  using assms unfolding receiver_inv_def by auto

lemma link_step_inv: "link_step L L' \<Longrightarrow> link_inv L \<Longrightarrow> link_inv L'"
proof (induction rule: link_step.induct)
  case (l_send L b t)
  let ?s = "SendReliable b t (sender L)"
  have s: "sender_inv (sender L)" "receiver_inv L" using l_send by (simp_all add: link_inv_def)
  note new = SendReliable_inv [OF s(1) l_send(1), of t]
  have "outstanding ?s q \<longleftrightarrow> q = sendSeq (sender L) \<or> outstanding (sender L) q" for q
    by (auto simp: outstanding_def)
  moreover have "receiver_inv (L\<lparr>sender := ?s\<rparr>)"
    by (rule receiver_inv_sender [OF s(2)]) (use new(3) in auto)
  then have "receiver_inv (L\<lparr>sender := ?s, messages := messages L @ [b]\<rparr>)" by (simp add: receiver_inv_def)
  ultimately show ?case using l_send(2) new by (auto simp: link_inv_def)
next
  case (l_update L t)
  let ?s = "Update t (sender L)" and ?n = "length (datagrams (sender L))" and ?k = "length (due_keys t (sender L))"
  have s: "sender_inv (sender L)" "receiver_inv L" using l_update by (simp_all add: link_inv_def)
  note new = Update_inv [OF s(1), of t]
  have eq: "set (sent ?s) = set (sent (sender L)) \<union> set (seqs_from (sendSeq (sender L)) ?k)"
    using new s(1) seqs_from_append [of 1 ?n ?k] by (simp add: sender_inv_def)
  then show ?case
    using l_update new receiver_inv_sender [OF s(2)] Update_outstanding [of t "sender L"]
    by (auto simp: link_inv_def)
next
  case (l_data d L)
  have "header_sequence d \<in> set (sent (sender L))" using l_data(1) by (simp add: sent_def)
  then have "receiver_inv (receive_number (header_sequence d) L)"
    using l_data(2) by (auto simp: link_inv_def intro: receive_receiver_inv)
  moreover have "sender (receive_number q L) = sender L" "set (taken L) \<subseteq> set (taken (receive_number q L))" for q
    by (auto simp: receive_number_def split: prod.splits)
  ultimately show ?case using l_data(2) by (auto simp: link_inv_def)
next
  case (l_ack l bf L)
  have s: "sender_inv (sender L)" "receiver_inv L" using l_ack by (simp_all add: link_inv_def)
  have d: "datagrams (HandleAck l bf (sender L)) = datagrams (sender L)" by (simp add: HandleAck_def)
  have "outstanding (HandleAck l bf (sender L)) q \<longleftrightarrow> outstanding (sender L) q \<and> \<not> acked l bf q" for q
    by (simp add: outstanding_def HandleAck_lookup)
  moreover have "receiver_inv (L\<lparr>sender := HandleAck l bf (sender L)\<rparr>)"
    by (rule receiver_inv_sender [OF s(2)]) (simp add: sent_cong [OF d])
  ultimately show ?case
    using l_ack HandleAck_inv [OF s(1)] acked_was_taken [OF s(2,1) _ l_ack(1)] sent_cong [OF d] d
    by (auto simp: link_inv_def)
qed

lemma link_inv_start: "link_inv (link_start bytes)"
proof -
  have "\<not> recorded (ReliableUdpSession True (\<lambda>_. [])) q" for q
    using history_index_less [of q] by (simp add: recorded_def ReliableUdpSession_def)
  moreover have "datagrams (ReliableUdpSession True bytes) = []" by (simp add: ReliableUdpSession_def)
  ultimately show ?thesis
    by (simp add: link_inv_def link_start_def sender_inv_start receiver_inv_def sent_def)
qed

lemma link_reachable_inv: "link_reachable bytes L \<Longrightarrow> link_inv L"
  by (induction rule: link_reachable.induct) (auto intro: link_inv_start link_step_inv)

section \<open>Two runs\<close>

text \<open>One message, resent once although its first copy has arrived.\<close>

definition one_message :: "nat \<Rightarrow> BYTE list" where
  "one_message b = [0, 0, 0, 0, 0, 0, 7]"

definition resent_link :: link where
  "resent_link =
     (let L1 = (link_start one_message)\<lparr>sender := SendReliable 0 0 (sender (link_start one_message)), messages := [0]\<rparr>;
          L2 = receive_number 1 L1;
          L3 = L2\<lparr>sender := Update 1 (sender L2)\<rparr>
      in receive_number 2 L3)"

text \<open>1030 messages, of which only number 5 and the last arrive.\<close>

definition crowded_sender :: reliable_udp where
  "crowded_sender = send_all (replicate 1030 (0, 0)) (ReliableUdpSession True one_message)"

definition crowded_link :: link where
  "crowded_link = receive_number 1030 (receive_number 5
     ((link_start one_message)\<lparr>sender := crowded_sender, messages := replicate 1030 0\<rparr>))"

lemma send_all_bytes: "6 \<le> length (buffer_bytes s 0) \<Longrightarrow> 6 \<le> length (buffer_bytes (send_all (replicate n (0, 0)) s) 0)"
  by (induction n arbitrary: s) (simp_all add: length_write_sequence)

lemma replicate_snoc: "replicate (Suc n) x = replicate n x @ [x]"
  by (simp add: replicate_append_same)

lemma send_all_append: "send_all (xs @ ys) s = send_all ys (send_all xs s)"
  by (induction xs s rule: send_all.induct) simp_all

lemma send_all_reachable:
  "link_reachable one_message
     ((link_start one_message)\<lparr>sender := send_all (replicate n (0, 0)) (ReliableUdpSession True one_message), messages := replicate n 0\<rparr>)"
proof (induction n)
  case 0
  have "(link_start one_message)\<lparr>sender := ReliableUdpSession True one_message, messages := []\<rparr> = link_start one_message"
    by (simp add: link_start_def)
  then show ?case by (simp add: link_init)
next
  case (Suc n)
  let ?s = "send_all (replicate n (0, 0)) (ReliableUdpSession True one_message)"
  have "6 \<le> length (buffer_bytes ?s 0)"
    by (rule send_all_bytes) (simp add: ReliableUdpSession_def one_message_def)
  from link_next [OF Suc l_send, of 0 0] this show ?case
    unfolding replicate_snoc by (simp add: send_all_append)
qed

lemma receive_reachable:
  "link_reachable bytes L \<Longrightarrow> q \<in> set (sent (sender L)) \<Longrightarrow> link_reachable bytes (receive_number q L)"
  by (auto simp: sent_def intro: link_next l_data)

lemma new_receiver: "receiver (link_start bytes) = ReliableUdpSession True (\<lambda>_. [])" "\<not> recorded (ReliableUdpSession True (\<lambda>_. [])) q"
  "latestSeq (ReliableUdpSession True (\<lambda>_. [])) = 0"
  using history_index_less [of q] by (simp_all add: link_start_def recorded_def ReliableUdpSession_def)

text \<open>What the receiver does with a number it has not recorded.\<close>

lemma receive_new:
  assumes "q > 0" and "IsSeqGreater q (latestSeq (receiver L) - 1024)" and "\<not> recorded (receiver L) q"
    and "history_wf (receiver L)"
  shows "\<exists>r. receive_number q L = L\<lparr>receiver := r, acks := acks L @ [(q, GenerateAckBitfield q r)], taken := taken L @ [q]\<rparr> \<and>
    history_wf r \<and> (\<forall>p. recorded r p \<longleftrightarrow> same_bit p q \<or> recorded (receiver L) p) \<and>
    latestSeq r = (if IsSeqGreater q (latestSeq (receiver L)) then q else latestSeq (receiver L))"
proof -
  obtain r where c: "CheckAndRecordReceiveHistory q (receiver L) = (True, r)"
    using assms(2,3) by (auto simp: CheckAndRecordReceiveHistory_def recorded_def)
  have "latestSeq r = (if IsSeqGreater q (latestSeq (receiver L)) then q else latestSeq (receiver L))"
    using c by (auto simp: CheckAndRecordReceiveHistory_def split: if_splits)
  then show ?thesis
    using assms(1) c recorded_after(1) [OF c assms(4)] CheckAndRecord_cases(1) [OF c assms(4)]
    by (auto simp: receive_number_def)
qed

lemma crowded_sent: "set (sent crowded_sender) = set (seqs_from 1 1030)"
proof -
  let ?L = "(link_start one_message)\<lparr>sender := crowded_sender, messages := replicate 1030 0\<rparr>"
  have "link_inv ?L" unfolding crowded_sender_def by (rule link_reachable_inv [OF send_all_reachable])
  then have "sender_inv crowded_sender" by (simp add: link_inv_def)
  moreover have "length (datagrams (send_all (replicate n (0, 0)) (ReliableUdpSession True one_message))) = n" for n
  proof -
    have "socket_open (ReliableUdpSession True one_message)" "datagrams (ReliableUdpSession True one_message) = []"
      "\<forall>(b, t) \<in> set (replicate n (0, 0)). 6 \<le> length (buffer_bytes (ReliableUdpSession True one_message) b)"
      by (auto simp: ReliableUdpSession_def one_message_def)
    from send_all_datagrams [OF this(1,3)] this(2) show ?thesis by (metis append_Nil length_map length_replicate length_seqs_from)
  qed
  ultimately show ?thesis by (simp add: sender_inv_def crowded_sender_def del: seqs_from_Suc)
qed

lemma in_seqs_from_1: "0 < k \<Longrightarrow> k \<le> n \<Longrightarrow> of_nat k \<in> set (seqs_from 1 n)"
  by (cases k) (auto simp: seqs_from_def)

lemma crowded_result:
  "link_reachable one_message crowded_link" "taken crowded_link = [5, 1030]"
  "\<exists>bf. (1030, bf) \<in> set (acks crowded_link) \<and> bit bf 0"
  "1029 \<in> set (sent (sender crowded_link))" "outstanding (sender crowded_link) 1029"
proof -
  define L0 where "L0 = (link_start one_message)\<lparr>sender := crowded_sender, messages := replicate 1030 0\<rparr>"
  have L0: "receiver L0 = ReliableUdpSession True (\<lambda>_. [])" "taken L0 = []" "sender L0 = crowded_sender"
    by (simp_all add: L0_def link_start_def)
  obtain r1 where r1: "receive_number 5 L0 = L0\<lparr>receiver := r1, acks := acks L0 @ [(5, GenerateAckBitfield 5 r1)], taken := taken L0 @ [5]\<rparr>"
    "history_wf r1" "\<And>p. recorded r1 p \<longleftrightarrow> same_bit p 5" "latestSeq r1 = 5"
    using receive_new [of 5 L0] L0(1) new_receiver(2,3) by (auto simp: IsSeqGreater_def)
  define L1 where "L1 = receive_number 5 L0"
  have L1: "receiver L1 = r1" "taken L1 = [5]" "sender L1 = crowded_sender" using r1(1) L0 by (simp_all add: L1_def)
  have "\<not> recorded r1 1030" using r1(3) by (simp add: same_bit_def history_index_def HISTORY_SIZE_def)
  then obtain r2 where r2: "receive_number 1030 L1 = L1\<lparr>receiver := r2, acks := acks L1 @ [(1030, GenerateAckBitfield 1030 r2)], taken := taken L1 @ [1030]\<rparr>"
    "\<And>p. recorded r2 p \<longleftrightarrow> same_bit p 1030 \<or> recorded r1 p"
    using receive_new [of 1030 L1] L1(1) r1(2,4) by (auto simp: IsSeqGreater_def)
  have link: "crowded_link = receive_number 1030 L1" by (simp add: crowded_link_def L1_def L0_def)
  show "taken crowded_link = [5, 1030]" unfolding link r2(1) using L1(2) by simp
  have "recorded r2 1029" using r2(2) r1(3) by (simp add: same_bit_def history_index_def HISTORY_SIZE_def)
  then have "bit (GenerateAckBitfield 1030 r2) 0" using bit_GenerateAckBitfield [of 0 1030 r2] by simp
  then show "\<exists>bf. (1030, bf) \<in> set (acks crowded_link) \<and> bit bf 0" unfolding link r2(1) by auto
  have sent: "set (sent (sender crowded_link)) = set (seqs_from 1 1030)"
    unfolding link r2(1) using L1(3) crowded_sent by simp
  have n: "5 \<in> set (seqs_from 1 1030)" "1029 \<in> set (seqs_from 1 1030)" "1030 \<in> set (seqs_from 1 1030)"
    using in_seqs_from_1 [of 5 1030] in_seqs_from_1 [of 1029 1030] in_seqs_from_1 [of 1030 1030] by simp_all
  then show "1029 \<in> set (sent (sender crowded_link))" using sent by simp
  have "outstanding crowded_sender 1029"
    unfolding crowded_sender_def send_all_outstanding using n(2) by (simp add: ReliableUdpSession_def)
  then show "outstanding (sender crowded_link) 1029" unfolding link r2(1) using L1(3) by simp
  have "link_reachable one_message L0" unfolding L0_def crowded_sender_def by (rule send_all_reachable)
  then have "link_reachable one_message L1"
    unfolding L1_def by (rule receive_reachable) (use L0 n(1) crowded_sent in simp)
  then show "link_reachable one_message crowded_link"
    unfolding link by (rule receive_reachable) (use L1 n(3) crowded_sent in simp)
qed

section \<open>Properties\<close>

text \<open>
  C8: However the network loses, repeats and reorders datagrams and acknowledgements: the receiver accepts
  each number at most once, only numbers that were sent, and not more than 1024 of them; and among the
  first 1023 transmissions the sender drops an entry only when the receiver has accepted its packet.
\<close>
theorem acknowledged_means_accepted:
  assumes "link_reachable bytes L"
  shows "distinct (taken L) \<and> set (taken L) \<subseteq> set (sent (sender L)) \<and> length (taken L) \<le> 1024 \<and>
    (length (datagrams (sender L)) \<le> 1023 \<longrightarrow>
      (\<forall>d \<in> set (datagrams (sender L)).
        outstanding (sender L) (header_sequence d) \<or> header_sequence d \<in> set (taken L)))"
proof -
  have inv: "link_inv L" by (rule link_reachable_inv [OF assms])
  then have d: "distinct (map history_index (taken L))" "set (taken L) \<subseteq> set (sent (sender L))"
    by (simp_all add: link_inv_def receiver_inv_def)
  have "length (taken L) = card (history_index ` set (taken L))"
    using distinct_card [OF d(1)] by simp
  also have "\<dots> \<le> card {..<HISTORY_SIZE}" by (intro card_mono) auto
  finally show ?thesis
    using inv d by (auto simp: link_inv_def sent_def HISTORY_SIZE_def distinct_map)
qed

theorem acknowledged_means_accepted_witness:
  "distinct (taken crowded_link) \<and> set (taken crowded_link) \<subseteq> set (sent (sender crowded_link))"
  using acknowledged_means_accepted [OF crowded_result(1)] by blast

text \<open>
  C2: Beyond that the promise is broken: a packet is lost, and the acknowledgement of a later one makes the
  sender drop its entry, because the history still holds the bit of a number 1024 below.
\<close>
theorem lost_packet_acknowledged:
  "\<exists>L q. link_reachable one_message L \<and> q \<in> set (sent (sender L)) \<and> q \<notin> set (taken L) \<and>
     \<not> outstanding (sender L) q"
proof -
  obtain bf where bf: "(1030, bf) \<in> set (acks crowded_link)" "bit bf 0" using crowded_result(3) by blast
  let ?L = "crowded_link\<lparr>sender := HandleAck 1030 bf (sender crowded_link)\<rparr>"
  have "link_reachable one_message ?L" by (rule link_next [OF crowded_result(1) l_ack [OF bf(1)]])
  moreover have "acked 1030 bf 1029" using bf(2) by (auto simp: acked_def intro!: bexI [of _ 0])
  then have "\<not> outstanding (sender ?L) 1029" by (simp add: outstanding_def HandleAck_lookup)
  moreover have "sent (sender ?L) = sent (sender crowded_link)"
    using sent_cong [of "HandleAck 1030 bf (sender crowded_link)"] by (simp add: HandleAck_def)
  ultimately show ?thesis
    using crowded_result(2,4) by (intro exI [of _ ?L] exI [of _ 1029]) simp
qed

lemma resent_result:
  "link_reachable one_message resent_link" "messages resent_link = [0]" "taken resent_link = [1, 2]"
  "map (drop 6) (datagrams (sender resent_link)) = [[7], [7]]"
proof -
  let ?s = "ReliableUdpSession True one_message"
  define S1 where "S1 = SendReliable 0 0 ?s"
  define L1 where "L1 = (link_start one_message)\<lparr>sender := S1, messages := [0]\<rparr>"
  have start: "sender (link_start one_message) = ?s" "messages (link_start one_message) = []"
    by (simp_all add: link_start_def)
  have p1: "link_reachable one_message L1"
    using link_next [OF link_init l_send, of one_message 0 0]
    by (simp add: L1_def S1_def start) (simp add: ReliableUdpSession_def one_message_def)
  have s1: "map_of (pendingAckMap S1) = [1 \<mapsto> \<lparr>pkt_buffer = 0, pkt_sequence = 1, pkt_timestamp = 0, retryCount = 0\<rparr>]"
    "pendingAckMap S1 = [(1, \<lparr>pkt_buffer = 0, pkt_sequence = 1, pkt_timestamp = 0, retryCount = 0\<rparr>)]"
    "resendIntervalMs S1 = f32 (1 / 10)" "sendSeq S1 = 2" "datagrams S1 = [[0, 0, 0, 0, 1, 0, 7]]"
    "socket_open S1" "buffer_bytes S1 0 = [0, 0, 0, 0, 1, 0, 7]"
    by (simp_all add: S1_def SendReliable_def Send_def RegisterSend_def ReliableUdpSession_def one_message_def
        write_sequence_def store_def le16_bytes_def Let_def)
  have L1: "receiver L1 = ReliableUdpSession True (\<lambda>_. [])" "taken L1 = []" "sender L1 = S1" "messages L1 = [0]"
    by (simp_all add: L1_def link_start_def)
  obtain r1 where r1: "receive_number 1 L1 = L1\<lparr>receiver := r1, acks := acks L1 @ [(1, GenerateAckBitfield 1 r1)], taken := taken L1 @ [1]\<rparr>"
    "history_wf r1" "\<And>p. recorded r1 p \<longleftrightarrow> same_bit p 1" "latestSeq r1 = 1"
    using receive_new [of 1 L1] L1(1) new_receiver(2,3) by (auto simp: IsSeqGreater_def)
  define L2 where "L2 = receive_number 1 L1"
  have L2: "receiver L2 = r1" "taken L2 = [1]" "sender L2 = S1" "messages L2 = [0]"
    unfolding L2_def r1(1) using L1 by simp_all
  have p2: "link_reachable one_message L2"
    unfolding L2_def by (rule receive_reachable [OF p1]) (simp add: L1 sent_def s1 header_sequence_def read_u16_def le16_def)
  define L3 where "L3 = L2\<lparr>sender := Update 1 (sender L2)\<rparr>"
  have p3: "link_reachable one_message L3" unfolding L3_def by (rule link_next [OF p2 l_update])
  have due: "is_due (resendIntervalMs S1) 1 \<lparr>pkt_buffer = 0, pkt_sequence = 1, pkt_timestamp = 0, retryCount = 0\<rparr>"
    using f32_tenth_bounds by (simp add: s1(3) is_due_def elapsed_def)
  then have keys: "due_keys 1 S1 = [1]" by (simp add: due_keys_def s1(2))
  let ?a = "after_scan 1 S1"
  have a: "socket_open ?a" "buffer_bytes ?a = buffer_bytes S1" "datagrams ?a = datagrams S1" "sendSeq ?a = 2"
    using s1(4,6) by (simp_all add: after_scan_def Let_def)
  have "map_of (pendingAckMap ?a) 1 = Some (refresh (f32 (1 / 10)) 1 \<lparr>pkt_buffer = 0, pkt_sequence = 1, pkt_timestamp = 0, retryCount = 0\<rparr>)"
    by (simp add: s1(1,3))
  moreover have "pkt_buffer (refresh iv t p) = pkt_buffer p" for iv t p by (simp add: refresh_def)
  ultimately have up: "Update 1 S1 = SendReliable 0 1 ?a"
    unfolding Update_eq keys by (simp add: s1(1,3))
  have d: "datagrams (Update 1 S1) = [[0, 0, 0, 0, 1, 0, 7], [0, 0, 0, 0, 2, 0, 7]]"
    unfolding up using a s1(5,7) by (simp add: write_sequence_def store_def le16_bytes_def del: SendReliable_simps(5))
  have L3: "receiver L3 = r1" "taken L3 = [1]" "sender L3 = Update 1 S1" "messages L3 = [0]"
    by (simp_all add: L3_def L2)
  have "\<not> recorded r1 2" using r1(3) by (simp add: same_bit_def history_index_def HISTORY_SIZE_def)
  then obtain r2 where r2: "receive_number 2 L3 = L3\<lparr>receiver := r2, acks := acks L3 @ [(2, GenerateAckBitfield 2 r2)], taken := taken L3 @ [2]\<rparr>"
    using receive_new [of 2 L3] L3(1) r1(2,4) by (auto simp: IsSeqGreater_def)
  have link: "resent_link = receive_number 2 L3"
    by (simp add: resent_link_def L3_def L2_def L1_def S1_def start Let_def del: SendReliable_simps)
  show "link_reachable one_message resent_link"
    unfolding link by (rule receive_reachable [OF p3]) (simp add: L3 sent_def d header_sequence_def read_u16_def le16_def)
  show "messages resent_link = [0]" "taken resent_link = [1, 2]"
    "map (drop 6) (datagrams (sender resent_link)) = [[7], [7]]"
    unfolding link r2 using L3 d by simp_all
qed

text \<open>
  C3: A message is not delivered once either: the resend of a packet whose first copy has arrived goes out
  under a new number, and the receiver accepts the second copy as a packet of its own.
\<close>
theorem resent_message_accepted_twice:
  "\<exists>L. link_reachable one_message L \<and> messages L = [0] \<and> taken L = [1, 2] \<and>
     map (drop 6) (datagrams (sender L)) = [[7], [7]]"
  by (intro exI [of _ resent_link] conjI resent_result)

end
