(* ===== verification/Gl_Renderer.thy ===== *)
theory Gl_Renderer
  imports Player
begin

text \<open>
  The drawing half of \<open>Renderer\<close> (\<open>DummyClient/Renderer.h\<close>, \<open>Renderer.cpp\<close>): the window and the shader
  program, the vertex arrays and buffers of the five meshes, the draw functions and \<open>Shutdown\<close>. OpenGL is
  an argument of every operation, the record \<open>gl_api\<close> of the functions the renderer calls on a state of
  any type. What the specification of version 3.3 promises of them is the locale \<open>gl_driver\<close>: seen through
  an abstraction, each function acts on the objects the specification names as \<open>documented\<close> does.
  Which names \<open>glGen\<close> hands out is left open, and the matrices of GLM are an argument too. The menus are in
  \<open>Game_Loop\<close>.
\<close>

section \<open>OpenGL as it is documented\<close>

text \<open>
  The objects of the specification. The functions are null until they have been loaded, an invalid call sets
  the error flag, and a draw that reads outside a buffer is undefined.
\<close>

datatype buffer_data = Floats "fp list" | Uints "nat list"

record attrib =
  a_buffer :: nat
  a_size :: nat          \<comment> \<open>in floats\<close>
  a_stride :: nat        \<comment> \<open>in bytes\<close>
  a_offset :: nat

record vertex_array =
  pointers :: "(nat \<times> attrib) list"
  arrays_on :: "nat list"
  elements :: nat

datatype mode = Lines | Triangles

record 'm drawing =
  dr_mode :: mode
  dr_color :: vec4
  dr_mvp :: 'm
  dr_positions :: "fp list list"

datatype location = NoLocation | LocMVP | LocColor

record 'm gl =
  gl_loaded :: bool
  vaos :: "(nat \<times> vertex_array) list"
  vbos :: "(nat \<times> buffer_data) list"
  shaders :: "nat list"
  programs :: "nat list"
  linked :: bool
  bound_vao :: nat
  bound_vbo :: nat
  in_use :: nat
  u_mvp :: 'm
  u_color :: vec4
  depth_test :: bool
  gl_error :: bool
  drawings :: "'m drawing list"

definition glGenVertexArrays :: "(nat list \<Rightarrow> nat) \<Rightarrow> 'm gl \<Rightarrow> nat \<times> 'm gl" where
  "glGenVertexArrays gen g =
     (let n = gen (map fst (vaos g))
      in (n, g\<lparr>vaos := (n, \<lparr>pointers = [], arrays_on = [], elements = 0\<rparr>) # vaos g\<rparr>))"

definition glGenBuffers :: "(nat list \<Rightarrow> nat) \<Rightarrow> 'm gl \<Rightarrow> nat \<times> 'm gl" where
  "glGenBuffers gen g = (let n = gen (map fst (vbos g)) in (n, g\<lparr>vbos := (n, Floats []) # vbos g\<rparr>))"

definition gl_invalid :: "'m gl \<Rightarrow> 'm gl" where
  "gl_invalid g = g\<lparr>gl_error := True\<rparr>"

definition glBindVertexArray :: "nat \<Rightarrow> 'm gl \<Rightarrow> 'm gl" where
  "glBindVertexArray n g =
     (if n = 0 \<or> n \<in> fst ` set (vaos g) then g\<lparr>bound_vao := n\<rparr> else gl_invalid g)"

definition on_vao :: "(vertex_array \<Rightarrow> vertex_array) \<Rightarrow> 'm gl \<Rightarrow> 'm gl" where
  "on_vao f g =
     (case map_of (vaos g) (bound_vao g) of
        None \<Rightarrow> gl_invalid g
      | Some a \<Rightarrow> g\<lparr>vaos := AList.update (bound_vao g) (f a) (vaos g)\<rparr>)"

definition bind_array_buffer :: "nat \<Rightarrow> 'm gl \<Rightarrow> 'm gl" where
  "bind_array_buffer n g = (if n \<in> fst ` set (vbos g) then g\<lparr>bound_vbo := n\<rparr> else gl_invalid g)"

definition bind_element_buffer :: "nat \<Rightarrow> 'm gl \<Rightarrow> 'm gl" where
  "bind_element_buffer n g =
     (if n \<in> fst ` set (vbos g) then on_vao (\<lambda>a. a\<lparr>elements := n\<rparr>) g else gl_invalid g)"

definition buffer_data :: "nat \<Rightarrow> buffer_data \<Rightarrow> 'm gl \<Rightarrow> 'm gl" where
  "buffer_data n d g = (if n \<in> fst ` set (vbos g) then g\<lparr>vbos := AList.update n d (vbos g)\<rparr> else gl_invalid g)"

definition array_data :: "fp list \<Rightarrow> 'm gl \<Rightarrow> 'm gl" where
  "array_data xs g = buffer_data (bound_vbo g) (Floats xs) g"

definition element_data :: "nat list \<Rightarrow> 'm gl \<Rightarrow> 'm gl" where
  "element_data is g =
     (case map_of (vaos g) (bound_vao g) of None \<Rightarrow> gl_invalid g | Some a \<Rightarrow> buffer_data (elements a) (Uints is) g)"

text \<open>\<open>glBufferSubData\<close> at offset 0 replaces a prefix of the bound buffer.\<close>

definition array_sub_data :: "fp list \<Rightarrow> 'm gl \<Rightarrow> 'm gl" where
  "array_sub_data xs g =
     (case map_of (vbos g) (bound_vbo g) of
        Some (Floats ys) \<Rightarrow>
          if length xs \<le> length ys then buffer_data (bound_vbo g) (Floats (xs @ drop (length xs) ys)) g else gl_invalid g
      | _ \<Rightarrow> gl_invalid g)"

definition glVertexAttribPointer :: "nat \<Rightarrow> nat \<Rightarrow> nat \<Rightarrow> nat \<Rightarrow> 'm gl \<Rightarrow> 'm gl" where
  "glVertexAttribPointer i sz stride off g =
     on_vao (\<lambda>a. a\<lparr>pointers := (i, \<lparr>a_buffer = bound_vbo g, a_size = sz, a_stride = stride, a_offset = off\<rparr>) # pointers a\<rparr>) g"

definition glEnableVertexAttribArray :: "nat \<Rightarrow> 'm gl \<Rightarrow> 'm gl" where
  "glEnableVertexAttribArray i g = on_vao (\<lambda>a. a\<lparr>arrays_on := i # arrays_on a\<rparr>) g"

text \<open>A program can be used once it has been linked.\<close>

definition glUseProgram :: "nat \<Rightarrow> 'm gl \<Rightarrow> 'm gl" where
  "glUseProgram p g = (if p \<in> set (programs g) \<and> linked g then g\<lparr>in_use := p\<rparr> else gl_invalid g)"

definition glGetUniformLocation :: "location \<Rightarrow> nat \<Rightarrow> 'm gl \<Rightarrow> location" where
  "glGetUniformLocation name p g = (if p \<in> set (programs g) \<and> linked g then name else NoLocation)"

definition glUniform4f :: "location \<Rightarrow> vec4 \<Rightarrow> 'm gl \<Rightarrow> 'm gl" where
  "glUniform4f l c g =
     (if in_use g = 0 then gl_invalid g else if l = LocColor then g\<lparr>u_color := c\<rparr> else g)"

definition glUniformMatrix4fv :: "location \<Rightarrow> 'm \<Rightarrow> 'm gl \<Rightarrow> 'm gl" where
  "glUniformMatrix4fv l m g =
     (if in_use g = 0 then gl_invalid g else if l = LocMVP then g\<lparr>u_mvp := m\<rparr> else g)"

text \<open>Vertex \<open>v\<close> of an attribute, when the buffer reaches that far.\<close>

definition fetch :: "(nat \<times> buffer_data) list \<Rightarrow> attrib \<Rightarrow> nat \<Rightarrow> fp list option" where
  "fetch bs a v =
     (case map_of bs (a_buffer a) of
        Some (Floats xs) \<Rightarrow>
          let k = a_offset a + v * a_stride a
          in if k + 4 * a_size a \<le> 4 * length xs then Some (take (a_size a) (drop (k div 4) xs)) else None
      | _ \<Rightarrow> None)"

text \<open>All arrays that are switched on are read, array 0 holds the positions.\<close>

definition vertex :: "(nat \<times> buffer_data) list \<Rightarrow> vertex_array \<Rightarrow> nat \<Rightarrow> fp list option" where
  "vertex bs a v =
     (if \<forall>i \<in> set (arrays_on a). case map_of (pointers a) i of None \<Rightarrow> False | Some p \<Rightarrow> fetch bs p v \<noteq> None
      then (case map_of (pointers a) 0 of None \<Rightarrow> None | Some p \<Rightarrow> fetch bs p v)
      else None)"

definition draw_vertices :: "mode \<Rightarrow> nat list \<Rightarrow> 'm gl \<Rightarrow> 'm gl res" where
  "draw_vertices m vs g =
     (case map_of (vaos g) (bound_vao g) of
        None \<Rightarrow> Inr (gl_invalid g)
      | Some a \<Rightarrow>
          if in_use g = 0 then Inr (gl_invalid g)
          else if \<forall>v \<in> set vs. vertex (vbos g) a v \<noteq> None
          then Inr (g\<lparr>drawings := drawings g @ [\<lparr>dr_mode = m, dr_color = u_color g, dr_mvp = u_mvp g,
                 dr_positions = map (\<lambda>v. the (vertex (vbos g) a v)) vs\<rparr>]\<rparr>)
          else Inl OutOfBounds)"

definition glDrawArrays :: "mode \<Rightarrow> nat \<Rightarrow> nat \<Rightarrow> 'm gl \<Rightarrow> 'm gl res" where
  "glDrawArrays m start n g = draw_vertices m [start..<start + n] g"

definition glDrawElements :: "mode \<Rightarrow> nat \<Rightarrow> 'm gl \<Rightarrow> 'm gl res" where
  "glDrawElements m n g =
     (case map_of (vaos g) (bound_vao g) of
        None \<Rightarrow> Inr (gl_invalid g)
      | Some a \<Rightarrow>
          (case map_of (vbos g) (elements a) of
             Some (Uints is) \<Rightarrow> if n \<le> length is then draw_vertices m (take n is) g else Inl OutOfBounds
           | _ \<Rightarrow> Inl OutOfBounds))"

definition glDeleteVertexArrays :: "nat \<Rightarrow> 'm gl \<Rightarrow> 'm gl" where
  "glDeleteVertexArrays n g = g\<lparr>vaos := AList.delete n (vaos g), bound_vao := (if bound_vao g = n then 0 else bound_vao g)\<rparr>"

definition glDeleteBuffers :: "nat \<Rightarrow> 'm gl \<Rightarrow> 'm gl" where
  "glDeleteBuffers n g = g\<lparr>vbos := AList.delete n (vbos g), bound_vbo := (if bound_vbo g = n then 0 else bound_vbo g)\<rparr>"

definition glDeleteProgram :: "nat \<Rightarrow> 'm gl \<Rightarrow> 'm gl" where
  "glDeleteProgram p g = g\<lparr>programs := removeAll p (programs g)\<rparr>"

text \<open>Shaders and programs share their names.\<close>

definition new_program_name :: "(nat list \<Rightarrow> nat) \<Rightarrow> 'm gl \<Rightarrow> nat" where
  "new_program_name gen g = gen (shaders g @ programs g)"

definition glCreateShader :: "(nat list \<Rightarrow> nat) \<Rightarrow> 'm gl \<Rightarrow> nat \<times> 'm gl" where
  "glCreateShader gen g = (let n = new_program_name gen g in (n, g\<lparr>shaders := n # shaders g\<rparr>))"

definition glCreateProgram :: "(nat list \<Rightarrow> nat) \<Rightarrow> 'm gl \<Rightarrow> nat \<times> 'm gl" where
  "glCreateProgram gen g = (let n = new_program_name gen g in (n, g\<lparr>programs := n # programs g\<rparr>))"

definition glLinkProgram :: "nat \<Rightarrow> nat \<Rightarrow> nat \<Rightarrow> 'm gl \<Rightarrow> 'm gl" where
  "glLinkProgram vs fs p g =
     (if p \<in> set (programs g) \<and> {vs, fs} \<subseteq> set (shaders g) then g\<lparr>linked := True\<rparr> else gl_invalid g)"

definition glDeleteShader :: "nat \<Rightarrow> 'm gl \<Rightarrow> 'm gl" where
  "glDeleteShader n g = g\<lparr>shaders := removeAll n (shaders g)\<rparr>"

section \<open>OpenGL as the renderer calls it\<close>

text \<open>
  The functions, on a state of the driver of type \<open>'g\<close>. \<open>api_LinkProgram\<close> stands for attaching both shaders
  and linking; creating a shader includes its source and its compilation.
\<close>

record ('g, 'm) gl_api =
  api_loaded :: "'g \<Rightarrow> bool"
  api_load :: "'g \<Rightarrow> 'g"
  api_set_depth :: "bool \<Rightarrow> 'g \<Rightarrow> 'g"
  api_Clear :: "'g \<Rightarrow> 'g"
  api_GenVertexArrays :: "'g \<Rightarrow> nat \<times> 'g"
  api_GenBuffers :: "'g \<Rightarrow> nat \<times> 'g"
  api_BindVertexArray :: "nat \<Rightarrow> 'g \<Rightarrow> 'g"
  api_bind_array_buffer :: "nat \<Rightarrow> 'g \<Rightarrow> 'g"
  api_bind_element_buffer :: "nat \<Rightarrow> 'g \<Rightarrow> 'g"
  api_array_data :: "fp list \<Rightarrow> 'g \<Rightarrow> 'g"
  api_element_data :: "nat list \<Rightarrow> 'g \<Rightarrow> 'g"
  api_array_sub_data :: "fp list \<Rightarrow> 'g \<Rightarrow> 'g"
  api_VertexAttribPointer :: "nat \<Rightarrow> nat \<Rightarrow> nat \<Rightarrow> nat \<Rightarrow> 'g \<Rightarrow> 'g"
  api_EnableVertexAttribArray :: "nat \<Rightarrow> 'g \<Rightarrow> 'g"
  api_CreateShader :: "'g \<Rightarrow> nat \<times> 'g"
  api_CreateProgram :: "'g \<Rightarrow> nat \<times> 'g"
  api_LinkProgram :: "nat \<Rightarrow> nat \<Rightarrow> nat \<Rightarrow> 'g \<Rightarrow> 'g"
  api_DeleteShader :: "nat \<Rightarrow> 'g \<Rightarrow> 'g"
  api_link_status :: "nat \<Rightarrow> 'g \<Rightarrow> bool"
  api_UseProgram :: "nat \<Rightarrow> 'g \<Rightarrow> 'g"
  api_GetUniformLocation :: "location \<Rightarrow> nat \<Rightarrow> 'g \<Rightarrow> location"
  api_Uniform4f :: "location \<Rightarrow> vec4 \<Rightarrow> 'g \<Rightarrow> 'g"
  api_UniformMatrix4fv :: "location \<Rightarrow> 'm \<Rightarrow> 'g \<Rightarrow> 'g"
  api_DrawArrays :: "mode \<Rightarrow> nat \<Rightarrow> nat \<Rightarrow> 'g \<Rightarrow> 'g res"
  api_DrawElements :: "mode \<Rightarrow> nat \<Rightarrow> 'g \<Rightarrow> 'g res"
  api_DeleteVertexArrays :: "nat \<Rightarrow> 'g \<Rightarrow> 'g"
  api_DeleteBuffers :: "nat \<Rightarrow> 'g \<Rightarrow> 'g"
  api_DeleteProgram :: "nat \<Rightarrow> 'g \<Rightarrow> 'g"

definition documented :: "(nat list \<Rightarrow> nat) \<Rightarrow> ('m gl, 'm) gl_api" where
  "documented gen =
     \<lparr>api_loaded = gl_loaded, api_load = (\<lambda>g. g\<lparr>gl_loaded := True\<rparr>), api_set_depth = (\<lambda>b g. g\<lparr>depth_test := b\<rparr>),
      api_Clear = (\<lambda>g. g), api_GenVertexArrays = glGenVertexArrays gen, api_GenBuffers = glGenBuffers gen,
      api_BindVertexArray = glBindVertexArray, api_bind_array_buffer = bind_array_buffer,
      api_bind_element_buffer = bind_element_buffer, api_array_data = array_data, api_element_data = element_data,
      api_array_sub_data = array_sub_data, api_VertexAttribPointer = glVertexAttribPointer,
      api_EnableVertexAttribArray = glEnableVertexAttribArray, api_CreateShader = glCreateShader gen,
      api_CreateProgram = glCreateProgram gen, api_LinkProgram = glLinkProgram, api_DeleteShader = glDeleteShader,
      api_link_status = (\<lambda>p g. p \<in> set (programs g) \<and> linked g), api_UseProgram = glUseProgram,
      api_GetUniformLocation = glGetUniformLocation, api_Uniform4f = glUniform4f, api_UniformMatrix4fv = glUniformMatrix4fv,
      api_DrawArrays = glDrawArrays, api_DrawElements = glDrawElements, api_DeleteVertexArrays = glDeleteVertexArrays,
      api_DeleteBuffers = glDeleteBuffers, api_DeleteProgram = glDeleteProgram\<rparr>"

lemma documented_simps [simp]:
  "api_loaded (documented gen) = gl_loaded"
  "api_load (documented gen) = (\<lambda>g. g\<lparr>gl_loaded := True\<rparr>)"
  "api_set_depth (documented gen) = (\<lambda>b g. g\<lparr>depth_test := b\<rparr>)"
  "api_Clear (documented gen) = (\<lambda>g. g)"
  "api_GenVertexArrays (documented gen) = glGenVertexArrays gen"
  "api_GenBuffers (documented gen) = glGenBuffers gen"
  "api_BindVertexArray (documented gen) = glBindVertexArray"
  "api_bind_array_buffer (documented gen) = bind_array_buffer"
  "api_bind_element_buffer (documented gen) = bind_element_buffer"
  "api_array_data (documented gen) = array_data"
  "api_element_data (documented gen) = element_data"
  "api_array_sub_data (documented gen) = array_sub_data"
  "api_VertexAttribPointer (documented gen) = glVertexAttribPointer"
  "api_EnableVertexAttribArray (documented gen) = glEnableVertexAttribArray"
  "api_CreateShader (documented gen) = glCreateShader gen"
  "api_CreateProgram (documented gen) = glCreateProgram gen"
  "api_LinkProgram (documented gen) = glLinkProgram"
  "api_DeleteShader (documented gen) = glDeleteShader"
  "api_link_status (documented gen) = (\<lambda>p g. p \<in> set (programs g) \<and> linked g)"
  "api_UseProgram (documented gen) = glUseProgram"
  "api_GetUniformLocation (documented gen) = glGetUniformLocation"
  "api_Uniform4f (documented gen) = glUniform4f"
  "api_UniformMatrix4fv (documented gen) = glUniformMatrix4fv"
  "api_DrawArrays (documented gen) = glDrawArrays"
  "api_DrawElements (documented gen) = glDrawElements"
  "api_DeleteVertexArrays (documented gen) = glDeleteVertexArrays"
  "api_DeleteBuffers (documented gen) = glDeleteBuffers"
  "api_DeleteProgram (documented gen) = glDeleteProgram"
  by (simp_all add: documented_def)

text \<open>Before anything was called.\<close>

definition empty_gl :: "'m \<Rightarrow> 'm gl" where
  "empty_gl m =
     \<lparr>gl_loaded = False, vaos = [], vbos = [], shaders = [], programs = [], linked = False, bound_vao = 0,
      bound_vbo = 0, in_use = 0, u_mvp = m, u_color = Vec4 0 0 0 0, depth_test = False, gl_error = False, drawings = []\<rparr>"

section \<open>The renderer\<close>

text \<open>GLM and the functions of the C library the renderer uses.\<close>

record 'm glm =
  mat_identity :: 'm
  mat_translate :: "'m \<Rightarrow> vec3 \<Rightarrow> 'm"
  mat_rotate :: "'m \<Rightarrow> fp \<Rightarrow> vec3 \<Rightarrow> 'm"
  mat_scale :: "'m \<Rightarrow> vec3 \<Rightarrow> 'm"
  mat_mult :: "'m \<Rightarrow> 'm \<Rightarrow> 'm"
  mat_apply :: "'m \<Rightarrow> vec4 \<Rightarrow> vec4"
  mat_lookAt :: "vec3 \<Rightarrow> vec3 \<Rightarrow> vec3 \<Rightarrow> 'm"
  mat_perspective :: "fp \<Rightarrow> fp \<Rightarrow> fp \<Rightarrow> fp \<Rightarrow> 'm"
  glm_radians :: "fp \<Rightarrow> fp"
  glm_sin :: "fp \<Rightarrow> fp"
  glm_cos :: "fp \<Rightarrow> fp"

record ('g, 'm) renderer =
  gl :: 'g
  window :: bool                 \<comment> \<open>\<open>_window\<close> is not null\<close>
  shaderProgram :: nat
  gridVAO :: nat
  gridVBO :: nat
  gridVertexCount :: nat
  gridInitialized :: bool
  planeVAO :: nat
  planeVBO :: nat
  planeEBO :: nat
  planeInitialized :: bool
  cubeVAO :: nat
  cubeVBO :: nat
  cubeEBO :: nat
  cubeInitialized :: bool
  rayVAO :: nat
  rayVBO :: nat
  rayInitialized :: bool
  crossVAO :: nat
  crossVBO :: nat
  crosshairInitialized :: bool
  shaderLocMVP :: location
  shaderLocColor :: location
  view :: 'm
  proj :: 'm

text \<open>A call of OpenGL, and a sequence of them. A function that was not loaded is a null pointer.\<close>

definition call :: "('g, 'm) gl_api \<Rightarrow> (('g, 'm) renderer \<Rightarrow> 'g \<Rightarrow> 'g res) \<Rightarrow> ('g, 'm) renderer \<Rightarrow> ('g, 'm) renderer res" where
  "call api f r =
     (if api_loaded api (gl r) then and_then (f r (gl r)) (\<lambda>g. Inr (r\<lparr>gl := g\<rparr>)) else Inl NullDeref)"

definition gl_do :: "('g, 'm) gl_api \<Rightarrow> (('g, 'm) renderer \<Rightarrow> 'g \<Rightarrow> 'g) \<Rightarrow> ('g, 'm) renderer \<Rightarrow> ('g, 'm) renderer res" where
  "gl_do api f = call api (\<lambda>r g. Inr (f r g))"

definition gen_array :: "('g, 'm) gl_api \<Rightarrow> (nat \<Rightarrow> ('g, 'm) renderer \<Rightarrow> ('g, 'm) renderer) \<Rightarrow> ('g, 'm) renderer \<Rightarrow> ('g, 'm) renderer res" where
  "gen_array api put r =
     (if api_loaded api (gl r) then (let (n, g) = api_GenVertexArrays api (gl r) in Inr (put n (r\<lparr>gl := g\<rparr>))) else Inl NullDeref)"

definition gen_buffer :: "('g, 'm) gl_api \<Rightarrow> (nat \<Rightarrow> ('g, 'm) renderer \<Rightarrow> ('g, 'm) renderer) \<Rightarrow> ('g, 'm) renderer \<Rightarrow> ('g, 'm) renderer res" where
  "gen_buffer api put r =
     (if api_loaded api (gl r) then (let (n, g) = api_GenBuffers api (gl r) in Inr (put n (r\<lparr>gl := g\<rparr>))) else Inl NullDeref)"

definition steps :: "('s \<Rightarrow> 's res) list \<Rightarrow> 's \<Rightarrow> 's res" where
  "steps = fold_res (\<lambda>f. f)"

section \<open>The meshes\<close>

definition WORLD_GRID_SIZE :: int where "WORLD_GRID_SIZE = 10"

definition vec3_floats :: "vec3 \<Rightarrow> fp list" where
  "vec3_floats v = [v3x v, v3y v, v3z v]"

text \<open>The loop variables: from the minimum to the maximum in steps of the grid size.\<close>

definition grid_values :: "int list" where
  "grid_values =
     map (\<lambda>i. WORLD_RANGE_MIN + WORLD_GRID_SIZE * int i) [0..<Suc (nat ((WORLD_RANGE_MAX - WORLD_RANGE_MIN) div WORLD_GRID_SIZE))]"

definition grid_lines :: "vec3 list" where
  "grid_lines =
     concat (map (\<lambda>z. [Vec3 (of_int WORLD_RANGE_MIN) (f32 (1 / 20)) (of_int z), Vec3 (of_int WORLD_RANGE_MAX) (f32 (1 / 20)) (of_int z)]) grid_values) @
     concat (map (\<lambda>x. [Vec3 (of_int x) (f32 (1 / 20)) (of_int WORLD_RANGE_MIN), Vec3 (of_int x) (f32 (1 / 20)) (of_int WORLD_RANGE_MAX)]) grid_values)"

definition plane_vertices :: "fp list" where
  "plane_vertices =
     [-1, 0, -1,  0, 1, 0,
       1, 0, -1,  0, 1, 0,
       1, 0,  1,  0, 1, 0,
      -1, 0,  1,  0, 1, 0]"

definition plane_indices :: "nat list" where
  "plane_indices = [0, 1, 2, 2, 3, 0]"

definition cube_vertices :: "fp list" where
  "cube_vertices =
     [-1/2, -1/2, -1/2,
       1/2, -1/2, -1/2,
       1/2,  1/2, -1/2,
      -1/2,  1/2, -1/2,
      -1/2, -1/2,  1/2,
       1/2, -1/2,  1/2,
       1/2,  1/2,  1/2,
      -1/2,  1/2,  1/2]"

definition cube_indices :: "nat list" where
  "cube_indices =
     [4, 5, 6, 6, 7, 4,
      0, 3, 2, 2, 1, 0,
      0, 4, 7, 7, 3, 0,
      1, 2, 6, 6, 5, 1,
      3, 7, 6, 6, 2, 3,
      0, 1, 5, 5, 4, 0]"

definition ray_vertices :: "fp list" where
  "ray_vertices = vec3_floats (Vec3 0 0 0) @ vec3_floats (Vec3 0 1 0)"

definition crosshair_vertices :: "fp list" where
  "crosshair_vertices =
     [0, - f32 (1 / 20), 0,
      0, f32 (1 / 20), 0,
      - f32 (1 / 20), 0, 0,
      f32 (1 / 20), 0, 0]"

section \<open>Making the meshes\<close>

definition InitGrid :: "('g, 'm) gl_api \<Rightarrow> ('g, 'm) renderer \<Rightarrow> ('g, 'm) renderer res" where
  "InitGrid api r =
     (if gridInitialized r then Inr r
      else steps
       [gen_array api (\<lambda>n r. r\<lparr>gridVAO := n\<rparr>),
        gen_buffer api (\<lambda>n r. r\<lparr>gridVBO := n\<rparr>),
        gl_do api (\<lambda>r. api_BindVertexArray api (gridVAO r)),
        gl_do api (\<lambda>r. api_bind_array_buffer api (gridVBO r)),
        gl_do api (\<lambda>r. api_array_data api (concat (map vec3_floats grid_lines))),
        gl_do api (\<lambda>r. api_VertexAttribPointer api 0 3 12 0),
        gl_do api (\<lambda>r. api_EnableVertexAttribArray api 0),
        gl_do api (\<lambda>r. api_BindVertexArray api 0),
        \<lambda>r. Inr (r\<lparr>gridVertexCount := length grid_lines, gridInitialized := True\<rparr>)] r)"

definition InitPlane :: "('g, 'm) gl_api \<Rightarrow> ('g, 'm) renderer \<Rightarrow> ('g, 'm) renderer res" where
  "InitPlane api r =
     (if planeInitialized r then Inr r
      else steps
       [gen_array api (\<lambda>n r. r\<lparr>planeVAO := n\<rparr>),
        gen_buffer api (\<lambda>n r. r\<lparr>planeVBO := n\<rparr>),
        gen_buffer api (\<lambda>n r. r\<lparr>planeEBO := n\<rparr>),
        gl_do api (\<lambda>r. api_BindVertexArray api (planeVAO r)),
        gl_do api (\<lambda>r. api_bind_array_buffer api (planeVBO r)),
        gl_do api (\<lambda>r. api_array_data api plane_vertices),
        gl_do api (\<lambda>r. api_bind_element_buffer api (planeEBO r)),
        gl_do api (\<lambda>r. api_element_data api plane_indices),
        gl_do api (\<lambda>r. api_VertexAttribPointer api 0 3 (6 * 4) 0),
        gl_do api (\<lambda>r. api_EnableVertexAttribArray api 0),
        gl_do api (\<lambda>r. api_VertexAttribPointer api 1 3 (6 * 4) (3 * 4)),
        gl_do api (\<lambda>r. api_EnableVertexAttribArray api 1),
        gl_do api (\<lambda>r. api_BindVertexArray api 0),
        \<lambda>r. Inr (r\<lparr>planeInitialized := True\<rparr>)] r)"

definition InitCube :: "('g, 'm) gl_api \<Rightarrow> ('g, 'm) renderer \<Rightarrow> ('g, 'm) renderer res" where
  "InitCube api r =
     (if cubeInitialized r then Inr r
      else steps
       [gen_array api (\<lambda>n r. r\<lparr>cubeVAO := n\<rparr>),
        gen_buffer api (\<lambda>n r. r\<lparr>cubeVBO := n\<rparr>),
        gen_buffer api (\<lambda>n r. r\<lparr>cubeEBO := n\<rparr>),
        gl_do api (\<lambda>r. api_BindVertexArray api (cubeVAO r)),
        gl_do api (\<lambda>r. api_bind_array_buffer api (cubeVBO r)),
        gl_do api (\<lambda>r. api_array_data api cube_vertices),
        gl_do api (\<lambda>r. api_bind_element_buffer api (cubeEBO r)),
        gl_do api (\<lambda>r. api_element_data api cube_indices),
        gl_do api (\<lambda>r. api_VertexAttribPointer api 0 3 (3 * 4) 0),
        gl_do api (\<lambda>r. api_EnableVertexAttribArray api 0),
        gl_do api (\<lambda>r. api_BindVertexArray api 0),
        \<lambda>r. Inr (r\<lparr>cubeInitialized := True\<rparr>)] r)"

definition InitRay :: "('g, 'm) gl_api \<Rightarrow> ('g, 'm) renderer \<Rightarrow> ('g, 'm) renderer res" where
  "InitRay api r =
     (if rayInitialized r then Inr r
      else steps
       [gen_array api (\<lambda>n r. r\<lparr>rayVAO := n\<rparr>),
        gen_buffer api (\<lambda>n r. r\<lparr>rayVBO := n\<rparr>),
        gl_do api (\<lambda>r. api_BindVertexArray api (rayVAO r)),
        gl_do api (\<lambda>r. api_bind_array_buffer api (rayVBO r)),
        gl_do api (\<lambda>r. api_array_data api ray_vertices),
        gl_do api (\<lambda>r. api_VertexAttribPointer api 0 3 12 0),
        gl_do api (\<lambda>r. api_EnableVertexAttribArray api 0),
        gl_do api (\<lambda>r. api_BindVertexArray api 0),
        \<lambda>r. Inr (r\<lparr>rayInitialized := True\<rparr>)] r)"

definition InitCrosshair :: "('g, 'm) gl_api \<Rightarrow> ('g, 'm) renderer \<Rightarrow> ('g, 'm) renderer res" where
  "InitCrosshair api r =
     (if crosshairInitialized r then Inr r
      else steps
       [gen_array api (\<lambda>n r. r\<lparr>crossVAO := n\<rparr>),
        gen_buffer api (\<lambda>n r. r\<lparr>crossVBO := n\<rparr>),
        gl_do api (\<lambda>r. api_BindVertexArray api (crossVAO r)),
        gl_do api (\<lambda>r. api_bind_array_buffer api (crossVBO r)),
        gl_do api (\<lambda>r. api_array_data api crosshair_vertices),
        gl_do api (\<lambda>r. api_VertexAttribPointer api 0 3 (3 * 4) 0),
        gl_do api (\<lambda>r. api_EnableVertexAttribArray api 0),
        gl_do api (\<lambda>r. api_BindVertexArray api 0),
        \<lambda>r. Inr (r\<lparr>crosshairInitialized := True\<rparr>)] r)"

section \<open>Init and Shutdown\<close>

text \<open>What the outside answers: is there a window, does GLAD load, do the shaders link.\<close>

record answers =
  window_created :: bool
  glad_loaded :: bool

text \<open>A renderer before \<open>Init\<close>; the matrices have no initialiser, \<open>m\<close> is what they hold.\<close>

definition Renderer :: "'g \<Rightarrow> 'm \<Rightarrow> ('g, 'm) renderer" where
  "Renderer g m =
     \<lparr>gl = g,
      window = False, shaderProgram = 0, gridVAO = 0, gridVBO = 0, gridVertexCount = 0, gridInitialized = False,
      planeVAO = 0, planeVBO = 0, planeEBO = 0, planeInitialized = False, cubeVAO = 0, cubeVBO = 0, cubeEBO = 0,
      cubeInitialized = False, rayVAO = 0, rayVBO = 0, rayInitialized = False, crossVAO = 0, crossVBO = 0,
      crosshairInitialized = False, shaderLocMVP = NoLocation, shaderLocColor = NoLocation, view = m, proj = m\<rparr>"

text \<open>A compile error is only printed.\<close>

definition CompileShader :: "('g, 'm) gl_api \<Rightarrow> 'g \<Rightarrow> nat \<times> 'g" where
  "CompileShader api g = api_CreateShader api g"

text \<open>The two shaders are compiled, attached and, once the program is linked, deleted.\<close>

definition make_program :: "('g, 'm) gl_api \<Rightarrow> ('g, 'm) renderer \<Rightarrow> ('g, 'm) renderer res" where
  "make_program api r =
     (let (vs, g1) = CompileShader api (gl r);
          (fs, g2) = CompileShader api g1;
          (p, g3) = api_CreateProgram api g2;
          g4 = api_LinkProgram api vs fs p g3;
          g5 = api_DeleteShader api fs (api_DeleteShader api vs g4)
      in Inr (r\<lparr>gl := g5, shaderProgram := p, shaderLocMVP := api_GetUniformLocation api LocMVP p g5,
                shaderLocColor := api_GetUniformLocation api LocColor p g5\<rparr>))"

definition Init :: "('g, 'm) gl_api \<Rightarrow> answers \<Rightarrow> ('g, 'm) renderer \<Rightarrow> ('g, 'm) renderer res" where
  "Init api ans r =
     (let r1 = r\<lparr>window := window_created ans\<rparr> in
      if \<not> window r1 then Inr r1
      else if \<not> glad_loaded ans then Inr r1
      else steps
       [\<lambda>r. Inr (r\<lparr>gl := api_load api (gl r)\<rparr>),
        gl_do api (\<lambda>r. api_set_depth api True),
        make_program api,
        InitGrid api,
        InitCube api,
        InitPlane api,
        InitCrosshair api] r1)"

definition delete_if ::
  "('g, 'm) gl_api \<Rightarrow> (('g, 'm) renderer \<Rightarrow> bool) \<Rightarrow> (('g, 'm) renderer \<Rightarrow> nat) \<Rightarrow> (('g, 'm) renderer \<Rightarrow> nat list) \<Rightarrow>
   ('g, 'm) renderer \<Rightarrow> ('g, 'm) renderer res" where
  "delete_if api made vao bs r =
     (if made r
      then steps (gl_do api (\<lambda>r. api_DeleteVertexArrays api (vao r)) # map (\<lambda>b. gl_do api (\<lambda>_. api_DeleteBuffers api b)) (bs r)) r
      else Inr r)"

definition Shutdown :: "('g, 'm) gl_api \<Rightarrow> ('g, 'm) renderer \<Rightarrow> ('g, 'm) renderer res" where
  "Shutdown api r = steps
     [delete_if api gridInitialized gridVAO (\<lambda>r. [gridVBO r]),
      delete_if api cubeInitialized cubeVAO (\<lambda>r. [cubeVBO r, cubeEBO r]),
      delete_if api planeInitialized planeVAO (\<lambda>r. [planeVBO r, planeEBO r]),
      delete_if api rayInitialized rayVAO (\<lambda>r. [rayVBO r]),
      delete_if api crosshairInitialized crossVAO (\<lambda>r. [crossVBO r]),
      gl_do api (\<lambda>r. api_DeleteProgram api (shaderProgram r))] r"

section \<open>Drawing\<close>

definition PreRender :: "('g, 'm) gl_api \<Rightarrow> ('g, 'm) renderer \<Rightarrow> ('g, 'm) renderer res" where
  "PreRender api = gl_do api (\<lambda>r. api_Clear api)"

definition model_view_proj :: "'m glm \<Rightarrow> 'm \<Rightarrow> ('g, 'm) renderer \<Rightarrow> 'm" where
  "model_view_proj M m r = mat_mult M (mat_mult M (proj r) (view r)) m"

definition Renderer_DrawGrid :: "('g, 'm) gl_api \<Rightarrow> 'm glm \<Rightarrow> vec4 \<Rightarrow> ('g, 'm) renderer \<Rightarrow> ('g, 'm) renderer res" where
  "Renderer_DrawGrid api M color r = steps
     [\<lambda>r. if \<not> gridInitialized r then InitGrid api r else Inr r,
      gl_do api (\<lambda>r. api_UseProgram api (shaderProgram r)),
      gl_do api (\<lambda>r. api_Uniform4f api (shaderLocColor r) color),
      gl_do api (\<lambda>r. api_UniformMatrix4fv api (shaderLocMVP r) (model_view_proj M (mat_identity M) r)),
      gl_do api (\<lambda>r. api_BindVertexArray api (gridVAO r)),
      call api (\<lambda>r. api_DrawArrays api Lines 0 (gridVertexCount r)),
      gl_do api (\<lambda>r. api_BindVertexArray api 0)] r"

definition plane_model :: "'m glm \<Rightarrow> vec3 \<Rightarrow> vec2 \<Rightarrow> 'm" where
  "plane_model M p s = mat_scale M (mat_translate M (mat_identity M) p) (Vec3 (v2x s) 1 (v2y s))"

definition Renderer_DrawPlane :: "('g, 'm) gl_api \<Rightarrow> 'm glm \<Rightarrow> vec3 \<Rightarrow> vec2 \<Rightarrow> vec4 \<Rightarrow> ('g, 'm) renderer \<Rightarrow> ('g, 'm) renderer res" where
  "Renderer_DrawPlane api M p s color r = steps
     [\<lambda>r. if \<not> planeInitialized r then InitPlane api r else Inr r,
      gl_do api (\<lambda>r. api_UseProgram api (shaderProgram r)),
      gl_do api (\<lambda>r. api_UniformMatrix4fv api (shaderLocMVP r) (model_view_proj M (plane_model M p s) r)),
      gl_do api (\<lambda>r. api_Uniform4f api (shaderLocColor r) color),
      gl_do api (\<lambda>r. api_BindVertexArray api (planeVAO r)),
      call api (\<lambda>r. api_DrawElements api Triangles 6),
      gl_do api (\<lambda>r. api_BindVertexArray api 0)] r"

definition cube_model :: "'m glm \<Rightarrow> vec3 \<Rightarrow> vec3 \<Rightarrow> vec3 \<Rightarrow> 'm" where
  "cube_model M p rot s =
     mat_scale M (mat_rotate M (mat_rotate M (mat_rotate M (mat_translate M (mat_identity M) p)
       (v3x rot) (Vec3 1 0 0)) (v3y rot) (Vec3 0 1 0)) (v3z rot) (Vec3 0 0 1)) s"

text \<open>A program that did not link is reported, and nothing is drawn.\<close>

definition Renderer_DrawCube :: "('g, 'm) gl_api \<Rightarrow> 'm glm \<Rightarrow> vec3 \<Rightarrow> vec3 \<Rightarrow> vec3 \<Rightarrow> vec4 \<Rightarrow> ('g, 'm) renderer \<Rightarrow> ('g, 'm) renderer res" where
  "Renderer_DrawCube api M p rot s color r =
     (if \<not> api_loaded api (gl r) then Inl NullDeref
      else if \<not> api_link_status api (shaderProgram r) (gl r) then Inr r
      else steps
       [gl_do api (\<lambda>r. api_UseProgram api (shaderProgram r)),
        gl_do api (\<lambda>r. api_UniformMatrix4fv api (shaderLocMVP r) (model_view_proj M (cube_model M p rot s) r)),
        gl_do api (\<lambda>r. api_Uniform4f api (shaderLocColor r) color),
        gl_do api (\<lambda>r. api_BindVertexArray api (cubeVAO r)),
        call api (\<lambda>r. api_DrawElements api Triangles 36),
        gl_do api (\<lambda>r. api_BindVertexArray api 0)] r)"

definition Renderer_DrawRay :: "('g, 'm) gl_api \<Rightarrow> 'm glm \<Rightarrow> vec3 \<Rightarrow> vec3 \<Rightarrow> vec4 \<Rightarrow> ('g, 'm) renderer \<Rightarrow> ('g, 'm) renderer res" where
  "Renderer_DrawRay api M a b color r = steps
     [\<lambda>r. if \<not> rayInitialized r then InitRay api r else Inr r,
      gl_do api (\<lambda>r. api_bind_array_buffer api (rayVBO r)),
      gl_do api (\<lambda>r. api_array_sub_data api (vec3_floats a @ vec3_floats b)),
      gl_do api (\<lambda>r. api_UseProgram api (shaderProgram r)),
      gl_do api (\<lambda>r. api_Uniform4f api (shaderLocColor r) color),
      gl_do api (\<lambda>r. api_UniformMatrix4fv api (shaderLocMVP r) (model_view_proj M (mat_identity M) r)),
      gl_do api (\<lambda>r. api_BindVertexArray api (rayVAO r)),
      call api (\<lambda>r. api_DrawArrays api Lines 0 2),
      gl_do api (\<lambda>r. api_BindVertexArray api 0)] r"

definition Renderer_DrawCrosshair :: "('g, 'm) gl_api \<Rightarrow> 'm glm \<Rightarrow> ('g, 'm) renderer \<Rightarrow> ('g, 'm) renderer res" where
  "Renderer_DrawCrosshair api M r = steps
     [gl_do api (\<lambda>r. api_set_depth api False),
      gl_do api (\<lambda>r. api_UseProgram api (shaderProgram r)),
      gl_do api (\<lambda>r g. api_UniformMatrix4fv api (api_GetUniformLocation api LocMVP (shaderProgram r) g) (mat_identity M) g),
      gl_do api (\<lambda>r g. api_Uniform4f api (api_GetUniformLocation api LocColor (shaderProgram r) g) (Vec4 0 0 0 1) g),
      gl_do api (\<lambda>r. api_BindVertexArray api (crossVAO r)),
      call api (\<lambda>r. api_DrawArrays api Lines 0 4),
      gl_do api (\<lambda>r. api_BindVertexArray api 0),
      gl_do api (\<lambda>r. api_set_depth api True)] r"

text \<open>The camera: an offset of the player, turned by the view angles, and a point ahead of it.\<close>

definition cameraUp :: vec3 where "cameraUp = Vec3 0 1 0"
definition cameraOffset :: vec4 where "cameraOffset = Vec4 (- f32 (1 / 5)) (f32 (2 / 5)) (- (3 / 2)) 1"

definition camera_pos :: "'m glm \<Rightarrow> vec3 \<Rightarrow> fp \<Rightarrow> fp \<Rightarrow> fp \<Rightarrow> vec3" where
  "camera_pos M playerPos ry rx cameraDist =
     (let model = mat_rotate M (mat_rotate M (mat_identity M) rx (Vec3 1 0 0)) ry (Vec3 0 1 0);
          rotated = mat_apply M model cameraOffset
      in Vec3 (f32 (v3x playerPos + f32 (v4x rotated * cameraDist)))
              (f32 (v3y playerPos + f32 (v4y rotated * cameraDist)))
              (f32 (v3z playerPos + f32 (v4z rotated * cameraDist))))"

definition camera_target :: "'m glm \<Rightarrow> vec3 \<Rightarrow> fp \<Rightarrow> fp \<Rightarrow> vec3" where
  "camera_target M pos ry rx =
     Vec3 (f32 (v3x pos + f32 (glm_cos M rx * glm_sin M ry)))
          (f32 (v3y pos + glm_sin M rx))
          (f32 (v3z pos + f32 (glm_cos M rx * glm_cos M ry)))"

definition Renderer_UpdateCamera :: "'m glm \<Rightarrow> vec3 \<Rightarrow> fp \<Rightarrow> fp \<Rightarrow> fp \<Rightarrow> ('g, 'm) renderer \<Rightarrow> ('g, 'm) renderer" where
  "Renderer_UpdateCamera M playerPos ry rx cameraDist r =
     (let pos = camera_pos M playerPos ry rx cameraDist
      in r\<lparr>view := mat_lookAt M pos (camera_target M pos ry rx) cameraUp,
           proj := mat_perspective M (glm_radians M 45) (f32 (800 / 600)) (f32 (1 / 10)) 100\<rparr>)"

text \<open>A call of an actor, with the arguments the actors leave to it, and a debug object.\<close>

fun render :: "('g, 'm) gl_api \<Rightarrow> 'm glm \<Rightarrow> draw \<Rightarrow> ('g, 'm) renderer \<Rightarrow> ('g, 'm) renderer res" where
  "render api M (DrawCube p rot color) = Renderer_DrawCube api M p rot (Vec3 1 1 1) color"
| "render api M (DrawPlane p s color) = Renderer_DrawPlane api M p (Vec2 s s) color"
| "render api M (DrawGrid color) = Renderer_DrawGrid api M color"
| "render api M (UpdateCamera p ry rx) = (\<lambda>r. Inr (Renderer_UpdateCamera M p ry rx 5 r))"
| "render api M (DrawRay a b color) = Renderer_DrawRay api M a b color"
| "render api M DrawCrosshair = Renderer_DrawCrosshair api M"

definition render_debug :: "('g, 'm) gl_api \<Rightarrow> 'm glm \<Rightarrow> debug_object \<Rightarrow> ('g, 'm) renderer \<Rightarrow> ('g, 'm) renderer res" where
  "render_debug api M obj =
     (case shape obj of
        Ray a b \<Rightarrow> Renderer_DrawRay api M a b (debug_color obj)
      | Cube p rot s \<Rightarrow> Renderer_DrawCube api M p rot s (debug_color obj))"

text \<open>The drawing calls of one frame, in the order of \<open>Game::Render\<close>.\<close>

definition render_frame ::
  "('g, 'm) gl_api \<Rightarrow> 'm glm \<Rightarrow> draw list \<Rightarrow> debug_object list \<Rightarrow> draw list \<Rightarrow> ('g, 'm) renderer \<Rightarrow> ('g, 'm) renderer res" where
  "render_frame api M scene debug crosshair =
     steps (PreRender api # map (render api M) scene @ map (render_debug api M) debug @ map (render api M) crosshair)"

end
