(* ===== verification/Gl_Frames.thy ===== *)
theory Gl_Frames
  imports Gl_Renderer
begin

text \<open>
  What the renderer does to OpenGL as it is documented: the objects each \<open>Init\<close> function makes, the state
  \<open>ready\<close> between two frames, the primitives each draw function adds, the abstract picture \<open>paint\<close> of the calls
  of a frame, and \<open>Shutdown\<close>. The results for any driver that conforms are in \<open>Gl_Driver\<close>.
\<close>

section \<open>What the calls do\<close>

text \<open>Names are new and never 0: the part of the specification of \<open>glGen\<close> the renderer relies on.\<close>

definition fresh_names :: "(nat list \<Rightarrow> nat) \<Rightarrow> bool" where
  "fresh_names gen \<longleftrightarrow> (\<forall>xs. gen xs \<notin> set xs \<and> gen xs \<noteq> 0)"

lemma steps_simps [simp]: "steps [] s = Inr s" "steps (f # fs) s = and_then (f s) (steps fs)"
  by (simp_all add: steps_def)

lemma steps_append: "steps (fs @ hs) s = and_then (steps fs s) (steps hs)"
  by (induction fs arbitrary: s) (auto split: and_then_split)

lemmas gl_defs = gl_do_def call_def gen_array_def gen_buffer_def glGenVertexArrays_def glGenBuffers_def
  glBindVertexArray_def on_vao_def bind_array_buffer_def bind_element_buffer_def buffer_data_def array_data_def
  element_data_def glVertexAttribPointer_def glEnableVertexAttribArray_def Let_def

text \<open>The vertex array of a mesh: positions from buffer \<open>b\<close>, and the second array of the plane.\<close>

definition position_array :: "nat \<Rightarrow> nat \<Rightarrow> vertex_array" where
  "position_array b e = \<lparr>pointers = [(0, \<lparr>a_buffer = b, a_size = 3, a_stride = 12, a_offset = 0\<rparr>)], arrays_on = [0], elements = e\<rparr>"

definition plane_array :: "nat \<Rightarrow> nat \<Rightarrow> vertex_array" where
  "plane_array b e =
     \<lparr>pointers = [(1, \<lparr>a_buffer = b, a_size = 3, a_stride = 24, a_offset = 12\<rparr>),
        (0, \<lparr>a_buffer = b, a_size = 3, a_stride = 24, a_offset = 0\<rparr>)], arrays_on = [1, 0], elements = e\<rparr>"

definition add_mesh :: "nat \<Rightarrow> vertex_array \<Rightarrow> nat \<Rightarrow> (nat \<times> buffer_data) list \<Rightarrow> 'm gl \<Rightarrow> 'm gl" where
  "add_mesh n a b ds g = g\<lparr>vaos := (n, a) # vaos g, vbos := ds @ vbos g, bound_vao := 0, bound_vbo := b\<rparr>"

definition new_vao :: "(nat list \<Rightarrow> nat) \<Rightarrow> 'm gl \<Rightarrow> nat" where
  "new_vao gen g = gen (map fst (vaos g))"

definition new_vbo :: "(nat list \<Rightarrow> nat) \<Rightarrow> 'm gl \<Rightarrow> nat" where
  "new_vbo gen g = gen (map fst (vbos g))"

definition new_ebo :: "(nat list \<Rightarrow> nat) \<Rightarrow> 'm gl \<Rightarrow> nat" where
  "new_ebo gen g = gen (new_vbo gen g # map fst (vbos g))"

lemma InitGrid_result:
  assumes "gl_loaded (gl r)" and "\<not> gridInitialized r"
  shows "InitGrid (documented gen) r = Inr (r\<lparr>gl := add_mesh (new_vao gen (gl r)) (position_array (new_vbo gen (gl r)) 0) (new_vbo gen (gl r))
      [(new_vbo gen (gl r), Floats (concat (map vec3_floats grid_lines)))] (gl r),
    gridVAO := new_vao gen (gl r), gridVBO := new_vbo gen (gl r), gridVertexCount := length grid_lines, gridInitialized := True\<rparr>)"
  using assms by (simp add: InitGrid_def gl_defs add_mesh_def position_array_def new_vao_def new_vbo_def)

lemma InitRay_result:
  assumes "gl_loaded (gl r)" and "\<not> rayInitialized r"
  shows "InitRay (documented gen) r = Inr (r\<lparr>gl := add_mesh (new_vao gen (gl r)) (position_array (new_vbo gen (gl r)) 0) (new_vbo gen (gl r))
      [(new_vbo gen (gl r), Floats ray_vertices)] (gl r),
    rayVAO := new_vao gen (gl r), rayVBO := new_vbo gen (gl r), rayInitialized := True\<rparr>)"
  using assms by (simp add: InitRay_def gl_defs add_mesh_def position_array_def new_vao_def new_vbo_def)

lemma InitCrosshair_result:
  assumes "gl_loaded (gl r)" and "\<not> crosshairInitialized r"
  shows "InitCrosshair (documented gen) r = Inr (r\<lparr>gl := add_mesh (new_vao gen (gl r)) (position_array (new_vbo gen (gl r)) 0) (new_vbo gen (gl r))
      [(new_vbo gen (gl r), Floats crosshair_vertices)] (gl r),
    crossVAO := new_vao gen (gl r), crossVBO := new_vbo gen (gl r), crosshairInitialized := True\<rparr>)"
  using assms by (simp add: InitCrosshair_def gl_defs add_mesh_def position_array_def new_vao_def new_vbo_def)

lemma new_ebo_fresh: "fresh_names gen \<Longrightarrow> new_ebo gen g \<noteq> new_vbo gen g"
  unfolding fresh_names_def new_ebo_def by (metis list.set_intros(1))

lemma InitCube_result:
  assumes "gl_loaded (gl r)" and "\<not> cubeInitialized r" and "fresh_names gen"
  shows "InitCube (documented gen) r = Inr (r\<lparr>gl := add_mesh (new_vao gen (gl r)) (position_array (new_vbo gen (gl r)) (new_ebo gen (gl r))) (new_vbo gen (gl r))
      [(new_ebo gen (gl r), Uints cube_indices), (new_vbo gen (gl r), Floats cube_vertices)] (gl r),
    cubeVAO := new_vao gen (gl r), cubeVBO := new_vbo gen (gl r), cubeEBO := new_ebo gen (gl r), cubeInitialized := True\<rparr>)"
  using assms new_ebo_fresh [OF assms(3), of "gl r"]
  by (simp add: InitCube_def gl_defs add_mesh_def position_array_def new_vao_def new_vbo_def new_ebo_def)

lemma InitPlane_result:
  assumes "gl_loaded (gl r)" and "\<not> planeInitialized r" and "fresh_names gen"
  shows "InitPlane (documented gen) r = Inr (r\<lparr>gl := add_mesh (new_vao gen (gl r)) (plane_array (new_vbo gen (gl r)) (new_ebo gen (gl r))) (new_vbo gen (gl r))
      [(new_ebo gen (gl r), Uints plane_indices), (new_vbo gen (gl r), Floats plane_vertices)] (gl r),
    planeVAO := new_vao gen (gl r), planeVBO := new_vbo gen (gl r), planeEBO := new_ebo gen (gl r), planeInitialized := True\<rparr>)"
  using assms new_ebo_fresh [OF assms(3), of "gl r"]
  by (simp add: InitPlane_def gl_defs add_mesh_def plane_array_def new_vao_def new_vbo_def new_ebo_def)

section \<open>The state between two frames\<close>

definition mesh_ok :: "'m gl \<Rightarrow> nat \<Rightarrow> vertex_array \<Rightarrow> nat \<Rightarrow> fp list \<Rightarrow> bool" where
  "mesh_ok g n a b xs \<longleftrightarrow> n \<noteq> 0 \<and> map_of (vaos g) n = Some a \<and> map_of (vbos g) b = Some (Floats xs)"

definition ray_ok :: "('m gl, 'm) renderer \<Rightarrow> bool" where
  "ray_ok r \<longleftrightarrow>
     (\<exists>xs. length xs = 6 \<and> mesh_ok (gl r) (rayVAO r) (position_array (rayVBO r) 0) (rayVBO r) xs) \<and>
     rayVBO r \<notin> {gridVBO r, cubeVBO r, cubeEBO r, planeVBO r, planeEBO r, crossVBO r}"

definition ready :: "('m gl, 'm) renderer \<Rightarrow> bool" where
  "ready r \<longleftrightarrow>
     gl_loaded (gl r) \<and> \<not> gl_error (gl r) \<and> depth_test (gl r) \<and> linked (gl r) \<and> shaderProgram r \<noteq> 0 \<and>
     programs (gl r) = [shaderProgram r] \<and> shaders (gl r) = [] \<and> shaderLocMVP r = LocMVP \<and> shaderLocColor r = LocColor \<and>
     gridInitialized r \<and> cubeInitialized r \<and> planeInitialized r \<and> crosshairInitialized r \<and>
     gridVertexCount r = length grid_lines \<and>
     mesh_ok (gl r) (gridVAO r) (position_array (gridVBO r) 0) (gridVBO r) (concat (map vec3_floats grid_lines)) \<and>
     mesh_ok (gl r) (cubeVAO r) (position_array (cubeVBO r) (cubeEBO r)) (cubeVBO r) cube_vertices \<and>
     map_of (vbos (gl r)) (cubeEBO r) = Some (Uints cube_indices) \<and>
     mesh_ok (gl r) (planeVAO r) (plane_array (planeVBO r) (planeEBO r)) (planeVBO r) plane_vertices \<and>
     map_of (vbos (gl r)) (planeEBO r) = Some (Uints plane_indices) \<and>
     mesh_ok (gl r) (crossVAO r) (position_array (crossVBO r) 0) (crossVBO r) crosshair_vertices \<and>
     (rayInitialized r \<longrightarrow> ray_ok r) \<and>
     fst ` set (vaos (gl r)) = {gridVAO r, cubeVAO r, planeVAO r, crossVAO r} \<union> (if rayInitialized r then {rayVAO r} else {}) \<and>
     fst ` set (vbos (gl r)) = {gridVBO r, cubeVBO r, cubeEBO r, planeVBO r, planeEBO r, crossVBO r} \<union>
       (if rayInitialized r then {rayVBO r} else {})"

text \<open>What the renderer shows for: the matrices in force and the primitives drawn so far.\<close>

record 'm canvas =
  c_proj :: 'm
  c_view :: 'm
  shown :: "'m drawing list"

definition canvas :: "('m gl, 'm) renderer \<Rightarrow> 'm canvas" where
  "canvas r = \<lparr>c_proj = proj r, c_view = view r, shown = drawings (gl r)\<rparr>"

lemma fresh_new:
  assumes "fresh_names gen"
  shows "new_vao gen g \<noteq> 0" "new_vao gen g \<notin> fst ` set (vaos g)" "new_vbo gen g \<notin> fst ` set (vbos g)"
    "new_ebo gen g \<notin> fst ` set (vbos g)" "new_ebo gen g \<noteq> new_vbo gen g" "new_program_name gen g \<noteq> 0"
  using assms new_ebo_fresh [OF assms, of g]
  unfolding fresh_names_def new_vao_def new_vbo_def new_ebo_def new_program_name_def
  by (metis list.set_map list.set_intros(2))+

lemma make_program_result:
  assumes "gl_loaded (gl r)" and "shaders (gl r) = []" and "programs (gl r) = []" and "fresh_names gen"
  shows "\<exists>p. p \<noteq> 0 \<and> make_program (documented gen) r = Inr (r\<lparr>gl := (gl r)\<lparr>programs := [p], linked := True, shaders := []\<rparr>,
    shaderProgram := p, shaderLocMVP := LocMVP, shaderLocColor := LocColor\<rparr>)"
proof -
  let ?vs = "gen []" and ?fs = "gen [gen []]" and ?p = "gen [gen [gen []], gen []]"
  have p: "?p \<noteq> 0" and ne: "?fs \<noteq> ?vs" using assms(4) unfolding fresh_names_def by (blast, metis list.set_intros(1))
  then show ?thesis
    using assms by (intro exI [of _ ?p])
      (simp add: make_program_def CompileShader_def glCreateShader_def glCreateProgram_def glLinkProgram_def glDeleteShader_def
        new_program_name_def glGetUniformLocation_def Let_def)
qed

lemma add_mesh_simps [simp]:
  "gl_loaded (add_mesh n a b ds g) = gl_loaded g" "gl_error (add_mesh n a b ds g) = gl_error g"
  "depth_test (add_mesh n a b ds g) = depth_test g" "linked (add_mesh n a b ds g) = linked g"
  "programs (add_mesh n a b ds g) = programs g" "shaders (add_mesh n a b ds g) = shaders g"
  "vaos (add_mesh n a b ds g) = (n, a) # vaos g" "vbos (add_mesh n a b ds g) = ds @ vbos g"
  "drawings (add_mesh n a b ds g) = drawings g" "in_use (add_mesh n a b ds g) = in_use g"
  by (simp_all add: add_mesh_def)

definition working :: answers where
  "working = \<lparr>window_created = True, glad_loaded = True\<rparr>"

lemma Init_result:
  assumes gen: "fresh_names gen"
  shows "\<exists>r. Init (documented gen) working (Renderer (empty_gl m0) m) = Inr r \<and> ready r \<and> canvas r = \<lparr>c_proj = m, c_view = m, shown = []\<rparr> \<and> window r"
proof -
  define r0 where "r0 = (Renderer ((empty_gl m0)\<lparr>gl_loaded := True, depth_test := True\<rparr>) m)\<lparr>window := True\<rparr>"
  have z: "gl_loaded (gl r0)" "shaders (gl r0) = []" "programs (gl r0) = []" "vaos (gl r0) = []" "vbos (gl r0) = []"
    "depth_test (gl r0)" "\<not> gl_error (gl r0)" "drawings (gl r0) = []" "window r0" "\<not> gridInitialized r0" "\<not> cubeInitialized r0"
    "\<not> planeInitialized r0" "\<not> crosshairInitialized r0" "\<not> rayInitialized r0"
    by (simp_all add: r0_def Renderer_def empty_gl_def)
  obtain p where p: "p \<noteq> 0" "make_program (documented gen) r0 = Inr (r0\<lparr>gl := (gl r0)\<lparr>programs := [p], linked := True, shaders := []\<rparr>,
      shaderProgram := p, shaderLocMVP := LocMVP, shaderLocColor := LocColor\<rparr>)"
    using make_program_result [OF z(1-3) gen] by blast
  define g1 where "g1 = (gl r0)\<lparr>programs := [p], linked := True, shaders := []\<rparr>"
  define n1 b1 where "n1 = new_vao gen g1" and "b1 = new_vbo gen g1"
  define g2 where "g2 = add_mesh n1 (position_array b1 0) b1 [(b1, Floats (concat (map vec3_floats grid_lines)))] g1"
  define n2 b2 e2 where "n2 = new_vao gen g2" and "b2 = new_vbo gen g2" and "e2 = new_ebo gen g2"
  define g3 where "g3 = add_mesh n2 (position_array b2 e2) b2 [(e2, Uints cube_indices), (b2, Floats cube_vertices)] g2"
  define n3 b3 e3 where "n3 = new_vao gen g3" and "b3 = new_vbo gen g3" and "e3 = new_ebo gen g3"
  define g4 where "g4 = add_mesh n3 (plane_array b3 e3) b3 [(e3, Uints plane_indices), (b3, Floats plane_vertices)] g3"
  define n4 b4 where "n4 = new_vao gen g4" and "b4 = new_vbo gen g4"
  define g5 where "g5 = add_mesh n4 (position_array b4 0) b4 [(b4, Floats crosshair_vertices)] g4"
  note new = fresh_new [OF gen]
  have g1: "vaos g1 = []" "vbos g1 = []" "gl_loaded g1" "depth_test g1" "\<not> gl_error g1" "drawings g1 = []" "linked g1"
    "programs g1 = [p]" "shaders g1 = []" using z by (simp_all add: g1_def)
  have l: "gl_loaded g2" "gl_loaded g3" "gl_loaded g4" using g1 by (simp_all add: g4_def g3_def g2_def)
  have n: "n1 \<noteq> 0" "n2 \<noteq> 0" "n3 \<noteq> 0" "n4 \<noteq> 0" using new(1) by (simp_all add: n1_def n2_def n3_def n4_def)
  have v2: "n2 \<noteq> n1" "b2 \<noteq> b1" "e2 \<noteq> b1" "e2 \<noteq> b2"
    using new(2-5) [of g2] by (simp_all add: n2_def b2_def e2_def) (simp_all add: g2_def)
  have v3: "n3 \<notin> {n1, n2}" "b3 \<notin> {b1, b2, e2}" "e3 \<notin> {b1, b2, e2, b3}"
    using new(2-5) [of g3] by (simp_all add: n3_def b3_def e3_def) (simp_all add: g3_def g2_def)
  have v4: "n4 \<notin> {n1, n2, n3}" "b4 \<notin> {b1, b2, e2, b3, e3}"
    using new(2-5) [of g4] by (simp_all add: n4_def b4_def) (simp_all add: g4_def g3_def g2_def)
  define ra where "ra = r0\<lparr>gl := g1, shaderProgram := p, shaderLocMVP := LocMVP, shaderLocColor := LocColor\<rparr>"
  define rb where "rb = ra\<lparr>gl := g2, gridVAO := n1, gridVBO := b1, gridVertexCount := length grid_lines, gridInitialized := True\<rparr>"
  define rc where "rc = rb\<lparr>gl := g3, cubeVAO := n2, cubeVBO := b2, cubeEBO := e2, cubeInitialized := True\<rparr>"
  define rd where "rd = rc\<lparr>gl := g4, planeVAO := n3, planeVBO := b3, planeEBO := e3, planeInitialized := True\<rparr>"
  define r where "r = rd\<lparr>gl := g5, crossVAO := n4, crossVBO := b4, crosshairInitialized := True\<rparr>"
  have gls: "gl ra = g1" "gl rb = g2" "gl rc = g3" "gl rd = g4" by (simp_all add: ra_def rb_def rc_def rd_def)
  have flags: "\<not> gridInitialized ra" "\<not> cubeInitialized rb" "\<not> planeInitialized rc" "\<not> crosshairInitialized rd"
    using z by (simp_all add: ra_def rb_def rc_def rd_def)
  have "make_program (documented gen) r0 = Inr ra" using p(2) by (simp add: ra_def g1_def)
  moreover have "InitGrid (documented gen) ra = Inr rb"
    using InitGrid_result [of ra gen] gls flags g1(3) by (simp add: rb_def g2_def n1_def b1_def)
  moreover have "InitCube (documented gen) rb = Inr rc"
    using InitCube_result [of rb gen] gls flags l gen by (simp add: rc_def g3_def n2_def b2_def e2_def)
  moreover have "InitPlane (documented gen) rc = Inr rd"
    using InitPlane_result [of rc gen] gls flags l gen by (simp add: rd_def g4_def n3_def b3_def e3_def)
  moreover have "InitCrosshair (documented gen) rd = Inr r"
    using InitCrosshair_result [of rd gen] gls flags l by (simp add: r_def g5_def n4_def b4_def)
  moreover have "Init (documented gen) working (Renderer (empty_gl m0) m) = steps [make_program (documented gen), InitGrid (documented gen), InitCube (documented gen), InitPlane (documented gen), InitCrosshair (documented gen)] r0"
    by (simp add: Init_def working_def r0_def Let_def Renderer_def gl_do_def call_def)
  ultimately have eq: "Init (documented gen) working (Renderer (empty_gl m0) m) = Inr r" by simp
  have r: "gl r = g5" "shaderProgram r = p" "shaderLocMVP r = LocMVP" "shaderLocColor r = LocColor" "gridVAO r = n1" "gridVBO r = b1"
    "gridVertexCount r = length grid_lines" "gridInitialized r" "cubeVAO r = n2" "cubeVBO r = b2" "cubeEBO r = e2" "cubeInitialized r"
    "planeVAO r = n3" "planeVBO r = b3" "planeEBO r = e3" "planeInitialized r" "crossVAO r = n4" "crossVBO r = b4"
    "crosshairInitialized r" "\<not> rayInitialized r" "window r" "view r = m" "proj r = m"
    using z by (simp_all add: r_def rd_def rc_def rb_def ra_def r0_def Renderer_def)
  have vs: "vaos g5 = [(n4, position_array b4 0), (n3, plane_array b3 e3), (n2, position_array b2 e2), (n1, position_array b1 0)]"
    "vbos g5 = [(b4, Floats crosshair_vertices), (e3, Uints plane_indices), (b3, Floats plane_vertices),
      (e2, Uints cube_indices), (b2, Floats cube_vertices), (b1, Floats (concat (map vec3_floats grid_lines)))]"
    "gl_loaded g5 \<and> \<not> gl_error g5 \<and> depth_test g5 \<and> linked g5 \<and> programs g5 = [p] \<and> shaders g5 = []"
    using g1 by (simp_all add: g5_def g4_def g3_def g2_def)
  have sym: "n1 \<noteq> n2" "n1 \<noteq> n3" "n2 \<noteq> n3" "n1 \<noteq> n4" "n2 \<noteq> n4" "n3 \<noteq> n4" "b1 \<noteq> b2" "b1 \<noteq> e2" "b1 \<noteq> b3" "b1 \<noteq> e3" "b1 \<noteq> b4"
    "b2 \<noteq> e2" "b2 \<noteq> b3" "b2 \<noteq> e3" "b2 \<noteq> b4" "e2 \<noteq> b3" "e2 \<noteq> e3" "e2 \<noteq> b4" "b3 \<noteq> e3" "b3 \<noteq> b4" "e3 \<noteq> b4"
    using v2 v3 v4 by blast+
  have maps: "map_of (vaos g5) n1 = Some (position_array b1 0)" "map_of (vaos g5) n2 = Some (position_array b2 e2)"
    "map_of (vaos g5) n3 = Some (plane_array b3 e3)" "map_of (vaos g5) n4 = Some (position_array b4 0)"
    "map_of (vbos g5) b1 = Some (Floats (concat (map vec3_floats grid_lines)))" "map_of (vbos g5) b2 = Some (Floats cube_vertices)"
    "map_of (vbos g5) e2 = Some (Uints cube_indices)" "map_of (vbos g5) b3 = Some (Floats plane_vertices)"
    "map_of (vbos g5) e3 = Some (Uints plane_indices)" "map_of (vbos g5) b4 = Some (Floats crosshair_vertices)"
    unfolding vs(1,2) using v2 v3 v4 sym by simp_all
  have names: "fst ` set (vaos g5) = {n1, n2, n3, n4}" "fst ` set (vbos g5) = {b1, b2, e2, b3, e3, b4}"
    unfolding vs(1,2) by auto
  have "ready r"
    unfolding ready_def mesh_ok_def r using p(1) n vs(3) maps names r(8,12,16,19,20) by simp
  then show ?thesis
    using eq r(1,20-23) g1(6) by (simp add: canvas_def g5_def g4_def g3_def g2_def)
qed

section \<open>The draw functions\<close>

text \<open>The whole array, and the vertices an index list picks.\<close>

definition chunk :: "nat \<Rightarrow> nat \<Rightarrow> fp list \<Rightarrow> fp list" where
  "chunk w v xs = take 3 (drop (w * v) xs)"

lemma vertex_position:
  assumes "map_of bs b = Some (Floats xs)" and "3 * v + 3 \<le> length xs"
  shows "vertex bs (position_array b e) v = Some (chunk 3 v xs)"
proof -
  have "v * 12 div 4 = 3 * v" by simp
  then show ?thesis using assms by (simp add: vertex_def position_array_def fetch_def chunk_def Let_def)
qed

lemma vertex_plane:
  assumes "map_of bs b = Some (Floats xs)" and "6 * v + 6 \<le> length xs"
  shows "vertex bs (plane_array b e) v = Some (chunk 6 v xs)"
proof -
  have "v * 24 div 4 = 6 * v" by simp
  then show ?thesis using assms by (simp add: vertex_def plane_array_def fetch_def chunk_def Let_def)
qed

definition add_drawing :: "mode \<Rightarrow> vec4 \<Rightarrow> 'm \<Rightarrow> fp list list \<Rightarrow> 'm gl \<Rightarrow> 'm gl" where
  "add_drawing k c m ps g = g\<lparr>drawings := drawings g @ [\<lparr>dr_mode = k, dr_color = c, dr_mvp = m, dr_positions = ps\<rparr>]\<rparr>"

lemma draw_vertices_reads:
  assumes "map_of (vaos g) (bound_vao g) = Some a" and "in_use g \<noteq> 0"
    and "\<And>v. v \<in> set vs \<Longrightarrow> vertex (vbos g) a v = Some (f v)"
  shows "draw_vertices k vs g = Inr (add_drawing k (u_color g) (u_mvp g) (map f vs) g)"
proof -
  have "map (\<lambda>v. the (vertex (vbos g) a v)) vs = map f vs" using assms(3) by (intro map_cong) auto
  then show ?thesis using assms by (simp add: draw_vertices_def add_drawing_def)
qed

text \<open>
  What the draw functions share: the program and the uniforms are set, a vertex array is bound, drawn
  and unbound.
\<close>

definition drawn :: "mode \<Rightarrow> vec4 \<Rightarrow> 'm \<Rightarrow> fp list list \<Rightarrow> ('m gl, 'm) renderer \<Rightarrow> ('m gl, 'm) renderer" where
  "drawn k c m ps r = r\<lparr>gl := add_drawing k c m ps ((gl r)\<lparr>in_use := shaderProgram r, u_color := c, u_mvp := m, bound_vao := 0\<rparr>)\<rparr>"

lemma drawn_simps [simp]:
  "gl_loaded (gl (drawn k c m ps r)) = gl_loaded (gl r)" "vaos (gl (drawn k c m ps r)) = vaos (gl r)"
  "vbos (gl (drawn k c m ps r)) = vbos (gl r)" "drawings (gl (drawn k c m ps r)) =
     drawings (gl r) @ [\<lparr>dr_mode = k, dr_color = c, dr_mvp = m, dr_positions = ps\<rparr>]"
  "view (drawn k c m ps r) = view r" "proj (drawn k c m ps r) = proj r"
  by (simp_all add: drawn_def add_drawing_def)

lemma ready_drawn: "ready r \<Longrightarrow> ready (drawn k c m ps r)"
  by (simp add: ready_def ray_ok_def mesh_ok_def drawn_def add_drawing_def)

lemmas draw_calls = gl_do_def call_def glUseProgram_def glUniform4f_def glUniformMatrix4fv_def glBindVertexArray_def

lemma in_names: "map_of xs n = Some a \<Longrightarrow> n \<in> fst ` set xs"
  by (metis domI dom_map_of_conv_image_fst)

lemma DrawGrid_result:
  assumes "ready r"
  shows "Renderer_DrawGrid (documented gen) M c r = Inr (drawn Lines c (model_view_proj M (mat_identity M) r)
    (map (\<lambda>v. chunk 3 v (concat (map vec3_floats grid_lines))) [0..<length grid_lines]) r)"
proof -
  have len: "length (concat (map vec3_floats vs)) = 3 * length vs" for vs
    by (induction vs) (simp_all add: vec3_floats_def)
  note R = assms [unfolded ready_def mesh_ok_def]
  let ?g = "(gl r)\<lparr>in_use := shaderProgram r, u_color := c, u_mvp := model_view_proj M (mat_identity M) r, bound_vao := gridVAO r\<rparr>"
  have "glDrawArrays Lines 0 (length grid_lines) ?g = Inr (add_drawing Lines c (model_view_proj M (mat_identity M) r)
      (map (\<lambda>v. chunk 3 v (concat (map vec3_floats grid_lines))) [0..<length grid_lines]) ?g)"
    unfolding glDrawArrays_def using R
    by (subst draw_vertices_reads [where a = "position_array (gridVBO r) 0" and f = "\<lambda>v. chunk 3 v (concat (map vec3_floats grid_lines))"])
      (auto simp: vertex_position len simp del: length_concat)
  then show ?thesis
    using R in_names [of "vaos (gl r)" "gridVAO r"]
    by (simp add: Renderer_DrawGrid_def draw_calls drawn_def add_drawing_def model_view_proj_def)
qed

lemma elements_drawn:
  assumes "map_of (vaos g) (bound_vao g) = Some a" and "map_of (vbos g) (elements a) = Some (Uints is)" and "in_use g \<noteq> 0"
    and "\<And>v. v \<in> set is \<Longrightarrow> vertex (vbos g) a v = Some (f v)"
  shows "glDrawElements k (length is) g = Inr (add_drawing k (u_color g) (u_mvp g) (map f is) g)"
  using draw_vertices_reads [OF assms(1,3,4), of "is"] assms(1,2) by (simp add: glDrawElements_def)

lemma model_view_proj_gl [simp]: "model_view_proj M m (r\<lparr>gl := g\<rparr>) = model_view_proj M m r"
  by (simp add: model_view_proj_def)

lemma elements_array [simp]: "elements (position_array b e) = e" "elements (plane_array b e) = e"
  by (simp_all add: position_array_def plane_array_def)

lemma DrawPlane_result:
  assumes "ready r"
  shows "Renderer_DrawPlane (documented gen) M p s c r = Inr (drawn Triangles c (model_view_proj M (plane_model M p s) r)
    (map (\<lambda>v. chunk 6 v plane_vertices) plane_indices) r)"
proof -
  note R = assms [unfolded ready_def mesh_ok_def]
  let ?g = "(gl r)\<lparr>in_use := shaderProgram r, u_mvp := model_view_proj M (plane_model M p s) r, u_color := c, bound_vao := planeVAO r\<rparr>"
  have "6 * v + 6 \<le> length plane_vertices" if "v \<in> set plane_indices" for v
    using that by (auto simp: plane_indices_def plane_vertices_def)
  then have "vertex (vbos ?g) (plane_array (planeVBO r) (planeEBO r)) v = Some (chunk 6 v plane_vertices)" if "v \<in> set plane_indices" for v
    using that R by (simp add: vertex_plane)
  moreover have "map_of (vaos ?g) (bound_vao ?g) = Some (plane_array (planeVBO r) (planeEBO r))"
    "map_of (vbos ?g) (elements (plane_array (planeVBO r) (planeEBO r))) = Some (Uints plane_indices)" "in_use ?g \<noteq> 0"
    using R by simp_all
  ultimately have "glDrawElements Triangles (length plane_indices) ?g = Inr (add_drawing Triangles (u_color ?g) (u_mvp ?g)
      (map (\<lambda>v. chunk 6 v plane_vertices) plane_indices) ?g)"
    by (intro elements_drawn)
  moreover have "length plane_indices = 6" by (simp add: plane_indices_def)
  ultimately show ?thesis
    using R in_names [of "vaos (gl r)" "planeVAO r"]
    by (simp add: Renderer_DrawPlane_def draw_calls drawn_def add_drawing_def)
qed

lemma DrawCube_result:
  assumes "ready r"
  shows "Renderer_DrawCube (documented gen) M p rot s c r = Inr (drawn Triangles c (model_view_proj M (cube_model M p rot s) r)
    (map (\<lambda>v. chunk 3 v cube_vertices) cube_indices) r)"
proof -
  note R = assms [unfolded ready_def mesh_ok_def]
  let ?g = "(gl r)\<lparr>in_use := shaderProgram r, u_mvp := model_view_proj M (cube_model M p rot s) r, u_color := c, bound_vao := cubeVAO r\<rparr>"
  have "3 * v + 3 \<le> length cube_vertices" if "v \<in> set cube_indices" for v
    using that by (auto simp: cube_indices_def cube_vertices_def)
  then have "vertex (vbos ?g) (position_array (cubeVBO r) (cubeEBO r)) v = Some (chunk 3 v cube_vertices)" if "v \<in> set cube_indices" for v
    using that R by (simp add: vertex_position)
  moreover have "map_of (vaos ?g) (bound_vao ?g) = Some (position_array (cubeVBO r) (cubeEBO r))"
    "map_of (vbos ?g) (elements (position_array (cubeVBO r) (cubeEBO r))) = Some (Uints cube_indices)" "in_use ?g \<noteq> 0"
    using R by simp_all
  ultimately have "glDrawElements Triangles (length cube_indices) ?g = Inr (add_drawing Triangles (u_color ?g) (u_mvp ?g)
      (map (\<lambda>v. chunk 3 v cube_vertices) cube_indices) ?g)"
    by (intro elements_drawn)
  moreover have "length cube_indices = 36" by (simp add: cube_indices_def)
  ultimately show ?thesis
    using R in_names [of "vaos (gl r)" "cubeVAO r"]
    by (simp add: Renderer_DrawCube_def draw_calls drawn_def add_drawing_def)
qed

lemma DrawCrosshair_result:
  assumes "ready r"
  shows "Renderer_DrawCrosshair (documented gen) M r = Inr (drawn Lines (Vec4 0 0 0 1) (mat_identity M)
    (map (\<lambda>v. chunk 3 v crosshair_vertices) [0..<4]) r)"
proof -
  note R = assms [unfolded ready_def mesh_ok_def]
  let ?g = "(gl r)\<lparr>depth_test := False, in_use := shaderProgram r, u_mvp := mat_identity M, u_color := Vec4 0 0 0 1, bound_vao := crossVAO r\<rparr>"
  have "length crosshair_vertices = 12" by (simp add: crosshair_vertices_def)
  then have "vertex (vbos ?g) (position_array (crossVBO r) 0) v = Some (chunk 3 v crosshair_vertices)" if "v \<in> set [0..<0 + 4]" for v
    using that R by (auto intro: vertex_position)
  moreover have "map_of (vaos ?g) (bound_vao ?g) = Some (position_array (crossVBO r) 0)" "in_use ?g \<noteq> 0"
    using R by simp_all
  ultimately have "draw_vertices Lines [0..<0 + 4] ?g = Inr (add_drawing Lines (u_color ?g) (u_mvp ?g)
      (map (\<lambda>v. chunk 3 v crosshair_vertices) [0..<0 + 4]) ?g)"
    by (intro draw_vertices_reads)
  then have "glDrawArrays Lines 0 4 ?g = Inr (add_drawing Lines (Vec4 0 0 0 1) (mat_identity M)
      (map (\<lambda>v. chunk 3 v crosshair_vertices) [0..<4]) ?g)"
    by (simp add: glDrawArrays_def del: upt_Suc)
  moreover have "(gl r)\<lparr>depth_test := True\<rparr> = gl r" using R by simp
  ultimately show ?thesis
    using R in_names [of "vaos (gl r)" "crossVAO r"]
    by (simp add: Renderer_DrawCrosshair_def draw_calls drawn_def add_drawing_def glGetUniformLocation_def del: upt_Suc)
qed

text \<open>The buffer of the ray is made when it is first needed.\<close>

lemma InitRay_ready:
  assumes "ready r" and "\<not> rayInitialized r" and "fresh_names gen"
  shows "\<exists>r'. InitRay (documented gen) r = Inr r' \<and> ready r' \<and> rayInitialized r' \<and> view r' = view r \<and> proj r' = proj r \<and> drawings (gl r') = drawings (gl r)"
proof -
  define n b where "n = new_vao gen (gl r)" and "b = new_vbo gen (gl r)"
  define g where "g = add_mesh n (position_array b 0) b [(b, Floats ray_vertices)] (gl r)"
  define r' where "r' = r\<lparr>gl := g, rayVAO := n, rayVBO := b, rayInitialized := True\<rparr>"
  note R = assms(1) [unfolded ready_def mesh_ok_def]
  have vaos_r: "fst ` set (vaos (gl r)) = {gridVAO r, cubeVAO r, planeVAO r, crossVAO r}"
    and vbos_r: "fst ` set (vbos (gl r)) = {gridVBO r, cubeVBO r, cubeEBO r, planeVBO r, planeEBO r, crossVBO r}"
    using R assms(2) by simp_all
  have new: "n \<noteq> 0" "n \<notin> fst ` set (vaos (gl r))" "b \<notin> fst ` set (vbos (gl r))"
    using fresh_new [OF assms(3), of "gl r"] by (simp_all add: n_def b_def)
  have old_vao: "m \<noteq> n \<and> n \<noteq> m" if "map_of (vaos (gl r)) m = Some a" for m a
    using in_names [OF that] new(2) by auto
  have old_vbo: "m \<noteq> b \<and> b \<noteq> m" if "map_of (vbos (gl r)) m = Some a" for m a
    using in_names [OF that] new(3) by auto
  have vao: "map_of (vaos g) m = Some a" if "map_of (vaos (gl r)) m = Some a" for m a
    using old_vao [OF that] that by (simp add: g_def)
  have vbo: "map_of (vbos g) m = Some a" if "map_of (vbos (gl r)) m = Some a" for m a
    using old_vbo [OF that] that by (simp add: g_def)
  have fresh: "map_of (vaos g) n = Some (position_array b 0)" "map_of (vbos g) b = Some (Floats ray_vertices)"
    by (simp_all add: g_def)
  have len: "length ray_vertices = 6" by (simp add: ray_vertices_def vec3_floats_def)
  have r': "gl r' = g" "gridVAO r' = gridVAO r" "gridVBO r' = gridVBO r" "cubeVAO r' = cubeVAO r" "cubeVBO r' = cubeVBO r"
    "cubeEBO r' = cubeEBO r" "planeVAO r' = planeVAO r" "planeVBO r' = planeVBO r" "planeEBO r' = planeEBO r" "crossVAO r' = crossVAO r"
    "crossVBO r' = crossVBO r" "rayVAO r' = n" "rayVBO r' = b" "rayInitialized r'" "shaderProgram r' = shaderProgram r"
    "shaderLocMVP r' = shaderLocMVP r" "shaderLocColor r' = shaderLocColor r" "gridInitialized r' = gridInitialized r"
    "cubeInitialized r' = cubeInitialized r" "planeInitialized r' = planeInitialized r"
    "crosshairInitialized r' = crosshairInitialized r" "gridVertexCount r' = gridVertexCount r" "view r' = view r" "proj r' = proj r"
    by (simp_all add: r'_def)
  have "ray_ok r'"
    unfolding ray_ok_def mesh_ok_def r' using new(1,3) fresh len by (auto simp: vbos_r)
  moreover have "fst ` set (vaos g) = {gridVAO r, cubeVAO r, planeVAO r, crossVAO r} \<union> {n}"
    "fst ` set (vbos g) = {gridVBO r, cubeVBO r, cubeEBO r, planeVBO r, planeEBO r, crossVBO r} \<union> {b}"
    using vaos_r vbos_r by (simp_all add: g_def insert_commute)
  moreover have "gl_loaded g = gl_loaded (gl r)" "gl_error g = gl_error (gl r)" "depth_test g = depth_test (gl r)"
    "linked g = linked (gl r)" "programs g = programs (gl r)" "shaders g = shaders (gl r)" by (simp_all add: g_def)
  ultimately have "ready r'"
    unfolding ready_def mesh_ok_def r' using R vao vbo by (simp add: r'(14) insert_commute)
  moreover have "InitRay (documented gen) r = Inr r'"
    using InitRay_result [of r gen] R assms(2) by (simp add: r'_def g_def n_def b_def)
  moreover have "drawings (gl r') = drawings (gl r)" by (simp add: r' g_def)
  ultimately show ?thesis using r' by blast
qed

lemma length_points: "length (concat (map vec3_floats vs)) = 3 * length vs"
  by (induction vs) (simp_all add: vec3_floats_def)

lemma chunk_points: "map (\<lambda>v. chunk 3 v (concat (map vec3_floats vs))) [0..<length vs] = map vec3_floats vs"
proof (induction vs)
  case (Cons p vs)
  have "chunk 3 (Suc v) (concat (map vec3_floats (p # vs))) = chunk 3 v (concat (map vec3_floats vs))" for v
    by (simp add: chunk_def vec3_floats_def eval_nat_numeral)
  moreover have "chunk 3 0 (concat (map vec3_floats (p # vs))) = vec3_floats p"
    by (simp add: chunk_def vec3_floats_def)
  ultimately show ?case
    using Cons by (simp only: map_upt_Suc list.map length_Cons)
qed simp

lemma DrawRay_ready:
  assumes "ready r" and "rayInitialized r"
  shows "\<exists>r'. Renderer_DrawRay (documented gen) M a b c r = Inr r' \<and> ready r' \<and> view r' = view r \<and> proj r' = proj r \<and>
    drawings (gl r') = drawings (gl r) @ [\<lparr>dr_mode = Lines, dr_color = c, dr_mvp = model_view_proj M (mat_identity M) r,
      dr_positions = map vec3_floats [a, b]\<rparr>]"
proof -
  define xs where "xs = vec3_floats a @ vec3_floats b"
  define g where "g = (gl r)\<lparr>bound_vbo := rayVBO r, vbos := AList.update (rayVBO r) (Floats xs) (vbos (gl r))\<rparr>"
  define r1 where "r1 = r\<lparr>gl := g\<rparr>"
  note R = assms(1) [unfolded ready_def mesh_ok_def]
  obtain ys where ys: "length ys = 6" "rayVAO r \<noteq> 0" "map_of (vaos (gl r)) (rayVAO r) = Some (position_array (rayVBO r) 0)"
    "map_of (vbos (gl r)) (rayVBO r) = Some (Floats ys)"
    and other: "rayVBO r \<notin> {gridVBO r, cubeVBO r, cubeEBO r, planeVBO r, planeEBO r, crossVBO r}"
    using R assms(2) unfolding ray_ok_def mesh_ok_def by blast
  have len: "length xs = 6" by (simp add: xs_def vec3_floats_def)
  have bound: "rayVBO r \<in> fst ` set (vbos (gl r))" using in_names [OF ys(4)] .
  have vbos_g: "map_of (vbos g) m = (if m = rayVBO r then Some (Floats xs) else map_of (vbos (gl r)) m)" for m
    by (simp add: g_def update_conv)
  have "fst ` set (vbos g) = fst ` set (vbos (gl r))"
    using bound by (auto simp: g_def dom_map_of_conv_image_fst [symmetric] update_conv split: if_splits)
  moreover have gs: "gl_loaded g = gl_loaded (gl r)" "gl_error g = gl_error (gl r)" "depth_test g = depth_test (gl r)"
    "linked g = linked (gl r)" "programs g = programs (gl r)" "shaders g = shaders (gl r)" "vaos g = vaos (gl r)"
    "drawings g = drawings (gl r)"
    by (simp_all add: g_def)
  moreover have "ray_ok r1"
    using ys len other by (auto simp: ray_ok_def mesh_ok_def r1_def vbos_g gs)
  ultimately have ready1: "ready r1"
    using R other by (simp add: ready_def mesh_ok_def r1_def vbos_g)
  let ?g = "g\<lparr>in_use := shaderProgram r, u_color := c, u_mvp := model_view_proj M (mat_identity M) r, bound_vao := rayVAO r\<rparr>"
  have "vertex (vbos ?g) (position_array (rayVBO r) 0) v = Some (chunk 3 v xs)" if "v \<in> set [0..<0 + 2]" for v
    using that len by (intro vertex_position) (auto simp: vbos_g)
  then have "draw_vertices Lines [0..<0 + 2] ?g = Inr (add_drawing Lines (u_color ?g) (u_mvp ?g) (map (\<lambda>v. chunk 3 v xs) [0..<0 + 2]) ?g)"
    using R ys by (intro draw_vertices_reads [where a = "position_array (rayVBO r) 0"]) (simp_all add: gs)
  moreover have "map (\<lambda>v. chunk 3 v xs) [0..<0 + 2] = map vec3_floats [a, b]"
    using chunk_points [of "[a, b]"] by (simp add: xs_def numeral_2_eq_2)
  ultimately have draw: "glDrawArrays Lines 0 2 ?g = Inr (add_drawing Lines c (model_view_proj M (mat_identity M) r) (map vec3_floats [a, b]) ?g)"
    by (simp add: glDrawArrays_def del: upt_Suc)
  have "Renderer_DrawRay (documented gen) M a b c r =
      Inr (drawn Lines c (model_view_proj M (mat_identity M) r) (map vec3_floats [a, b]) r1)"
  proof -
    have "array_sub_data xs ((gl r)\<lparr>bound_vbo := rayVBO r\<rparr>) = g"
      using ys bound len by (simp add: array_sub_data_def buffer_data_def g_def)
    moreover have "bind_array_buffer (rayVBO r) (gl r) = (gl r)\<lparr>bound_vbo := rayVBO r\<rparr>"
      using bound by (simp add: bind_array_buffer_def)
    ultimately show ?thesis
      using R assms(2) draw in_names [OF ys(3)]
      by (simp add: Renderer_DrawRay_def draw_calls xs_def [symmetric] gs drawn_def add_drawing_def r1_def)
  qed
  then show ?thesis
    using ready_drawn [OF ready1] by (intro exI conjI) (assumption | simp add: r1_def gs)+
qed

section \<open>What a frame shows\<close>

text \<open>
  The abstract picture of the calls, with the points of each mesh in its own coordinates. A quad is
  two triangles.
\<close>

definition quad :: "vec3 \<Rightarrow> vec3 \<Rightarrow> vec3 \<Rightarrow> vec3 \<Rightarrow> vec3 list" where
  "quad a b c d = [a, b, c, c, d, a]"

definition corner :: "fp \<Rightarrow> fp \<Rightarrow> fp \<Rightarrow> vec3" where
  "corner x y z = Vec3 (x / 2) (y / 2) (z / 2)"

definition cube_points :: "vec3 list" where
  "cube_points =
     quad (corner (-1) (-1) 1) (corner 1 (-1) 1) (corner 1 1 1) (corner (-1) 1 1) @
     quad (corner (-1) (-1) (-1)) (corner (-1) 1 (-1)) (corner 1 1 (-1)) (corner 1 (-1) (-1)) @
     quad (corner (-1) (-1) (-1)) (corner (-1) (-1) 1) (corner (-1) 1 1) (corner (-1) 1 (-1)) @
     quad (corner 1 (-1) (-1)) (corner 1 1 (-1)) (corner 1 1 1) (corner 1 (-1) 1) @
     quad (corner (-1) 1 (-1)) (corner (-1) 1 1) (corner 1 1 1) (corner 1 1 (-1)) @
     quad (corner (-1) (-1) (-1)) (corner 1 (-1) (-1)) (corner 1 (-1) 1) (corner (-1) (-1) 1)"

definition plane_points :: "vec3 list" where
  "plane_points = quad (Vec3 (-1) 0 (-1)) (Vec3 1 0 (-1)) (Vec3 1 0 1) (Vec3 (-1) 0 1)"

definition crosshair_points :: "vec3 list" where
  "crosshair_points = [Vec3 0 (- f32 (1 / 20)) 0, Vec3 0 (f32 (1 / 20)) 0, Vec3 (- f32 (1 / 20)) 0 0, Vec3 (f32 (1 / 20)) 0 0]"

definition show_mesh :: "mode \<Rightarrow> vec4 \<Rightarrow> 'm \<Rightarrow> vec3 list \<Rightarrow> 'm canvas \<Rightarrow> 'm canvas" where
  "show_mesh k c m ps cv =
     cv\<lparr>shown := shown cv @ [\<lparr>dr_mode = k, dr_color = c, dr_mvp = m, dr_positions = map vec3_floats ps\<rparr>]\<rparr>"

definition seen :: "'m glm \<Rightarrow> 'm \<Rightarrow> 'm canvas \<Rightarrow> 'm" where
  "seen M m cv = mat_mult M (mat_mult M (c_proj cv) (c_view cv)) m"

fun paint :: "'m glm \<Rightarrow> draw \<Rightarrow> 'm canvas \<Rightarrow> 'm canvas" where
  "paint M (DrawCube p rot color) cv = show_mesh Triangles color (seen M (cube_model M p rot (Vec3 1 1 1)) cv) cube_points cv"
| "paint M (DrawPlane p s color) cv = show_mesh Triangles color (seen M (plane_model M p (Vec2 s s)) cv) plane_points cv"
| "paint M (DrawGrid color) cv = show_mesh Lines color (seen M (mat_identity M) cv) grid_lines cv"
| "paint M (UpdateCamera p ry rx) cv =
     (let pos = camera_pos M p ry rx 5
      in cv\<lparr>c_view := mat_lookAt M pos (camera_target M pos ry rx) cameraUp,
            c_proj := mat_perspective M (glm_radians M 45) (f32 (800 / 600)) (f32 (1 / 10)) 100\<rparr>)"
| "paint M (DrawRay a b color) cv = show_mesh Lines color (seen M (mat_identity M) cv) [a, b] cv"
| "paint M DrawCrosshair cv = show_mesh Lines (Vec4 0 0 0 1) (mat_identity M) crosshair_points cv"

definition paint_debug :: "'m glm \<Rightarrow> debug_object \<Rightarrow> 'm canvas \<Rightarrow> 'm canvas" where
  "paint_debug M obj cv =
     (case shape obj of
        Ray a b \<Rightarrow> show_mesh Lines (debug_color obj) (seen M (mat_identity M) cv) [a, b] cv
      | Cube p rot s \<Rightarrow> show_mesh Triangles (debug_color obj) (seen M (cube_model M p rot s) cv) cube_points cv)"

lemma cube_mesh: "map (\<lambda>v. chunk 3 v cube_vertices) cube_indices = map vec3_floats cube_points"
  by (simp add: cube_points_def quad_def corner_def vec3_floats_def Vec3_def cube_indices_def cube_vertices_def chunk_def)

lemma plane_mesh: "map (\<lambda>v. chunk 6 v plane_vertices) plane_indices = map vec3_floats plane_points"
  by (simp add: plane_points_def quad_def vec3_floats_def Vec3_def plane_indices_def plane_vertices_def chunk_def)

lemma crosshair_mesh: "map (\<lambda>v. chunk 3 v crosshair_vertices) [0..<4] = map vec3_floats crosshair_points"
proof -
  have "crosshair_vertices = concat (map vec3_floats crosshair_points)" "length crosshair_points = 4"
    by (simp_all add: crosshair_points_def vec3_floats_def Vec3_def crosshair_vertices_def)
  then show ?thesis using chunk_points [of crosshair_points] by (simp del: upt_Suc)
qed

text \<open>An operation does what its picture says.\<close>

definition paints :: "(('m gl, 'm) renderer \<Rightarrow> ('m gl, 'm) renderer res) \<Rightarrow> ('m canvas \<Rightarrow> 'm canvas) \<Rightarrow> bool" where
  "paints f h \<longleftrightarrow> (\<forall>r. ready r \<longrightarrow> (\<exists>r'. f r = Inr r' \<and> ready r' \<and> canvas r' = h (canvas r)))"

lemma paintsI: "(\<And>r. ready r \<Longrightarrow> \<exists>r'. f r = Inr r' \<and> ready r' \<and> canvas r' = h (canvas r)) \<Longrightarrow> paints f h"
  by (simp add: paints_def)

lemma paintsD: "paints f h \<Longrightarrow> ready r \<Longrightarrow> \<exists>r'. f r = Inr r' \<and> ready r' \<and> canvas r' = h (canvas r)"
  by (simp add: paints_def)

lemma drawn_shows:
  "canvas (drawn k c m (map vec3_floats ps) r) = show_mesh k c m ps (canvas r)"
  by (simp add: canvas_def show_mesh_def)

lemma seen_canvas: "seen M m (canvas r) = model_view_proj M m r"
  by (simp add: seen_def canvas_def model_view_proj_def)

lemma paints_drawn:
  assumes "\<And>r. ready r \<Longrightarrow> f r = Inr (drawn k c (m r) (map vec3_floats ps) r)"
    and "\<And>r. h (canvas r) = show_mesh k c (m r) ps (canvas r)"
  shows "paints f h"
  using assms by (intro paintsI) (simp add: ready_drawn drawn_shows)

lemma paints_cube:
  "paints (Renderer_DrawCube (documented gen) M p rot s c) (\<lambda>cv. show_mesh Triangles c (seen M (cube_model M p rot s) cv) cube_points cv)"
  by (rule paints_drawn [where m = "model_view_proj M (cube_model M p rot s)"])
    (simp_all add: DrawCube_result cube_mesh seen_canvas)

lemma paints_ray:
  assumes "fresh_names gen"
  shows "paints (Renderer_DrawRay (documented gen) M a b c) (\<lambda>cv. show_mesh Lines c (seen M (mat_identity M) cv) [a, b] cv)"
proof (rule paintsI)
  fix r :: "('a gl, 'a) renderer" assume r: "ready r"
  obtain r0 where r0: "ready r0" "rayInitialized r0" "view r0 = view r" "proj r0 = proj r" "drawings (gl r0) = drawings (gl r)"
    and init: "(if \<not> rayInitialized r then InitRay (documented gen) r else Inr r) = Inr r0"
    using InitRay_ready [OF r _ assms] r by (cases "rayInitialized r") auto
  have "Renderer_DrawRay (documented gen) M a b c r = Renderer_DrawRay (documented gen) M a b c r0"
    using init r0(2) by (simp add: Renderer_DrawRay_def)
  then show "\<exists>r'. Renderer_DrawRay (documented gen) M a b c r = Inr r' \<and> ready r' \<and>
      canvas r' = show_mesh Lines c (seen M (mat_identity M) (canvas r)) [a, b] (canvas r)"
    using DrawRay_ready [OF r0(1,2), of gen M a b c] r0(3-5)
    by (auto simp: canvas_def show_mesh_def seen_def model_view_proj_def)
qed

lemma paints_render:
  assumes "fresh_names gen"
  shows "paints (render (documented gen) M d) (paint M d)"
proof (cases d)
  case (DrawCube p rot c)
  then show ?thesis using paints_cube [of gen M p rot "Vec3 1 1 1" c] by (simp add: paints_def)
next
  case (DrawPlane p s c)
  show ?thesis unfolding DrawPlane
    by (rule paints_drawn [where m = "model_view_proj M (plane_model M p (Vec2 s s))" and k = Triangles and c = c and ps = plane_points])
      (simp_all add: DrawPlane_result plane_mesh seen_canvas)
next
  case (DrawGrid c)
  show ?thesis unfolding DrawGrid
    by (rule paints_drawn [where m = "model_view_proj M (mat_identity M)" and k = Lines and c = c and ps = grid_lines])
      (simp_all add: DrawGrid_result chunk_points seen_canvas)
next
  case (UpdateCamera p ry rx)
  have "ready (Renderer_UpdateCamera M p ry rx 5 r) \<longleftrightarrow> ready r" for r
    by (simp add: ready_def ray_ok_def Renderer_UpdateCamera_def Let_def)
  then show ?thesis
    unfolding UpdateCamera by (intro paintsI) (simp add: canvas_def Renderer_UpdateCamera_def Let_def)
next
  case (DrawRay a b c)
  then show ?thesis using paints_ray [OF assms, of M a b c] by (simp add: paints_def)
next
  case DrawCrosshair
  show ?thesis unfolding DrawCrosshair
    by (rule paints_drawn [where m = "\<lambda>_. mat_identity M" and k = Lines and c = "Vec4 0 0 0 1" and ps = crosshair_points])
      (simp_all add: DrawCrosshair_result crosshair_mesh)
qed

lemma paints_render_debug:
  assumes "fresh_names gen"
  shows "paints (render_debug (documented gen) M obj) (paint_debug M obj)"
  using paints_ray [OF assms] paints_cube by (cases "shape obj") (simp_all add: render_debug_def [abs_def] paint_debug_def [abs_def])

lemma paints_steps:
  assumes "\<And>x. x \<in> set xs \<Longrightarrow> paints (f x) (h x)"
  shows "paints (steps (map f xs)) (fold h xs)"
  using assms
proof (induction xs)
  case Nil
  show ?case by (intro paintsI) simp
next
  case (Cons x xs)
  show ?case
  proof (rule paintsI)
    fix r :: "('b gl, 'b) renderer" assume "ready r"
    then obtain r1 where "f x r = Inr r1" "ready r1" "canvas r1 = h x (canvas r)"
      using Cons.prems [of x] by (auto dest: paintsD)
    then show "\<exists>r'. steps (map f (x # xs)) r = Inr r' \<and> ready r' \<and> canvas r' = fold h (x # xs) (canvas r)"
      using paintsD [OF Cons.IH, of r1] Cons.prems by auto
  qed
qed

lemma paints_then: "paints f h \<Longrightarrow> paints f' h' \<Longrightarrow> paints (\<lambda>r. and_then (f r) f') (h' \<circ> h)"
  unfolding paints_def by fastforce

definition paint_frame :: "'m glm \<Rightarrow> draw list \<times> debug_object list \<times> draw list \<Rightarrow> 'm canvas \<Rightarrow> 'm canvas" where
  "paint_frame M fr = (case fr of (scene, debug, crosshair) \<Rightarrow>
     fold (paint M) crosshair \<circ> fold (paint_debug M) debug \<circ> fold (paint M) scene)"

lemma paints_frame:
  assumes "fresh_names gen"
  shows "paints (\<lambda>r. render_frame (documented gen) M scene debug crosshair r) (paint_frame M (scene, debug, crosshair))"
proof -
  have "paints (PreRender (documented gen)) id" by (intro paintsI) (auto simp: PreRender_def gl_do_def call_def ready_def)
  moreover have "paints (steps (map (render (documented gen) M) ds)) (fold (paint M) ds)" for ds
    by (intro paints_steps paints_render assms)
  moreover have "paints (steps (map (render_debug (documented gen) M) debug)) (fold (paint_debug M) debug)"
    by (intro paints_steps paints_render_debug assms)
  ultimately have "paints (\<lambda>r. and_then (PreRender (documented gen) r) (\<lambda>r. and_then (steps (map (render (documented gen) M) scene) r)
      (\<lambda>r. and_then (steps (map (render_debug (documented gen) M) debug) r) (steps (map (render (documented gen) M) crosshair)))))
      (((fold (paint M) crosshair \<circ> fold (paint_debug M) debug) \<circ> fold (paint M) scene) \<circ> id)"
    by (intro paints_then)
  then show ?thesis
    by (simp add: render_frame_def paint_frame_def steps_append [abs_def])
qed

section \<open>Shutdown\<close>

lemma names_delete: "fst ` set (AList.delete n xs) = fst ` set xs - {n}"
  by (induction xs) auto

lemma no_names: "fst ` set xs = {} \<longleftrightarrow> xs = []"
  by simp

definition deleted :: "nat \<Rightarrow> nat list \<Rightarrow> 'm gl \<Rightarrow> 'm gl" where
  "deleted n bs g = fold glDeleteBuffers bs (glDeleteVertexArrays n g)"

lemma deleted_simps [simp]:
  "gl_loaded (deleted n bs g) = gl_loaded g" "programs (deleted n bs g) = programs g" "shaders (deleted n bs g) = shaders g"
  "drawings (deleted n bs g) = drawings g" "fst ` set (vaos (deleted n bs g)) = fst ` set (vaos g) - {n}"
  "fst ` set (vbos (deleted n bs g)) = fst ` set (vbos g) - set bs" "gl_error (deleted n bs g) = gl_error g"
proof -
  have "gl_loaded (fold glDeleteBuffers bs h) = gl_loaded h \<and> programs (fold glDeleteBuffers bs h) = programs h \<and>
      shaders (fold glDeleteBuffers bs h) = shaders h \<and> drawings (fold glDeleteBuffers bs h) = drawings h \<and>
      gl_error (fold glDeleteBuffers bs h) = gl_error h \<and> vaos (fold glDeleteBuffers bs h) = vaos h \<and>
      fst ` set (vbos (fold glDeleteBuffers bs h)) = fst ` set (vbos h) - set bs" for h :: "'a gl"
    by (induction bs arbitrary: h) (auto simp: glDeleteBuffers_def names_delete)
  then show "gl_loaded (deleted n bs g) = gl_loaded g" "programs (deleted n bs g) = programs g" "shaders (deleted n bs g) = shaders g"
    "drawings (deleted n bs g) = drawings g" "fst ` set (vaos (deleted n bs g)) = fst ` set (vaos g) - {n}"
    "fst ` set (vbos (deleted n bs g)) = fst ` set (vbos g) - set bs" "gl_error (deleted n bs g) = gl_error g"
    by (simp_all add: deleted_def glDeleteVertexArrays_def names_delete)
qed

lemma delete_if_result:
  assumes "gl_loaded (gl r)"
  shows "delete_if (documented gen) made vao bs r = Inr (if made r then r\<lparr>gl := deleted (vao r) (bs r) (gl r)\<rparr> else r)"
proof -
  have "steps (map (\<lambda>b. gl_do (documented gen) (\<lambda>_. glDeleteBuffers b)) ns) (r\<lparr>gl := g\<rparr>) = Inr (r\<lparr>gl := fold glDeleteBuffers ns g\<rparr>)"
    if "gl_loaded g" for ns g
    using that by (induction ns arbitrary: g) (simp_all add: gl_do_def call_def, simp add: glDeleteBuffers_def)
  moreover have "gl_loaded (glDeleteVertexArrays (vao r) (gl r))" using assms by (simp add: glDeleteVertexArrays_def)
  ultimately show ?thesis using assms by (simp add: delete_if_def deleted_def gl_do_def call_def)
qed

lemma Shutdown_result:
  assumes "ready r"
  shows "\<exists>r'. Shutdown (documented gen) r = Inr r' \<and> vaos (gl r') = [] \<and> vbos (gl r') = [] \<and> programs (gl r') = [] \<and> shaders (gl r') = [] \<and>
    \<not> gl_error (gl r') \<and> canvas r' = canvas r"
proof -
  note R = assms [unfolded ready_def]
  define g where "g = deleted (crossVAO r) [crossVBO r] ((if rayInitialized r then deleted (rayVAO r) [rayVBO r] else id)
    (deleted (planeVAO r) [planeVBO r, planeEBO r] (deleted (cubeVAO r) [cubeVBO r, cubeEBO r] (deleted (gridVAO r) [gridVBO r] (gl r)))))"
  have "fst ` set (vaos g) = {}" "fst ` set (vbos g) = {}" using R by (auto simp: g_def)
  then have "vaos (glDeleteProgram (shaderProgram r) g) = []" "vbos (glDeleteProgram (shaderProgram r) g) = []"
    by (simp_all add: glDeleteProgram_def)
  moreover have "gl_loaded g" "programs g = [shaderProgram r]" "shaders g = []" "\<not> gl_error g" "drawings g = drawings (gl r)"
    using R by (simp_all add: g_def)
  moreover have "Shutdown (documented gen) r = Inr (r\<lparr>gl := glDeleteProgram (shaderProgram r) g\<rparr>)"
    using R by (simp add: Shutdown_def delete_if_result gl_do_def call_def g_def)
  ultimately show ?thesis by (simp add: glDeleteProgram_def canvas_def)
qed

section \<open>Runs of frames\<close>

lemma frames_result:
  assumes "fresh_names gen"
  shows "\<exists>r r'. Init (documented gen) working (Renderer (empty_gl m0) m) = Inr r \<and>
    steps (map (\<lambda>(scene, debug, crosshair). render_frame (documented gen) M scene debug crosshair) frames) r = Inr r' \<and>
    canvas r' = fold (paint_frame M) frames \<lparr>c_proj = m, c_view = m, shown = []\<rparr> \<and> \<not> gl_error (gl r') \<and> depth_test (gl r')"
proof -
  obtain r where r: "Init (documented gen) working (Renderer (empty_gl m0) m) = Inr r" "ready r" "canvas r = \<lparr>c_proj = m, c_view = m, shown = []\<rparr>"
    using Init_result [OF assms, of m0 m] by (elim exE conjE) (rule that; assumption)
  have "paints (steps (map (\<lambda>(scene, debug, crosshair). render_frame (documented gen) M scene debug crosshair) frames)) (fold (paint_frame M) frames)"
  proof (rule paints_steps)
    fix fr :: "draw list \<times> debug_object list \<times> draw list"
    obtain scene debug crosshair where fr: "fr = (scene, debug, crosshair)" using prod_cases3 .
    show "paints (case fr of (scene, debug, crosshair) \<Rightarrow> render_frame (documented gen) M scene debug crosshair) (paint_frame M fr)"
      unfolding fr prod.case by (rule paints_frame [OF assms])
  qed
  from paintsD [OF this r(2)] obtain r'
    where r': "steps (map (\<lambda>(scene, debug, crosshair). render_frame (documented gen) M scene debug crosshair) frames) r = Inr r'" "ready r'"
      "canvas r' = fold (paint_frame M) frames (canvas r)"
    by (elim exE conjE) (rule that; assumption)
  then have "\<not> gl_error (gl r')" "depth_test (gl r')" by (simp_all add: ready_def)
  with r(1) r'(1) r'(3) [unfolded r(3)] show ?thesis by (intro exI conjI)
qed

definition next_name :: "nat list \<Rightarrow> nat" where
  "next_name xs = Suc (fold max xs 0)"

lemma fresh_next_name: "fresh_names next_name"
proof -
  have le: "n \<le> fold max xs n" for n and xs :: "nat list"
  proof (induction xs arbitrary: n)
    case (Cons y ys)
    then show ?case using max.cobounded2 [of n y] by (metis fold_simps(2) le_trans max.cobounded2)
  qed simp
  have "x \<in> set xs \<Longrightarrow> x \<le> fold max xs n" for x n :: nat and xs
  proof (induction xs arbitrary: n)
    case (Cons y ys)
    then show ?case using le [of "max y n" ys] by auto
  qed simp
  then have "Suc (fold max xs 0) \<notin> set xs" for xs :: "nat list" using Suc_n_not_le_n by blast
  then show ?thesis by (simp add: fresh_names_def next_name_def)
qed

text \<open>Matrices that remember how they were made.\<close>

definition tracing :: "string glm" where
  "tracing = \<lparr>mat_identity = ''I'', mat_translate = \<lambda>m _. m @ ''T'', mat_rotate = \<lambda>m _ _. m @ ''R'', mat_scale = \<lambda>m _. m @ ''S'',
     mat_mult = (@), mat_apply = \<lambda>_ v. v, mat_lookAt = \<lambda>_ _ _. ''V'', mat_perspective = \<lambda>_ _ _ _. ''P'',
     glm_radians = \<lambda>x. x, glm_sin = \<lambda>_. 0, glm_cos = \<lambda>_. 1\<rparr>"

lemma run_of_frames:
  assumes "fresh_names gen"
  obtains r r' where "Init (documented gen) working (Renderer (empty_gl m0) m) = Inr r"
    and "steps (map (\<lambda>(scene, debug, crosshair). render_frame (documented gen) M scene debug crosshair) frames) r = Inr r'" and "ready r'"
proof -
  obtain r where r: "Init (documented gen) working (Renderer (empty_gl m0) m) = Inr r" "ready r"
    using Init_result [OF assms, of m0 m] by (elim exE conjE) (rule that; assumption)
  have "\<exists>r'. steps (map (\<lambda>(scene, debug, crosshair). render_frame (documented gen) M scene debug crosshair) frames) s = Inr r' \<and> ready r'"
    if "ready s" for s :: "('a gl, 'a) renderer"
    using that
  proof (induction frames arbitrary: s)
    case (Cons fr frames)
    obtain scene debug crosshair where "fr = (scene, debug, crosshair)" using prod_cases3 .
    moreover obtain s1 where "render_frame (documented gen) M scene debug crosshair s = Inr s1" "ready s1"
      using paintsD [OF paints_frame [OF assms, of M scene debug crosshair] Cons.prems] by (elim exE conjE) (rule that; assumption)
    ultimately show ?case using Cons.IH [of s1] by simp
  qed simp
  from this [OF r(2)] show ?thesis using that r(1) by (elim exE conjE) (rule that; assumption)
qed

lemma render_camera:
  assumes "fresh_names gen" and "ready r" and "\<forall>d \<in> set ds. \<forall>p a b. d \<noteq> UpdateCamera p a b"
  shows "\<exists>r' new. steps (map (render (documented gen) M) ds) r = Inr r' \<and> ready r' \<and> view r' = view r \<and> proj r' = proj r \<and>
    drawings (gl r') = drawings (gl r) @ new \<and> length new = length ds \<and>
    (DrawCrosshair \<notin> set ds \<longrightarrow> (\<forall>x \<in> set new. \<exists>k. dr_mvp x = model_view_proj M k r))"
proof -
  have step: "\<exists>x. paint M d cv = cv\<lparr>shown := shown cv @ [x]\<rparr> \<and> (d \<noteq> DrawCrosshair \<longrightarrow> (\<exists>k. dr_mvp x = seen M k cv))"
    if "\<forall>p a b. d \<noteq> UpdateCamera p a b" for d and cv :: "'a canvas"
  proof -
    have "\<exists>x. show_mesh q c m ps cv = cv\<lparr>shown := shown cv @ [x]\<rparr> \<and> dr_mvp x = m" for q c m ps
      by (simp add: show_mesh_def) (metis drawing.select_convs(3))
    then show ?thesis using that by (cases d) (simp_all, blast+)
  qed
  have "\<exists>new. fold (paint M) ds cv = cv\<lparr>shown := shown cv @ new\<rparr> \<and> length new = length ds \<and>
      (DrawCrosshair \<notin> set ds \<longrightarrow> (\<forall>x \<in> set new. \<exists>k. dr_mvp x = seen M k cv))" for cv
    using assms(3)
  proof (induction ds arbitrary: cv)
    case (Cons d ds)
    obtain x where x: "paint M d cv = cv\<lparr>shown := shown cv @ [x]\<rparr>" "d \<noteq> DrawCrosshair \<longrightarrow> (\<exists>k. dr_mvp x = seen M k cv)"
      using step [of d cv] Cons.prems by auto
    obtain new where new: "fold (paint M) ds (cv\<lparr>shown := shown cv @ [x]\<rparr>) = cv\<lparr>shown := shown cv @ x # new\<rparr>" "length new = length ds"
      "DrawCrosshair \<notin> set ds \<longrightarrow> (\<forall>x \<in> set new. \<exists>k. dr_mvp x = seen M k cv)"
      using Cons.IH [of "cv\<lparr>shown := shown cv @ [x]\<rparr>"] Cons.prems by (auto simp: seen_def)
    show ?case using x new by (intro exI [of _ "x # new"]) auto
  qed (intro exI [of _ "[]"], simp)
  then obtain new where new: "fold (paint M) ds (canvas r) = (canvas r)\<lparr>shown := shown (canvas r) @ new\<rparr>" "length new = length ds"
      "DrawCrosshair \<notin> set ds \<longrightarrow> (\<forall>x \<in> set new. \<exists>k. dr_mvp x = seen M k (canvas r))" by blast
  have "paints (steps (map (render (documented gen) M) ds)) (fold (paint M) ds)"
    by (intro paints_steps paints_render assms)
  from paintsD [OF this assms(2)] obtain r' where "steps (map (render (documented gen) M) ds) r = Inr r'" "ready r'"
    "canvas r' = (canvas r)\<lparr>shown := shown (canvas r) @ new\<rparr>" unfolding new(1) by (elim exE conjE) (rule that; assumption)
  then show ?thesis using new(2,3) by (intro exI [of _ r'] exI [of _ new]) (simp add: canvas_def seen_def model_view_proj_def)
qed

lemma actor_draws: "d \<in> set (snd (Scene_Render t sc)) \<Longrightarrow> d \<noteq> DrawCrosshair \<and> (\<forall>p a b. d \<noteq> UpdateCamera p a b)"
proof -
  have "d \<in> set (snd (Actor_Render t a)) \<Longrightarrow> d \<noteq> DrawCrosshair \<and> (\<forall>p a b. d \<noteq> UpdateCamera p a b)" for a
    by (cases a) (auto simp: Floor_Render_def RemoteActor_Render_def Let_def)
  then show "d \<in> set (snd (Scene_Render t sc)) \<Longrightarrow> d \<noteq> DrawCrosshair \<and> (\<forall>p a b. d \<noteq> UpdateCamera p a b)"
    by (fastforce simp: Scene_Render_def)
qed

lemma actors_lag_result:
  assumes "fresh_names gen" and "ready r"
  shows "\<exists>r' old mine. steps (map (render (documented gen) M) (snd (Scene_Render t sc) @ Player_Render p)) r = Inr r' \<and>
    drawings (gl r') = drawings (gl r) @ old @ [mine] \<and> length old = length (snd (Scene_Render t sc)) \<and>
    (\<forall>x \<in> set old. \<exists>k. dr_mvp x = mat_mult M (mat_mult M (proj r) (view r)) k) \<and>
    (\<exists>k pos target. dr_mvp mine = mat_mult M (mat_mult M
      (mat_perspective M (glm_radians M 45) (f32 (800 / 600)) (f32 (1 / 10)) 100) (mat_lookAt M pos target cameraUp)) k \<and>
      pos = camera_pos M (player_renderPosition p) (v3y (player_renderRotation p)) (v3x (player_renderRotation p)) 5)"
proof -
  obtain r1 old where r1: "steps (map (render (documented gen) M) (snd (Scene_Render t sc))) r = Inr r1" "ready r1" "drawings (gl r1) = drawings (gl r) @ old"
    "length old = length (snd (Scene_Render t sc))" "\<forall>x \<in> set old. \<exists>k. dr_mvp x = model_view_proj M k r"
    using render_camera [OF assms, of "snd (Scene_Render t sc)" M] actor_draws [of _ t sc] by blast
  have "paints (steps (map (render (documented gen) M) (Player_Render p))) (fold (paint M) (Player_Render p))"
    by (intro paints_steps paints_render assms)
  from paintsD [OF this r1(2)] obtain r2 where r2: "steps (map (render (documented gen) M) (Player_Render p)) r1 = Inr r2"
    "canvas r2 = fold (paint M) (Player_Render p) (canvas r1)" by (elim exE conjE) (rule that; assumption)
  obtain mine where mine: "drawings (gl r2) = drawings (gl r1) @ [mine]"
    "dr_mvp mine = mat_mult M (mat_mult M (c_proj (canvas r2)) (c_view (canvas r2)))
       (cube_model M (player_renderPosition p) (Vec3 0 (v3y (player_renderRotation p)) 0) (Vec3 1 1 1))"
    using r2(2) by (simp add: Player_Render_def show_mesh_def seen_def canvas_def Let_def)
  have "c_proj (canvas r2) = mat_perspective M (glm_radians M 45) (f32 (800 / 600)) (f32 (1 / 10)) 100"
    "c_view (canvas r2) = mat_lookAt M (camera_pos M (player_renderPosition p) (v3y (player_renderRotation p)) (v3x (player_renderRotation p)) 5)
       (camera_target M (camera_pos M (player_renderPosition p) (v3y (player_renderRotation p)) (v3x (player_renderRotation p)) 5)
         (v3y (player_renderRotation p)) (v3x (player_renderRotation p))) cameraUp"
    unfolding r2(2) by (simp_all add: Player_Render_def show_mesh_def Let_def)
  then show ?thesis
    using r1 r2(1) mine by (intro exI [of _ r2] exI [of _ old] exI [of _ mine]) (auto simp: steps_append model_view_proj_def)
qed

section \<open>The surface of the cube\<close>

text \<open>The triangles of a list of points, the edges they go along, and the side a triangle faces.\<close>

fun triangles :: "'a list \<Rightarrow> ('a \<times> 'a \<times> 'a) list" where
  "triangles (a # b # c # ps) = (a, b, c) # triangles ps"
| "triangles ps = []"

definition edges :: "('a \<times> 'a \<times> 'a) list \<Rightarrow> ('a \<times> 'a) list" where
  "edges ts = concat (map (\<lambda>(a, b, c). [(a, b), (b, c), (c, a)]) ts)"

definition position_of :: "nat \<Rightarrow> fp \<times> fp \<times> fp" where
  "position_of v = (cube_vertices ! (3 * v), cube_vertices ! (3 * v + 1), cube_vertices ! (3 * v + 2))"

fun faces_outward :: "(fp \<times> fp \<times> fp) \<times> (fp \<times> fp \<times> fp) \<times> (fp \<times> fp \<times> fp) \<Rightarrow> bool" where
  "faces_outward ((ax, ay, az), (bx, by, bz), (cx, cy, cz)) \<longleftrightarrow>
     0 < ((by - ay) * (cz - az) - (bz - az) * (cy - ay)) * (ax + bx + cx) +
         ((bz - az) * (cx - ax) - (bx - ax) * (cz - az)) * (ay + by + cy) +
         ((bx - ax) * (cy - ay) - (by - ay) * (cx - ax)) * (az + bz + cz)"

text \<open>
  The index list of the cube describes a closed surface: 12 triangles on 8 vertices, each edge is
  used once in each direction, and every triangle faces outwards.
\<close>
theorem cube_surface_closed:
  "length (triangles cube_indices) = 12 \<and> set cube_indices = {..<8} \<and> distinct (edges (triangles cube_indices)) \<and>
   set (edges (triangles cube_indices)) = set (map prod.swap (edges (triangles cube_indices))) \<and>
   list_all (\<lambda>(a, b, c). faces_outward (position_of a, position_of b, position_of c)) (triangles cube_indices)"
proof (intro conjI)
  show "set cube_indices = {..<8}" by (auto simp: cube_indices_def)
  show "set (edges (triangles cube_indices)) = set (map prod.swap (edges (triangles cube_indices)))"
    by (auto simp: cube_indices_def edges_def)
qed (simp_all add: cube_indices_def edges_def position_of_def cube_vertices_def)

end
