(* ===== verification/Gl_Driver.thy ===== *)
theory Gl_Driver
  imports Gl_Frames
begin

text \<open>
  The renderer on any driver that keeps the promises of the specification: the locale \<open>gl_driver\<close>, the
  simulation of every operation of the renderer by the same operation on OpenGL as documented, and what
  follows for the frames the client draws and for \<open>Shutdown\<close>.
\<close>

section \<open>The interface\<close>

locale gl_driver =
  fixes api :: "('g, 'm) gl_api" and gen :: "nat list \<Rightarrow> nat" and objs :: "'g \<Rightarrow> 'm gl"
  assumes names: "fresh_names gen"
    and loaded: "api_loaded api g \<longleftrightarrow> gl_loaded (objs g)"
    and load: "objs (api_load api g) = (objs g)\<lparr>gl_loaded := True\<rparr>"
    and set_depth: "objs (api_set_depth api b g) = (objs g)\<lparr>depth_test := b\<rparr>"
    and Clear: "objs (api_Clear api g) = objs g"
    and GenVertexArrays: "map_prod id objs (api_GenVertexArrays api g) = glGenVertexArrays gen (objs g)"
    and GenBuffers: "map_prod id objs (api_GenBuffers api g) = glGenBuffers gen (objs g)"
    and BindVertexArray: "objs (api_BindVertexArray api n g) = glBindVertexArray n (objs g)"
    and bind_array: "objs (api_bind_array_buffer api n g) = bind_array_buffer n (objs g)"
    and bind_element: "objs (api_bind_element_buffer api n g) = bind_element_buffer n (objs g)"
    and array: "objs (api_array_data api xs g) = array_data xs (objs g)"
    and element: "objs (api_element_data api is g) = element_data is (objs g)"
    and sub_data: "objs (api_array_sub_data api xs g) = array_sub_data xs (objs g)"
    and VertexAttribPointer: "objs (api_VertexAttribPointer api i sz st off g) = glVertexAttribPointer i sz st off (objs g)"
    and EnableVertexAttribArray: "objs (api_EnableVertexAttribArray api i g) = glEnableVertexAttribArray i (objs g)"
    and CreateShader: "map_prod id objs (api_CreateShader api g) = glCreateShader gen (objs g)"
    and CreateProgram: "map_prod id objs (api_CreateProgram api g) = glCreateProgram gen (objs g)"
    and LinkProgram: "objs (api_LinkProgram api vs fs p g) = glLinkProgram vs fs p (objs g)"
    and DeleteShader: "objs (api_DeleteShader api n g) = glDeleteShader n (objs g)"
    and link_status: "api_link_status api p g \<longleftrightarrow> p \<in> set (programs (objs g)) \<and> linked (objs g)"
    and UseProgram: "objs (api_UseProgram api p g) = glUseProgram p (objs g)"
    and GetUniformLocation: "api_GetUniformLocation api l p g = glGetUniformLocation l p (objs g)"
    and Uniform4f: "objs (api_Uniform4f api l c g) = glUniform4f l c (objs g)"
    and UniformMatrix4fv: "objs (api_UniformMatrix4fv api l m g) = glUniformMatrix4fv l m (objs g)"
    and DrawArrays: "map_sum id objs (api_DrawArrays api k i n g) = glDrawArrays k i n (objs g)"
    and DrawElements: "map_sum id objs (api_DrawElements api k n g) = glDrawElements k n (objs g)"
    and DeleteVertexArrays: "objs (api_DeleteVertexArrays api n g) = glDeleteVertexArrays n (objs g)"
    and DeleteBuffers: "objs (api_DeleteBuffers api n g) = glDeleteBuffers n (objs g)"
    and DeleteProgram: "objs (api_DeleteProgram api p g) = glDeleteProgram p (objs g)"

section \<open>Renderers that correspond\<close>

definition gl_map :: "('g \<Rightarrow> 'h) \<Rightarrow> ('g, 'm) renderer \<Rightarrow> ('h, 'm) renderer" where
  "gl_map f r =
     \<lparr>gl = f (gl r), window = window r, shaderProgram = shaderProgram r, gridVAO = gridVAO r, gridVBO = gridVBO r,
      gridVertexCount = gridVertexCount r, gridInitialized = gridInitialized r, planeVAO = planeVAO r, planeVBO = planeVBO r,
      planeEBO = planeEBO r, planeInitialized = planeInitialized r, cubeVAO = cubeVAO r, cubeVBO = cubeVBO r,
      cubeEBO = cubeEBO r, cubeInitialized = cubeInitialized r, rayVAO = rayVAO r, rayVBO = rayVBO r,
      rayInitialized = rayInitialized r, crossVAO = crossVAO r, crossVBO = crossVBO r, crosshairInitialized = crosshairInitialized r,
      shaderLocMVP = shaderLocMVP r, shaderLocColor = shaderLocColor r, view = view r, proj = proj r\<rparr>"

lemma gl_map_simps [simp]:
  "gl (gl_map f r) = f (gl r)" "window (gl_map f r) = window r" "shaderProgram (gl_map f r) = shaderProgram r" "gridVAO (gl_map f r) = gridVAO r"
  "gridVBO (gl_map f r) = gridVBO r" "gridVertexCount (gl_map f r) = gridVertexCount r" "gridInitialized (gl_map f r) = gridInitialized r"
  "planeVAO (gl_map f r) = planeVAO r" "planeVBO (gl_map f r) = planeVBO r" "planeEBO (gl_map f r) = planeEBO r"
  "planeInitialized (gl_map f r) = planeInitialized r" "cubeVAO (gl_map f r) = cubeVAO r" "cubeVBO (gl_map f r) = cubeVBO r"
  "cubeEBO (gl_map f r) = cubeEBO r" "cubeInitialized (gl_map f r) = cubeInitialized r" "rayVAO (gl_map f r) = rayVAO r"
  "rayVBO (gl_map f r) = rayVBO r" "rayInitialized (gl_map f r) = rayInitialized r" "crossVAO (gl_map f r) = crossVAO r"
  "crossVBO (gl_map f r) = crossVBO r" "crosshairInitialized (gl_map f r) = crosshairInitialized r" "shaderLocMVP (gl_map f r) = shaderLocMVP r"
  "shaderLocColor (gl_map f r) = shaderLocColor r" "view (gl_map f r) = view r" "proj (gl_map f r) = proj r"
  by (simp_all add: gl_map_def)

lemma gl_map_update_gl [simp]:
  "gl_map f (r\<lparr>gl := g\<rparr>) = (gl_map f r)\<lparr>gl := f g\<rparr>"
  by (simp_all add: gl_map_def)

lemma gl_map_update_grid [simp]:
  "gl_map f (r\<lparr>window := x0\<rparr>) = (gl_map f r)\<lparr>window := x0\<rparr>"
  "gl_map f (r\<lparr>shaderProgram := x1\<rparr>) = (gl_map f r)\<lparr>shaderProgram := x1\<rparr>"
  "gl_map f (r\<lparr>gridVAO := x2\<rparr>) = (gl_map f r)\<lparr>gridVAO := x2\<rparr>"
  "gl_map f (r\<lparr>gridVBO := x3\<rparr>) = (gl_map f r)\<lparr>gridVBO := x3\<rparr>"
  "gl_map f (r\<lparr>gridVertexCount := x4\<rparr>) = (gl_map f r)\<lparr>gridVertexCount := x4\<rparr>"
  "gl_map f (r\<lparr>gridInitialized := x5\<rparr>) = (gl_map f r)\<lparr>gridInitialized := x5\<rparr>"
  by (simp_all add: gl_map_def)

lemma gl_map_update_plane [simp]:
  "gl_map f (r\<lparr>planeVAO := x6\<rparr>) = (gl_map f r)\<lparr>planeVAO := x6\<rparr>"
  "gl_map f (r\<lparr>planeVBO := x7\<rparr>) = (gl_map f r)\<lparr>planeVBO := x7\<rparr>"
  "gl_map f (r\<lparr>planeEBO := x8\<rparr>) = (gl_map f r)\<lparr>planeEBO := x8\<rparr>"
  "gl_map f (r\<lparr>planeInitialized := x9\<rparr>) = (gl_map f r)\<lparr>planeInitialized := x9\<rparr>"
  by (simp_all add: gl_map_def)

lemma gl_map_update_cube [simp]:
  "gl_map f (r\<lparr>cubeVAO := x10\<rparr>) = (gl_map f r)\<lparr>cubeVAO := x10\<rparr>"
  "gl_map f (r\<lparr>cubeVBO := x11\<rparr>) = (gl_map f r)\<lparr>cubeVBO := x11\<rparr>"
  "gl_map f (r\<lparr>cubeEBO := x12\<rparr>) = (gl_map f r)\<lparr>cubeEBO := x12\<rparr>"
  "gl_map f (r\<lparr>cubeInitialized := x13\<rparr>) = (gl_map f r)\<lparr>cubeInitialized := x13\<rparr>"
  by (simp_all add: gl_map_def)

lemma gl_map_update_others [simp]:
  "gl_map f (r\<lparr>rayVAO := x14\<rparr>) = (gl_map f r)\<lparr>rayVAO := x14\<rparr>"
  "gl_map f (r\<lparr>rayVBO := x15\<rparr>) = (gl_map f r)\<lparr>rayVBO := x15\<rparr>"
  "gl_map f (r\<lparr>rayInitialized := x16\<rparr>) = (gl_map f r)\<lparr>rayInitialized := x16\<rparr>"
  "gl_map f (r\<lparr>crossVAO := x17\<rparr>) = (gl_map f r)\<lparr>crossVAO := x17\<rparr>"
  "gl_map f (r\<lparr>crossVBO := x18\<rparr>) = (gl_map f r)\<lparr>crossVBO := x18\<rparr>"
  "gl_map f (r\<lparr>crosshairInitialized := x19\<rparr>) = (gl_map f r)\<lparr>crosshairInitialized := x19\<rparr>"
  by (simp_all add: gl_map_def)

lemma gl_map_update_matrices [simp]:
  "gl_map f (r\<lparr>shaderLocMVP := x20\<rparr>) = (gl_map f r)\<lparr>shaderLocMVP := x20\<rparr>"
  "gl_map f (r\<lparr>shaderLocColor := x21\<rparr>) = (gl_map f r)\<lparr>shaderLocColor := x21\<rparr>"
  "gl_map f (r\<lparr>view := x22\<rparr>) = (gl_map f r)\<lparr>view := x22\<rparr>"
  "gl_map f (r\<lparr>proj := x23\<rparr>) = (gl_map f r)\<lparr>proj := x23\<rparr>"
  by (simp_all add: gl_map_def)

definition follows ::
  "('g \<Rightarrow> 'h) \<Rightarrow> (('g, 'm) renderer \<Rightarrow> ('g, 'm) renderer res) \<Rightarrow> (('h, 'm) renderer \<Rightarrow> ('h, 'm) renderer res) \<Rightarrow> bool" where
  "follows f op op' \<longleftrightarrow> (\<forall>r. map_sum id (gl_map f) (op r) = op' (gl_map f r))"

lemma followsI: "(\<And>r. map_sum id (gl_map f) (op r) = op' (gl_map f r)) \<Longrightarrow> follows f op op'"
  by (simp add: follows_def)

lemma followsD: "follows f op op' \<Longrightarrow> map_sum id (gl_map f) (op r) = op' (gl_map f r)"
  by (simp add: follows_def)

lemma map_and_then:
  assumes "map_sum id f x = x'" and "\<And>y. map_sum id f' (k y) = k' (f y)"
  shows "map_sum id f' (and_then x k) = and_then x' k'"
  using assms by (cases x) auto

lemma follows_steps: "list_all2 (follows f) ops ops' \<Longrightarrow> follows f (steps ops) (steps ops')"
proof (induction rule: list_all2_induct)
  case Nil
  show ?case by (simp add: follows_def)
next
  case (Cons op ops op' ops')
  show ?case
    by (rule followsI) (simp only: steps_simps, rule map_and_then, rule followsD [OF Cons(1)], rule followsD [OF Cons(3)])
qed

lemma list_all2_maps: "(\<And>x. R (f x) (g x)) \<Longrightarrow> list_all2 R (map f xs) (map g xs)"
  by (induction xs) simp_all

lemma follows_pure: "(\<And>r. gl_map f (h r) = h' (gl_map f r)) \<Longrightarrow> follows f (\<lambda>r. Inr (h r)) (\<lambda>r. Inr (h' r))"
  by (simp add: follows_def)

lemma follows_if:
  "(\<And>r. b r = b' (gl_map f r)) \<Longrightarrow> follows f op op' \<Longrightarrow> follows f q q' \<Longrightarrow>
   follows f (\<lambda>r. if b r then op r else q r) (\<lambda>r. if b' r then op' r else q' r)"
  by (simp add: follows_def)

lemma follows_fault: "follows f (\<lambda>r. Inl e) (\<lambda>r. Inl e)"
  by (simp add: follows_def)

context gl_driver begin

lemma follows_call:
  assumes "\<And>r g. map_sum id objs (k r g) = k' (gl_map objs r) (objs g)"
  shows "follows objs (call api k) (call (documented gen) k')"
proof (rule followsI)
  fix r :: "('g, 'm) renderer"
  have "map_sum id (gl_map objs) (and_then (k r (gl r)) (\<lambda>g. Inr (r\<lparr>gl := g\<rparr>))) =
      and_then (k' (gl_map objs r) (objs (gl r))) (\<lambda>g. Inr ((gl_map objs r)\<lparr>gl := g\<rparr>))"
    by (rule map_and_then) (simp_all add: assms)
  then show "map_sum id (gl_map objs) (call api k r) = call (documented gen) k' (gl_map objs r)"
    by (simp add: call_def loaded)
qed

lemma follows_do:
  "(\<And>r g. objs (k r g) = k' (gl_map objs r) (objs g)) \<Longrightarrow> follows objs (gl_do api k) (gl_do (documented gen) k')"
  unfolding gl_do_def by (rule follows_call) simp

lemma follows_gen_array:
  assumes "\<And>n r. gl_map objs (put n r) = put' n (gl_map objs r)"
  shows "follows objs (gen_array api put) (gen_array (documented gen) put')"
proof (rule followsI)
  fix r :: "('g, 'm) renderer"
  obtain n g where "api_GenVertexArrays api (gl r) = (n, g)" by fastforce
  then show "map_sum id (gl_map objs) (gen_array api put r) = gen_array (documented gen) put' (gl_map objs r)"
    using GenVertexArrays [of "gl r"] by (simp add: gen_array_def loaded assms flip: GenVertexArrays)
qed

lemma follows_gen_buffer:
  assumes "\<And>n r. gl_map objs (put n r) = put' n (gl_map objs r)"
  shows "follows objs (gen_buffer api put) (gen_buffer (documented gen) put')"
proof (rule followsI)
  fix r :: "('g, 'm) renderer"
  obtain n g where "api_GenBuffers api (gl r) = (n, g)" by fastforce
  then show "map_sum id (gl_map objs) (gen_buffer api put r) = gen_buffer (documented gen) put' (gl_map objs r)"
    using GenBuffers [of "gl r"] by (simp add: gen_buffer_def loaded assms flip: GenBuffers)
qed

lemmas laws = load set_depth Clear BindVertexArray bind_array bind_element array element sub_data VertexAttribPointer
  EnableVertexAttribArray LinkProgram DeleteShader UseProgram GetUniformLocation Uniform4f UniformMatrix4fv DrawArrays
  DrawElements DeleteVertexArrays DeleteBuffers DeleteProgram

lemma model_view_proj_map [simp]: "model_view_proj M m (gl_map objs r) = model_view_proj M m r"
  by (simp add: model_view_proj_def)

lemmas follows_intros = follows_steps follows_pure follows_if follows_do follows_call follows_gen_array follows_gen_buffer
  list.rel_intros list_all2_appendI

lemma follows_Inits:
  "follows objs (InitGrid api) (InitGrid (documented gen))"
  "follows objs (InitPlane api) (InitPlane (documented gen))"
  "follows objs (InitCube api) (InitCube (documented gen))"
  "follows objs (InitRay api) (InitRay (documented gen))"
  "follows objs (InitCrosshair api) (InitCrosshair (documented gen))"
  unfolding InitGrid_def [abs_def] InitPlane_def [abs_def] InitCube_def [abs_def] InitRay_def [abs_def] InitCrosshair_def [abs_def]
  by (intro follows_intros; simp add: laws)+

lemma follows_make_program: "follows objs (make_program api) (make_program (documented gen))"
proof (rule followsI)
  fix r :: "('g, 'm) renderer"
  obtain vs g1 where vs: "api_CreateShader api (gl r) = (vs, g1)" by fastforce
  obtain fs g2 where fs: "api_CreateShader api g1 = (fs, g2)" by fastforce
  obtain p g3 where p: "api_CreateProgram api g2 = (p, g3)" by fastforce
  have "glCreateShader gen (objs (gl r)) = (vs, objs g1)" "glCreateShader gen (objs g1) = (fs, objs g2)" "glCreateProgram gen (objs g2) = (p, objs g3)"
    using CreateShader [of "gl r"] CreateShader [of g1] CreateProgram [of g2] vs fs p by simp_all
  then show "map_sum id (gl_map objs) (make_program api r) = make_program (documented gen) (gl_map objs r)"
    using vs fs p by (simp add: make_program_def CompileShader_def Let_def laws)
qed

lemma follows_Init: "follows objs (Init api ans) (Init (documented gen) ans)"
proof (rule followsI)
  fix r :: "('g, 'm) renderer"
  have "follows objs (steps [\<lambda>r. Inr (r\<lparr>gl := api_load api (gl r)\<rparr>), gl_do api (\<lambda>r. api_set_depth api True), make_program api,
      InitGrid api, InitCube api, InitPlane api, InitCrosshair api])
    (steps [\<lambda>r. Inr (r\<lparr>gl := api_load (documented gen) (gl r)\<rparr>), gl_do (documented gen) (\<lambda>r. api_set_depth (documented gen) True),
      make_program (documented gen), InitGrid (documented gen), InitCube (documented gen), InitPlane (documented gen),
      InitCrosshair (documented gen)])"
    by (intro follows_intros follows_Inits follows_make_program) (simp_all add: laws)
  from followsD [OF this, of "r\<lparr>window := True\<rparr>"]
  show "map_sum id (gl_map objs) (Init api ans r) = Init (documented gen) ans (gl_map objs r)"
    unfolding Init_def Let_def by (simp del: steps_simps)
qed

lemma follows_delete_if:
  assumes "\<And>r. made (gl_map objs r) = made' r" and "\<And>r. vao (gl_map objs r) = vao' r" and "\<And>r. bs (gl_map objs r) = bs' r"
  shows "follows objs (delete_if api made' vao' bs') (delete_if (documented gen) made vao bs)"
proof (rule followsI)
  fix r :: "('g, 'm) renderer"
  have "list_all2 (follows objs) (map (\<lambda>b. gl_do api (\<lambda>_. api_DeleteBuffers api b)) ns)
      (map (\<lambda>b. gl_do (documented gen) (\<lambda>_. api_DeleteBuffers (documented gen) b)) ns)" for ns
    by (intro list_all2_maps follows_do) (simp add: laws)
  moreover have "follows objs (gl_do api (\<lambda>r. api_DeleteVertexArrays api (vao' r))) (gl_do (documented gen) (\<lambda>r. api_DeleteVertexArrays (documented gen) (vao r)))"
    by (intro follows_do) (simp add: laws assms)
  ultimately have "follows objs (steps (gl_do api (\<lambda>r. api_DeleteVertexArrays api (vao' r)) # map (\<lambda>b. gl_do api (\<lambda>_. api_DeleteBuffers api b)) ns))
      (steps (gl_do (documented gen) (\<lambda>r. api_DeleteVertexArrays (documented gen) (vao r)) #
        map (\<lambda>b. gl_do (documented gen) (\<lambda>_. api_DeleteBuffers (documented gen) b)) ns))" for ns
    by (intro follows_steps list.rel_intros)
  from followsD [OF this] show "map_sum id (gl_map objs) (delete_if api made' vao' bs' r) = delete_if (documented gen) made vao bs (gl_map objs r)"
    by (simp only: delete_if_def assms if_distrib [of "map_sum id (gl_map objs)"] map_sum.simps id_apply)
qed

lemma follows_Shutdown: "follows objs (Shutdown api) (Shutdown (documented gen))"
  unfolding Shutdown_def [abs_def] by (intro follows_intros follows_delete_if) (simp_all add: laws)

lemma follows_draws:
  "follows objs (PreRender api) (PreRender (documented gen))"
  "follows objs (Renderer_DrawGrid api M c) (Renderer_DrawGrid (documented gen) M c)"
  "follows objs (Renderer_DrawPlane api M p s c) (Renderer_DrawPlane (documented gen) M p s c)"
  "follows objs (Renderer_DrawRay api M a b c) (Renderer_DrawRay (documented gen) M a b c)"
  "follows objs (Renderer_DrawCrosshair api M) (Renderer_DrawCrosshair (documented gen) M)"
  unfolding PreRender_def Renderer_DrawGrid_def [abs_def] Renderer_DrawPlane_def [abs_def] Renderer_DrawRay_def [abs_def]
    Renderer_DrawCrosshair_def [abs_def]
  by (intro follows_intros follows_Inits; simp add: laws)+

lemma follows_DrawCube: "follows objs (Renderer_DrawCube api M p rot s c) (Renderer_DrawCube (documented gen) M p rot s c)"
  unfolding Renderer_DrawCube_def [abs_def]
  by (intro follows_intros follows_if follows_fault) (simp_all add: laws loaded link_status)

lemma follows_render: "follows objs (render api M d) (render (documented gen) M d)"
proof (cases d)
  case (UpdateCamera p ry rx)
  show ?thesis unfolding UpdateCamera by (rule followsI) (simp add: Renderer_UpdateCamera_def Let_def)
qed (simp_all add: follows_draws follows_DrawCube)

lemma follows_render_debug: "follows objs (render_debug api M obj) (render_debug (documented gen) M obj)"
  unfolding render_debug_def [abs_def] by (cases "shape obj") (simp_all add: follows_draws follows_DrawCube)

lemma follows_frame:
  "follows objs (render_frame api M scene debug crosshair) (render_frame (documented gen) M scene debug crosshair)"
  unfolding render_frame_def
  by (intro follows_steps list.rel_intros list_all2_appendI list_all2_maps follows_draws follows_render follows_render_debug)

end

lemma follows_Inr:
  assumes "follows f op op'" and "op' (gl_map f r) = Inr s'"
  obtains s where "op r = Inr s" and "gl_map f s = s'"
  using followsD [OF assms(1), of r] assms(2) that by (cases "op r") auto

lemma follows_frames:
  assumes "gl_driver api gen objs"
  shows "follows objs (steps (map (\<lambda>(scene, debug, crosshair). render_frame api M scene debug crosshair) frames))
    (steps (map (\<lambda>(scene, debug, crosshair). render_frame (documented gen) M scene debug crosshair) frames))"
  by (intro follows_steps list_all2_maps) (auto simp: gl_driver.follows_frame [OF assms])

lemma gl_map_Renderer: "gl_map f (Renderer g m) = Renderer (f g) m"
  by (simp add: gl_map_def Renderer_def)

lemma gl_map_same: "gl_map (\<lambda>g. g) r = r"
  by (simp add: gl_map_def)

text \<open>OpenGL as documented keeps its own promises.\<close>

lemma documented_driver: "fresh_names gen \<Longrightarrow> gl_driver (documented gen) gen (\<lambda>g. g)"
  by unfold_locales (simp_all add: map_sum.identity [unfolded id_def] sum.map_id [unfolded id_def] prod.map_id [unfolded id_def] id_def)

interpretation documented_gl: gl_driver "documented next_name" next_name "\<lambda>g. g"
  by (rule documented_driver [OF fresh_next_name])

section \<open>The life of the renderer\<close>

text \<open>
  C5: On every driver that conforms, from \<open>Init\<close> on every sequence of frames shows exactly the picture its calls
  describe: each cube, plane, grid, ray and crosshair with all its points, its colour and the matrices in
  force at that moment. No call fails, no buffer is read outside its bounds, and no OpenGL error is raised.
\<close>
theorem frames_show_the_picture:
  assumes "gl_driver api gen objs" and "objs g0 = empty_gl m0"
  shows "\<exists>r r'. Init api working (Renderer g0 m) = Inr r \<and>
    steps (map (\<lambda>(scene, debug, crosshair). render_frame api M scene debug crosshair) frames) r = Inr r' \<and>
    canvas (gl_map objs r') = fold (paint_frame M) frames \<lparr>c_proj = m, c_view = m, shown = []\<rparr> \<and>
    \<not> gl_error (objs (gl r')) \<and> depth_test (objs (gl r'))"
proof -
  obtain s s' where s: "Init (documented gen) working (Renderer (empty_gl m0) m) = Inr s"
    "steps (map (\<lambda>(scene, debug, crosshair). render_frame (documented gen) M scene debug crosshair) frames) s = Inr s'"
    "canvas s' = fold (paint_frame M) frames \<lparr>c_proj = m, c_view = m, shown = []\<rparr>" "\<not> gl_error (gl s')" "depth_test (gl s')"
    using frames_result [OF gl_driver.names [OF assms(1)], of m0 m M frames]
    by (elim exE conjE) (rule that; assumption)
  obtain r where r: "Init api working (Renderer g0 m) = Inr r" "gl_map objs r = s"
    using follows_Inr [OF gl_driver.follows_Init [OF assms(1)] s(1) [folded assms(2), folded gl_map_Renderer]] .
  obtain r' where r': "steps (map (\<lambda>(scene, debug, crosshair). render_frame api M scene debug crosshair) frames) r = Inr r'" "gl_map objs r' = s'"
    using follows_Inr [OF follows_frames [OF assms(1)] s(2) [folded r(2)]] .
  have "\<not> gl_error (objs (gl r'))" "depth_test (objs (gl r'))" using s(4,5) r'(2) by (auto simp: gl_map_simps(1) [symmetric] simp del: gl_map_simps(1))
  with r(1) r'(1) s(3) [folded r'(2)] show ?thesis by (intro exI conjI)
qed

theorem frames_show_the_picture_witness:
  "\<exists>r r'. Init (documented next_name) working (Renderer (empty_gl ''0'') ''0'') = Inr r \<and>
     steps (map (\<lambda>(scene, debug, crosshair). render_frame (documented next_name) tracing scene debug crosshair)
       [([DrawPlane (Vec3 0 0 0) 1 (Vec4 0 0 0 1), UpdateCamera (Vec3 0 0 0) 0 0, DrawCube (Vec3 0 0 0) (Vec3 0 0 0) (Vec4 1 0 0 1)],
         [debug_ray 0 (Vec3 0 0 0) (Vec3 1 0 0) (Vec4 1 1 0 1) 1], [DrawCrosshair])]) r = Inr r' \<and>
     map (\<lambda>d. (dr_mode d, dr_mvp d, length (dr_positions d))) (shown (canvas (gl_map (\<lambda>g. g) r'))) =
       [(Triangles, ''00ITS'', 6), (Triangles, ''PVITRRRS'', 36), (Lines, ''PVI'', 2), (Lines, ''I'', 4)]"
proof -
  let ?scene = "[DrawPlane (Vec3 0 0 0) 1 (Vec4 0 0 0 1), UpdateCamera (Vec3 0 0 0) 0 0, DrawCube (Vec3 0 0 0) (Vec3 0 0 0) (Vec4 1 0 0 1)]"
  let ?debug = "[debug_ray 0 (Vec3 0 0 0) (Vec3 1 0 0) (Vec4 1 1 0 1) 1]"
  from frames_show_the_picture [OF documented_gl.gl_driver_axioms refl, of "''0''" "''0''" tracing "[(?scene, ?debug, [DrawCrosshair])]"]
  obtain r r' where run: "Init (documented next_name) working (Renderer (empty_gl ''0'') ''0'') = Inr r"
    "steps (map (\<lambda>(scene, debug, crosshair). render_frame (documented next_name) tracing scene debug crosshair) [(?scene, ?debug, [DrawCrosshair])]) r = Inr r'"
    and c: "canvas (gl_map (\<lambda>g. g) r') = fold (paint_frame tracing) [(?scene, ?debug, [DrawCrosshair])] \<lparr>c_proj = ''0'', c_view = ''0'', shown = []\<rparr>"
    by (elim exE conjE) (rule that; assumption)
  have "map (\<lambda>d. (dr_mode d, dr_mvp d, length (dr_positions d))) (shown (canvas (gl_map (\<lambda>g. g) r'))) =
      [(Triangles, ''00ITS'', 6), (Triangles, ''PVITRRRS'', 36), (Lines, ''PVI'', 2), (Lines, ''I'', 4)]"
    unfolding c by (simp add: paint_frame_def paint_debug_def debug_ray_def show_mesh_def seen_def tracing_def plane_model_def cube_model_def
      plane_points_def cube_points_def crosshair_points_def quad_def Let_def)
  with run show ?thesis by (intro conjI exI)
qed

lemma run_on_driver:
  assumes "gl_driver api gen objs" and "objs g0 = empty_gl m0"
  obtains r r' where "Init api working (Renderer g0 m) = Inr r"
    and "steps (map (\<lambda>(scene, debug, crosshair). render_frame api M scene debug crosshair) frames) r = Inr r'" and "ready (gl_map objs r')"
proof -
  obtain s s' where s: "Init (documented gen) working (Renderer (empty_gl m0) m) = Inr s"
    "steps (map (\<lambda>(scene, debug, crosshair). render_frame (documented gen) M scene debug crosshair) frames) s = Inr s'" "ready s'"
    using run_of_frames [OF gl_driver.names [OF assms(1)]] .
  obtain r where r: "Init api working (Renderer g0 m) = Inr r" "gl_map objs r = s"
    using follows_Inr [OF gl_driver.follows_Init [OF assms(1)] s(1) [folded assms(2), folded gl_map_Renderer]] .
  obtain r' where r': "steps (map (\<lambda>(scene, debug, crosshair). render_frame api M scene debug crosshair) frames) r = Inr r'" "gl_map objs r' = s'"
    using follows_Inr [OF follows_frames [OF assms(1)] s(2) [folded r(2)]] .
  show ?thesis by (rule that [OF r(1) r'(1) s(3) [folded r'(2)]])
qed

text \<open>
  C35: However many frames were drawn, and whether or not a ray was among them, \<open>Shutdown\<close> deletes every
  object the renderer has made: no vertex array, buffer, shader or program is left, and no call fails.
\<close>
theorem Shutdown_deletes_everything:
  assumes "gl_driver api gen objs" and "objs g0 = empty_gl m0"
  shows "\<exists>r r' r''. Init api working (Renderer g0 m) = Inr r \<and>
    steps (map (\<lambda>(scene, debug, crosshair). render_frame api M scene debug crosshair) frames) r = Inr r' \<and>
    Shutdown api r' = Inr r'' \<and> vaos (objs (gl r'')) = [] \<and> vbos (objs (gl r'')) = [] \<and> programs (objs (gl r'')) = [] \<and>
    shaders (objs (gl r'')) = [] \<and> \<not> gl_error (objs (gl r''))"
proof -
  obtain r r' where r: "Init api working (Renderer g0 m) = Inr r"
    "steps (map (\<lambda>(scene, debug, crosshair). render_frame api M scene debug crosshair) frames) r = Inr r'" "ready (gl_map objs r')"
    using run_on_driver [OF assms] .
  obtain s where s: "Shutdown (documented gen) (gl_map objs r') = Inr s" "vaos (gl s) = []" "vbos (gl s) = []" "programs (gl s) = []"
    "shaders (gl s) = []" "\<not> gl_error (gl s)"
    using Shutdown_result [OF r(3), of gen] by (elim exE conjE) (rule that; assumption)
  obtain r'' where r'': "Shutdown api r' = Inr r''" "gl_map objs r'' = s"
    using follows_Inr [OF gl_driver.follows_Shutdown [OF assms(1)] s(1)] .
  have "objs (gl r'') = gl s" using r''(2) by (simp flip: r''(2))
  with r(1,2) r''(1) s(2-6) show ?thesis by (intro exI conjI) (assumption | simp)+
qed

theorem Shutdown_deletes_everything_witness:
  "\<exists>r r' r''. Init (documented next_name) working (Renderer (empty_gl ''0'') ''0'') = Inr r \<and>
    steps (map (\<lambda>(scene, debug, crosshair). render_frame (documented next_name) tracing scene debug crosshair)
      [([], [debug_ray 0 (Vec3 0 0 0) (Vec3 1 0 0) (Vec4 1 1 0 1) 1], [DrawCrosshair])]) r = Inr r' \<and>
    Shutdown (documented next_name) r' = Inr r'' \<and> vaos (gl r'') = [] \<and> vbos (gl r'') = [] \<and> programs (gl r'') = []"
  using Shutdown_deletes_everything [OF documented_gl.gl_driver_axioms refl, of "''0''" "''0''" tracing
      "[([], [debug_ray 0 (Vec3 0 0 0) (Vec3 1 0 0) (Vec4 1 1 0 1) 1], [DrawCrosshair])]"]
  by (elim exE conjE) (intro exI conjI)

text \<open>
  When there is no window, or GLAD does not load, \<open>Init\<close> returns as if it had worked: the first frame
  then calls a null function, and so does \<open>Shutdown\<close> when the program ends.
\<close>
theorem failed_Init_unnoticed:
  assumes "\<not> window_created ans \<or> \<not> glad_loaded ans" and "\<not> api_loaded api g0"
  shows "\<exists>r. Init api ans (Renderer g0 m) = Inr r \<and> render_frame api M scene debug crosshair r = Inl NullDeref \<and> Shutdown api r = Inl NullDeref"
  using assms
  by (auto simp: Init_def Renderer_def Let_def render_frame_def PreRender_def gl_do_def call_def Shutdown_def delete_if_def)

theorem failed_Init_unnoticed_witness:
  "\<exists>r. Init (documented next_name) \<lparr>window_created = True, glad_loaded = False\<rparr> (Renderer (empty_gl ''0'') ''0'') = Inr r \<and>
     render_frame (documented next_name) tracing [] [] [] r = Inl NullDeref \<and> Shutdown (documented next_name) r = Inl NullDeref"
  using failed_Init_unnoticed [of "\<lparr>window_created = True, glad_loaded = False\<rparr>" "documented next_name" "empty_gl ''0''" "''0''" tracing "[]" "[]" "[]"]
  by (simp add: empty_gl_def)

text \<open>
  The camera is set by the player, after the actors of the scene: the floor, the grid and every
  remote actor are drawn with the camera of the frame before, the player with that of this frame.
\<close>
theorem actors_lag_one_camera:
  assumes "gl_driver api gen objs" and "ready (gl_map objs r)"
  shows "\<exists>r' old mine. steps (map (render api M) (snd (Scene_Render t sc) @ Player_Render p)) r = Inr r' \<and>
    drawings (objs (gl r')) = drawings (objs (gl r)) @ old @ [mine] \<and> length old = length (snd (Scene_Render t sc)) \<and>
    (\<forall>x \<in> set old. \<exists>k. dr_mvp x = mat_mult M (mat_mult M (proj r) (view r)) k) \<and>
    (\<exists>k pos target. dr_mvp mine = mat_mult M (mat_mult M
      (mat_perspective M (glm_radians M 45) (f32 (800 / 600)) (f32 (1 / 10)) 100) (mat_lookAt M pos target cameraUp)) k \<and>
      pos = camera_pos M (player_renderPosition p) (v3y (player_renderRotation p)) (v3x (player_renderRotation p)) 5)"
proof -
  from actors_lag_result [OF gl_driver.names [OF assms(1)] assms(2), of M t sc p]
  obtain s' old mine where s: "steps (map (render (documented gen) M) (snd (Scene_Render t sc) @ Player_Render p)) (gl_map objs r) = Inr s'"
    and new: "drawings (gl s') = drawings (gl (gl_map objs r)) @ old @ [mine]" "length old = length (snd (Scene_Render t sc))"
      "\<forall>x \<in> set old. \<exists>k. dr_mvp x = mat_mult M (mat_mult M (proj (gl_map objs r)) (view (gl_map objs r))) k"
    and mine: "\<exists>k pos target. dr_mvp mine = mat_mult M (mat_mult M
      (mat_perspective M (glm_radians M 45) (f32 (800 / 600)) (f32 (1 / 10)) 100) (mat_lookAt M pos target cameraUp)) k \<and>
      pos = camera_pos M (player_renderPosition p) (v3y (player_renderRotation p)) (v3x (player_renderRotation p)) 5"
    by (elim exE) (elim conjE, rule that; assumption)
  have "follows objs (steps (map (render api M) ds)) (steps (map (render (documented gen) M) ds))" for ds
    by (intro follows_steps list_all2_maps gl_driver.follows_render [OF assms(1)])
  from follows_Inr [OF this s] obtain r' where r': "steps (map (render api M) (snd (Scene_Render t sc) @ Player_Render p)) r = Inr r'" "gl_map objs r' = s'" .
  have "objs (gl r') = gl s'" by (simp flip: r'(2))
  with r'(1) new mine show ?thesis by (intro exI [of _ r'] exI [of _ old] exI [of _ mine]) simp
qed

theorem actors_lag_one_camera_witness:
  "\<exists>r r'. Init (documented next_name) working (Renderer (empty_gl ''0'') ''0'') = Inr r \<and>
     steps (map (render (documented next_name) tracing) (snd (Scene_Render 0 [(0, AFloor Actor)]) @ Player_Render Player)) r = Inr r' \<and>
     length (drawings (gl r')) = 3"
proof -
  obtain r where r: "Init (documented next_name) working (Renderer (empty_gl ''0'') ''0'') = Inr r" "ready r"
    "canvas r = \<lparr>c_proj = ''0'', c_view = ''0'', shown = []\<rparr>"
    using Init_result [OF fresh_next_name, of "''0''" "''0''"] by (elim exE conjE) (rule that; assumption)
  have "ready (gl_map (\<lambda>g. g) r)" using r(2) by (subst gl_map_same)
  have len: "length (snd (Scene_Render 0 [(0, AFloor Actor)])) = 2" by (simp add: Scene_Render_def Floor_Render_def)
  have none: "drawings (gl r) = []" using r(3) by (simp add: canvas_def)
  from actors_lag_one_camera [OF documented_gl.gl_driver_axioms \<open>ready (gl_map (\<lambda>g. g) r)\<close>, of tracing 0 "[(0, AFloor Actor)]" Player]
  obtain r' old mine where r': "steps (map (render (documented next_name) tracing) (snd (Scene_Render 0 [(0, AFloor Actor)]) @ Player_Render Player)) r = Inr r'"
    "drawings (gl r') = drawings (gl r) @ old @ [mine]" "length old = length (snd (Scene_Render 0 [(0, AFloor Actor)]))"
    by (elim exE) (elim conjE, rule that; assumption)
  have "length (drawings (gl r')) = 3" unfolding r'(2) none length_append r'(3) len by simp
  with r(1) r'(1) show ?thesis by (intro exI conjI)
qed

end
