(* ===== verification/Service_Start.thy ===== *)
theory Service_Start
  imports Tcp_Session Rw_Lock
begin

text \<open>
  Threads and start-up: \<open>ThreadManager\<close> (\<open>ThreadManager.cpp\<close>), the configuration of \<open>Service\<close> and
  \<open>Service::Start\<close> (\<open>Service.h\<close>, \<open>Service.cpp\<close>), interleaved with the threads it launches. The context of
  Boost.Asio is the state its documentation gives: how many operations are outstanding, the UDP receives apart from the rest, and a flag
  \<open>stopped\<close>; \<open>run\<close> returns when either says there is nothing to do, sets the flag when it runs out of
  work, and returns at once while the flag is set. Nothing in the program calls \<open>restart\<close> or \<open>stop\<close>.
\<close>

section \<open>Threads\<close>

text \<open>Where a launched thread stands: before \<open>InitTLS\<close>, in its loop, inside \<open>run\<close>, behind the loop, done.\<close>

datatype where_at = Launched | Looping | In_Run | Left_Loop | Ended

record worker =
  LThreadId :: uint32
  w_at :: where_at

record thread_manager =
  SThreadId :: uint32
  main_LThreadId :: uint32
  threads :: "worker list"

definition InitTLS :: "thread_manager \<Rightarrow> uint32 \<times> thread_manager" where
  "InitTLS tm = (SThreadId tm, tm\<lparr>SThreadId := SThreadId tm + 1\<rparr>)"

definition ThreadManager :: thread_manager where
  "ThreadManager =
     (let (i, tm) = InitTLS \<lparr>SThreadId = 1, main_LThreadId = 0, threads = []\<rparr> in tm\<lparr>main_LThreadId := i\<rparr>)"

definition Launch :: "thread_manager \<Rightarrow> thread_manager" where
  "Launch tm = tm\<lparr>threads := threads tm @ [\<lparr>LThreadId = 0, w_at = Launched\<rparr>]\<rparr>"

text \<open>\<open>Join\<close> waits for one thread after the other, in the state the threads have reached.\<close>

definition Join :: "thread_manager \<Rightarrow> thread_manager option" where
  "Join tm = (if \<forall>w \<in> set (threads tm). w_at w = Ended then Some (tm\<lparr>threads := []\<rparr>) else None)"

section \<open>The configuration of the service\<close>

text \<open>An endpoint is its port; a factory or a receiver is there or not.\<close>

record service_config =
  cfg_tcpRemoteEndpoint :: "nat option"
  cfg_maxTcpSessionCount :: int32
  cfg_maxUdpSessionCount :: int32
  tcpSessionFactory :: bool
  udpSessionFactory :: bool
  has_udpReceiver :: bool
  io_stopped :: bool
  io_recvs :: nat           \<comment> \<open>outstanding receives of the UDP receiver\<close>
  io_other :: nat           \<comment> \<open>every other outstanding operation\<close>

definition new_Service :: "nat option \<Rightarrow> int32 \<Rightarrow> int32 \<Rightarrow> service_config" where
  "new_Service ep maxTcp maxUdp =
     \<lparr>cfg_tcpRemoteEndpoint = ep, cfg_maxTcpSessionCount = maxTcp, cfg_maxUdpSessionCount = maxUdp, tcpSessionFactory = False,
      udpSessionFactory = False, has_udpReceiver = False, io_stopped = False, io_recvs = 0, io_other = 0\<rparr>"

definition CanStart :: "service_config \<Rightarrow> bool" where
  "CanStart sv \<longleftrightarrow> tcpSessionFactory sv \<or> udpSessionFactory sv"

definition GetTcpRemoteEndpoint :: "service_config \<Rightarrow> nat" where
  "GetTcpRemoteEndpoint sv = (case cfg_tcpRemoteEndpoint sv of Some ep \<Rightarrow> ep | None \<Rightarrow> 0)"

definition SetTcpRemoteEndpoint :: "nat \<Rightarrow> service_config \<Rightarrow> service_config" where
  "SetTcpRemoteEndpoint ep sv = sv\<lparr>cfg_tcpRemoteEndpoint := Some ep\<rparr>"

definition SetSessionFactory :: "service_config \<Rightarrow> service_config" where
  "SetSessionFactory sv = sv\<lparr>tcpSessionFactory := True, udpSessionFactory := True\<rparr>"

definition SetUdpReceiver :: "service_config \<Rightarrow> service_config" where
  "SetUdpReceiver sv = sv\<lparr>has_udpReceiver := True\<rparr>"

text \<open>Calling an empty \<open>std::function\<close> throws.\<close>

definition make_tcp_session :: "service_config \<Rightarrow> unit res" where
  "make_tcp_session sv = (if tcpSessionFactory sv then Inr () else Inl Uncaught)"

definition RegisterToContextAsync :: "service_config \<Rightarrow> service_config" where
  "RegisterToContextAsync sv = sv\<lparr>io_other := Suc (io_other sv)\<rparr>"

text \<open>\<open>UdpReceiver::Start\<close>: one receive is posted for each session the service may have; \<open>None\<close> ends the loop.\<close>

definition UdpReceiver_Start :: "nat \<Rightarrow> service_config \<Rightarrow> service_config option" where
  "UdpReceiver_Start i sv = (if int i < cfg_maxUdpSessionCount sv then Some (sv\<lparr>io_recvs := Suc (io_recvs sv)\<rparr>) else None)"

text \<open>\<open>Connect\<close> on the new session: see \<open>Tcp_Session\<close>; without a port nothing is posted.\<close>

definition connect_new :: "service_config \<Rightarrow> service_config" where
  "connect_new sv = (if GetTcpRemoteEndpoint sv = 0 then sv else sv\<lparr>io_other := Suc (io_other sv)\<rparr>)"

section \<open>Start and the threads it launches\<close>

datatype main_at = Launching nat | Receiver_Test | Posting nat | Create_Session | Returned bool | Threw fault

record system =
  sys_threads :: thread_manager
  sys_service :: service_config
  sys_main :: main_at
  handled :: nat          \<comment> \<open>completion handlers that have run\<close>

text \<open>The statements of \<open>Service::Start\<close>.\<close>

fun Service_Start :: "system \<Rightarrow> system" where
  "Service_Start s =
     (case sys_main s of
        Launching i \<Rightarrow>
          if i < 4 then s\<lparr>sys_threads := Launch (sys_threads s), sys_main := Launching (Suc i)\<rparr> else s\<lparr>sys_main := Receiver_Test\<rparr>
      | Receiver_Test \<Rightarrow>
          if \<not> has_udpReceiver (sys_service s) then s\<lparr>sys_main := Returned False\<rparr>
          else s\<lparr>sys_main := Posting 0\<rparr>
      | Posting i \<Rightarrow>
          (case UdpReceiver_Start i (sys_service s) of
             Some sv \<Rightarrow> s\<lparr>sys_service := sv, sys_main := Posting (Suc i)\<rparr>
           | None \<Rightarrow> s\<lparr>sys_main := Create_Session\<rparr>)
      | Create_Session \<Rightarrow>
          (case make_tcp_session (sys_service s) of
             Inl e \<Rightarrow> s\<lparr>sys_main := Threw e\<rparr>
           | Inr _ \<Rightarrow> s\<lparr>sys_service := connect_new (sys_service s), sys_main := Returned True\<rparr>)
      | _ \<Rightarrow> s)"

definition put_worker :: "nat \<Rightarrow> worker \<Rightarrow> system \<Rightarrow> system" where
  "put_worker k w s = s\<lparr>sys_threads := (sys_threads s)\<lparr>threads := (threads (sys_threads s))[k := w]\<rparr>\<rparr>"

text \<open>\<open>run\<close> when there is nothing to wait for.\<close>

definition nothing_to_run :: "service_config \<Rightarrow> bool" where
  "nothing_to_run sv \<longleftrightarrow> io_stopped sv \<or> io_recvs sv = 0 \<and> io_other sv = 0"

text \<open>
  Which operation completes: a datagram, whose handler ends in \<open>RegisterRecv\<close>; a UDP receive whose handler returns before that (an error, an
  empty datagram, a malformed one); or an operation of another kind, such as the connect, a send or a posted job. Each handler
  may start \<open>n\<close> operations of the other kinds, also none.
\<close>

datatype completion = Udp_Received nat | Udp_Ended nat | Other_Completed nat

definition complete :: "completion \<Rightarrow> service_config \<Rightarrow> service_config option" where
  "complete c sv =
     (case c of
        Udp_Received n \<Rightarrow> if io_recvs sv = 0 then None else Some (sv\<lparr>io_other := io_other sv + n\<rparr>)
      | Udp_Ended n \<Rightarrow> if io_recvs sv = 0 then None else Some (sv\<lparr>io_recvs := io_recvs sv - 1, io_other := io_other sv + n\<rparr>)
      | Other_Completed n \<Rightarrow> if io_other sv = 0 then None else Some (sv\<lparr>io_other := io_other sv - 1 + n\<rparr>))"

text \<open>
  A step of thread \<open>k\<close>: \<open>InitTLS\<close>; \<open>while (true) run()\<close> with \<open>run\<close> entered, the handler of a completed operation
  called (\<open>run\<close> waits while there is none), or \<open>run\<close> left; and what would follow the loop.
\<close>

fun worker_step :: "nat \<Rightarrow> completion \<Rightarrow> system \<Rightarrow> system" where
  "worker_step k c s =
     (let w = threads (sys_threads s) ! k; sv = sys_service s in
      case w_at w of
        Launched \<Rightarrow>
          (let (i, tm) = InitTLS (sys_threads s) in put_worker k \<lparr>LThreadId = i, w_at = Looping\<rparr> (s\<lparr>sys_threads := tm\<rparr>))
      | Looping \<Rightarrow>
          if nothing_to_run sv then s\<lparr>sys_service := sv\<lparr>io_stopped := True\<rparr>\<rparr> else put_worker k (w\<lparr>w_at := In_Run\<rparr>) s
      | In_Run \<Rightarrow>
          if nothing_to_run sv then put_worker k (w\<lparr>w_at := Looping\<rparr>) (s\<lparr>sys_service := sv\<lparr>io_stopped := True\<rparr>\<rparr>)
          else (case complete c sv of None \<Rightarrow> s | Some sv' \<Rightarrow> s\<lparr>sys_service := sv', handled := Suc (handled s)\<rparr>)
      | Left_Loop \<Rightarrow> put_worker k (w\<lparr>w_at := Ended\<rparr>) s
      | Ended \<Rightarrow> s)"

datatype act = Main | Thread nat completion

fun act_step :: "act \<Rightarrow> system \<Rightarrow> system" where
  "act_step Main s = Service_Start s"
| "act_step (Thread k c) s = (if k < length (threads (sys_threads s)) then worker_step k c s else s)"

definition start_system :: "service_config \<Rightarrow> system" where
  "start_system sv = \<lparr>sys_threads = ThreadManager, sys_service = sv, sys_main = Launching 0, handled = 0\<rparr>"

definition run_acts :: "act list \<Rightarrow> system \<Rightarrow> system" where
  "run_acts as s = fold act_step as s"

section \<open>Invariants of every interleaving\<close>

lemma run_acts_simps [simp]: "run_acts [] s = s" "run_acts (a # as) s = run_acts as (act_step a s)"
  "run_acts (as @ bs) s = run_acts bs (run_acts as s)"
  by (simp_all add: run_acts_def)

lemma run_acts_invariant:
  assumes "\<And>a s. P s \<Longrightarrow> P (act_step a s)" and "P s"
  shows "P (run_acts as s)"
  using assms(2) by (induction as arbitrary: s) (auto intro: assms(1))

definition ids :: "worker list \<Rightarrow> uint32 list" where
  "ids ws = map LThreadId (filter (\<lambda>w. w_at w \<noteq> Launched) ws)"

lemma ids_simps [simp]: "ids [] = []" "ids (xs @ ys) = ids xs @ ids ys"
  "ids (w # ws) = (if w_at w = Launched then ids ws else LThreadId w # ids ws)"
  by (simp_all add: ids_def)

text \<open>A thread numbers itself once; then it is inside the loop for good.\<close>

definition tm_ok :: "thread_manager \<Rightarrow> bool" where
  "tm_ok tm \<longleftrightarrow> main_LThreadId tm = 1 \<and> length (threads tm) \<le> 4 \<and> unat (SThreadId tm) = 2 + length (ids (threads tm)) \<and>
     distinct (ids (threads tm)) \<and> (\<forall>i \<in> set (ids (threads tm)). 2 \<le> unat i \<and> unat i < unat (SThreadId tm)) \<and>
     (\<forall>w \<in> set (threads tm). w_at w \<in> {Launched, Looping, In_Run})"

lemma split_at:
  assumes "k < length xs"
  obtains ys zs where "xs = ys @ xs ! k # zs" "length ys = k"
  using assms id_take_nth_drop [OF assms] by (intro that [of "take k xs" "drop (Suc k) xs"]) auto

lemma tm_ok_step:
  assumes ok: "tm_ok tm" and k: "k < length (threads tm)" and at: "w_at (threads tm ! k) = Launched"
  shows "tm_ok (tm\<lparr>SThreadId := SThreadId tm + 1, threads := (threads tm)[k := \<lparr>LThreadId = SThreadId tm, w_at = Looping\<rparr>]\<rparr>)"
proof -
  obtain ys zs where tm: "threads tm = ys @ threads tm ! k # zs" "length ys = k" using split_at [OF k] .
  define w where "w = threads tm ! k"
  have ws: "threads tm = ys @ w # zs" and w: "w_at w = Launched" using tm at by (simp_all add: w_def)
  have len: "length (ids xs) \<le> length xs" for xs by (simp add: ids_def)
  have "unat (SThreadId tm) \<le> 6" using ok ws w len [of ys] len [of zs] by (auto simp: tm_ok_def)
  then have "unat (SThreadId tm + 1) = Suc (unat (SThreadId tm))"
    by (subst unat_plus_simple [THEN iffD1]) (auto simp: no_olen_add_nat)
  then show ?thesis
    using ok ws w tm(2) unfolding tm_ok_def by (auto simp: list_update_append intro: less_SucI)
qed

lemma tm_ok_same_id:
  assumes ok: "tm_ok tm" and k: "k < length (threads tm)" and at: "w_at (threads tm ! k) \<in> {Looping, In_Run}" and p: "p \<in> {Looping, In_Run}"
  shows "tm_ok (tm\<lparr>threads := (threads tm)[k := (threads tm ! k)\<lparr>w_at := p\<rparr>]\<rparr>)"
proof -
  obtain ys zs where tm: "threads tm = ys @ threads tm ! k # zs" "length ys = k" using split_at [OF k] .
  define w where "w = threads tm ! k"
  have ws: "threads tm = ys @ w # zs" and w: "w_at w \<noteq> Launched" using tm at by (auto simp: w_def)
  then have u: "(threads tm)[k := w\<lparr>w_at := p\<rparr>] = ys @ w\<lparr>w_at := p\<rparr> # zs" using tm(2) by (simp add: list_update_append)
  have "ids (ys @ w\<lparr>w_at := p\<rparr> # zs) = ids (threads tm)" using ws w p by auto
  then show ?thesis
    unfolding w_def [symmetric] u using ok ws p unfolding tm_ok_def by auto
qed

definition launching_ok :: "system \<Rightarrow> bool" where
  "launching_ok s \<longleftrightarrow> tm_ok (sys_threads s) \<and>
     (case sys_main s of Launching i \<Rightarrow> i \<le> 4 \<and> length (threads (sys_threads s)) = i | _ \<Rightarrow> length (threads (sys_threads s)) = 4)"

lemma launching_ok_step: "launching_ok s \<Longrightarrow> launching_ok (act_step a s)"
proof (cases a)
  case Main
  assume "launching_ok s"
  then show ?thesis
    using Main by (auto simp: launching_ok_def tm_ok_def Launch_def split: main_at.splits sum.splits option.splits)
next
  case (Thread k n)
  assume ok: "launching_ok s"
  show ?thesis
  proof (cases "k < length (threads (sys_threads s))")
    case k: True
    let ?w = "threads (sys_threads s) ! k"
    have tm: "tm_ok (sys_threads s)" using ok by (simp add: launching_ok_def)
    then have "w_at ?w \<in> {Launched, Looping, In_Run}" using k nth_mem [OF k] unfolding tm_ok_def by blast
    then consider "w_at ?w = Launched" | "w_at ?w = Looping" | "w_at ?w = In_Run" by blast
    then show ?thesis
    proof cases
      case 1
      then show ?thesis using ok Thread k tm_ok_step [OF tm k 1]
        by (simp add: launching_ok_def InitTLS_def put_worker_def Let_def split: main_at.splits option.splits)
    next
      case 2
      then show ?thesis using ok Thread k tm_ok_same_id [OF tm k, of In_Run]
        by (simp add: launching_ok_def put_worker_def Let_def split: main_at.splits option.splits)
    next
      case 3
      then show ?thesis using ok Thread k tm_ok_same_id [OF tm k, of Looping]
        by (simp add: launching_ok_def put_worker_def Let_def split: main_at.splits option.splits)
    qed
  qed (use ok Thread in simp)
qed

lemma launching_ok_start: "launching_ok (start_system sv)"
  by (simp add: launching_ok_def start_system_def tm_ok_def ThreadManager_def InitTLS_def)

lemma launching_ok_run: "launching_ok (run_acts as (start_system sv))"
  by (rule run_acts_invariant) (auto intro: launching_ok_step launching_ok_start)

lemma thread_keeps:
  "sys_main (act_step (Thread k c) s) = sys_main s"
  "has_udpReceiver (sys_service (act_step (Thread k c) s)) = has_udpReceiver (sys_service s)"
  "tcpSessionFactory (sys_service (act_step (Thread k c) s)) = tcpSessionFactory (sys_service s)"
  "cfg_maxUdpSessionCount (sys_service (act_step (Thread k c) s)) = cfg_maxUdpSessionCount (sys_service s)"
  by (auto simp: put_worker_def InitTLS_def complete_def Let_def split: where_at.splits completion.splits)

lemma main_keeps_config:
  "has_udpReceiver (sys_service (act_step Main s)) = has_udpReceiver (sys_service s)"
  "tcpSessionFactory (sys_service (act_step Main s)) = tcpSessionFactory (sys_service s)"
  "cfg_maxUdpSessionCount (sys_service (act_step Main s)) = cfg_maxUdpSessionCount (sys_service s)"
  by (auto simp: UdpReceiver_Start_def connect_new_def make_tcp_session_def split: main_at.splits)

lemma act_keeps:
  "has_udpReceiver (sys_service (act_step a s)) = has_udpReceiver (sys_service s)"
  "cfg_maxUdpSessionCount (sys_service (act_step a s)) = cfg_maxUdpSessionCount (sys_service s)"
  by (cases a; simp only: main_keeps_config thread_keeps)+

definition main_next :: "bool \<Rightarrow> bool \<Rightarrow> int32 \<Rightarrow> main_at \<Rightarrow> main_at" where
  "main_next receiver factory mx m =
     (case m of
        Launching i \<Rightarrow> if i < 4 then Launching (Suc i) else Receiver_Test
      | Receiver_Test \<Rightarrow> if receiver then Posting 0 else Returned False
      | Posting i \<Rightarrow> if int i < mx then Posting (Suc i) else Create_Session
      | Create_Session \<Rightarrow> if factory then Returned True else Threw Uncaught
      | m \<Rightarrow> m)"

abbreviation next_main :: "system \<Rightarrow> main_at \<Rightarrow> main_at" where
  "next_main s \<equiv> main_next (has_udpReceiver (sys_service s)) (tcpSessionFactory (sys_service s)) (cfg_maxUdpSessionCount (sys_service s))"

lemma main_progress: "sys_main (act_step Main s) = next_main s (sys_main s)"
  by (simp add: main_next_def make_tcp_session_def UdpReceiver_Start_def split: main_at.splits)

lemma main_of_run: "sys_main (run_acts as s) = (next_main s ^^ count_list as Main) (sys_main s)"
proof (induction as arbitrary: s)
  case (Cons a as)
  show ?case
  proof (cases a)
    case Main
    then show ?thesis using Cons [of "act_step Main s"] main_keeps_config [of s] main_progress [of s]
      by (simp add: funpow_swap1 del: act_step.simps)
  next
    case (Thread k c)
    then show ?thesis using Cons thread_keeps [of k c s] by (simp del: act_step.simps)
  qed
qed simp

text \<open>\<open>Start\<close> takes at most this many steps.\<close>

definition start_steps :: "service_config \<Rightarrow> nat" where
  "start_steps sv = 8 + nat (cfg_maxUdpSessionCount sv)"

lemma main_next_posting: "i \<le> nat mx \<Longrightarrow> (main_next receiver factory mx ^^ i) (Posting 0) = Posting i"
  by (induction i) (auto simp: main_next_def)

lemma main_next_stays: "(main_next receiver factory mx ^^ d) (Returned b) = Returned b"
  "(main_next receiver factory mx ^^ d) (Threw e) = Threw e"
  by (induction d) (simp_all add: main_next_def)

lemma main_next_final:
  assumes "8 + nat mx \<le> n"
  shows "(main_next receiver factory mx ^^ n) (Launching 0) =
    (if \<not> receiver then Returned False else if \<not> factory then Threw Uncaught else Returned True)"
proof -
  let ?f = "main_next receiver factory mx"
  define d where "d = n - (8 + nat mx)"
  have n: "n = d + (2 + (nat mx + 6))" using assms by (simp add: d_def)
  have six: "(?f ^^ 6) (Launching 0) = (if receiver then Posting 0 else Returned False)"
    by (simp add: eval_nat_numeral main_next_def)
  have two: "(?f ^^ 2) (Posting (nat mx)) = (if factory then Returned True else Threw Uncaught)"
    by (simp add: eval_nat_numeral main_next_def)
  have e: "(?f ^^ n) (Launching 0) = (?f ^^ d) ((?f ^^ 2) ((?f ^^ nat mx) ((?f ^^ 6) (Launching 0))))"
    by (simp only: n funpow_add o_apply)
  show ?thesis
  proof (cases receiver)
    case True
    show ?thesis unfolding e six if_P [OF True] main_next_posting [OF order_refl] two by (simp add: True main_next_stays)
  next
    case False
    show ?thesis unfolding e six if_not_P [OF False] main_next_stays by (simp add: False)
  qed
qed

lemma main_of_start:
  "start_steps sv \<le> count_list as Main \<Longrightarrow> sys_main (run_acts as (start_system sv)) =
    (if \<not> has_udpReceiver sv then Returned False else if \<not> tcpSessionFactory sv then Threw Uncaught else Returned True)"
  using main_next_final unfolding main_of_run by (simp add: start_system_def start_steps_def)

section \<open>What starting the service does\<close>

text \<open>
  In every interleaving of \<open>Start\<close> with the threads it launches, the identifiers handed out by
  \<open>InitTLS\<close> are distinct, the main thread has 1, and all of them are identifiers the reader-writer
  lock can store (\<open>thread_ids\<close>, which its theorems assume).
\<close>
theorem thread_identifiers:
  "let tm = sys_threads (run_acts as (start_system sv)) in
     distinct (main_LThreadId tm # map LThreadId (filter (\<lambda>w. w_at w \<noteq> Launched) (threads tm))) \<and>
     thread_ids (set (main_LThreadId tm # map LThreadId (filter (\<lambda>w. w_at w \<noteq> Launched) (threads tm))))"
proof -
  define tm where "tm = sys_threads (run_acts as (start_system sv))"
  have ok: "tm_ok tm" using launching_ok_run [of as sv] by (simp add: launching_ok_def tm_def)
  have "length (ids (threads tm)) \<le> 4" using ok by (auto simp: tm_ok_def ids_def intro: le_trans [OF length_filter_le])
  then have range: "2 \<le> unat i \<and> unat i < 6" if "i \<in> set (ids (threads tm))" for i
    using ok that by (fastforce simp: tm_ok_def)
  have one: "1 \<notin> set (ids (threads tm))"
  proof
    assume "1 \<in> set (ids (threads tm))"
    from range [OF this] show False by simp
  qed
  have "0 < i \<and> i < 0x10000" if "i \<in> set (ids (threads tm))" for i
  proof -
    have "unat (0 :: uint32) < unat i \<and> unat i < unat (0x10000 :: uint32)" using range [OF that] by simp
    then show ?thesis by (simp only: word_less_nat_alt)
  qed
  moreover have "main_LThreadId tm = 1" "distinct (ids (threads tm))" using ok by (simp_all add: tm_ok_def)
  ultimately show ?thesis
    unfolding Let_def tm_def [symmetric] ids_def [symmetric] using one by (simp add: thread_ids_def)
qed

lemma Join_blocks:
  "Join (sys_threads (run_acts as (act_step Main (start_system sv)))) = None"
proof -
  have "launching_ok (run_acts (Main # as) (start_system sv))" by (rule launching_ok_run)
  then have tm: "tm_ok (sys_threads (run_acts as (act_step Main (start_system sv))))" by (simp add: launching_ok_def del: act_step.simps)
  have "threads (sys_threads (run_acts as s)) \<noteq> []" if "threads (sys_threads s) \<noteq> []" for s
    using that
  proof (rule run_acts_invariant [of "\<lambda>s. threads (sys_threads s) \<noteq> []", rotated])
    fix a and s :: system assume "threads (sys_threads s) \<noteq> []"
    then show "threads (sys_threads (act_step a s)) \<noteq> []"
      by (cases a) (auto simp: Launch_def put_worker_def InitTLS_def Let_def split: main_at.splits where_at.splits sum.splits option.splits)
  qed
  moreover have "threads (sys_threads (act_step Main (start_system sv))) \<noteq> []" by (simp add: start_system_def Launch_def)
  ultimately have "threads (sys_threads (run_acts as (act_step Main (start_system sv)))) \<noteq> []" .
  then obtain w where w: "w \<in> set (threads (sys_threads (run_acts as (act_step Main (start_system sv)))))"
    using hd_in_set by blast
  then have "w_at w \<noteq> Ended" using tm by (auto simp: tm_ok_def)
  with w have "\<not> (\<forall>w \<in> set (threads (sys_threads (run_acts as (act_step Main (start_system sv))))). w_at w = Ended)" by blast
  then show ?thesis unfolding Join_def by (rule if_not_P)
qed

text \<open>
  Once \<open>Start\<close> has launched a thread, \<open>Join\<close> never returns: no thread leaves its loop, in any
  interleaving. The destructors of \<open>Service\<close> and of \<open>ThreadManager\<close>, which call it, never finish.
\<close>
theorem Join_never_returns:
  "Join (sys_threads (run_acts as (act_step Main (start_system sv)))) = None"
  by (rule Join_blocks)

text \<open>
  \<open>Start\<close> reports success exactly when there are a receiver and a factory; without a factory the
  call of the empty function throws, although \<open>CanStart\<close> would have told. Its four threads run in
  any case, also behind a \<open>false\<close>.
\<close>
theorem Start_outcome:
  assumes "start_steps sv \<le> count_list as Main"
  shows "sys_main (run_acts as (start_system sv)) =
      (if \<not> has_udpReceiver sv then Returned False else if \<not> tcpSessionFactory sv then Threw Uncaught else Returned True) \<and>
    length (threads (sys_threads (run_acts as (start_system sv)))) = 4"
proof -
  show ?thesis
    using main_of_start [OF assms] launching_ok_run [of as sv] by (auto simp: launching_ok_def split: if_splits)
qed

theorem Start_outcome_witness:
  "sys_main (run_acts (Thread 0 (Udp_Received 0) # replicate 4 Main @ [Thread 1 (Udp_Received 0), Thread 1 (Udp_Received 0)] @ replicate 5 Main)
     (start_system (SetUdpReceiver (new_Service None 1 1)))) = Threw Uncaught"
proof -
  have "start_steps (SetUdpReceiver (new_Service None 1 1)) \<le>
      count_list (Thread 0 (Udp_Received 0) # replicate 4 Main @ [Thread 1 (Udp_Received 0), Thread 1 (Udp_Received 0)] @ replicate 5 Main) Main"
    by (simp add: eval_nat_numeral start_steps_def SetUdpReceiver_def new_Service_def)
  from Start_outcome [OF this] show ?thesis
    by (simp only: SetUdpReceiver_def new_Service_def service_config.simps simp_thms if_True if_False)
qed

section \<open>Early and late threads\<close>

text \<open>
  A schedule is early when a thread calls \<open>run\<close> while \<open>Start\<close> has not posted an operation yet.
\<close>

definition nothing_posted :: "main_at \<Rightarrow> bool" where
  "nothing_posted m \<longleftrightarrow> (case m of Launching i \<Rightarrow> True | Receiver_Test \<Rightarrow> True | Posting i \<Rightarrow> i = 0 | _ \<Rightarrow> False)"

definition calls_run :: "act \<Rightarrow> system \<Rightarrow> bool" where
  "calls_run a s = (case a of Main \<Rightarrow> False
     | Thread k c \<Rightarrow> k < length (threads (sys_threads s)) \<and> (case w_at (threads (sys_threads s) ! k) of Looping \<Rightarrow> True | _ \<Rightarrow> False))"

fun early :: "act list \<Rightarrow> system \<Rightarrow> bool" where
  "early [] s = False"
| "early (a # as) s = (nothing_posted (sys_main s) \<and> calls_run a s \<or> early as (act_step a s))"

definition ended_receives :: "act list \<Rightarrow> nat" where
  "ended_receives as = length (filter (\<lambda>a. case a of Thread k (Udp_Ended n) \<Rightarrow> True | _ \<Rightarrow> False) as)"

lemma early_append: "early (as @ bs) s \<longleftrightarrow> early as s \<or> early bs (run_acts as s)"
  by (induction as arbitrary: s) simp_all

definition deaf :: "system \<Rightarrow> bool" where
  "deaf s \<longleftrightarrow> io_stopped (sys_service s) \<and> handled s = 0"

text \<open>Nothing is posted, no thread is in \<open>run\<close> and the context is as at the beginning.\<close>

definition untouched :: "system \<Rightarrow> bool" where
  "untouched s \<longleftrightarrow> nothing_posted (sys_main s) \<and> \<not> io_stopped (sys_service s) \<and> io_recvs (sys_service s) = 0 \<and>
     io_other (sys_service s) = 0 \<and> handled s = 0 \<and> (\<forall>w \<in> set (threads (sys_threads s)). w_at w \<in> {Launched, Looping})"

text \<open>At least \<open>n\<close> receives are outstanding; while \<open>Start\<close> posts them, as many as it has posted.\<close>

definition receiving :: "nat \<Rightarrow> system \<Rightarrow> bool" where
  "receiving n s \<longleftrightarrow> \<not> io_stopped (sys_service s) \<and>
     (case sys_main s of Posting i \<Rightarrow> 0 < i \<and> i \<le> io_recvs (sys_service s) \<and> int n \<le> cfg_maxUdpSessionCount (sys_service s)
      | Launching i \<Rightarrow> False | Receiver_Test \<Rightarrow> False | _ \<Rightarrow> n \<le> io_recvs (sys_service s))"

lemma deaf_act: "deaf s \<Longrightarrow> deaf (act_step a s)"
  by (cases a) (auto simp: deaf_def nothing_to_run_def put_worker_def InitTLS_def Let_def UdpReceiver_Start_def connect_new_def
      make_tcp_session_def split: main_at.splits where_at.splits)

lemma deaf_run: "deaf s \<Longrightarrow> deaf (run_acts as s)"
  by (rule run_acts_invariant) (rule deaf_act)

lemma untouched_start: "untouched (start_system (SetUdpReceiver (SetSessionFactory (new_Service ep t u))))"
  by (simp add: untouched_def start_system_def nothing_posted_def SetUdpReceiver_def SetSessionFactory_def new_Service_def
      ThreadManager_def InitTLS_def)

lemma untouched_step:
  assumes "untouched s"
  shows "calls_run a s \<Longrightarrow> deaf (act_step a s)"
    and "\<not> calls_run a s \<Longrightarrow> nothing_posted (sys_main (act_step a s)) \<Longrightarrow> untouched (act_step a s)"
proof -
  show "calls_run a s \<Longrightarrow> deaf (act_step a s)"
    using assms by (auto simp: calls_run_def deaf_def untouched_def nothing_to_run_def Let_def split: act.splits where_at.splits)
  show "\<not> calls_run a s \<Longrightarrow> nothing_posted (sys_main (act_step a s)) \<Longrightarrow> untouched (act_step a s)"
  proof (cases a)
    case Main
    then show "nothing_posted (sys_main (act_step a s)) \<Longrightarrow> untouched (act_step a s)"
      using assms by (auto simp: untouched_def nothing_posted_def Launch_def UdpReceiver_Start_def split: main_at.splits)
  next
    case (Thread k c)
    assume calm: "\<not> calls_run a s"
    show ?thesis
    proof (cases "k < length (threads (sys_threads s))")
      case True
      then have "w_at (threads (sys_threads s) ! k) = Launched"
        using assms calm nth_mem [OF True] by (auto simp: Thread calls_run_def untouched_def)
      then show ?thesis using assms Thread True
        by (auto simp: untouched_def put_worker_def InitTLS_def Let_def dest: set_update_subset_insert [THEN subsetD])
    qed (use assms Thread in simp)
  qed
qed

lemma receiving_step:
  assumes "receiving n s" and "ended_receives [a] < n" and "has_udpReceiver (sys_service s)"
    and "(case sys_main s of Posting i \<Rightarrow> ended_receives [a] = 0 | _ \<Rightarrow> True)"
  shows "receiving (n - ended_receives [a]) (act_step a s)"
proof (cases a)
  case Main
  then show ?thesis using assms
    by (auto simp: receiving_def ended_receives_def UdpReceiver_Start_def connect_new_def make_tcp_session_def split: main_at.splits)
next
  case (Thread k c)
  show ?thesis
  proof (cases "k < length (threads (sys_threads s))")
    case True
    have "0 < io_recvs (sys_service s)" using assms(1,2) by (auto simp: receiving_def split: main_at.splits)
    then show ?thesis using assms(1,2,4) Thread True
      by (auto simp: receiving_def ended_receives_def nothing_to_run_def put_worker_def InitTLS_def complete_def Let_def
          split: main_at.splits where_at.splits completion.splits)
  qed (use assms Thread in \<open>auto simp: receiving_def ended_receives_def split: main_at.splits completion.splits\<close>)
qed


lemma posted_stays: "\<not> nothing_posted (sys_main s) \<Longrightarrow> \<not> nothing_posted (sys_main (act_step a s))"
  by (cases a) (auto simp: thread_keeps main_progress main_next_def nothing_posted_def simp del: act_step.simps split: main_at.splits)

lemma posted_not_early: "\<not> nothing_posted (sys_main s) \<Longrightarrow> \<not> early as s"
  by (induction as arbitrary: s) (simp_all add: posted_stays del: act_step.simps)

lemma early_deaf: "untouched s \<Longrightarrow> early as s \<Longrightarrow> deaf (run_acts as s)"
proof (induction as arbitrary: s)
  case (Cons a as)
  show ?case
  proof (cases "calls_run a s")
    case True
    then show ?thesis using untouched_step(1) [OF Cons.prems(1)] deaf_run by (simp del: act_step.simps)
  next
    case False
    then have e: "early as (act_step a s)" using Cons.prems(2) by (simp del: act_step.simps)
    then have "nothing_posted (sys_main (act_step a s))" using posted_not_early by blast
    from Cons.IH [OF untouched_step(2) [OF Cons.prems(1) False this] e] show ?thesis by (simp del: act_step.simps)
  qed
qed simp

lemma ended_receives_Nil [simp]: "ended_receives [] = 0"
  by (simp add: ended_receives_def)

lemma ended_receives_Cons: "ended_receives (a # as) = ended_receives [a] + ended_receives as"
  by (simp add: ended_receives_def)

lemma receiving_run:
  assumes "receiving n s" and "ended_receives as < n" and "has_udpReceiver (sys_service s)"
    and "ended_receives as = 0 \<or> sys_main s = Returned True"
  shows "receiving (n - ended_receives as) (run_acts as s)"
  using assms
proof (induction as arbitrary: s n)
  case (Cons a as)
  have step: "receiving (n - ended_receives [a]) (act_step a s)"
  proof (rule receiving_step [OF Cons.prems(1) _ Cons.prems(3)])
    show "ended_receives [a] < n" using Cons.prems(2) by (simp add: ended_receives_Cons [of a as])
    show "case sys_main s of Posting i \<Rightarrow> ended_receives [a] = 0 | _ \<Rightarrow> True" using Cons.prems(4) by (auto split: main_at.split simp: ended_receives_Cons [of a as])
  qed
  have rec: "has_udpReceiver (sys_service (act_step a s))"
    using Cons.prems(3) by (simp add: act_keeps del: act_step.simps)
  have fin: "ended_receives as = 0 \<or> sys_main (act_step a s) = Returned True"
  proof (cases "sys_main s = Returned True")
    case True
    then have "sys_main (act_step a s) = Returned True"
      by (cases a) (simp_all add: thread_keeps main_progress main_next_def del: act_step.simps)
    then show ?thesis ..
  next
    case False
    then show ?thesis using Cons.prems(4) by (simp add: ended_receives_Cons [of a as])
  qed
  from Cons.IH [OF step _ rec fin] Cons.prems(2) show ?case by (simp add: ended_receives_Cons [of a as] del: act_step.simps)
qed simp

lemma first_posted:
  assumes "untouched s" and "has_udpReceiver (sys_service s)" and "0 < cfg_maxUdpSessionCount (sys_service s)"
    and "\<not> nothing_posted (sys_main (act_step a s))"
  shows "receiving (nat (cfg_maxUdpSessionCount (sys_service s))) (act_step a s)"
proof (cases a)
  case Main
  have "sys_main s = Posting 0"
    using assms(1,2,4) unfolding Main main_progress by (auto simp: untouched_def nothing_posted_def main_next_def split: main_at.splits if_splits)
  then show ?thesis using assms(1-3) by (simp add: Main untouched_def receiving_def UdpReceiver_Start_def)
next
  case (Thread k c)
  then show ?thesis using assms(1,4) unfolding Thread thread_keeps by (simp add: untouched_def)
qed

text \<open>A schedule that is not early: either nothing is posted yet, or the receives are outstanding.\<close>

lemma late_receiving:
  assumes "untouched s" and "\<not> early as s" and "ended_receives as = 0" and "has_udpReceiver (sys_service s)"
    and "0 < cfg_maxUdpSessionCount (sys_service s)"
  shows "untouched (run_acts as s) \<or> receiving (nat (cfg_maxUdpSessionCount (sys_service s))) (run_acts as s)"
  using assms
proof (induction as arbitrary: s)
  case (Cons a as)
  let ?n = "nat (cfg_maxUdpSessionCount (sys_service s))"
  have calm: "\<not> calls_run a s" and late: "\<not> early as (act_step a s)"
    using Cons.prems(1,2) by (auto simp: untouched_def simp del: act_step.simps)
  have none: "ended_receives [a] = 0" "ended_receives as = 0"
    using Cons.prems(3) unfolding ended_receives_Cons [of a as] by simp_all
  have keep: "has_udpReceiver (sys_service (act_step a s))" "cfg_maxUdpSessionCount (sys_service (act_step a s)) = cfg_maxUdpSessionCount (sys_service s)"
    using Cons.prems(4) by (simp_all add: act_keeps del: act_step.simps)
  show ?case
  proof (cases "nothing_posted (sys_main (act_step a s))")
    case True
    from Cons.IH [OF untouched_step(2) [OF Cons.prems(1) calm True] late none(2)] Cons.prems(5) keep show ?thesis
      by (simp del: act_step.simps)
  next
    case False
    then have "receiving ?n (act_step a s)"
      by (rule first_posted [OF Cons.prems(1,4,5)])
    then have "receiving (?n - ended_receives as) (run_acts as (act_step a s))"
      by (rule receiving_run) (use none Cons.prems(5) keep in simp_all)
    then show ?thesis using none by simp
  qed
qed simp

lemma handled_grows: "handled s \<le> handled (act_step a s)"
  by (cases a) (auto simp: put_worker_def InitTLS_def Let_def make_tcp_session_def split: main_at.splits where_at.splits option.splits)

lemma serving_three:
  assumes "k < length (threads (sys_threads s))" and "w_at (threads (sys_threads s) ! k) \<in> {Launched, Looping, In_Run}"
    and "\<not> nothing_to_run (sys_service s)" and "complete c (sys_service s) \<noteq> None"
  shows "handled s < handled (run_acts [Thread k c, Thread k c, Thread k c] s)"
proof -
  let ?f = "act_step (Thread k c)"
  have runs: "handled s < handled (?f s)"
    if "k < length (threads (sys_threads s))" "w_at (threads (sys_threads s) ! k) = In_Run" "\<not> nothing_to_run (sys_service s)"
      "complete c (sys_service s) \<noteq> None" for s
    using that by auto
  have enters: "k < length (threads (sys_threads (?f s))) \<and> w_at (threads (sys_threads (?f s)) ! k) = In_Run \<and>
      sys_service (?f s) = sys_service s \<and> handled (?f s) = handled s"
    if "k < length (threads (sys_threads s))" "w_at (threads (sys_threads s) ! k) = Looping" "\<not> nothing_to_run (sys_service s)" for s
    using that by (simp add: put_worker_def)
  have begins: "k < length (threads (sys_threads (?f s))) \<and> w_at (threads (sys_threads (?f s)) ! k) = Looping \<and>
      sys_service (?f s) = sys_service s \<and> handled (?f s) = handled s"
    if "k < length (threads (sys_threads s))" "w_at (threads (sys_threads s) ! k) = Launched" for s
    using that by (simp add: put_worker_def InitTLS_def)
  have "handled s < handled (?f (?f (?f s)))"
    using assms(2)
  proof (elim insertE)
    assume "w_at (threads (sys_threads s) ! k) = Launched"
    note b = begins [OF assms(1) this]
    note e = enters [of "?f s"]
    from b e assms(3) have "handled s < handled (?f (?f (?f s)))"
      using runs [of "?f (?f s)"] assms(4) by (simp del: act_step.simps)
    then show ?thesis .
  next
    assume "w_at (threads (sys_threads s) ! k) = Looping"
    note e = enters [OF assms(1) this assms(3)]
    then have "handled s < handled (?f (?f s))" using runs [of "?f s"] assms(3,4) by (simp del: act_step.simps)
    also have "\<dots> \<le> handled (?f (?f (?f s)))" by (rule handled_grows)
    finally show ?thesis .
  next
    assume "w_at (threads (sys_threads s) ! k) = In_Run"
    then have "handled s < handled (?f s)" using runs assms by blast
    also have "\<dots> \<le> handled (?f (?f s))" by (rule handled_grows)
    also have "\<dots> \<le> handled (?f (?f (?f s)))" by (rule handled_grows)
    finally show ?thesis .
  qed simp
  then show ?thesis by (simp del: act_step.simps)
qed

text \<open>
  C39: A thread that calls \<open>run\<close> before \<open>Start\<close> has posted its first operation leaves the client deaf. In every
  schedule in which any of the four threads does so at any time, the context is stopped for good and no completion handler ever runs,
  whatever the threads do later, although \<open>Start\<close> still reports success when it has taken its steps.
\<close>
theorem early_run_deafens:
  fixes ep t u defines "sv \<equiv> SetUdpReceiver (SetSessionFactory (new_Service ep t u))"
  assumes "early as (start_system sv)"
  shows "let s = run_acts (as @ bs) (start_system sv) in
    io_stopped (sys_service s) \<and> handled s = 0 \<and> (start_steps sv \<le> count_list (as @ bs) Main \<longrightarrow> sys_main s = Returned True)"
proof -
  have "deaf (run_acts as (start_system sv))" unfolding sv_def by (rule early_deaf [OF untouched_start]) (use assms(2) in \<open>simp add: sv_def\<close>)
  then have "deaf (run_acts bs (run_acts as (start_system sv)))" by (rule deaf_run)
  moreover have "has_udpReceiver sv" "tcpSessionFactory sv" by (simp_all add: sv_def SetUdpReceiver_def SetSessionFactory_def)
  ultimately show ?thesis using main_of_start [of sv "as @ bs"] by (simp add: deaf_def Let_def)
qed

text \<open>The third thread is first: it calls \<open>run\<close> while the main thread tests for the receiver.\<close>

theorem early_run_deafens_witness:
  "handled (run_acts ((replicate 5 Main @ [Thread 2 (Udp_Received 0), Thread 2 (Udp_Received 0)]) @ replicate 4 Main @ [Thread 1 (Udp_Received 0)])
     (start_system (SetUdpReceiver (SetSessionFactory (new_Service (Some 7777) 1 1))))) = 0"
proof -
  have "early (replicate 5 Main @ [Thread 2 (Udp_Received 0), Thread 2 (Udp_Received 0)])
      (start_system (SetUdpReceiver (SetSessionFactory (new_Service (Some 7777) 1 1))))"
    by code_simp
  from early_run_deafens [OF this] show ?thesis by (simp only: Let_def)
qed

text \<open>
  C23: When no thread calls \<open>run\<close> before the first receive is posted, the client keeps serving. In every such schedule in which no UDP
  receive fails until \<open>Start\<close> has returned, and later fewer receives fail than were posted, \<open>Start\<close> reports success,
  the context is not stopped, a receive is outstanding, and each of the four threads, whatever operation completes, runs a handler within three of its
  steps. No handler need start an operation; only the receives that are posted again keep the context going.
\<close>
theorem late_run_serves:
  fixes ep t u defines "sv \<equiv> SetUdpReceiver (SetSessionFactory (new_Service ep t u))"
  assumes "\<not> early as (start_system sv)" and "start_steps sv \<le> count_list as Main" and "ended_receives as = 0"
    and "ended_receives bs < nat u" and "k < 4"
  shows "let s = run_acts (as @ bs) (start_system sv) in
    sys_main s = Returned True \<and> \<not> io_stopped (sys_service s) \<and> nat u - ended_receives bs \<le> io_recvs (sys_service s) \<and>
    complete (Udp_Received n) (sys_service s) \<noteq> None \<and>
    (\<forall>c. complete c (sys_service s) \<noteq> None \<longrightarrow> handled s < handled (run_acts [Thread k c, Thread k c, Thread k c] s))"
proof -
  let ?s0 = "start_system sv"
  define s where "s = run_acts (as @ bs) ?s0"
  have sv: "has_udpReceiver sv" "tcpSessionFactory sv" "cfg_maxUdpSessionCount sv = u" "0 < u"
    using assms(5) by (simp_all add: sv_def SetUdpReceiver_def SetSessionFactory_def new_Service_def)
  have svc: "sys_service ?s0 = sv" by (simp add: start_system_def)
  have ret: "sys_main (run_acts as ?s0) = Returned True" "sys_main s = Returned True"
    using main_of_start [of sv as] main_of_start [of sv "as @ bs"] assms(3) sv by (simp_all add: s_def)
  have "untouched (run_acts as ?s0) \<or> receiving (nat u) (run_acts as ?s0)"
    using late_receiving [of ?s0 as] untouched_start assms(2,4) sv svc by (auto simp: sv_def)
  then have "receiving (nat u) (run_acts as ?s0)" using ret(1) by (auto simp: untouched_def nothing_posted_def)
  moreover have "has_udpReceiver (sys_service (run_acts as ?s0))"
    by (rule run_acts_invariant [where P = "\<lambda>s. has_udpReceiver (sys_service s)"])
      (use sv svc in \<open>simp_all add: act_keeps del: act_step.simps\<close>)
  ultimately have "receiving (nat u - ended_receives bs) s"
    using receiving_run [of "nat u" "run_acts as ?s0" bs] assms(5) ret(1) by (simp add: s_def)
  then have r: "\<not> io_stopped (sys_service s)" "nat u - ended_receives bs \<le> io_recvs (sys_service s)"
    using ret(2) by (simp_all add: receiving_def)
  have ok: "launching_ok s" unfolding s_def by (rule launching_ok_run)
  then have k: "k < length (threads (sys_threads s))" using ret(2) assms(6) by (simp add: launching_ok_def)
  have "w_at (threads (sys_threads s) ! k) \<in> {Launched, Looping, In_Run}"
    using ok nth_mem [OF k] unfolding launching_ok_def tm_ok_def by blast
  moreover have recvs: "0 < io_recvs (sys_service s)" using r(2) assms(5) by linarith
  then have "\<not> nothing_to_run (sys_service s)" using r(1) by (simp add: nothing_to_run_def)
  ultimately have "complete c (sys_service s) \<noteq> None \<Longrightarrow> handled s < handled (run_acts [Thread k c, Thread k c, Thread k c] s)" for c
    using serving_three [OF k] by blast
  moreover have "complete (Udp_Received n) (sys_service s) \<noteq> None" using recvs by (simp add: complete_def)
  ultimately show ?thesis using ret(2) r unfolding s_def Let_def by blast
qed

theorem late_run_serves_witness:
  "let s = run_acts ((replicate 8 Main @ [Thread 2 (Udp_Received 0), Thread 2 (Udp_Received 0), Main, Main]) @ [Thread 2 (Other_Completed 0), Thread 1 (Udp_Ended 0)])
      (start_system (SetUdpReceiver (SetSessionFactory (new_Service (Some 7777) 1 2)))) in
    \<not> io_stopped (sys_service s) \<and> 1 \<le> io_recvs (sys_service s)"
proof -
  have "\<not> early (replicate 8 Main @ [Thread 2 (Udp_Received 0), Thread 2 (Udp_Received 0), Main, Main])
      (start_system (SetUdpReceiver (SetSessionFactory (new_Service (Some 7777) 1 2))))"
    by code_simp
  from late_run_serves [OF this, of "[Thread 2 (Other_Completed 0), Thread 1 (Udp_Ended 0)]" 0 0] show ?thesis
    by (simp add: Let_def ended_receives_def start_steps_def SetUdpReceiver_def SetSessionFactory_def new_Service_def eval_nat_numeral
        del: run_acts_simps)
qed

end
