(* ===== verification/Process_Exit.thy ===== *)
theory Process_Exit
  imports Service_Start
begin

text \<open>
  Globals and singletons, and what happens to them when the program ends: \<open>CoreGlobal\<close>
  (\<open>CoreGlobal.h\<close>, \<open>CoreGlobal.cpp\<close>) makes the six global objects before \<open>main\<close> and deletes them after it,
  \<open>DECLARE_SINGLETON\<close> (\<open>DummyClient/Defines.h\<close>) makes a manager on its first use. C++ runs the functions
  registered with \<open>atexit\<close> and the destructors of static objects in the reverse order of their registration
  and of the completion of their construction; an object is not to be used after its destructor.
\<close>

section \<open>The global objects\<close>

datatype global = GThreadManager | GMemory | GSendBufferManager | GGlobalQueue | GJobTimer | GDeadLockProfiler

datatype singleton = TimeManager | Renderer | InputManager | SceneManager | SessionManager

datatype exit_entry = At_Exit singleton | Static_Destructor singleton | Core_Global_Destructor

text \<open>
  \<open>stored g\<close> counts the blocks of the memory pools that the containers of object \<open>g\<close> own: chunks,
  queued queues, reserved jobs and the storage of the containers themselves.
\<close>

record process =
  alive :: "global list"
  stored :: "global \<Rightarrow> nat"
  manager :: thread_manager
  constructed :: "singleton list"
  destroyed :: "singleton list"
  exit_stack :: "exit_entry list"

datatype ending = Exited process | Blocked | Crashed fault

fun then_exit :: "ending \<Rightarrow> (process \<Rightarrow> ending) \<Rightarrow> ending" where
  "then_exit (Exited p) f = f p"
| "then_exit Blocked f = Blocked"
| "then_exit (Crashed e) f = Crashed e"

definition construct_global :: "global \<Rightarrow> process \<Rightarrow> process" where
  "construct_global g p =
     (let p1 = p\<lparr>alive := g # alive p\<rparr> in if g = GThreadManager then p1\<lparr>manager := ThreadManager\<rparr> else p1)"

definition CoreGlobal :: "process \<Rightarrow> process" where
  "CoreGlobal p =
     (let p1 = fold construct_global [GThreadManager, GMemory, GSendBufferManager, GGlobalQueue, GJobTimer, GDeadLockProfiler] p
      in p1\<lparr>exit_stack := Core_Global_Destructor # exit_stack p1\<rparr>)"

definition process_start :: process where
  "process_start = CoreGlobal \<lparr>alive = [], stored = \<lambda>_. 0, manager = ThreadManager, constructed = [], destroyed = [], exit_stack = []\<rparr>"

text \<open>
  \<open>delete\<close>: the destructor of the thread manager joins, those with containers give their storage back
  to \<open>*GMemory\<close>.
\<close>

definition delete_global :: "global \<Rightarrow> process \<Rightarrow> ending" where
  "delete_global g p =
     (if g = GThreadManager \<and> Join (manager p) = None then Blocked
      else if 0 < stored p g \<and> GMemory \<notin> set (alive p) then Crashed UseAfterFree
      else Exited (p\<lparr>alive := removeAll g (alive p), stored := (stored p)(g := 0)\<rparr>))"

fun delete_all :: "global list \<Rightarrow> process \<Rightarrow> ending" where
  "delete_all [] p = Exited p"
| "delete_all (g # gs) p = then_exit (delete_global g p) (delete_all gs)"

definition CoreGlobal_destructor :: "process \<Rightarrow> ending" where
  "CoreGlobal_destructor =
     delete_all [GThreadManager, GMemory, GSendBufferManager, GGlobalQueue, GJobTimer, GDeadLockProfiler]"

section \<open>The singletons\<close>

text \<open>The constructor registers the handler in its body, before the construction is complete.\<close>

definition construct_singleton :: "singleton \<Rightarrow> process \<Rightarrow> process" where
  "construct_singleton c p =
     (let p1 = p\<lparr>exit_stack := At_Exit c # exit_stack p\<rparr>
      in p1\<lparr>constructed := c # constructed p1, exit_stack := Static_Destructor c # exit_stack p1\<rparr>)"

definition Instance :: "singleton \<Rightarrow> process \<Rightarrow> process" where
  "Instance c p = (if c \<in> set (constructed p) then p else construct_singleton c p)"

text \<open>The handler: \<open>Instance().Shutdown()\<close>.\<close>

definition shutdown_handler :: "singleton \<Rightarrow> process \<Rightarrow> ending" where
  "shutdown_handler c p =
     (let p1 = Instance c p in if c \<in> set (destroyed p1) then Crashed UseAfterFree else Exited p1)"

fun exit_step :: "exit_entry \<Rightarrow> process \<Rightarrow> ending" where
  "exit_step (At_Exit c) p = shutdown_handler c p"
| "exit_step (Static_Destructor c) p = Exited (p\<lparr>destroyed := c # destroyed p\<rparr>)"
| "exit_step Core_Global_Destructor p = CoreGlobal_destructor p"

text \<open>\<open>exit\<close>: no handler makes a singleton that is not there, so nothing is pushed meanwhile.\<close>

fun unwind :: "exit_entry list \<Rightarrow> process \<Rightarrow> ending" where
  "unwind [] p = Exited p"
| "unwind (x # xs) p = then_exit (exit_step x p) (unwind xs)"

definition program_exit :: "process \<Rightarrow> ending" where
  "program_exit p = unwind (exit_stack p) (p\<lparr>exit_stack := []\<rparr>)"

section \<open>How the program ends\<close>

lemma start_globals:
  "set (alive process_start) = UNIV" "manager process_start = ThreadManager" "exit_stack process_start = [Core_Global_Destructor]"
  "constructed process_start = []" "destroyed process_start = []"
proof -
  show "set (alive process_start) = UNIV"
    using global.exhaust by (auto simp: process_start_def CoreGlobal_def construct_global_def Let_def)
qed (simp_all add: process_start_def CoreGlobal_def construct_global_def Let_def)

text \<open>
  After the first use of any singleton the program cannot end properly. The destructor of the
  object that was made last runs first, then the handler its constructor had registered before the
  construction was complete, and this calls \<open>Shutdown\<close> on the destroyed object.
\<close>
theorem exit_uses_destroyed_singleton:
  assumes "cs \<noteq> []"
  shows "program_exit (fold Instance cs process_start) = Crashed UseAfterFree"
proof -
  define top where "top p \<longleftrightarrow> destroyed p = [] \<and> (\<exists>c xs. exit_stack p = Static_Destructor c # At_Exit c # xs \<and> c \<in> set (constructed p))"
    for p :: process
  have keeps: "top (Instance c p)" if "top p \<or> p = process_start" for c p
    using that by (auto simp: top_def Instance_def construct_singleton_def Let_def start_globals)
  have "top (fold Instance cs p)" if "top p" for p
    using that by (induction cs arbitrary: p) (auto intro: keeps)
  moreover obtain c ds where "cs = c # ds" using assms by (cases cs) auto
  moreover have "top (fold Instance ds p)" if "top p" for p ds
    using that by (induction ds arbitrary: p) (auto intro: keeps)
  ultimately have "top (fold Instance cs process_start)" using keeps [of process_start c] by simp
  then show ?thesis
    by (auto simp: top_def program_exit_def shutdown_handler_def Instance_def Let_def)
qed

theorem exit_uses_destroyed_singleton_witness:
  "program_exit (fold Instance [TimeManager, Renderer, InputManager, Renderer, SceneManager, SessionManager] process_start) = Crashed UseAfterFree"
  using exit_uses_destroyed_singleton [of "[TimeManager, Renderer, InputManager, Renderer, SceneManager, SessionManager]"] by simp

text \<open>
  How the global objects end: the destructor blocks while a thread runs; otherwise it succeeds
  exactly when no container of the send buffers, the job queue or the timer owns a block of the
  pools, and uses the deleted \<open>GMemory\<close> when one does.
\<close>
theorem CoreGlobal_end:
  "(case program_exit (process_start\<lparr>stored := st, manager := tm\<rparr>) of
      Exited p \<Rightarrow> Join tm \<noteq> None \<and> alive p = [] \<and> (\<forall>g. st g = 0 \<or> g \<in> {GThreadManager, GMemory})
    | Blocked \<Rightarrow> Join tm = None
    | Crashed e \<Rightarrow> e = UseAfterFree \<and> Join tm \<noteq> None \<and> (\<exists>g. 0 < st g \<and> g \<notin> {GThreadManager, GMemory}))"
proof (cases "Join tm")
  case None
  then show ?thesis
    by (simp add: program_exit_def start_globals CoreGlobal_destructor_def delete_global_def)
next
  case (Some tm')
  have split_globals: "(\<forall>g. st g = 0 \<or> g \<in> {GThreadManager, GMemory}) \<longleftrightarrow>
      st GSendBufferManager = 0 \<and> st GGlobalQueue = 0 \<and> st GJobTimer = 0 \<and> st GDeadLockProfiler = 0"
    by (metis global.exhaust global.distinct insert_iff empty_iff)
  have "(\<exists>g. 0 < st g \<and> g \<notin> {GThreadManager, GMemory}) \<longleftrightarrow> \<not> (\<forall>g. st g = 0 \<or> g \<in> {GThreadManager, GMemory})"
    by auto
  then have split_ex: "(\<exists>g. 0 < st g \<and> g \<notin> {GThreadManager, GMemory}) \<longleftrightarrow>
      \<not> (st GSendBufferManager = 0 \<and> st GGlobalQueue = 0 \<and> st GJobTimer = 0 \<and> st GDeadLockProfiler = 0)"
    unfolding split_globals .
  have alive: "alive process_start = [GDeadLockProfiler, GJobTimer, GGlobalQueue, GSendBufferManager, GMemory, GThreadManager]"
    by (simp add: process_start_def CoreGlobal_def construct_global_def Let_def)
  show ?thesis
    unfolding split_globals split_ex using Some
    by (cases "st GSendBufferManager = 0"; cases "st GGlobalQueue = 0"; cases "st GJobTimer = 0"; cases "st GDeadLockProfiler = 0")
      (simp_all add: program_exit_def start_globals CoreGlobal_destructor_def delete_global_def alive)
qed

text \<open>
  A program whose service was started does not end, even if no singleton was ever used: the
  destructor of the globals waits for threads that never leave their loop.
\<close>
theorem started_program_never_ends:
  "program_exit (process_start\<lparr>manager := sys_threads (run_acts as (act_step Main (start_system sv)))\<rparr>) = Blocked"
  using Join_blocks [of as sv]
  by (simp add: program_exit_def start_globals CoreGlobal_destructor_def delete_global_def del: act_step.simps)

end
