(* ===== verification/Job_System.thy ===== *)
theory Job_System
  imports Job_Queue Job_Timer "HOL-Library.While_Combinator"
begin

text \<open>
  The job runtime as a whole: any number of job queues (Job_Queue), the global queue (\<open>GlobalQueue.cpp\<close>), the
  timer (Job_Timer) and the worker threads of \<open>ThreadManager.cpp\<close> that call \<open>DoGlobalQueueWork\<close> and
  \<open>DistributeReservedJob\<close>. A job may push and reserve further jobs, so calls on different queues nest on the
  stack of a thread. Every queue behaves as Job_Queue says and the timer as Job_Timer says; together they
  run what was pushed, and what was reserved and is due, each once. The last part shows what the runtime does with
  the end tick it starts with, which no code sets.
\<close>

section \<open>State\<close>

record 'j job_system =
  queues :: "nat \<Rightarrow> 'j job_queue"
  global_queue :: "nat lock_queue"           \<comment> \<open>\<open>_jobQueues\<close> of \<open>GGlobalQueue\<close>\<close>
  timer :: "'j job_timer"                    \<comment> \<open>\<open>GJobTimer\<close>\<close>
  call_stack :: "nat \<Rightarrow> nat list"            \<comment> \<open>by thread: the queue of every active call, innermost first\<close>
  GetTickCount64 :: "64 word"
  direct :: "(nat \<times> 'j) list"                \<comment> \<open>ghost: the calls of \<open>DoAsync\<close> and \<open>Push\<close>\<close>
  handed :: "'j timer_item list"             \<comment> \<open>ghost: the due items whose queue was alive\<close>

definition job_system :: "64 word \<Rightarrow> 'j job_system" where
  "job_system tick = \<lparr>queues = (\<lambda>_. JobQueue), global_queue = [], timer = JobTimer, call_stack = (\<lambda>_. []),
     GetTickCount64 = tick, direct = [], handed = []\<rparr>"

text \<open>\<open>LEndTickCount\<close> of a thread; no code assigns another value.\<close>

definition LEndTickCount :: "64 word" where
  "LEndTickCount = 0"

text \<open>\<open>LCurrentJobQueue\<close>: the queue this thread executes, one of those on its stack.\<close>

definition LCurrentJobQueue :: "'j job_system \<Rightarrow> nat \<Rightarrow> nat option" where
  "LCurrentJobQueue s t = find (\<lambda>q. current (queues s q) t) (call_stack s t)"

section \<open>Operations\<close>

text \<open>A thread works on one queue; when that opens or ends a call, its stack changes.\<close>

definition on_queue :: "nat \<Rightarrow> nat \<Rightarrow> ('j job_queue \<Rightarrow> 'j job_queue) \<Rightarrow> 'j job_system \<Rightarrow> 'j job_system" where
  "on_queue t q f s =
     (let a = queues s q; b = f a; n = length (frames a t); m = length (frames b t); calls = call_stack s t
      in s\<lparr>queues := (queues s)(q := b),
           call_stack := (call_stack s)(t := if n < m then q # calls else if m < n then tl calls else calls)\<rparr>)"

definition begin_push :: "nat \<Rightarrow> nat \<Rightarrow> 'j \<Rightarrow> bool \<Rightarrow> 'j job_system \<Rightarrow> 'j job_system" where
  "begin_push t q j pushOnly s =
     on_queue t q (Push_count t j (pushOnly \<or> LCurrentJobQueue s t \<noteq> None \<and> LCurrentJobQueue s t \<noteq> Some q)) s"

definition DoAsync :: "nat \<Rightarrow> nat \<Rightarrow> 'j \<Rightarrow> bool \<Rightarrow> 'j job_system \<Rightarrow> 'j job_system" where
  "DoAsync t q j pushOnly s = (begin_push t q j pushOnly s)\<lparr>direct := direct s @ [(q, j)]\<rparr>"

definition DoTimer :: "64 word \<Rightarrow> nat \<Rightarrow> 'j \<Rightarrow> 'j job_system \<Rightarrow> 'j job_system" where
  "DoTimer tickAfter q j s = s\<lparr>timer := Reserve (GetTickCount64 s) tickAfter q j (timer s)\<rparr>"

text \<open>The innermost call of a thread goes on; \<open>limit\<close> is \<open>LEndTickCount\<close> by thread.\<close>

definition continue_call :: "(nat \<Rightarrow> 64 word) \<Rightarrow> nat \<Rightarrow> 'j job_system \<Rightarrow> 'j job_system option" where
  "continue_call limit t s =
     (case call_stack s t of
        [] \<Rightarrow> None
      | q # _ \<Rightarrow>
          (case frames (queues s q) t of
             [] \<Rightarrow> None
           | Added j prev only # rest \<Rightarrow> Some (on_queue t q (Push_job t j prev only rest) s)
           | ToGlobal # rest \<Rightarrow>
               Some (on_queue t q (GlobalQueue_Push t rest) (s\<lparr>global_queue := lq_Push (Some q) (global_queue s)\<rparr>))
           | Popping # rest \<Rightarrow> Some (on_queue t q (Execute_popall t rest) s)
           | Running [] n # rest \<Rightarrow> Some (on_queue t q (Execute_subtract t n rest) s)
           | Running (j # js) n # rest \<Rightarrow> Some (on_queue t q (Execute_job t j js n rest) s)
           | Decide # rest \<Rightarrow> Some (on_queue t q (Execute_decide t (limit t \<le> GetTickCount64 s) rest) s)))"

text \<open>One round of the loop of \<open>DoGlobalQueueWork\<close>.\<close>

definition DoGlobalQueueWork :: "(nat \<Rightarrow> 64 word) \<Rightarrow> nat \<Rightarrow> 'j job_system \<Rightarrow> 'j job_system" where
  "DoGlobalQueueWork limit t s =
     (if limit t < GetTickCount64 s then s
      else (case lq_Pop (global_queue s) of
              (None, g) \<Rightarrow> s\<lparr>global_queue := g\<rparr>
            | (Some q, g) \<Rightarrow> on_queue t q (GlobalQueue_Pop t) (s\<lparr>global_queue := g\<rparr>)))"

text \<open>\<open>Distribute\<close> hands an item out: if its queue is alive the thread begins to push the job on it.\<close>

definition hand_item :: "nat \<Rightarrow> bool \<Rightarrow> 'j timer_item \<Rightarrow> 'j timer_item list \<Rightarrow> 'j job_system \<Rightarrow> 'j job_system" where
  "hand_item t alive x xs s =
     (let s1 = s\<lparr>timer := Distribute_hand t alive x xs (timer s)\<rparr>
      in if alive then (begin_push t (owner (jobData x)) (job (jobData x)) False s1)\<lparr>handed := handed s @ [x]\<rparr> else s1)"

section \<open>Steps\<close>

text \<open>New calls come from a worker thread outside any call, or from a job that is running.\<close>

definition idle :: "'j job_system \<Rightarrow> nat \<Rightarrow> bool" where
  "idle s t \<longleftrightarrow> call_stack s t = [] \<and> phase (timer s) t = Outside"

definition in_job :: "'j job_system \<Rightarrow> nat \<Rightarrow> bool" where
  "in_job s t \<longleftrightarrow> (case call_stack s t of [] \<Rightarrow> False
     | q # _ \<Rightarrow> (case frames (queues s q) t of Running js n # _ \<Rightarrow> True | _ \<Rightarrow> False))"

definition may_call :: "'j job_system \<Rightarrow> nat \<Rightarrow> bool" where
  "may_call s t \<longleftrightarrow> idle s t \<or> in_job s t"

inductive js_step :: "nat list \<Rightarrow> (nat \<Rightarrow> 64 word) \<Rightarrow> 'j job_system \<Rightarrow> 'j job_system \<Rightarrow> bool" for ts limit where
  js_clock: "GetTickCount64 s \<le> c \<Longrightarrow> js_step ts limit s (s\<lparr>GetTickCount64 := c\<rparr>)"
| js_push: "t \<in> set ts \<Longrightarrow> may_call s t \<Longrightarrow> js_step ts limit s (DoAsync t q j pushOnly s)"
| js_reserve: "t \<in> set ts \<Longrightarrow> may_call s t \<Longrightarrow> js_step ts limit s (DoTimer tickAfter q j s)"
| js_clear: "t \<in> set ts \<Longrightarrow> may_call s t \<Longrightarrow> js_step ts limit s (s\<lparr>timer := Clear_items (timer s)\<rparr>)"
| js_work: "t \<in> set ts \<Longrightarrow> idle s t \<Longrightarrow> js_step ts limit s (DoGlobalQueueWork limit t s)"
| js_enter: "t \<in> set ts \<Longrightarrow> idle s t \<Longrightarrow> js_step ts limit s (s\<lparr>timer := Distribute_enter t (timer s)\<rparr>)"
| js_take: "t \<in> set ts \<Longrightarrow> phase (timer s) t = Entered \<Longrightarrow> now \<le> GetTickCount64 s \<Longrightarrow>
    js_step ts limit s (s\<lparr>timer := Distribute_take t now (timer s)\<rparr>)"
| js_hand: "t \<in> set ts \<Longrightarrow> phase (timer s) t = Handing (x # xs) \<Longrightarrow> call_stack s t = [] \<Longrightarrow>
    js_step ts limit s (hand_item t alive x xs s)"
| js_leave: "t \<in> set ts \<Longrightarrow> phase (timer s) t = Handing [] \<Longrightarrow> call_stack s t = [] \<Longrightarrow>
    js_step ts limit s (s\<lparr>timer := Distribute_leave t (timer s)\<rparr>)"
| js_call: "t \<in> set ts \<Longrightarrow> continue_call limit t s = Some s' \<Longrightarrow> js_step ts limit s s'"

inductive js_reachable :: "nat list \<Rightarrow> (nat \<Rightarrow> 64 word) \<Rightarrow> 'j job_system \<Rightarrow> bool" for ts limit where
  js_init: "js_reachable ts limit (job_system tick)"
| js_next: "js_reachable ts limit s \<Longrightarrow> js_step ts limit s s' \<Longrightarrow> js_reachable ts limit s'"

section \<open>Calls nest above running jobs only\<close>

text \<open>The frames of a thread on a queue, less the innermost frame of the thread.\<close>

definition lower :: "'j job_system \<Rightarrow> nat \<Rightarrow> nat \<Rightarrow> 'j frame list" where
  "lower s t q = (if call_stack s t \<noteq> [] \<and> hd (call_stack s t) = q then tl (frames (queues s q) t) else frames (queues s q) t)"

definition calls_ok :: "'j job_system \<Rightarrow> bool" where
  "calls_ok s \<longleftrightarrow> (\<forall>t q. length (frames (queues s q) t) = count_list (call_stack s t) q \<and>
     (\<forall>f \<in> set (lower s t q). is_running f))"

lemma on_queue_fields [simp]:
  "queues (on_queue t q f s) = (queues s)(q := f (queues s q))"
  "global_queue (on_queue t q f s) = global_queue s" "timer (on_queue t q f s) = timer s"
  "GetTickCount64 (on_queue t q f s) = GetTickCount64 s" "direct (on_queue t q f s) = direct s"
  "handed (on_queue t q f s) = handed s"
  by (simp_all add: on_queue_def Let_def)

lemma calls_ok_fields [simp]:
  "calls_ok (s\<lparr>global_queue := g\<rparr>) = calls_ok s" "calls_ok (s\<lparr>timer := m\<rparr>) = calls_ok s"
  "calls_ok (s\<lparr>GetTickCount64 := c\<rparr>) = calls_ok s" "calls_ok (s\<lparr>direct := d\<rparr>) = calls_ok s"
  "calls_ok (s\<lparr>handed := h\<rparr>) = calls_ok s"
  by (simp_all add: calls_ok_def lower_def)

lemma calls_ok_lengths: "calls_ok s \<Longrightarrow> length (frames (queues s q) t) = count_list (call_stack s t) q"
  by (simp add: calls_ok_def)

lemma calls_ok_lower: "calls_ok s \<Longrightarrow> f \<in> set (lower s t q) \<Longrightarrow> is_running f"
  unfolding calls_ok_def by blast

lemma idle_no_frames: "calls_ok s \<Longrightarrow> call_stack s t = [] \<Longrightarrow> frames (queues s q) t = []"
  using calls_ok_lengths [of s q t] by simp

lemma in_job_frames:
  assumes ok: "calls_ok s" and job: "in_job s t"
  shows "\<forall>q. \<forall>f \<in> set (frames (queues s q) t). is_running f"
proof (intro allI ballI)
  fix q f assume f: "f \<in> set (frames (queues s q) t)"
  from job obtain q' qs js n rest where top: "call_stack s t = q' # qs" "frames (queues s q') t = Running js n # rest"
    by (auto simp: in_job_def split: list.splits frame.splits)
  show "is_running f"
  proof (cases "q = q'")
    case True
    then have "f = Running js n \<or> f \<in> set (lower s t q)" using f top by (auto simp: lower_def)
    then show ?thesis using calls_ok_lower [OF ok] by (auto simp: is_running_def)
  next
    case False
    then have "f \<in> set (lower s t q)" using f top by (simp add: lower_def)
    then show ?thesis by (rule calls_ok_lower [OF ok])
  qed
qed

lemma may_push_frames:
  assumes "calls_ok s" and "call_stack s t = [] \<or> in_job s t"
  shows "\<forall>q. \<forall>f \<in> set (frames (queues s q) t). is_running f"
  using assms in_job_frames idle_no_frames by fastforce

lemma open_call:
  assumes ok: "calls_ok s" and free: "call_stack s t = [] \<or> in_job s t"
    and f: "frames (f (queues s q)) = (frames (queues s q))(t := g # frames (queues s q) t)"
  shows "calls_ok (on_queue t q f s)" and "call_stack (on_queue t q f s) t = q # call_stack s t"
proof -
  note run = may_push_frames [OF ok free]
  show st: "call_stack (on_queue t q f s) t = q # call_stack s t" by (simp add: on_queue_def f Let_def)
  have others: "call_stack (on_queue t q f s) u = call_stack s u" if "u \<noteq> t" for u
    using that by (simp add: on_queue_def Let_def)
  show "calls_ok (on_queue t q f s)"
    unfolding calls_ok_def
  proof (intro allI conjI ballI)
    fix u p
    show "length (frames (queues (on_queue t q f s) p) u) = count_list (call_stack (on_queue t q f s) u) p"
      using calls_ok_lengths [OF ok, of p u] by (cases "u = t"; cases "p = q") (simp_all add: st others f)
    fix x assume x: "x \<in> set (lower (on_queue t q f s) u p)"
    show "is_running x"
    proof (cases "u = t")
      case True
      then have "x \<in> set (frames (queues s p) t)" using x by (cases "p = q") (simp_all add: lower_def st f)
      then show ?thesis using run by blast
    next
      case False
      have "frames (queues (on_queue t q f s) p) u = frames (queues s p) u"
        using False by (cases "p = q") (simp_all add: f)
      then have "x \<in> set (lower s u p)" using x by (simp only: lower_def others [OF False])
      then show ?thesis by (rule calls_ok_lower [OF ok])
    qed
  qed
qed

lemma in_set_tl: "x \<in> set (tl xs) \<Longrightarrow> x \<in> set xs"
  by (cases xs) simp_all

lemma keep_call:
  assumes ok: "calls_ok s" and top: "call_stack s t = q # qs" "frames (queues s q) t = g # rest"
    and f: "frames (f (queues s q)) = (frames (queues s q))(t := h # rest)"
  shows "calls_ok (on_queue t q f s)" and "call_stack (on_queue t q f s) = call_stack s"
proof -
  show st: "call_stack (on_queue t q f s) = call_stack s" by (simp add: on_queue_def f top Let_def fun_upd_idem)
  have "lower (on_queue t q f s) u p = lower s u p" for u p
    using top by (cases "p = q"; cases "u = t") (simp_all add: lower_def st f)
  moreover have "length (frames (queues (on_queue t q f s) p) u) = length (frames (queues s p) u)" for u p
    using top by (cases "p = q"; cases "u = t") (simp_all add: f)
  ultimately show "calls_ok (on_queue t q f s)" using ok by (simp add: calls_ok_def st)
qed

lemma end_call:
  assumes ok: "calls_ok s" and top: "call_stack s t = q # qs" "frames (queues s q) t = g # rest"
    and f: "frames (f (queues s q)) = (frames (queues s q))(t := rest)"
  shows "calls_ok (on_queue t q f s)" and "call_stack (on_queue t q f s) = (call_stack s)(t := qs)"
proof -
  show st: "call_stack (on_queue t q f s) = (call_stack s)(t := qs)" by (simp add: on_queue_def f top Let_def)
  have low: "x \<in> set (lower s u p)" if "x \<in> set (lower (on_queue t q f s) u p)" for x u p
    using that top by (cases "p = q"; cases "u = t"; cases qs; cases rest)
      (auto simp: lower_def st f split: if_splits intro: in_set_tl)
  have "length (frames (queues (on_queue t q f s) p) u) = count_list (call_stack (on_queue t q f s) u) p" for u p
    using calls_ok_lengths [OF ok, of p u] top by (cases "p = q"; cases "u = t") (simp_all add: st f)
  then show "calls_ok (on_queue t q f s)" using low calls_ok_lower [OF ok] unfolding calls_ok_def by blast
qed

section \<open>Every queue of the system takes the steps of a job queue\<close>

text \<open>
  A step of one queue, when a thread may take it from the global queue only under \<open>may\<close>, and a thread
  finds its time over exactly under \<open>up\<close>.
\<close>

inductive timed_step :: "nat list \<Rightarrow> (nat \<Rightarrow> bool) \<Rightarrow> (nat \<Rightarrow> bool) \<Rightarrow> 'j job_queue \<Rightarrow> 'j job_queue \<Rightarrow> bool"
  for ts may up where
  td_push: "t \<in> set ts \<Longrightarrow> frames a t = [] \<or> (\<exists>js n rest. frames a t = Running js n # rest) \<Longrightarrow>
    timed_step ts may up a (Push_count t j only a)"
| td_added: "t \<in> set ts \<Longrightarrow> frames a t = Added j prev only # rest \<Longrightarrow>
    timed_step ts may up a (Push_job t j prev only rest a)"
| td_global: "t \<in> set ts \<Longrightarrow> frames a t = ToGlobal # rest \<Longrightarrow> timed_step ts may up a (GlobalQueue_Push t rest a)"
| td_take: "t \<in> set ts \<Longrightarrow> frames a t = [] \<Longrightarrow> 0 < global_entries a \<Longrightarrow> may t \<Longrightarrow>
    timed_step ts may up a (GlobalQueue_Pop t a)"
| td_popall: "t \<in> set ts \<Longrightarrow> frames a t = Popping # rest \<Longrightarrow> timed_step ts may up a (Execute_popall t rest a)"
| td_job: "t \<in> set ts \<Longrightarrow> frames a t = Running (j # js) n # rest \<Longrightarrow>
    timed_step ts may up a (Execute_job t j js n rest a)"
| td_subtract: "t \<in> set ts \<Longrightarrow> frames a t = Running [] n # rest \<Longrightarrow>
    timed_step ts may up a (Execute_subtract t n rest a)"
| td_decide: "t \<in> set ts \<Longrightarrow> frames a t = Decide # rest \<Longrightarrow> timed_step ts may up a (Execute_decide t (up t) rest a)"

lemma timed_step_jq: "timed_step ts may up a b \<Longrightarrow> jq_step ts a b"
  by (induction rule: timed_step.induct) (auto intro: jq_step.intros)

text \<open>The global queue holds a queue as often as that queue counts.\<close>

definition global_ok :: "'j job_system \<Rightarrow> bool" where
  "global_ok s \<longleftrightarrow> None \<notin> set (global_queue s) \<and>
     (\<forall>q. count_list (global_queue s) (Some q) = global_entries (queues s q))"

lemma op_frames:
  "frames (Push_count t j only a) = (frames a)(t := Added j (jobCount a) only # frames a t)"
  "frames (Push_job t j prev only rest a) =
     (frames a)(t := if prev = 0 then (if current a t = False \<and> only = False then Popping else ToGlobal) # rest else rest)"
  "frames (GlobalQueue_Push t rest a) = (frames a)(t := rest)"
  "frames (GlobalQueue_Pop t a) = (frames a)(t := [Popping])"
  "frames (Execute_popall t rest a) = (frames a)(t := Running (fst (lq_PopAll (jobs a))) (length (fst (lq_PopAll (jobs a)))) # rest)"
  "frames (Execute_job t j js n rest a) = (frames a)(t := Running js n # rest)"
  "frames (Execute_subtract t n rest a) = (frames a)(t := if jobCount a = int n then rest else Decide # rest)"
  "frames (Execute_decide t time_up rest a) = (frames a)(t := (if time_up then ToGlobal else Popping) # rest)"
  by (simp_all add: Push_count_def Push_job_def GlobalQueue_Push_def GlobalQueue_Pop_def Execute_popall_def
      Execute_job_def Execute_subtract_def Execute_decide_def Let_def case_prod_beta)

lemma op_entries [simp]:
  "global_entries (Push_count t j only a) = global_entries a"
  "global_entries (Push_job t j prev only rest a) = global_entries a"
  "global_entries (GlobalQueue_Push t rest a) = Suc (global_entries a)"
  "global_entries (GlobalQueue_Pop t a) = global_entries a - 1"
  "global_entries (Execute_popall t rest a) = global_entries a"
  "global_entries (Execute_job t j js n rest a) = global_entries a"
  "global_entries (Execute_subtract t n rest a) = global_entries a"
  "global_entries (Execute_decide t time_up rest a) = global_entries a"
  by (simp_all add: Push_count_def Push_job_def GlobalQueue_Push_def GlobalQueue_Pop_def Execute_popall_def
      Execute_job_def Execute_subtract_def Execute_decide_def Let_def case_prod_beta)

text \<open>What a step keeps, and how it moves each queue.\<close>

definition moves :: "nat list \<Rightarrow> (nat \<Rightarrow> 64 word) \<Rightarrow> 'j job_system \<Rightarrow> 'j job_system \<Rightarrow> bool" where
  "moves ts limit s s' \<longleftrightarrow> calls_ok s' \<and> global_ok s' \<and>
     (\<forall>q. queues s' q = queues s q \<or>
        timed_step ts (\<lambda>t. GetTickCount64 s \<le> limit t) (\<lambda>t. limit t \<le> GetTickCount64 s) (queues s q) (queues s' q))"

lemma moves_still:
  "calls_ok s \<Longrightarrow> global_ok s \<Longrightarrow> queues s' = queues s \<Longrightarrow> call_stack s' = call_stack s \<Longrightarrow>
   global_queue s' = global_queue s \<Longrightarrow> moves ts limit s s'"
proof -
  assume q: "queues s' = queues s" "call_stack s' = call_stack s" and rest: "calls_ok s" "global_ok s" "global_queue s' = global_queue s"
  have "lower s' = lower s" using q by (intro ext) (simp add: lower_def)
  then show ?thesis using q rest by (simp add: moves_def calls_ok_def global_ok_def)
qed

lemma global_ok_on_queue:
  assumes "global_ok s" and "global_entries (f (queues s q)) = global_entries (queues s q)"
  shows "global_ok (on_queue t q f s)"
  using assms by (auto simp: global_ok_def)

lemma moves_on_queue:
  assumes "calls_ok (on_queue t q f s)" and "global_ok s" and "global_entries (f (queues s q)) = global_entries (queues s q)"
    and "timed_step ts (\<lambda>t. GetTickCount64 s \<le> limit t) (\<lambda>t. limit t \<le> GetTickCount64 s) (queues s q) (f (queues s q))"
  shows "moves ts limit s (on_queue t q f s)"
  using assms by (auto simp: moves_def intro: global_ok_on_queue)

lemma moves_fields [simp]:
  "moves ts limit s (s'\<lparr>direct := d\<rparr>) = moves ts limit s s'" "moves ts limit s (s'\<lparr>handed := h\<rparr>) = moves ts limit s s'"
  "moves ts limit (s\<lparr>timer := m\<rparr>) s' = moves ts limit s s'"
  by (simp_all add: moves_def global_ok_def)

lemma push_moves:
  assumes ok: "calls_ok s" "global_ok s" and t: "t \<in> set ts" and free: "call_stack s t = [] \<or> in_job s t"
  shows "moves ts limit s (begin_push t q j pushOnly s)"
proof -
  have "frames (queues s q) t = [] \<or> (\<exists>js n rest. frames (queues s q) t = Running js n # rest)"
    using may_push_frames [OF ok(1) free, rule_format, of "hd (frames (queues s q) t)" q]
    by (cases "frames (queues s q) t") (auto simp: is_running_def)
  then show ?thesis
    unfolding begin_push_def
    by (intro moves_on_queue td_push t open_call(1) [OF ok(1) free] ok(2)) (simp_all add: op_frames)
qed

lemma work_moves:
  assumes ok: "calls_ok s" "global_ok s" and t: "t \<in> set ts" and free: "call_stack s t = []"
  shows "moves ts limit s (DoGlobalQueueWork limit t s)"
proof (cases "limit t < GetTickCount64 s")
  case True
  then show ?thesis using ok by (simp add: DoGlobalQueueWork_def moves_still)
next
  case False
  show ?thesis
  proof (cases "global_queue s")
    case Nil
    then show ?thesis using ok False by (simp add: DoGlobalQueueWork_def lq_Pop_def moves_still)
  next
    case (Cons x g)
    then obtain q where x: "x = Some q" using ok(2) by (cases x) (auto simp: global_ok_def)
    let ?s = "s\<lparr>global_queue := g\<rparr>"
    have s': "DoGlobalQueueWork limit t s = on_queue t q (GlobalQueue_Pop t) ?s"
      using False Cons x by (simp add: DoGlobalQueueWork_def lq_Pop_def)
    have count: "count_list (global_queue s) (Some p) = global_entries (queues s p)" for p
      using ok(2) by (simp add: global_ok_def)
    have no: "frames (queues s q) t = []" by (rule idle_no_frames [OF ok(1) free])
    have "global_ok (on_queue t q (GlobalQueue_Pop t) ?s)"
      using ok(2) count Cons x by (auto simp: global_ok_def split: if_splits)
    moreover have "calls_ok (on_queue t q (GlobalQueue_Pop t) ?s)"
      using ok(1) free no by (intro open_call) (simp_all add: op_frames)
    moreover have "0 < global_entries (queues s q)" using count [of q] Cons x by simp
    ultimately show ?thesis
      using False no t unfolding s' moves_def by (auto intro!: td_take)
  qed
qed

lemma top_moves:
  assumes ok: "calls_ok s" "global_ok s" and top: "call_stack s t = q # qs" "frames (queues s q) t = g # rest"
    and f: "frames (f (queues s q)) = (frames (queues s q))(t := h # rest) \<or> frames (f (queues s q)) = (frames (queues s q))(t := rest)"
      "global_entries (f (queues s q)) = global_entries (queues s q)"
    and td: "timed_step ts (\<lambda>t. GetTickCount64 s \<le> limit t) (\<lambda>t. limit t \<le> GetTickCount64 s) (queues s q) (f (queues s q))"
  shows "moves ts limit s (on_queue t q f s)"
proof -
  have "calls_ok (on_queue t q f s)"
    using f(1) keep_call(1) [OF ok(1) top, of f h] end_call(1) [OF ok(1) top, of f] by blast
  then show ?thesis using ok(2) f(2) td by (rule moves_on_queue)
qed

lemma call_moves:
  assumes ok: "calls_ok s" "global_ok s" and t: "t \<in> set ts" and step: "continue_call limit t s = Some s'"
  shows "moves ts limit s s'"
proof -
  from step obtain q qs where st: "call_stack s t = q # qs" by (auto simp: continue_call_def split: list.splits)
  from step st obtain g rest where fr: "frames (queues s q) t = g # rest"
    by (auto simp: continue_call_def split: list.splits)
  note top = top_moves [OF ok st fr]
  show ?thesis
  proof (cases g)
    case (Added j prev only)
    then have "s' = on_queue t q (Push_job t j prev only rest) s" using step st fr by (simp add: continue_call_def)
    then show ?thesis using Added fr t
      by (auto intro!: top [where h = "if current (queues s q) t = False \<and> only = False then Popping else ToGlobal"] td_added simp: op_frames)
  next
    case ToGlobal
    let ?s = "s\<lparr>global_queue := lq_Push (Some q) (global_queue s)\<rparr>"
    have s': "s' = on_queue t q (GlobalQueue_Push t rest) ?s" using step st fr ToGlobal by (simp add: continue_call_def)
    have "calls_ok (on_queue t q (GlobalQueue_Push t rest) ?s)"
      by (rule end_call(1)) (use ok(1) st fr in \<open>simp_all add: op_frames\<close>)
    moreover have "global_ok (on_queue t q (GlobalQueue_Push t rest) ?s)"
      using ok(2) by (simp add: global_ok_def lq_Push_def)
    ultimately show ?thesis using fr ToGlobal t unfolding s' moves_def by (auto intro: td_global)
  next
    case Popping
    then have "s' = on_queue t q (Execute_popall t rest) s" using step st fr by (simp add: continue_call_def)
    then show ?thesis using Popping fr t by (auto intro!: top td_popall simp: op_frames)
  next
    case (Running js n)
    show ?thesis
    proof (cases js)
      case Nil
      then have "s' = on_queue t q (Execute_subtract t n rest) s" using step st fr Running by (simp add: continue_call_def)
      then show ?thesis using Running Nil fr t by (auto intro!: top [where h = Decide] td_subtract simp: op_frames)
    next
      case (Cons j js')
      then have "s' = on_queue t q (Execute_job t j js' n rest) s" using step st fr Running by (simp add: continue_call_def)
      then show ?thesis using Running Cons fr t by (auto intro!: top td_job simp: op_frames)
    qed
  next
    case Decide
    then have "s' = on_queue t q (Execute_decide t (limit t \<le> GetTickCount64 s) rest) s"
      using step st fr by (simp add: continue_call_def)
    then show ?thesis using td_decide [of t ts "queues s q" rest _ "\<lambda>t. limit t \<le> GetTickCount64 s"] Decide fr t
      by (auto intro!: top [where h = "if limit t \<le> GetTickCount64 s then ToGlobal else Popping"] simp: op_frames)
  qed
qed

lemma hand_moves:
  assumes ok: "calls_ok s" "global_ok s" and t: "t \<in> set ts" and free: "call_stack s t = []"
  shows "moves ts limit s (hand_item t alive x xs s)"
proof (cases alive)
  case True
  have "moves ts limit (s\<lparr>timer := Distribute_hand t True x xs (timer s)\<rparr>)
      (begin_push t (owner (jobData x)) (job (jobData x)) False (s\<lparr>timer := Distribute_hand t True x xs (timer s)\<rparr>))"
    by (rule push_moves) (use ok t free in \<open>simp_all add: global_ok_def\<close>)
  then show ?thesis using True by (simp add: hand_item_def)
qed (simp add: hand_item_def moves_still ok)

lemma js_step_moves: "js_step ts limit s s' \<Longrightarrow> calls_ok s \<Longrightarrow> global_ok s \<Longrightarrow> moves ts limit s s'"
proof (induction rule: js_step.induct)
  case (js_push t s q j pushOnly)
  then show ?case using push_moves [of s t ts limit q j pushOnly] by (simp add: DoAsync_def may_call_def idle_def) blast
next
  case (js_call t s s')
  then show ?case by (intro call_moves)
qed (simp_all add: moves_still DoTimer_def work_moves hand_moves idle_def)

lemma js_reachable_ok: "js_reachable ts limit s \<Longrightarrow> calls_ok s \<and> global_ok s"
proof (induction rule: js_reachable.induct)
  case (js_init tick)
  then show ?case by (simp add: job_system_def calls_ok_def lower_def global_ok_def JobQueue_def)
next
  case (js_next s s')
  then show ?case using js_step_moves unfolding moves_def by blast
qed

lemma js_queue_reachable: "js_reachable ts limit s \<Longrightarrow> jq_reachable ts (queues s q)"
proof (induction rule: js_reachable.induct)
  case (js_init tick)
  then show ?case by (simp add: job_system_def jq_init)
next
  case (js_next s s')
  then have "moves ts limit s s'" using js_reachable_ok js_step_moves by blast
  then show ?case using js_next.IH jq_next timed_step_jq unfolding moves_def by metis
qed

section \<open>Every job on a queue was pushed there or came due\<close>

fun adding :: "'j \<Rightarrow> 'j frame \<Rightarrow> nat" where
  "adding j (Added j' prev only) = (if j' = j then 1 else 0)"
| "adding j _ = 0"

text \<open>How often a job was given to a queue: pushed, or on its way in.\<close>

definition arrivals :: "nat list \<Rightarrow> 'j job_queue \<Rightarrow> 'j \<Rightarrow> nat" where
  "arrivals ts a j = count_list (pushed a) j + total (adding j) ts a"

lemma total_upd:
  assumes "distinct ts" and "t \<in> set ts" and "frames b = (frames a)(t := fs)"
  shows "total f ts b + sum_list (map f (frames a t)) = total f ts a + sum_list (map f fs)"
  using total_set_frames [OF assms(1,2), of f fs a] assms(3) by (simp add: total_def set_frames_def)

lemma arrivals_push:
  assumes "distinct ts" and "t \<in> set ts"
  shows "arrivals ts (Push_count t j' only a) j = arrivals ts a j + (if j' = j then 1 else 0)"
  using total_upd [OF assms op_frames(1), of "adding j" j' only a] by (simp add: arrivals_def Push_count_def)

lemma arrivals_upd:
  assumes "distinct ts" and "t \<in> set ts" and "frames b = (frames a)(t := fs)"
    and "count_list (pushed b) j + sum_list (map (adding j) fs) = count_list (pushed a) j + sum_list (map (adding j) (frames a t))"
  shows "arrivals ts b j = arrivals ts a j"
  using total_upd [OF assms(1-3), of "adding j"] assms(4) by (simp add: arrivals_def)

lemma op_pushed:
  "pushed (GlobalQueue_Push t rest a) = pushed a" "pushed (GlobalQueue_Pop t a) = pushed a"
  "pushed (Execute_popall t rest a) = pushed a" "pushed (Execute_job t j js n rest a) = pushed a"
  "pushed (Execute_subtract t n rest a) = pushed a" "pushed (Execute_decide t time_up rest a) = pushed a"
  "pushed (Push_job t j prev only rest a) = pushed a @ [j]"
  by (simp_all add: GlobalQueue_Push_def GlobalQueue_Pop_def Push_job_def
      Execute_popall_def Execute_job_def Execute_subtract_def Execute_decide_def Let_def case_prod_beta)

lemma call_arrivals:
  assumes d: "distinct ts" and t: "t \<in> set ts" and step: "continue_call limit t s = Some s'"
  shows "arrivals ts (queues s' p) j = arrivals ts (queues s p) j"
proof -
  from step obtain q qs g rest where st: "call_stack s t = q # qs" and fr: "frames (queues s q) t = g # rest"
    by (auto simp: continue_call_def split: list.splits)
  note upd = arrivals_upd [OF d t op_frames(2)] arrivals_upd [OF d t op_frames(3)] arrivals_upd [OF d t op_frames(5)]
    arrivals_upd [OF d t op_frames(6)] arrivals_upd [OF d t op_frames(7)] arrivals_upd [OF d t op_frames(8)]
  show ?thesis
    using step st fr by (cases g) (auto simp: continue_call_def op_pushed intro!: upd split: list.splits)
qed

lemma work_arrivals:
  assumes d: "distinct ts" and t: "t \<in> set ts" and ok: "calls_ok s" and free: "call_stack s t = []"
  shows "arrivals ts (queues (DoGlobalQueueWork limit t s) p) j = arrivals ts (queues s p) j"
proof -
  have "frames (queues s q) t = []" for q by (rule idle_no_frames [OF ok free])
  then show ?thesis
    by (auto simp: DoGlobalQueueWork_def op_pushed intro!: arrivals_upd [OF d t op_frames(4)] split: prod.splits option.splits)
qed

lemma begin_push_arrivals:
  assumes "distinct ts" and "t \<in> set ts"
  shows "arrivals ts (queues (begin_push t q j' pushOnly s) p) j = arrivals ts (queues s p) j + (if (p, j) = (q, j') then 1 else 0)"
  by (simp add: begin_push_def arrivals_push [OF assms])

abbreviation item_push :: "'j timer_item \<Rightarrow> nat \<times> 'j" where
  "item_push x \<equiv> (owner (jobData x), job (jobData x))"

definition counted_ok :: "nat list \<Rightarrow> 'j job_system \<Rightarrow> bool" where
  "counted_ok ts s \<longleftrightarrow> (\<forall>q j. arrivals ts (queues s q) j = count_list (direct s) (q, j) + count_list (pushes (timer s)) (q, j))"

definition timer_ok :: "'j job_system \<Rightarrow> bool" where
  "timer_ok s \<longleftrightarrow> timer_reachable (timer s) \<and> pushes (timer s) = map item_push (handed s) \<and>
     mset (handed s) \<subseteq># mset (released (timer s)) \<and> (\<forall>x \<in> set (handed s). executeTick x \<le> GetTickCount64 s) \<and>
     (\<forall>t. \<forall>x \<in> set (in_hand (phase (timer s) t)). executeTick x \<le> GetTickCount64 s)"

lemma counted_okD: "counted_ok ts s \<Longrightarrow> arrivals ts (queues s q) j = count_list (direct s) (q, j) + count_list (pushes (timer s)) (q, j)"
  by (simp add: counted_ok_def)

lemma hand_pushes:
  "pushes (timer (hand_item t alive x xs s)) = pushes (timer s) @ (if alive then [item_push x] else [])"
  "direct (hand_item t alive x xs s) = direct s"
  by (simp_all add: hand_item_def begin_push_def Distribute_hand_def Let_def)

lemma hand_arrivals:
  assumes "distinct ts" and "t \<in> set ts"
  shows "arrivals ts (queues (hand_item t alive x xs s) q) j = arrivals ts (queues s q) j + (if alive \<and> (q, j) = item_push x then 1 else 0)"
  by (simp add: hand_item_def begin_push_arrivals [OF assms] Let_def)

lemma continue_call_fields:
  assumes "continue_call limit t s = Some s'"
  shows "direct s' = direct s" "timer s' = timer s" "handed s' = handed s" "GetTickCount64 s' = GetTickCount64 s"
  using assms by (auto simp: continue_call_def split: list.splits frame.splits)

lemma work_fields:
  "direct (DoGlobalQueueWork limit t s) = direct s" "timer (DoGlobalQueueWork limit t s) = timer s"
  "handed (DoGlobalQueueWork limit t s) = handed s" "GetTickCount64 (DoGlobalQueueWork limit t s) = GetTickCount64 s"
  by (auto simp: DoGlobalQueueWork_def split: prod.splits option.splits)

lemma timer_op_pushes [simp]:
  "pushes (Reserve tick after own j m) = pushes m" "pushes (Distribute_enter t m) = pushes m"
  "pushes (Distribute_take t now m) = pushes m" "pushes (Distribute_leave t m) = pushes m" "pushes (Clear_items m) = pushes m"
  by (simp_all add: Reserve_def Distribute_enter_def Distribute_take_def Distribute_leave_def Let_def case_prod_beta Clear_items_fields)

lemma js_step_counted:
  assumes "js_step ts limit s s'" and "distinct ts" and "calls_ok s" and "counted_ok ts s"
  shows "counted_ok ts s'"
  using assms
proof (induction rule: js_step.induct)
  case (js_push t s q j pushOnly)
  then show ?case using begin_push_arrivals [OF js_push(3,1), of q j pushOnly s]
    by (auto simp: counted_ok_def DoAsync_def begin_push_def)
next
  case (js_work t s)
  then have "call_stack s t = []" by (simp add: idle_def)
  then show ?case using work_arrivals [OF js_work(3,1,4)] js_work(5) by (simp add: counted_ok_def work_fields)
next
  case (js_hand t s x xs alive)
  show ?case using js_hand(6) by (auto simp: counted_ok_def hand_pushes hand_arrivals [OF js_hand(4,1)])
next
  case (js_call t s s')
  then show ?case using call_arrivals continue_call_fields by (metis counted_ok_def)
qed (simp_all add: counted_ok_def DoTimer_def)

lemma timer_okI:
  assumes "timer_reachable m" and "pushes m = map item_push (handed s)" and "mset (handed s) \<subseteq># mset (released m)"
    and "\<forall>x \<in> set (handed s). executeTick x \<le> GetTickCount64 s"
    and "\<forall>t. \<forall>x \<in> set (in_hand (phase m t)). executeTick x \<le> GetTickCount64 s"
  shows "timer_ok (s\<lparr>timer := m\<rparr>)"
  using assms by (simp add: timer_ok_def)

lemma timer_ok_same:
  "timer_ok s \<Longrightarrow> timer s' = timer s \<Longrightarrow> handed s' = handed s \<Longrightarrow> GetTickCount64 s \<le> GetTickCount64 s' \<Longrightarrow> timer_ok s'"
  unfolding timer_ok_def by (metis order_trans)

lemma taken_due: "x \<in> set (fst (take_due now q)) \<Longrightarrow> executeTick x \<le> now"
proof -
  assume "x \<in> set (fst (take_due now q))"
  then have "x \<in># filter_mset (\<lambda>x. executeTick x \<le> now) (mset q)" using tq.due_bags [of now q] by (metis set_mset_mset)
  then show ?thesis by simp
qed

lemma hand_timer_ok:
  assumes ok: "timer_ok s" and ph: "phase (timer s) t = Handing (x # xs)"
  shows "timer_ok (hand_item t alive x xs s)"
proof -
  have x: "executeTick x \<le> GetTickCount64 s" "\<forall>y \<in> set xs. executeTick y \<le> GetTickCount64 s"
    using ok ph unfolding timer_ok_def by (metis in_hand.simps(1) list.set_intros)+
  let ?m = "Distribute_hand t alive x xs (timer s)"
  have reach: "timer_reachable ?m" using ok ph unfolding timer_ok_def by (blast intro: timer_next ts_hand)
  have hand: "\<forall>u. \<forall>y \<in> set (in_hand (phase ?m u)). executeTick y \<le> GetTickCount64 s"
    using ok x(2) by (simp add: timer_ok_def Distribute_hand_def)
  have rel: "mset (handed s) + {#x#} \<subseteq># mset (released ?m)" "mset (handed s) \<subseteq># mset (released ?m)"
    using ok by (auto simp: timer_ok_def Distribute_hand_def intro: subset_mset.order_trans)
  have fields: "timer (hand_item t alive x xs s) = ?m" "GetTickCount64 (hand_item t alive x xs s) = GetTickCount64 s"
    "handed (hand_item t alive x xs s) = handed s @ (if alive then [x] else [])"
    by (simp_all add: hand_item_def begin_push_def Let_def)
  have "pushes (timer s) = map item_push (handed s)" using ok unfolding timer_ok_def by blast
  then have "pushes ?m = map item_push (handed s @ (if alive then [x] else []))" by (simp add: Distribute_hand_def)
  moreover have "\<forall>y \<in> set (handed s @ (if alive then [x] else [])). executeTick y \<le> GetTickCount64 s"
    using ok x(1) by (cases alive) (auto simp: timer_ok_def)
  moreover have "mset (handed s @ (if alive then [x] else [])) \<subseteq># mset (released ?m)" using rel by (cases alive) simp_all
  ultimately show ?thesis using reach hand unfolding timer_ok_def fields by blast
qed

lemma js_step_timer:
  assumes "js_step ts limit s s'" and "timer_ok s"
  shows "timer_ok s'"
  using assms
proof (induction rule: js_step.induct)
  case (js_push t s q j pushOnly)
  then show ?case by (auto simp: DoAsync_def begin_push_def intro: timer_ok_same)
next
  case (js_reserve t s tickAfter q j)
  then have "timer_reachable (Reserve (GetTickCount64 s) tickAfter q j (timer s))"
    unfolding timer_ok_def by (blast intro: timer_next ts_reserve)
  then show ?case using js_reserve(3) unfolding DoTimer_def
    by (intro timer_okI) (auto simp: timer_ok_def Reserve_def Let_def)
next
  case (js_clear t s)
  then have "timer_reachable (Clear_items (timer s))" unfolding timer_ok_def by (blast intro: timer_next ts_clear)
  then show ?case using js_clear(3) Clear_items_fields [of "timer s"]
    by (intro timer_okI) (auto simp: timer_ok_def intro: subset_mset.order_trans)
next
  case (js_work t s)
  then show ?case by (auto simp: work_fields intro: timer_ok_same)
next
  case (js_enter t s)
  then have "timer_reachable (Distribute_enter t (timer s))"
    unfolding timer_ok_def idle_def by (blast intro: timer_next ts_enter)
  then show ?case using js_enter(3) by (intro timer_okI) (auto simp: timer_ok_def Distribute_enter_def)
next
  case (js_take t s now)
  then have "timer_reachable (Distribute_take t now (timer s))"
    unfolding timer_ok_def by (blast intro: timer_next ts_take)
  then show ?case using js_take(3,4) taken_due [of _ now "items (timer s)"]
    by (intro timer_okI) (auto simp: timer_ok_def Distribute_take_def Let_def case_prod_beta dest: order_trans)
next
  case (js_hand t s x xs alive)
  then show ?case by (intro hand_timer_ok)
next
  case (js_leave t s)
  then have "timer_reachable (Distribute_leave t (timer s))"
    unfolding timer_ok_def by (blast intro: timer_next ts_leave)
  then show ?case using js_leave(4) by (intro timer_okI) (auto simp: timer_ok_def Distribute_leave_def)
next
  case (js_call t s s')
  then show ?case using continue_call_fields [OF js_call(2)] by (auto intro: timer_ok_same)
qed (auto intro: timer_ok_same)

lemma js_reachable_jobs: "js_reachable ts limit s \<Longrightarrow> distinct ts \<Longrightarrow> counted_ok ts s \<and> timer_ok s"
proof (induction rule: js_reachable.induct)
  case (js_init tick)
  show ?case
    by (simp add: job_system_def counted_ok_def timer_ok_def arrivals_def total_def JobQueue_def JobTimer_def
        timer_init [unfolded JobTimer_def])
next
  case (js_next s s')
  then show ?case using js_step_counted js_step_timer js_reachable_ok by blast
qed

lemma handed_reserved: "timer_ok s \<Longrightarrow> mset (handed s) \<subseteq># mset (reserved (timer s))"
proof -
  assume ok: "timer_ok s"
  then have "timer_inv (timer s)" by (auto simp: timer_ok_def intro: timer_reachable_inv)
  then have "mset (released (timer s)) \<subseteq># mset (reserved (timer s))"
    by (auto simp: timer_inv_def split: if_splits)
  then show ?thesis using ok unfolding timer_ok_def by (blast intro: subset_mset.order_trans)
qed

lemma count_due:
  "\<forall>x \<in> set xs. executeTick x \<le> c \<Longrightarrow>
   count_list (map item_push xs) p = length (filter (\<lambda>x. item_push x = p \<and> executeTick x \<le> c) xs)"
  by (induction xs) auto

lemma handed_due:
  assumes "timer_ok s"
  shows "count_list (map item_push (handed s)) (q, j) \<le>
    length (filter (\<lambda>x. item_push x = (q, j) \<and> executeTick x \<le> GetTickCount64 s) (reserved (timer s)))"
proof -
  have all: "\<forall>x \<in> set (handed s). executeTick x \<le> GetTickCount64 s" using assms unfolding timer_ok_def by blast
  let ?P = "\<lambda>x. item_push x = (q, j) \<and> executeTick x \<le> GetTickCount64 s"
  have "count_list (map item_push (handed s)) (q, j) = length (filter ?P (handed s))"
    using all by (rule count_due)
  moreover have "size (filter_mset ?P (mset (handed s))) \<le> size (filter_mset ?P (mset (reserved (timer s))))"
    by (intro size_mset_mono multiset_filter_mono handed_reserved assms)
  moreover have "size (filter_mset P (mset xs)) = length (filter P xs)" for P :: "'a timer_item \<Rightarrow> bool" and xs
    by (simp only: mset_filter [symmetric] size_mset)
  ultimately show ?thesis by (simp only:)
qed

text \<open>
  C9: the runtime runs every job it was given once, in order, and no reserved job early. In every reachable state
  the jobs a queue has run are a prefix of those pushed on it; a job has run at most as often as it was
  pushed directly or reserved for that queue with a tick the clock has reached; and when no call is
  active and the global queue is empty every job that was pushed, or came due for a queue still alive, has run.
\<close>
theorem given_jobs_run_once:
  assumes "js_reachable ts limit s" and "distinct ts"
  shows "(\<exists>rest. pushed (queues s q) = executed (queues s q) @ rest) \<and>
    count_list (executed (queues s q)) j \<le> count_list (direct s) (q, j) +
      length (filter (\<lambda>x. item_push x = (q, j) \<and> executeTick x \<le> GetTickCount64 s) (reserved (timer s))) \<and>
    ((\<forall>t \<in> set ts. call_stack s t = []) \<and> global_queue s = [] \<longrightarrow>
      count_list (executed (queues s q)) j = count_list (direct s) (q, j) + count_list (map item_push (handed s)) (q, j))"
proof -
  have inv: "jq_inv ts (queues s q)" by (rule jq_reachable_inv [OF js_queue_reachable [OF assms(1)] assms(2)])
  have ok: "calls_ok s" "global_ok s" "counted_ok ts s" "timer_ok s"
    using js_reachable_ok [OF assms(1)] js_reachable_jobs [OF assms] by blast+
  have given: "arrivals ts (queues s q) j = count_list (direct s) (q, j) + count_list (map item_push (handed s)) (q, j)"
    using counted_okD [OF ok(3), of q j] ok(4) by (metis timer_ok_def)
  obtain rest where pre: "pushed (queues s q) = executed (queues s q) @ rest" using executed_prefix [OF inv] by blast
  then have "count_list (executed (queues s q)) j \<le> arrivals ts (queues s q) j" by (simp add: arrivals_def)
  then have "count_list (executed (queues s q)) j \<le> count_list (direct s) (q, j) +
      length (filter (\<lambda>x. item_push x = (q, j) \<and> executeTick x \<le> GetTickCount64 s) (reserved (timer s)))"
    using given handed_due [OF ok(4), of q j] by linarith
  moreover have "count_list (executed (queues s q)) j = count_list (direct s) (q, j) + count_list (map item_push (handed s)) (q, j)"
    if q: "\<forall>t \<in> set ts. call_stack s t = []" "global_queue s = []"
  proof -
    have none: "\<forall>t \<in> set ts. frames (queues s q) t = []" using q(1) idle_no_frames [OF ok(1)] by blast
    have "global_entries (queues s q) = 0" using ok(2) q(2) unfolding global_ok_def by (metis count_list.simps(1))
    then have "executed (queues s q) = pushed (queues s q)" using all_ran(1) [OF inv none] by blast
    moreover have "total (adding j) ts (queues s q) = 0" using none by (simp add: total_def)
    ultimately show ?thesis using given by (simp add: arrivals_def)
  qed
  ultimately show ?thesis using pre by blast
qed

section \<open>What the end tick of the threads does\<close>

text \<open>
  A batch in progress: some thread runs the jobs up to \<open>all\<close>, or has run them and is about to give the
  queue up, or has left it in the global queue; other jobs wait behind the batch.
\<close>

definition batch :: "nat list \<Rightarrow> 'j list \<Rightarrow> 'j job_queue \<Rightarrow> bool" where
  "batch ts all a \<longleftrightarrow> jobs a \<noteq> [] \<and>
     ((\<exists>t \<in> set ts. \<exists>js n. Running js n \<in> set (frames a t) \<and> executed a @ js = all) \<or>
      executed a = all \<and> (0 < global_entries a \<or> (\<exists>t \<in> set ts. Decide \<in> set (frames a t) \<or> ToGlobal \<in> set (frames a t))))"

text \<open>The innermost frame of a thread that may run the queue is the one the batch speaks of.\<close>

lemma batch_top:
  assumes inv: "jq_inv ts a" and t: "t \<in> set ts" and fr: "frames a t = f # rest" and w: "weight f = 1" and b: "batch ts all a"
  shows "(\<exists>js n. f = Running js n \<and> executed a @ js = all) \<or> executed a = all \<and> (f = Decide \<or> f = ToGlobal)"
proof -
  note u = token_unique [OF jq_inv_facts(1) [OF inv] t fr w]
  have only: "g = f" if "x \<in> set ts" "g \<in> set (frames a x)" "weight g = 1" for x g
    using that u(2,3) fr by (cases "x = t") fastforce+
  have "Running js n = f" if "x \<in> set ts" "Running js n \<in> set (frames a x)" for x js n
    using only [OF that] by simp
  moreover have "Decide = f" if "x \<in> set ts" "Decide \<in> set (frames a x)" for x using only [OF that] by simp
  moreover have "ToGlobal = f" if "x \<in> set ts" "ToGlobal \<in> set (frames a x)" for x using only [OF that] by simp
  ultimately show ?thesis using b u(1) unfolding batch_def by (metis less_irrefl)
qed

lemma batch_quiet:
  assumes "batch ts all a" and "frames a t = old @ rest" and "frames b = (frames a)(t := new @ rest)"
    and "\<forall>f \<in> set old. \<exists>j p b. f = Added j p b" and "jobs b \<noteq> []" and "executed b = executed a"
    and "global_entries b = global_entries a"
  shows "batch ts all b"
proof -
  have keep: "f \<in> set (frames b x)" if "f \<in> set (frames a x)" "\<forall>j p b. f \<noteq> Added j p b" for f x
  proof -
    have "f \<notin> set old" using that(2) assms(4) by blast
    then show ?thesis using that(1) assms(2,3) by (cases "x = t") auto
  qed
  have "Running js n \<in> set (frames b x)" if "Running js n \<in> set (frames a x)" for js n x using that by (intro keep) simp_all
  moreover have "Decide \<in> set (frames b x)" if "Decide \<in> set (frames a x)" for x using that by (intro keep) simp_all
  moreover have "ToGlobal \<in> set (frames b x)" if "ToGlobal \<in> set (frames a x)" for x using that by (intro keep) simp_all
  ultimately show ?thesis using assms(1,5-7) unfolding batch_def by metis
qed

text \<open>When nobody may take the queue from the global queue and time is always over, the batch is the last one.\<close>

lemma batch_step:
  assumes "timed_step ts (\<lambda>_. False) (\<lambda>_. True) a b" and inv: "jq_inv ts a" and bt: "batch ts all a"
  shows "batch ts all b"
  using assms(1)
proof cases
  case (td_push t j only)
  show ?thesis unfolding td_push(1) using bt
    by (intro batch_quiet [OF bt, of t "[]" "frames a t" _ "[Added j (jobCount a) only]"]) (simp_all add: op_frames Push_count_def batch_def)
next
  case (td_added t j prev only rest)
  have "prev \<noteq> 0"
  proof
    assume "prev = 0"
    then show False using batch_top [OF inv td_added(2,3) _ bt] by simp
  qed
  then show ?thesis unfolding td_added(1)
    by (intro batch_quiet [OF bt, of t "[Added j prev only]" rest _ "[]"]) (use td_added in \<open>simp_all add: op_frames Push_job_def lq_Push_def\<close>)
next
  case (td_global t rest)
  then show ?thesis using batch_top [OF inv td_global(2,3) _ bt] bt by (simp add: batch_def GlobalQueue_Push_def)
next
  case (td_popall t rest)
  then show ?thesis using batch_top [OF inv td_popall(2,3) _ bt] by simp
next
  case (td_job t j js n rest)
  then have "executed a @ j # js = all" using batch_top [OF inv td_job(2,3) _ bt] by simp
  moreover have "Running js n \<in> set (frames b t)" unfolding td_job(1) by (simp add: op_frames)
  ultimately show ?thesis using td_job(2) bt unfolding batch_def td_job(1)
    by (intro conjI disjI1 bexI [of _ t] exI [of _ js] exI [of _ n]) (simp_all add: Execute_job_def)
next
  case (td_subtract t n rest)
  then have e: "executed a = all" using batch_top [OF inv td_subtract(2,3) _ bt] by simp
  have "n + length (jobs a) \<le> total counted ts a + length (jobs a)"
    using weight_le_total [OF td_subtract(2), of counted a] td_subtract(3) by simp
  moreover have "jobCount a = int (length (jobs a)) + int (total counted ts a)" "0 < length (jobs a)"
    using inv bt by (simp_all add: jq_inv_def batch_def)
  ultimately have "jobCount a \<noteq> int n" by linarith
  then show ?thesis using e bt td_subtract(1,2) by (auto simp: batch_def Execute_subtract_def Let_def)
next
  case (td_decide t rest)
  then show ?thesis using batch_top [OF inv td_decide(2,3) _ bt] bt by (auto simp: batch_def Execute_decide_def)
qed simp

text \<open>
  C38: with the end tick the threads have, a job pushed on a queue while it is being executed never runs. Nobody
  sets \<open>LEndTickCount\<close>, so time is always over: after its batch the thread leaves the queue in the global queue, and
  \<open>DoGlobalQueueWork\<close> returns before it takes anything out. In every continuation the queue runs at most the batch.
\<close>
theorem late_jobs_never_run:
  assumes "js_reachable ts (\<lambda>_. LEndTickCount) s" and "distinct ts" and "0 < GetTickCount64 s"
    and "t \<in> set ts" and "Running js n \<in> set (frames (queues s q) t)" and "jobs (queues s q) \<noteq> []"
    and "(js_step ts (\<lambda>_. LEndTickCount))\<^sup>*\<^sup>* s s'"
  shows "\<exists>rest. executed (queues s q) @ js = executed (queues s' q) @ rest"
proof -
  let ?all = "executed (queues s q) @ js"
  have "js_reachable ts (\<lambda>_. LEndTickCount) s' \<and> 0 < GetTickCount64 s' \<and> batch ts ?all (queues s' q)"
    using assms(7)
  proof (induction rule: rtranclp_induct)
    case base
    then show ?case using assms(1,3-6) by (auto simp: batch_def)
  next
    case (step u v)
    then have ok: "calls_ok u" "global_ok u" "0 < GetTickCount64 u" using js_reachable_ok by blast+
    have m: "moves ts (\<lambda>_. LEndTickCount) u v" by (rule js_step_moves [OF step(2) ok(1,2)])
    have "jq_inv ts (queues u q)" using jq_reachable_inv [OF js_queue_reachable assms(2)] step.IH by blast
    note batch = batch_step [OF _ this]
    have "(\<lambda>t. GetTickCount64 u \<le> LEndTickCount) = (\<lambda>_. False)" "(\<lambda>t. LEndTickCount \<le> GetTickCount64 u) = (\<lambda>_. True)"
      using ok(3) by (auto simp: LEndTickCount_def)
    then have "queues v q = queues u q \<or> timed_step ts (\<lambda>_. False) (\<lambda>_. True) (queues u q) (queues v q)"
      using m unfolding moves_def by metis
    then have "batch ts ?all (queues v q)" using batch step.IH by metis
    moreover have "0 < GetTickCount64 v" using step(2) ok(3)
    proof (cases rule: js_step.cases)
      case (js_call t)
      then show ?thesis using ok(3) continue_call_fields(4) by metis
    qed (auto simp: DoAsync_def begin_push_def DoTimer_def work_fields hand_item_def Let_def dest: less_le_trans)
    ultimately show ?case using step js_next by blast
  qed
  then show ?thesis unfolding batch_def by (metis append.right_neutral append_assoc)
qed

section \<open>A call of \<open>DistributeReservedJob\<close> runs what is due\<close>

fun executing :: "'j frame \<Rightarrow> bool" where
  "executing (Added j prev only) = False"
| "executing ToGlobal = False"
| "executing _ = True"

lemma op_current:
  "current (Push_count t j only a) = current a" "current (GlobalQueue_Push t rest a) = current a"
  "current (GlobalQueue_Pop t a) = (current a)(t := True)" "current (Execute_popall t rest a) = current a"
  "current (Execute_job t j js n rest a) = current a"
  "current (Execute_subtract t n rest a) = (if jobCount a = int n then (current a)(t := False) else current a)"
  "current (Execute_decide t time_up rest a) = (if time_up then (current a)(t := False) else current a)"
  "current (Push_job t j prev only rest a) =
     (if prev = 0 \<and> current a t = False \<and> only = False then (current a)(t := True) else current a)"
  by (auto simp: Push_count_def GlobalQueue_Push_def GlobalQueue_Pop_def Push_job_def Execute_popall_def
      Execute_job_def Execute_subtract_def Execute_decide_def Let_def case_prod_beta set_current_def set_frames_def)

lemma current_executes: "jq_reachable ts a \<Longrightarrow> current a t \<Longrightarrow> \<exists>f \<in> set (frames a t). executing f"
proof (induction rule: jq_reachable.induct)
  case jq_init
  then show ?case by (simp add: JobQueue_def)
next
  case (jq_next a b)
  from jq_next.hyps(2) jq_next.IH jq_next.prems show ?case
    by cases (auto simp: op_frames op_current split: if_splits)
qed

text \<open>Nobody is inside a call and the global queue is empty, so every queue is empty.\<close>

definition quiet :: "nat list \<Rightarrow> 'j job_system \<Rightarrow> bool" where
  "quiet ts s \<longleftrightarrow> (\<forall>t \<in> set ts. call_stack s t = []) \<and> global_queue s = []"

lemma quiet_queue:
  assumes "js_reachable ts limit s" and "distinct ts" and "quiet ts s" and "t \<in> set ts"
  shows "jobs (queues s q) = []" and "jobCount (queues s q) = 0" and "frames (queues s q) t = []"
    and "\<not> current (queues s q) t"
proof -
  have ok: "calls_ok s" "global_ok s" using js_reachable_ok [OF assms(1)] by simp_all
  have reach: "jq_reachable ts (queues s q)" by (rule js_queue_reachable [OF assms(1)])
  have inv: "jq_inv ts (queues s q)" by (rule jq_reachable_inv [OF reach assms(2)])
  have none: "\<forall>t \<in> set ts. frames (queues s q) t = []" using assms(3) idle_no_frames [OF ok(1)] by (simp add: quiet_def)
  then show fr: "frames (queues s q) t = []" using assms(4) by blast
  have "global_entries (queues s q) = 0" using ok(2) assms(3) unfolding global_ok_def quiet_def by (metis count_list.simps(1))
  then show count: "jobCount (queues s q) = 0" using all_ran(2) [OF inv none] by blast
  then have "int (length (jobs (queues s q))) + int (total counted ts (queues s q)) = 0" using inv by (simp add: jq_inv_def)
  then have "length (jobs (queues s q)) = 0" by linarith
  then show "jobs (queues s q) = []" by simp
  show "\<not> current (queues s q) t" using current_executes [OF reach, of t] fr by auto
qed

text \<open>A step inside the only call of a thread, which stays open.\<close>

lemma only_call_step:
  assumes "js_reachable ts limit s" and "t \<in> set ts" and "call_stack s t = [q]" and "frames (queues s q) t = [g]"
    and "frames (f (queues s q)) = (frames (queues s q))(t := [h])"
    and "continue_call limit t s = Some (on_queue t q f s)"
  shows "js_step ts limit s (on_queue t q f s)" and "js_reachable ts limit (on_queue t q f s)"
    and "call_stack (on_queue t q f s) = call_stack s"
proof -
  show step: "js_step ts limit s (on_queue t q f s)" using assms(2,6) by (rule js_call)
  show "js_reachable ts limit (on_queue t q f s)" by (rule js_next [OF assms(1) step])
  have "calls_ok s" using js_reachable_ok [OF assms(1)] by simp
  then show "call_stack (on_queue t q f s) = call_stack s" by (rule keep_call(2) [where f = f, OF _ assms(3-5)])
qed

text \<open>
  \<open>DistributeReservedJob\<close> as one thread runs it when no other does: it reads the clock, calls \<open>Distribute\<close>, and each of its steps
  is the next one of its innermost call, or else of \<open>Distribute\<close>, until both have returned. \<open>alive\<close> tells the queues
  that \<open>owner.lock()\<close> finds.
\<close>

definition distribute_busy :: "nat \<Rightarrow> 'j job_system \<Rightarrow> bool" where
  "distribute_busy t s \<longleftrightarrow> \<not> (case call_stack s t of [] \<Rightarrow> (case phase (timer s) t of Outside \<Rightarrow> True | _ \<Rightarrow> False) | _ \<Rightarrow> False)"

definition distribute_step :: "(nat \<Rightarrow> 64 word) \<Rightarrow> (nat \<Rightarrow> bool) \<Rightarrow> 64 word \<Rightarrow> nat \<Rightarrow> 'j job_system \<Rightarrow> 'j job_system" where
  "distribute_step limit alive now t s =
     (case continue_call limit t s of
        Some s' \<Rightarrow> s'
      | None \<Rightarrow>
          (case phase (timer s) t of
             Outside \<Rightarrow> s
           | Entered \<Rightarrow> s\<lparr>timer := Distribute_take t now (timer s)\<rparr>
           | Handing [] \<Rightarrow> s\<lparr>timer := Distribute_leave t (timer s)\<rparr>
           | Handing (x # xs) \<Rightarrow> hand_item t (alive (owner (jobData x))) x xs s))"

definition distribute_rest :: "(nat \<Rightarrow> 64 word) \<Rightarrow> (nat \<Rightarrow> bool) \<Rightarrow> 64 word \<Rightarrow> nat \<Rightarrow> 'j job_system \<Rightarrow> 'j job_system option" where
  "distribute_rest limit alive now t = while_option (distribute_busy t) (distribute_step limit alive now t)"

definition DistributeReservedJob :: "(nat \<Rightarrow> 64 word) \<Rightarrow> (nat \<Rightarrow> bool) \<Rightarrow> nat \<Rightarrow> 'j job_system \<Rightarrow> 'j job_system option" where
  "DistributeReservedJob limit alive t s =
     (let now = GetTickCount64 s in distribute_rest limit alive now t (s\<lparr>timer := Distribute_enter t (timer s)\<rparr>))"

lemma rest_call:
  assumes "continue_call limit t s = Some s'"
  shows "distribute_rest limit alive now t s = distribute_rest limit alive now t s'"
proof -
  have "distribute_busy t s" using assms by (auto simp: continue_call_def distribute_busy_def split: list.splits)
  then show ?thesis
    unfolding distribute_rest_def by (subst while_option_unfold) (simp add: distribute_step_def assms)
qed

lemma rest_timer:
  assumes "call_stack s t = []"
  shows "phase (timer s) t = Entered \<Longrightarrow>
      distribute_rest limit alive now t s = distribute_rest limit alive now t (s\<lparr>timer := Distribute_take t now (timer s)\<rparr>)"
    and "phase (timer s) t = Handing [] \<Longrightarrow>
      distribute_rest limit alive now t s = distribute_rest limit alive now t (s\<lparr>timer := Distribute_leave t (timer s)\<rparr>)"
    and "phase (timer s) t = Handing (x # xs) \<Longrightarrow>
      distribute_rest limit alive now t s = distribute_rest limit alive now t (hand_item t (alive (owner (jobData x))) x xs s)"
    and "phase (timer s) t = Outside \<Longrightarrow> distribute_rest limit alive now t s = Some s"
proof -
  have none: "continue_call limit t s = None" using assms by (simp add: continue_call_def)
  show "phase (timer s) t = Entered \<Longrightarrow>
      distribute_rest limit alive now t s = distribute_rest limit alive now t (s\<lparr>timer := Distribute_take t now (timer s)\<rparr>)"
    "phase (timer s) t = Handing [] \<Longrightarrow>
      distribute_rest limit alive now t s = distribute_rest limit alive now t (s\<lparr>timer := Distribute_leave t (timer s)\<rparr>)"
    "phase (timer s) t = Handing (x # xs) \<Longrightarrow>
      distribute_rest limit alive now t s = distribute_rest limit alive now t (hand_item t (alive (owner (jobData x))) x xs s)"
    "phase (timer s) t = Outside \<Longrightarrow> distribute_rest limit alive now t s = Some s"
    unfolding distribute_rest_def
    by (subst while_option_unfold, simp add: distribute_busy_def distribute_step_def none assms)+
qed

lemma hand_runs_alive:
  assumes reach: "js_reachable ts limit s" and d: "distinct ts" and q: "quiet ts s" and t: "t \<in> set ts"
    and ph: "phase (timer s) t = Handing (x # xs)"
  shows "\<exists>s'. (js_step ts limit)\<^sup>*\<^sup>* s s' \<and>
    (alive (owner (jobData x)) \<longrightarrow> distribute_rest limit alive now t s = distribute_rest limit alive now t s') \<and>
    quiet ts s' \<and> timer s' = Distribute_hand t True x xs (timer s) \<and> GetTickCount64 s' = GetTickCount64 s \<and>
    (\<forall>p. executed (queues s' p) = executed (queues s p) @ (if owner (jobData x) = p then [job (jobData x)] else []))"
proof -
  define p where "p = owner (jobData x)"
  define j where "j = job (jobData x)"
  note a = quiet_queue [OF reach d q t, of p]
  have free: "call_stack s t = []" using q t by (simp add: quiet_def)
  define s0 where "s0 = s\<lparr>timer := Distribute_hand t True x xs (timer s)\<rparr>"
  define s1 where "s1 = hand_item t True x xs s"
  have "calls_ok s0" using js_reachable_ok [OF reach] by (simp add: s0_def)
  then have st1: "call_stack (on_queue t p (Push_count t j False) s0) t = [p]"
    using open_call(2) [of s0 t "Push_count t j False" p "Added j 0 False"] free a by (simp add: s0_def op_frames)
  have s1: "s1 = (on_queue t p (Push_count t j False) s0)\<lparr>handed := handed s @ [x]\<rparr>"
    using free by (simp add: s1_def hand_item_def begin_push_def s0_def p_def j_def Let_def LCurrentJobQueue_def)
  have step1: "js_step ts limit s s1" unfolding s1_def by (rule js_hand [OF t ph free])
  have r1: "js_reachable ts limit s1" by (rule js_next [OF reach step1])
  have c1: "call_stack s1 t = [p]" "call_stack s1 = (call_stack s)(t := [p])"
    using st1 free a by (simp_all add: s1 s0_def on_queue_def op_frames Let_def)
  have f1: "frames (queues s1 p) t = [Added j 0 False]" using a by (simp add: s1 s0_def op_frames)
  define s2 where "s2 = on_queue t p (Push_job t j 0 False []) s1"
  have cur: "\<not> current (queues s1 p) t" using a by (simp add: s1 s0_def op_current)
  have "frames (Push_job t j 0 False [] (queues s1 p)) = (frames (queues s1 p))(t := [Popping])"
    using cur by (simp add: op_frames)
  note 2 = only_call_step [where f = "Push_job t j 0 False []", OF r1 t c1(1) f1 this, folded s2_def]
  have n2: "continue_call limit t s1 = Some s2" using c1 f1 by (simp add: continue_call_def s2_def)
  have f2: "frames (queues s2 p) t = [Popping]" using cur by (simp add: s2_def op_frames)
  have j2: "jobs (queues s2 p) = [Some j]" using a by (simp add: s2_def s1 s0_def Push_job_def Push_count_def lq_Push_def Let_def)
  then have pop: "lq_PopAll (jobs (queues s2 p)) = ([j], [])" by (simp add: lq_PopAll.simps lq_Pop_def)
  define s3 where "s3 = on_queue t p (Execute_popall t []) s2"
  have c2: "call_stack s2 t = [p]" using 2(3) n2 c1 by simp
  have "frames (Execute_popall t [] (queues s2 p)) = (frames (queues s2 p))(t := [Running [j] 1])"
    using pop by (simp add: op_frames)
  note 3 = only_call_step [where f = "Execute_popall t []", OF 2(2) [OF n2] t c2 f2 this, folded s3_def]
  have n3: "continue_call limit t s2 = Some s3" using c2 f2 by (simp add: continue_call_def s3_def)
  have f3: "frames (queues s3 p) t = [Running [j] 1]" using pop by (simp add: s3_def op_frames)
  define s4 where "s4 = on_queue t p (Execute_job t j [] 1 []) s3"
  have c3: "call_stack s3 t = [p]" using 3(3) n3 c2 by simp
  note 4 = only_call_step [where f = "Execute_job t j [] 1 []", OF 3(2) [OF n3] t c3 f3 op_frames(6), folded s4_def]
  have n4: "continue_call limit t s3 = Some s4" using c3 f3 by (simp add: continue_call_def s4_def)
  have f4: "frames (queues s4 p) t = [Running [] 1]" by (simp add: s4_def op_frames)
  have c4: "call_stack s4 = call_stack s1" using 4(3) n4 3(3) n3 2(3) n2 by simp
  define s5 where "s5 = on_queue t p (Execute_subtract t 1 []) s4"
  have n5: "continue_call limit t s4 = Some s5" using c4 c1 f4 by (simp add: continue_call_def s5_def)
  have count: "jobCount (queues s4 p) = 1"
    using a by (simp add: s4_def s3_def s2_def s1 s0_def Execute_job_def Execute_popall_def Push_job_def Push_count_def Let_def case_prod_beta)
  have "calls_ok s4" using js_reachable_ok [OF 4(2) [OF n4]] by simp
  from end_call(2) [where f = "Execute_subtract t 1 []" and qs = "[]", OF this _ f4]
  have c5: "call_stack s5 = call_stack s" using c4 c1 count free by (simp add: s5_def op_frames fun_upd_idem)
  have run: "(js_step ts limit)\<^sup>*\<^sup>* s s5"
    using step1 2(1) [OF n2] 3(1) [OF n3] 4(1) [OF n4] js_call [OF t n5]
    by (meson converse_rtranclp_into_rtranclp rtranclp.rtrancl_refl)
  have alone: "distribute_rest limit alive now t s = distribute_rest limit alive now t s5" if "alive (owner (jobData x))"
    using rest_timer(3) [where alive = alive, OF free ph] that rest_call [OF n2] rest_call [OF n3] rest_call [OF n4] rest_call [OF n5]
    by (simp add: s1_def)
  have "executed (queues s5 p') = executed (queues s p') @ (if p = p' then [j] else [])" for p'
    by (simp add: s5_def s4_def s3_def s2_def s1 s0_def Execute_subtract_def Execute_job_def Execute_popall_def
        Push_job_def Push_count_def Let_def case_prod_beta)
  moreover have "timer s5 = Distribute_hand t True x xs (timer s)" "GetTickCount64 s5 = GetTickCount64 s" "global_queue s5 = global_queue s"
    by (simp_all add: s5_def s4_def s3_def s2_def s1 s0_def)
  ultimately show ?thesis using run alone c5 q unfolding p_def j_def quiet_def by (intro exI [of _ s5]) simp
qed

lemma hand_runs:
  assumes "js_reachable ts limit s" and "distinct ts" and "quiet ts s" and "t \<in> set ts"
    and "phase (timer s) t = Handing (x # xs)"
  shows "\<exists>s'. (js_step ts limit)\<^sup>*\<^sup>* s s' \<and> distribute_rest limit alive now t s = distribute_rest limit alive now t s' \<and>
    quiet ts s' \<and> timer s' = Distribute_hand t (alive (owner (jobData x))) x xs (timer s) \<and> GetTickCount64 s' = GetTickCount64 s \<and>
    (\<forall>p. executed (queues s' p) =
       executed (queues s p) @ (if owner (jobData x) = p \<and> alive p then [job (jobData x)] else []))"
proof (cases "alive (owner (jobData x))")
  case True
  with hand_runs_alive [OF assms, of alive now] show ?thesis by (auto 0 4)
next
  case False
  have free: "call_stack s t = []" using assms(3,4) by (simp add: quiet_def)
  have h: "hand_item t False x xs s = s\<lparr>timer := Distribute_hand t False x xs (timer s)\<rparr>" by (simp add: hand_item_def Let_def)
  have "js_step ts limit s (hand_item t False x xs s)" by (rule js_hand [OF assms(4,5) free])
  moreover have "distribute_rest limit alive now t s = distribute_rest limit alive now t (hand_item t False x xs s)"
    using rest_timer(3) [where alive = alive, OF free assms(5)] False by simp
  moreover have "quiet ts (hand_item t False x xs s)" using assms(3) unfolding h by (simp add: quiet_def)
  ultimately show ?thesis using False by (intro exI [of _ "hand_item t False x xs s"]) (auto simp: h)
qed

lemma hand_all_runs:
  assumes "js_reachable ts limit s" and "distinct ts" and "quiet ts s" and "t \<in> set ts"
    and "phase (timer s) t = Handing xs"
  shows "\<exists>s'. (js_step ts limit)\<^sup>*\<^sup>* s s' \<and> distribute_rest limit alive now t s = distribute_rest limit alive now t s' \<and>
    quiet ts s' \<and> timer s' = hand_all t alive xs (timer s) \<and> phase (timer s') t = Handing [] \<and>
    (\<forall>p. executed (queues s' p) =
       executed (queues s p) @ map (job \<circ> jobData) (filter (\<lambda>x. owner (jobData x) = p \<and> alive p) xs))"
  using assms
proof (induction xs arbitrary: s)
  case Nil
  then show ?case by (intro exI [of _ s]) simp
next
  case (Cons x xs)
  obtain u where u: "(js_step ts limit)\<^sup>*\<^sup>* s u" "distribute_rest limit alive now t s = distribute_rest limit alive now t u"
    "quiet ts u" "timer u = Distribute_hand t (alive (owner (jobData x))) x xs (timer s)"
    "\<forall>p. executed (queues u p) = executed (queues s p) @ (if owner (jobData x) = p \<and> alive p then [job (jobData x)] else [])"
    using hand_runs [OF Cons.prems, of alive now] by blast
  have reach: "js_reachable ts limit u" using u(1) Cons.prems(1) by (induction rule: rtranclp_induct) (auto intro: js_next)
  have "phase (timer u) t = Handing xs" by (simp add: u(4) Distribute_hand_def)
  from Cons.IH [OF reach Cons.prems(2) u(3) Cons.prems(4) this]
  obtain v where v: "(js_step ts limit)\<^sup>*\<^sup>* u v" "distribute_rest limit alive now t u = distribute_rest limit alive now t v"
    "quiet ts v" "timer v = hand_all t alive xs (timer u)" "phase (timer v) t = Handing []"
    "\<forall>p. executed (queues v p) = executed (queues u p) @ map (job \<circ> jobData) (filter (\<lambda>x. owner (jobData x) = p \<and> alive p) xs)"
    by blast
  show ?case
    by (rule exI [of _ v], intro conjI rtranclp_trans [OF u(1) v(1)] v(3,5)) (simp_all add: u(2,4,5) v(2,4,6))
qed

lemma DistributeReservedJob_alone:
  assumes "js_reachable ts limit s" and "distinct ts" and "t \<in> set ts" and "quiet ts s" and "phase (timer s) t = Outside"
    and False: "\<not> distributing (timer s)"
  shows "\<exists>s'. DistributeReservedJob limit alive t s = Some s' \<and> (js_step ts limit)\<^sup>*\<^sup>* s s' \<and> quiet ts s' \<and>
    timer s' = Distribute t alive (GetTickCount64 s) (timer s) \<and>
    (\<forall>p. executed (queues s' p) = executed (queues s p) @
       map (job \<circ> jobData) (filter (\<lambda>x. owner (jobData x) = p \<and> alive p) (fst (take_due (GetTickCount64 s) (items (timer s))))))"
proof -
  define now where "now = GetTickCount64 s"
  define due where "due = fst (take_due now (items (timer s)))"
  have free: "call_stack s t = []" using assms(3,4) by (simp add: quiet_def)
  define s1 where "s1 = s\<lparr>timer := Distribute_enter t (timer s)\<rparr>"
  define s2 where "s2 = s1\<lparr>timer := Distribute_take t now (timer s1)\<rparr>"
  have m1: "timer s1 = (timer s)\<lparr>distributing := True, phase := (phase (timer s))(t := Entered)\<rparr>"
    using False by (simp add: s1_def Distribute_enter_def)
  have step1: "js_step ts limit s s1" unfolding s1_def
    using assms(3,5) free by (intro js_enter) (simp_all add: idle_def)
  have step2: "js_step ts limit s1 s2" unfolding s2_def
    by (rule js_take [OF assms(3)]) (simp_all add: m1, simp add: s1_def now_def)
  have reach: "js_reachable ts limit s2" by (rule js_next [OF js_next [OF assms(1) step1] step2])
  have q2: "quiet ts s2" "queues s2 = queues s" using assms(4) by (simp_all add: s2_def s1_def quiet_def)
  have ph2: "phase (timer s2) t = Handing due" by (simp add: s2_def m1 Distribute_take_def case_prod_beta Let_def due_def)
  from hand_all_runs [OF reach assms(2) q2(1) assms(3) this, of alive now]
  obtain u where u: "(js_step ts limit)\<^sup>*\<^sup>* s2 u" "distribute_rest limit alive now t s2 = distribute_rest limit alive now t u"
    "quiet ts u" "timer u = hand_all t alive due (timer s2)" "phase (timer u) t = Handing []"
    "\<forall>p. executed (queues u p) = executed (queues s2 p) @ map (job \<circ> jobData) (filter (\<lambda>x. owner (jobData x) = p \<and> alive p) due)"
    by blast
  define s' where "s' = u\<lparr>timer := Distribute_leave t (timer u)\<rparr>"
  have fu: "call_stack u t = []" using u(3) assms(3) by (simp add: quiet_def)
  have "js_step ts limit u s'" unfolding s'_def using u(5) assms(3) fu by (intro js_leave)
  then have run: "(js_step ts limit)\<^sup>*\<^sup>* s s'"
    using step1 step2 u(1) by (meson converse_rtranclp_into_rtranclp rtranclp.rtrancl_into_rtrancl)
  have "distribute_rest limit alive now t s1 = distribute_rest limit alive now t s2"
    unfolding s2_def by (rule rest_timer(1)) (use free in \<open>simp_all add: m1, simp add: s1_def\<close>)
  also have "\<dots> = distribute_rest limit alive now t s'" using u(2) rest_timer(2) [OF fu u(5)] by (simp add: s'_def)
  also have "\<dots> = Some s'" by (rule rest_timer(4)) (use fu in \<open>simp_all add: s'_def Distribute_leave_def\<close>)
  finally have alone: "DistributeReservedJob limit alive t s = Some s'"
    by (simp add: DistributeReservedJob_def now_def s1_def)
  have tm: "timer s' = Distribute t alive now (timer s)"
    using False by (simp add: s'_def u(4) s2_def s1_def Distribute_def Let_def due_def)
  have "quiet ts s'" using u(3) by (simp add: s'_def quiet_def)
  moreover have "executed (queues s' p) =
      executed (queues s p) @ map (job \<circ> jobData) (filter (\<lambda>x. owner (jobData x) = p \<and> alive p) due)" for p
    using u(6) q2(2) by (simp add: s'_def)
  ultimately show ?thesis using alone run tm unfolding due_def now_def by blast
qed

lemma Distribute_fields:
  assumes "\<not> distributing tm"
  shows "\<not> distributing (Distribute t alive now tm)" and "items (Distribute t alive now tm) = snd (take_due now (items tm))"
  using assms by (simp_all add: Distribute_def Let_def Distribute_leave_def hand_all_fields Distribute_take_def Distribute_enter_def case_prod_beta)

text \<open>
  C24: \<open>DistributeReservedJob\<close> returns and has run what is due. When no call is active and the global queue is empty, a thread that calls it
  and is left alone, by the others and by the jobs, returns after finitely many of its steps. Its effect on the timer is the
  one of \<open>Distribute\<close> at the tick it read; it has run every due job whose queue is alive, the earliest first, on the queue the job was
  reserved for, and nothing else; the items of a later tick stay reserved and the system is idle again. Whatever the end tick is, the
  jobs run inside the call. While another thread distributes, the call does nothing.
\<close>
theorem DistributeReservedJob_runs_due:
  assumes "js_reachable ts limit s" and "distinct ts" and "t \<in> set ts" and "quiet ts s" and "phase (timer s) t = Outside"
  shows "if distributing (timer s) then DistributeReservedJob limit alive t s = Some s
    else \<exists>s' due. DistributeReservedJob limit alive t s = Some s' \<and> (js_step ts limit)\<^sup>*\<^sup>* s s' \<and> quiet ts s' \<and>
      timer s' = Distribute t alive (GetTickCount64 s) (timer s) \<and> \<not> distributing (timer s') \<and> sorted (map executeTick due) \<and>
      mset due = filter_mset (\<lambda>x. executeTick x \<le> GetTickCount64 s) (mset (items (timer s))) \<and>
      mset (items (timer s')) = filter_mset (\<lambda>x. GetTickCount64 s < executeTick x) (mset (items (timer s))) \<and>
      (\<forall>p. executed (queues s' p) =
         executed (queues s p) @ map (job \<circ> jobData) (filter (\<lambda>x. owner (jobData x) = p \<and> alive p) due))"
proof (cases "distributing (timer s)")
  case True
  have "call_stack s t = []" using assms(3,4) by (simp add: quiet_def)
  then show ?thesis using True rest_timer(4) [OF _ assms(5)] by (simp add: DistributeReservedJob_def Distribute_enter_def)
next
  case False
  let ?now = "GetTickCount64 s"
  obtain s' where s': "DistributeReservedJob limit alive t s = Some s'" "(js_step ts limit)\<^sup>*\<^sup>* s s'" "quiet ts s'"
    "timer s' = Distribute t alive ?now (timer s)"
    "\<forall>p. executed (queues s' p) = executed (queues s p) @
       map (job \<circ> jobData) (filter (\<lambda>x. owner (jobData x) = p \<and> alive p) (fst (take_due ?now (items (timer s)))))"
    using DistributeReservedJob_alone [OF assms False, of alive] by blast
  note due = tq.due_sorted [of ?now "items (timer s)"] tq.due_bags [of ?now "items (timer s)"]
  have "\<not> distributing (timer s')" "items (timer s') = snd (take_due ?now (items (timer s)))"
    unfolding s'(4) using Distribute_fields [OF False] by blast+
  then show ?thesis using False s' due
    by (simp only: if_False, intro exI [of _ s'] exI [of _ "fst (take_due ?now (items (timer s)))"]) simp
qed

section \<open>Scripted runs\<close>

datatype 'j js_choice =
    Tick "64 word"
  | Async nat nat 'j bool
  | Timer nat "64 word" nat 'j
  | Work nat
  | Go nat                  \<comment> \<open>a thread goes on: its innermost call, else its distribution\<close>

fun js_do :: "nat list \<Rightarrow> (nat \<Rightarrow> 64 word) \<Rightarrow> 'j js_choice \<Rightarrow> 'j job_system \<Rightarrow> 'j job_system option" where
  "js_do ts limit (Tick c) s = (if GetTickCount64 s \<le> c then Some (s\<lparr>GetTickCount64 := c\<rparr>) else None)"
| "js_do ts limit (Async t q j pushOnly) s =
     (if t \<in> set ts \<and> may_call s t then Some (DoAsync t q j pushOnly s) else None)"
| "js_do ts limit (Timer t tickAfter q j) s =
     (if t \<in> set ts \<and> may_call s t then Some (DoTimer tickAfter q j s) else None)"
| "js_do ts limit (Work t) s = (if t \<in> set ts \<and> idle s t then Some (DoGlobalQueueWork limit t s) else None)"
| "js_do ts limit (Go t) s =
     (if t \<notin> set ts then None
      else if call_stack s t \<noteq> [] then continue_call limit t s
      else (case phase (timer s) t of
              Outside \<Rightarrow> Some (s\<lparr>timer := Distribute_enter t (timer s)\<rparr>)
            | Entered \<Rightarrow> Some (s\<lparr>timer := Distribute_take t (GetTickCount64 s) (timer s)\<rparr>)
            | Handing [] \<Rightarrow> Some (s\<lparr>timer := Distribute_leave t (timer s)\<rparr>)
            | Handing (x # xs) \<Rightarrow> Some (hand_item t True x xs s)))"

fun js_script :: "nat list \<Rightarrow> (nat \<Rightarrow> 64 word) \<Rightarrow> 'j js_choice list \<Rightarrow> 'j job_system \<Rightarrow> 'j job_system option" where
  "js_script ts limit [] s = Some s"
| "js_script ts limit (c # cs) s = (case js_do ts limit c s of None \<Rightarrow> None | Some s' \<Rightarrow> js_script ts limit cs s')"

lemma js_do_step: "js_do ts limit c s = Some s' \<Longrightarrow> js_step ts limit s s'"
  by (cases c) (auto intro: js_step.intros simp: idle_def split: if_splits dist_phase.splits list.splits)

lemma js_script_run: "js_script ts limit cs s = Some s' \<Longrightarrow> (js_step ts limit)\<^sup>*\<^sup>* s s'"
proof (induction cs arbitrary: s)
  case (Cons c cs)
  then obtain u where "js_do ts limit c s = Some u" "js_script ts limit cs u = Some s'" by (auto split: option.splits)
  then show ?case using Cons.IH js_do_step by (metis converse_rtranclp_into_rtranclp)
qed simp

lemma js_script_reachable: "js_script ts limit cs (job_system tick) = Some s \<Longrightarrow> js_reachable ts limit s"
proof -
  assume "js_script ts limit cs (job_system tick) = Some s"
  then have "(js_step ts limit)\<^sup>*\<^sup>* (job_system tick) s" by (rule js_script_run)
  then show ?thesis by (induction rule: rtranclp_induct) (auto intro: js_init js_next)
qed

section \<open>Examples\<close>

text \<open>
  A job of queue 0 pushes a job on queue 1, which another one was reserved for; thread 1 takes queue 1 from the
  global queue.
\<close>

definition demo_system :: "nat js_choice list" where
  "demo_system = [Timer 0 5 1 8, Async 0 0 7 False, Go 0, Go 0, Async 0 1 9 False, Go 0, Go 0, Go 0, Go 0, Tick 110,
     Go 0, Go 0, Go 0, Go 0, Go 0, Work 1, Go 1, Go 1, Go 1, Go 1]"

definition demo_end :: "nat job_system" where
  "demo_end = the (js_script [0, 1] (\<lambda>_. 1000) demo_system (job_system 100))"

lemma given_jobs_run_once_witness:
  "executed (queues demo_end 1) = [9, 8] \<and> direct demo_end = [(0, 7), (1, 9)] \<and> map item_push (handed demo_end) = [(1, 8)] \<and>
   count_list (executed (queues demo_end 1)) 8 = count_list (direct demo_end) (1, 8) + count_list (map item_push (handed demo_end)) (1, 8)"
proof -
  have s: "js_script [0, 1] (\<lambda>_. 1000) demo_system (job_system 100) \<noteq> None" "executed (queues demo_end 1) = [9, 8]"
    "direct demo_end = [(0, 7), (1, 9)]" "map item_push (handed demo_end) = [(1, 8)]"
    "call_stack demo_end 0 = []" "call_stack demo_end 1 = []" "global_queue demo_end = []"
    by code_simp+
  then have "js_reachable [0, 1] (\<lambda>_. 1000) demo_end" unfolding demo_end_def by (intro js_script_reachable) simp
  from given_jobs_run_once [OF this, of 1 8] s show ?thesis by simp
qed

definition demo_late :: "nat job_system" where
  "demo_late = the (js_script [0, 1] (\<lambda>_. LEndTickCount) [Async 0 0 1 False, Go 0, Go 0, Async 1 0 2 False, Go 1] (job_system 100))"

definition demo_stuck :: "nat job_system" where
  "demo_stuck = the (js_script [0, 1] (\<lambda>_. LEndTickCount) [Go 0, Go 0, Go 0, Go 0, Work 1] demo_late)"

lemma late_jobs_never_run_witness:
  "pushed (queues demo_stuck 0) = [1, 2] \<and> global_queue demo_stuck = [Some 0] \<and>
   (\<exists>rest. [1] = executed (queues demo_stuck 0) @ rest)"
proof -
  have n: "js_script [0, 1] (\<lambda>_. LEndTickCount) [Async 0 0 (1 :: nat) False, Go 0, Go 0, Async 1 0 2 False, Go 1] (job_system 100) \<noteq> None"
    "js_script [0, 1] (\<lambda>_. LEndTickCount) [Go 0, Go 0, Go 0, Go 0, Work 1] demo_late \<noteq> None"
    by code_simp+
  have s: "js_script [0, 1] (\<lambda>_. LEndTickCount) [Async 0 0 1 False, Go 0, Go 0, Async 1 0 2 False, Go 1] (job_system 100) = Some demo_late"
    "js_script [0, 1] (\<lambda>_. LEndTickCount) [Go 0, Go 0, Go 0, Go 0, Work 1] demo_late = Some demo_stuck"
    using option.collapse [OF n(1)] option.collapse [OF n(2)] by (simp_all only: demo_late_def demo_stuck_def)
  have f: "frames (queues demo_late 0) 0 = [Running [1] 1]" "jobs (queues demo_late 0) \<noteq> []" "0 < GetTickCount64 demo_late"
    "executed (queues demo_late 0) = []" "pushed (queues demo_stuck 0) = [1, 2]" "global_queue demo_stuck = [Some 0]"
    by code_simp+
  have "\<exists>rest. executed (queues demo_late 0) @ [1] = executed (queues demo_stuck 0) @ rest"
    by (rule late_jobs_never_run [OF js_script_reachable [OF s(1)] _ f(3), where t = 0 and n = 1])
      (use f js_script_run [OF s(2)] in simp_all)
  then show ?thesis using f by simp
qed

definition demo_due :: "nat job_system" where
  "demo_due = the (js_script [0, 1] (\<lambda>_. LEndTickCount) [Timer 0 5 1 8, Timer 0 2 0 7, Timer 1 50 1 6, Tick 110] (job_system 100))"

lemma DistributeReservedJob_runs_due_witness:
  "\<exists>s'. DistributeReservedJob (\<lambda>_. LEndTickCount) (\<lambda>_. True) 0 demo_due = Some s' \<and> length (items (timer s')) = 1 \<and>
     executed (queues s' 0) = [7] \<and> executed (queues s' 1) = [8]"
proof -
  have "js_script [0, 1] (\<lambda>_. LEndTickCount) [Timer 0 5 1 8, Timer 0 2 0 (7 :: nat), Timer 1 50 1 6, Tick 110] (job_system 100) \<noteq> None"
    by code_simp
  then have s: "js_script [0, 1] (\<lambda>_. LEndTickCount) [Timer 0 5 1 8, Timer 0 2 0 7, Timer 1 50 1 6, Tick 110] (job_system 100) = Some demo_due"
    unfolding demo_due_def by (rule option.collapse [symmetric])
  have f: "quiet [0, 1] demo_due" "phase (timer demo_due) 0 = Outside" "\<not> distributing (timer demo_due)" "GetTickCount64 demo_due = 110"
    "map executeTick (items (timer demo_due)) = [105, 102, 150]"
    "map item_push (items (timer demo_due)) = [(1, 8), (0, 7), (1, 6)]"
    "executed (queues demo_due 0) = []" "executed (queues demo_due 1) = []"
    by code_simp+
  obtain a b c where its: "items (timer demo_due) = [a, b, c]" using f(5) by (auto simp: map_eq_Cons_conv)
  then have t: "executeTick a = 105" "executeTick b = 102" "executeTick c = 150" and p: "item_push a = (1, 8)" "item_push b = (0, 7)"
    using f(5,6) by simp_all
  obtain s' due where run: "DistributeReservedJob (\<lambda>_. LEndTickCount) (\<lambda>_. True) 0 demo_due = Some s'" "sorted (map executeTick due)"
    "mset due = filter_mset (\<lambda>x. executeTick x \<le> 110) (mset [a, b, c])"
    "mset (items (timer s')) = filter_mset (\<lambda>x. 110 < executeTick x) (mset [a, b, c])"
    "\<forall>p. executed (queues s' p) = executed (queues demo_due p) @ map (job \<circ> jobData) (filter (\<lambda>x. owner (jobData x) = p \<and> True) due)"
    using DistributeReservedJob_runs_due [OF js_script_reachable [OF s] _ _ f(1,2), of "\<lambda>_. True"] f(3) unfolding f(4) its by auto
  have due: "mset due = {#a, b#}" "mset (items (timer s')) = {#c#}" using run(3,4) t by simp_all
  then have "length (items (timer s')) = 1" by (metis size_mset size_single)
  moreover have "due = [b, a]"
  proof -
    have "length due = 2" using due(1) by (metis size_mset size_add_mset size_empty One_nat_def Suc_1)
    then obtain x y where xy: "due = [x, y]" by (auto simp: length_Suc_conv numeral_2_eq_2)
    then show ?thesis using due(1) run(2) t by (auto simp: add_eq_conv_ex)
  qed
  ultimately show ?thesis using run(1,5) p f(7,8) by (intro exI [of _ s']) simp
qed

end
