(* ===== verification/Shared_Objects.thy ===== *)
theory Shared_Objects
  imports Memory_Pools "HOL-Library.Multiset"
begin

text \<open>
  Objects on the program's own memory: \<open>xnew\<close>, \<open>xdelete\<close> and \<open>MakeShared\<close> of \<open>Memory.h\<close> over the allocators of
  Memory_Pools, and the end of the pools (\<open>~Memory\<close>, \<open>~MemoryPool\<close>). The operating system is a parameter: the
  address of every block it hands out. What is assumed of it is what its documentation promises, that a block
  has the size asked for, lies apart from every block not yet given back, and begins a page when pages are asked for.
\<close>

section \<open>Operations\<close>

text \<open>\<open>BaseAllocator\<close> is \<open>malloc\<close> and \<open>free\<close>, without a header.\<close>

definition BaseAllocator_Alloc :: "int \<Rightarrow> int32 \<Rightarrow> heap \<Rightarrow> int \<times> heap" where
  "BaseAllocator_Alloc fresh sz h = (fresh, h)"

definition BaseAllocator_Release :: "int \<Rightarrow> heap \<Rightarrow> heap" where
  "BaseAllocator_Release ptr h = h\<lparr>freed := freed h @ [ptr]\<rparr>"

text \<open>The constructor and the destructor of the object leave the memory of the allocators alone.\<close>

definition xnew :: "bool \<Rightarrow> int \<Rightarrow> int32 \<Rightarrow> heap \<Rightarrow> (int \<times> heap) res" where
  "xnew stomp fresh sizeof_Type h = PoolAllocator_Alloc stomp fresh sizeof_Type h"

definition xdelete :: "bool \<Rightarrow> int \<Rightarrow> heap \<Rightarrow> heap res" where
  "xdelete stomp obj h = PoolAllocator_Release stomp obj h"

text \<open>\<open>~MemoryPool\<close> frees what is in its list, \<open>~Memory\<close> deletes every pool.\<close>

definition delete_pool :: "nat \<Rightarrow> heap \<Rightarrow> heap" where
  "delete_pool k h =
     h\<lparr>pool_states := (pool_states h)(k := (pool_states h k)\<lparr>slist := []\<rparr>), freed := freed h @ slist (pool_states h k)\<rparr>"

definition Memory_destructor :: "heap \<Rightarrow> heap" where
  "Memory_destructor h = fold delete_pool [0..<length (pools Memory)] h"

definition Memory_heap :: heap where
  "Memory_heap = \<lparr>pool_states = (\<lambda>k. MemoryPool (int (pools Memory ! k))), headers = (\<lambda>_. 0), freed = []\<rparr>"

record object_heap =
  heap_of :: heap
  objects :: "(int \<times> int32) list"      \<comment> \<open>address and size of every object alive\<close>
  use_count :: "int \<Rightarrow> nat"             \<comment> \<open>the \<open>shared_ptr\<close>s of an object\<close>
  os_blocks :: "(int \<times> int) list"      \<comment> \<open>ghost: blocks of the operating system not given back\<close>

definition object_heap :: object_heap where
  "object_heap = \<lparr>heap_of = Memory_heap, objects = [], use_count = (\<lambda>_. 0), os_blocks = []\<rparr>"

text \<open>The size of the block behind an object, and whether it is asked for now.\<close>

definition block_size :: "bool \<Rightarrow> int32 \<Rightarrow> int option" where
  "block_size stomp sz =
     (let n = sz + sizeof_MemoryHeader in
      if stomp then Some (stomp_pages n * PAGE_SIZE)
      else if int MAX_ALLOC_SIZE < n then Some n
      else map_option (\<lambda>k. int (pools Memory ! k)) (poolTable Memory (nat n)))"

definition os_asked :: "bool \<Rightarrow> int32 \<Rightarrow> heap \<Rightarrow> bool" where
  "os_asked stomp sz h \<longleftrightarrow>
     (let n = sz + sizeof_MemoryHeader in
      stomp \<or> int MAX_ALLOC_SIZE < n \<or>
      (case poolTable Memory (nat n) of None \<Rightarrow> False | Some k \<Rightarrow> slist (pool_states h k) = []))"

definition MakeShared :: "bool \<Rightarrow> int \<Rightarrow> int32 \<Rightarrow> object_heap \<Rightarrow> (int \<times> object_heap) res" where
  "MakeShared stomp fresh sizeof_Type s =
     and_then (xnew stomp fresh sizeof_Type (heap_of s)) (\<lambda>(ptr, h).
       Inr (ptr, s\<lparr>heap_of := h, objects := (ptr, sizeof_Type) # objects s, use_count := (use_count s)(ptr := 1),
         os_blocks := (if os_asked stomp sizeof_Type (heap_of s)
           then (fresh, the (block_size stomp sizeof_Type)) # os_blocks s else os_blocks s)\<rparr>))"

definition copy_shared :: "int \<Rightarrow> object_heap \<Rightarrow> object_heap" where
  "copy_shared ptr s = s\<lparr>use_count := (use_count s)(ptr := Suc (use_count s ptr))\<rparr>"

text \<open>The last owner runs the deleter \<open>xdelete\<close>.\<close>

definition drop_shared :: "bool \<Rightarrow> int \<Rightarrow> object_heap \<Rightarrow> object_heap res" where
  "drop_shared stomp ptr s =
     (if use_count s ptr = 1
      then and_then (xdelete stomp ptr (heap_of s)) (\<lambda>h.
        Inr (s\<lparr>heap_of := h, objects := filter (\<lambda>(p, _). p \<noteq> ptr) (objects s), use_count := (use_count s)(ptr := 0),
          os_blocks := (if freed h = freed (heap_of s) then os_blocks s
            else filter (\<lambda>(b, _). b \<noteq> last (freed h)) (os_blocks s))\<rparr>))
      else Inr (s\<lparr>use_count := (use_count s)(ptr := use_count s ptr - 1)\<rparr>))"

text \<open>What the operating system promises of a new block of \<open>n\<close> bytes.\<close>

definition os_fresh :: "bool \<Rightarrow> int \<Rightarrow> int \<Rightarrow> (int \<times> int) list \<Rightarrow> bool" where
  "os_fresh stomp fresh n blocks \<longleftrightarrow> (stomp \<longrightarrow> fresh mod PAGE_SIZE = 0) \<and>
     (\<forall>(b, m) \<in> set blocks. fresh + n \<le> b \<or> b + m \<le> fresh)"

inductive object_step :: "bool \<Rightarrow> object_heap \<Rightarrow> object_heap \<Rightarrow> bool" for stomp where
  os_make: "0 < sz \<Longrightarrow> (os_asked stomp sz (heap_of s) \<Longrightarrow> os_fresh stomp fresh (the (block_size stomp sz)) (os_blocks s)) \<Longrightarrow>
    MakeShared stomp fresh sz s = Inr (ptr, s') \<Longrightarrow> object_step stomp s s'"
| os_copy: "0 < use_count s ptr \<Longrightarrow> object_step stomp s (copy_shared ptr s)"
| os_drop: "0 < use_count s ptr \<Longrightarrow> drop_shared stomp ptr s = Inr s' \<Longrightarrow> object_step stomp s s'"

inductive objects_reachable :: "bool \<Rightarrow> object_heap \<Rightarrow> bool" for stomp where
  objects_init: "objects_reachable stomp object_heap"
| objects_next: "objects_reachable stomp s \<Longrightarrow> object_step stomp s s' \<Longrightarrow> objects_reachable stomp s'"

section \<open>The invariant\<close>

text \<open>The address of the system's block an object lies in, and the blocks waiting in the pools.\<close>

definition base :: "bool \<Rightarrow> int \<Rightarrow> int" where
  "base stomp ptr = (if stomp then stomp_Release (DetachHeader ptr) else DetachHeader ptr)"

definition pooled :: "heap \<Rightarrow> int list" where
  "pooled h = concat (map (\<lambda>k. slist (pool_states h k)) [0..<length (pools Memory)])"

definition block_ok :: "bool \<Rightarrow> object_heap \<Rightarrow> int \<times> int32 \<Rightarrow> bool" where
  "block_ok stomp s = (\<lambda>(ptr, sz). 0 < sz \<and> headers (heap_of s) (DetachHeader ptr) = sz + sizeof_MemoryHeader \<and>
     (\<exists>n. block_size stomp sz = Some n \<and> (base stomp ptr, n) \<in> set (os_blocks s) \<and> (stomp \<longrightarrow> ptr + sz = base stomp ptr + n)))"

definition apart :: "int \<times> int \<Rightarrow> int \<times> int \<Rightarrow> bool" where
  "apart x y \<longleftrightarrow> fst x + snd x \<le> fst y \<or> fst y + snd y \<le> fst x"

definition objects_inv :: "bool \<Rightarrow> object_heap \<Rightarrow> bool" where
  "objects_inv stomp s \<longleftrightarrow>
     (\<forall>x \<in> set (objects s). block_ok stomp s x) \<and>
     (\<forall>k < length (pools Memory). blockSize (pool_states (heap_of s) k) = int (pools Memory ! k) \<and>
        (\<forall>m \<in> set (slist (pool_states (heap_of s) k)).
           headers (heap_of s) m = 0 \<and> (m, int (pools Memory ! k)) \<in> set (os_blocks s))) \<and>
     mset (map fst (os_blocks s)) = mset (map (base stomp \<circ> fst) (objects s)) + mset (pooled (heap_of s)) \<and>
     distinct (map fst (os_blocks s)) \<and>
     (\<forall>x \<in> set (os_blocks s). \<forall>y \<in> set (os_blocks s). fst x \<noteq> fst y \<longrightarrow> apart x y) \<and>
     (\<forall>x \<in> set (os_blocks s). 0 < snd x) \<and>
     (\<forall>p. 0 < use_count s p \<longleftrightarrow> p \<in> fst ` set (objects s)) \<and> (stomp \<longrightarrow> pooled (heap_of s) = [])"

lemma table_index:
  assumes "poolTable Memory i = Some k"
  shows "k < length (pools Memory)" and "i \<le> pools Memory ! k"
proof -
  have "i < tableIndex Memory" using assms Memory_facts(1) unfolding table_inv_def by (metis not_le option.distinct(1))
  then show "k < length (pools Memory)" "i \<le> pools Memory ! k"
    using assms Memory_facts(1) unfolding table_inv_def best_pool_def by fastforce+
qed

lemma block_size_fits:
  assumes "0 < sz" and "block_size stomp sz = Some n"
  shows "sz + sizeof_MemoryHeader \<le> n"
proof -
  have pos: "0 < sz + sizeof_MemoryHeader" using assms(1) by (simp add: sizeof_MemoryHeader_def)
  consider "stomp" | "\<not> stomp" "int MAX_ALLOC_SIZE < sz + sizeof_MemoryHeader"
    | "\<not> stomp" "\<not> int MAX_ALLOC_SIZE < sz + sizeof_MemoryHeader" by blast
  then show ?thesis
  proof cases
    case 1
    then have "n = stomp_pages (sz + sizeof_MemoryHeader) * PAGE_SIZE" using assms(2) by (simp add: block_size_def Let_def)
    then show ?thesis using stomp_offset(1) [OF pos] by simp
  next
    case 2
    then show ?thesis using assms(2) by (simp add: block_size_def Let_def)
  next
    case 3
    then obtain k where "poolTable Memory (nat (sz + sizeof_MemoryHeader)) = Some k" "n = int (pools Memory ! k)"
      using assms(2) by (auto simp: block_size_def Let_def)
    then show ?thesis using table_index(2) pos by fastforce
  qed
qed

text \<open>What \<open>xnew\<close> does when it asks the system, and when a pool has a block.\<close>

lemma xnew_asked:
  assumes "os_asked stomp sz h"
  shows "\<exists>n h'. block_size stomp sz = Some n \<and>
    xnew stomp fresh sz h = Inr ((if stomp then stomp_Alloc fresh (sz + sizeof_MemoryHeader) else fresh) + sizeof_MemoryHeader, h') \<and>
    headers h' = (headers h)((if stomp then stomp_Alloc fresh (sz + sizeof_MemoryHeader) else fresh) := sz + sizeof_MemoryHeader) \<and>
    (\<forall>k. slist (pool_states h' k) = slist (pool_states h k) \<and> blockSize (pool_states h' k) = blockSize (pool_states h k)) \<and>
    freed h' = freed h"
proof -
  consider "stomp" | "\<not> stomp" "int MAX_ALLOC_SIZE < sz + sizeof_MemoryHeader"
    | k where "\<not> stomp" "\<not> int MAX_ALLOC_SIZE < sz + sizeof_MemoryHeader"
      "poolTable Memory (nat (sz + sizeof_MemoryHeader)) = Some k" "slist (pool_states h k) = []"
    using assms by (auto simp: os_asked_def Let_def split: option.splits)
  then show ?thesis
    by cases (auto simp: block_size_def xnew_def PoolAllocator_Alloc_def Allocate_def AttachHeader_def pool_Pop_def Let_def)
qed

lemma xnew_pooled:
  assumes "\<not> os_asked stomp sz h" and "xnew stomp fresh sz h = Inr (ptr, h')"
  shows "\<exists>k m rest. \<not> stomp \<and> \<not> int MAX_ALLOC_SIZE < sz + sizeof_MemoryHeader \<and>
    poolTable Memory (nat (sz + sizeof_MemoryHeader)) = Some k \<and> slist (pool_states h k) = m # rest \<and>
    ptr = m + sizeof_MemoryHeader \<and> headers h' = (headers h)(m := sz + sizeof_MemoryHeader) \<and>
    (\<forall>i. slist (pool_states h' i) = (if i = k then rest else slist (pool_states h i)) \<and>
       blockSize (pool_states h' i) = blockSize (pool_states h i)) \<and> freed h' = freed h"
proof -
  have n: "\<not> stomp" "\<not> int MAX_ALLOC_SIZE < sz + sizeof_MemoryHeader" using assms(1) by (auto simp: os_asked_def Let_def)
  then obtain k where k: "poolTable Memory (nat (sz + sizeof_MemoryHeader)) = Some k"
    using assms(2) by (auto simp: xnew_def PoolAllocator_Alloc_def Allocate_def Let_def split: option.splits)
  then obtain m rest where "slist (pool_states h k) = m # rest"
    using assms(1) n by (cases "slist (pool_states h k)") (auto simp: os_asked_def Let_def)
  then show ?thesis
    using assms(2) n k
    by (auto simp: xnew_def PoolAllocator_Alloc_def Allocate_def AttachHeader_def pool_Pop_def assert_crash_def Let_def split: if_splits)
qed

text \<open>What \<open>xdelete\<close> does to a block with a header: it goes to its pool or to the system.\<close>

lemma xdelete_result:
  assumes "0 < sz" and "headers h (DetachHeader ptr) = sz + sizeof_MemoryHeader" and "block_size stomp sz = Some n"
  shows "\<exists>h'. xdelete stomp ptr h = Inr h' \<and>
    (if stomp \<or> int MAX_ALLOC_SIZE < sz + sizeof_MemoryHeader
     then freed h' = freed h @ [base stomp ptr] \<and> headers h' = headers h \<and> pool_states h' = pool_states h
     else freed h' = freed h \<and> headers h' = (headers h)(DetachHeader ptr := 0) \<and>
       (\<exists>k. poolTable Memory (nat (sz + sizeof_MemoryHeader)) = Some k \<and> n = int (pools Memory ! k) \<and>
         (\<forall>i. slist (pool_states h' i) = (if i = k then DetachHeader ptr # slist (pool_states h i) else slist (pool_states h i)) \<and>
           blockSize (pool_states h' i) = blockSize (pool_states h i))))"
proof -
  have pos: "0 < sz + sizeof_MemoryHeader" using assms(1) by (simp add: sizeof_MemoryHeader_def)
  show ?thesis
  proof (cases "stomp \<or> int MAX_ALLOC_SIZE < sz + sizeof_MemoryHeader")
    case True
    then show ?thesis using pos assms(2)
      by (auto simp: xdelete_def PoolAllocator_Release_def Release_def base_def Let_def)
  next
    case False
    then obtain k where "poolTable Memory (nat (sz + sizeof_MemoryHeader)) = Some k" "n = int (pools Memory ! k)"
      using assms(3) by (auto simp: block_size_def Let_def)
    then show ?thesis using False pos assms(2)
      by (auto simp: xdelete_def PoolAllocator_Release_def Release_def pool_Push_def Let_def)
  qed
qed

lemma pooled_upd:
  assumes "k < N"
  shows "mset (concat (map (f(k := xs)) [0..<N])) + mset (f k) = mset (concat (map f [0..<N])) + mset xs"
  using assms
proof (induction N)
  case (Suc N)
  show ?case
  proof (cases "k = N")
    case True
    then have "map (f(k := xs)) [0..<N] = map f [0..<N]" by (intro map_cong) auto
    then show ?thesis using True by (simp del: fun_upd_apply map_eq_conv add: fun_upd_same)
  next
    case False
    then show ?thesis using Suc by simp
  qed
qed simp

section \<open>Preservation\<close>

lemma apart_sym: "apart x y \<longleftrightarrow> apart y x"
  by (auto simp: apart_def)

lemma inv_objects: "objects_inv stomp s \<Longrightarrow> x \<in> set (objects s) \<Longrightarrow> block_ok stomp s x"
  by (simp add: objects_inv_def)

lemma inv_pool:
  assumes "objects_inv stomp s" and "k < length (pools Memory)"
  shows "blockSize (pool_states (heap_of s) k) = int (pools Memory ! k)"
    and "m \<in> set (slist (pool_states (heap_of s) k)) \<Longrightarrow> headers (heap_of s) m = 0 \<and> (m, int (pools Memory ! k)) \<in> set (os_blocks s)"
  using assms by (simp_all add: objects_inv_def)

lemma inv_blocks:
  assumes "objects_inv stomp s"
  shows "mset (map fst (os_blocks s)) = mset (map (base stomp \<circ> fst) (objects s)) + mset (pooled (heap_of s))"
    and "distinct (map fst (os_blocks s))"
    and "x \<in> set (os_blocks s) \<Longrightarrow> y \<in> set (os_blocks s) \<Longrightarrow> fst x \<noteq> fst y \<Longrightarrow> apart x y"
    and "x \<in> set (os_blocks s) \<Longrightarrow> 0 < snd x"
    and "0 < use_count s p \<longleftrightarrow> p \<in> fst ` set (objects s)" and "stomp \<Longrightarrow> pooled (heap_of s) = []"
  using assms unfolding objects_inv_def by blast+

text \<open>The blocks of the objects and the pooled blocks are all different.\<close>

lemma inv_distinct:
  assumes "objects_inv stomp s"
  shows "distinct (map (base stomp \<circ> fst) (objects s))" and "set (map (base stomp \<circ> fst) (objects s)) \<inter> set (pooled (heap_of s)) = {}"
    and "distinct (pooled (heap_of s))"
    and "set (map fst (os_blocks s)) = set (map (base stomp \<circ> fst) (objects s)) \<union> set (pooled (heap_of s))"
proof -
  have m: "mset (map fst (os_blocks s)) = mset (map (base stomp \<circ> fst) (objects s) @ pooled (heap_of s))"
    using inv_blocks(1) [OF assms] by simp
  then have "distinct (map (base stomp \<circ> fst) (objects s) @ pooled (heap_of s))"
    using inv_blocks(2) [OF assms] by (metis mset_eq_imp_distinct_iff)
  then show "distinct (map (base stomp \<circ> fst) (objects s))" "distinct (pooled (heap_of s))"
    "set (map (base stomp \<circ> fst) (objects s)) \<inter> set (pooled (heap_of s)) = {}" by (simp_all del: map_map)
  show "set (map fst (os_blocks s)) = set (map (base stomp \<circ> fst) (objects s)) \<union> set (pooled (heap_of s))"
    using m by (metis set_append set_mset_mset)
qed

lemma in_pooled: "k < length (pools Memory) \<Longrightarrow> m \<in> set (slist (pool_states h k)) \<Longrightarrow> m \<in> set (pooled h)"
  by (auto simp: pooled_def)

lemma pooled_cong: "\<forall>k. slist (pool_states h' k) = slist (pool_states h k) \<Longrightarrow> pooled h' = pooled h"
  by (simp add: pooled_def)

lemma base_new:
  assumes "0 < sz" and "stomp \<longrightarrow> fresh mod PAGE_SIZE = 0"
  shows "base stomp ((if stomp then stomp_Alloc fresh (sz + sizeof_MemoryHeader) else fresh) + sizeof_MemoryHeader) = fresh"
  using assms stomp_released_base [of "sz + sizeof_MemoryHeader" fresh]
  by (simp add: base_def DetachHeader_def sizeof_MemoryHeader_def)

text \<open>An object whose block lies elsewhere does not notice a new header.\<close>

lemma block_ok_other:
  assumes "block_ok stomp s (p, sz)" and "base stomp p \<noteq> base stomp q"
    and "headers (heap_of s') = (headers (heap_of s))(DetachHeader q := v) \<or> headers (heap_of s') = headers (heap_of s)"
    and "(base stomp p, the (block_size stomp sz)) \<in> set (os_blocks s) \<Longrightarrow> (base stomp p, the (block_size stomp sz)) \<in> set (os_blocks s')"
  shows "block_ok stomp s' (p, sz)"
proof -
  have "DetachHeader p \<noteq> DetachHeader q" using assms(2) by (auto simp: DetachHeader_def)
  then show ?thesis using assms(1,3,4) by (auto simp: block_ok_def)
qed

lemma make_asked_inv:
  assumes inv: "objects_inv stomp s" and sz: "0 < sz" and asked: "os_asked stomp sz (heap_of s)"
    and fresh: "os_fresh stomp fresh (the (block_size stomp sz)) (os_blocks s)"
    and make: "MakeShared stomp fresh sz s = Inr (ptr, s')"
  shows "objects_inv stomp s'"
proof -
  obtain n h' where n: "block_size stomp sz = Some n" and x: "xnew stomp fresh sz (heap_of s) =
      Inr ((if stomp then stomp_Alloc fresh (sz + sizeof_MemoryHeader) else fresh) + sizeof_MemoryHeader, h')"
    and hd: "headers h' = (headers (heap_of s))((if stomp then stomp_Alloc fresh (sz + sizeof_MemoryHeader) else fresh) := sz + sizeof_MemoryHeader)"
    and pl: "\<forall>k. slist (pool_states h' k) = slist (pool_states (heap_of s) k) \<and> blockSize (pool_states h' k) = blockSize (pool_states (heap_of s) k)"
    using xnew_asked [OF asked] by blast
  have ptr: "ptr = (if stomp then stomp_Alloc fresh (sz + sizeof_MemoryHeader) else fresh) + sizeof_MemoryHeader"
    and s': "s' = s\<lparr>heap_of := h', objects := (ptr, sz) # objects s, use_count := (use_count s)(ptr := 1), os_blocks := (fresh, n) # os_blocks s\<rparr>"
    using make x asked n by (auto simp: MakeShared_def)
  have b: "base stomp ptr = fresh" using base_new [OF sz, of stomp fresh] fresh unfolding ptr os_fresh_def by blast
  have hd': "headers h' = (headers (heap_of s))(DetachHeader ptr := sz + sizeof_MemoryHeader)"
    by (simp add: hd ptr DetachHeader_def)
  have npos: "0 < n" using block_size_fits [OF sz n] sz by (simp add: sizeof_MemoryHeader_def)
  have far: "apart (fresh, n) y" "fst y \<noteq> fresh" if "y \<in> set (os_blocks s)" for y
    using that fresh n npos inv_blocks(4) [OF inv that] by (cases y; force simp: os_fresh_def apart_def)+
  have "stomp \<longrightarrow> ptr + sz = fresh + n" using n by (auto simp: ptr stomp_Alloc_def block_size_def Let_def)
  then have new: "block_ok stomp s' (ptr, sz)" using sz n hd' b by (cases stomp) (auto simp: block_ok_def s')
  have out: "fresh \<notin> set (map fst (os_blocks s))" using far(2) by auto
  have old: "block_ok stomp s' x" if "x \<in> set (objects s)" for x
  proof (cases x)
    case (Pair p t)
    have "base stomp p \<in> set (map fst (os_blocks s))" using inv_distinct(4) [OF inv] that Pair by force
    then have "base stomp p \<noteq> base stomp ptr" using out b by metis
    then show ?thesis using inv_objects [OF inv that] Pair hd' by (auto intro: block_ok_other simp: s')
  qed
  have pool: "blockSize (pool_states h' k) = int (pools Memory ! k) \<and>
      (\<forall>m \<in> set (slist (pool_states h' k)). headers h' m = 0 \<and> (m, int (pools Memory ! k)) \<in> set (os_blocks s'))"
    if k: "k < length (pools Memory)" for k
  proof -
    have "m \<noteq> DetachHeader ptr" if "m \<in> set (slist (pool_states (heap_of s) k))" for m
    proof (cases stomp)
      case True
      then show ?thesis using inv_blocks(6) [OF inv] in_pooled [OF k that] by simp
    next
      case False
      have "m \<in> set (map fst (os_blocks s))" using inv_pool(2) [OF inv k that] by force
      then have "m \<noteq> fresh" using out by metis
      then show ?thesis using b False by (simp add: base_def)
    qed
    then show ?thesis using inv_pool [OF inv k] pl hd' by (auto simp: s')
  qed
  have "pooled h' = pooled (heap_of s)" using pl by (intro pooled_cong) simp
  then have m: "mset (map fst (os_blocks s')) = mset (map (base stomp \<circ> fst) (objects s')) + mset (pooled (heap_of s'))"
    using inv_blocks(1) [OF inv] b by (simp add: s')
  have "0 < use_count s' p \<longleftrightarrow> p \<in> fst ` set (objects s')" for p
    using inv_blocks(5) [OF inv, of p] by (auto simp: s')
  moreover have "apart x y" if "x \<in> set (os_blocks s')" "y \<in> set (os_blocks s')" "fst x \<noteq> fst y" for x y
  proof -
    have "x = (fresh, n) \<or> x \<in> set (os_blocks s)" "y = (fresh, n) \<or> y \<in> set (os_blocks s)" using that(1,2) by (simp_all add: s')
    then show ?thesis using that(3) far(1) inv_blocks(3) [OF inv] apart_sym by metis
  qed
  ultimately show ?thesis
    using new old pool m out inv_blocks(2,4,6) [OF inv] npos \<open>pooled h' = pooled (heap_of s)\<close>
    unfolding objects_inv_def by (auto simp: s')
qed

lemma make_pooled_inv:
  assumes inv: "objects_inv stomp s" and sz: "0 < sz" and asked: "\<not> os_asked stomp sz (heap_of s)"
    and make: "MakeShared stomp fresh sz s = Inr (ptr, s')"
  shows "objects_inv stomp s'"
proof -
  from make obtain h' where x: "xnew stomp fresh sz (heap_of s) = Inr (ptr, h')"
    and s': "s' = s\<lparr>heap_of := h', objects := (ptr, sz) # objects s, use_count := (use_count s)(ptr := 1)\<rparr>"
    using asked by (auto simp: MakeShared_def and_then_Inr_iff)
  obtain k m rest where k: "\<not> stomp" "\<not> int MAX_ALLOC_SIZE < sz + sizeof_MemoryHeader"
      "poolTable Memory (nat (sz + sizeof_MemoryHeader)) = Some k" "slist (pool_states (heap_of s) k) = m # rest"
    and ptr: "ptr = m + sizeof_MemoryHeader" and hd: "headers h' = (headers (heap_of s))(m := sz + sizeof_MemoryHeader)"
    and pl: "\<forall>i. slist (pool_states h' i) = (if i = k then rest else slist (pool_states (heap_of s) i)) \<and>
       blockSize (pool_states h' i) = blockSize (pool_states (heap_of s) i)"
    using xnew_pooled [OF asked x] by blast
  have kl: "k < length (pools Memory)" by (rule table_index(1) [OF k(3)])
  have b: "base stomp ptr = m" "DetachHeader ptr = m" using k(1) by (simp_all add: base_def DetachHeader_def ptr)
  have n: "block_size stomp sz = Some (int (pools Memory ! k))" using k(1-3) by (simp add: block_size_def Let_def)
  have mk: "m \<in> set (slist (pool_states (heap_of s) k))" using k(4) by simp
  note blk = inv_pool(2) [OF inv kl mk]
  have new: "block_ok stomp s' (ptr, sz)" using sz n hd b blk k(1) by (auto simp: block_ok_def s')
  have mp: "m \<in> set (pooled (heap_of s))" by (rule in_pooled [OF kl mk])
  have old: "block_ok stomp s' x" if "x \<in> set (objects s)" for x
  proof (cases x)
    case (Pair p t)
    have "base stomp p \<in> set (map (base stomp \<circ> fst) (objects s))" using that Pair by force
    then have "base stomp p \<noteq> m" using inv_distinct(2) [OF inv] mp by blast
    then have "base stomp p \<noteq> base stomp ptr" by (simp only: b(1) not_False_eq_True)
    then show ?thesis unfolding Pair
      by (rule block_ok_other [OF inv_objects [OF inv that, unfolded Pair], where v = "sz + sizeof_MemoryHeader"])
        (simp_all add: s' hd b(2))
  qed
  have "mset (concat (map ((\<lambda>i. slist (pool_states (heap_of s) i))(k := rest)) [0..<length (pools Memory)])) + mset (m # rest) =
      mset (pooled (heap_of s)) + mset rest"
    using pooled_upd [OF kl, of "\<lambda>i. slist (pool_states (heap_of s) i)" rest] k(4) by (simp add: pooled_def)
  moreover have "(\<lambda>i. slist (pool_states (heap_of s) i))(k := rest) = (\<lambda>i. slist (pool_states h' i))" using pl by auto
  ultimately have "mset (pooled h') + mset (m # rest) = mset (pooled (heap_of s)) + mset rest"
    unfolding pooled_def by (simp only:)
  then have pooled': "mset (pooled (heap_of s)) = mset (m # pooled h')" by simp
  have "distinct (m # pooled h')" using pooled'  inv_distinct(3) [OF inv] by (metis mset_eq_imp_distinct_iff)
  then have gone: "m \<notin> set (pooled h')" by simp
  have pool: "blockSize (pool_states h' i) = int (pools Memory ! i) \<and>
      (\<forall>x \<in> set (slist (pool_states h' i)). headers h' x = 0 \<and> (x, int (pools Memory ! i)) \<in> set (os_blocks s'))"
    if i: "i < length (pools Memory)" for i
  proof -
    have "x \<noteq> m" if "x \<in> set (slist (pool_states h' i))" for x using gone in_pooled [OF i that] by blast
    moreover have "x \<in> set (slist (pool_states (heap_of s) i))" if "x \<in> set (slist (pool_states h' i))" for x
      using that pl k(4) by (auto split: if_splits)
    ultimately show ?thesis using inv_pool [OF inv i] pl hd by (auto simp: s')
  qed
  have "mset (map fst (os_blocks s')) = mset (map (base stomp \<circ> fst) (objects s')) + mset (pooled (heap_of s'))"
    using inv_blocks(1) [OF inv] b pooled' by (simp add: s')
  moreover have "0 < use_count s' p \<longleftrightarrow> p \<in> fst ` set (objects s')" for p
    using inv_blocks(5) [OF inv, of p] by (auto simp: s')
  ultimately show ?thesis
    using new old pool inv_blocks(2,3,4) [OF inv] k(1) unfolding objects_inv_def by (auto simp: s')
qed

lemma remove_key:
  assumes "distinct (map (f \<circ> fst) xs)" and "(p, v) \<in> set xs"
  shows "mset (map (f \<circ> fst) xs) = add_mset (f p) (mset (map (f \<circ> fst) (filter (\<lambda>(q, _). q \<noteq> p) xs)))"
  using assms
proof (induction xs)
  case (Cons x xs)
  show ?case
  proof (cases "fst x = p")
    case True
    have "q \<noteq> p" if "(q, w) \<in> set xs" for q w
    proof -
      have "f q \<in> set (map (f \<circ> fst) xs)" using that by force
      then show ?thesis using Cons.prems(1) True by auto
    qed
    then have "filter (\<lambda>(q, _). q \<noteq> p) xs = xs" by (auto simp: filter_id_conv)
    then have "filter (\<lambda>(q, _). q \<noteq> p) (x # xs) = xs" using True by (cases x) (simp only: filter.simps split fst_conv simp_thms if_False)
    then show ?thesis using True by (simp only: list.map mset.simps o_apply)
  next
    case False
    then show ?thesis using Cons by (auto simp: case_prod_beta)
  qed
qed simp

text \<open>What the end of an object has to leave, whichever way its block goes.\<close>

lemma drop_inv:
  assumes inv: "objects_inv stomp s" and one: "use_count s ptr = 1" and drop: "drop_shared stomp ptr s = Inr s'"
  shows "objects_inv stomp s'"
proof -
  obtain sz where o: "(ptr, sz) \<in> set (objects s)" using inv_blocks(5) [OF inv, of ptr] one by force
  from inv_objects [OF inv o] obtain n where sz: "0 < sz" and hd: "headers (heap_of s) (DetachHeader ptr) = sz + sizeof_MemoryHeader"
    and n: "block_size stomp sz = Some n" and blk: "(base stomp ptr, n) \<in> set (os_blocks s)" by (auto simp: block_ok_def)
  from drop one obtain h' where x: "xdelete stomp ptr (heap_of s) = Inr h'"
    and s': "s' = s\<lparr>heap_of := h', objects := filter (\<lambda>(p, _). p \<noteq> ptr) (objects s), use_count := (use_count s)(ptr := 0),
          os_blocks := (if freed h' = freed (heap_of s) then os_blocks s
            else filter (\<lambda>(b, _). b \<noteq> last (freed h')) (os_blocks s))\<rparr>"
    by (auto simp: drop_shared_def and_then_Inr_iff)
  have objs: "mset (map (base stomp \<circ> fst) (objects s)) = add_mset (base stomp ptr) (mset (map (base stomp \<circ> fst) (objects s')))"
    using remove_key [OF inv_distinct(1) [OF inv] o] by (simp add: s')
  have other: "base stomp p \<noteq> base stomp ptr" if "(p, t) \<in> set (objects s')" for p t
  proof -
    have "distinct (base stomp ptr # map (base stomp \<circ> fst) (objects s'))"
      using inv_distinct(1) [OF inv] objs by (metis mset.simps(2) mset_eq_imp_distinct_iff)
    then show ?thesis using that by force
  qed
  have uses: "0 < use_count s' p \<longleftrightarrow> p \<in> fst ` set (objects s')" for p
    using inv_blocks(5) [OF inv, of p] by (force simp: s')
  have sub: "x \<in> set (objects s)" if "x \<in> set (objects s')" for x using that by (auto simp: s')
  show ?thesis
  proof (cases "stomp \<or> int MAX_ALLOC_SIZE < sz + sizeof_MemoryHeader")
    case True
    then have h': "freed h' = freed (heap_of s) @ [base stomp ptr]" "headers h' = headers (heap_of s)"
      "pool_states h' = pool_states (heap_of s)"
      using xdelete_result [OF sz hd n] x by auto
    have os': "os_blocks s' = filter (\<lambda>(b, _). b \<noteq> base stomp ptr) (os_blocks s)" by (simp add: s' h'(1))
    have keep: "(b, m) \<in> set (os_blocks s')" if "(b, m) \<in> set (os_blocks s)" "b \<noteq> base stomp ptr" for b m
      using that by (simp add: os')
    have "block_ok stomp s' y" if y: "y \<in> set (objects s')" for y
    proof (cases y)
      case (Pair p t)
      show ?thesis unfolding Pair
        by (rule block_ok_other [OF inv_objects [OF inv sub [OF y], unfolded Pair] other [OF y [unfolded Pair]] _ keep])
          (simp_all add: s' h'(2) other [OF y [unfolded Pair]])
    qed
    moreover have "blockSize (pool_states h' k) = int (pools Memory ! k) \<and>
        (\<forall>m \<in> set (slist (pool_states h' k)). headers h' m = 0 \<and> (m, int (pools Memory ! k)) \<in> set (os_blocks s'))"
      if k: "k < length (pools Memory)" for k
    proof -
      have "base stomp ptr \<in> set (map (base stomp \<circ> fst) (objects s))" using o by force
      then have "m \<noteq> base stomp ptr" if "m \<in> set (slist (pool_states (heap_of s) k))" for m
        using inv_distinct(2) [OF inv] in_pooled [OF k that] by blast
      then show ?thesis using inv_pool [OF inv k] keep by (simp add: h')
    qed
    moreover have "mset (map fst (os_blocks s)) = add_mset (base stomp ptr) (mset (map fst (os_blocks s')))"
      using remove_key [of "\<lambda>b. b", OF _ blk] inv_blocks(2) [OF inv] by (simp add: os' comp_def)
    then have "mset (map fst (os_blocks s')) = mset (map (base stomp \<circ> fst) (objects s')) + mset (pooled (heap_of s'))"
      using inv_blocks(1) [OF inv] objs by (simp add: s' pooled_def h'(3))
    moreover have "distinct (map fst (os_blocks s'))" using inv_blocks(2) [OF inv] by (simp add: os' distinct_map_filter)
    moreover have "set (os_blocks s') \<subseteq> set (os_blocks s)" by (auto simp: os')
    moreover have "pooled (heap_of s') = pooled (heap_of s)" by (simp add: s' pooled_def h'(3))
    ultimately show ?thesis using uses inv_blocks(3,4,6) [OF inv] unfolding objects_inv_def
      by (simp add: s')
  next
    case False
    with xdelete_result [OF sz hd n] x obtain k where h': "freed h' = freed (heap_of s)" "headers h' = (headers (heap_of s))(DetachHeader ptr := 0)"
      and k: "poolTable Memory (nat (sz + sizeof_MemoryHeader)) = Some k" "n = int (pools Memory ! k)"
      and pl: "\<forall>i. slist (pool_states h' i) = (if i = k then DetachHeader ptr # slist (pool_states (heap_of s) i) else slist (pool_states (heap_of s) i)) \<and>
           blockSize (pool_states h' i) = blockSize (pool_states (heap_of s) i)"
      by auto
    have kl: "k < length (pools Memory)" by (rule table_index(1) [OF k(1)])
    have b: "base stomp ptr = DetachHeader ptr" using False by (simp add: base_def)
    have os': "os_blocks s' = os_blocks s" by (simp add: s' h'(1))
    have "block_ok stomp s' y" if y: "y \<in> set (objects s')" for y
    proof (cases y)
      case (Pair p t)
      show ?thesis unfolding Pair
        by (rule block_ok_other [OF inv_objects [OF inv sub [OF y], unfolded Pair] other [OF y [unfolded Pair]], where v = 0])
          (simp_all add: s' h')
    qed
    moreover have "blockSize (pool_states h' i) = int (pools Memory ! i) \<and>
        (\<forall>m \<in> set (slist (pool_states h' i)). headers h' m = 0 \<and> (m, int (pools Memory ! i)) \<in> set (os_blocks s'))"
      if i: "i < length (pools Memory)" for i
      using inv_pool [OF inv i] pl h'(2) blk b k(2) by (auto simp: os')
    moreover have "mset (pooled h') = add_mset (DetachHeader ptr) (mset (pooled (heap_of s)))"
    proof -
      let ?f = "\<lambda>i. slist (pool_states (heap_of s) i)"
      have "?f(k := DetachHeader ptr # ?f k) = (\<lambda>i. slist (pool_states h' i))" using pl by auto
      then have "mset (pooled h') + mset (?f k) = mset (pooled (heap_of s)) + mset (DetachHeader ptr # ?f k)"
        using pooled_upd [OF kl, of ?f "DetachHeader ptr # ?f k"] unfolding pooled_def by (simp only:)
      then show ?thesis by simp
    qed
    then have "mset (map fst (os_blocks s')) = mset (map (base stomp \<circ> fst) (objects s')) + mset (pooled (heap_of s'))"
      using inv_blocks(1) [OF inv] objs b by (simp add: os') (simp add: s')
    ultimately show ?thesis using uses inv_blocks(2,3,4) [OF inv] False unfolding objects_inv_def
      by (simp add: os') (simp add: s')
  qed
qed

lemma object_step_inv: "object_step stomp s s' \<Longrightarrow> objects_inv stomp s \<Longrightarrow> objects_inv stomp s'"
proof (induction rule: object_step.induct)
  case (os_make sz s fresh ptr s')
  then show ?case using make_asked_inv make_pooled_inv by (cases "os_asked stomp sz (heap_of s)") blast+
next
  case (os_copy s ptr)
  have "0 < use_count (copy_shared ptr s) p \<longleftrightarrow> 0 < use_count s p" for p using os_copy(1) by (simp add: copy_shared_def)
  moreover have "block_ok stomp (copy_shared ptr s) = block_ok stomp s" by (intro ext) (simp add: block_ok_def copy_shared_def)
  ultimately show ?case using os_copy(2) unfolding objects_inv_def by (simp add: copy_shared_def)
next
  case (os_drop s ptr s')
  show ?case
  proof (cases "use_count s ptr = 1")
    case True
    then show ?thesis using drop_inv os_drop(2,3) by blast
  next
    case False
    then have s': "s' = s\<lparr>use_count := (use_count s)(ptr := use_count s ptr - 1)\<rparr>" using os_drop(2) by (simp add: drop_shared_def)
    have "0 < use_count s' p \<longleftrightarrow> 0 < use_count s p" for p using os_drop(1) False by (simp add: s')
    moreover have "block_ok stomp s' = block_ok stomp s" by (intro ext) (simp add: block_ok_def s')
    ultimately show ?thesis using os_drop(3) unfolding objects_inv_def by (simp add: s')
  qed
qed

lemma objects_reachable_inv: "objects_reachable stomp s \<Longrightarrow> objects_inv stomp s"
proof (induction rule: objects_reachable.induct)
  case objects_init
  have "pooled Memory_heap = []" by (simp add: pooled_def Memory_heap_def MemoryPool_def concat_eq_Nil_conv)
  then show ?case by (simp add: objects_inv_def object_heap_def) (simp add: Memory_heap_def MemoryPool_def)
qed (rule object_step_inv)

section \<open>What the objects may rely on\<close>

text \<open>The bytes of a live object with its header lie in a block of the operating system.\<close>

lemma object_in_block:
  assumes "block_ok stomp s (p, sz)"
  shows "\<exists>n. (base stomp p, n) \<in> set (os_blocks s) \<and> base stomp p \<le> DetachHeader p \<and> p + sz \<le> base stomp p + n"
proof -
  from assms obtain n where sz: "0 < sz" and n: "block_size stomp sz = Some n" "(base stomp p, n) \<in> set (os_blocks s)"
    "stomp \<longrightarrow> p + sz = base stomp p + n" by (auto simp: block_ok_def)
  have "0 \<le> DetachHeader p mod PAGE_SIZE" by (simp add: PAGE_SIZE_def)
  then have "base stomp p \<le> DetachHeader p" by (simp add: base_def stomp_Release_def)
  moreover have "p + sz \<le> base stomp p + n"
    using n(3) block_size_fits [OF sz n(1)] by (cases stomp) (auto simp: base_def DetachHeader_def)
  ultimately show ?thesis using n(2) by blast
qed

text \<open>
  C15: shared objects have memory of their own. In every run of \<open>MakeShared\<close> and of copies and ends of its pointers,
  with the page allocator or with the pools, live objects do not overlap each other or each other's headers, each lies in
  a block the system has not got back, and the end of a pointer never faults: an assertion of \<open>Release\<close> or of a
  pool never fires.
\<close>
theorem shared_objects_apart:
  assumes "objects_reachable stomp s"
  shows "(\<forall>(p, sz) \<in> set (objects s). \<exists>(b, n) \<in> set (os_blocks s). b \<le> DetachHeader p \<and> p + sz \<le> b + n) \<and>
    (\<forall>(p, sz) \<in> set (objects s). \<forall>(q, tz) \<in> set (objects s). (p, sz) \<noteq> (q, tz) \<longrightarrow>
       p + sz \<le> DetachHeader q \<or> q + tz \<le> DetachHeader p) \<and>
    (\<forall>p. 0 < use_count s p \<longrightarrow> (\<exists>s'. drop_shared stomp p s = Inr s'))"
proof (intro conjI ballI allI impI)
  have inv: "objects_inv stomp s" by (rule objects_reachable_inv [OF assms])
  show "case x of (p, sz) \<Rightarrow> \<exists>(b, n) \<in> set (os_blocks s). b \<le> DetachHeader p \<and> p + sz \<le> b + n" if "x \<in> set (objects s)" for x
    using object_in_block inv_objects [OF inv that] by (cases x) fastforce
  show "case x of (p, sz) \<Rightarrow> \<forall>(q, tz) \<in> set (objects s). (p, sz) \<noteq> (q, tz) \<longrightarrow> p + sz \<le> DetachHeader q \<or> q + tz \<le> DetachHeader p"
    if x: "x \<in> set (objects s)" for x
  proof (cases x)
    case (Pair p sz)
    have "p + sz \<le> DetachHeader q \<or> q + tz \<le> DetachHeader p" if y: "(q, tz) \<in> set (objects s)" "(p, sz) \<noteq> (q, tz)" for q tz
    proof -
      have "inj_on (base stomp \<circ> fst) (set (objects s))" using inv_distinct(1) [OF inv] by (simp add: distinct_map)
      then have "base stomp p \<noteq> base stomp q" using x y Pair by (metis comp_apply fst_conv inj_onD)
      moreover obtain n m where "(base stomp p, n) \<in> set (os_blocks s)" "base stomp p \<le> DetachHeader p" "p + sz \<le> base stomp p + n"
        "(base stomp q, m) \<in> set (os_blocks s)" "base stomp q \<le> DetachHeader q" "q + tz \<le> base stomp q + m"
        using object_in_block inv_objects [OF inv] x y(1) Pair by metis
      ultimately show ?thesis using inv_blocks(3) [OF inv, of "(base stomp p, n)" "(base stomp q, m)"]
        by (auto simp: apart_def)
    qed
    then show ?thesis using Pair by auto
  qed
  show "\<exists>s'. drop_shared stomp p s = Inr s'" if use: "0 < use_count s p" for p
  proof (cases "use_count s p = 1")
    case True
    obtain sz where "(p, sz) \<in> set (objects s)" using inv_blocks(5) [OF inv, of p] use by force
    from inv_objects [OF inv this] obtain n where "0 < sz" "headers (heap_of s) (DetachHeader p) = sz + sizeof_MemoryHeader"
      "block_size stomp sz = Some n" by (auto simp: block_ok_def)
    from xdelete_result [OF this] True show ?thesis by (auto simp: drop_shared_def)
  next
    case False
    then show ?thesis by (simp add: drop_shared_def)
  qed
qed

text \<open>Two objects of the debug build.\<close>

definition demo_first :: object_heap where
  "demo_first = snd (projr (MakeShared True 4096 100 object_heap))"

definition demo_objects :: object_heap where
  "demo_objects = snd (projr (MakeShared True 65536 5000 demo_first))"

lemmas object_evals = MakeShared_def xnew_def PoolAllocator_Alloc_def Allocate_def AttachHeader_def DetachHeader_def
  stomp_Alloc_def stomp_pages_def PAGE_SIZE_def sizeof_MemoryHeader_def os_asked_def block_size_def Let_def

lemma demo_first_made:
  "MakeShared True 4096 100 object_heap = Inr (8092, demo_first)" "objects demo_first = [(8092, 100)]"
  "os_blocks demo_first = [(4096, 4096)]"
  by (simp_all add: demo_first_def object_evals object_heap_def)

lemma demo_objects_made:
  "MakeShared True 65536 5000 demo_first = Inr (68728, demo_objects)" "objects demo_objects = [(68728, 5000), (8092, 100)]"
  "os_blocks demo_objects = [(65536, 8192), (4096, 4096)]"
  by (simp_all add: demo_objects_def object_evals demo_first_made)

lemma demo_objects_reachable: "objects_reachable True demo_objects"
proof -
  have "objects_reachable True demo_first"
    by (rule objects_next [OF objects_init os_make [OF _ _ demo_first_made(1)]])
      (simp_all add: os_fresh_def object_heap_def PAGE_SIZE_def)
  then show ?thesis
    by (rule objects_next [OF _ os_make [OF _ _ demo_objects_made(1)]])
      (simp_all add: os_fresh_def demo_first_made object_evals)
qed

lemma shared_objects_apart_witness:
  "objects demo_objects = [(68728, 5000), (8092, 100)] \<and> (8092 + 100 \<le> DetachHeader 68728 \<or> 68728 + 5000 \<le> DetachHeader 8092)"
  using shared_objects_apart [OF demo_objects_reachable] by (simp add: demo_objects_made)

section \<open>The end of the pools\<close>

lemma fold_delete_pool:
  assumes "distinct ks"
  shows "freed (fold delete_pool ks h) = freed h @ concat (map (\<lambda>k. slist (pool_states h k)) ks)"
  using assms
proof (induction ks arbitrary: h)
  case (Cons k ks)
  have "map (\<lambda>i. slist (pool_states (delete_pool k h) i)) ks = map (\<lambda>i. slist (pool_states h i)) ks"
    using Cons.prems by (intro map_cong) (auto simp: delete_pool_def)
  moreover have "freed (fold delete_pool ks (delete_pool k h)) =
      freed (delete_pool k h) @ concat (map (\<lambda>i. slist (pool_states (delete_pool k h) i)) ks)"
    using Cons by simp
  moreover have "freed (delete_pool k h) = freed h @ slist (pool_states h k)" by (simp add: delete_pool_def)
  ultimately show ?case by (simp del: map_eq_conv)
qed simp

text \<open>
  C37: memory goes back once. What the destructor of the memory gives back, with what went back before, is every
  block the system handed out, each once, except the blocks of objects still alive: without live objects
  nothing is lost and nothing is given back twice.
\<close>
theorem memory_given_back:
  assumes "objects_reachable stomp s"
  shows "\<exists>back. freed (Memory_destructor (heap_of s)) = freed (heap_of s) @ back \<and> distinct back \<and>
    mset back + mset (map (base stomp \<circ> fst) (objects s)) = mset (map fst (os_blocks s)) \<and>
    (\<forall>(p, sz) \<in> set (objects s). base stomp p \<notin> set back)"
proof -
  have inv: "objects_inv stomp s" by (rule objects_reachable_inv [OF assms])
  have "freed (Memory_destructor (heap_of s)) = freed (heap_of s) @ pooled (heap_of s)"
    by (simp add: Memory_destructor_def fold_delete_pool pooled_def)
  moreover have "\<forall>(p, sz) \<in> set (objects s). base stomp p \<notin> set (pooled (heap_of s))"
    using inv_distinct(2) [OF inv] by fastforce
  ultimately show ?thesis using inv_blocks(1) [OF inv] inv_distinct(3) [OF inv]
    by (intro exI [of _ "pooled (heap_of s)"]) simp
qed

lemma memory_given_back_witness:
  "\<exists>back. freed (Memory_destructor (heap_of demo_objects)) = freed (heap_of demo_objects) @ back \<and>
     mset back + {#base True 68728, base True 8092#} = {#65536, 4096#}"
  using memory_given_back [OF demo_objects_reachable] by (auto simp: demo_objects_made)

end
