(* ===== verification/Packet_Generator.thy ===== *)
theory Packet_Generator
  imports "HOL-Library.Multiset" Packets
begin

text \<open>
  The generator of the packet handlers (\<open>Tools/PacketGenerator\<close>): \<open>ProtoParser.py\<close> numbers the messages of
  the protocol description, and the Jinja template \<open>PacketHandler.h\<close> is expanded for them. The expansion
  is given by the file it makes, as data, and by what the code of that file does. \<open>Protocol.proto\<close> is
  here line by line, without the line ends.
\<close>

section \<open>Strings\<close>

definition is_space :: "char \<Rightarrow> bool" where
  "is_space c \<longleftrightarrow> c \<in> set [CHR 0x09, CHR 0x0A, CHR 0x0B, CHR 0x0C, CHR 0x0D, CHR '' '']"

text \<open>\<open>line.split()\<close>: the runs of characters between white space.\<close>

fun split_ws :: "string \<Rightarrow> string list" where
  "split_ws [] = []"
| "split_ws (c # cs) =
     (if is_space c then split_ws cs
      else (case cs of [] \<Rightarrow> [[c]] | d # ds \<Rightarrow>
        if is_space d then [c] # split_ws cs
        else (case split_ws cs of [] \<Rightarrow> [[c]] | w # ws \<Rightarrow> (c # w) # ws)))"

text \<open>\<open>upper()\<close> on the letters of ASCII, the only ones an identifier of a protocol description has.\<close>

definition upper_char :: "char \<Rightarrow> char" where
  "upper_char c = (let n = of_char c :: nat in if 97 \<le> n \<and> n \<le> 122 then char_of (n - 32) else c)"

definition upper :: "string \<Rightarrow> string" where "upper = map upper_char"

definition startswith :: "string \<Rightarrow> string \<Rightarrow> bool" where
  "startswith s pre \<longleftrightarrow> take (length pre) s = pre"

section \<open>ProtoParser\<close>

record packet =
  pkt_name :: string
  pkt_id :: nat

record proto_parser =
  recv_pkt :: "packet list"
  send_pkt :: "packet list"
  total_pkt :: "packet list"
  next_id :: nat
  recv_prefix :: string
  send_prefix :: string

definition ProtoParser :: "nat \<Rightarrow> string \<Rightarrow> string \<Rightarrow> proto_parser" where
  "ProtoParser start_id r s =
     \<lparr>recv_pkt = [], send_pkt = [], total_pkt = [], next_id = start_id, recv_prefix = r, send_prefix = s\<rparr>"

text \<open>A line \<open>message\<close> without a name has no second word: \<open>IndexError\<close>.\<close>

definition parse_line :: "string \<Rightarrow> proto_parser \<Rightarrow> proto_parser res" where
  "parse_line line p =
     (if \<not> startswith line ''message'' then Inr p
      else (case split_ws line of
          _ # name # _ \<Rightarrow>
            (let pkt = \<lparr>pkt_name = upper name, pkt_id = next_id p\<rparr>;
                 done = (\<lambda>q. q\<lparr>total_pkt := total_pkt q @ [pkt], next_id := next_id q + 1\<rparr>) in
             if startswith (upper name) (recv_prefix p) then Inr (done (p\<lparr>recv_pkt := recv_pkt p @ [pkt]\<rparr>))
             else if startswith (upper name) (send_prefix p) then Inr (done (p\<lparr>send_pkt := send_pkt p @ [pkt]\<rparr>))
             else Inr p)
        | _ \<Rightarrow> Inl Uncaught))"

definition parse_proto :: "string list \<Rightarrow> proto_parser \<Rightarrow> proto_parser res" where
  "parse_proto lines p = fold_res parse_line lines p"

section \<open>The expanded template\<close>

text \<open>The names and declarations the loops of the template write, in their order.\<close>

record handler_file =
  hf_class :: string
  hf_enum :: "(string \<times> nat) list"
  hf_handlers :: "string list"
  hf_tables :: "(header_type \<times> nat \<times> string) list"
  hf_overloads :: "(header_type \<times> string \<times> nat) list"

definition render :: "string \<Rightarrow> proto_parser \<Rightarrow> handler_file" where
  "render output p =
     \<lparr>hf_class = output,
      hf_enum = map (\<lambda>k. (''PKT_'' @ pkt_name k, pkt_id k)) (total_pkt p),
      hf_handlers = map (\<lambda>k. ''Handle_'' @ pkt_name k) (recv_pkt p),
      hf_tables = concat (map (\<lambda>k. [(TcpPacketHeader, pkt_id k, pkt_name k), (UdpPacketHeader, pkt_id k, pkt_name k)]) (recv_pkt p)),
      hf_overloads = concat (map (\<lambda>k. [(TcpPacketHeader, pkt_name k, pkt_id k), (UdpPacketHeader, pkt_name k, pkt_id k)]) (send_pkt p))\<rparr>"

text \<open>\<open>main\<close> of \<open>PacketGenerator.py\<close>: ids from 1000, the prefixes and the class name from the command line.\<close>

definition PacketGenerator :: "string list \<Rightarrow> string \<Rightarrow> string \<Rightarrow> string \<Rightarrow> handler_file res" where
  "PacketGenerator lines output recv send =
     and_then (parse_proto lines (ProtoParser 1000 recv send)) (\<lambda>p. Inr (render output p))"

text \<open>
  What the code of a generated file does. A table entry is the message class whose parser and function
  the call goes to; \<open>Some None\<close> is \<open>Handle_INVALID\<close>, and the tables end before \<open>UINT16_MAX\<close>.
\<close>

definition file_Init :: "handler_file \<Rightarrow> header_type \<Rightarrow> nat \<Rightarrow> string option option" where
  "file_Init hf h =
     foldl (\<lambda>tab (h', i, name). if h' = h then tab(i \<mapsto> Some name) else tab)
       (\<lambda>i. if i < UINT16_MAX then Some None else None) (hf_tables hf)"

definition file_HandlePacket ::
  "handler_file \<Rightarrow> header_type \<Rightarrow> (string \<Rightarrow> BYTE list \<Rightarrow> 'msg option) \<Rightarrow> BYTE list \<Rightarrow> (string \<times> 'msg) option res" where
  "file_HandlePacket hf h ParseFromArray buffer =
     (case file_Init hf h (unat (header_id buffer)) of
        None \<Rightarrow> Inl OutOfBounds
      | Some None \<Rightarrow> Inr None
      | Some (Some name) \<Rightarrow>
          (case ParseFromArray name (drop (sizeof_header h) buffer) of
             None \<Rightarrow> Inr None
           | Some pkt \<Rightarrow> Inr (Some (name, pkt))))"

text \<open>
  Overload resolution: the id the overload for a message class passes on, none when there is no such
  overload and the file does not compile. \<open>HandlePacket<UdpPacketHeader>\<close> frames a \<open>C_ACK\<close>.
\<close>

definition overload :: "handler_file \<Rightarrow> header_type \<Rightarrow> string \<Rightarrow> nat option" where
  "overload hf h name = map_option (snd \<circ> snd) (find (\<lambda>(h', n, _). h' = h \<and> n = name) (hf_overloads hf))"

definition compiles :: "handler_file \<Rightarrow> bool" where
  "compiles hf \<longleftrightarrow> overload hf UdpPacketHeader ''C_ACK'' \<noteq> None"

section \<open>The protocol\<close>

abbreviation tabbed :: "string \<Rightarrow> string" where
  "tabbed line \<equiv> CHR 0x09 # line"

definition Protocol_proto :: "string list" where
  "Protocol_proto =
    [''syntax = \"proto3\";'',
     ''package Protocol;'',
     '''',
     ''import \"Enum.proto\";'',
     ''import \"Struct.proto\";'',
     '''',
     ''message C_LOGIN'',
     ''{'',
     tabbed ''string id = 1;'',
     tabbed ''string pw = 2;'',
     ''}'',
     '''',
     ''message S_LOGIN'',
     ''{'',
     tabbed ''uint32 userId = 1;'',
     tabbed ''//repeated Player players = 2;'',
     ''}'',
     '''',
     ''message C_CREATE_ROOM'',
     ''{'',
     ''}'',
     '''',
     ''message S_CREATE_ROOM'',
     ''{'',
     tabbed ''bool success = 1;'',
     tabbed ''uint32 roomId = 2;'',
     ''}'',
     '''',
     ''message C_ENTER_ROOM'',
     ''{'',
     tabbed ''uint32 roomId = 1;'',
     ''}'',
     '''',
     ''message S_ENTER_ROOM'',
     ''{'',
     tabbed ''bool success = 1;'',
     tabbed ''uint32 roomId = 2;'',
     ''}'',
     '''',
     ''message C_SYNC_ROOMLIST'',
     ''{'',
     ''}'',
     '''',
     ''message S_SYNC_ROOMLIST'',
     ''{'',
     tabbed ''RoomList roomList = 1;'',
     ''}'',
     '''',
     ''message C_ENTER_GAME'',
     ''{'',
     tabbed ''//uint64 playerIndex = 1;'',
     ''}'',
     '''',
     ''message S_ENTER_GAME'',
     ''{'',
     tabbed ''bool success = 1;'',
     tabbed ''string ip = 2;'',
     tabbed ''uint32 port = 3;'',
     ''}'',
     '''',
     ''message C_ACK'',
     ''{'',
     tabbed ''uint32 latestSequence = 1;'',
     tabbed ''uint32 bitfield = 2; '',
     ''}'',
     '''',
     ''message S_ACK'',
     ''{'',
     tabbed ''uint32 latestSequence = 1;'',
     tabbed ''uint32 bitfield = 2;'',
     ''}'',
     '''',
     ''message C_HANDSHAKE'',
     ''{'',
     tabbed ''uint32 userId = 1;'',
     ''}'',
     '''',
     ''message S_HANDSHAKE'',
     ''{'',
     tabbed ''bool success = 1;'',
     ''}'',
     '''',
     ''message C_CHAT'',
     ''{'',
     tabbed ''string msg = 1;'',
     ''}'',
     '''',
     ''message S_CHAT'',
     ''{'',
     tabbed ''uint64 playerId = 1;'',
     tabbed ''string msg = 2;'',
     ''}'',
     '''',
     ''message C_SYNC_TIME'',
     ''{'',
     ''}'',
     '''',
     ''message S_SYNC_TIME'',
     ''{'',
     tabbed ''double timestamp = 1;'',
     ''}'',
     '''',
     ''message C_SPAWN_ACTOR'',
     ''{'',
     ''}'',
     '''',
     ''message S_SPAWN_ACTOR'',
     ''{'',
     tabbed ''uint32 playerActorId = 1;'',
     tabbed ''repeated ActorInfo actorInfo = 2;'',
     ''}'',
     '''',
     ''message C_SYNC_ACTOR'',
     ''{'',
     tabbed ''double timestamp = 1;'',
     tabbed ''ActorInfo actorInfo = 2;'',
     ''}'',
     '''',
     ''message S_SYNC_ACTOR'',
     ''{'',
     tabbed ''double timestamp = 1;'',
     tabbed ''repeated ActorInfo actorInfo = 2;'',
     ''}'',
     '''',
     ''message C_PLAYER_INPUT'',
     ''{'',
     tabbed ''uint32 sequence = 1;'',
     tabbed ''uint32 keyField = 2;'',
     tabbed ''uint32 yaw_pitch = 3;'',
     tabbed ''double timestamp = 4;'',
     ''}'',
     '''',
     ''message S_PLAYER_INPUT'' @ tabbed ''// Don't use'',
     ''{'',
     ''}'',
     '''',
     ''message C_HIT_RESULT'',
     ''{'',
     ''}'',
     '''',
     ''message S_HIT_RESULT'',
     ''{'',
     tabbed ''uint32 actorId = 1;'',
     tabbed ''uint64 position = 2;'',
     ''}'']"

fun class_name :: "packet_class \<Rightarrow> string" where
  "class_name C_LOGIN = ''C_LOGIN''" | "class_name S_LOGIN = ''S_LOGIN''"
| "class_name C_CREATE_ROOM = ''C_CREATE_ROOM''" | "class_name S_CREATE_ROOM = ''S_CREATE_ROOM''"
| "class_name C_ENTER_ROOM = ''C_ENTER_ROOM''" | "class_name S_ENTER_ROOM = ''S_ENTER_ROOM''"
| "class_name C_SYNC_ROOMLIST = ''C_SYNC_ROOMLIST''" | "class_name S_SYNC_ROOMLIST = ''S_SYNC_ROOMLIST''"
| "class_name C_ENTER_GAME = ''C_ENTER_GAME''" | "class_name S_ENTER_GAME = ''S_ENTER_GAME''"
| "class_name C_ACK = ''C_ACK''" | "class_name S_ACK = ''S_ACK''"
| "class_name C_HANDSHAKE = ''C_HANDSHAKE''" | "class_name S_HANDSHAKE = ''S_HANDSHAKE''"
| "class_name C_CHAT = ''C_CHAT''" | "class_name S_CHAT = ''S_CHAT''"
| "class_name C_SYNC_TIME = ''C_SYNC_TIME''" | "class_name S_SYNC_TIME = ''S_SYNC_TIME''"
| "class_name C_SPAWN_ACTOR = ''C_SPAWN_ACTOR''" | "class_name S_SPAWN_ACTOR = ''S_SPAWN_ACTOR''"
| "class_name C_SYNC_ACTOR = ''C_SYNC_ACTOR''" | "class_name S_SYNC_ACTOR = ''S_SYNC_ACTOR''"
| "class_name C_PLAYER_INPUT = ''C_PLAYER_INPUT''" | "class_name S_PLAYER_INPUT = ''S_PLAYER_INPUT''"
| "class_name C_HIT_RESULT = ''C_HIT_RESULT''" | "class_name S_HIT_RESULT = ''S_HIT_RESULT''"

definition all_classes :: "packet_class list" where
  "all_classes =
     [C_LOGIN, S_LOGIN, C_CREATE_ROOM, S_CREATE_ROOM, C_ENTER_ROOM, S_ENTER_ROOM, C_SYNC_ROOMLIST, S_SYNC_ROOMLIST,
      C_ENTER_GAME, S_ENTER_GAME, C_ACK, S_ACK, C_HANDSHAKE, S_HANDSHAKE, C_CHAT, S_CHAT, C_SYNC_TIME, S_SYNC_TIME,
      C_SPAWN_ACTOR, S_SPAWN_ACTOR, C_SYNC_ACTOR, S_SYNC_ACTOR, C_PLAYER_INPUT, S_PLAYER_INPUT, C_HIT_RESULT, S_HIT_RESULT]"

definition packet_of :: "packet_class \<Rightarrow> packet" where
  "packet_of c = \<lparr>pkt_name = class_name c, pkt_id = unat (PKT c)\<rparr>"

text \<open>The names in the order of the description.\<close>

definition message_names :: "string list \<Rightarrow> string list" where
  "message_names lines = map (\<lambda>l. upper (split_ws l ! 1)) (filter (\<lambda>l. startswith l ''message'') lines)"

lemma Protocol_names: "message_names Protocol_proto = map class_name all_classes"
  by code_simp

section \<open>Parsing any description\<close>

fun numbered :: "nat \<Rightarrow> string list \<Rightarrow> packet list" where
  "numbered i [] = []"
| "numbered i (n # ns) = \<lparr>pkt_name = n, pkt_id = i\<rparr> # numbered (Suc i) ns"

lemma numbered_names [simp]: "map pkt_name (numbered i ns) = ns" "length (numbered i ns) = length ns"
  "map pkt_id (numbered i ns) = [i..<i + length ns]"
  by (induction ns arbitrary: i) (simp_all add: upt_conv_Cons del: upt_Suc)

definition well_formed :: "string \<Rightarrow> bool" where
  "well_formed line \<longleftrightarrow> startswith line ''message'' \<longrightarrow> 2 \<le> length (split_ws line)"

definition known :: "string \<Rightarrow> string \<Rightarrow> string \<Rightarrow> bool" where
  "known r s n \<longleftrightarrow> startswith n r \<or> startswith n s"

definition parsed :: "string list \<Rightarrow> proto_parser \<Rightarrow> proto_parser" where
  "parsed names p =
     (let new = numbered (next_id p) (filter (known (recv_prefix p) (send_prefix p)) names)
      in p\<lparr>recv_pkt := recv_pkt p @ filter (\<lambda>k. startswith (pkt_name k) (recv_prefix p)) new,
           send_pkt := send_pkt p @ filter (\<lambda>k. \<not> startswith (pkt_name k) (recv_prefix p)) new,
           total_pkt := total_pkt p @ new, next_id := next_id p + length new\<rparr>)"

lemma two_words: "2 \<le> length ws \<longleftrightarrow> (\<exists>a b cs. ws = a # b # cs)"
  by (cases ws; cases "tl ws") auto

lemma parse_line_result:
  "parse_line line p =
     (if \<not> well_formed line then Inl Uncaught
      else Inr (parsed (message_names [line]) p))"
proof (cases "startswith line ''message''")
  case True
  show ?thesis
  proof (cases "2 \<le> length (split_ws line)")
    case two: True
    then obtain a b cs where "split_ws line = a # b # cs" by (auto simp: two_words)
    then show ?thesis
      using True two by (simp add: parse_line_def well_formed_def parsed_def message_names_def known_def Let_def)
  next
    case one: False
    then have "(case split_ws line of x # name # y \<Rightarrow> P name | _ \<Rightarrow> Inl Uncaught) = Inl Uncaught" for P :: "string \<Rightarrow> proto_parser res"
      by (auto split: list.splits)
    then show ?thesis using True one by (simp add: parse_line_def well_formed_def)
  qed
qed (simp add: parse_line_def well_formed_def parsed_def message_names_def)

lemma numbered_append: "numbered i (xs @ ys) = numbered i xs @ numbered (i + length xs) ys"
  by (induction xs arbitrary: i) simp_all

lemma parsed_append: "parsed ys (parsed xs p) = parsed (xs @ ys) p"
  by (simp add: parsed_def Let_def numbered_append)

lemma parse_proto_result:
  "parse_proto lines p =
     (if \<forall>line \<in> set lines. well_formed line then Inr (parsed (message_names lines) p) else Inl Uncaught)"
proof (induction lines arbitrary: p)
  case Nil
  show ?case by (simp add: parse_proto_def parsed_def message_names_def)
next
  case (Cons l ls)
  have "message_names (l # ls) = message_names [l] @ message_names ls" by (simp add: message_names_def)
  then show ?case
    using Cons by (simp add: parse_proto_def parse_line_result parsed_append)
qed

lemma startswith_both:
  assumes "startswith n r" and "startswith n s"
  shows "startswith r s \<or> startswith s r"
proof (cases "length r \<le> length s")
  case True
  then have "take (length r) s = take (length r) n" using assms(2) by (metis min.absorb1 startswith_def take_take)
  then show ?thesis using assms(1) by (simp add: startswith_def)
next
  case False
  then have "take (length s) r = take (length s) n" using assms(1) by (metis linear min.absorb1 startswith_def take_take)
  then show ?thesis using assms(2) by (simp add: startswith_def)
qed

lemma mset_split: "mset (filter P xs) + mset (filter (\<lambda>x. \<not> P x) xs) = mset xs"
  by (induction xs) auto

text \<open>
  The two sides of a connection are generated from one description with the prefixes exchanged.
  When neither prefix begins with the other, both runs number every message alike, consecutively from the
  same start, and what one side registers handlers for is what the other has overloads to send.
\<close>
theorem both_sides_agree:
  assumes "\<not> startswith r s" and "\<not> startswith s r" and "parse_proto lines (ProtoParser n r s) = Inr p"
  shows "\<exists>q. parse_proto lines (ProtoParser n s r) = Inr q \<and> total_pkt q = total_pkt p \<and>
    recv_pkt q = send_pkt p \<and> send_pkt q = recv_pkt p \<and> map pkt_id (total_pkt p) = [n..<n + length (total_pkt p)] \<and>
    mset (total_pkt p) = mset (recv_pkt p) + mset (send_pkt p)"
proof -
  have wf: "\<forall>line \<in> set lines. well_formed line" and p: "p = parsed (message_names lines) (ProtoParser n r s)"
    using assms(3) by (auto simp: parse_proto_result split: if_splits)
  define new where "new = numbered n (filter (known r s) (message_names lines))"
  have k: "known s r = known r s" by (auto simp: known_def)
  have names: "map pkt_name new = filter (known r s) (message_names lines)" by (simp add: new_def)
  have split_new: "startswith (pkt_name x) s \<longleftrightarrow> \<not> startswith (pkt_name x) r" if "x \<in> set new" for x
  proof -
    have "pkt_name x \<in> set (map pkt_name new)" using that by simp
    then have "known r s (pkt_name x)" unfolding names by simp
    then show ?thesis using startswith_both [of "pkt_name x" r s] assms(1,2) by (auto simp: known_def)
  qed
  then have "filter (\<lambda>x. startswith (pkt_name x) s) new = filter (\<lambda>x. \<not> startswith (pkt_name x) r) new"
    "filter (\<lambda>x. \<not> startswith (pkt_name x) s) new = filter (\<lambda>x. startswith (pkt_name x) r) new"
    by (auto intro: filter_cong)
  moreover have "map pkt_id new = [n..<n + length new]" by (simp add: new_def)
  ultimately show ?thesis
    using wf by (intro exI [of _ "parsed (message_names lines) (ProtoParser n s r)"])
      (simp add: parse_proto_result p parsed_def ProtoParser_def Let_def k new_def [symmetric] mset_split [of "\<lambda>k. startswith (pkt_name k) r"])
qed

theorem both_sides_agree_witness:
  "\<exists>p. parse_proto [''message S_X'', ''{'', ''message C_X'', ''message Other''] (ProtoParser 1000 ''S_'' ''C_'') = Inr p \<and>
     total_pkt p = [\<lparr>pkt_name = ''S_X'', pkt_id = 1000\<rparr>, \<lparr>pkt_name = ''C_X'', pkt_id = 1001\<rparr>] \<and>
     (\<exists>q. parse_proto [''message S_X'', ''{'', ''message C_X'', ''message Other''] (ProtoParser 1000 ''C_'' ''S_'') = Inr q \<and>
       total_pkt q = total_pkt p \<and> recv_pkt q = send_pkt p)"
proof -
  let ?p = "\<lparr>recv_pkt = [\<lparr>pkt_name = ''S_X'', pkt_id = 1000\<rparr>], send_pkt = [\<lparr>pkt_name = ''C_X'', pkt_id = 1001\<rparr>],
    total_pkt = [\<lparr>pkt_name = ''S_X'', pkt_id = 1000\<rparr>, \<lparr>pkt_name = ''C_X'', pkt_id = 1001\<rparr>], next_id = 1002,
    recv_prefix = ''S_'', send_prefix = ''C_''\<rparr>"
  have "parse_proto [''message S_X'', ''{'', ''message C_X'', ''message Other''] (ProtoParser 1000 ''S_'' ''C_'') = Inr ?p"
    by code_simp
  moreover have "\<not> startswith ''S_'' ''C_''" "\<not> startswith ''C_'' ''S_''" by code_simp+
  ultimately show ?thesis using both_sides_agree [of "''S_''" "''C_''"] by fastforce
qed

section \<open>The files of this protocol\<close>

lemma Protocol_well_formed: "\<forall>line \<in> set Protocol_proto. well_formed line"
proof -
  have "list_all well_formed Protocol_proto" by code_simp
  then show ?thesis by (simp add: list_all_iff)
qed

lemma client_parser:
  "parse_proto Protocol_proto (ProtoParser 1000 ''S_'' ''C_'') =
     Inr \<lparr>recv_pkt = map packet_of registered, send_pkt = map packet_of (filter (\<lambda>c. c \<notin> set registered) all_classes),
       total_pkt = map packet_of all_classes, next_id = 1026, recv_prefix = ''S_'', send_prefix = ''C_''\<rparr>"
proof -
  have "parsed (map class_name all_classes) (ProtoParser 1000 ''S_'' ''C_'') =
      \<lparr>recv_pkt = map packet_of registered, send_pkt = map packet_of (filter (\<lambda>c. c \<notin> set registered) all_classes),
       total_pkt = map packet_of all_classes, next_id = 1026, recv_prefix = ''S_'', send_prefix = ''C_''\<rparr>"
    by code_simp
  then show ?thesis using Protocol_well_formed by (simp add: parse_proto_result Protocol_names)
qed

lemma server_parser:
  "\<exists>p. parse_proto Protocol_proto (ProtoParser 1000 ''C_'' ''S_'') = Inr p \<and> send_pkt p = map packet_of registered"
proof -
  have "send_pkt (parsed (map class_name all_classes) (ProtoParser 1000 ''C_'' ''S_'')) = map packet_of registered"
    by code_simp
  then show ?thesis using Protocol_well_formed by (simp add: parse_proto_result Protocol_names)
qed

lemma pairs_fold:
  "foldl (\<lambda>tab (h', i, name). if h' = h then tab(i \<mapsto> Some name) else tab) tab
     (concat (map (\<lambda>k. [(TcpPacketHeader, pkt_id k, pkt_name k), (UdpPacketHeader, pkt_id k, pkt_name k)]) ks)) =
   foldl (\<lambda>tab k. tab(pkt_id k \<mapsto> Some (pkt_name k))) tab ks"
  by (induction ks arbitrary: tab) (cases h; simp)+

definition entry_name :: "handler \<Rightarrow> string option" where
  "entry_name x = (case x of Handle_INVALID \<Rightarrow> None | Handler c \<Rightarrow> Some (class_name c))"

lemma tables_fold:
  assumes "\<And>i. tab' i = map_option entry_name (tab i)"
  shows "foldl (\<lambda>tab k. tab(pkt_id k \<mapsto> Some (pkt_name k))) tab' (map packet_of cs) i =
    map_option entry_name (foldl (\<lambda>tab c. tab(unat (PKT c) \<mapsto> Handler c)) tab cs i)"
  using assms by (induction cs arbitrary: tab tab') (simp_all add: packet_of_def entry_name_def)

lemma client_tables:
  "file_Init (render out \<lparr>recv_pkt = map packet_of registered, send_pkt = ks, total_pkt = ts, next_id = n, recv_prefix = r, send_prefix = s\<rparr>) h i =
     map_option entry_name (ServerPacketHandler_Init i)"
  unfolding file_Init_def render_def handler_file.simps proto_parser.simps pairs_fold ServerPacketHandler_Init_def
  by (rule tables_fold) (simp add: entry_name_def)

text \<open>Generated for the client: the names and numbers of the file, its tables and its overloads.\<close>

lemma client_file:
  "\<exists>hf. PacketGenerator Protocol_proto ''ServerPacketHandler'' ''S_'' ''C_'' = Inr hf \<and>
     hf_enum hf = map (\<lambda>c. (''PKT_'' @ class_name c, unat (PKT c))) all_classes \<and>
     hf_handlers hf = map (\<lambda>c. ''Handle_'' @ class_name c) registered \<and>
     (\<forall>h buffer. file_HandlePacket hf h parser buffer =
        and_then (dispatch h (parser \<circ> class_name) buffer) (\<lambda>called. Inr (map_option (map_prod class_name id) called))) \<and>
     (\<forall>h c. overload hf h (class_name c) = (if c \<in> set registered then None else Some (unat (PKT c)))) \<and> compiles hf"
proof -
  define p where "p = \<lparr>recv_pkt = map packet_of registered, send_pkt = map packet_of (filter (\<lambda>c. c \<notin> set registered) all_classes),
       total_pkt = map packet_of all_classes, next_id = 1026, recv_prefix = ''S_'', send_prefix = ''C_''\<rparr>"
  define hf where "hf = render ''ServerPacketHandler'' p"
  have "PacketGenerator Protocol_proto ''ServerPacketHandler'' ''S_'' ''C_'' = Inr hf"
    by (simp add: PacketGenerator_def client_parser hf_def p_def)
  moreover have "hf_enum hf = map (\<lambda>c. (''PKT_'' @ class_name c, unat (PKT c))) all_classes"
    "hf_handlers hf = map (\<lambda>c. ''Handle_'' @ class_name c) registered"
    by (simp_all add: hf_def p_def render_def packet_of_def)
  moreover have "file_HandlePacket hf h parser buffer =
      and_then (dispatch h (parser \<circ> class_name) buffer) (\<lambda>called. Inr (map_option (map_prod class_name id) called))" for h buffer
    unfolding file_HandlePacket_def dispatch_def hf_def p_def client_tables
    by (auto simp: entry_name_def split: option.split handler.split)
  moreover have over: "overload hf h (class_name c) = (if c \<in> set registered then None else Some (unat (PKT c)))" for h c
  proof -
    have all: "c \<in> set all_classes" by (cases c) (simp_all add: all_classes_def)
    have inj: "class_name c = class_name d \<longleftrightarrow> c = d" if "d \<in> set all_classes" for d
    proof -
      have "distinct (map class_name all_classes)" by code_simp
      then show ?thesis using all that by (auto simp: distinct_map dest: inj_onD)
    qed
    have find: "map_option (snd \<circ> snd) (find (\<lambda>(h', n, _). h' = h \<and> n = class_name c)
        (concat (map (\<lambda>k. [(TcpPacketHeader, pkt_name k, pkt_id k), (UdpPacketHeader, pkt_name k, pkt_id k)]) (map packet_of cs)))) =
        (if c \<in> set cs then Some (unat (PKT c)) else None)" if "set cs \<subseteq> set all_classes" for cs
      using that
    proof (induction cs)
      case (Cons d cs)
      then have "class_name d = class_name c \<longleftrightarrow> d = c" using inj [of d] by auto
      then show ?case using Cons by (cases h) (auto simp: packet_of_def)
    qed simp
    have "set (filter (\<lambda>c. c \<notin> set registered) all_classes) \<subseteq> set all_classes" by auto
    from find [OF this] show ?thesis
      using all by (simp add: overload_def hf_def p_def render_def)
  qed
  moreover have "compiles hf" using over [of UdpPacketHeader C_ACK] by (simp add: compiles_def registered_def)
  ultimately show ?thesis by blast
qed

text \<open>
  Generated for the server, as \<open>GenPackets.bat\<close> does first, the file does not compile: the template frames
  a \<open>C_ACK\<close> whatever the prefixes are, and the server's overloads are those of the \<open>S_\<close> messages.
\<close>
theorem server_file_broken:
  "\<exists>hf. PacketGenerator Protocol_proto ''ClientPacketHandler'' ''C_'' ''S_'' = Inr hf \<and> \<not> compiles hf"
proof -
  obtain p where p: "parse_proto Protocol_proto (ProtoParser 1000 ''C_'' ''S_'') = Inr p" "send_pkt p = map packet_of registered"
    using server_parser by blast
  have "find (\<lambda>(h', n, _). h' = UdpPacketHeader \<and> n = ''C_ACK'')
      (concat (map (\<lambda>k. [(TcpPacketHeader, pkt_name k, pkt_id k), (UdpPacketHeader, pkt_name k, pkt_id k)]) (map packet_of registered))) = None"
    by (simp add: registered_def packet_of_def)
  then have "\<not> compiles (render ''ClientPacketHandler'' p)"
    by (simp add: compiles_def overload_def render_def p(2))
  then show ?thesis using p(1) by (simp add: PacketGenerator_def)
qed

end
