(* ===== verification/Generated_Handler.thy ===== *)
theory Generated_Handler
  imports Packet_Generator
begin

text \<open>
  The code of a file expanded from the template \<open>PacketHandler.h\<close> (the copy in \<open>Common/Protobuf/bin\<close>, which
  \<open>GenPackets.bat\<close> expands): dispatch of both transports with the acknowledgement of numbered datagrams, and
  framing through the overload of a message class. For the client it is the code of the checked-in
  \<open>ServerPacketHandler.h\<close>, which Packets models.
\<close>

text \<open>
  \<open>MakeSendBufferTcp\<close> and \<open>MakeSendBufferUdp\<close> for a message class; without an overload the call does not compile.
  The text of \<open>MakeSendBufferImpl\<close> in the template does not depend on the description.
\<close>

definition file_MakeSendBuffer ::
  "handler_file \<Rightarrow> header_type \<Rightarrow> nat \<Rightarrow> nat \<Rightarrow> string \<Rightarrow> BYTE list \<Rightarrow> packet_memory \<Rightarrow> packet_memory res option" where
  "file_MakeSendBuffer hf h t i name body w =
     map_option (\<lambda>pktId. MakeSendBufferImpl h t i body (of_nat pktId) w) (overload hf h name)"

text \<open>\<open>HandlePacket<UdpPacketHeader>\<close>: number, acknowledgement, table; \<open>None\<close> when it does not compile.\<close>

definition file_HandlePacket_Udp ::
  "handler_file \<Rightarrow> (string \<Rightarrow> BYTE list \<Rightarrow> 'msg option) \<Rightarrow> (uint16 \<Rightarrow> uint32 \<Rightarrow> BYTE list) \<Rightarrow> nat \<Rightarrow> nat \<Rightarrow> BYTE list \<Rightarrow>
   packet_memory \<Rightarrow> reliable_udp \<Rightarrow> ((string \<times> 'msg) option \<times> packet_memory \<times> reliable_udp) res option" where
  "file_HandlePacket_Udp hf ParseFromArray ack_body t i buffer w s =
     (let seq = header_sequence buffer; (accepted, s1) = CheckAndRecordReceiveHistory seq s in
      case file_MakeSendBuffer hf UdpPacketHeader t i ''C_ACK'' (ack_body seq (GenerateAckBitfield seq s1)) w of
        None \<Rightarrow> None
      | Some made \<Rightarrow>
          Some (and_then
            (if seq > 0 then
               (if accepted
                then and_then made (\<lambda>w1. Inr (w1, Send i (s1\<lparr>buffer_bytes := (buffer_bytes s1)(i := packet_bytes i w1)\<rparr>)))
                else Inr (w, s1))
             else Inr (w, s))
            (\<lambda>(w1, s1). and_then (file_HandlePacket hf UdpPacketHeader ParseFromArray buffer) (\<lambda>called. Inr (called, w1, s1)))))"

text \<open>
  C13: Generated for the client from \<open>Protocol.proto\<close>, the file is the checked-in \<open>ServerPacketHandler.h\<close>: the
  26 ids are \<open>PKT\<close>, the handlers are those of \<open>registered\<close>, packets of both transports are acknowledged and
  dispatched as the client does it, and messages are framed as the client does it, with overloads for all
  classes that are not received and for no others.
\<close>
theorem client_file_generated:
  "\<exists>hf. PacketGenerator Protocol_proto ''ServerPacketHandler'' ''S_'' ''C_'' = Inr hf \<and>
     hf_enum hf = map (\<lambda>c. (''PKT_'' @ class_name c, unat (PKT c))) all_classes \<and>
     hf_handlers hf = map (\<lambda>c. ''Handle_'' @ class_name c) registered \<and>
     (\<forall>buffer. file_HandlePacket hf TcpPacketHeader parser buffer =
        and_then (HandlePacket_Tcp (parser \<circ> class_name) buffer) (\<lambda>called. Inr (map_option (map_prod class_name id) called))) \<and>
     (\<forall>ack_body t i buffer w s. file_HandlePacket_Udp hf parser ack_body t i buffer w s =
        Some (and_then (HandlePacket_Udp (parser \<circ> class_name) ack_body t i buffer w s)
          (\<lambda>(called, w', s'). Inr (map_option (map_prod class_name id) called, w', s')))) \<and>
     (\<forall>t i c body w. file_MakeSendBuffer hf TcpPacketHeader t i (class_name c) body w =
        (if c \<in> set registered then None else Some (MakeSendBufferTcp t i body c w)) \<and>
      file_MakeSendBuffer hf UdpPacketHeader t i (class_name c) body w =
        (if c \<in> set registered then None else Some (MakeSendBufferUdp t i body c w)))"
proof -
  obtain hf where hf: "PacketGenerator Protocol_proto ''ServerPacketHandler'' ''S_'' ''C_'' = Inr hf"
    "hf_enum hf = map (\<lambda>c. (''PKT_'' @ class_name c, unat (PKT c))) all_classes"
    "hf_handlers hf = map (\<lambda>c. ''Handle_'' @ class_name c) registered"
    and disp: "\<And>h buffer. file_HandlePacket hf h parser buffer =
        and_then (dispatch h (parser \<circ> class_name) buffer) (\<lambda>called. Inr (map_option (map_prod class_name id) called))"
    and over: "\<And>h c. overload hf h (class_name c) = (if c \<in> set registered then None else Some (unat (PKT c)))"
    using client_file [of parser] by blast
  have make: "file_MakeSendBuffer hf h t i (class_name c) body w =
      (if c \<in> set registered then None else Some (MakeSendBufferImpl h t i body (PKT c) w))" for h t i c body w
    by (simp add: file_MakeSendBuffer_def over)
  have ack: "file_MakeSendBuffer hf UdpPacketHeader t i ''C_ACK'' body w = Some (MakeSendBufferUdp t i body C_ACK w)" for t i body w
    using make [of UdpPacketHeader t i C_ACK] by (simp add: registered_def MakeSendBufferUdp_def)
  have "file_HandlePacket_Udp hf parser ack_body t i buffer w s =
      Some (and_then (HandlePacket_Udp (parser \<circ> class_name) ack_body t i buffer w s)
        (\<lambda>(called, w', s'). Inr (map_option (map_prod class_name id) called, w', s')))" for ack_body t i buffer w s
    by (simp add: file_HandlePacket_Udp_def HandlePacket_Udp_def acknowledge_def ack disp Let_def case_prod_beta split: and_then_split)
  then show ?thesis using hf disp make
    by (intro exI [of _ hf]) (simp add: HandlePacket_Tcp_def MakeSendBufferTcp_def MakeSendBufferUdp_def)
qed

end
