(* ===== verification/Spec2Isabelle.thy ===== *)
theory Spec2Isabelle
  imports Framing Send_Buffer Reliable_Udp Tcp_Session Rw_Lock Deadlock_Profiler Memory_Pools Job_Queue Job_Timer
    Transform_Compressor Time_Manager Interpolator Actors Input_Manager Packets Player Udp_Service Client_World Game_Loop
    Byte_Stream Type_Cast Ref_Counting Lock_System Tcp_Connection Udp_Link Gl_Driver Service_Start Process_Exit
    Job_System Shared_Objects Generated_Handler
begin

text \<open>
  Verification of the network core and the game client of a networked shooter prototype (C++, Windows,
  boost asio). \<open>ClientNetworkCore\<close> is the runtime: locks, pools, jobs, buffers, TCP and UDP sessions, the
  service that owns them. \<open>DummyClient\<close> is the client built on it: packet dispatch, scenes and actors,
  prediction, interpolation, time synchronisation, the main loop.

  The runtime, from the bottom:
  \<^item> Prelude: words, results with faults (\<open>CoreMacro.h\<close>), byte lists, the named collections of the proofs;
    Float_Model: binary floating point by rounding rationals, which time stamps and positions need.
  \<^item> Recv_Buffer (\<open>RecvBuffer.cpp\<close>), Framing (the header structs and \<open>IsParsingPacket\<close> of \<open>Session.cpp\<close>) and
    Tcp_Session (\<open>TcpSession\<close>): the TCP path. The session is a step relation whose completion handlers may
    run with any result; the packets delivered are a function of the byte stream alone.
  \<^item> Send_Buffer (\<open>SendBuffer.cpp\<close>): chunks shared by the buffers carved from them, and when one is reused.
  \<^item> Reliable_Udp (\<open>ReliableUdpSession\<close>): numbering, receive history, acknowledgement field, resending.
    Udp_Service (the UDP half of \<open>Service.cpp\<close>, \<open>UdpReceiver.cpp\<close>): which session a datagram belongs to.
  \<^item> Rw_Lock (\<open>Lock.cpp\<close>), Deadlock_Profiler, Memory_Pools (\<open>Memory.cpp\<close>, \<open>MemoryPool.cpp\<close>, \<open>Allocator.h\<close>,
    \<open>ObjectPool.h\<close>), Ref_Counting (\<open>RefCounting.h\<close>: objects that contain pointers, \<open>delete this\<close> with the release of the members, the
    operations of \<open>TSharedPtr\<close> as steps of a thread; safe under a discipline of the client, which \<open>v = v->next\<close> breaks and then
    reads freed memory), Type_Cast (\<open>TypeCast.h\<close>, with inheritance as the closure of the declared bases), Byte_Stream (\<open>BufferReader\<close>, \<open>BufferWriter\<close>).
  \<^item> Job_Queue (\<open>JobQueue.cpp\<close>, \<open>LockQueue.h\<close>, \<open>GlobalQueue.cpp\<close>) and Job_Timer (\<open>JobTimer.cpp\<close>): who may run a
    queue, in which order jobs run, and when a timed job is handed out.
  \<^item> Service_Start (\<open>ThreadManager.cpp\<close>, \<open>Service::Start\<close>): the start of the service interleaved with the threads it launches, which
    run the \<open>io_context\<close>. A schedule in which a thread enters \<open>run\<close> before anything is posted leaves the client deaf, every other
    one lets it serve; Process_Exit (\<open>CoreGlobal.cpp\<close>, \<open>DECLARE_SINGLETON\<close>): construction and end of globals and singletons.

  \<^item> Shared_Objects (\<open>xnew\<close>, \<open>xdelete\<close>, \<open>MakeShared\<close> of \<open>Memory.h\<close>, \<open>~Memory\<close>): objects on Memory_Pools, from the blocks of the
    operating system to the last shared pointer.

  Four theories put parts of the runtime together:
  \<^item> Lock_System: the guards of all threads, every lock of the program (Rw_Lock) and the profiler (Deadlock_Profiler), one step per
    atomic access. It shows which circular waits the profiler rules out, and which it cannot see.
  \<^item> Job_System: all job queues, the global queue (\<open>GlobalQueue.cpp\<close>), the timer and the worker threads (\<open>DoGlobalQueueWork\<close>,
    \<open>DistributeReservedJob\<close>), with the nesting of calls on a thread's stack. Each queue is a Job_Queue, the timer a Job_Timer. A call of
    \<open>DistributeReservedJob\<close> by a thread left alone is a function on this system, a \<open>while_option\<close> shown to end.
  \<^item> Tcp_Connection: two TCP sessions, each with its chunks, queue and receive buffer, joined by a byte stream and ending in the
    dispatch of Packets: handlers are called for the messages sent, in order.
  \<^item> Udp_Link: two reliable UDP sessions over a network that loses, repeats and reorders datagrams.

  The client:
  \<^item> Game_Values (constants of \<open>Values.h\<close>, \<open>Utils.h\<close>), Vectors (\<open>Types.h\<close>), Transform_Compressor: how positions,
    velocities and angles are packed, and how exactly they come back.
  \<^item> Time_Manager (clock synchronisation), Input_Manager (keys and mouse), Interpolator (snapshots of remote actors), Actors
    (actors and the scene that owns them).
  \<^item> Packets (\<open>ServerPacketHandler.h\<close>): packet ids, framing into a chunk, dispatch of both transports.
  \<^item> Player (\<open>Player.cpp\<close>): numbering, sending and applying inputs, and replaying them on a state from the server.
  \<^item> Client_World (\<open>ServerPacketHandler.cpp\<close>, the managers): every handler on one record of the singletons, and which messages fault.
  \<^item> Game_Loop (\<open>DummyClient.cpp\<close>, \<open>Game.cpp\<close>, parts of \<open>Renderer.cpp\<close>): the fixed-tick loop, drawing decisions, the room menu, and
    runs in which the steps of the main thread, packets, datagrams and connections interleave.
  \<^item> Gl_Renderer (\<open>Renderer.cpp\<close>): initialisation, meshes, drawing, camera and shutdown as sequences of OpenGL calls. OpenGL is an
    argument, a record of functions. Gl_Frames evaluates them on the part of OpenGL's documentation the renderer uses; Gl_Driver
    states what the renderer relies on as the locale \<open>gl_driver\<close>, interpreted on that documentation, and refines frames to pictures.

  The tool: Packet_Generator (\<open>ProtoParser.py\<close>, \<open>PacketGenerator.py\<close> and the template \<open>PacketHandler.h\<close>) parses the protocol
  description and numbers its messages; Generated_Handler has the code of an expanded file: generated for the client, it is the
  code Packets models.

  State is a record per class, in the code's field names; a method is a function on it, or a step of an
  inductive relation where threads or callbacks interleave, one step per atomic access. A crash macro is a
  value of the type of results. Integers have their C width where it matters. Ghost fields, marked in the
  records, remember history for the statements and are read by no operation.

  What the lemmas show: each theory has an invariant of its state that every operation keeps, the functional
  behaviour of the operations from states that satisfy it, and where the code does not do what it means to,
  a theorem that states what it does. The properties that span most components are \<open>client_runs_safe\<close> of Game_Loop (in every run
  the client stays well formed, and a step faults exactly in the listed ways, up to a thousandth of a radian of the yaw a tick sends), \<open>messages_arrive_in_order\<close> of Tcp_Connection,
  \<open>acknowledged_means_accepted\<close> of Udp_Link, \<open>circular_waits_stay_in_one_class\<close> of Lock_System, \<open>given_jobs_run_once\<close> of Job_System and \<open>frames_show_the_picture\<close> of Gl_Driver.

  Bounds and assumptions: loops over data are structural or have a measure. The tick loop of \<open>main\<close> is a partial function; it is
  shown to return for elapsed times below \<open>2 ^ 24\<close> seconds (beyond some \<open>2 ^ 48\<close> subtracting a tick changes nothing). The search of the deadlock
  profiler has fuel, shown to suffice. A thread of Job_System may leave the loop of \<open>DoGlobalQueueWork\<close> early; ticks do not wrap. Handlers, ticks and frames are atomic steps although up to four threads run the
  \<open>io_context\<close> and the scene has no lock; data races of the client are outside the model. Send buffers made by the client are kept
  for ever in Client_World, while the code drops them after the write; Send_Buffer has the release. The clock is read once
  per pass over the actors, and once per pass over the debug objects, which the code compares one by one with the clock. Message bodies have at
  most 5994 bytes. \<open>Memory::Allocate\<close> adds the size of the header without the wrap of its \<open>int32\<close>, and the allocator of the system does not
  fail. In the documentation of OpenGL that Gl_Frames evaluates, a new name is a function of the names in use, \<open>glClear\<close> leaves the recorded drawings, programs link
  and memory suffices. Destructors of reference-counted classes only release their members.

  Not modelled: the packet classes generated from the protocol (their bytes and parser are arguments); the GLFW and ImGui
  calls of \<open>Renderer.cpp\<close>, its viewport, line widths and clear colour (\<open>glViewport\<close>, \<open>glLineWidth\<close>, \<open>glClearColor\<close>) and the text of its shaders, whose results the client does not read back; and the libraries behind the
  program (asio, OpenGL, GLFW, ImGui, glm, the C mathematics, the Windows API), whose results are parameters.
\<close>

end
